(* ===== verification/Prelude_Logme.thy ===== *)
theory Prelude_Logme
  imports Main "HOL-Library.Word" "HOL-Library.Sublist" "HOL-Library.Char_ord"
    "HOL-Library.List_Lexorder"
begin

text \<open>
  Shared vocabulary of the development: the log levels, the C strings, decimal numbers as the
  C++ library prints and reads them, and the generic list lemmas that several components use.
  The collections \<open>logme_defs\<close> (operation definitions a proof unfolds) and \<open>logme_inv\<close>
  (invariant definitions) are filled by the components.
\<close>

named_theorems logme_defs "definitions of the operations of the components"
named_theorems logme_inv "definitions of the invariants of the components"

type_synonym u64 = "64 word"
type_synonym u32 = "32 word"

section \<open>Log levels (Logme/Types.h)\<close>

datatype level = LEVEL_DEBUG | LEVEL_INFO | LEVEL_WARN | LEVEL_ERROR | LEVEL_CRITICAL

fun level_num :: "level \<Rightarrow> nat" where
  "level_num LEVEL_DEBUG = 0"
| "level_num LEVEL_INFO = 1"
| "level_num LEVEL_WARN = 2"
| "level_num LEVEL_ERROR = 3"
| "level_num LEVEL_CRITICAL = 4"

lemma level_num_inject [simp]: "level_num a = level_num b \<longleftrightarrow> a = b"
  by (cases a; cases b) simp_all

instantiation level :: linorder
begin

definition less_eq_level :: "level \<Rightarrow> level \<Rightarrow> bool" where
  "less_eq_level a b \<longleftrightarrow> level_num a \<le> level_num b"

definition less_level :: "level \<Rightarrow> level \<Rightarrow> bool" where
  "less_level a b \<longleftrightarrow> level_num a < level_num b"

instance
  by standard (auto simp: less_eq_level_def less_level_def)

end

lemmas level_order = less_eq_level_def less_level_def

definition DEFAULT_LEVEL :: level where
  "DEFAULT_LEVEL = LEVEL_INFO"

section \<open>Characters and C strings\<close>

definition char_code :: "char \<Rightarrow> nat" where
  "char_code c = of_char c"

definition NUL :: char where
  "NUL = CHR 0x00"

text \<open>\<open>c_str\<close> is what a callee that stops at the terminator sees of a \<open>std::string\<close>.\<close>

definition c_str :: "string \<Rightarrow> string" where
  "c_str s = takeWhile (\<lambda>c. c \<noteq> NUL) s"

lemma c_str_id: "NUL \<notin> set s \<Longrightarrow> c_str s = s"
  unfolding c_str_def by (simp add: takeWhile_eq_all_conv) blast

lemma c_str_no_nul [simp]: "NUL \<notin> set (c_str s)"
  unfolding c_str_def by (auto dest: set_takeWhileD)

definition is_digit :: "char \<Rightarrow> bool" where
  "is_digit c \<longleftrightarrow> 48 \<le> char_code c \<and> char_code c \<le> 57"

definition digit_val :: "char \<Rightarrow> nat" where
  "digit_val c = char_code c - 48"

definition digit_char :: "nat \<Rightarrow> char" where
  "digit_char n = char_of (48 + n)"

lemma char_code_digit_char [simp]: "n < 10 \<Longrightarrow> char_code (digit_char n) = 48 + n"
  by (simp add: char_code_def digit_char_def)

lemma is_digit_digit_char [simp]: "n < 10 \<Longrightarrow> is_digit (digit_char n)"
  by (simp add: is_digit_def)

lemma digit_val_digit_char [simp]: "n < 10 \<Longrightarrow> digit_val (digit_char n) = n"
  by (simp add: digit_val_def)

section \<open>Decimal text of an unsigned number (\<open>std::to_string\<close>)\<close>

fun show_nat :: "nat \<Rightarrow> string" where
  "show_nat n = (if n < 10 then [digit_char n] else show_nat (n div 10) @ [digit_char (n mod 10)])"

declare show_nat.simps [simp del]

definition show_int :: "int \<Rightarrow> string" where
  "show_int i = (if i < 0 then CHR ''-'' # show_nat (nat (- i)) else show_nat (nat i))"

definition dec_val :: "string \<Rightarrow> nat" where
  "dec_val s = foldl (\<lambda>n c. n * 10 + digit_val c) 0 s"

lemma dec_val_snoc [simp]: "dec_val (s @ [c]) = dec_val s * 10 + digit_val c"
  by (simp add: dec_val_def)

lemma show_nat_digits: "list_all is_digit (show_nat n)"
proof (induction n rule: show_nat.induct)
  case (1 n)
  then show ?case by (subst show_nat.simps) auto
qed

lemma show_nat_not_Nil [simp]: "show_nat n \<noteq> []"
  by (subst show_nat.simps) simp

lemma dec_val_show_nat [simp]: "dec_val (show_nat n) = n"
proof (induction n rule: show_nat.induct)
  case (1 n)
  show ?case
  proof (cases "n < 10")
    case True
    then show ?thesis by (subst show_nat.simps) (simp add: dec_val_def)
  next
    case False
    with 1 have "dec_val (show_nat (n div 10)) = n div 10" by simp
    with False show ?thesis by (subst show_nat.simps) simp
  qed
qed

lemma show_nat_set: "c \<in> set (show_nat n) \<Longrightarrow> is_digit c"
  using show_nat_digits by (auto simp: list_all_iff)

section \<open>Generic lemmas\<close>

lemma takeWhile_digits_append:
  "list_all P ds \<Longrightarrow> (xs \<noteq> [] \<Longrightarrow> \<not> P (hd xs)) \<Longrightarrow> takeWhile P (ds @ xs) = ds"
  by (induction ds) (auto simp: takeWhile_eq_Nil_iff)

lemma dropWhile_digits_append:
  "list_all P ds \<Longrightarrow> (xs \<noteq> [] \<Longrightarrow> \<not> P (hd xs)) \<Longrightarrow> dropWhile P (ds @ xs) = xs"
  by (induction ds) (auto simp: dropWhile_eq_self_iff)

lemma dropWhile_none: "(\<And>c. c \<in> set s \<Longrightarrow> \<not> P c) \<Longrightarrow> dropWhile P s = s"
  by (cases s) auto

lemma find_append_None:
  "find P xs = None \<Longrightarrow> find P (xs @ ys) = find P ys"
  by (induction xs) (auto split: if_splits)

lemma sum_list_map_remove1:
  fixes f :: "'a \<Rightarrow> nat"
  shows "x \<in> set xs \<Longrightarrow> f x + (\<Sum>y\<leftarrow>remove1 x xs. f y) = (\<Sum>y\<leftarrow>xs. f y)"
  by (induction xs) auto

end
