(* ===== verification/Text_Utils.thy ===== *)
theory Text_Utils
  imports Prelude_Logme
begin

text \<open>
  The string helpers of \<open>logme/source/Utils.cpp\<close>: trimming, ASCII lower case, word splitting,
  line sorting, joining and \<open>ReplaceAll\<close>. A \<open>std::string\<close> is a list of bytes. \<open>ReplaceAll\<close> is a
  loop that need not end, so its model is a \<open>partial_function (option)\<close>: \<open>None\<close> is a call that
  never returns. Lemmas: the trimmed text, the words of a split, when \<open>ReplaceAll\<close> returns and
  that its result no longer holds the pattern, and when it cannot return.
\<close>

section \<open>Trimming and case\<close>

definition trim_space :: "char \<Rightarrow> bool" where
  "trim_space c \<longleftrightarrow> c \<in> {CHR 0x20, CHR 0x09, CHR 0x0A, CHR 0x0D, CHR 0x0C, CHR 0x0B}"

text \<open>\<open>v.erase(v.find_last_not_of(spaces) + 1)\<close>: for a text of spaces only, \<open>npos + 1\<close> is 0.\<close>

definition erase_right :: "string \<Rightarrow> string" where
  "erase_right s = rev (dropWhile trim_space (rev s))"

definition TrimSpaces :: "string \<Rightarrow> string" where
  "TrimSpaces str = dropWhile trim_space (erase_right str)"

definition to_lower_char :: "char \<Rightarrow> char" where
  "to_lower_char c = (if 65 \<le> char_code c \<and> char_code c \<le> 90 then char_of (char_code c + 32) else c)"

definition ToLowerAsciiInplace :: "string \<Rightarrow> string" where
  "ToLowerAsciiInplace v = map to_lower_char v"

lemma trim_space_not_digit: "is_digit c \<Longrightarrow> \<not> trim_space c"
  by (auto simp: trim_space_def is_digit_def char_code_def)

lemma to_lower_char_digit [simp]: "is_digit c \<Longrightarrow> to_lower_char c = c"
  by (simp add: to_lower_char_def is_digit_def)

lemma to_lower_char_NUL: "to_lower_char x = NUL \<Longrightarrow> x = NUL"
proof (rule ccontr)
  assume l: "to_lower_char x = NUL" and x: "x \<noteq> NUL"
  then have "65 \<le> char_code x" "char_code x \<le> 90" "char_of (char_code x + 32) = NUL"
    by (auto simp: to_lower_char_def split: if_splits)
  then have "(of_char (char_of (char_code x + 32) :: char) :: nat) = 0"
    by (simp add: NUL_def)
  with \<open>char_code x \<le> 90\<close> show False by simp
qed

lemma TrimSpaces_id: "(\<And>c. c \<in> set s \<Longrightarrow> \<not> trim_space c) \<Longrightarrow> TrimSpaces s = s"
proof -
  assume s: "\<And>c. c \<in> set s \<Longrightarrow> \<not> trim_space c"
  then have "dropWhile trim_space (rev s) = rev s" and "dropWhile trim_space s = s"
    by (auto intro: dropWhile_none)
  then show ?thesis by (simp add: TrimSpaces_def erase_right_def)
qed

lemma erase_right_snoc: "\<not> trim_space c \<Longrightarrow> erase_right (s @ [c]) = s @ [c]"
  by (simp add: erase_right_def)

lemma TrimSpaces_snoc: "\<not> trim_space c \<Longrightarrow> \<exists>t. TrimSpaces (s @ [c]) = t @ [c] \<and> suffix t s"
proof -
  assume c: "\<not> trim_space c"
  have "dropWhile trim_space (s @ [c]) = dropWhile trim_space s @ [c]"
    using c by (induction s) auto
  then show ?thesis
    using c by (auto simp: TrimSpaces_def erase_right_snoc suffix_dropWhile)
qed

lemma TrimSpaces_ends:
  "TrimSpaces s \<noteq> [] \<Longrightarrow> \<not> trim_space (hd (TrimSpaces s)) \<and> \<not> trim_space (last (TrimSpaces s))"
proof -
  assume ne: "TrimSpaces s \<noteq> []"
  then have first: "\<not> trim_space (hd (TrimSpaces s))"
    unfolding TrimSpaces_def by (rule hd_dropWhile)
  have "suffix (TrimSpaces s) (erase_right s)"
    by (simp add: TrimSpaces_def suffix_dropWhile)
  then obtain p where p: "erase_right s = p @ TrimSpaces s" by (auto simp: suffix_def)
  with ne have last: "last (TrimSpaces s) = last (erase_right s)" and e: "erase_right s \<noteq> []"
    by auto
  from e have d: "dropWhile trim_space (rev s) \<noteq> []" by (simp add: erase_right_def)
  have "last (erase_right s) = hd (dropWhile trim_space (rev s))"
    by (simp add: erase_right_def last_rev)
  with last hd_dropWhile [OF d] first show ?thesis by simp
qed

section \<open>Splitting, sorting, joining\<close>

text \<open>
  The loop of \<open>WordSplit\<close> on the text from \<open>start\<close> on. The code leaves the loop when the
  delimiter found is the last character (\<open>start = end + 1 = s.length()\<close>), so a trailing
  delimiter yields no empty word, also with \<open>ignoreEmpty = false\<close>.
\<close>

fun word_split_loop :: "string \<Rightarrow> bool \<Rightarrow> bool \<Rightarrow> string \<Rightarrow> string list" where
  "word_split_loop delimiters trim ignoreEmpty s =
     (if s = [] then []
      else let token = takeWhile (\<lambda>c. c \<notin> set delimiters) s;
               rest = drop (Suc (length token)) s;
               tok = (if trim then TrimSpaces token else token);
               words = word_split_loop delimiters trim ignoreEmpty rest
           in if \<not> ignoreEmpty \<or> tok \<noteq> [] then tok # words else words)"

declare word_split_loop.simps [simp del]

definition WordSplit :: "string \<Rightarrow> string \<Rightarrow> bool \<Rightarrow> bool \<Rightarrow> string list \<times> nat" where
  "WordSplit s delimiters trim ignoreEmpty =
     (let words = word_split_loop delimiters trim ignoreEmpty s in (words, length words))"

definition SortLines :: "string \<Rightarrow> string" where
  "SortLines s =
     concat (map (\<lambda>l. l @ [CHR 0x0A]) (sort (fst (WordSplit s [CHR 0x0A] True True))))"

definition Join :: "string list \<Rightarrow> string \<Rightarrow> string" where
  "Join arr separator =
     foldl (\<lambda>result item. (if result \<noteq> [] then result @ separator else result) @ item) [] arr"

lemma TrimSpaces_set: "set (TrimSpaces s) \<subseteq> set s"
  by (auto simp: TrimSpaces_def erase_right_def dest!: set_dropWhileD)

lemma word_split_loop_words:
  "w \<in> set (word_split_loop ds tr ig s) \<Longrightarrow> set w \<inter> set ds = {} \<and> set w \<subseteq> set s \<and> (ig \<longrightarrow> w \<noteq> [])"
proof (induction ds tr ig s rule: word_split_loop.induct)
  case (1 ds tr ig s)
  let ?tok = "takeWhile (\<lambda>c. c \<notin> set ds) s"
  have tok: "set ?tok \<inter> set ds = {}" "set ?tok \<subseteq> set s"
    by (auto dest: set_takeWhileD)
  have trimmed: "set (TrimSpaces ?tok) \<inter> set ds = {}" "set (TrimSpaces ?tok) \<subseteq> set s"
    using tok TrimSpaces_set by blast+
  show ?case
  proof (cases "s = []")
    case True
    with "1.prems" show ?thesis by (simp add: word_split_loop.simps)
  next
    case False
    let ?rest = "drop (Suc (length ?tok)) s"
    have sub: "set ?rest \<subseteq> set s" by (rule set_drop_subset)
    from False "1.prems"
    have "w \<in> set (word_split_loop ds tr ig ?rest) \<or>
        (w = (if tr then TrimSpaces ?tok else ?tok) \<and> (ig \<longrightarrow> w \<noteq> []))"
      by (auto simp: word_split_loop.simps [of ds tr ig s] Let_def split: if_splits)
    then show ?thesis
    proof (elim disjE)
      assume "w \<in> set (word_split_loop ds tr ig ?rest)"
      from "1.IH" [OF False refl refl refl this] sub show ?thesis by blast
    next
      assume "w = (if tr then TrimSpaces ?tok else ?tok) \<and> (ig \<longrightarrow> w \<noteq> [])"
      with tok trimmed show ?thesis by (auto split: if_splits)
    qed
  qed
qed

section \<open>\<open>ReplaceAll\<close>\<close>

text \<open>\<open>str.find(what)\<close>: the first position where \<open>what\<close> stands, \<open>None\<close> for \<open>npos\<close>.\<close>

fun find_sub :: "string \<Rightarrow> string \<Rightarrow> nat option" where
  "find_sub what [] = (if what = [] then Some 0 else None)"
| "find_sub what (c # cs) =
     (if prefix what (c # cs) then Some 0 else map_option Suc (find_sub what cs))"

lemma find_sub_Some:
  "find_sub what s = Some p \<Longrightarrow> s = take p s @ what @ drop (p + length what) s"
proof (induction what s arbitrary: p rule: find_sub.induct)
  case (1 what)
  then show ?case by (auto split: if_splits)
next
  case (2 what c cs)
  show ?case
  proof (cases "prefix what (c # cs)")
    case True
    with "2.prems" show ?thesis by (auto simp: prefix_def)
  next
    case False
    with "2.prems" obtain q where q: "find_sub what cs = Some q" "p = Suc q" by auto
    from "2.IH" [OF False q(1)] q(2) show ?thesis by simp
  qed
qed

lemma find_sub_None_iff: "find_sub what s = None \<longleftrightarrow> \<not> sublist what s"
proof (induction what s rule: find_sub.induct)
  case (1 what)
  then show ?case by simp
next
  case (2 what c cs)
  then show ?case by (auto simp: sublist_Cons_right)
qed

partial_function (option) replace_loop :: "string \<Rightarrow> string \<Rightarrow> string \<Rightarrow> string option" where
  "replace_loop what on str =
     (case find_sub what str of
        None \<Rightarrow> Some str
      | Some pos \<Rightarrow> replace_loop what on (take pos str @ on @ drop (pos + length what) str))"

definition ReplaceAll :: "string \<Rightarrow> string \<Rightarrow> string \<Rightarrow> string option" where
  "ReplaceAll text what on = (if what = on then Some text else replace_loop what on text)"

lemma replace_loop_no_occurrence:
  assumes "replace_loop what on str = Some r"
  shows "\<not> sublist what r"
proof (rule replace_loop.raw_induct [where P = "\<lambda>what on str r. \<not> sublist what r", OF _ assms])
  fix f and what on str r :: string
  assume IH: "\<And>what on str r. f what on str = Some r \<Longrightarrow> \<not> sublist what r"
    and eq: "(case find_sub what str of None \<Rightarrow> Some str
        | Some pos \<Rightarrow> f what on (take pos str @ on @ drop (pos + length what) str)) = Some r"
  show "\<not> sublist what r"
  proof (cases "find_sub what str")
    case None
    with eq show ?thesis by (simp add: find_sub_None_iff)
  next
    case (Some p)
    with eq IH show ?thesis by simp
  qed
qed

text \<open>
  One round removes one occurrence of \<open>what\<close>. With a character of \<open>what\<close> that \<open>on\<close> does not
  hold, the number of those characters drops, and so the loop ends.
\<close>

lemma replace_round_count:
  assumes "find_sub what str = Some p" and "c \<in> set what" and "c \<notin> set on"
  shows "count_list (take p str @ on @ drop (p + length what) str) c < count_list str c"
proof -
  have s: "str = take p str @ what @ drop (p + length what) str"
    by (rule find_sub_Some [OF assms(1)])
  have "0 < count_list what c"
    using assms(2) by (metis count_list_0_iff gr_zeroI)
  moreover have "count_list on c = 0" using assms(3) by simp
  moreover have "count_list str c = count_list (take p str) c + count_list what c
      + count_list (drop (p + length what) str) c"
    by (subst s) (simp add: count_list_append)
  ultimately show ?thesis by simp
qed

lemma replace_loop_returns:
  assumes "c \<in> set what" and "c \<notin> set on"
  shows "\<exists>r. replace_loop what on str = Some r"
proof (induction "count_list str c" arbitrary: str rule: less_induct)
  case less
  show ?case
  proof (cases "find_sub what str")
    case None
    then show ?thesis by (simp add: replace_loop.simps)
  next
    case (Some p)
    with less [OF replace_round_count [OF Some assms]]
    show ?thesis by (simp add: replace_loop.simps [of what on str])
  qed
qed

lemma replace_loop_returns_shorter:
  assumes "length on < length what"
  shows "\<exists>r. replace_loop what on str = Some r"
proof (induction "length str" arbitrary: str rule: less_induct)
  case less
  show ?case
  proof (cases "find_sub what str")
    case None
    then show ?thesis by (simp add: replace_loop.simps)
  next
    case (Some p)
    let ?next = "take p str @ on @ drop (p + length what) str"
    have "length str = length (take p str @ what @ drop (p + length what) str)"
      using find_sub_Some [OF Some] by simp
    with assms have "length ?next < length str" by simp
    from less [OF this] Some show ?thesis by (simp add: replace_loop.simps [of what on str])
  qed
qed

lemma replace_loop_diverges:
  assumes ret: "replace_loop what on str = Some r" and "sublist what on" and "sublist what str"
  shows False
proof -
  have "sublist what on \<longrightarrow> \<not> sublist what str"
  proof (rule replace_loop.raw_induct
      [where P = "\<lambda>what on str r. sublist what on \<longrightarrow> \<not> sublist what str", OF _ ret])
    fix f and what on str r :: string
    assume IH: "\<And>what on str r. f what on str = Some r \<Longrightarrow>
        sublist what on \<longrightarrow> \<not> sublist what str"
      and eq: "(case find_sub what str of None \<Rightarrow> Some str
        | Some pos \<Rightarrow> f what on (take pos str @ on @ drop (pos + length what) str)) = Some r"
    show "sublist what on \<longrightarrow> \<not> sublist what str"
    proof (cases "find_sub what str")
      case None
      then show ?thesis by (simp add: find_sub_None_iff)
    next
      case (Some p)
      with eq have "f what on (take p str @ on @ drop (p + length what) str) = Some r" by simp
      then have "sublist what on \<longrightarrow> \<not> sublist what (take p str @ on @ drop (p + length what) str)"
        by (rule IH)
      then show ?thesis by (metis sublist_appendI sublist_order.order.trans)
    qed
  qed
  with assms show False by simp
qed

text \<open>\<open>ReplaceAll\<close> returns, with no occurrence of the pattern left, when some character of
  the pattern is not in the replacement or the replacement is shorter; it never returns when
  the text holds the pattern and the replacement, not equal to it, holds it too.\<close>

theorem replace_all_returns:
  assumes "what \<noteq> on"
  shows "(\<not> set what \<subseteq> set on \<or> length on < length what \<longrightarrow>
            (\<exists>r. ReplaceAll text what on = Some r \<and> \<not> sublist what r)) \<and>
         (sublist what on \<and> sublist what text \<longrightarrow> ReplaceAll text what on = None)"
proof -
  have "\<exists>r. replace_loop what on text = Some r"
    if "\<not> set what \<subseteq> set on \<or> length on < length what"
    using that replace_loop_returns [of _ what "on" "text"] replace_loop_returns_shorter by blast
  moreover have "replace_loop what on text = None" if "sublist what on" "sublist what text"
    using replace_loop_diverges [OF _ that] by (cases "replace_loop what on text") auto
  ultimately show ?thesis
    using assms replace_loop_no_occurrence [of what "on" "text"] by (auto simp: ReplaceAll_def)
qed

theorem replace_all_returns_witness:
  "(\<exists>r. ReplaceAll ''{pid}.log'' ''{pid}'' ''7'' = Some r \<and> \<not> sublist ''{pid}'' r) \<and>
   ReplaceAll ''a.b'' ''.'' ''..'' = None"
  using replace_all_returns [of "''{pid}''" "''7''" "''{pid}.log''"]
    replace_all_returns [of "''.''" "''..''" "''a.b''"]
  by (simp add: sublist_Cons_right)

end
