(* ===== verification/Smart_Values.thy ===== *)
theory Smart_Values
  imports Text_Utils
begin

text \<open>
  Sizes and intervals with a unit suffix (\<open>logme/source/Config/TimeIntervalValue.cpp\<close> and
  \<open>ByteSizeValue.cpp\<close>): the two suffix tables, \<open>ParseSmartValue\<close>, \<open>SmartValue\<close>,
  \<open>FormatSmartValue\<close> and their public entry points. A \<open>uint64_t\<close> is a \<open>nat\<close> below \<open>2 ^ 64\<close> with
  the wrap-around of the product written out; \<open>strtoull\<close> is modelled as the C standard has it
  (blanks, a sign that negates modulo \<open>2 ^ 64\<close>, saturation). Lemmas: reading back what the
  formatter printed, and which suffixes of the interval table no text can reach.
\<close>

section \<open>\<open>strtoull\<close> in base 10\<close>

definition ULLONG_MAX :: nat where
  "ULLONG_MAX = 2 ^ 64 - 1"

definition strip_sign :: "string \<Rightarrow> string" where
  "strip_sign t = (case t of [] \<Rightarrow> [] | c # r \<Rightarrow> if c = CHR ''-'' \<or> c = CHR ''+'' then r else t)"

text \<open>The value, and the text \<open>e\<close> points at (all of it when there are no digits).\<close>

definition strtoull10 :: "string \<Rightarrow> nat \<times> string" where
  "strtoull10 s =
     (let t = dropWhile trim_space s;
          neg = (t \<noteq> [] \<and> hd t = CHR ''-'');
          u = strip_sign t;
          ds = takeWhile is_digit u;
          n = dec_val ds
      in if ds = [] then (0, s)
         else (if n > ULLONG_MAX then ULLONG_MAX else if neg then (2 ^ 64 - n) mod 2 ^ 64 else n,
               dropWhile is_digit u))"

lemma strip_sign_snoc:
  "c \<noteq> CHR ''-'' \<Longrightarrow> c \<noteq> CHR ''+'' \<Longrightarrow> \<exists>w'. strip_sign (w @ [c]) = w' @ [c]"
  by (cases w) (auto simp: strip_sign_def)

section \<open>The suffix tables\<close>

record suffix_entry =
  Name :: string
  Multiplier :: nat
  FormatName :: "string option"

definition Suffix :: "string \<Rightarrow> nat \<Rightarrow> string option \<Rightarrow> suffix_entry" where
  "Suffix name multiplier formatName =
     \<lparr>Name = name, Multiplier = multiplier, FormatName = formatName\<rparr>"

definition ByteSizeSuffixes :: "suffix_entry list" where
  "ByteSizeSuffixes =
    [Suffix ''gb'' (1024 * 1024 * 1024) (Some ''Gb''),
     Suffix ''gib'' (1024 * 1024 * 1024) None,
     Suffix ''g'' (1024 * 1024 * 1024) None,
     Suffix ''mb'' (1024 * 1024) (Some ''Mb''),
     Suffix ''mib'' (1024 * 1024) None,
     Suffix ''m'' (1024 * 1024) None,
     Suffix ''kb'' 1024 (Some ''Kb''),
     Suffix ''kib'' 1024 None,
     Suffix ''k'' 1024 None,
     Suffix ''b'' 1 (Some ''b'')]"

definition IntervalSuffixes :: "suffix_entry list" where
  "IntervalSuffixes =
    [Suffix ''weeks'' (7 * 24 * 60 * 60 * 1000) (Some ''w''),
     Suffix ''week'' (7 * 24 * 60 * 60 * 1000) None,
     Suffix ''w'' (7 * 24 * 60 * 60 * 1000) None,
     Suffix ''days'' (24 * 60 * 60 * 1000) (Some ''d''),
     Suffix ''day'' (24 * 60 * 60 * 1000) None,
     Suffix ''d'' (24 * 60 * 60 * 1000) None,
     Suffix ''hours'' (60 * 60 * 1000) (Some ''h''),
     Suffix ''hour'' (60 * 60 * 1000) None,
     Suffix ''h'' (60 * 60 * 1000) None,
     Suffix ''minutes'' (60 * 1000) (Some ''min''),
     Suffix ''minute'' (60 * 1000) None,
     Suffix ''min'' (60 * 1000) None,
     Suffix ''m'' (60 * 1000) None,
     Suffix ''seconds'' 1000 (Some ''s''),
     Suffix ''second'' 1000 None,
     Suffix ''sec'' 1000 None,
     Suffix ''s'' 1000 None,
     Suffix ''milliseconds'' 1 None,
     Suffix ''millisecond'' 1 None,
     Suffix ''ms'' 1 (Some ''ms'')]"

section \<open>Parsing and formatting\<close>

text \<open>
  The first suffix the text ends with decides the multiplier and is cut off; \<open>rfind\<close> of a
  suffix finds it at the end. \<open>None\<close> is the result \<open>false\<close>.
\<close>

definition split_suffix :: "suffix_entry list \<Rightarrow> string \<Rightarrow> nat \<times> string" where
  "split_suffix table v =
     (case find (\<lambda>s. suffix (Name s) v) table of
        None \<Rightarrow> (1, v)
      | Some s \<Rightarrow> (Multiplier s, TrimSpaces (take (length v - length (Name s)) v)))"

definition ParseSmartValue :: "suffix_entry list \<Rightarrow> string \<Rightarrow> nat option" where
  "ParseSmartValue table input =
     (let v = TrimSpaces input in
      if v = [] then None
      else
        let (mul, v) = split_suffix table (ToLowerAsciiInplace v) in
        if v = [] then None
        else
          let (val, e) = strtoull10 (c_str v) in
          if e \<noteq> [] then None
          else if mul \<noteq> 0 \<and> val > ULLONG_MAX div mul then None
          else Some ((val * mul) mod 2 ^ 64))"

definition SmartValue :: "suffix_entry list \<Rightarrow> string \<Rightarrow> nat \<Rightarrow> nat" where
  "SmartValue table input def =
     (case ParseSmartValue table input of None \<Rightarrow> def | Some value \<Rightarrow> value)"

fun FormatSmartValue :: "suffix_entry list \<Rightarrow> nat \<Rightarrow> string" where
  "FormatSmartValue [] value = show_nat value"
| "FormatSmartValue (s # table) value =
     (case FormatName s of
        None \<Rightarrow> FormatSmartValue table value
      | Some fmt \<Rightarrow>
          if Multiplier s = 0 then FormatSmartValue table value
          else if value = 0 \<and> Multiplier s \<noteq> 1 then FormatSmartValue table value
          else if value mod Multiplier s \<noteq> 0 then FormatSmartValue table value
          else show_nat (value div Multiplier s) @ fmt)"

definition ParseByteSize :: "string \<Rightarrow> nat option" where
  "ParseByteSize input = ParseSmartValue ByteSizeSuffixes input"

definition GetByteSize :: "string \<Rightarrow> nat \<Rightarrow> nat" where
  "GetByteSize input def = SmartValue ByteSizeSuffixes input def"

definition FormatByteSize :: "nat \<Rightarrow> string" where
  "FormatByteSize value = FormatSmartValue ByteSizeSuffixes value"

definition ParseInterval :: "string \<Rightarrow> nat option" where
  "ParseInterval input = ParseSmartValue IntervalSuffixes input"

definition GetInterval :: "string \<Rightarrow> nat \<Rightarrow> nat" where
  "GetInterval input def = SmartValue IntervalSuffixes input def"

definition FormatInterval :: "nat \<Rightarrow> string" where
  "FormatInterval value = FormatSmartValue IntervalSuffixes value"

section \<open>Reading digits followed by a unit\<close>

lemma strtoull10_digits:
  assumes "list_all is_digit ds" and "ds \<noteq> []"
  shows "strtoull10 ds = (if dec_val ds > ULLONG_MAX then ULLONG_MAX else dec_val ds, [])"
proof -
  obtain d rest where ds: "ds = d # rest" using assms(2) by (cases ds) auto
  with assms(1) have d: "is_digit d" by simp
  then have "d \<noteq> CHR ''-''" and "d \<noteq> CHR ''+''" and "\<not> trim_space d"
    by (auto simp: is_digit_def char_code_def trim_space_def)
  moreover have "takeWhile is_digit ds = ds" and "dropWhile is_digit ds = []"
    using assms(1) by (auto simp: list_all_iff takeWhile_eq_all_conv dropWhile_eq_Nil_conv)
  ultimately show ?thesis using assms(2) by (simp add: strtoull10_def strip_sign_def ds)
qed

lemma strtoull10_bad_end:
  assumes "t = u @ [c]" and "\<not> is_digit c" and "\<not> trim_space c"
    and "c \<noteq> CHR ''-''" and "c \<noteq> CHR ''+''"
  shows "snd (strtoull10 t) \<noteq> []"
proof -
  let ?t = "dropWhile trim_space u @ [c]"
  have t: "dropWhile trim_space t = ?t"
    using assms(1,3) by (simp add: dropWhile_append3)
  obtain w' where w': "strip_sign ?t = w' @ [c]"
    using strip_sign_snoc [OF assms(4,5)] by blast
  have "snd (strtoull10 t) =
      (if takeWhile is_digit (w' @ [c]) = [] then t else dropWhile is_digit (w' @ [c]))"
    unfolding strtoull10_def by (simp only: Let_def t w' snd_conv if_distrib [of snd])
  moreover have "dropWhile is_digit (w' @ [c]) \<noteq> []" and "t \<noteq> []"
    using assms(1,2) by (simp_all add: dropWhile_append3)
  ultimately show ?thesis by simp
qed

text \<open>What a formatted value looks like to the parser.\<close>

lemma ParseSmartValue_digits_suffix:
  assumes "list_all is_digit ds" and "ds \<noteq> []"
    and "\<And>c. c \<in> set u \<Longrightarrow> \<not> trim_space c \<and> c \<noteq> NUL"
    and "find (\<lambda>s. suffix (Name s) (ds @ map to_lower_char u)) tab = Some e"
    and "Name e = map to_lower_char u"
    and "Multiplier e \<noteq> 0" and "dec_val ds * Multiplier e < 2 ^ 64"
  shows "ParseSmartValue tab (ds @ u) = Some (dec_val ds * Multiplier e)"
proof -
  have dsp: "\<not> trim_space c" "c \<noteq> NUL" "to_lower_char c = c" if "c \<in> set ds" for c
    using that assms(1) trim_space_not_digit
    by (auto simp: list_all_iff NUL_def is_digit_def char_code_def)
  have trim: "TrimSpaces (ds @ u) = ds @ u"
    by (rule TrimSpaces_id) (use dsp assms(3) in auto)
  have lower: "ToLowerAsciiInplace (ds @ u) = ds @ map to_lower_char u"
    using dsp(3) by (simp add: ToLowerAsciiInplace_def map_idI)
  have cut: "TrimSpaces ds = ds" "c_str ds = ds"
    using dsp by (auto intro!: TrimSpaces_id c_str_id)
  have split: "split_suffix tab (ds @ map to_lower_char u) = (Multiplier e, ds)"
    using assms(4,5) cut by (simp add: split_suffix_def)
  have le: "dec_val ds \<le> ULLONG_MAX div Multiplier e"
    using assms(6,7) by (simp add: ULLONG_MAX_def less_eq_div_iff_mult_less_eq)
  then have "dec_val ds \<le> ULLONG_MAX" by (meson div_le_dividend le_trans)
  then have "strtoull10 ds = (dec_val ds, [])"
    by (simp add: strtoull10_digits [OF assms(1,2)])
  with trim lower split cut le assms(2,7) show ?thesis
    by (simp add: ParseSmartValue_def)
qed

lemma suffix_after_digits:
  assumes "list_all is_digit ds" and "list_all (\<lambda>c. \<not> is_digit c) w"
  shows "suffix w (ds @ u) \<longleftrightarrow> suffix w u"
proof
  assume "suffix w (ds @ u)"
  then consider "suffix w u" | w' where "w = w' @ u" "suffix w' ds"
    by (auto simp: suffix_append)
  then show "suffix w u"
  proof cases
    case 2
    then have "set w' \<subseteq> set ds" by (auto dest: set_mono_suffix)
    with 2 assms have "w' = []" by (cases w') (auto simp: list_all_iff)
    with 2 show ?thesis by simp
  qed
qed (simp add: suffix_appendI)

text \<open>Digits and a unit name: the table is searched as if for the unit alone.\<close>

lemma ParseSmartValue_unit:
  assumes "v * Multiplier e < 2 ^ 64" and "Multiplier e \<noteq> 0"
    and "list_all (\<lambda>s. list_all (\<lambda>c. \<not> is_digit c) (Name s)) tab"
    and "list_all (\<lambda>c. \<not> trim_space c \<and> c \<noteq> NUL) u"
    and "find (\<lambda>s. suffix (Name s) (map to_lower_char u)) tab = Some e"
    and "Name e = map to_lower_char u"
  shows "ParseSmartValue tab (show_nat v @ u) = Some (v * Multiplier e)"
proof -
  have "find (\<lambda>s. suffix (Name s) (show_nat v @ map to_lower_char u)) tab = Some e"
    using assms(3,5) suffix_after_digits [OF show_nat_digits]
    by (subst find_cong [OF refl]) (auto simp: list_all_iff)
  with assms show ?thesis
    using ParseSmartValue_digits_suffix [OF show_nat_digits show_nat_not_Nil, of u v tab e]
    by (simp add: list_all_iff)
qed

section \<open>Suffixes no text can reach\<close>

text \<open>
  A table entry is shadowed when an earlier name is a suffix of its own: the search stops at
  the earlier one.
\<close>

lemma find_suffix_shadow:
  assumes "suffix w v" and "suffix (Name e) w"
    and "list_all (\<lambda>s. \<not> suffix (Name s) w \<and> \<not> suffix w (Name s)) xs"
  shows "find (\<lambda>s. suffix (Name s) v) (xs @ e # ys) = Some e"
proof -
  have "\<not> suffix (Name s) v" if "s \<in> set xs" for s
    using that assms(1,3) suffix_same_cases [of w v "Name s"] by (auto simp: list_all_iff)
  then have "find (\<lambda>s. suffix (Name s) v) xs = None" by (simp add: find_None_iff)
  then show ?thesis
    using suffix_order.order_trans [OF assms(2,1)] by (simp add: find_append_None)
qed

lemma ParseSmartValue_shadowed:
  assumes tab: "tab = xs @ e # ys"
    and shadow: "list_all (\<lambda>s. \<not> suffix (Name s) (u @ [c] @ Name e) \<and>
        \<not> suffix (u @ [c] @ Name e) (Name s)) xs"
    and c: "\<not> is_digit c" "\<not> trim_space c" "c \<noteq> CHR ''-''" "c \<noteq> CHR ''+''"
    and inp: "suffix (u @ [c] @ Name e) (ToLowerAsciiInplace (TrimSpaces input))"
    and nul: "NUL \<notin> set input"
  shows "ParseSmartValue tab input = None"
proof -
  let ?v = "ToLowerAsciiInplace (TrimSpaces input)"
  obtain p where p: "?v = p @ u @ [c] @ Name e" using inp by (auto simp: suffix_def)
  then have "take (length ?v - length (Name e)) ?v = (p @ u) @ [c]" by simp
  moreover obtain t where t: "TrimSpaces ((p @ u) @ [c]) = t @ [c]" and "suffix t (p @ u)"
    using TrimSpaces_snoc [OF c(2), of "p @ u"] by blast
  moreover have "find (\<lambda>s. suffix (Name s) ?v) tab = Some e"
    unfolding tab by (rule find_suffix_shadow [OF inp _ shadow]) (metis append.assoc suffixI)
  ultimately have split: "split_suffix tab ?v = (Multiplier e, t @ [c])"
    by (simp add: split_suffix_def)
  have "NUL \<notin> set ?v"
  proof
    assume "NUL \<in> set ?v"
    then obtain x where "x \<in> set (TrimSpaces input)" and x: "to_lower_char x = NUL"
      by (auto simp only: ToLowerAsciiInplace_def set_map image_iff)
    with nul TrimSpaces_set [of input] to_lower_char_NUL [OF x] show False by blast
  qed
  with p set_mono_suffix [OF \<open>suffix t (p @ u)\<close>] have "NUL \<notin> set (t @ [c])"
    by auto
  then have cs: "c_str (t @ [c]) = t @ [c]" by (rule c_str_id)
  have "snd (strtoull10 (t @ [c])) \<noteq> []" by (rule strtoull10_bad_end [OF refl c])
  with split cs show ?thesis
    by (simp add: ParseSmartValue_def Let_def case_prod_beta)
qed

text \<open>
  In the interval table \<open>s\<close> shadows \<open>ms\<close>, \<open>seconds\<close> shadows \<open>milliseconds\<close>, and \<open>d\<close>
  shadows both \<open>second\<close> and \<open>millisecond\<close>.
\<close>

definition unreachable_interval_suffixes :: "string list" where
  "unreachable_interval_suffixes = [''ms'', ''millisecond'', ''milliseconds'', ''second'']"

text \<open>Row \<open>k\<close> of the table cuts the text short: what is left ends in \<open>c\<close>, no digit.\<close>

definition shadow_row :: "nat \<Rightarrow> string \<Rightarrow> char \<Rightarrow> string \<Rightarrow> bool" where
  "shadow_row k u c w \<longleftrightarrow>
     k < length IntervalSuffixes \<and> w = u @ [c] @ Name (IntervalSuffixes ! k) \<and>
     list_all (\<lambda>s. \<not> suffix (Name s) w \<and> \<not> suffix w (Name s)) (take k IntervalSuffixes) \<and>
     \<not> is_digit c \<and> \<not> trim_space c \<and> c \<noteq> CHR ''-'' \<and> c \<noteq> CHR ''+''"

lemma shadow_row_ms: "shadow_row 16 [] (CHR ''m'') ''ms''"
  by (simp add: shadow_row_def IntervalSuffixes_def Suffix_def suffix_to_prefix is_digit_def
      char_code_def trim_space_def)

lemma shadow_row_millisecond: "shadow_row 5 ''milliseco'' (CHR ''n'') ''millisecond''"
  by (simp add: shadow_row_def IntervalSuffixes_def Suffix_def suffix_to_prefix is_digit_def
      char_code_def trim_space_def)

lemma shadow_row_milliseconds: "shadow_row 13 ''mill'' (CHR ''i'') ''milliseconds''"
  by (simp add: shadow_row_def IntervalSuffixes_def Suffix_def suffix_to_prefix is_digit_def
      char_code_def trim_space_def)

lemma shadow_row_second: "shadow_row 5 ''seco'' (CHR ''n'') ''second''"
  by (simp add: shadow_row_def IntervalSuffixes_def Suffix_def suffix_to_prefix is_digit_def
      char_code_def trim_space_def)

lemma ParseInterval_shadow_row:
  assumes row: "shadow_row k u c w" and inp: "suffix w (ToLowerAsciiInplace (TrimSpaces input))"
    and nul: "NUL \<notin> set input"
  shows "ParseInterval input = None"
proof -
  have w: "w = u @ [c] @ Name (IntervalSuffixes ! k)" and k: "k < length IntervalSuffixes"
    and l: "list_all (\<lambda>s. \<not> suffix (Name s) w \<and> \<not> suffix w (Name s)) (take k IntervalSuffixes)"
    and c: "\<not> is_digit c" "\<not> trim_space c" "c \<noteq> CHR ''-''" "c \<noteq> CHR ''+''"
    using row unfolding shadow_row_def by blast+
  show ?thesis
    unfolding ParseInterval_def
    by (rule ParseSmartValue_shadowed [OF id_take_nth_drop [OF k] l [unfolded w] c
          inp [unfolded w] nul])
qed

lemma ParseInterval_unreachable:
  assumes "w \<in> set unreachable_interval_suffixes"
    and "suffix w (ToLowerAsciiInplace (TrimSpaces input))" and "NUL \<notin> set input"
  shows "ParseInterval input = None"
proof -
  from assms(1) obtain k u c where "shadow_row k u c w"
    using shadow_row_ms shadow_row_millisecond shadow_row_milliseconds shadow_row_second
    by (auto simp: unreachable_interval_suffixes_def)
  then show ?thesis using assms(2,3) by (rule ParseInterval_shadow_row)
qed

section \<open>Round trips\<close>

lemma lower_units [simp]:
  "map to_lower_char ''Gb'' = ''gb''" "map to_lower_char ''Mb'' = ''mb''"
  "map to_lower_char ''Kb'' = ''kb''" "map to_lower_char ''b'' = ''b''"
  "map to_lower_char ''w'' = ''w''" "map to_lower_char ''d'' = ''d''"
  "map to_lower_char ''h'' = ''h''" "map to_lower_char ''min'' = ''min''"
  "map to_lower_char ''s'' = ''s''" "map to_lower_char ''ms'' = ''ms''"
  by (simp_all add: to_lower_char_def char_code_def char_of_def bit_0)

lemma table_names_no_digit:
  "list_all (\<lambda>s. list_all (\<lambda>c. \<not> is_digit c) (Name s)) ByteSizeSuffixes"
  "list_all (\<lambda>s. list_all (\<lambda>c. \<not> is_digit c) (Name s)) IntervalSuffixes"
  by (simp_all add: ByteSizeSuffixes_def IntervalSuffixes_def Suffix_def is_digit_def char_code_def)

lemma byte_size_unit_found:
  assumes "(u, mul) \<in> {(''Gb'', 2 ^ 30), (''Mb'', 2 ^ 20), (''Kb'', 2 ^ 10), (''b'', 1)}"
  shows "\<exists>e. find (\<lambda>s. suffix (Name s) (map to_lower_char u)) ByteSizeSuffixes = Some e
      \<and> Name e = map to_lower_char u \<and> Multiplier e = mul \<and> mul \<noteq> 0
      \<and> list_all (\<lambda>c. \<not> trim_space c \<and> c \<noteq> NUL) u"
  using assms unfolding insert_iff empty_iff prod.inject
  by (elim disjE conjE)
     (simp_all only: lower_units, simp_all add: ByteSizeSuffixes_def suffix_to_prefix Suffix_def
        trim_space_def NUL_def)

lemma interval_unit_found:
  assumes "(u, mul) \<in> {(''w'', 604800000), (''d'', 86400000), (''h'', 3600000),
      (''min'', 60000), (''s'', 1000)}"
  shows "\<exists>e. find (\<lambda>s. suffix (Name s) (map to_lower_char u)) IntervalSuffixes = Some e
      \<and> Name e = map to_lower_char u \<and> Multiplier e = mul \<and> mul \<noteq> 0
      \<and> list_all (\<lambda>c. \<not> trim_space c \<and> c \<noteq> NUL) u"
  using assms unfolding insert_iff empty_iff prod.inject
  by (elim disjE conjE)
     (simp_all only: lower_units, simp_all add: IntervalSuffixes_def suffix_to_prefix Suffix_def
        trim_space_def NUL_def)

lemma ParseByteSize_unit:
  assumes "(u, mul) \<in> {(''Gb'', 2 ^ 30), (''Mb'', 2 ^ 20), (''Kb'', 2 ^ 10), (''b'', 1)}"
    and "n * mul < 2 ^ 64"
  shows "ParseByteSize (show_nat n @ u) = Some (n * mul)"
  using byte_size_unit_found [OF assms(1)] assms(2) table_names_no_digit
    ParseSmartValue_unit [of n _ ByteSizeSuffixes u]
  unfolding ParseByteSize_def by blast

lemma ParseInterval_unit:
  assumes "(u, mul) \<in> {(''w'', 604800000), (''d'', 86400000), (''h'', 3600000),
      (''min'', 60000), (''s'', 1000)}"
    and "n * mul < 2 ^ 64"
  shows "ParseInterval (show_nat n @ u) = Some (n * mul)"
  using interval_unit_found [OF assms(1)] assms(2) table_names_no_digit
    ParseSmartValue_unit [of n _ IntervalSuffixes u]
  unfolding ParseInterval_def by blast

text \<open>The byte-size formatter is lossless: reading back what \<open>FormatByteSize\<close> printed gives
  the same \<open>uint64_t\<close>, for every value, whatever unit was chosen.\<close>

theorem byte_size_round_trip:
  assumes "v < 2 ^ 64"
  shows "ParseByteSize (FormatByteSize v) = Some v"
proof -
  have "FormatByteSize v =
     (if v \<noteq> 0 \<and> 2 ^ 30 dvd v then show_nat (v div 2 ^ 30) @ ''Gb''
      else if v \<noteq> 0 \<and> 2 ^ 20 dvd v then show_nat (v div 2 ^ 20) @ ''Mb''
      else if v \<noteq> 0 \<and> 2 ^ 10 dvd v then show_nat (v div 2 ^ 10) @ ''Kb''
      else show_nat (v div 1) @ ''b'')"
    by (simp add: FormatByteSize_def ByteSizeSuffixes_def Suffix_def dvd_eq_mod_eq_0)
  note eq = this
  have "ParseByteSize (show_nat (v div mul) @ u) = Some v"
    if "(u, mul) \<in> {(''Gb'', 2 ^ 30), (''Mb'', 2 ^ 20), (''Kb'', 2 ^ 10), (''b'', 1)}"
      and "mul dvd v" for u mul
    using ParseByteSize_unit [OF that(1), of "v div mul"] that(2) assms
    by (simp only: dvd_div_mult_self)
  note unit = this [of "''Gb''" "2 ^ 30"] this [of "''Mb''" "2 ^ 20"]
    this [of "''Kb''" "2 ^ 10"] this [of "''b''" 1]
  show ?thesis
    by (cases "v \<noteq> 0 \<and> 2 ^ 30 dvd v"; cases "v \<noteq> 0 \<and> 2 ^ 20 dvd v"; cases "v \<noteq> 0 \<and> 2 ^ 10 dvd v")
       (simp_all only: eq unit insert_iff one_dvd simp_thms if_True if_False)
qed

text \<open>The read back value at the unit boundaries.\<close>

theorem byte_size_round_trip_witness:
  "ParseByteSize (FormatByteSize 1536) = Some 1536 \<and>
   ParseByteSize (FormatByteSize (5 * 2 ^ 30)) = Some (5 * 2 ^ 30)"
  using byte_size_round_trip [of 1536] byte_size_round_trip [of "5 * 2 ^ 30"] by simp

lemma ParseInterval_ms: "ParseInterval (show_nat n @ ''ms'') = None"
proof (rule ParseInterval_unreachable [of "''ms''"])
  have plain: "\<not> trim_space c \<and> to_lower_char c = c \<and> c \<noteq> NUL"
    if "c \<in> set (show_nat n @ ''ms'')" for c
    using that show_nat_set [of c n] trim_space_not_digit [of c]
    by (auto simp: trim_space_def to_lower_char_def char_code_def NUL_def is_digit_def)
  then show "NUL \<notin> set (show_nat n @ ''ms'')" by blast
  have "ToLowerAsciiInplace (TrimSpaces (show_nat n @ ''ms'')) = show_nat n @ ''ms''"
    unfolding ToLowerAsciiInplace_def
    by (subst TrimSpaces_id; (rule map_idI)?) (use plain in blast)+
  then show "suffix ''ms'' (ToLowerAsciiInplace (TrimSpaces (show_nat n @ ''ms'')))"
    by (simp add: suffixI)
qed (simp add: unreachable_interval_suffixes_def)

text \<open>The interval formatter is not: a time is read back only when it is a whole, nonzero
  number of seconds. Any other value is printed with the unit \<open>ms\<close>, and the parser takes the
  \<open>s\<close> of it for seconds and rejects the text.\<close>

theorem interval_round_trip:
  assumes "v < 2 ^ 64"
  shows "ParseInterval (FormatInterval v) = (if v \<noteq> 0 \<and> 1000 dvd v then Some v else None)"
proof -
  have "FormatInterval v =
     (if v \<noteq> 0 \<and> 604800000 dvd v then show_nat (v div 604800000) @ ''w''
      else if v \<noteq> 0 \<and> 86400000 dvd v then show_nat (v div 86400000) @ ''d''
      else if v \<noteq> 0 \<and> 3600000 dvd v then show_nat (v div 3600000) @ ''h''
      else if v \<noteq> 0 \<and> 60000 dvd v then show_nat (v div 60000) @ ''min''
      else if v \<noteq> 0 \<and> 1000 dvd v then show_nat (v div 1000) @ ''s''
      else show_nat v @ ''ms'')"
    by (simp add: FormatInterval_def IntervalSuffixes_def Suffix_def dvd_eq_mod_eq_0)
  note eq = this
  have "ParseInterval (show_nat (v div mul) @ u) = Some v"
    if "(u, mul) \<in> {(''w'', 604800000), (''d'', 86400000), (''h'', 3600000),
      (''min'', 60000), (''s'', 1000)}"
      and "mul dvd v" for u mul
    using ParseInterval_unit [OF that(1), of "v div mul"] that(2) assms
    by (simp only: dvd_div_mult_self)
  note unit = this [of "''w''" 604800000] this [of "''d''" 86400000] this [of "''h''" 3600000]
    this [of "''min''" 60000] this [of "''s''" 1000]
  have sec: "1000 dvd v" if "604800000 dvd v \<or> 86400000 dvd v \<or> 3600000 dvd v \<or> 60000 dvd v"
    using that by (auto elim!: dvd_trans [rotated])
  show ?thesis
  proof (cases "v \<noteq> 0 \<and> 1000 dvd v")
    case True
    then show ?thesis
      by (cases "604800000 dvd v"; cases "86400000 dvd v"; cases "3600000 dvd v"; cases "60000 dvd v")
         (simp_all only: eq unit insert_iff simp_thms if_True if_False)
  next
    case False
    with sec show ?thesis
      by (simp only: eq ParseInterval_ms de_Morgan_conj simp_thms if_False split: if_split) blast
  qed
qed

theorem interval_round_trip_witness:
  "ParseInterval (FormatInterval 90000) = Some 90000 \<and> ParseInterval (FormatInterval 1500) = None"
  using interval_round_trip [of 90000] interval_round_trip [of 1500] by simp

end
