(* ===== verification/Level_Names.thy ===== *)
theory Level_Names
  imports Text_Utils
begin

text \<open>
  The name tables of the configuration and of the control commands: \<open>Name2Value\<close>,
  \<open>CheckBuild\<close> and \<open>CheckPlatform\<close> (\<open>Config/Helper.cpp\<close>), the level table with
  \<open>LevelFromName\<close> (\<open>Config/ParseChannel.cpp\<close>), the copy of it in \<open>CmdLevel.cpp\<close>,
  \<open>ParseLevelName\<close> (\<open>CmdSubsystem.cpp\<close>) and \<open>GetLevelName\<close> (\<open>Utils.cpp\<close>). \<open>std::tolower\<close> is
  that of the C locale. Lemmas: which printed level names each reader accepts.
\<close>

text \<open>The tables are searched from the top; \<open>None\<close> is the result \<open>false\<close>.\<close>

fun Name2Value :: "string \<Rightarrow> bool \<Rightarrow> (string \<times> 'a) list \<Rightarrow> 'a option" where
  "Name2Value name caseSensitive pv =
     (let s = (if caseSensitive then name else ToLowerAsciiInplace name) in map_of pv s)"

datatype platform = WINDOWS | MACOS | LINUX

definition PlatformValues :: "platform \<Rightarrow> (string \<times> bool) list" where
  "PlatformValues os =
    [('''', True), (''any'', True), (''none'', False),
     (''windows'', os = WINDOWS), (''win'', os = WINDOWS), (''win32'', os = WINDOWS),
     (''mac'', os = MACOS), (''macos'', os = MACOS), (''apple'', os = MACOS),
     (''linux'', os = LINUX)]"

definition BuildValues :: "bool \<Rightarrow> (string \<times> bool) list" where
  "BuildValues is_debug =
    [('''', True), (''any'', True), (''none'', False),
     (''debug'', is_debug), (''checked'', is_debug), (''release'', \<not> is_debug)]"

definition CheckBuild :: "bool \<Rightarrow> string \<Rightarrow> bool option" where
  "CheckBuild is_debug build = Name2Value build False (BuildValues is_debug)"

definition CheckPlatform :: "platform \<Rightarrow> string \<Rightarrow> bool option" where
  "CheckPlatform os build = Name2Value build False (PlatformValues os)"

definition LevelValues :: "(string \<times> level) list" where
  "LevelValues =
    [('''', DEFAULT_LEVEL), (''info'', LEVEL_INFO), (''information'', LEVEL_INFO),
     (''debug'', LEVEL_DEBUG), (''warn'', LEVEL_WARN), (''warning'', LEVEL_WARN),
     (''err'', LEVEL_ERROR), (''error'', LEVEL_ERROR), (''crit'', LEVEL_CRITICAL),
     (''ctitical'', LEVEL_CRITICAL)]"

definition LevelFromName :: "string \<Rightarrow> level option" where
  "LevelFromName n = Name2Value n False LevelValues"

text \<open>\<open>CmdLevel.cpp\<close> has its own copy of the table and of the search.\<close>

definition CmdLevelValues :: "(string \<times> level) list" where
  "CmdLevelValues =
    [('''', DEFAULT_LEVEL), (''info'', LEVEL_INFO), (''information'', LEVEL_INFO),
     (''debug'', LEVEL_DEBUG), (''warn'', LEVEL_WARN), (''warning'', LEVEL_WARN),
     (''err'', LEVEL_ERROR), (''error'', LEVEL_ERROR), (''crit'', LEVEL_CRITICAL),
     (''ctitical'', LEVEL_CRITICAL)]"

definition FindNamed :: "(string \<times> 'a) list \<Rightarrow> string \<Rightarrow> 'a option" where
  "FindNamed values s = map_of values (ToLowerAsciiInplace s)"

definition ParseLevelName :: "string \<Rightarrow> level option" where
  "ParseLevelName name =
     (let value = ToLowerAsciiInplace name in
      if value = ''debug'' then Some LEVEL_DEBUG
      else if value = ''info'' \<or> value = ''information'' then Some LEVEL_INFO
      else if value = ''warn'' \<or> value = ''warning'' then Some LEVEL_WARN
      else if value = ''err'' \<or> value = ''error'' then Some LEVEL_ERROR
      else if value = ''crit'' \<or> value = ''critical'' \<or> value = ''ctitical'' then Some LEVEL_CRITICAL
      else None)"

fun GetLevelName :: "level \<Rightarrow> string" where
  "GetLevelName LEVEL_DEBUG = ''DEBUG''"
| "GetLevelName LEVEL_INFO = ''INFO''"
| "GetLevelName LEVEL_WARN = ''WARN''"
| "GetLevelName LEVEL_ERROR = ''ERROR''"
| "GetLevelName LEVEL_CRITICAL = ''CRITICAL''"

lemma lower_level_names:
  "ToLowerAsciiInplace ''DEBUG'' = ''debug''" "ToLowerAsciiInplace ''INFO'' = ''info''"
  "ToLowerAsciiInplace ''WARN'' = ''warn''" "ToLowerAsciiInplace ''ERROR'' = ''error''"
  "ToLowerAsciiInplace ''CRITICAL'' = ''critical''"
  by (simp_all add: ToLowerAsciiInplace_def to_lower_char_def char_code_def char_of_def bit_0)

text \<open>Level names: what \<open>GetLevelName\<close> prints is read back by the subsystem command for
  every level, and by the configuration and the level command for every level except
  \<open>LEVEL_CRITICAL\<close>, whose full name their tables misspell.\<close>

theorem level_names_read_back:
  "ParseLevelName (GetLevelName l) = Some l \<and>
   LevelFromName (GetLevelName l) = (if l = LEVEL_CRITICAL then None else Some l) \<and>
   FindNamed CmdLevelValues (GetLevelName l) = (if l = LEVEL_CRITICAL then None else Some l)"
  by (cases l) (simp_all add: ParseLevelName_def LevelFromName_def FindNamed_def LevelValues_def
      CmdLevelValues_def lower_level_names)

end
