(* ===== verification/Subsystem_Ids.thy ===== *)
theory Subsystem_Ids
  imports Prelude_Logme
begin

text \<open>
  Subsystem identifiers (\<open>SID.cpp\<close>, \<open>Control/Command/CmdSubsystem.cpp\<close>): a name of up to eight
  bytes packed into a \<open>uint64_t\<close>, first byte at the lowest address (little endian), and the
  text read back from it. Lemmas: the round trip and what truncation loses.
\<close>

fun pack_bytes :: "string \<Rightarrow> nat" where
  "pack_bytes [] = 0"
| "pack_bytes (c # cs) = char_code c + 256 * pack_bytes cs"

text \<open>
  \<open>SID::Build\<close> of a text, \<open>None\<close> being the null pointer. The second result lists the names
  reported on channel \<open>CHINT\<close>; \<open>instance_set\<close> says whether \<open>Logme::Instance\<close> exists.
\<close>

definition SID_Build :: "bool \<Rightarrow> string option \<Rightarrow> u64 \<times> string list" where
  "SID_Build instance_set name_upto8chars =
     (case name_upto8chars of
        None \<Rightarrow> (0, [])
      | Some name \<Rightarrow>
          let s = c_str name in
          (word_of_nat (pack_bytes (take 8 s)), if length s > 8 \<and> instance_set then [s] else []))"

definition sid_of :: "string \<Rightarrow> u64" where
  "sid_of name = fst (SID_Build True (Some name))"

definition sid_buf :: "u64 \<Rightarrow> string" where
  "sid_buf sid = map (\<lambda>i. char_of (unat (drop_bit (8 * i) sid))) [0..<8]"

definition SidToString :: "u64 \<Rightarrow> string" where
  "SidToString sid = takeWhile (\<lambda>c. c \<noteq> NUL) (sid_buf sid)"

lemma char_code_lt [simp]: "char_code c < 256"
  by (simp add: char_code_def)

lemma pack_bytes_bound: "pack_bytes s < 256 ^ length s"
proof (induction s)
  case (Cons c cs)
  have "char_code c < 256" by simp
  moreover have "256 * (pack_bytes cs + 1) \<le> 256 * 256 ^ length cs"
    by (rule mult_left_mono) (use Cons in simp_all)
  ultimately show ?case by (simp del: char_code_lt)
qed simp

lemma pack_bytes_lt: "pack_bytes (take 8 s) < 2 ^ 64"
proof -
  have "pack_bytes (take 8 s) < 256 ^ length (take 8 s)" by (rule pack_bytes_bound)
  also have "\<dots> \<le> (256::nat) ^ 8" by (rule power_increasing) auto
  finally show ?thesis by simp
qed

lemma unat_sid: "unat (word_of_nat (pack_bytes (take 8 s)) :: u64) = pack_bytes (take 8 s)"
  using pack_bytes_lt [of s] by (simp add: unsigned_of_nat take_bit_nat_eq_self)

lemma char_of_0 [simp]: "char_of (0 :: nat) = NUL"
  by (simp add: NUL_def char_of_def)

lemma unat_drop_byte:
  "unat (drop_bit (8 * i) (word_of_nat (pack_bytes (take 8 s)) :: u64)) =
     pack_bytes (take 8 s) div 256 ^ i"
  unfolding unsigned_drop_bit_eq unat_sid
  using pack_bytes_lt [of s]
  by (simp add: drop_bit_eq_div power_mult take_bit_nat_eq_self le_less_trans [OF div_le_dividend])

lemma pack_bytes_byte:
  "char_of (pack_bytes s div 256 ^ i) = (if i < length s then s ! i else NUL)"
proof (induction s arbitrary: i)
  case Nil
  show ?case by simp
next
  case (Cons c cs)
  show ?case
  proof (cases i)
    case 0
    have "char_of (char_code c + 256 * pack_bytes cs) = (char_of (char_code c) :: char)"
      by (subst char_of_mod_256 [symmetric]) (simp add: char_code_def)
    with 0 show ?thesis by (simp add: char_code_def)
  next
    case (Suc j)
    have "(char_code c + 256 * pack_bytes cs) div 256 ^ Suc j = pack_bytes cs div 256 ^ j"
      by (simp add: div_mult2_eq)
    with Suc Cons.IH show ?thesis by simp
  qed
qed

lemma sid_buf_build:
  "sid_buf (word_of_nat (pack_bytes (take 8 s))) = take 8 s @ replicate (8 - length s) NUL"
proof (rule nth_equalityI)
  fix i assume "i < length (sid_buf (word_of_nat (pack_bytes (take 8 s))))"
  then have i: "i < 8" by (simp add: sid_buf_def)
  with unat_drop_byte [of i s] show "sid_buf (word_of_nat (pack_bytes (take 8 s))) ! i =
      (take 8 s @ replicate (8 - length s) NUL) ! i"
    by (auto simp: sid_buf_def unat_drop_byte pack_bytes_byte nth_append)
qed (simp add: sid_buf_def)

lemma SidToString_pack:
  assumes "NUL \<notin> set s"
  shows "SidToString (word_of_nat (pack_bytes (take 8 s))) = take 8 s"
proof -
  have "\<forall>c \<in> set (take 8 s). c \<noteq> NUL" using assms by (auto dest: in_set_takeD)
  then show ?thesis by (simp add: SidToString_def sid_buf_build takeWhile_eq_all_conv)
qed

text \<open>Subsystem ids print as the name they were built from: the first eight bytes up to the
  terminator, so two names give the same id exactly when those agree, and the id is the
  reserved 0 exactly for the empty name. The truncation is reported on \<open>CHINT\<close>.\<close>

theorem sid_round_trip:
  "SidToString (sid_of name) = take 8 (c_str name) \<and>
   (sid_of name = sid_of name' \<longleftrightarrow> take 8 (c_str name) = take 8 (c_str name')) \<and>
   (sid_of name = 0 \<longleftrightarrow> c_str name = []) \<and>
   snd (SID_Build True (Some name)) = (if length (c_str name) > 8 then [c_str name] else [])"
proof -
  have sid: "sid_of n = word_of_nat (pack_bytes (take 8 (c_str n)))" for n
    by (simp add: sid_of_def SID_Build_def Let_def)
  have round: "SidToString (sid_of n) = take 8 (c_str n)" for n
    by (simp add: sid SidToString_pack)
  have "SidToString (0 :: u64) = []" by (simp add: SidToString_def sid_buf_def takeWhile_eq_Nil_iff hd_map)
  then have zero: "sid_of name = 0 \<longleftrightarrow> c_str name = []"
    using round [of name] by (auto simp: sid)
  have "sid_of name = sid_of name' \<longleftrightarrow> take 8 (c_str name) = take 8 (c_str name')"
    by (metis round sid)
  with round zero show ?thesis by (simp add: SID_Build_def Let_def)
qed

end
