(* ===== verification/Sorted_Vectors.thy ===== *)
theory Sorted_Vectors
  imports Prelude_Logme
begin

text \<open>
  Sorted \<open>std::vector\<close>s searched with \<open>std::lower_bound\<close>, as \<open>Logger\<close> keeps its subsystem
  lists: the position the search returns, insertion before it, erasure at it. The locale
  \<open>kv_store\<close> is the contract such a vector has for its client, a finite map; the lemmas
  proved inside it hold for every provider. The providers are in theory \<open>Subsystems\<close>.
\<close>

section \<open>Searching, inserting, erasing\<close>

text \<open>\<open>std::lower_bound\<close>: the first element whose key is not below \<open>k\<close>, on a sorted range.\<close>

definition lower_bound :: "('a \<Rightarrow> 'k::linorder) \<Rightarrow> 'a list \<Rightarrow> 'k \<Rightarrow> nat" where
  "lower_bound key arr k = length (takeWhile (\<lambda>x. key x < k) arr)"

definition found_at :: "('a \<Rightarrow> 'k) \<Rightarrow> 'a list \<Rightarrow> nat \<Rightarrow> 'k \<Rightarrow> bool" where
  "found_at key arr it k \<longleftrightarrow> it < length arr \<and> key (arr ! it) = k"

definition vec_insert :: "'a list \<Rightarrow> nat \<Rightarrow> 'a \<Rightarrow> 'a list" where
  "vec_insert arr it x = take it arr @ x # drop it arr"

definition vec_erase :: "'a list \<Rightarrow> nat \<Rightarrow> 'a list" where
  "vec_erase arr it = take it arr @ drop (Suc it) arr"

definition sorted_keys :: "('a \<Rightarrow> 'k::linorder) \<Rightarrow> 'a list \<Rightarrow> bool" where
  "sorted_keys key arr \<longleftrightarrow> sorted_wrt (<) (map key arr)"

lemma sorted_keys_Nil [simp]: "sorted_keys key []"
  by (simp add: sorted_keys_def)

lemma sorted_keys_Cons [simp]:
  "sorted_keys key (x # xs) \<longleftrightarrow> (\<forall>y \<in> set xs. key x < key y) \<and> sorted_keys key xs"
  by (simp add: sorted_keys_def)

lemma sorted_keys_append:
  "sorted_keys key (xs @ ys) \<longleftrightarrow> sorted_keys key xs \<and> sorted_keys key ys
     \<and> (\<forall>x \<in> set xs. \<forall>y \<in> set ys. key x < key y)"
  by (auto simp: sorted_keys_def sorted_wrt_append)

lemma sorted_keys_filter [intro]: "sorted_keys key arr \<Longrightarrow> sorted_keys key (filter P arr)"
  by (induction arr) auto

lemma sorted_keys_distinct: "sorted_keys key arr \<Longrightarrow> distinct (map key arr)"
  by (induction arr) auto

lemma sorted_split:
  assumes "sorted_keys key arr"
  shows "takeWhile (\<lambda>x. key x < k) arr = filter (\<lambda>x. key x < k) arr \<and>
     dropWhile (\<lambda>x. key x < k) arr = filter (\<lambda>x. \<not> key x < k) arr"
  using assms
proof (induction arr)
  case (Cons x xs)
  show ?case
  proof (cases "key x < k")
    case False
    with Cons.prems have "\<not> key y < k" if "y \<in> set xs" for y using that by force
    with False show ?thesis by (simp add: filter_False filter_True)
  qed (use Cons in simp)
qed simp

lemma take_lower_bound: "take (lower_bound key arr k) arr = takeWhile (\<lambda>x. key x < k) arr"
  by (simp add: lower_bound_def takeWhile_eq_take [symmetric])

lemma drop_lower_bound: "drop (lower_bound key arr k) arr = dropWhile (\<lambda>x. key x < k) arr"
  by (simp add: lower_bound_def dropWhile_eq_drop)

lemma found_at_iff_hd:
  "found_at key arr it k \<longleftrightarrow> drop it arr \<noteq> [] \<and> key (hd (drop it arr)) = k"
  by (auto simp: found_at_def hd_drop_conv_nth)

text \<open>Everything below \<open>k\<close>, the element with key \<open>k\<close> if there is one, everything above.\<close>

lemma sorted_parts:
  assumes "sorted_keys key arr"
  obtains (found) x where "x \<in> set arr" "key x = k" "found_at key arr (lower_bound key arr k) k"
      "arr = filter (\<lambda>x. key x < k) arr @ x # filter (\<lambda>x. k < key x) arr"
      "arr ! lower_bound key arr k = x"
  | (absent) "k \<notin> key ` set arr" "\<not> found_at key arr (lower_bound key arr k) k"
      "arr = filter (\<lambda>x. key x < k) arr @ filter (\<lambda>x. k < key x) arr"
proof -
  let ?rest = "filter (\<lambda>x. \<not> key x < k) arr"
  have rest: "drop (lower_bound key arr k) arr = ?rest"
    using assms by (simp add: drop_lower_bound sorted_split)
  have whole: "arr = filter (\<lambda>x. key x < k) arr @ ?rest"
    by (metis assms sorted_split takeWhile_dropWhile_id)
  have f: "found_at key arr (lower_bound key arr k) k \<longleftrightarrow> ?rest \<noteq> [] \<and> key (hd ?rest) = k"
    by (simp add: found_at_iff_hd rest)
  show thesis
  proof (cases "?rest \<noteq> [] \<and> key (hd ?rest) = k")
    case True
    then obtain x tl where r: "?rest = x # tl" and x: "key x = k" by (cases ?rest) auto
    have "sorted_keys key ?rest" using assms by blast
    with r x have tl: "\<forall>y \<in> set tl. k < key y" by simp
    have "filter (\<lambda>x. k < key x) arr = filter (\<lambda>x. k < key x) ?rest"
      by (simp, rule filter_cong) auto
    also have "\<dots> = tl" using r x tl by (simp add: filter_True del: filter_filter)
    finally have "arr = filter (\<lambda>x. key x < k) arr @ x # filter (\<lambda>x. k < key x) arr"
      using whole r by simp
    moreover from this have "x \<in> set arr" by (metis in_set_conv_decomp)
    moreover have "arr ! lower_bound key arr k = x"
      using r rest f True by (metis found_at_def hd_drop_conv_nth list.sel(1))
    ultimately show thesis using found x f True by blast
  next
    case False
    have above: "k < key y" if "y \<in> set ?rest" for y
    proof -
      have "sorted_keys key ?rest" using assms by blast
      moreover from that have "?rest \<noteq> []" by (metis empty_iff list.set(1))
      then obtain x tl where r: "?rest = x # tl" by (meson neq_Nil_conv)
      moreover have "key x \<noteq> k" using False r by simp
      moreover have "\<not> key x < k" using r by (metis (mono_tags, lifting) filter_eq_ConsD)
      ultimately show ?thesis using that r by auto
    qed
    then have "?rest = filter (\<lambda>x. k < key x) arr"
      by (intro filter_cong) auto
    moreover have "k \<notin> key ` set arr" using above by fastforce
    ultimately show thesis using absent whole f False by simp
  qed
qed

section \<open>Set and map operations on a sorted vector\<close>

text \<open>Insert when absent (\<open>AddSubsystemToList\<close>), replace or insert (\<open>SetSubsystemLevel\<close>),
  erase when present, look up.\<close>

definition vec_put :: "('a \<Rightarrow> 'k::linorder) \<Rightarrow> 'a \<Rightarrow> 'a list \<Rightarrow> 'a list" where
  "vec_put key x arr =
     (let it = lower_bound key arr (key x) in
      if found_at key arr it (key x) then arr[it := x] else vec_insert arr it x)"

definition vec_del :: "('a \<Rightarrow> 'k::linorder) \<Rightarrow> 'k \<Rightarrow> 'a list \<Rightarrow> 'a list" where
  "vec_del key k arr =
     (let it = lower_bound key arr k in if found_at key arr it k then vec_erase arr it else arr)"

definition vec_get :: "('a \<Rightarrow> 'k::linorder) \<Rightarrow> 'a list \<Rightarrow> 'k \<Rightarrow> 'a option" where
  "vec_get key arr k =
     (let it = lower_bound key arr k in if found_at key arr it k then Some (arr ! it) else None)"

lemma lower_bound_parts:
  "sorted_keys key arr \<Longrightarrow> lower_bound key arr k = length (filter (\<lambda>x. key x < k) arr)"
  by (simp add: lower_bound_def sorted_split)

lemma vec_put_parts:
  assumes "sorted_keys key arr"
  shows "vec_put key x arr =
    filter (\<lambda>y. key y < key x) arr @ x # filter (\<lambda>y. key x < key y) arr"
  using assms
proof (cases rule: sorted_parts [where k = "key x"])
  case (found y)
  show ?thesis
    using found(3) lower_bound_parts [OF assms, of "key x"] found(4)
    by (simp add: vec_put_def) (metis list_update_length)
next
  case absent
  show ?thesis
    using absent(2) sorted_split [OF assms, of "key x"] absent(3)
    by (simp add: vec_put_def vec_insert_def take_lower_bound drop_lower_bound)
       (metis same_append_eq takeWhile_dropWhile_id)
qed

lemma vec_erase_mid: "vec_erase (lo @ y # hi) (length lo) = lo @ hi"
  by (simp add: vec_erase_def)

lemma vec_del_filter:
  assumes "sorted_keys key arr"
  shows "vec_del key k arr = filter (\<lambda>y. key y \<noteq> k) arr"
  using assms
proof (cases rule: sorted_parts [where k = k])
  case (found y)
  let ?lo = "filter (\<lambda>x. key x < k) arr" and ?hi = "filter (\<lambda>x. k < key x) arr"
  have "filter (\<lambda>y. key y \<noteq> k) ?lo = ?lo" "filter (\<lambda>y. key y \<noteq> k) ?hi = ?hi"
    by (rule filter_True; force)+
  with found(2,4) have "filter (\<lambda>y. key y \<noteq> k) arr = ?lo @ ?hi"
    by (metis (mono_tags, lifting) filter.simps(2) filter_append)
  moreover have "vec_erase arr (length ?lo) = ?lo @ ?hi"
    by (subst found(4)) (rule vec_erase_mid)
  ultimately show ?thesis
    using found(3) lower_bound_parts [OF assms, of k] by (simp add: vec_del_def)
next
  case absent
  then have "filter (\<lambda>y. key y \<noteq> k) arr = arr" by (auto simp: filter_id_conv)
  with absent show ?thesis by (simp add: vec_del_def)
qed

lemma vec_get_iff:
  assumes "sorted_keys key arr"
  shows "vec_get key arr k = Some x \<longleftrightarrow> x \<in> set arr \<and> key x = k"
  using assms
proof (cases rule: sorted_parts [where k = k])
  case (found y)
  have "inj_on key (set arr)" using sorted_keys_distinct [OF assms] by (simp add: distinct_map)
  with found show ?thesis by (auto simp: vec_get_def dest: inj_onD)
next
  case absent
  then show ?thesis by (auto simp: vec_get_def)
qed

lemma vec_put_sorted: "sorted_keys key arr \<Longrightarrow> sorted_keys key (vec_put key x arr)"
  by (auto simp: vec_put_parts sorted_keys_append)

lemma vec_del_sorted: "sorted_keys key arr \<Longrightarrow> sorted_keys key (vec_del key k arr)"
  by (auto simp: vec_del_filter)

lemma vec_put_set:
  "sorted_keys key arr \<Longrightarrow> set (vec_put key x arr) = insert x {y \<in> set arr. key y \<noteq> key x}"
  by (auto simp: vec_put_parts)

lemma vec_get_eqI:
  assumes "sorted_keys key arr" and "sorted_keys key arr'"
    and "\<And>x. key x = k \<Longrightarrow> x \<in> set arr \<longleftrightarrow> x \<in> set arr'"
  shows "vec_get key arr k = vec_get key arr' k"
  using assms vec_get_iff [OF assms(1)] vec_get_iff [OF assms(2)]
  by (metis not_Some_eq)

lemma vec_get_put:
  assumes "sorted_keys key arr"
  shows "vec_get key (vec_put key x arr) k = (if k = key x then Some x else vec_get key arr k)"
proof (cases "k = key x")
  case True
  then show ?thesis using assms by (simp add: vec_get_iff vec_put_sorted vec_put_set)
next
  case False
  then have "vec_get key (vec_put key x arr) k = vec_get key arr k"
    using assms by (intro vec_get_eqI) (auto simp: vec_put_sorted vec_put_set)
  with False show ?thesis by simp
qed

lemma vec_get_del:
  assumes "sorted_keys key arr"
  shows "vec_get key (vec_del key k' arr) k = (if k = k' then None else vec_get key arr k)"
proof (cases "k = k'")
  case True
  then show ?thesis
    using assms vec_get_iff [OF vec_del_sorted [OF assms], of k' k]
    by (auto simp: vec_del_filter)
next
  case False
  then have "vec_get key (vec_del key k' arr) k = vec_get key arr k"
    using assms by (intro vec_get_eqI) (auto simp: vec_del_sorted vec_del_filter)
  with False show ?thesis by simp
qed

lemma vec_get_Nil [simp]: "vec_get key [] k = None"
  by (simp add: vec_get_def found_at_def)

section \<open>The contract: a finite map\<close>

datatype ('k, 'v) kv_op = Put 'k 'v | Del 'k | Clear

fun kv_spec :: "('k, 'v) kv_op \<Rightarrow> ('k \<rightharpoonup> 'v) \<Rightarrow> ('k \<rightharpoonup> 'v)" where
  "kv_spec (Put k v) m = m(k \<mapsto> v)"
| "kv_spec (Del k) m = m(k := None)"
| "kv_spec Clear m = Map.empty"

locale kv_store =
  fixes wf :: "'s \<Rightarrow> bool" and emp :: 's
    and get :: "'s \<Rightarrow> 'k \<Rightarrow> 'v option"
    and put :: "'k \<Rightarrow> 'v \<Rightarrow> 's \<Rightarrow> 's" and del :: "'k \<Rightarrow> 's \<Rightarrow> 's"
  assumes wf_emp: "wf emp"
    and wf_put: "wf s \<Longrightarrow> wf (put k v s)"
    and wf_del: "wf s \<Longrightarrow> wf (del k s)"
    and get_emp: "get emp = Map.empty"
    and get_put: "wf s \<Longrightarrow> get (put k v s) = (get s)(k \<mapsto> v)"
    and get_del: "wf s \<Longrightarrow> get (del k s) = (get s)(k := None)"
begin

fun kv_exec :: "('k, 'v) kv_op \<Rightarrow> 's \<Rightarrow> 's" where
  "kv_exec (Put k v) s = put k v s"
| "kv_exec (Del k) s = del k s"
| "kv_exec Clear s = emp"

lemma kv_exec_refines: "wf s \<Longrightarrow> wf (kv_exec op s) \<and> get (kv_exec op s) = kv_spec op (get s)"
  by (cases op) (auto simp: wf_emp wf_put wf_del get_emp get_put get_del)

lemma kv_run_refines:
  "wf s \<Longrightarrow> wf (fold kv_exec ops s) \<and> get (fold kv_exec ops s) = fold kv_spec ops (get s)"
  by (induction ops arbitrary: s) (auto simp: kv_exec_refines)

lemma put_again: "wf s \<Longrightarrow> get s k = Some v \<Longrightarrow> get (put k v s) = get s"
  by (auto simp: get_put fun_upd_idem)

lemma del_absent: "wf s \<Longrightarrow> get s k = None \<Longrightarrow> get (del k s) = get s"
  by (auto simp: get_del fun_upd_idem)

end

lemma sorted_vector_store:
  assumes "\<And>k v. key (mk k v) = k" and "\<And>x. mk (key x) (val x) = x" and "\<And>k v. val (mk k v) = v"
  shows "kv_store (sorted_keys key) [] (\<lambda>arr k. map_option val (vec_get key arr k))
     (\<lambda>k v. vec_put key (mk k v)) (vec_del key)"
  by (unfold_locales; (rule ext)?)
     (use assms in \<open>auto simp: vec_put_sorted vec_del_sorted vec_get_put vec_get_del\<close>)
end
