(* ===== verification/Subsystems.thy ===== *)
theory Subsystems
  imports Sorted_Vectors Subsystem_Ids Level_Names
begin

text \<open>
  The subsystem filters and per-subsystem levels of \<open>Logger\<close> (\<open>Logger.cpp\<close>) with the control
  command \<open>subsystem\<close> (\<open>Control/Command/CmdSubsystem.cpp\<close>). The vectors are lists kept
  sorted; both are interpreted as \<open>kv_store\<close>. The published snapshot is seen here by one
  thread at a time, as the levels it holds; theory \<open>Level_Snapshots\<close> has the concurrent
  readers. Lemmas: the well-formedness invariant, refinement to sets and a finite map, the
  filter a record passes, and the command as a sequence of API calls.
\<close>

record SubsystemLevel =
  Subsystem :: u64
  FilterLevel :: level

definition mk_level :: "u64 \<Rightarrow> level \<Rightarrow> SubsystemLevel" where
  "mk_level sid l = \<lparr>Subsystem = sid, FilterLevel = l\<rparr>"

record subsys_state =
  ShutdownCalled :: bool
  BlockedSubsystems :: "u64 list"
  AllowedSubsystems :: "u64 list"
  Subsystems :: "u64 list"
  BlockReportedSubsystems :: bool
  SubsystemLevels :: "SubsystemLevel list"
  SubsystemLevelSnapshots :: "SubsystemLevel list list"
  ActiveSubsystemLevelSnapshot :: "SubsystemLevel list option"

definition SUBSYSTEM_LEVEL_SNAPSHOT_LIMIT :: nat where
  "SUBSYSTEM_LEVEL_SNAPSHOT_LIMIT = 64"

text \<open>The constructor of \<open>Logger\<close>.\<close>

definition subsys_init :: subsys_state where
  "subsys_init = \<lparr>ShutdownCalled = False, BlockedSubsystems = [], AllowedSubsystems = [],
     Subsystems = [], BlockReportedSubsystems = True, SubsystemLevels = [],
     SubsystemLevelSnapshots = [], ActiveSubsystemLevelSnapshot = None\<rparr>"

section \<open>The filter lists\<close>

definition AddSubsystemToList :: "u64 list \<Rightarrow> u64 \<Rightarrow> u64 list" where
  "AddSubsystemToList arr sid =
     (let it = lower_bound id arr sid in
      if it = length arr \<or> arr ! it \<noteq> sid then vec_insert arr it sid else arr)"

definition RemoveSubsystemFromList :: "u64 list \<Rightarrow> u64 \<Rightarrow> u64 list" where
  "RemoveSubsystemFromList arr sid =
     (let it = lower_bound id arr sid in
      if it \<noteq> length arr \<and> arr ! it = sid then vec_erase arr it else arr)"

text \<open>\<open>HasSubsystem\<close> of the command, and \<open>std::binary_search\<close> in \<open>DoLog\<close>.\<close>

definition HasSubsystem :: "u64 list \<Rightarrow> u64 \<Rightarrow> bool" where
  "HasSubsystem arr sid =
     (let it = lower_bound id arr sid in it \<noteq> length arr \<and> arr ! it = sid)"

definition AddBlockedSubsystem :: "u64 \<Rightarrow> subsys_state \<Rightarrow> subsys_state" where
  "AddBlockedSubsystem sid s =
     (if ShutdownCalled s then s
      else if sid = 0 then s
      else s\<lparr>BlockedSubsystems := AddSubsystemToList (BlockedSubsystems s) sid\<rparr>)"

definition RemoveBlockedSubsystem :: "u64 \<Rightarrow> subsys_state \<Rightarrow> subsys_state" where
  "RemoveBlockedSubsystem sid s =
     (if sid = 0 then s
      else s\<lparr>BlockedSubsystems := RemoveSubsystemFromList (BlockedSubsystems s) sid\<rparr>)"

definition AddAllowedSubsystem :: "u64 \<Rightarrow> subsys_state \<Rightarrow> subsys_state" where
  "AddAllowedSubsystem sid s =
     (if ShutdownCalled s then s
      else if sid = 0 then s
      else s\<lparr>AllowedSubsystems := AddSubsystemToList (AllowedSubsystems s) sid\<rparr>)"

definition RemoveAllowedSubsystem :: "u64 \<Rightarrow> subsys_state \<Rightarrow> subsys_state" where
  "RemoveAllowedSubsystem sid s =
     (if sid = 0 then s
      else s\<lparr>AllowedSubsystems := RemoveSubsystemFromList (AllowedSubsystems s) sid\<rparr>)"

definition ClearBlockedSubsystems :: "subsys_state \<Rightarrow> subsys_state" where
  "ClearBlockedSubsystems s = s\<lparr>BlockedSubsystems := []\<rparr>"

definition ClearAllowedSubsystems :: "subsys_state \<Rightarrow> subsys_state" where
  "ClearAllowedSubsystems s = s\<lparr>AllowedSubsystems := []\<rparr>"

definition ClearSubsystemFilters :: "subsys_state \<Rightarrow> subsys_state" where
  "ClearSubsystemFilters s =
     s\<lparr>BlockedSubsystems := [], AllowedSubsystems := [], Subsystems := []\<rparr>"

definition SetBlockReportedSubsystems :: "bool \<Rightarrow> subsys_state \<Rightarrow> subsys_state" where
  "SetBlockReportedSubsystems block s =
     (if ShutdownCalled s then s
      else fold (\<lambda>sid s. if BlockReportedSubsystems s
                    then s\<lparr>BlockedSubsystems := AddSubsystemToList (BlockedSubsystems s) sid\<rparr>
                    else s\<lparr>AllowedSubsystems := AddSubsystemToList (AllowedSubsystems s) sid\<rparr>)
             (Subsystems s)
             (s\<lparr>BlockReportedSubsystems := block, BlockedSubsystems := [], AllowedSubsystems := []\<rparr>))"

definition ReportSubsystem :: "u64 \<Rightarrow> subsys_state \<Rightarrow> subsys_state" where
  "ReportSubsystem sid s =
     (if ShutdownCalled s then s
      else if sid = 0 then s
      else
        let s = s\<lparr>Subsystems := AddSubsystemToList (Subsystems s) sid\<rparr> in
        if BlockReportedSubsystems s
        then s\<lparr>BlockedSubsystems := AddSubsystemToList (BlockedSubsystems s) sid\<rparr>
        else s\<lparr>AllowedSubsystems := AddSubsystemToList (AllowedSubsystems s) sid\<rparr>)"

definition UnreportSubsystem :: "u64 \<Rightarrow> subsys_state \<Rightarrow> subsys_state" where
  "UnreportSubsystem sid s =
     (if sid = 0 then s
      else
        let s = s\<lparr>Subsystems := RemoveSubsystemFromList (Subsystems s) sid\<rparr> in
        if BlockReportedSubsystems s
        then s\<lparr>BlockedSubsystems := RemoveSubsystemFromList (BlockedSubsystems s) sid\<rparr>
        else s\<lparr>AllowedSubsystems := RemoveSubsystemFromList (AllowedSubsystems s) sid\<rparr>)"

text \<open>The filter of \<open>Logger::DoLog\<close>: whether a record of subsystem \<open>name\<close> goes on.\<close>

definition subsystem_admitted :: "subsys_state \<Rightarrow> u64 \<Rightarrow> bool" where
  "subsystem_admitted s name =
     (if name \<noteq> 0 then
        if HasSubsystem (BlockedSubsystems s) name then False
        else if AllowedSubsystems s \<noteq> [] \<and> \<not> HasSubsystem (AllowedSubsystems s) name then False
        else True
      else True)"

section \<open>The levels and their snapshots\<close>

definition ReclaimSubsystemLevelSnapshots :: "subsys_state \<Rightarrow> subsys_state" where
  "ReclaimSubsystemLevelSnapshots s =
     (if length (SubsystemLevelSnapshots s) \<le> SUBSYSTEM_LEVEL_SNAPSHOT_LIMIT then s
      else case ActiveSubsystemLevelSnapshot s of
             None \<Rightarrow> s\<lparr>SubsystemLevelSnapshots := []\<rparr>
           | Some active \<Rightarrow>
               s\<lparr>SubsystemLevelSnapshots := [last (SubsystemLevelSnapshots s)]\<rparr>)"

definition PublishSubsystemLevelSnapshot :: "subsys_state \<Rightarrow> subsys_state" where
  "PublishSubsystemLevelSnapshot s =
     ReclaimSubsystemLevelSnapshots
       (if SubsystemLevels s = [] then s\<lparr>ActiveSubsystemLevelSnapshot := None\<rparr>
        else s\<lparr>SubsystemLevelSnapshots := SubsystemLevelSnapshots s @ [SubsystemLevels s],
               ActiveSubsystemLevelSnapshot := Some (SubsystemLevels s)\<rparr>)"

definition set_level :: "u64 \<Rightarrow> level \<Rightarrow> SubsystemLevel list \<Rightarrow> SubsystemLevel list" where
  "set_level sid l levels =
     (let it = lower_bound Subsystem levels sid in
      if it \<noteq> length levels \<and> Subsystem (levels ! it) = sid
      then levels[it := (levels ! it)\<lparr>FilterLevel := l\<rparr>]
      else vec_insert levels it (mk_level sid l))"

definition SetSubsystemLevel :: "u64 \<Rightarrow> level \<Rightarrow> subsys_state \<Rightarrow> subsys_state" where
  "SetSubsystemLevel sid l s =
     (if ShutdownCalled s \<or> sid = 0 then s
      else PublishSubsystemLevelSnapshot (s\<lparr>SubsystemLevels := set_level sid l (SubsystemLevels s)\<rparr>))"

definition find_level :: "SubsystemLevel list \<Rightarrow> u64 \<Rightarrow> level option" where
  "find_level levels sid =
     (let it = lower_bound Subsystem levels sid in
      if it \<noteq> length levels \<and> Subsystem (levels ! it) = sid
      then Some (FilterLevel (levels ! it)) else None)"

definition GetSubsystemLevel :: "u64 \<Rightarrow> subsys_state \<Rightarrow> level option" where
  "GetSubsystemLevel sid s =
     (if sid = 0 then None
      else case ActiveSubsystemLevelSnapshot s of
             None \<Rightarrow> None
           | Some snapshot \<Rightarrow> find_level snapshot sid)"

definition RemoveSubsystemLevel :: "u64 \<Rightarrow> subsys_state \<Rightarrow> subsys_state" where
  "RemoveSubsystemLevel sid s =
     (if sid = 0 then s
      else
        let it = lower_bound Subsystem (SubsystemLevels s) sid in
        if it = length (SubsystemLevels s) \<or> Subsystem (SubsystemLevels s ! it) \<noteq> sid then s
        else PublishSubsystemLevelSnapshot (s\<lparr>SubsystemLevels := vec_erase (SubsystemLevels s) it\<rparr>))"

definition ClearSubsystemLevels :: "subsys_state \<Rightarrow> subsys_state" where
  "ClearSubsystemLevels s = PublishSubsystemLevelSnapshot (s\<lparr>SubsystemLevels := []\<rparr>)"

definition HasSubsystemLevelOverrides :: "subsys_state \<Rightarrow> bool" where
  "HasSubsystemLevelOverrides s \<longleftrightarrow> ActiveSubsystemLevelSnapshot s \<noteq> None"

section \<open>The vectors as stores\<close>

lemma lower_bound_le: "lower_bound key arr k \<le> length arr"
  by (simp add: lower_bound_def length_takeWhile_le)

lemma found_at_lower_bound:
  "found_at key arr (lower_bound key arr k) k \<longleftrightarrow>
     lower_bound key arr k \<noteq> length arr \<and> key (arr ! lower_bound key arr k) = k"
  using lower_bound_le [of key arr k] by (auto simp: found_at_def)

lemma AddSubsystemToList_put: "AddSubsystemToList arr sid = vec_put id sid arr"
  by (auto simp: AddSubsystemToList_def vec_put_def found_at_lower_bound Let_def)
     (metis list_update_id)

lemma RemoveSubsystemFromList_del: "RemoveSubsystemFromList arr sid = vec_del id sid arr"
  by (simp add: RemoveSubsystemFromList_def vec_del_def found_at_lower_bound Let_def)

lemma HasSubsystem_get: "HasSubsystem arr sid \<longleftrightarrow> vec_get id arr sid \<noteq> None"
  by (simp add: HasSubsystem_def vec_get_def found_at_lower_bound Let_def)

lemma SubsystemLevel_collapse [simp]: "mk_level (Subsystem x) (FilterLevel x) = x"
  by (simp add: mk_level_def)

lemma mk_level_simps [simp]: "Subsystem (mk_level k l) = k" "FilterLevel (mk_level k l) = l"
  by (simp_all add: mk_level_def)

lemma FilterLevel_update: "x\<lparr>FilterLevel := l\<rparr> = mk_level (Subsystem x) l"
  by (simp add: mk_level_def)

lemma set_level_put: "set_level sid l levels = vec_put Subsystem (mk_level sid l) levels"
  by (simp add: set_level_def vec_put_def found_at_lower_bound Let_def FilterLevel_update)

lemma find_level_get: "find_level levels sid = map_option FilterLevel (vec_get Subsystem levels sid)"
  by (simp add: find_level_def vec_get_def found_at_lower_bound Let_def)

definition list_get :: "u64 list \<Rightarrow> u64 \<Rightarrow> unit option" where
  "list_get arr k = (if HasSubsystem arr k then Some () else None)"

definition remove_level :: "u64 \<Rightarrow> SubsystemLevel list \<Rightarrow> SubsystemLevel list" where
  "remove_level sid levels =
     (let it = lower_bound Subsystem levels sid in
      if it = length levels \<or> Subsystem (levels ! it) \<noteq> sid then levels else vec_erase levels it)"

lemma remove_level_del: "remove_level sid levels = vec_del Subsystem sid levels"
  by (simp add: remove_level_def vec_del_def found_at_lower_bound Let_def)

lemma list_get_map: "list_get arr k = map_option (\<lambda>_. ()) (vec_get id arr k)"
  by (auto simp: list_get_def HasSubsystem_get)

interpretation filter_list: kv_store "sorted_keys id" "[]" list_get
    "\<lambda>k (_ :: unit) arr. AddSubsystemToList arr k" "\<lambda>k arr. RemoveSubsystemFromList arr k"
  unfolding list_get_map [abs_def] AddSubsystemToList_put RemoveSubsystemFromList_del
  by (rule sorted_vector_store) simp_all

interpretation level_vector: kv_store "sorted_keys Subsystem" "[]" find_level set_level remove_level
  unfolding find_level_get [abs_def] set_level_put [abs_def] remove_level_del [abs_def]
  by (rule sorted_vector_store) simp_all

lemma HasSubsystem_list_get: "HasSubsystem arr k \<longleftrightarrow> list_get arr k = Some ()"
  by (simp add: list_get_def)

lemma HasSubsystem_Nil [simp]: "\<not> HasSubsystem [] k"
  using filter_list.get_emp by (simp add: HasSubsystem_list_get)

lemma HasSubsystem_add:
  "sorted_keys id arr \<Longrightarrow> HasSubsystem (AddSubsystemToList arr k) j \<longleftrightarrow> j = k \<or> HasSubsystem arr j"
  using filter_list.get_put [of arr k "()"] by (simp add: HasSubsystem_list_get)

lemma HasSubsystem_remove:
  "sorted_keys id arr \<Longrightarrow> HasSubsystem (RemoveSubsystemFromList arr k) j \<longleftrightarrow> j \<noteq> k \<and> HasSubsystem arr j"
  by (simp add: HasSubsystem_list_get filter_list.get_del)

lemma HasSubsystem_set: "sorted_keys id arr \<Longrightarrow> HasSubsystem arr k \<longleftrightarrow> k \<in> set arr"
  using vec_get_iff [of id arr k] by (auto simp: HasSubsystem_get)

lemmas filter_list_facts =
  HasSubsystem_add HasSubsystem_remove filter_list.wf_put filter_list.wf_del

section \<open>The abstract filter\<close>

record subsys_spec =
  shut :: bool
  blocked :: "u64 set"
  allowed :: "u64 set"
  reported :: "u64 set"
  block_reported :: bool
  levels :: "u64 \<rightharpoonup> level"

definition subsys_abs :: "subsys_state \<Rightarrow> subsys_spec" where
  "subsys_abs s =
     \<lparr>shut = ShutdownCalled s,
      blocked = {k. HasSubsystem (BlockedSubsystems s) k},
      allowed = {k. HasSubsystem (AllowedSubsystems s) k},
      reported = {k. HasSubsystem (Subsystems s) k},
      block_reported = BlockReportedSubsystems s,
      levels = find_level (SubsystemLevels s)\<rparr>"

definition subsys_wf :: "subsys_state \<Rightarrow> bool" where
  "subsys_wf s \<longleftrightarrow>
     sorted_keys id (BlockedSubsystems s) \<and> sorted_keys id (AllowedSubsystems s) \<and>
     sorted_keys id (Subsystems s) \<and> sorted_keys Subsystem (SubsystemLevels s) \<and>
     \<not> HasSubsystem (BlockedSubsystems s) 0 \<and> \<not> HasSubsystem (AllowedSubsystems s) 0 \<and>
     \<not> HasSubsystem (Subsystems s) 0 \<and> find_level (SubsystemLevels s) 0 = None \<and>
     ActiveSubsystemLevelSnapshot s = (if SubsystemLevels s = [] then None else Some (SubsystemLevels s)) \<and>
     (SubsystemLevels s \<noteq> [] \<longrightarrow> SubsystemLevelSnapshots s \<noteq> [] \<and>
        last (SubsystemLevelSnapshots s) = SubsystemLevels s) \<and>
     length (SubsystemLevelSnapshots s) \<le> SUBSYSTEM_LEVEL_SNAPSHOT_LIMIT"

datatype subsys_op =
  OpAddBlocked u64 | OpRemoveBlocked u64 | OpAddAllowed u64 | OpRemoveAllowed u64
| OpClearBlocked | OpClearAllowed | OpClearFilters | OpSetBlockReported bool
| OpReport u64 | OpUnreport u64 | OpSetLevel u64 level | OpRemoveLevel u64 | OpClearLevels

fun subsys_exec :: "subsys_op \<Rightarrow> subsys_state \<Rightarrow> subsys_state" where
  "subsys_exec (OpAddBlocked sid) = AddBlockedSubsystem sid"
| "subsys_exec (OpRemoveBlocked sid) = RemoveBlockedSubsystem sid"
| "subsys_exec (OpAddAllowed sid) = AddAllowedSubsystem sid"
| "subsys_exec (OpRemoveAllowed sid) = RemoveAllowedSubsystem sid"
| "subsys_exec OpClearBlocked = ClearBlockedSubsystems"
| "subsys_exec OpClearAllowed = ClearAllowedSubsystems"
| "subsys_exec OpClearFilters = ClearSubsystemFilters"
| "subsys_exec (OpSetBlockReported b) = SetBlockReportedSubsystems b"
| "subsys_exec (OpReport sid) = ReportSubsystem sid"
| "subsys_exec (OpUnreport sid) = UnreportSubsystem sid"
| "subsys_exec (OpSetLevel sid l) = SetSubsystemLevel sid l"
| "subsys_exec (OpRemoveLevel sid) = RemoveSubsystemLevel sid"
| "subsys_exec OpClearLevels = ClearSubsystemLevels"

fun subsys_spec_exec :: "subsys_op \<Rightarrow> subsys_spec \<Rightarrow> subsys_spec" where
  "subsys_spec_exec (OpAddBlocked sid) a =
     (if shut a \<or> sid = 0 then a else a\<lparr>blocked := insert sid (blocked a)\<rparr>)"
| "subsys_spec_exec (OpRemoveBlocked sid) a = a\<lparr>blocked := blocked a - {sid}\<rparr>"
| "subsys_spec_exec (OpAddAllowed sid) a =
     (if shut a \<or> sid = 0 then a else a\<lparr>allowed := insert sid (allowed a)\<rparr>)"
| "subsys_spec_exec (OpRemoveAllowed sid) a = a\<lparr>allowed := allowed a - {sid}\<rparr>"
| "subsys_spec_exec OpClearBlocked a = a\<lparr>blocked := {}\<rparr>"
| "subsys_spec_exec OpClearAllowed a = a\<lparr>allowed := {}\<rparr>"
| "subsys_spec_exec OpClearFilters a = a\<lparr>blocked := {}, allowed := {}, reported := {}\<rparr>"
| "subsys_spec_exec (OpSetBlockReported b) a =
     (if shut a then a
      else a\<lparr>block_reported := b, blocked := (if b then reported a else {}),
             allowed := (if b then {} else reported a)\<rparr>)"
| "subsys_spec_exec (OpReport sid) a =
     (if shut a \<or> sid = 0 then a
      else if block_reported a
      then a\<lparr>reported := insert sid (reported a), blocked := insert sid (blocked a)\<rparr>
      else a\<lparr>reported := insert sid (reported a), allowed := insert sid (allowed a)\<rparr>)"
| "subsys_spec_exec (OpUnreport sid) a =
     (if block_reported a
      then a\<lparr>reported := reported a - {sid}, blocked := blocked a - {sid}\<rparr>
      else a\<lparr>reported := reported a - {sid}, allowed := allowed a - {sid}\<rparr>)"
| "subsys_spec_exec (OpSetLevel sid l) a =
     (if shut a \<or> sid = 0 then a else a\<lparr>levels := (levels a)(sid \<mapsto> l)\<rparr>)"
| "subsys_spec_exec (OpRemoveLevel sid) a = a\<lparr>levels := (levels a)(sid := None)\<rparr>"
| "subsys_spec_exec OpClearLevels a = a\<lparr>levels := Map.empty\<rparr>"

lemma fold_blocked:
  "fold (\<lambda>sid s. s\<lparr>BlockedSubsystems := AddSubsystemToList (BlockedSubsystems s) sid\<rparr>) xs s =
     s\<lparr>BlockedSubsystems := fold (\<lambda>sid arr. AddSubsystemToList arr sid) xs (BlockedSubsystems s)\<rparr>"
  by (induction xs arbitrary: s) auto

lemma fold_allowed:
  "fold (\<lambda>sid s. s\<lparr>AllowedSubsystems := AddSubsystemToList (AllowedSubsystems s) sid\<rparr>) xs s =
     s\<lparr>AllowedSubsystems := fold (\<lambda>sid arr. AddSubsystemToList arr sid) xs (AllowedSubsystems s)\<rparr>"
  by (induction xs arbitrary: s) auto

lemma SetBlockReported_eq:
  "SetBlockReportedSubsystems block s =
     (if ShutdownCalled s then s
      else let arr = fold (\<lambda>sid arr. AddSubsystemToList arr sid) (Subsystems s) [] in
        s\<lparr>BlockReportedSubsystems := block, BlockedSubsystems := (if block then arr else []),
          AllowedSubsystems := (if block then [] else arr)\<rparr>)"
proof -
  have step: "fold (\<lambda>sid s. if BlockReportedSubsystems s
          then s\<lparr>BlockedSubsystems := AddSubsystemToList (BlockedSubsystems s) sid\<rparr>
          else s\<lparr>AllowedSubsystems := AddSubsystemToList (AllowedSubsystems s) sid\<rparr>) xs s =
     (if BlockReportedSubsystems s
      then fold (\<lambda>sid s. s\<lparr>BlockedSubsystems := AddSubsystemToList (BlockedSubsystems s) sid\<rparr>) xs s
      else fold (\<lambda>sid s. s\<lparr>AllowedSubsystems := AddSubsystemToList (AllowedSubsystems s) sid\<rparr>) xs s)"
    for xs s
    by (induction xs arbitrary: s) auto
  show ?thesis
    by (simp add: SetBlockReportedSubsystems_def step fold_blocked fold_allowed Let_def)
qed

lemma add_all:
  "sorted_keys id arr \<Longrightarrow> sorted_keys id (fold (\<lambda>sid arr. AddSubsystemToList arr sid) xs arr) \<and>
     (HasSubsystem (fold (\<lambda>sid arr. AddSubsystemToList arr sid) xs arr) k \<longleftrightarrow>
        k \<in> set xs \<or> HasSubsystem arr k)"
  by (induction xs arbitrary: arr) (auto simp: filter_list_facts)

lemma publish_frame:
  "subsys_abs (PublishSubsystemLevelSnapshot s) = subsys_abs s"
  by (simp add: subsys_abs_def PublishSubsystemLevelSnapshot_def ReclaimSubsystemLevelSnapshots_def
      split: option.split)

lemma publish_wf:
  assumes "sorted_keys id (BlockedSubsystems s)" "sorted_keys id (AllowedSubsystems s)"
    "sorted_keys id (Subsystems s)" "sorted_keys Subsystem (SubsystemLevels s)"
    "\<not> HasSubsystem (BlockedSubsystems s) 0" "\<not> HasSubsystem (AllowedSubsystems s) 0"
    "\<not> HasSubsystem (Subsystems s) 0" "find_level (SubsystemLevels s) 0 = None"
  shows "subsys_wf (PublishSubsystemLevelSnapshot s)"
  using assms
  by (auto simp: subsys_wf_def PublishSubsystemLevelSnapshot_def ReclaimSubsystemLevelSnapshots_def
      SUBSYSTEM_LEVEL_SNAPSHOT_LIMIT_def)

lemma RemoveSubsystemLevel_eq:
  "RemoveSubsystemLevel sid s =
     (if sid = 0 \<or> find_level (SubsystemLevels s) sid = None then s
      else PublishSubsystemLevelSnapshot
             (s\<lparr>SubsystemLevels := remove_level sid (SubsystemLevels s)\<rparr>))"
  by (simp add: RemoveSubsystemLevel_def find_level_def remove_level_def Let_def)

lemmas api_defs =
  AddBlockedSubsystem_def RemoveBlockedSubsystem_def AddAllowedSubsystem_def
  RemoveAllowedSubsystem_def ClearBlockedSubsystems_def ClearAllowedSubsystems_def
  ClearSubsystemFilters_def ReportSubsystem_def UnreportSubsystem_def SetSubsystemLevel_def
  RemoveSubsystemLevel_eq ClearSubsystemLevels_def

lemma subsys_exec_wf: "subsys_wf s \<Longrightarrow> subsys_wf (subsys_exec op s)"
proof (cases op)
  case (OpSetBlockReported b)
  assume "subsys_wf s"
  with add_all [of "[]" "Subsystems s" 0] OpSetBlockReported show ?thesis
    by (auto simp: subsys_wf_def SetBlockReported_eq Let_def HasSubsystem_set)
next
  case (OpSetLevel sid l)
  assume "subsys_wf s"
  with OpSetLevel show ?thesis
    by (auto simp: api_defs intro!: publish_wf)
       (auto simp: subsys_wf_def level_vector.wf_put level_vector.get_put)
next
  case (OpRemoveLevel sid)
  assume "subsys_wf s"
  with OpRemoveLevel show ?thesis
    by (auto simp: api_defs intro!: publish_wf)
       (auto simp: subsys_wf_def level_vector.wf_del level_vector.get_del)
next
  case OpClearLevels
  assume "subsys_wf s"
  with OpClearLevels show ?thesis
    by (auto simp: api_defs level_vector.get_emp intro!: publish_wf) (auto simp: subsys_wf_def)
qed (auto simp: subsys_wf_def api_defs filter_list_facts Let_def)

lemma subsys_exec_refines:
  "subsys_wf s \<Longrightarrow> subsys_abs (subsys_exec op s) = subsys_spec_exec op (subsys_abs s)"
proof (cases op)
  case (OpSetBlockReported b)
  assume "subsys_wf s"
  with OpSetBlockReported show ?thesis
    by (auto simp: subsys_abs_def SetBlockReported_eq subsys_wf_def Let_def HasSubsystem_set add_all
        simp flip: HasSubsystem_set)
next
  case (OpSetLevel sid l)
  assume "subsys_wf s"
  with OpSetLevel show ?thesis
    by (simp add: api_defs publish_frame) (auto simp: subsys_abs_def subsys_wf_def level_vector.get_put)
next
  case (OpRemoveLevel sid)
  assume wf: "subsys_wf s"
  then have none: "find_level (SubsystemLevels s) 0 = None" by (simp add: subsys_wf_def)
  show ?thesis
  proof (cases "sid = 0 \<or> find_level (SubsystemLevels s) sid = None")
    case True
    then have "(find_level (SubsystemLevels s))(sid := None) = find_level (SubsystemLevels s)"
      using none by auto
    with True OpRemoveLevel show ?thesis by (simp add: api_defs subsys_abs_def)
  next
    case False
    with OpRemoveLevel wf show ?thesis
      by (simp add: api_defs publish_frame)
         (auto simp: subsys_abs_def subsys_wf_def level_vector.get_del)
  qed
next
  case OpClearLevels
  then show ?thesis
    by (simp add: api_defs publish_frame) (simp add: subsys_abs_def level_vector.get_emp)
qed (auto simp: subsys_wf_def subsys_abs_def api_defs filter_list_facts Let_def)

lemma subsys_init_wf: "subsys_wf subsys_init"
  by (simp add: subsys_wf_def subsys_init_def level_vector.get_emp SUBSYSTEM_LEVEL_SNAPSHOT_LIMIT_def)

lemma subsys_run:
  "subsys_wf s \<Longrightarrow> subsys_wf (fold subsys_exec ops s) \<and>
     subsys_abs (fold subsys_exec ops s) = fold subsys_spec_exec ops (subsys_abs s)"
  by (induction ops arbitrary: s) (auto simp: subsys_exec_wf subsys_exec_refines)

lemma subsys_observe:
  assumes "subsys_wf s"
  shows "subsystem_admitted s name \<longleftrightarrow>
      name = 0 \<or> name \<notin> blocked (subsys_abs s) \<and>
        (allowed (subsys_abs s) = {} \<or> name \<in> allowed (subsys_abs s))"
    and "GetSubsystemLevel name s = levels (subsys_abs s) name"
    and "HasSubsystemLevelOverrides s \<longleftrightarrow> levels (subsys_abs s) \<noteq> Map.empty"
proof -
  from assms have srt: "sorted_keys id (AllowedSubsystems s)" by (simp add: subsys_wf_def)
  have empty: "allowed (subsys_abs s) = {} \<longleftrightarrow> AllowedSubsystems s = []"
    by (simp add: subsys_abs_def HasSubsystem_set [OF srt])
  show "subsystem_admitted s name \<longleftrightarrow>
      name = 0 \<or> name \<notin> blocked (subsys_abs s) \<and>
        (allowed (subsys_abs s) = {} \<or> name \<in> allowed (subsys_abs s))"
    unfolding empty by (auto simp: subsystem_admitted_def subsys_abs_def)
  from assms show "GetSubsystemLevel name s = levels (subsys_abs s) name"
    by (auto simp: GetSubsystemLevel_def subsys_abs_def subsys_wf_def level_vector.get_emp)
  have "find_level (SubsystemLevels s) \<noteq> Map.empty" if ne: "SubsystemLevels s \<noteq> []"
  proof -
    from assms have "sorted_keys Subsystem (SubsystemLevels s)" by (simp add: subsys_wf_def)
    from vec_get_iff [OF this, of "Subsystem (hd (SubsystemLevels s))"] ne
    have "find_level (SubsystemLevels s) (Subsystem (hd (SubsystemLevels s))) \<noteq> None"
      by (simp add: find_level_get) (metis hd_in_set option.distinct(1))
    then show ?thesis by auto
  qed
  with assms show "HasSubsystemLevelOverrides s \<longleftrightarrow> levels (subsys_abs s) \<noteq> Map.empty"
    by (auto simp: HasSubsystemLevelOverrides_def subsys_abs_def subsys_wf_def level_vector.get_emp)
qed

text \<open>C27. After any sequence of API calls from construction the sorted vectors and the
  published snapshot behave as sets and a finite map: a record passes the filter exactly when
  its subsystem is 0 or not blocked and allowed (or nothing is), the level read is the last
  one set, overrides are seen exactly when there are some, and at most 64 snapshots are kept.\<close>

theorem subsystems_refine:
  "let s = fold subsys_exec ops subsys_init;
       a = fold subsys_spec_exec ops (subsys_abs subsys_init)
   in (subsystem_admitted s name \<longleftrightarrow>
         name = 0 \<or> name \<notin> blocked a \<and> (allowed a = {} \<or> name \<in> allowed a)) \<and>
      GetSubsystemLevel name s = levels a name \<and>
      (HasSubsystemLevelOverrides s \<longleftrightarrow> levels a \<noteq> Map.empty) \<and>
      length (SubsystemLevelSnapshots s) \<le> SUBSYSTEM_LEVEL_SNAPSHOT_LIMIT"
proof -
  let ?s = "fold subsys_exec ops subsys_init"
  have wf: "subsys_wf ?s"
    and abs: "subsys_abs ?s = fold subsys_spec_exec ops (subsys_abs subsys_init)"
    using subsys_run [OF subsys_init_wf, of ops] by simp_all
  from wf have "length (SubsystemLevelSnapshots ?s) \<le> SUBSYSTEM_LEVEL_SNAPSHOT_LIMIT"
    by (simp add: subsys_wf_def)
  with subsys_observe [OF wf] show ?thesis by (simp add: Let_def abs)
qed

section \<open>The control command \<open>subsystem\<close>\<close>

definition NL :: string where
  "NL = [CHR 0x0A]"

definition PrintSubsystemList :: "string \<Rightarrow> string \<Rightarrow> u64 list \<Rightarrow> string" where
  "PrintSubsystemList response title arr =
     (if arr = [] then response @ title @ '': none'' @ NL
      else foldl (\<lambda>r sid. r @ ''  '' @ SidToString sid @ NL) (response @ title @ '':'' @ NL) arr)"

definition printSubsystemLevels :: "SubsystemLevel list \<Rightarrow> string \<Rightarrow> string" where
  "printSubsystemLevels items output =
     (if items = [] then output @ ''Subsystem levels: none'' @ NL
      else foldl (\<lambda>r item. r @ ''  '' @ SidToString (Subsystem item) @ '': '' @
                    GetLevelName (FilterLevel item) @ NL)
             (output @ ''Subsystem levels:'' @ NL) items)"

definition show_bool :: "bool \<Rightarrow> string" where
  "show_bool b = (if b then ''true'' else ''false'')"

text \<open>
  \<open>arr\<close> holds the words of the command, the command's own name first. The result is the new
  state and response (the return value is always \<open>true\<close>).
\<close>

definition CommandSubsystem ::
  "string list \<Rightarrow> string \<Rightarrow> subsys_state \<Rightarrow> subsys_state \<times> string" where
  "CommandSubsystem arr response s =
    (if length arr = 1 then
       (s, printSubsystemLevels (SubsystemLevels s)
             (PrintSubsystemList
                (PrintSubsystemList response ''Blocked subsystems'' (BlockedSubsystems s))
                ''Allowed subsystems'' (AllowedSubsystems s)))
     else if length arr = 2 \<and> arr ! 1 = ''--clear'' then
       (let s = s\<lparr>BlockedSubsystems := [], AllowedSubsystems := [], SubsystemLevels := []\<rparr>;
            s = PublishSubsystemLevelSnapshot s
        in (s\<lparr>Subsystems := []\<rparr>, ''ok''))
     else if length arr = 2 \<and> arr ! 1 = ''--clear-blocked'' then
       (s\<lparr>BlockedSubsystems := []\<rparr>, ''ok'')
     else if length arr = 2 \<and> arr ! 1 = ''--clear-allowed'' then
       (s\<lparr>AllowedSubsystems := []\<rparr>, ''ok'')
     else if length arr = 2 \<and> arr ! 1 = ''--clear-levels'' then
       (PublishSubsystemLevelSnapshot (s\<lparr>SubsystemLevels := []\<rparr>), ''ok'')
     else if length arr = 4 \<and> arr ! 1 = ''--set-level'' then
       (let sid = sid_of (arr ! 2) in
        if sid = 0 then (s, ''error: invalid subsystem name'')
        else case ParseLevelName (arr ! 3) of
            None \<Rightarrow> (s, ''error: invalid level: '' @ arr ! 3)
          | Some parsedLevel \<Rightarrow>
              (PublishSubsystemLevelSnapshot
                 (s\<lparr>SubsystemLevels := set_level sid parsedLevel (SubsystemLevels s)\<rparr>), ''ok''))
     else if length arr = 3 \<and> arr ! 1 = ''--remove-level'' then
       (let sid = sid_of (arr ! 2) in
        if sid = 0 then (s, ''error: invalid subsystem name'')
        else
          let it = lower_bound Subsystem (SubsystemLevels s) sid in
          if it = length (SubsystemLevels s) \<or> Subsystem (SubsystemLevels s ! it) \<noteq> sid
          then (s, ''error: no level override for subsystem: '' @ arr ! 2)
          else (PublishSubsystemLevelSnapshot
                  (s\<lparr>SubsystemLevels := vec_erase (SubsystemLevels s) it\<rparr>), ''ok''))
     else if length arr \<ge> 3 then
       (let name = arr ! 2; sid = sid_of name in
        if sid = 0 then (s, response @ ''error: invalid subsystem name'')
        else if arr ! 1 = ''--block'' then
          (if HasSubsystem (BlockedSubsystems s) sid
           then (s, ''error: already blocked: '' @ name)
           else (s\<lparr>BlockedSubsystems := vec_insert (BlockedSubsystems s)
                      (lower_bound id (BlockedSubsystems s) sid) sid\<rparr>, ''ok''))
        else if arr ! 1 = ''--unblock'' then
          (let it = lower_bound id (BlockedSubsystems s) sid in
           if it = length (BlockedSubsystems s) \<or> BlockedSubsystems s ! it \<noteq> sid
           then (s, ''error: no such blocked subsystem: '' @ name)
           else (s\<lparr>BlockedSubsystems := vec_erase (BlockedSubsystems s) it\<rparr>, ''ok''))
        else if arr ! 1 = ''--allow'' then
          (if HasSubsystem (AllowedSubsystems s) sid
           then (s, ''error: already allowed: '' @ name)
           else (s\<lparr>AllowedSubsystems := vec_insert (AllowedSubsystems s)
                      (lower_bound id (AllowedSubsystems s) sid) sid\<rparr>, ''ok''))
        else if arr ! 1 = ''--disallow'' then
          (let it = lower_bound id (AllowedSubsystems s) sid in
           if it = length (AllowedSubsystems s) \<or> AllowedSubsystems s ! it \<noteq> sid
           then (s, ''error: no such allowed subsystem: '' @ name)
           else (s\<lparr>AllowedSubsystems := vec_erase (AllowedSubsystems s) it\<rparr>, ''ok''))
        else if arr ! 1 = ''--check'' then
          (s, response @ ''Blocked: '' @ show_bool (HasSubsystem (BlockedSubsystems s) sid) @ NL @
              ''Allowed: '' @ show_bool (HasSubsystem (AllowedSubsystems s) sid) @ NL @
              (case find_level (SubsystemLevels s) sid of
                 None \<Rightarrow> ''Level: channel default''
               | Some l \<Rightarrow> ''Level: '' @ GetLevelName l))
        else (s, response @ ''error: invalid arguments''))
     else (s, response @ ''error: invalid arguments''))"

text \<open>The API calls a command line stands for.\<close>

definition command_ops :: "string list \<Rightarrow> subsys_op list" where
  "command_ops arr =
    (if length arr = 2 then
       (if arr ! 1 = ''--clear'' then [OpClearFilters, OpClearLevels]
        else if arr ! 1 = ''--clear-blocked'' then [OpClearBlocked]
        else if arr ! 1 = ''--clear-allowed'' then [OpClearAllowed]
        else if arr ! 1 = ''--clear-levels'' then [OpClearLevels]
        else [])
     else if length arr < 3 then []
     else if arr ! 1 = ''--set-level'' \<and> length arr = 4 then
       (case ParseLevelName (arr ! 3) of None \<Rightarrow> [] | Some l \<Rightarrow> [OpSetLevel (sid_of (arr ! 2)) l])
     else if arr ! 1 = ''--remove-level'' \<and> length arr = 3 then [OpRemoveLevel (sid_of (arr ! 2))]
     else if arr ! 1 = ''--block'' then [OpAddBlocked (sid_of (arr ! 2))]
     else if arr ! 1 = ''--unblock'' then [OpRemoveBlocked (sid_of (arr ! 2))]
     else if arr ! 1 = ''--allow'' then [OpAddAllowed (sid_of (arr ! 2))]
     else if arr ! 1 = ''--disallow'' then [OpRemoveAllowed (sid_of (arr ! 2))]
     else [])"

lemma add_as_insert:
  "AddSubsystemToList arr sid =
     (if HasSubsystem arr sid then arr else vec_insert arr (lower_bound id arr sid) sid)"
  by (auto simp: AddSubsystemToList_def HasSubsystem_def Let_def)

lemma remove_as_erase:
  "RemoveSubsystemFromList arr sid =
     (if lower_bound id arr sid = length arr \<or> arr ! lower_bound id arr sid \<noteq> sid then arr
      else vec_erase arr (lower_bound id arr sid))"
  by (simp add: RemoveSubsystemFromList_def Let_def)

lemma publish_clear_reported:
  "(PublishSubsystemLevelSnapshot (s\<lparr>SubsystemLevels := l\<rparr>))\<lparr>Subsystems := xs\<rparr> =
     PublishSubsystemLevelSnapshot (s\<lparr>Subsystems := xs, SubsystemLevels := l\<rparr>)"
  by (simp add: PublishSubsystemLevelSnapshot_def ReclaimSubsystemLevelSnapshots_def
      split: option.split)

lemma command_no_name:
  assumes "length arr < 3"
  shows "fst (CommandSubsystem arr response s) = fold subsys_exec (command_ops arr) s"
proof (cases "length arr = 2")
  case True
  then show ?thesis
    by (simp add: CommandSubsystem_def command_ops_def ClearSubsystemFilters_def
        ClearSubsystemLevels_def ClearBlockedSubsystems_def ClearAllowedSubsystems_def
        publish_clear_reported Let_def)
next
  case False
  with assms show ?thesis by (simp add: CommandSubsystem_def command_ops_def)
qed

definition command_words :: "string list" where
  "command_words = [''--set-level'', ''--remove-level'', ''--block'', ''--unblock'', ''--allow'',
     ''--disallow'']"

lemma command_with_name:
  assumes "\<not> ShutdownCalled s" and len: "length arr \<ge> 3"
  shows "fst (CommandSubsystem arr response s) = fold subsys_exec (command_ops arr) s"
proof -
  note cmd = CommandSubsystem_def command_ops_def Let_def
  consider "arr ! 1 = ''--set-level''" | "arr ! 1 = ''--remove-level''" | "arr ! 1 = ''--block''"
    | "arr ! 1 = ''--unblock''" | "arr ! 1 = ''--allow''" | "arr ! 1 = ''--disallow''"
    | (other) "arr ! 1 \<notin> set command_words"
    by (auto simp: command_words_def)
  then show ?thesis
  proof cases
    case 1
    with assms show ?thesis
      by (cases "length arr = 4") (simp_all add: cmd SetSubsystemLevel_def split: option.split)
  next
    case 2
    with assms show ?thesis
      by (cases "length arr = 3") (simp_all add: cmd RemoveSubsystemLevel_def)
  next
    case 3
    with assms show ?thesis by (simp add: cmd AddBlockedSubsystem_def add_as_insert)
  next
    case 4
    with assms show ?thesis by (simp add: cmd RemoveBlockedSubsystem_def remove_as_erase)
  next
    case 5
    with assms show ?thesis by (simp add: cmd AddAllowedSubsystem_def add_as_insert)
  next
    case 6
    with assms show ?thesis by (simp add: cmd RemoveAllowedSubsystem_def remove_as_erase)
  next
    case other
    then have "arr ! 1 \<noteq> ''--set-level''" "arr ! 1 \<noteq> ''--remove-level''" "arr ! 1 \<noteq> ''--block''"
      "arr ! 1 \<noteq> ''--unblock''" "arr ! 1 \<noteq> ''--allow''" "arr ! 1 \<noteq> ''--disallow''"
      by (simp_all add: command_words_def)
    with assms show ?thesis by (simp add: cmd)
  qed
qed

text \<open>The control command changes the state exactly as the API calls it stands for, unless
  the process is shutting down; a malformed command or an unknown name changes nothing.\<close>

theorem command_subsystem_is_api:
  assumes "\<not> ShutdownCalled s"
  shows "fst (CommandSubsystem arr response s) = fold subsys_exec (command_ops arr) s"
  using command_no_name [of arr response s] command_with_name [OF assms, of arr response]
  by linarith

theorem command_subsystem_is_api_witness:
  "fst (CommandSubsystem [''subsystem'', ''--block'', ''net''] [] subsys_init) =
     AddBlockedSubsystem (sid_of ''net'') subsys_init"
  using command_subsystem_is_api [of subsys_init "[''subsystem'', ''--block'', ''net'']" "[]"]
  by (simp add: subsys_init_def command_ops_def)

end
