(* ===== verification/Level_Snapshots.thy ===== *)
theory Level_Snapshots
  imports Subsystems
begin

text \<open>
  The published level snapshots under concurrency (\<open>Logger.cpp\<close>): readers that take no lock
  (\<open>AcquireSubsystemLevelSnapshot\<close>, \<open>ReleaseSubsystemLevelSnapshot\<close>, the two ends of
  \<open>GetSubsystemLevel\<close>) and the writer that holds \<open>DataLock\<close>
  (\<open>PublishSubsystemLevelSnapshot\<close>, \<open>ReclaimSubsystemLevelSnapshots\<close>). One step is one atomic
  operation on a shared variable; steps of all threads interleave freely. A snapshot is an
  identity; \<open>SnapLive\<close> is the vector that owns the snapshots not yet freed. Lemmas: the protocol's
  invariant and that no reader ever holds a freed snapshot.
\<close>

section \<open>Threads and shared state\<close>

text \<open>
  Where a reader stands: outside; at the spin on \<open>Reclamation\<close>; before \<open>fetch_add\<close>; before
  the second look at \<open>Reclamation\<close>; before the load of the pointer; before \<open>fetch_sub\<close> and a
  retry; holding what it loaded (with, for the statements only, the levels published then).
\<close>

datatype reader_pc =
  RIdle | RSpin | REnter | RCheck | RLoad | RBackoff | RHold "nat option" "SubsystemLevel list"

text \<open>
  Where the writer stands: outside; with a new snapshot in the vector that is not stored yet;
  at the size test; before the wait; at the wait; free to reclaim; before lowering the flag.
\<close>

datatype writer_pc =
  WIdle | WPushed nat "SubsystemLevel list" | WStored | WFlag | WWait | WFree | WLower

record snap_state =
  SnapLive :: "nat list"
  SnapActive :: "nat option"
  SnapReclamation :: bool
  SnapReaders :: nat
  SnapContent :: "nat \<Rightarrow> SubsystemLevel list"
  SnapPublished :: "SubsystemLevel list"
  SnapReader :: "nat \<Rightarrow> reader_pc"
  SnapWriter :: writer_pc

definition snap_init :: snap_state where
  "snap_init = \<lparr>SnapLive = [], SnapActive = None, SnapReclamation = False, SnapReaders = 0,
     SnapContent = (\<lambda>_. []), SnapPublished = [], SnapReader = (\<lambda>_. RIdle), SnapWriter = WIdle\<rparr>"

abbreviation set_reader :: "nat \<Rightarrow> reader_pc \<Rightarrow> snap_state \<Rightarrow> snap_state" where
  "set_reader t pc s \<equiv> s\<lparr>SnapReader := (SnapReader s)(t := pc)\<rparr>"

text \<open>The steps of reader \<open>t\<close>.\<close>

inductive reader_step :: "nat \<Rightarrow> snap_state \<Rightarrow> snap_state \<Rightarrow> bool" for t where
  acquire_null: "SnapReader s t = RIdle \<Longrightarrow> SnapActive s = None \<Longrightarrow> reader_step t s s"
| acquire_start: "SnapReader s t = RIdle \<Longrightarrow> SnapActive s \<noteq> None \<Longrightarrow>
    reader_step t s (set_reader t RSpin s)"
| spin: "SnapReader s t = RSpin \<Longrightarrow> SnapReclamation s \<Longrightarrow> reader_step t s s"
| spin_done: "SnapReader s t = RSpin \<Longrightarrow> \<not> SnapReclamation s \<Longrightarrow>
    reader_step t s (set_reader t REnter s)"
| enter: "SnapReader s t = REnter \<Longrightarrow>
    reader_step t s (set_reader t RCheck (s\<lparr>SnapReaders := SnapReaders s + 1\<rparr>))"
| check_ok: "SnapReader s t = RCheck \<Longrightarrow> \<not> SnapReclamation s \<Longrightarrow>
    reader_step t s (set_reader t RLoad s)"
| check_fail: "SnapReader s t = RCheck \<Longrightarrow> SnapReclamation s \<Longrightarrow>
    reader_step t s (set_reader t RBackoff s)"
| backoff: "SnapReader s t = RBackoff \<Longrightarrow>
    reader_step t s (set_reader t RSpin (s\<lparr>SnapReaders := SnapReaders s - 1\<rparr>))"
| load: "SnapReader s t = RLoad \<Longrightarrow>
    reader_step t s (set_reader t (RHold (SnapActive s) (SnapPublished s)) s)"
| release: "SnapReader s t = RHold p l \<Longrightarrow>
    reader_step t s (set_reader t RIdle (s\<lparr>SnapReaders := SnapReaders s - 1\<rparr>))"

text \<open>The steps of the writer; \<open>l\<close> is the vector a \<open>Set\<close>, \<open>Remove\<close> or \<open>Clear\<close> left.\<close>

inductive writer_step :: "snap_state \<Rightarrow> snap_state \<Rightarrow> bool" where
  publish_none: "SnapWriter s = WIdle \<Longrightarrow>
    writer_step s (s\<lparr>SnapActive := None, SnapPublished := [], SnapWriter := WStored\<rparr>)"
| publish_push: "SnapWriter s = WIdle \<Longrightarrow> l \<noteq> [] \<Longrightarrow> a \<notin> set (SnapLive s) \<Longrightarrow>
    writer_step s (s\<lparr>SnapLive := SnapLive s @ [a], SnapContent := (SnapContent s)(a := l),
      SnapWriter := WPushed a l\<rparr>)"
| publish_store: "SnapWriter s = WPushed a l \<Longrightarrow>
    writer_step s (s\<lparr>SnapActive := Some a, SnapPublished := l, SnapWriter := WStored\<rparr>)"
| few: "SnapWriter s = WStored \<Longrightarrow> length (SnapLive s) \<le> SUBSYSTEM_LEVEL_SNAPSHOT_LIMIT \<Longrightarrow>
    writer_step s (s\<lparr>SnapWriter := WIdle\<rparr>)"
| many: "SnapWriter s = WStored \<Longrightarrow> length (SnapLive s) > SUBSYSTEM_LEVEL_SNAPSHOT_LIMIT \<Longrightarrow>
    writer_step s (s\<lparr>SnapWriter := WFlag\<rparr>)"
| raise: "SnapWriter s = WFlag \<Longrightarrow>
    writer_step s (s\<lparr>SnapReclamation := True, SnapWriter := WWait\<rparr>)"
| wait: "SnapWriter s = WWait \<Longrightarrow> SnapReaders s \<noteq> 0 \<Longrightarrow> writer_step s s"
| wait_done: "SnapWriter s = WWait \<Longrightarrow> SnapReaders s = 0 \<Longrightarrow>
    writer_step s (s\<lparr>SnapWriter := WFree\<rparr>)"
| reclaim_all: "SnapWriter s = WFree \<Longrightarrow> SnapActive s = None \<Longrightarrow>
    writer_step s (s\<lparr>SnapLive := [], SnapWriter := WLower\<rparr>)"
| reclaim_old: "SnapWriter s = WFree \<Longrightarrow> SnapActive s = Some a \<Longrightarrow>
    writer_step s (s\<lparr>SnapLive := [last (SnapLive s)], SnapWriter := WLower\<rparr>)"
| lower: "SnapWriter s = WLower \<Longrightarrow>
    writer_step s (s\<lparr>SnapReclamation := False, SnapWriter := WIdle\<rparr>)"

inductive snap_reachable :: "snap_state \<Rightarrow> bool" where
  start: "snap_reachable snap_init"
| reader: "snap_reachable s \<Longrightarrow> reader_step t s s' \<Longrightarrow> snap_reachable s'"
| writer: "snap_reachable s \<Longrightarrow> writer_step s s' \<Longrightarrow> snap_reachable s'"

section \<open>The invariant\<close>

text \<open>The readers counted in \<open>SnapReaders\<close>, and those that may touch a snapshot.\<close>

fun counted :: "reader_pc \<Rightarrow> bool" where
  "counted RCheck = True"
| "counted RLoad = True"
| "counted RBackoff = True"
| "counted (RHold _ _) = True"
| "counted _ = False"

fun inside :: "reader_pc \<Rightarrow> bool" where
  "inside RLoad = True"
| "inside (RHold _ _) = True"
| "inside _ = False"

lemma inside_counted: "inside pc \<Longrightarrow> counted pc"
  by (cases pc) auto

definition counted_readers :: "snap_state \<Rightarrow> nat set" where
  "counted_readers s = {t. counted (SnapReader s t)}"

definition readers_inv :: "snap_state \<Rightarrow> bool" where
  "readers_inv s \<longleftrightarrow> finite (counted_readers s) \<and> SnapReaders s = card (counted_readers s)"

definition flag_inv :: "snap_state \<Rightarrow> bool" where
  "flag_inv s \<longleftrightarrow>
     (SnapReclamation s \<longleftrightarrow> SnapWriter s \<in> {WWait, WFree, WLower}) \<and>
     (SnapWriter s = WFree \<longrightarrow> (\<forall>t. \<not> inside (SnapReader s t)))"

definition active_inv :: "snap_state \<Rightarrow> bool" where
  "active_inv s \<longleftrightarrow>
     (case SnapActive s of
        None \<Rightarrow> SnapPublished s = []
      | Some a \<Rightarrow> a \<in> set (SnapLive s) \<and> SnapContent s a = SnapPublished s) \<and>
     (case SnapWriter s of
        WPushed a l \<Rightarrow> SnapLive s \<noteq> [] \<and> last (SnapLive s) = a \<and> SnapContent s a = l
      | _ \<Rightarrow> (case SnapActive s of
                None \<Rightarrow> True
              | Some a \<Rightarrow> SnapLive s \<noteq> [] \<and> last (SnapLive s) = a))"

definition hold_inv :: "snap_state \<Rightarrow> bool" where
  "hold_inv s \<longleftrightarrow>
     (\<forall>t p l. SnapReader s t = RHold p l \<longrightarrow>
        (case p of None \<Rightarrow> l = [] | Some a \<Rightarrow> a \<in> set (SnapLive s) \<and> SnapContent s a = l))"

lemma counted_update:
  "counted_readers (r\<lparr>SnapReader := (SnapReader s)(t := pc)\<rparr>) =
     (if counted pc then insert t (counted_readers s) else counted_readers s - {t})"
  by (auto simp: counted_readers_def)

definition snap_inv :: "snap_state \<Rightarrow> bool" where
  "snap_inv s \<longleftrightarrow> readers_inv s \<and> flag_inv s \<and> active_inv s \<and> hold_inv s"

inductive_cases reader_stepE: "reader_step t s s'"
inductive_cases writer_stepE: "writer_step s s'"

lemma snap_init_inv: "snap_inv snap_init"
  by (simp add: snap_inv_def readers_inv_def flag_inv_def active_inv_def hold_inv_def
      snap_init_def counted_readers_def)

lemma readers_inv_step:
  assumes "readers_inv s" and "reader_step t s s'"
  shows "readers_inv s'"
proof -
  have "t \<in> counted_readers s \<longleftrightarrow> counted (SnapReader s t)" by (simp add: counted_readers_def)
  with assms(1) show ?thesis
    by (cases rule: reader_step.cases [OF assms(2)])
       (simp_all add: readers_inv_def counted_update insert_absorb)
qed

lemma free_no_reader:
  "flag_inv s \<Longrightarrow> SnapWriter s = WFree \<Longrightarrow> SnapReader s t \<noteq> RLoad \<and> SnapReader s t \<noteq> RHold p l"
  by (auto simp: flag_inv_def) (metis inside.simps)+

lemma flag_inv_step: "flag_inv s \<Longrightarrow> reader_step t s s' \<Longrightarrow> flag_inv s'"
  using free_no_reader [of s t] by (elim reader_stepE) (auto simp: flag_inv_def)

lemma active_inv_step: "active_inv s \<Longrightarrow> reader_step t s s' \<Longrightarrow> active_inv s'"
  by (elim reader_stepE) (auto simp: active_inv_def split: option.splits writer_pc.splits)

lemma hold_inv_step: "hold_inv s \<Longrightarrow> active_inv s \<Longrightarrow> reader_step t s s' \<Longrightarrow> hold_inv s'"
  by (elim reader_stepE) (auto simp: hold_inv_def active_inv_def split: option.splits)

lemma reader_step_inv: "snap_inv s \<Longrightarrow> reader_step t s s' \<Longrightarrow> snap_inv s'"
  using readers_inv_step flag_inv_step active_inv_step hold_inv_step unfolding snap_inv_def by blast

lemma readers_none: "readers_inv s \<Longrightarrow> SnapReaders s = 0 \<Longrightarrow> \<not> inside (SnapReader s t)"
  using inside_counted by (fastforce simp: readers_inv_def counted_readers_def)

lemma writer_readers_inv: "readers_inv s \<Longrightarrow> writer_step s s' \<Longrightarrow> readers_inv s'"
  by (elim writer_stepE) (simp_all add: readers_inv_def counted_readers_def)

lemma writer_flag_inv:
  "flag_inv s \<Longrightarrow> readers_inv s \<Longrightarrow> writer_step s s' \<Longrightarrow> flag_inv s'"
  by (elim writer_stepE) (auto simp: flag_inv_def readers_none)

lemma writer_active_inv: "active_inv s \<Longrightarrow> writer_step s s' \<Longrightarrow> active_inv s'"
  by (elim writer_stepE) (auto simp: active_inv_def split: option.splits writer_pc.splits)

lemma writer_reader_frame: "writer_step s s' \<Longrightarrow> SnapReader s' = SnapReader s"
  by (elim writer_stepE) simp_all

lemma writer_keeps_live:
  "writer_step s s' \<Longrightarrow> SnapWriter s \<noteq> WFree \<Longrightarrow> a \<in> set (SnapLive s) \<Longrightarrow>
     a \<in> set (SnapLive s') \<and> SnapContent s' a = SnapContent s a"
  by (elim writer_stepE) auto

lemma writer_hold_inv:
  assumes "hold_inv s" and "flag_inv s" and step: "writer_step s s'"
  shows "hold_inv s'"
proof (cases "SnapWriter s = WFree")
  case True
  then show ?thesis
    using free_no_reader [OF assms(2)] by (simp add: hold_inv_def writer_reader_frame [OF step])
next
  case False
  show ?thesis
    unfolding hold_inv_def writer_reader_frame [OF step]
  proof (intro allI impI)
    fix t p l assume "SnapReader s t = RHold p l"
    with assms(1) [unfolded hold_inv_def]
    have "case p of None \<Rightarrow> l = [] | Some a \<Rightarrow> a \<in> set (SnapLive s) \<and> SnapContent s a = l"
      by metis
    then show "case p of None \<Rightarrow> l = [] | Some a \<Rightarrow> a \<in> set (SnapLive s') \<and> SnapContent s' a = l"
      by (cases p) (simp_all add: writer_keeps_live [OF step False])
  qed
qed

lemma writer_step_inv: "snap_inv s \<Longrightarrow> writer_step s s' \<Longrightarrow> snap_inv s'"
  using writer_readers_inv writer_flag_inv writer_active_inv writer_hold_inv
  unfolding snap_inv_def by blast

lemma snap_reachable_inv: "snap_reachable s \<Longrightarrow> snap_inv s"
  by (induction rule: snap_reachable.induct)
     (rule snap_init_inv, (rule reader_step_inv writer_step_inv; assumption)+)

text \<open>C5. Lock-free reading of the levels is safe in every interleaving: a reader that holds a
  snapshot holds one that has not been freed and that still has the levels that were published
  when it was loaded, although the writer frees all snapshots but the newest whenever more
  than 64 exist. Null is loaded only when no level is set.\<close>

theorem snapshot_never_dangling:
  assumes "snap_reachable s" and "SnapReader s t = RHold p l"
  shows "case p of None \<Rightarrow> l = [] | Some a \<Rightarrow> a \<in> set (SnapLive s) \<and> SnapContent s a = l"
  using snap_reachable_inv [OF assms(1)] assms(2) unfolding snap_inv_def hold_inv_def by blast

text \<open>Concrete runs: \<open>n\<close> publications, then a reader that acquires.\<close>

definition idle_run :: "nat \<Rightarrow> snap_state \<Rightarrow> bool" where
  "idle_run n s \<longleftrightarrow> snap_reachable s \<and> SnapWriter s = WIdle \<and> SnapLive s = [0..<n] \<and>
     SnapReader s = (\<lambda>_. RIdle) \<and> \<not> SnapReclamation s \<and>
     SnapActive s = (if n = 0 then None else Some (n - 1))"

definition stored_run :: "nat \<Rightarrow> snap_state \<Rightarrow> bool" where
  "stored_run n s \<longleftrightarrow> snap_reachable s \<and> SnapWriter s = WStored \<and> SnapLive s = [0..<n] \<and>
     SnapReader s = (\<lambda>_. RIdle) \<and> \<not> SnapReclamation s \<and> SnapActive s = Some (n - 1)"

lemma publish_once:
  assumes "idle_run n s"
  shows "\<exists>s'. stored_run (Suc n) s'"
proof -
  let ?l = "[mk_level 5 LEVEL_WARN]"
  let ?s1 = "s\<lparr>SnapLive := SnapLive s @ [n], SnapContent := (SnapContent s)(n := ?l),
      SnapWriter := WPushed n ?l\<rparr>"
  let ?s2 = "?s1\<lparr>SnapActive := Some n, SnapPublished := ?l, SnapWriter := WStored\<rparr>"
  have "snap_reachable ?s1"
    using assms by (intro snap_reachable.writer [OF _ publish_push]) (auto simp: idle_run_def)
  then have "snap_reachable ?s2"
    by (rule snap_reachable.writer [OF _ publish_store]) simp
  with assms have "stored_run (Suc n) ?s2" by (simp add: idle_run_def stored_run_def)
  then show ?thesis by blast
qed

lemma publish_many: "n \<le> SUBSYSTEM_LEVEL_SNAPSHOT_LIMIT \<Longrightarrow> \<exists>s. idle_run n s"
proof (induction n)
  case 0
  show ?case
    using snap_reachable.start
    by (intro exI [of _ snap_init]) (simp add: idle_run_def, simp add: snap_init_def)
next
  case (Suc n)
  then obtain s' where s': "stored_run (Suc n) s'" using publish_once by (meson Suc_leD)
  then have "snap_reachable (s'\<lparr>SnapWriter := WIdle\<rparr>)"
    using Suc.prems by (intro snap_reachable.writer [OF _ few]) (auto simp: stored_run_def)
  with s' have "idle_run (Suc n) (s'\<lparr>SnapWriter := WIdle\<rparr>)"
    by (simp add: idle_run_def stored_run_def)
  then show ?case by blast
qed

lemma reader_acquires:
  assumes "idle_run (Suc n) s"
  shows "\<exists>s'. snap_reachable s' \<and> SnapReader s' 7 = RHold (Some n) (SnapPublished s) \<and>
     SnapLive s' = [0..<Suc n] \<and> SnapContent s' = SnapContent s"
proof -
  let ?s1 = "set_reader 7 RSpin s" and ?s2 = "set_reader 7 REnter s"
  let ?r = "s\<lparr>SnapReaders := SnapReaders s + 1\<rparr>"
  have 1: "snap_reachable ?s1"
    using assms by (intro snap_reachable.reader [OF _ acquire_start]) (auto simp: idle_run_def)
  have 2: "snap_reachable ?s2"
    using snap_reachable.reader [OF 1 spin_done [of ?s1 7]] assms by (simp add: idle_run_def)
  have 3: "snap_reachable (set_reader 7 RCheck ?r)"
    using snap_reachable.reader [OF 2 enter [of ?s2 7]] by simp
  have 4: "snap_reachable (set_reader 7 RLoad ?r)"
    using snap_reachable.reader [OF 3 check_ok [of _ 7]] assms by (simp add: idle_run_def)
  have "snap_reachable (set_reader 7 (RHold (SnapActive s) (SnapPublished s)) ?r)"
    using snap_reachable.reader [OF 4 load [of _ 7]] by simp
  with assms show ?thesis
    by (intro exI [of _ "set_reader 7 (RHold (SnapActive s) (SnapPublished s)) ?r"])
       (simp add: idle_run_def)
qed

theorem snapshot_never_dangling_witness:
  "\<exists>s l. snap_reachable s \<and> SnapReader s 7 = RHold (Some 2) l \<and> 2 \<in> set (SnapLive s) \<and>
     SnapContent s 2 = l"
proof -
  obtain s where "idle_run (Suc 2) s"
    using publish_many [of 3] by (auto simp: SUBSYSTEM_LEVEL_SNAPSHOT_LIMIT_def numeral_3_eq_3)
  then obtain s' where "snap_reachable s'" "SnapReader s' 7 = RHold (Some 2) (SnapPublished s)"
    using reader_acquires by blast
  with snapshot_never_dangling [OF this] show ?thesis by auto
qed

text \<open>While the writer waits no reader runs for long: each step shortens what the thread that
  takes it can still do, and once no thread can move the counter is zero.\<close>

fun reader_rank :: "reader_pc \<Rightarrow> nat" where
  "reader_rank REnter = 5"
| "reader_rank RCheck = 4"
| "reader_rank RLoad = 3"
| "reader_rank (RHold _ _) = 2"
| "reader_rank RBackoff = 1"
| "reader_rank RIdle = 1"
| "reader_rank RSpin = 0"

text \<open>The writer's wait for the readers ends: while the flag is up, a reader's step either
  changes nothing (it spins, or finds no snapshot) or lowers its rank, which is at most 5, and
  touches no other reader; when every reader is outside or spinning the count is zero and the
  writer goes on.\<close>

theorem reclamation_wait_ends:
  assumes "snap_reachable s" and "SnapWriter s = WWait"
  shows "(reader_step t s s' \<longrightarrow> s' = s \<or>
            reader_rank (SnapReader s' t) < reader_rank (SnapReader s t) \<and>
            (\<forall>u. u \<noteq> t \<longrightarrow> SnapReader s' u = SnapReader s u)) \<and>
         ((\<forall>u. SnapReader s u \<in> {RIdle, RSpin}) \<longrightarrow> writer_step s (s\<lparr>SnapWriter := WFree\<rparr>))"
proof -
  from assms have flag: "SnapReclamation s" and cnt: "readers_inv s"
    using snap_reachable_inv [OF assms(1)] by (auto simp: snap_inv_def flag_inv_def)
  have "s' = s \<or> reader_rank (SnapReader s' t) < reader_rank (SnapReader s t) \<and>
      (\<forall>u. u \<noteq> t \<longrightarrow> SnapReader s' u = SnapReader s u)" if "reader_step t s s'"
    using that flag by (elim reader_stepE) auto
  moreover have "SnapReaders s = 0" if "\<forall>u. SnapReader s u \<in> {RIdle, RSpin}"
  proof -
    have "\<not> counted (SnapReader s u)" for u
      using that [rule_format, of u] by auto
    then have "counted_readers s = {}" by (simp add: counted_readers_def)
    with cnt show ?thesis by (simp add: readers_inv_def)
  qed
  ultimately show ?thesis using assms(2) by (auto intro: wait_done)
qed

theorem reclamation_wait_ends_witness:
  "\<exists>s. snap_reachable s \<and> SnapWriter s = WWait \<and> length (SnapLive s) = 65 \<and>
     writer_step s (s\<lparr>SnapWriter := WFree\<rparr>)"
proof -
  obtain s0 where "idle_run 64 s0"
    using publish_many [of 64] by (auto simp: SUBSYSTEM_LEVEL_SNAPSHOT_LIMIT_def)
  then obtain s where s: "stored_run 65 s" using publish_once [of 64 s0] by auto
  let ?s1 = "s\<lparr>SnapWriter := WFlag\<rparr>"
  let ?s2 = "s\<lparr>SnapReclamation := True, SnapWriter := WWait\<rparr>"
  have 1: "snap_reachable ?s1"
    using s by (intro snap_reachable.writer [OF _ many])
      (auto simp: stored_run_def SUBSYSTEM_LEVEL_SNAPSHOT_LIMIT_def)
  have 2: "snap_reachable ?s2"
    using snap_reachable.writer [OF 1 raise] by simp
  from reclamation_wait_ends [OF 2] s have "writer_step ?s2 (?s2\<lparr>SnapWriter := WFree\<rparr>)"
    by (simp add: stored_run_def)
  with 2 s show ?thesis by (intro exI [of _ ?s2]) (simp add: stored_run_def)
qed

end
