(* ===== verification/Reentry_Guard.thy ===== *)
theory Reentry_Guard
  imports Prelude_Logme
begin

text \<open>
  The per-thread guard against a channel displaying into itself (\<open>ReentryGuard.cpp\<close>): an array
  of eight channels that turns into a vector when a ninth is entered. The locale
  \<open>reentry_guard\<close> is the contract \<open>Channel::Display\<close> relies on, a stack of distinct
  channels; it is interpreted on the code's state. Channels are named by numbers.
\<close>

definition SMALL_CAPACITY :: nat where
  "SMALL_CAPACITY = 8"

record guard_state =
  Depth :: nat
  Overflow :: bool
  SmallStack :: "nat list"
  LargeStack :: "nat list"

definition guard_init :: guard_state where
  "guard_init = \<lparr>Depth = 0, Overflow = False, SmallStack = replicate SMALL_CAPACITY 0, LargeStack = []\<rparr>"

definition PromoteToOverflow :: "guard_state \<Rightarrow> guard_state" where
  "PromoteToOverflow s =
     s\<lparr>Overflow := True, LargeStack := LargeStack s @ map (\<lambda>i. SmallStack s ! i) [0..<Depth s]\<rparr>"

text \<open>The loop over the vector, then \<open>push_back\<close>.\<close>

definition enter_large :: "nat \<Rightarrow> guard_state \<Rightarrow> guard_state \<times> bool" where
  "enter_large channel s =
     (if channel \<in> set (LargeStack s) then (s, False)
      else (s\<lparr>LargeStack := LargeStack s @ [channel]\<rparr>, True))"

text \<open>The constructor; the second result is \<open>EnteredValue\<close>.\<close>

definition guard_enter :: "nat \<Rightarrow> guard_state \<Rightarrow> guard_state \<times> bool" where
  "guard_enter channel s =
     (if \<not> Overflow s then
        if Depth s > 0 \<and> SmallStack s ! (Depth s - 1) = channel then (s, False)
        else if (\<exists>i \<in> set [0..<Depth s]. SmallStack s ! i = channel) then (s, False)
        else if Depth s < SMALL_CAPACITY then
          (s\<lparr>SmallStack := (SmallStack s)[Depth s := channel], Depth := Depth s + 1\<rparr>, True)
        else enter_large channel (PromoteToOverflow s)
      else enter_large channel s)"

text \<open>The destructor of a guard whose \<open>EnteredValue\<close> is given.\<close>

definition guard_leave :: "bool \<Rightarrow> guard_state \<Rightarrow> guard_state" where
  "guard_leave entered s =
     (if \<not> entered then s
      else if \<not> Overflow s then s\<lparr>Depth := Depth s - 1\<rparr>
      else s\<lparr>LargeStack := butlast (LargeStack s)\<rparr>)"

section \<open>The contract\<close>

locale reentry_guard =
  fixes ok :: "'s \<Rightarrow> bool" and stack :: "'s \<Rightarrow> 'c list"
    and enter :: "'c \<Rightarrow> 's \<Rightarrow> 's \<times> bool" and leave :: "bool \<Rightarrow> 's \<Rightarrow> 's"
  assumes ok_distinct: "ok s \<Longrightarrow> distinct (stack s)"
    and enter_active: "ok s \<Longrightarrow> snd (enter c s) \<longleftrightarrow> c \<notin> set (stack s)"
    and enter_stack: "ok s \<Longrightarrow>
      ok (fst (enter c s)) \<and> stack (fst (enter c s)) = (if c \<in> set (stack s) then stack s else stack s @ [c])"
    and leave_stack: "ok s \<Longrightarrow> (b \<Longrightarrow> stack s \<noteq> []) \<Longrightarrow>
      ok (leave b s) \<and> stack (leave b s) = (if b then butlast (stack s) else stack s)"
begin

text \<open>A guarded body that leaves the stack as it found it leaves no trace of the guard.\<close>

definition guarded :: "'c \<Rightarrow> ('s \<Rightarrow> 's) \<Rightarrow> 's \<Rightarrow> 's" where
  "guarded c body s =
     (let (s', active) = enter c s in leave active (if active then body s' else s'))"

lemma guarded_stack:
  assumes "ok s" and body: "\<And>s'. ok s' \<Longrightarrow> stack s' = stack s @ [c] \<Longrightarrow>
      ok (body s') \<and> stack (body s') = stack s'"
  shows "ok (guarded c body s) \<and> stack (guarded c body s) = stack s"
proof (cases "c \<in> set (stack s)")
  case True
  with assms(1) show ?thesis
    using enter_active [OF assms(1), of c] enter_stack [OF assms(1), of c]
      leave_stack [of "fst (enter c s)" False]
    by (simp add: guarded_def case_prod_beta)
next
  case False
  with assms(1) have *: "ok (fst (enter c s))" "stack (fst (enter c s)) = stack s @ [c]"
      "snd (enter c s)"
    using enter_active [OF assms(1), of c] enter_stack [OF assms(1), of c] by auto
  with body [OF *(1,2)] show ?thesis
    using leave_stack [of "body (fst (enter c s))" True]
    by (simp add: guarded_def case_prod_beta)
qed

lemma enter_leave_inactive: "ok s \<Longrightarrow> c \<in> set (stack s) \<Longrightarrow> \<not> snd (enter c s)"
  by (simp add: enter_active)

end

section \<open>The code's guard provides it\<close>

definition guard_stack :: "guard_state \<Rightarrow> nat list" where
  "guard_stack s = (if Overflow s then LargeStack s else take (Depth s) (SmallStack s))"

definition guard_ok :: "guard_state \<Rightarrow> bool" where
  "guard_ok s \<longleftrightarrow> distinct (guard_stack s) \<and> length (SmallStack s) = SMALL_CAPACITY \<and>
     Depth s \<le> SMALL_CAPACITY \<and> (\<not> Overflow s \<longrightarrow> LargeStack s = [])"

lemma small_search:
  assumes "d \<le> length xs"
  shows "(\<exists>i \<in> set [0..<d]. xs ! i = c) \<longleftrightarrow> c \<in> set (take d xs)"
  using assms by (auto simp: in_set_conv_nth)

lemma map_nth_take: "d \<le> length xs \<Longrightarrow> map (\<lambda>i. xs ! i) [0..<d] = take d xs"
  by (simp add: list_eq_iff_nth_eq)

lemma enter_large_stack:
  assumes "Overflow s" and "guard_ok s"
  shows "guard_ok (fst (enter_large c s)) \<and> Overflow (fst (enter_large c s)) \<and>
     snd (enter_large c s) = (c \<notin> set (guard_stack s)) \<and>
     guard_stack (fst (enter_large c s)) =
       (if c \<in> set (guard_stack s) then guard_stack s else guard_stack s @ [c])"
  using assms by (auto simp: enter_large_def guard_ok_def guard_stack_def)

lemma promote_ok:
  assumes "guard_ok s" and "\<not> Overflow s"
  shows "guard_ok (PromoteToOverflow s) \<and> guard_stack (PromoteToOverflow s) = guard_stack s"
  using assms by (auto simp: PromoteToOverflow_def guard_ok_def guard_stack_def map_nth_take)

lemma guard_enter_stack:
  assumes "guard_ok s"
  shows "guard_ok (fst (guard_enter c s)) \<and> snd (guard_enter c s) = (c \<notin> set (guard_stack s)) \<and>
     guard_stack (fst (guard_enter c s)) =
       (if c \<in> set (guard_stack s) then guard_stack s else guard_stack s @ [c])"
proof (cases "Overflow s")
  case True
  with assms enter_large_stack [of s c] show ?thesis by (simp add: guard_enter_def)
next
  case False
  let ?st = "take (Depth s) (SmallStack s)"
  have len: "Depth s \<le> length (SmallStack s)" and d: "Depth s \<le> SMALL_CAPACITY"
    using assms by (auto simp: guard_ok_def)
  have st: "guard_stack s = ?st" using False by (simp add: guard_stack_def)
  show ?thesis
  proof (cases "c \<in> set ?st")
    case True
    with False small_search [OF len, of c] assms show ?thesis
      by (simp add: guard_enter_def st)
  next
    case notin: False
    then have top: "\<not> (Depth s > 0 \<and> SmallStack s ! (Depth s - 1) = c)"
      using small_search [OF len, of c] by (auto dest!: bspec [of _ _ "Depth s - 1"])
    have search: "\<not> (\<exists>i \<in> set [0..<Depth s]. SmallStack s ! i = c)"
      using notin small_search [OF len] by blast
    show ?thesis
    proof (cases "Depth s < SMALL_CAPACITY")
      case True
      then have "Depth s < length (SmallStack s)" using assms by (simp add: guard_ok_def)
      then have "take (Suc (Depth s)) ((SmallStack s)[Depth s := c]) = ?st @ [c]"
        by (simp add: take_Suc_conv_app_nth)
      with True False notin top search assms show ?thesis
        by (simp add: guard_enter_def st) (simp add: guard_ok_def guard_stack_def)
    next
      case full: False
      have "guard_enter c s = enter_large c (PromoteToOverflow s)"
        using False top search full by (simp only: guard_enter_def if_False not_False_eq_True if_True)
      with promote_ok [OF assms False] enter_large_stack [of "PromoteToOverflow s" c]
      show ?thesis by (simp add: PromoteToOverflow_def)
    qed
  qed
qed

lemma distinct_take_Suc: "distinct (take d xs) \<Longrightarrow> distinct (take (d - Suc 0) xs)"
  by (metis distinct_take diff_le_self min.absorb1 take_take)

lemma guard_leave_stack:
  assumes "guard_ok s" and "b \<Longrightarrow> guard_stack s \<noteq> []"
  shows "guard_ok (guard_leave b s) \<and>
     guard_stack (guard_leave b s) = (if b then butlast (guard_stack s) else guard_stack s)"
proof (cases "b \<and> \<not> Overflow s")
  case True
  with assms show ?thesis
    by (auto simp: guard_leave_def guard_ok_def guard_stack_def butlast_take distinct_take_Suc)
next
  case False
  with assms show ?thesis
    by (auto simp: guard_leave_def guard_ok_def guard_stack_def distinct_butlast)
qed

interpretation display_guard: reentry_guard guard_ok guard_stack guard_enter guard_leave
proof unfold_locales
  show "distinct (guard_stack s)" if "guard_ok s" for s
    using that by (simp add: guard_ok_def)
qed (simp_all add: guard_enter_stack guard_leave_stack)

lemma guard_init_ok: "guard_ok guard_init \<and> guard_stack guard_init = []"
  by (simp add: guard_ok_def guard_init_def guard_stack_def)

end
