(* ===== verification/Output_Flags.thy ===== *)
theory Output_Flags
  imports Text_Utils
begin

unbundle bit_operations_syntax

text \<open>
  The output flags of channels and overrides (\<open>Logme/OutputFlags.h\<close>, \<open>OutputFlags.cpp\<close>): a
  32-bit word with bit fields laid out from the least significant bit, as the supported
  compilers do; the names of the field values, \<open>ToString\<close>, and the table of structured output
  field names. \<open>apply_override\<close> is how \<open>Channel::Display\<close> and \<open>Context\<close> combine a channel's
  flags with an override.
\<close>

section \<open>Bit fields\<close>

definition get_field :: "nat \<Rightarrow> nat \<Rightarrow> u32 \<Rightarrow> nat" where
  "get_field off len v = unat (take_bit len (drop_bit off v))"

definition set_field :: "nat \<Rightarrow> nat \<Rightarrow> nat \<Rightarrow> u32 \<Rightarrow> u32" where
  "set_field off len x v =
     (v AND NOT (push_bit off (mask len))) OR push_bit off (take_bit len (word_of_nat x))"

datatype flag_field =
  Timestamp | Signature | Location | Method | Eol | ErrorPrefix | Duration | ThreadID | ProcessID
| ChannelName | Highlight | Console | DisableLink | ThreadTransition | SubsystemName | Format
| ProcPrint | ProcPrintIn | NoFlag

fun field_pos :: "flag_field \<Rightarrow> nat \<times> nat" where
  "field_pos Timestamp = (0, 2)"
| "field_pos Signature = (2, 1)"
| "field_pos Location = (3, 2)"
| "field_pos Method = (5, 1)"
| "field_pos Eol = (6, 1)"
| "field_pos ErrorPrefix = (7, 1)"
| "field_pos Duration = (8, 1)"
| "field_pos ThreadID = (9, 1)"
| "field_pos ProcessID = (10, 1)"
| "field_pos ChannelName = (11, 1)"
| "field_pos Highlight = (12, 1)"
| "field_pos Console = (13, 3)"
| "field_pos DisableLink = (16, 1)"
| "field_pos ThreadTransition = (17, 1)"
| "field_pos SubsystemName = (18, 1)"
| "field_pos Format = (19, 2)"
| "field_pos ProcPrint = (29, 1)"
| "field_pos ProcPrintIn = (30, 1)"
| "field_pos NoFlag = (31, 1)"

definition flag :: "flag_field \<Rightarrow> u32 \<Rightarrow> nat" where
  "flag f v = get_field (fst (field_pos f)) (snd (field_pos f)) v"

definition set_flag :: "flag_field \<Rightarrow> nat \<Rightarrow> u32 \<Rightarrow> u32" where
  "set_flag f x v = set_field (fst (field_pos f)) (snd (field_pos f)) x v"

text \<open>The constructor \<open>OutputFlags::OutputFlags\<close>.\<close>

definition OutputFlags_init :: u32 where
  "OutputFlags_init =
     fold (\<lambda>f v. set_flag f 1 v)
       [Timestamp, Signature, Method, ErrorPrefix, Highlight, Eol, ThreadTransition] 0"

text \<open>\<open>flags.Value |= Add; flags.Value &= ~Remove\<close>.\<close>

definition apply_override :: "u32 \<Rightarrow> u32 \<Rightarrow> u32 \<Rightarrow> u32" where
  "apply_override add remove v = (v OR add) AND NOT remove"

section \<open>Text of the flags\<close>

fun TimestampType :: "nat \<Rightarrow> string" where
  "TimestampType t = (if t = 0 then '''' else if t = 1 then ''Local'' else if t = 2 then ''TZ''
     else if t = 3 then ''UTC'' else ''Unknown'')"

fun LocationType :: "nat \<Rightarrow> string" where
  "LocationType t = (if t = 0 then '''' else if t = 1 then ''Short'' else if t = 2 then ''Full''
     else ''Unknown'')"

fun ConsoleType :: "nat \<Rightarrow> string" where
  "ConsoleType t = (if t = 0 then ''cout'' else if t = 1 then ''warncerr'' else if t = 2 then ''errcerr''
     else if t = 3 then ''cerrcerr'' else if t = 4 then ''cerr'' else ''Unknown'')"

fun FormatType :: "nat \<Rightarrow> string" where
  "FormatType t = (if t = 0 then ''text'' else if t = 1 then ''json'' else if t = 2 then ''xml''
     else ''Unknown'')"

definition FormatFlag :: "string \<Rightarrow> string option \<Rightarrow> string" where
  "FormatFlag name func =
     (case func of None \<Rightarrow> name | Some arg \<Rightarrow> if arg = '''' then name else name @ '':'' @ arg)"

definition flag_texts :: "u32 \<Rightarrow> (flag_field \<times> string \<times> string option) list" where
  "flag_texts v =
    [(Timestamp, ''Timestamp'', Some (TimestampType (flag Timestamp v))),
     (Signature, ''Signature'', None),
     (Location, ''Location'', Some (LocationType (flag Location v))),
     (Method, ''Method'', None), (Eol, ''Eol'', None), (ErrorPrefix, ''ErrorPrefix'', None),
     (Duration, ''Duration'', None), (ThreadID, ''ThreadID'', None), (ProcessID, ''ProcessID'', None),
     (ChannelName, ''Channel'', None), (Highlight, ''Highlight'', None),
     (Console, ''Console'', Some (ConsoleType (flag Console v))),
     (DisableLink, ''DisableLink'', None), (ThreadTransition, ''ThreadTransition'', None),
     (SubsystemName, ''Subsystem'', None),
     (Format, ''Format'', Some (FormatType (flag Format v)))]"

definition OutputFlags_ToString :: "u32 \<Rightarrow> string \<Rightarrow> bool \<Rightarrow> string" where
  "OutputFlags_ToString v separator brackets =
     (let flags = map (\<lambda>(f, name, func). FormatFlag name func)
                    (filter (\<lambda>(f, name, func). flag f v \<noteq> 0) (flag_texts v));
          result = Join flags separator
      in if brackets \<and> result \<noteq> [] then ''['' @ result @ '']'' else result)"

section \<open>Structured output field names\<close>

datatype OutputField =
  OUTPUT_FIELD_TIMESTAMP | OUTPUT_FIELD_LEVEL | OUTPUT_FIELD_PROCESS_ID | OUTPUT_FIELD_THREAD_ID
| OUTPUT_FIELD_CHANNEL | OUTPUT_FIELD_SUBSYSTEM | OUTPUT_FIELD_FILE | OUTPUT_FIELD_LINE
| OUTPUT_FIELD_METHOD | OUTPUT_FIELD_MESSAGE | OUTPUT_FIELD_DURATION | OUTPUT_FIELD_COUNT

fun OutputFieldNames_init :: "OutputField \<Rightarrow> string" where
  "OutputFieldNames_init OUTPUT_FIELD_TIMESTAMP = ''timestamp''"
| "OutputFieldNames_init OUTPUT_FIELD_LEVEL = ''level''"
| "OutputFieldNames_init OUTPUT_FIELD_PROCESS_ID = ''process_id''"
| "OutputFieldNames_init OUTPUT_FIELD_THREAD_ID = ''thread_id''"
| "OutputFieldNames_init OUTPUT_FIELD_CHANNEL = ''channel''"
| "OutputFieldNames_init OUTPUT_FIELD_SUBSYSTEM = ''subsystem''"
| "OutputFieldNames_init OUTPUT_FIELD_FILE = ''file''"
| "OutputFieldNames_init OUTPUT_FIELD_LINE = ''line''"
| "OutputFieldNames_init OUTPUT_FIELD_METHOD = ''method''"
| "OutputFieldNames_init OUTPUT_FIELD_MESSAGE = ''message''"
| "OutputFieldNames_init OUTPUT_FIELD_DURATION = ''duration''"
| "OutputFieldNames_init OUTPUT_FIELD_COUNT = ''''"

definition IsValidField :: "OutputField \<Rightarrow> bool" where
  "IsValidField field \<longleftrightarrow> field \<noteq> OUTPUT_FIELD_COUNT"

text \<open>\<open>None\<close> is the null pointer.\<close>

definition SetOutputFieldName ::
  "OutputField \<Rightarrow> string option \<Rightarrow> (OutputField \<Rightarrow> string) \<Rightarrow> OutputField \<Rightarrow> string" where
  "SetOutputFieldName field name current =
     (case name of
        None \<Rightarrow> current
      | Some n \<Rightarrow> if \<not> IsValidField field \<or> c_str n = [] then current else current(field := c_str n))"

definition SetOutputFieldNames ::
  "(OutputField \<times> string) list \<Rightarrow> (OutputField \<Rightarrow> string) \<Rightarrow> OutputField \<Rightarrow> string" where
  "SetOutputFieldNames names current =
     fold (\<lambda>(field, name) updated.
        if IsValidField field \<and> name \<noteq> [] then updated(field := name) else updated) names current"

definition GetOutputFieldName :: "OutputField \<Rightarrow> (OutputField \<Rightarrow> string) \<Rightarrow> string" where
  "GetOutputFieldName field current = (if \<not> IsValidField field then '''' else c_str (current field))"

definition ResetOutputFieldNames :: "(OutputField \<Rightarrow> string) \<Rightarrow> OutputField \<Rightarrow> string" where
  "ResetOutputFieldNames current = OutputFieldNames_init"

section \<open>Facts about fields\<close>

lemma bit_set_field:
  "bit (set_field off len x v) n \<longleftrightarrow>
     n < 32 \<and> (if off \<le> n \<and> n < off + len then bit x (n - off) else bit v n)"
  by (auto simp: set_field_def bit_simps)

lemma get_set_field:
  assumes "off + len \<le> 32"
  shows "get_field off len (set_field off len x v) = take_bit len x"
proof -
  have "take_bit len (drop_bit off (set_field off len x v)) = take_bit len (word_of_nat x)"
    by (rule bit_word_eqI) (use assms in \<open>auto simp: bit_set_field bit_simps\<close>)
  then show ?thesis
    using assms by (simp add: get_field_def unsigned_take_bit_eq unsigned_of_nat take_bit_take_bit min_def)
qed

lemma get_set_other:
  assumes "off' + len' \<le> off \<or> off + len \<le> off'"
  shows "get_field off' len' (set_field off len x v) = get_field off' len' v"
proof -
  have "take_bit len' (drop_bit off' (set_field off len x v)) = take_bit len' (drop_bit off' v)"
    by (rule bit_word_eqI) (use assms in \<open>auto simp: bit_set_field bit_simps dest: bit_imp_le_length\<close>)
  then show ?thesis by (simp add: get_field_def)
qed

text \<open>The fields do not overlap and stay inside the word.\<close>

lemma field_pos_disjoint:
  "f \<noteq> g \<Longrightarrow> fst (field_pos f) + snd (field_pos f) \<le> fst (field_pos g) \<or>
     fst (field_pos g) + snd (field_pos g) \<le> fst (field_pos f)"
  by (cases f; cases g) simp_all

lemma field_pos_bound: "fst (field_pos f) + snd (field_pos f) \<le> 32"
  by (cases f) simp_all

text \<open>The flag word is a record of independent fields: assigning a field stores the value
  cut to its width and leaves every other field as it was, an override sets the bits of
  \<open>Add\<close> and then clears those of \<open>Remove\<close>, and a fresh word has exactly the documented
  defaults.\<close>

theorem output_flags_fields:
  "flag g (set_flag f x v) = (if g = f then x mod 2 ^ snd (field_pos f) else flag g v) \<and>
   (bit (apply_override add rem v) n \<longleftrightarrow> (bit v n \<or> bit add n) \<and> \<not> bit rem n) \<and>
   OutputFlags_ToString OutputFlags_init '' '' False =
     ''Timestamp:Local Signature Method Eol ErrorPrefix Highlight ThreadTransition''"
proof -
  have fields: "flag g (set_flag f x v) = (if g = f then x mod 2 ^ snd (field_pos f) else flag g v)"
    for f g x v
    using field_pos_bound [of f] get_set_field [of "fst (field_pos f)" "snd (field_pos f)" x v]
      get_set_other [of "fst (field_pos g)" "snd (field_pos g)" "fst (field_pos f)"
        "snd (field_pos f)" x v] field_pos_disjoint [of g f]
    by (auto simp: flag_def set_flag_def take_bit_eq_mod)
  have zero: "flag f 0 = 0" for f
    by (simp add: flag_def get_field_def)
  have init: "flag f OutputFlags_init =
      (if f \<in> {Timestamp, Signature, Method, ErrorPrefix, Highlight, Eol, ThreadTransition}
       then 1 else 0)" for f
    by (cases f) (simp_all add: OutputFlags_init_def fields zero)
  have "OutputFlags_ToString OutputFlags_init '' '' False =
     ''Timestamp:Local Signature Method Eol ErrorPrefix Highlight ThreadTransition''"
    by (simp add: OutputFlags_ToString_def flag_texts_def init FormatFlag_def Join_def)
  moreover have "bit (apply_override add rem v) n \<longleftrightarrow> (bit v n \<or> bit add n) \<and> \<not> bit rem n"
    using bit_imp_le_length [of v n] bit_imp_le_length [of add n]
    by (auto simp: apply_override_def bit_simps)
  ultimately show ?thesis using fields by simp
qed

end
