(* ===== verification/Overrides.thy ===== *)
theory Overrides
  imports Output_Flags
begin

text \<open>
  Per-message overrides (\<open>Override.cpp\<close>) and the rate limiting \<open>Logger::DoLog\<close> does with
  them: at most \<open>MaxRepetitions\<close> records (\<open>-1\<close>: no limit) and none within \<open>MaxFrequency\<close>
  milliseconds of the last. Time is a \<open>uint64_t\<close> and differences wrap. Lemmas: how many records
  pass and how far apart, and that the once-only override of a call site passes exactly once.
\<close>

record override =
  Add :: u32
  Remove :: u32
  MaxRepetitions :: int
  Repetitions :: int
  MaxFrequency :: u64
  LastTime :: u64
  Shortener :: "(string \<times> string) list option"

definition Override :: "int \<Rightarrow> u64 \<Rightarrow> override" where
  "Override reps noMoreThanOnceEveryXMillisec =
     \<lparr>Add = 0, Remove = 0, MaxRepetitions = reps, Repetitions = 0,
      MaxFrequency = noMoreThanOnceEveryXMillisec, LastTime = 0, Shortener = None\<rparr>"

text \<open>The two checks of \<open>DoLog\<close> at time \<open>ticks\<close>; the result says whether the record goes on.\<close>

definition check_frequency :: "u64 \<Rightarrow> override \<Rightarrow> override \<times> bool" where
  "check_frequency ticks ovr =
     (if MaxFrequency ovr \<noteq> 0 then
        if LastTime ovr \<noteq> 0 \<and> ticks - LastTime ovr < MaxFrequency ovr then (ovr, False)
        else (ovr\<lparr>LastTime := ticks\<rparr>, True)
      else (ovr, True))"

definition check_repetitions :: "override \<Rightarrow> override \<times> bool" where
  "check_repetitions ovr =
     (if MaxRepetitions ovr \<noteq> -1 then
        if Repetitions ovr \<ge> MaxRepetitions ovr then (ovr, False)
        else (ovr\<lparr>Repetitions := Repetitions ovr + 1\<rparr>, True)
      else (ovr, True))"

definition rate_limit :: "u64 \<Rightarrow> override \<Rightarrow> override \<times> bool" where
  "rate_limit ticks ovr =
     (let (ovr, ok) = check_frequency ticks ovr in
      if \<not> ok then (ovr, False) else check_repetitions ovr)"

fun rate_run :: "u64 list \<Rightarrow> override \<Rightarrow> override \<times> bool list" where
  "rate_run [] ovr = (ovr, [])"
| "rate_run (t # ts) ovr =
     (let (ovr, ok) = rate_limit t ovr; (ovr, oks) = rate_run ts ovr in (ovr, ok # oks))"

section \<open>Call-site generators\<close>

text \<open>\<open>func\<close> is the address of \<open>__func__\<close>.\<close>

definition MakeKey :: "u64 \<Rightarrow> u32 \<Rightarrow> u64" where
  "MakeKey func line =
     func XOR (ucast line + 0x9e3779b97f4a7c15 + push_bit 6 func + drop_bit 2 func)"

definition GetOneTimeOverride ::
  "u64 \<Rightarrow> u32 \<Rightarrow> (u64 \<rightharpoonup> override) \<Rightarrow> (u64 \<rightharpoonup> override) \<times> override" where
  "GetOneTimeOverride func line m =
     (let key = MakeKey func line in
      case m key of
        None \<Rightarrow> (m(key \<mapsto> Override 1 0), Override 1 0)
      | Some ovr \<Rightarrow> (m, ovr))"

definition GetEveryOverride ::
  "u64 \<Rightarrow> u32 \<Rightarrow> u64 \<Rightarrow> (u64 \<rightharpoonup> override) \<Rightarrow> (u64 \<rightharpoonup> override) \<times> override" where
  "GetEveryOverride func line ms m =
     (let key = MakeKey func line in
      case m key of
        None \<Rightarrow> (m(key \<mapsto> Override (-1) ms), Override (-1) ms)
      | Some ovr \<Rightarrow> (m, ovr))"

text \<open>A record logged with the override of its call site: the reference is written back.\<close>

definition log_once :: "(u64 \<times> u32) \<times> u64 \<Rightarrow> (u64 \<rightharpoonup> override) \<Rightarrow> (u64 \<rightharpoonup> override) \<times> bool" where
  "log_once call m =
     (case call of ((func, line), ticks) \<Rightarrow>
        let (m, ovr) = GetOneTimeOverride func line m;
            (ovr, ok) = rate_limit ticks ovr
        in (m(MakeKey func line \<mapsto> ovr), ok))"

fun once_run :: "((u64 \<times> u32) \<times> u64) list \<Rightarrow> (u64 \<rightharpoonup> override) \<Rightarrow> bool list" where
  "once_run [] m = []"
| "once_run (call # calls) m = (let (m, ok) = log_once call m in ok # once_run calls m)"

section \<open>How much passes\<close>

lemma rate_limit_frame:
  "MaxRepetitions (fst (rate_limit t ovr)) = MaxRepetitions ovr \<and>
   MaxFrequency (fst (rate_limit t ovr)) = MaxFrequency ovr"
  by (simp add: rate_limit_def check_frequency_def check_repetitions_def Let_def)

lemma rate_limit_count:
  assumes "MaxRepetitions ovr \<noteq> -1"
  shows "Repetitions (fst (rate_limit t ovr)) = Repetitions ovr + of_bool (snd (rate_limit t ovr)) \<and>
     (snd (rate_limit t ovr) \<longrightarrow> Repetitions ovr < MaxRepetitions ovr)"
  using assms by (auto simp: rate_limit_def check_frequency_def check_repetitions_def Let_def)

lemma rate_run_count:
  "MaxRepetitions ovr \<noteq> -1 \<Longrightarrow> Repetitions ovr \<le> MaxRepetitions ovr \<Longrightarrow>
     int (length (filter id (snd (rate_run ts ovr)))) \<le> MaxRepetitions ovr - Repetitions ovr"
proof (induction ts arbitrary: ovr)
  case (Cons t ts)
  let ?o = "fst (rate_limit t ovr)"
  have "MaxRepetitions ?o \<noteq> -1" "Repetitions ?o \<le> MaxRepetitions ?o"
    using Cons.prems rate_limit_frame [of t ovr] rate_limit_count [of ovr t]
    by (auto split: if_splits)
  from Cons.IH [OF this] show ?case
    using rate_limit_frame [of t ovr] rate_limit_count [OF Cons.prems(1), of t]
    by (auto simp: case_prod_beta split: if_splits)
qed simp

text \<open>Time that does not run backwards and never reads 0: records that pass are far apart.\<close>

lemma rate_limit_time:
  assumes "MaxFrequency ovr \<noteq> 0" and "t \<noteq> 0" and "LastTime ovr \<le> t"
  shows "LastTime (fst (rate_limit t ovr)) \<le> t \<and>
     (snd (rate_limit t ovr) \<longrightarrow> LastTime (fst (rate_limit t ovr)) = t \<and>
        (LastTime ovr \<noteq> 0 \<longrightarrow> unat (MaxFrequency ovr) \<le> unat t - unat (LastTime ovr))) \<and>
     (LastTime ovr \<noteq> 0 \<longrightarrow> LastTime ovr \<le> LastTime (fst (rate_limit t ovr)) \<and> LastTime (fst (rate_limit t ovr)) \<noteq> 0)"
proof -
  have "unat (t - LastTime ovr) = unat t - unat (LastTime ovr)"
    using assms(3) by (rule unat_sub)
  then have "\<not> t - LastTime ovr < MaxFrequency ovr \<Longrightarrow>
      unat (MaxFrequency ovr) \<le> unat t - unat (LastTime ovr)"
    by (simp add: word_less_nat_alt)
  with assms show ?thesis
    by (auto simp: rate_limit_def check_frequency_def check_repetitions_def Let_def)
qed

lemma rate_run_after:
  "MaxFrequency ovr \<noteq> 0 \<Longrightarrow> sorted ts \<Longrightarrow> 0 \<notin> set ts \<Longrightarrow> \<forall>t \<in> set ts. LastTime ovr \<le> t \<Longrightarrow>
     LastTime ovr \<noteq> 0 \<Longrightarrow> i < length ts \<Longrightarrow> snd (rate_run ts ovr) ! i \<Longrightarrow>
     unat (MaxFrequency ovr) \<le> unat (ts ! i) - unat (LastTime ovr)"
proof (induction ts arbitrary: ovr i)
  case (Cons t ts)
  let ?o = "fst (rate_limit t ovr)"
  have step: "LastTime ?o \<le> t" "LastTime ovr \<le> LastTime ?o" "LastTime ?o \<noteq> 0"
    "snd (rate_limit t ovr) \<Longrightarrow> unat (MaxFrequency ovr) \<le> unat t - unat (LastTime ovr)"
    using rate_limit_time [of ovr t] Cons.prems by auto
  show ?case
  proof (cases i)
    case 0
    with Cons.prems step show ?thesis by (simp add: case_prod_beta)
  next
    case (Suc j)
    have "unat (MaxFrequency ?o) \<le> unat (ts ! j) - unat (LastTime ?o)"
      using Cons.prems step Suc rate_limit_frame [of t ovr]
      by (intro Cons.IH) (auto simp: case_prod_beta)
    moreover have "unat (LastTime ovr) \<le> unat (LastTime ?o)"
      using step(2) by (simp add: word_le_nat_alt)
    ultimately show ?thesis using Suc rate_limit_frame [of t ovr] by simp
  qed
qed simp

lemma rate_run_spacing:
  "MaxFrequency ovr \<noteq> 0 \<Longrightarrow> sorted ts \<Longrightarrow> 0 \<notin> set ts \<Longrightarrow> \<forall>t \<in> set ts. LastTime ovr \<le> t \<Longrightarrow>
     i < j \<Longrightarrow> j < length ts \<Longrightarrow> snd (rate_run ts ovr) ! i \<Longrightarrow> snd (rate_run ts ovr) ! j \<Longrightarrow>
     unat (ts ! i) + unat (MaxFrequency ovr) \<le> unat (ts ! j)"
proof (induction ts arbitrary: ovr i j)
  case (Cons t ts)
  let ?o = "fst (rate_limit t ovr)"
  have step: "LastTime ?o \<le> t" "snd (rate_limit t ovr) \<Longrightarrow> LastTime ?o = t"
    using rate_limit_time [of ovr t] Cons.prems by auto
  have later: "MaxFrequency ?o \<noteq> 0" "sorted ts" "0 \<notin> set ts" "\<forall>x \<in> set ts. LastTime ?o \<le> x"
    using Cons.prems step(1) rate_limit_frame [of t ovr] by auto
  obtain k where j: "j = Suc k" using Cons.prems(5) by (cases j) auto
  show ?case
  proof (cases i)
    case 0
    with Cons.prems step(2) have o: "LastTime ?o = t" "t \<noteq> 0" by (auto simp: case_prod_beta)
    have "k < length ts" "snd (rate_run ts ?o) ! k" using Cons.prems j by (auto simp: case_prod_beta)
    moreover from this o later have "unat (MaxFrequency ?o) \<le> unat (ts ! k) - unat t"
      using rate_run_after [OF later, of k] by simp
    moreover have "unat (MaxFrequency ?o) \<noteq> 0" using later(1) by (simp add: unat_eq_0)
    ultimately show ?thesis using j 0 rate_limit_frame [of t ovr] by simp
  next
    case (Suc l)
    with Cons.prems j have "unat (ts ! l) + unat (MaxFrequency ?o) \<le> unat (ts ! k)"
      by (intro Cons.IH [OF later]) (auto simp: case_prod_beta)
    with Suc j rate_limit_frame [of t ovr] show ?thesis by simp
  qed
qed simp

text \<open>C28. An override built with a limit of \<open>reps\<close> lets at most \<open>reps\<close> records through, and one
  built with an interval of \<open>ms\<close> never lets two through less than \<open>ms\<close> apart, however the
  calls are timed, as long as the clock does not run backwards and is not 0.\<close>

theorem override_limits:
  assumes "reps \<noteq> -1 \<Longrightarrow> 0 \<le> reps"
  shows "(reps \<noteq> -1 \<longrightarrow> int (length (filter id (snd (rate_run ts (Override reps ms))))) \<le> reps) \<and>
     (ms \<noteq> 0 \<and> sorted ts \<and> 0 \<notin> set ts \<and> i < j \<and> j < length ts \<and>
        snd (rate_run ts (Override reps ms)) ! i \<and> snd (rate_run ts (Override reps ms)) ! j \<longrightarrow>
      unat (ts ! i) + unat ms \<le> unat (ts ! j))"
  using assms rate_run_count [of "Override reps ms" ts] rate_run_spacing [of "Override reps ms" ts i j]
  by (auto simp: Override_def)

theorem override_limits_witness:
  "int (length (filter id (snd (rate_run [10, 12, 20, 31] (Override 2 10))))) \<le> 2 \<and>
   unat ([10, 12, 20, 31 :: u64] ! 0) + unat (10 :: u64) \<le> unat ([10, 12, 20, 31 :: u64] ! 2)"
proof -
  have pass: "snd (rate_run [10, 12, 20, 31] (Override 2 10)) ! 0"
    "snd (rate_run [10, 12, 20, 31] (Override 2 10)) ! 2"
    by code_simp+
  have "(2::int) \<noteq> -1 \<Longrightarrow> 0 \<le> (2::int)" by simp
  note lim = override_limits [OF this, of "[10, 12, 20, 31]" 10 0 2]
  show ?thesis
  proof
    show "int (length (filter id (snd (rate_run [10, 12, 20, 31] (Override 2 10))))) \<le> 2"
      using lim [THEN conjunct1] by simp
    show "unat ([10, 12, 20, 31 :: u64] ! 0) + unat (10 :: u64) \<le> unat ([10, 12, 20, 31 :: u64] ! 2)"
      using lim [THEN conjunct2] pass by simp
  qed
qed

section \<open>Once per call site\<close>

definition call_key :: "(u64 \<times> u32) \<times> u64 \<Rightarrow> u64" where
  "call_key call = MakeKey (fst (fst call)) (snd (fst call))"

text \<open>Every override the once-only generator holds has been used up.\<close>

definition used_up :: "(u64 \<rightharpoonup> override) \<Rightarrow> bool" where
  "used_up m \<longleftrightarrow> (\<forall>k ovr. m k = Some ovr \<longrightarrow>
     MaxRepetitions ovr = 1 \<and> Repetitions ovr = 1 \<and> MaxFrequency ovr = 0)"

lemma rate_limit_fresh:
  "rate_limit t (Override 1 0) = ((Override 1 0)\<lparr>Repetitions := 1\<rparr>, True)"
  by (simp add: rate_limit_def check_frequency_def check_repetitions_def Override_def)

lemma rate_limit_used:
  "MaxRepetitions ovr = 1 \<Longrightarrow> Repetitions ovr = 1 \<Longrightarrow> MaxFrequency ovr = 0 \<Longrightarrow>
     rate_limit t ovr = (ovr, False)"
  by (simp add: rate_limit_def check_frequency_def check_repetitions_def)

lemma log_once_step:
  assumes "used_up m"
  shows "used_up (fst (log_once call m)) \<and> snd (log_once call m) = (call_key call \<notin> dom m) \<and>
     dom (fst (log_once call m)) = insert (call_key call) (dom m)"
proof (cases "m (call_key call)")
  case None
  then have "log_once call m = (m(call_key call \<mapsto> (Override 1 0)\<lparr>Repetitions := 1\<rparr>), True)"
    by (cases call) (auto simp: log_once_def GetOneTimeOverride_def call_key_def rate_limit_fresh)
  with None assms show ?thesis by (auto simp: used_up_def Override_def)
next
  case (Some ovr)
  with assms have "rate_limit (snd call) ovr = (ovr, False)"
    by (intro rate_limit_used) (auto simp: used_up_def)
  with Some have "log_once call m = (m, False)"
    by (cases call) (auto simp: log_once_def GetOneTimeOverride_def call_key_def fun_upd_idem)
  with Some assms show ?thesis by auto
qed

lemma once_run_nth:
  "used_up m \<Longrightarrow> i < length calls \<Longrightarrow>
     once_run calls m ! i \<longleftrightarrow>
       call_key (calls ! i) \<notin> dom m \<union> set (map call_key (take i calls))"
proof (induction calls arbitrary: m i)
  case (Cons call calls)
  show ?case
  proof (cases i)
    case 0
    then show ?thesis using log_once_step [OF Cons.prems(1), of call] by (simp add: case_prod_beta)
  next
    case (Suc j)
    then show ?thesis
      using Cons.IH [of "fst (log_once call m)" j] log_once_step [OF Cons.prems(1), of call]
        Cons.prems by (auto simp: case_prod_beta)
  qed
qed simp

text \<open>\<open>LOGME_ONCE4CALL\<close>: of the records logged through one generator, a record passes exactly
  when no earlier record had the same call-site key, at whatever times they are logged.\<close>

theorem once_per_call_site:
  assumes "i < length calls"
  shows "once_run calls Map.empty ! i \<longleftrightarrow>
     call_key (calls ! i) \<notin> set (map call_key (take i calls))"
  using once_run_nth [of Map.empty i calls] assms by (simp add: used_up_def)

theorem once_per_call_site_witness:
  "once_run [((4096, 12), 5), ((4096, 12), 6), ((4096, 14), 7)] Map.empty ! 0 \<and>
   \<not> once_run [((4096, 12), 5), ((4096, 12), 6), ((4096, 14), 7)] Map.empty ! 1 \<and>
   once_run [((4096, 12), 5), ((4096, 12), 6), ((4096, 14), 7)] Map.empty ! 2"
  using once_per_call_site [of 0 "[((4096, 12), 5), ((4096, 12), 6), ((4096, 14), 7)]"]
    once_per_call_site [of 1 "[((4096, 12), 5), ((4096, 12), 6), ((4096, 14), 7)]"]
    once_per_call_site [of 2 "[((4096, 12), 5), ((4096, 12), 6), ((4096, 14), 7)]"]
  by (simp add: call_key_def MakeKey_def)

end
