(* ===== verification/Thread_Scope.thy ===== *)
theory Thread_Scope
  imports Overrides
begin

text \<open>
  What a thread sets for its own records: the channel, override, subsystem and fields in
  thread-local storage (\<open>Logger.cpp\<close>, \<open>ThreadField.cpp\<close>) and the scope objects that set one
  and put the previous value back (\<open>ThreadChannel.cpp\<close>, \<open>ThreadOverride.cpp\<close>,
  \<open>ThreadSubsystem.cpp\<close>, \<open>ThreadFieldsOverride\<close>). A \<open>SafeID\<close> is the text it stores, a null name
  being empty. The locale \<open>scoped_setting\<close> is what a scope object promises; nested scopes
  restore the value whatever they contain. The override scope does not meet it, and the last
  section says what it loses.
\<close>

section \<open>Thread fields\<close>

type_synonym thread_fields = "(string \<times> string) list"

definition IsValidName :: "string option \<Rightarrow> bool" where
  "IsValidName name \<longleftrightarrow> (case name of None \<Rightarrow> False | Some n \<Rightarrow> c_str n \<noteq> [])"

text \<open>Position of the first field of that name, \<open>None\<close> for \<open>end()\<close>.\<close>

definition Fields_Find :: "string \<Rightarrow> thread_fields \<Rightarrow> nat option" where
  "Fields_Find name flds =
     (if name \<in> fst ` set flds then Some (length (takeWhile (\<lambda>f. fst f \<noteq> name) flds)) else None)"

definition c_text :: "string option \<Rightarrow> string" where
  "c_text value = (case value of None \<Rightarrow> [] | Some v \<Rightarrow> c_str v)"

definition Fields_Set :: "string option \<Rightarrow> string option \<Rightarrow> thread_fields \<Rightarrow> thread_fields" where
  "Fields_Set name value flds =
     (if \<not> IsValidName name then flds
      else
        let n = c_str (the name) in
        case Fields_Find n flds of
          None \<Rightarrow> flds @ [(n, c_text value)]
        | Some it \<Rightarrow> flds[it := (n, c_text value)])"

definition Fields_Get :: "string option \<Rightarrow> thread_fields \<Rightarrow> string option" where
  "Fields_Get name flds =
     (if \<not> IsValidName name then None
      else case Fields_Find (c_str (the name)) flds of
             None \<Rightarrow> None
           | Some it \<Rightarrow> Some (snd (flds ! it)))"

definition Fields_Remove :: "string option \<Rightarrow> thread_fields \<Rightarrow> thread_fields" where
  "Fields_Remove name flds =
     (if \<not> IsValidName name then flds
      else case Fields_Find (c_str (the name)) flds of
             None \<Rightarrow> flds
           | Some it \<Rightarrow> take it flds @ drop (Suc it) flds)"

definition Fields_Clear :: "thread_fields \<Rightarrow> thread_fields" where
  "Fields_Clear flds = []"

definition Fields_Empty :: "thread_fields \<Rightarrow> bool" where
  "Fields_Empty flds \<longleftrightarrow> flds = []"

lemma c_text_Some: "c_text (Some v) = c_str v"
  by (simp add: c_text_def)

lemma Fields_Find_Nil [simp]: "Fields_Find n [] = None"
  by (simp add: Fields_Find_def)

lemma Fields_Find_Cons [simp]:
  "Fields_Find n (f # fs) = (if fst f = n then Some 0 else map_option Suc (Fields_Find n fs))"
  by (simp add: Fields_Find_def image_iff)

lemma find_value:
  "(case Fields_Find n fs of None \<Rightarrow> None | Some it \<Rightarrow> Some (snd (fs ! it))) = map_of fs n"
  by (induction fs) (auto split: option.split)

lemma find_None: "Fields_Find n fs = None \<longleftrightarrow> n \<notin> fst ` set fs"
  by (induction fs) auto

lemma find_update:
  "Fields_Find n fs = Some it \<Longrightarrow>
     map_of (fs[it := (n, v)]) = (map_of fs)(n \<mapsto> v) \<and> map fst (fs[it := (n, v)]) = map fst fs"
  by (induction fs arbitrary: it) (auto split: if_splits)

lemma find_erase:
  "Fields_Find n fs = Some it \<Longrightarrow> distinct (map fst fs) \<Longrightarrow>
     map_of (take it fs @ drop (Suc it) fs) = (map_of fs)(n := None) \<and>
     distinct (map fst (take it fs @ drop (Suc it) fs))"
proof (induction fs arbitrary: it)
  case (Cons f fs)
  show ?case
  proof (cases "fst f = n")
    case True
    with Cons.prems have "it = 0" "map_of fs n = None" by (auto simp: map_of_eq_None_iff)
    then show ?thesis using True Cons.prems by (cases f) (auto simp: fun_upd_idem)
  next
    case False
    with Cons.prems obtain k where k: "Fields_Find n fs = Some k" "it = Suc k" by auto
    have "set (take k fs @ drop (Suc k) fs) \<subseteq> set fs"
      by (auto dest: in_set_takeD in_set_dropD)
    then have "fst f \<notin> fst ` set (take k fs @ drop (Suc k) fs)"
      using Cons.prems(2) by auto
    with Cons.IH [OF k(1)] Cons.prems(2) k(2) False show ?thesis
      by (cases f) (auto simp: fun_upd_twist)
  qed
qed simp

text \<open>A thread's fields are a map with unique names: a field set is read back, other fields
  keep their value, a removed field is gone, and names that are null or empty are ignored.\<close>

theorem thread_fields_map:
  assumes "distinct (map fst fs)"
  shows "Fields_Get m (Fields_Set n v fs) =
       (if IsValidName n \<and> IsValidName m \<and> c_text m = c_text n then Some (c_text v) else Fields_Get m fs) \<and>
     Fields_Get m (Fields_Remove n fs) =
       (if IsValidName n \<and> IsValidName m \<and> c_text m = c_text n then None else Fields_Get m fs) \<and>
     distinct (map fst (Fields_Set n v fs)) \<and> distinct (map fst (Fields_Remove n fs))"
proof (cases n)
  case None
  with assms show ?thesis by (simp add: IsValidName_def Fields_Set_def Fields_Remove_def)
next
  case (Some name)
  have get: "Fields_Get m fs' = (if IsValidName m then map_of fs' (c_text m) else None)" for fs'
    by (cases m) (simp_all add: Fields_Get_def find_value IsValidName_def c_text_def)
  show ?thesis
  proof (cases "IsValidName n")
    case True
    show ?thesis
    proof (cases "Fields_Find (c_str name) fs")
      case None
      then have new: "c_str name \<notin> fst ` set fs" by (simp add: find_None)
      then have none: "map_of fs (c_str name) = None" by (simp add: map_of_eq_None_iff)
      have "map_of (fs @ [(c_str name, w)]) = (map_of fs)(c_str name \<mapsto> w)" for w
        using none by (auto simp: map_add_def fun_eq_iff split: option.split)
      then show ?thesis
        using True Some None new none assms
        by (auto simp: Fields_Set_def Fields_Remove_def get c_text_Some)
    next
      case (Some it)
      with find_update [OF Some] find_erase [OF Some assms] True \<open>n = Some name\<close> assms
      show ?thesis by (auto simp: Fields_Set_def Fields_Remove_def get c_text_Some)
    qed
  qed (use assms in \<open>simp add: Fields_Set_def Fields_Remove_def\<close>)
qed

theorem thread_fields_map_witness:
  "let fs = [(''req'', ''17''), (''user'', ''ann'')] in
   Fields_Get (Some ''req'') (Fields_Set (Some ''req'') (Some ''18'') fs) = Some ''18'' \<and>
   Fields_Get (Some ''user'') (Fields_Remove (Some ''req'') fs) = Some ''ann''"
  using thread_fields_map [of "[(''req'', ''17''), (''user'', ''ann'')]" "Some ''req''" "Some ''req''" "Some ''18''"]
    thread_fields_map [of "[(''req'', ''17''), (''user'', ''ann'')]" "Some ''user''" "Some ''req''" "Some ''18''"]
  by (simp add: Let_def IsValidName_def c_text_def c_str_def NUL_def Fields_Get_def)

section \<open>Thread-local state\<close>

record thread_state =
  HasThreadChannel :: bool
  CurrentThreadChannel :: string
  HasThreadOverride :: bool
  CurrentThreadOverride :: override
  HasThreadSubsystem :: bool
  CurrentThreadSubsystem :: u64
  CurrentThreadFields :: thread_fields

definition thread_init :: thread_state where
  "thread_init = \<lparr>HasThreadChannel = False, CurrentThreadChannel = [], HasThreadOverride = False,
     CurrentThreadOverride = Override (-1) 0, HasThreadSubsystem = False,
     CurrentThreadSubsystem = 0, CurrentThreadFields = []\<rparr>"

definition SetThreadOverride :: "override option \<Rightarrow> thread_state \<Rightarrow> thread_state" where
  "SetThreadOverride ovr s =
     (case ovr of
        None \<Rightarrow> s\<lparr>HasThreadOverride := False, CurrentThreadOverride := Override (-1) 0\<rparr>
      | Some o' \<Rightarrow> s\<lparr>CurrentThreadOverride := o', HasThreadOverride := True\<rparr>)"

definition GetThreadOverride :: "thread_state \<Rightarrow> override" where
  "GetThreadOverride s = (if HasThreadOverride s then CurrentThreadOverride s else Override (-1) 0)"

definition SetThreadSubsystem :: "u64 option \<Rightarrow> thread_state \<Rightarrow> thread_state" where
  "SetThreadSubsystem sid s =
     (if sid = None \<or> sid = Some 0
      then s\<lparr>HasThreadSubsystem := False, CurrentThreadSubsystem := 0\<rparr>
      else s\<lparr>CurrentThreadSubsystem := the sid, HasThreadSubsystem := True\<rparr>)"

definition GetDefaultSubsystem :: "thread_state \<Rightarrow> u64" where
  "GetDefaultSubsystem s = (if HasThreadSubsystem s then CurrentThreadSubsystem s else 0)"

text \<open>The subsystem a record is logged with, given the one of its call.\<close>

definition ApplyThreadSubsystem :: "thread_state \<Rightarrow> u64 \<Rightarrow> u64" where
  "ApplyThreadSubsystem s subsystem =
     (if HasThreadSubsystem s then CurrentThreadSubsystem s else subsystem)"

definition SetThreadChannel :: "string option \<Rightarrow> thread_state \<Rightarrow> thread_state" where
  "SetThreadChannel ch s =
     (case ch of
        None \<Rightarrow> s\<lparr>HasThreadChannel := False, CurrentThreadChannel := []\<rparr>
      | Some i \<Rightarrow> s\<lparr>CurrentThreadChannel := i, HasThreadChannel := True\<rparr>)"

definition ApplyThreadChannel :: "thread_state \<Rightarrow> string \<Rightarrow> string" where
  "ApplyThreadChannel s channel =
     (if HasThreadChannel s then CurrentThreadChannel s else channel)"

definition CH :: string where
  "CH = ''''"

definition GetDefaultChannel :: "thread_state \<Rightarrow> string" where
  "GetDefaultChannel s = (if HasThreadChannel s then CurrentThreadChannel s else CH)"

definition SetThreadFields :: "thread_fields option \<Rightarrow> thread_state \<Rightarrow> thread_state" where
  "SetThreadFields flds s =
     (case flds of
        None \<Rightarrow> s\<lparr>CurrentThreadFields := Fields_Clear (CurrentThreadFields s)\<rparr>
      | Some f \<Rightarrow> s\<lparr>CurrentThreadFields := f\<rparr>)"

definition GetThreadFields :: "thread_state \<Rightarrow> thread_fields" where
  "GetThreadFields s = CurrentThreadFields s"

text \<open>The destructors of the scope objects, given what the constructor saved.\<close>

definition ThreadChannel_end :: "string \<Rightarrow> thread_state \<Rightarrow> thread_state" where
  "ThreadChannel_end PrevChannel s =
     (if c_str PrevChannel = [] then SetThreadChannel None s else SetThreadChannel (Some PrevChannel) s)"

definition ThreadOverride_end :: "override \<Rightarrow> thread_state \<Rightarrow> thread_state" where
  "ThreadOverride_end PrevOverride s =
     (if Add PrevOverride = 0 \<and> Remove PrevOverride = 0 then SetThreadOverride None s
      else SetThreadOverride (Some PrevOverride) s)"

definition ThreadSubsystem_end :: "u64 \<Rightarrow> thread_state \<Rightarrow> thread_state" where
  "ThreadSubsystem_end PrevSubsystem s =
     (if PrevSubsystem = 0 then SetThreadSubsystem None s else SetThreadSubsystem (Some PrevSubsystem) s)"

definition ThreadFieldsOverride_end :: "thread_fields \<Rightarrow> thread_state \<Rightarrow> thread_state" where
  "ThreadFieldsOverride_end PrevFields s =
     (if Fields_Empty PrevFields then SetThreadFields None s else SetThreadFields (Some PrevFields) s)"

section \<open>Scopes\<close>

text \<open>A scope sets a value, runs what is inside, and ends; \<open>Sets\<close> is a bare assignment.\<close>

datatype scope_kind =
  ScopeChannel string | ScopeOverride override | ScopeSubsystem u64 | ScopeFields thread_fields

datatype block = Scope scope_kind "block list"

text \<open>The constructors: what is saved, and the new state.\<close>

fun scope_begin :: "scope_kind \<Rightarrow> thread_state \<Rightarrow> thread_state" where
  "scope_begin (ScopeChannel ch) s = SetThreadChannel (Some ch) s"
| "scope_begin (ScopeOverride ovr) s = SetThreadOverride (Some ovr) s"
| "scope_begin (ScopeSubsystem sid) s = SetThreadSubsystem (Some sid) s"
| "scope_begin (ScopeFields flds) s = SetThreadFields (Some flds) s"

fun scope_end :: "scope_kind \<Rightarrow> thread_state \<Rightarrow> thread_state \<Rightarrow> thread_state" where
  "scope_end (ScopeChannel ch) saved s = ThreadChannel_end (GetDefaultChannel saved) s"
| "scope_end (ScopeOverride ovr) saved s = ThreadOverride_end (GetThreadOverride saved) s"
| "scope_end (ScopeSubsystem sid) saved s = ThreadSubsystem_end (GetDefaultSubsystem saved) s"
| "scope_end (ScopeFields flds) saved s = ThreadFieldsOverride_end (GetThreadFields saved) s"

fun run_block :: "block \<Rightarrow> thread_state \<Rightarrow> thread_state"
  and run_blocks :: "block list \<Rightarrow> thread_state \<Rightarrow> thread_state" where
  "run_block (Scope k bs) s = scope_end k s (run_blocks bs (scope_begin k s))"
| "run_blocks [] s = s"
| "run_blocks (b # bs) s = run_blocks bs (run_block b s)"

text \<open>
  The contract: a view of the state that the end of every scope puts back, whatever the state
  at the end, provided the scope either is of the view's own kind or leaves the view alone.
\<close>

locale scoped_setting =
  fixes view :: "thread_state \<Rightarrow> 'v" and own :: "scope_kind \<Rightarrow> bool"
  assumes end_restores: "own k \<Longrightarrow> view (scope_end k saved s) = view saved"
    and begin_other: "\<not> own k \<Longrightarrow> view (scope_begin k s) = view s"
    and end_other: "\<not> own k \<Longrightarrow> view (scope_end k saved s) = view s"
begin

lemma block_restores: "view (run_block b s) = view s"
  and blocks_restore: "view (run_blocks bs s) = view s"
proof (induction b s and bs s rule: run_block_run_blocks.induct)
  case (1 k bs s)
  then show ?case
    by (cases "own k") (simp_all add: end_restores begin_other end_other)
qed simp_all

end

lemma c_str_Nil_iff: "c_str s = [] \<longleftrightarrow> s = [] \<or> hd s = NUL"
  by (cases s) (auto simp: c_str_def)

lemmas thread_defs =
  ThreadChannel_end_def ThreadOverride_end_def ThreadSubsystem_end_def ThreadFieldsOverride_end_def
  SetThreadChannel_def SetThreadOverride_def SetThreadSubsystem_def SetThreadFields_def
  GetDefaultChannel_def GetThreadOverride_def GetDefaultSubsystem_def GetThreadFields_def
  Fields_Empty_def Fields_Clear_def CH_def

text \<open>What callees see of the channel id is its C string.\<close>

interpretation channel_scope: scoped_setting "\<lambda>s. c_str (GetDefaultChannel s)"
    "\<lambda>k. case k of ScopeChannel ch \<Rightarrow> True | _ \<Rightarrow> False"
  by unfold_locales
     (auto simp: thread_defs split: scope_kind.splits option.splits, auto simp: c_str_def)

interpretation subsystem_scope: scoped_setting GetDefaultSubsystem
    "\<lambda>k. case k of ScopeSubsystem sid \<Rightarrow> True | _ \<Rightarrow> False"
  by unfold_locales (auto simp: thread_defs split: scope_kind.splits option.splits)

interpretation fields_scope: scoped_setting GetThreadFields
    "\<lambda>k. case k of ScopeFields f \<Rightarrow> True | _ \<Rightarrow> False"
  by unfold_locales (auto simp: thread_defs split: scope_kind.splits option.splits)

text \<open>Of the override only the flag masks.\<close>

interpretation override_scope: scoped_setting "\<lambda>s. (Add (GetThreadOverride s), Remove (GetThreadOverride s))"
    "\<lambda>k. case k of ScopeOverride ovr \<Rightarrow> True | _ \<Rightarrow> False"
  by unfold_locales (auto simp: thread_defs Override_def split: scope_kind.splits option.splits)

text \<open>Thread scopes nest: after any block of channel, subsystem, field and override scopes,
  however nested, the thread logs with the channel, subsystem, fields and override flags it
  had before.\<close>

theorem thread_scopes_restore:
  "c_str (GetDefaultChannel (run_block b s)) = c_str (GetDefaultChannel s) \<and>
   GetDefaultSubsystem (run_block b s) = GetDefaultSubsystem s \<and>
   GetThreadFields (run_block b s) = GetThreadFields s \<and>
   Add (GetThreadOverride (run_block b s)) = Add (GetThreadOverride s) \<and>
   Remove (GetThreadOverride (run_block b s)) = Remove (GetThreadOverride s)"
  using channel_scope.block_restores subsystem_scope.block_restores fields_scope.block_restores
    override_scope.block_restores [of b s] by simp

section \<open>What an override scope loses\<close>

text \<open>The rest of an outer override is not safe: when the outer override changes no flag,
  an inner override scope ends with the default override in place, so the shortener, the
  repetition limit and the interval of the outer one are gone for the rest of its scope.\<close>

theorem override_scope_drops_limits:
  assumes "Add (GetThreadOverride s) = 0" and "Remove (GetThreadOverride s) = 0"
  shows "GetThreadOverride (run_block (Scope (ScopeOverride ovr) bs) s) = Override (-1) 0"
  using assms by (simp add: ThreadOverride_end_def SetThreadOverride_def GetThreadOverride_def)

theorem override_scope_drops_limits_witness:
  "let outer = scope_begin (ScopeOverride (Override 3 1000)) thread_init;
       after = run_block (Scope (ScopeOverride (Override 1 0)) []) outer
   in MaxRepetitions (GetThreadOverride outer) = 3 \<and> MaxRepetitions (GetThreadOverride after) = -1"
proof -
  let ?outer = "scope_begin (ScopeOverride (Override 3 1000)) thread_init"
  have outer: "GetThreadOverride ?outer = Override 3 1000"
    by (simp add: SetThreadOverride_def GetThreadOverride_def)
  have "GetThreadOverride (run_block (Scope (ScopeOverride (Override 1 0)) []) ?outer) = Override (-1) 0"
    by (rule override_scope_drops_limits) (simp_all only: outer, simp_all add: Override_def)
  then show ?thesis unfolding Let_def outer by (simp add: Override_def)
qed

end
