(* ===== verification/Channels.thy ===== *)
theory Channels
  imports Subsystems Overrides Reentry_Guard
begin

text \<open>
  Channels (\<open>Channel.cpp\<close>) and the logger's registry of them (\<open>Logger.cpp\<close>): the channel
  record and its operations, \<open>Display\<close> with the reentry guard, filters, levels, overrides,
  links and backends, and the creation, lookup and deletion of channels. Channel objects live
  at numbers; a number whose object was never made holds \<open>blank_channel\<close>. A backend is the
  interface \<open>Display\<close> sees: an identity, a type, whether it is frozen and idle, and the records
  it logs itself while it is called (\<open>Calls\<close>), so that reentry through a backend is covered.
  The output is the list of what reached which backend. Recursion is bounded by fuel; the
  section on termination shows how much is always enough.
\<close>

section \<open>Records\<close>

record ctx =
  ErrorLevel :: level
  CtxSubsystem :: u64
  Ovr :: "override option"
  CtxText :: string

record backend =
  BackendId :: nat
  BackendType :: string
  Freezed :: bool
  BackendIdle :: bool
  Calls :: "(nat \<times> ctx) list"

record thread_name =
  TName :: "string option"
  TPrev :: "string option"
  TForward :: "nat option"

record channel =
  ChanName :: string
  Flags :: u32
  LevelFilter :: level
  Enabled :: bool
  Linked :: bool
  BackendCount :: nat
  Active :: bool
  AccessCount :: nat
  LoggedBytes :: u64
  Backends :: "backend list"
  Link :: "string option"
  LinkTo :: "nat option"
  DisplayFilter :: "(ctx \<Rightarrow> ctx \<times> bool) option"
  ThreadNames :: "u64 \<rightharpoonup> thread_name"

definition new_channel :: "string \<Rightarrow> u32 \<Rightarrow> level \<Rightarrow> channel" where
  "new_channel name flags level =
     \<lparr>ChanName = name, Flags = flags, LevelFilter = level, Enabled = True, Linked = False,
      BackendCount = 0, Active = False, AccessCount = 0, LoggedBytes = 0, Backends = [],
      Link = None, LinkTo = None, DisplayFilter = None, ThreadNames = Map.empty\<rparr>"

definition blank_channel :: channel where
  "blank_channel = new_channel [] 0 DEFAULT_LEVEL"

record logger =
  Subsys :: subsys_state
  Guard :: guard_state
  Chan :: "nat \<Rightarrow> channel"
  NextChan :: nat
  ChannelMap :: "string \<rightharpoonup> nat"
  Default :: "nat option"
  ToDelete :: "nat list"
  NumDeleting :: int
  LastDoAutodelete :: u64
  IDGenerator :: nat

definition upd_chan :: "nat \<Rightarrow> (channel \<Rightarrow> channel) \<Rightarrow> logger \<Rightarrow> logger" where
  "upd_chan ch f s = s\<lparr>Chan := (Chan s)(ch := f (Chan s ch))\<rparr>"

definition is_shutdown :: "logger \<Rightarrow> bool" where
  "is_shutdown s \<longleftrightarrow> ShutdownCalled (Subsys s)"

section \<open>Operations of one channel\<close>

definition UpdateActive :: "channel \<Rightarrow> channel" where
  "UpdateActive c = c\<lparr>Active := (Linked c \<or> (Enabled c \<and> BackendCount c > 0))\<rparr>"

definition AddLinkId :: "string \<Rightarrow> channel \<Rightarrow> channel" where
  "AddLinkId to c = UpdateActive (c\<lparr>Link := Some to, Linked := True\<rparr>)"

definition AddLinkPtr :: "bool \<Rightarrow> nat \<Rightarrow> channel \<Rightarrow> channel" where
  "AddLinkPtr shutdown to c =
     (if shutdown then c else UpdateActive (c\<lparr>LinkTo := Some to, Linked := True\<rparr>))"

definition RemoveLink :: "channel \<Rightarrow> channel" where
  "RemoveLink c = UpdateActive (c\<lparr>Link := None, LinkTo := None, Linked := False\<rparr>)"

definition SetEnabled :: "bool \<Rightarrow> channel \<Rightarrow> channel" where
  "SetEnabled enable c = UpdateActive (c\<lparr>Enabled := enable\<rparr>)"

definition SetFilterLevel :: "level \<Rightarrow> channel \<Rightarrow> channel" where
  "SetFilterLevel level c = c\<lparr>LevelFilter := level\<rparr>"

definition SetFlags :: "u32 \<Rightarrow> channel \<Rightarrow> channel" where
  "SetFlags flags c = c\<lparr>Flags := flags\<rparr>"

definition SetDisplayFilter :: "(ctx \<Rightarrow> ctx \<times> bool) option \<Rightarrow> channel \<Rightarrow> channel" where
  "SetDisplayFilter f c = c\<lparr>DisplayFilter := f\<rparr>"

definition AddLoggedBytes :: "u64 \<Rightarrow> channel \<Rightarrow> channel" where
  "AddLoggedBytes bytes c = c\<lparr>LoggedBytes := LoggedBytes c + bytes\<rparr>"

definition Freeze :: "channel \<Rightarrow> channel" where
  "Freeze c = c\<lparr>Backends := map (\<lambda>b. b\<lparr>Freezed := True\<rparr>) (Backends c)\<rparr>"

definition RemoveBackends :: "channel \<Rightarrow> channel" where
  "RemoveBackends c = UpdateActive ((Freeze c)\<lparr>Backends := [], BackendCount := 0\<rparr>)"

text \<open>The first backend that is the given object is frozen, erased and returned.\<close>

fun remove_first :: "nat \<Rightarrow> backend list \<Rightarrow> (backend \<times> backend list) option" where
  "remove_first bid [] = None"
| "remove_first bid (b # bs) =
     (if BackendId b = bid then Some (b\<lparr>Freezed := True\<rparr>, bs)
      else map_option (\<lambda>(x, r). (x, b # r)) (remove_first bid bs))"

definition RemoveBackend :: "nat \<Rightarrow> channel \<Rightarrow> channel \<times> backend option" where
  "RemoveBackend bid c =
     (case remove_first bid (Backends c) of
        None \<Rightarrow> (c, None)
      | Some (p, rest) \<Rightarrow>
          (UpdateActive (c\<lparr>Backends := rest, BackendCount := length rest\<rparr>), Some p))"

definition AddBackend :: "bool \<Rightarrow> backend \<Rightarrow> channel \<Rightarrow> channel" where
  "AddBackend shutdown backend c =
     (if shutdown then c
      else if BackendId backend \<in> BackendId ` set (Backends c) then c
      else
        let bs = Backends c @ [backend] in
        UpdateActive (c\<lparr>Backends := bs, BackendCount := length bs\<rparr>))"

definition GetBackend :: "nat \<Rightarrow> channel \<Rightarrow> backend option" where
  "GetBackend index c = (if index < length (Backends c) then Some (Backends c ! index) else None)"

text \<open>The position after \<open>context\<close>, \<open>-1\<close> at first; the new position and what was found.\<close>

definition FindNextBackend :: "string \<Rightarrow> int \<Rightarrow> channel \<Rightarrow> int \<times> backend option" where
  "FindNextBackend stype context c =
     (case find (\<lambda>pos. BackendType (Backends c ! pos) = stype)
             [nat (context + 1)..<length (Backends c)] of
        None \<Rightarrow> (context, None)
      | Some pos \<Rightarrow> (int pos, Some (Backends c ! pos)))"

definition FindFirstBackend :: "string \<Rightarrow> channel \<Rightarrow> int \<times> backend option" where
  "FindFirstBackend stype c = FindNextBackend stype (-1) c"

definition IsIdle :: "channel \<Rightarrow> bool" where
  "IsIdle c \<longleftrightarrow> (\<forall>b \<in> set (Backends c). BackendIdle b)"

definition IsOutputActive :: "logger \<Rightarrow> ctx \<Rightarrow> channel \<Rightarrow> bool" where
  "IsOutputActive s context c =
     (if CtxSubsystem context \<noteq> 0 \<and> HasSubsystemLevelOverrides (Subsys s) then Active c
      else if ErrorLevel context < LevelFilter c then False
      else Active c)"

section \<open>The registry\<close>

definition GetExistingChannel :: "string \<Rightarrow> logger \<Rightarrow> nat option" where
  "GetExistingChannel name s =
     (if c_str name = [] then Default s else ChannelMap s (c_str name))"

definition CreateChannelInternal :: "string \<Rightarrow> u32 \<Rightarrow> level \<Rightarrow> logger \<Rightarrow> logger \<times> nat option" where
  "CreateChannelInternal name flags level s =
     (if is_shutdown s then (s, None)
      else case ChannelMap s (c_str name) of
             Some ch \<Rightarrow> (s, Some ch)
           | None \<Rightarrow>
               let ch = NextChan s in
               (s\<lparr>Chan := (Chan s)(ch := new_channel (c_str name) flags level), NextChan := ch + 1,
                  ChannelMap := (ChannelMap s)(c_str name \<mapsto> ch)\<rparr>, Some ch))"

definition GetChannel :: "string \<Rightarrow> logger \<Rightarrow> logger \<times> nat option" where
  "GetChannel name s =
     (case GetExistingChannel name s of
        Some ch \<Rightarrow> (s, Some ch)
      | None \<Rightarrow> CreateChannelInternal name OutputFlags_init DEFAULT_LEVEL s)"

definition CreateChannel :: "string \<Rightarrow> u32 \<Rightarrow> level \<Rightarrow> logger \<Rightarrow> logger \<times> nat option" where
  "CreateChannel name flags level s =
     (if is_shutdown s then (s, None)
      else case ChannelMap s (c_str name) of
             Some ch \<Rightarrow> (s, Some ch)
           | None \<Rightarrow> CreateChannelInternal name flags level s)"

text \<open>The generated name \<open>#n\<close>: \<open>partial_function\<close>, for the loop stops at the first unused one.\<close>

partial_function (option) CreateUnnamedChannel ::
  "u32 \<Rightarrow> level \<Rightarrow> logger \<Rightarrow> (logger \<times> nat option) option" where
  "CreateUnnamedChannel flags level s =
     (if is_shutdown s then Some (s, None)
      else
        let n = IDGenerator s + 1; s = s\<lparr>IDGenerator := n\<rparr>; name = ''#'' @ show_nat n in
        if ChannelMap s name = None then Some (CreateChannelInternal name flags level s)
        else CreateUnnamedChannel flags level s)"

definition Autodelete :: "string \<Rightarrow> logger \<Rightarrow> logger" where
  "Autodelete name s =
     (case ChannelMap s (c_str name) of
        None \<Rightarrow> s
      | Some ch \<Rightarrow>
          (upd_chan ch Freeze s)\<lparr>ChannelMap := (ChannelMap s)(c_str name := None),
             ToDelete := ToDelete s @ [ch], NumDeleting := NumDeleting s + 1\<rparr>)"

definition DeleteChannel :: "string \<Rightarrow> logger \<Rightarrow> logger" where
  "DeleteChannel name s =
     (case ChannelMap s (c_str name) of
        None \<Rightarrow> s
      | Some ch \<Rightarrow>
          upd_chan ch (\<lambda>c. RemoveLink (RemoveBackends c))
            (s\<lparr>ChannelMap := (ChannelMap s)(c_str name := None)\<rparr>))"

text \<open>
  The loop of \<open>DoAutodelete\<close>: take the first channel that may go, clear it, start over. One round
  removes one element of \<open>ToDelete\<close>.
\<close>

function autodelete_loop :: "bool \<Rightarrow> logger \<Rightarrow> logger" where
  "autodelete_loop force s =
     (case find (\<lambda>ch. force \<or> IsIdle (Chan s ch)) (ToDelete s) of
        None \<Rightarrow> s
      | Some ch \<Rightarrow>
          autodelete_loop force
            (upd_chan ch (\<lambda>c. RemoveLink (RemoveBackends c))
              (s\<lparr>ToDelete := remove1 ch (ToDelete s), NumDeleting := NumDeleting s - 1\<rparr>)))"
  by auto
termination
  by (relation "measure (\<lambda>(force, s). length (ToDelete s))")
     (auto simp: upd_chan_def find_Some_iff length_remove1 dest: nth_mem length_pos_if_in_set)

declare autodelete_loop.simps [simp del]

text \<open>\<open>n\<close> is the millisecond clock.\<close>

definition DoAutodelete :: "bool \<Rightarrow> u64 \<Rightarrow> logger \<Rightarrow> logger" where
  "DoAutodelete force n s =
     (if NumDeleting s = 0 \<and> \<not> force then s
      else if n - LastDoAutodelete s < 100 then s
      else autodelete_loop force (s\<lparr>LastDoAutodelete := n\<rparr>))"

end
