(* ===== verification/Channel_Display.thy ===== *)
theory Channel_Display
  imports Channels
begin

text \<open>
  \<open>Channel::Display\<close> (\<open>Channel.cpp\<close>): what reaches the backends of a channel and of the
  channels it is linked to. Nested calls (through a link, or by a backend that logs) are made
  with one unit of fuel less. Lemmas: fuel of the number of channels plus two always suffices,
  the guard's stack is as before, no backend gets a record twice through links, and the early
  test \<open>IsOutputActive\<close> drops no record that would be shown.
\<close>

section \<open>The handler\<close>

text \<open>\<open>Applied\<close>: the record was formatted for a channel before it went to the linked one.\<close>

datatype event = Applied nat u32 | Shown nat nat ctx

type_synonym display_result = "(logger \<times> ctx \<times> event list) option"
type_synonym display_fun = "nat \<Rightarrow> ctx \<Rightarrow> logger \<Rightarrow> display_result"

fun run_calls :: "display_fun \<Rightarrow> (nat \<times> ctx) list \<Rightarrow> logger \<Rightarrow> (logger \<times> event list) option" where
  "run_calls d [] s = Some (s, [])"
| "run_calls d ((ch, c) # cs) s =
     (case d ch c s of
        None \<Rightarrow> None
      | Some (s, c', ev) \<Rightarrow>
          (case run_calls d cs s of None \<Rightarrow> None | Some (s, ev') \<Rightarrow> Some (s, ev @ ev')))"

fun show_backends ::
  "display_fun \<Rightarrow> nat \<Rightarrow> backend list \<Rightarrow> ctx \<Rightarrow> logger \<Rightarrow> (logger \<times> event list) option" where
  "show_backends d ch [] c s = Some (s, [])"
| "show_backends d ch (p # ps) c s =
     (if Freezed p then show_backends d ch ps c s
      else case run_calls d (Calls p) s of
             None \<Rightarrow> None
           | Some (s, ev) \<Rightarrow>
               (case show_backends d ch ps c s of
                  None \<Rightarrow> None
                | Some (s, ev') \<Rightarrow> Some (s, Shown ch (BackendId p) c # ev @ ev')))"

definition display_link :: "display_fun \<Rightarrow> nat \<Rightarrow> u32 \<Rightarrow> ctx \<Rightarrow> logger \<Rightarrow> display_result" where
  "display_link d ch flags c s =
     (if (Link (Chan s ch) \<noteq> None \<or> LinkTo (Chan s ch) \<noteq> None) \<and> flag DisableLink flags = 0 then
        (case (case LinkTo (Chan s ch) of
                 Some pch \<Rightarrow> (s, Some pch)
               | None \<Rightarrow> GetChannel (the (Link (Chan s ch))) s) of
           (s, None) \<Rightarrow> Some (s, c, [])
         | (s, Some to) \<Rightarrow>
             (case d to c s of
                None \<Rightarrow> None
              | Some (s, c, ev) \<Rightarrow> Some (s, c, Applied ch flags # ev)))
      else Some (s, c, []))"

definition effective_level :: "logger \<Rightarrow> nat \<Rightarrow> ctx \<Rightarrow> level" where
  "effective_level s ch c =
     (case GetSubsystemLevel (CtxSubsystem c) (Subsys s) of
        Some subsystemLevel \<Rightarrow> subsystemLevel
      | None \<Rightarrow> LevelFilter (Chan s ch))"

definition effective_flags :: "logger \<Rightarrow> nat \<Rightarrow> ctx \<Rightarrow> u32" where
  "effective_flags s ch c =
     (case Ovr c of
        None \<Rightarrow> Flags (Chan s ch)
      | Some o' \<Rightarrow> apply_override (Add o') (Remove o') (Flags (Chan s ch)))"

definition apply_filter :: "logger \<Rightarrow> nat \<Rightarrow> ctx \<Rightarrow> ctx \<times> bool" where
  "apply_filter s ch c =
     (case DisplayFilter (Chan s ch) of None \<Rightarrow> (c, True) | Some f \<Rightarrow> f c)"

text \<open>What happens while the guard is held.\<close>

definition display_body :: "display_fun \<Rightarrow> display_fun" where
  "display_body d ch c s =
     (let (c, pass) = apply_filter s ch c in
      if \<not> pass then Some (s, c, [])
      else if ErrorLevel c < effective_level s ch c then Some (s, c, [])
      else
        case display_link d ch (effective_flags s ch c) c s of
          None \<Rightarrow> None
        | Some (s, c, ev) \<Rightarrow>
            (case show_backends d ch (Backends (Chan s ch)) c s of
               None \<Rightarrow> None
             | Some (s, ev') \<Rightarrow> Some (s, c, ev @ ev')))"

definition count_access :: "channel \<Rightarrow> channel" where
  "count_access c = c\<lparr>AccessCount := AccessCount c + 1\<rparr>"

definition display_step :: "display_fun \<Rightarrow> display_fun" where
  "display_step d ch c s =
     (if is_shutdown s then Some (s, c, [])
      else
        let s = upd_chan ch count_access s in
        if \<not> Enabled (Chan s ch) then Some (s, c, [])
        else
          let (g, active) = guard_enter ch (Guard s); s = s\<lparr>Guard := g\<rparr> in
          if \<not> active then Some (s\<lparr>Guard := guard_leave active (Guard s)\<rparr>, c, [])
          else
            case display_body d ch c s of
              None \<Rightarrow> None
            | Some (s, c, ev) \<Rightarrow> Some (s\<lparr>Guard := guard_leave active (Guard s)\<rparr>, c, ev))"

fun Display :: "nat \<Rightarrow> display_fun" where
  "Display 0 ch c s = None"
| "Display (Suc n) ch c s = display_step (Display n) ch c s"

section \<open>It returns\<close>

text \<open>
  From \<open>K\<close> on channels are leaves: no backends and no link. Channels made during a call are
  such, so \<open>K\<close> can be the number of channels at its start.
\<close>

definition leaf :: "channel \<Rightarrow> bool" where
  "leaf c \<longleftrightarrow> Backends c = [] \<and> Link c = None \<and> LinkTo c = None"

definition display_ok :: "nat \<Rightarrow> nat list \<Rightarrow> logger \<Rightarrow> bool" where
  "display_ok K st s \<longleftrightarrow> guard_ok (Guard s) \<and> guard_stack (Guard s) = st \<and> K \<le> NextChan s \<and>
     (\<forall>ch \<ge> K. leaf (Chan s ch))"

definition total_at :: "display_fun \<Rightarrow> nat \<Rightarrow> nat list \<Rightarrow> bool" where
  "total_at d K st \<longleftrightarrow> (\<forall>ch c s. display_ok K st s \<longrightarrow>
     (\<exists>s' c' ev. d ch c s = Some (s', c', ev) \<and> display_ok K st s'))"

lemma leaf_new [simp]: "leaf (new_channel name flags level)"
  by (simp add: leaf_def new_channel_def)

lemma leaf_access [simp]: "leaf (count_access c) = leaf c"
  by (simp add: leaf_def count_access_def)

lemma run_calls_total:
  "total_at d K st \<Longrightarrow> display_ok K st s \<Longrightarrow>
     \<exists>s' ev. run_calls d cs s = Some (s', ev) \<and> display_ok K st s'"
proof (induction cs arbitrary: s)
  case (Cons p cs)
  obtain ch c where p: "p = (ch, c)" by (cases p)
  from Cons.prems obtain s1 c1 ev1 where "d ch c s = Some (s1, c1, ev1)" "display_ok K st s1"
    unfolding total_at_def by blast
  with Cons.IH [OF Cons.prems(1), of s1] p show ?case by auto
qed simp

lemma show_backends_total:
  "total_at d K st \<Longrightarrow> display_ok K st s \<Longrightarrow>
     \<exists>s' ev. show_backends d ch ps c s = Some (s', ev) \<and> display_ok K st s'"
proof (induction ps arbitrary: s)
  case (Cons p ps)
  show ?case
  proof (cases "Freezed p")
    case False
    obtain s1 ev1 where "run_calls d (Calls p) s = Some (s1, ev1)" "display_ok K st s1"
      using run_calls_total [OF Cons.prems] by blast
    with False Cons.IH [OF Cons.prems(1), of s1] show ?thesis by auto
  qed (use Cons in simp)
qed simp

lemma GetChannel_ok: "display_ok K st s \<Longrightarrow> display_ok K st (fst (GetChannel name s))"
  by (auto simp: GetChannel_def CreateChannelInternal_def display_ok_def Let_def split: option.split)

lemma display_link_total:
  assumes "total_at d K st" and "display_ok K st s"
  shows "\<exists>s' c' ev. display_link d ch flags c s = Some (s', c', ev) \<and> display_ok K st s'"
proof -
  let ?r = "case LinkTo (Chan s ch) of Some pch \<Rightarrow> (s, Some pch)
      | None \<Rightarrow> GetChannel (the (Link (Chan s ch))) s"
  have ok: "display_ok K st (fst ?r)"
    using assms(2) GetChannel_ok [of K st s] by (simp split: option.split)
  obtain s1 t where r: "?r = (s1, t)" by (cases ?r)
  show ?thesis
  proof (cases t)
    case None
    with ok r assms(2) show ?thesis by (simp add: display_link_def)
  next
    case (Some to)
    from ok r assms(1) obtain s2 c2 ev where "d to c s1 = Some (s2, c2, ev)" "display_ok K st s2"
      unfolding total_at_def by force
    with Some r assms(2) show ?thesis by (simp add: display_link_def)
  qed
qed

lemma display_body_total:
  assumes "total_at d K st" and "display_ok K st s"
  shows "\<exists>s' c' ev. display_body d ch c s = Some (s', c', ev) \<and> display_ok K st s'"
proof -
  obtain c1 pass where f: "apply_filter s ch c = (c1, pass)" by (cases "apply_filter s ch c")
  obtain s2 c2 ev2 where
    l: "display_link d ch (effective_flags s ch c1) c1 s = Some (s2, c2, ev2)" "display_ok K st s2"
    using display_link_total [OF assms] by blast
  obtain s3 ev3 where
    "show_backends d ch (Backends (Chan s2 ch)) c2 s2 = Some (s3, ev3)" "display_ok K st s3"
    using show_backends_total [OF assms(1) l(2)] by blast
  with f l assms(2) show ?thesis by (simp add: display_body_def)
qed

lemma display_body_leaf:
  assumes "leaf (Chan s ch)"
  shows "\<exists>c'. display_body d ch c s = Some (s, c', [])"
  using assms by (auto simp: display_body_def display_link_def leaf_def case_prod_beta Let_def)

definition free_channels :: "nat \<Rightarrow> nat list \<Rightarrow> nat" where
  "free_channels K st = card ({..<K} - set st)"

lemma free_channels_push: "ch < K \<Longrightarrow> ch \<notin> set st \<Longrightarrow> free_channels K st = Suc (free_channels K (st @ [ch]))"
proof -
  assume "ch < K" "ch \<notin> set st"
  then have "card ({..<K} - set st) = Suc (card ({..<K} - set st - {ch}))"
    by (subst card_Suc_Diff1) auto
  moreover have "{..<K} - set st - {ch} = {..<K} - set (st @ [ch])" by auto
  ultimately show ?thesis by (simp add: free_channels_def)
qed

lemma upd_access_ok: "display_ok K st (upd_chan ch count_access s) = display_ok K st s"
  by (auto simp: display_ok_def upd_chan_def)

lemma display_step_total:
  assumes ok: "display_ok K st s"
    and inner: "ch < K \<Longrightarrow> ch \<notin> set st \<Longrightarrow> total_at d K (st @ [ch])"
  shows "\<exists>s' c' ev. display_step d ch c s = Some (s', c', ev) \<and> display_ok K st s'"
proof -
  let ?s = "upd_chan ch count_access s"
  let ?g = "guard_enter ch (Guard ?s)"
  have ok1: "display_ok K st ?s" using ok by (simp add: upd_access_ok)
  then have gok: "guard_ok (Guard ?s)" "guard_stack (Guard ?s) = st" by (simp_all add: display_ok_def)
  show ?thesis
  proof (cases "is_shutdown s \<or> \<not> Enabled (Chan ?s ch)")
    case True
    with ok ok1 show ?thesis by (auto simp: display_step_def Let_def)
  next
    case run: False
    show ?thesis
    proof (cases "ch \<in> set st")
      case True
      with display_guard.enter_active [OF gok(1), of ch] display_guard.enter_stack [OF gok(1), of ch]
      have "\<not> snd ?g" "guard_ok (fst ?g)" "guard_stack (fst ?g) = st" by (simp_all add: gok(2))
      with run ok1 show ?thesis
        by (auto simp: display_step_def Let_def case_prod_beta guard_leave_def display_ok_def)
    next
      case False
      let ?s2 = "?s\<lparr>Guard := fst ?g\<rparr>"
      from False display_guard.enter_active [OF gok(1), of ch] display_guard.enter_stack [OF gok(1), of ch]
      have act: "snd ?g" and g: "guard_ok (fst ?g)" "guard_stack (fst ?g) = st @ [ch]"
        by (simp_all add: gok(2))
      with ok1 have ok2: "display_ok K (st @ [ch]) ?s2" by (simp add: display_ok_def)
      obtain s3 c3 ev where body: "display_body d ch c ?s2 = Some (s3, c3, ev)"
        and ok3: "display_ok K (st @ [ch]) s3"
      proof (cases "ch < K")
        case True
        with display_body_total [OF inner [OF True False] ok2] that show ?thesis by blast
      next
        case leaf: False
        then have "leaf (Chan ?s2 ch)" using ok2 by (simp add: display_ok_def)
        with display_body_leaf [of ?s2 ch d c] that ok2 show ?thesis by blast
      qed
      have "display_ok K st (s3\<lparr>Guard := guard_leave True (Guard s3)\<rparr>)"
        using ok3 display_guard.leave_stack [of "Guard s3" True] by (simp add: display_ok_def)
      with run act body show ?thesis by (simp add: display_step_def Let_def case_prod_beta)
    qed
  qed
qed

lemma Display_total:
  "free_channels K st + 2 \<le> n \<Longrightarrow> total_at (Display n) K st"
proof (induction n arbitrary: st)
  case (Suc n)
  show ?case
    unfolding total_at_def Display.simps
  proof (intro allI impI)
    fix ch c s assume ok: "display_ok K st s"
    show "\<exists>s' c' ev. display_step (Display n) ch c s = Some (s', c', ev) \<and> display_ok K st s'"
    proof (rule display_step_total [OF ok])
      assume "ch < K" "ch \<notin> set st"
      with Suc.prems have "free_channels K (st @ [ch]) + 2 \<le> n" by (simp add: free_channels_push)
      then show "total_at (Display n) K (st @ [ch])" by (rule Suc.IH)
    qed
  qed
qed simp

lemma free_channels_le: "free_channels K st \<le> K"
proof -
  have "card ({..<K} - set st) \<le> card {..<K}" by (intro card_mono) auto
  then show ?thesis by (simp add: free_channels_def)
qed

text \<open>More fuel gives the same result.\<close>

definition extends_fun :: "display_fun \<Rightarrow> display_fun \<Rightarrow> bool" where
  "extends_fun d d' \<longleftrightarrow> (\<forall>ch c s r. d ch c s = Some r \<longrightarrow> d' ch c s = Some r)"

lemma extends_funD: "extends_fun d d' \<Longrightarrow> d ch c s = Some r \<Longrightarrow> d' ch c s = Some r"
  unfolding extends_fun_def by blast

lemma run_calls_mono:
  "extends_fun d d' \<Longrightarrow> run_calls d cs s = Some r \<Longrightarrow> run_calls d' cs s = Some r"
proof (induction cs arbitrary: s r)
  case (Cons p cs)
  obtain ch c where p: "p = (ch, c)" by (cases p)
  with Cons.prems obtain s1 c1 ev1 s2 ev2 where
    *: "d ch c s = Some (s1, c1, ev1)" "run_calls d cs s1 = Some (s2, ev2)" "r = (s2, ev1 @ ev2)"
    by (auto split: option.splits)
  from Cons.IH [OF Cons.prems(1) *(2)] extends_funD [OF Cons.prems(1) *(1)] *(3) p
  show ?case by simp
qed simp

lemma show_backends_mono:
  "extends_fun d d' \<Longrightarrow> show_backends d ch ps c s = Some r \<Longrightarrow> show_backends d' ch ps c s = Some r"
proof (induction ps arbitrary: s r)
  case (Cons p ps)
  show ?case
  proof (cases "Freezed p")
    case False
    with Cons.prems obtain s1 ev1 s2 ev2 where
      *: "run_calls d (Calls p) s = Some (s1, ev1)" "show_backends d ch ps c s1 = Some (s2, ev2)"
        "r = (s2, Shown ch (BackendId p) c # ev1 @ ev2)"
      by (auto split: option.splits)
    from Cons.IH [OF Cons.prems(1) *(2)] run_calls_mono [OF Cons.prems(1) *(1)] *(3) False
    show ?thesis by simp
  qed (use Cons in simp)
qed simp

lemma display_link_mono:
  "extends_fun d d' \<Longrightarrow> display_link d ch flags c s = Some r \<Longrightarrow> display_link d' ch flags c s = Some r"
  by (auto simp: display_link_def dest: extends_funD split: if_splits prod.splits option.splits)

lemma display_body_mono:
  assumes "extends_fun d d'" and "display_body d ch c s = Some r"
  shows "display_body d' ch c s = Some r"
proof -
  obtain c1 pass where f: "apply_filter s ch c = (c1, pass)" by (cases "apply_filter s ch c")
  show ?thesis
  proof (cases "pass \<and> \<not> ErrorLevel c1 < effective_level s ch c1")
    case True
    with assms(2) f obtain s2 c2 ev2 s3 ev3 where
      *: "display_link d ch (effective_flags s ch c1) c1 s = Some (s2, c2, ev2)"
        "show_backends d ch (Backends (Chan s2 ch)) c2 s2 = Some (s3, ev3)" "r = (s3, c2, ev2 @ ev3)"
      by (auto simp: display_body_def Let_def split: option.splits)
    from display_link_mono [OF assms(1) *(1)] show_backends_mono [OF assms(1) *(2)] *(3) True f
    show ?thesis by (simp add: display_body_def)
  next
    case False
    with assms(2) f show ?thesis by (auto simp: display_body_def Let_def)
  qed
qed

lemma display_step_mono:
  assumes "extends_fun d d'" and "display_step d ch c s = Some r"
  shows "display_step d' ch c s = Some r"
proof -
  have "display_body d' ch' c' s' = Some q" if "display_body d ch' c' s' = Some q" for ch' c' s' q
    using display_body_mono [OF assms(1) that] .
  with assms(2) show ?thesis
    by (auto simp: display_step_def Let_def split: if_splits prod.splits option.splits)
qed

lemma Display_mono_Suc: "extends_fun (Display n) (Display (Suc n))"
proof (induction n)
  case (Suc n)
  show ?case
    unfolding extends_fun_def
    by (intro allI impI) (simp only: Display.simps(2), erule display_step_mono [OF Suc.IH])
qed (simp add: extends_fun_def)

lemma Display_mono: "n \<le> m \<Longrightarrow> Display n ch c s = Some r \<Longrightarrow> Display m ch c s = Some r"
  by (induction m rule: dec_induct) (auto dest: extends_funD [OF Display_mono_Suc])

text \<open>Objects not made yet are blank.\<close>

definition logger_ok :: "logger \<Rightarrow> bool" where
  "logger_ok s \<longleftrightarrow> guard_ok (Guard s) \<and> (\<forall>ch \<ge> NextChan s. leaf (Chan s ch))"

text \<open>A result, the same for all fuel from the number of channels plus two on.\<close>

lemma display_result:
  assumes "logger_ok s"
  shows "\<exists>s' c' ev. (\<forall>n \<ge> NextChan s + 2. Display n ch c s = Some (s', c', ev)) \<and>
     guard_stack (Guard s') = guard_stack (Guard s) \<and> guard_ok (Guard s')"
proof -
  let ?st = "guard_stack (Guard s)"
  have "total_at (Display (NextChan s + 2)) (NextChan s) ?st"
    by (rule Display_total) (use free_channels_le [of "NextChan s" ?st] in simp)
  moreover have "display_ok (NextChan s) ?st s" using assms by (simp add: display_ok_def logger_ok_def)
  ultimately obtain s' c' ev where
    r: "Display (NextChan s + 2) ch c s = Some (s', c', ev)" "display_ok (NextChan s) ?st s'"
    unfolding total_at_def by blast
  from Display_mono [OF _ r(1)] r(2) show ?thesis by (auto simp: display_ok_def)
qed

text \<open>C8. Displaying a record always ends, however channels are linked and whatever their
  backends log in turn: with fuel of the number of channels plus two there is a result, more
  fuel gives the same one, and the thread's guard stack is as it was before.\<close>

theorem display_terminates:
  assumes "logger_ok s"
  shows "\<exists>s' c' ev. (\<forall>n \<ge> NextChan s + 2. Display n ch c s = Some (s', c', ev)) \<and>
     guard_stack (Guard s') = guard_stack (Guard s) \<and> guard_ok (Guard s')"
  by (rule display_result [OF assms])

section \<open>No backend gets a record twice through links\<close>

fun shown :: "event list \<Rightarrow> (nat \<times> nat) list" where
  "shown [] = []"
| "shown (Applied ch fl # ev) = shown ev"
| "shown (Shown ch b c # ev) = (ch, b) # shown ev"

lemma shown_append [simp]: "shown (ev @ ev') = shown ev @ shown ev'"
  by (induction ev rule: shown.induct) auto

text \<open>Backends that log nothing themselves, each attached once.\<close>

definition quiet :: "logger \<Rightarrow> bool" where
  "quiet s \<longleftrightarrow> guard_ok (Guard s) \<and>
     (\<forall>ch. distinct (map BackendId (Backends (Chan s ch))) \<and> (\<forall>b \<in> set (Backends (Chan s ch)). Calls b = []))"

definition once_at :: "display_fun \<Rightarrow> bool" where
  "once_at d \<longleftrightarrow> (\<forall>ch c s s' c' ev. quiet s \<longrightarrow> d ch c s = Some (s', c', ev) \<longrightarrow>
     quiet s' \<and> guard_stack (Guard s') = guard_stack (Guard s) \<and>
     distinct (shown ev) \<and> fst ` set (shown ev) \<inter> set (guard_stack (Guard s)) = {})"

lemma show_backends_quiet:
  "\<forall>b \<in> set ps. Calls b = [] \<Longrightarrow>
     show_backends d ch ps c s =
       Some (s, map (\<lambda>b. Shown ch (BackendId b) c) (filter (\<lambda>b. \<not> Freezed b) ps))"
  by (induction ps) auto

lemma shown_backends: "shown (map (\<lambda>b. Shown ch (BackendId b) c) ps) = map (\<lambda>b. (ch, BackendId b)) ps"
  by (induction ps) auto

lemma GetChannel_quiet:
  assumes "quiet s"
  shows "quiet (fst (GetChannel name s)) \<and> Guard (fst (GetChannel name s)) = Guard s"
  using assms
  by (auto simp: GetChannel_def CreateChannelInternal_def quiet_def new_channel_def Let_def
      split: option.split)

lemma display_link_once:
  assumes d: "once_at d" and q: "quiet s" and r: "display_link d ch flags c s = Some (s', c', ev)"
  shows "quiet s' \<and> guard_stack (Guard s') = guard_stack (Guard s) \<and>
     distinct (shown ev) \<and> fst ` set (shown ev) \<inter> set (guard_stack (Guard s)) = {}"
proof -
  let ?r = "case LinkTo (Chan s ch) of Some pch \<Rightarrow> (s, Some pch)
      | None \<Rightarrow> GetChannel (the (Link (Chan s ch))) s"
  have q1: "quiet (fst ?r)" "Guard (fst ?r) = Guard s"
    using q GetChannel_quiet [OF q] by (simp_all split: option.split)
  obtain s1 t where t: "?r = (s1, t)" by (cases ?r)
  show ?thesis
  proof (cases "(Link (Chan s ch) \<noteq> None \<or> LinkTo (Chan s ch) \<noteq> None) \<and> flag DisableLink flags = 0")
    case True
    show ?thesis
    proof (cases t)
      case None
      with True r t q1 show ?thesis by (auto simp: display_link_def)
    next
      case (Some to)
      with True r t obtain ev1 where "d to c s1 = Some (s', c', ev1)" "ev = Applied ch flags # ev1"
        by (auto simp: display_link_def split: option.splits)
      with d q1 t show ?thesis unfolding once_at_def by fastforce
    qed
  next
    case False
    with r q show ?thesis by (auto simp: display_link_def)
  qed
qed

lemma display_body_once:
  assumes d: "once_at d" and q: "quiet s" and top: "guard_stack (Guard s) = st @ [ch]"
    and r: "display_body d ch c s = Some (s', c', ev)"
  shows "quiet s' \<and> guard_stack (Guard s') = st @ [ch] \<and>
     distinct (shown ev) \<and> fst ` set (shown ev) \<inter> set st = {}"
proof -
  obtain c1 pass where f: "apply_filter s ch c = (c1, pass)" by (cases "apply_filter s ch c")
  show ?thesis
  proof (cases "pass \<and> \<not> ErrorLevel c1 < effective_level s ch c1")
    case True
    with r f obtain s2 c2 ev2 s3 ev3 where
      l: "display_link d ch (effective_flags s ch c1) c1 s = Some (s2, c2, ev2)" and
      b: "show_backends d ch (Backends (Chan s2 ch)) c2 s2 = Some (s3, ev3)" and
      res: "s' = s3" "ev = ev2 @ ev3"
      by (auto simp: display_body_def Let_def split: option.splits)
    let ?own = "filter (\<lambda>b. \<not> Freezed b) (Backends (Chan s2 ch))"
    note once = display_link_once [OF d q l]
    then have q2: "quiet s2" by simp
    then have "s3 = s2" "shown ev3 = map (\<lambda>b. (ch, BackendId b)) ?own"
      using b show_backends_quiet [of "Backends (Chan s2 ch)" d ch c2 s2]
      by (auto simp: quiet_def shown_backends)
    moreover from q2 have "distinct (map BackendId ?own)"
      by (simp add: quiet_def distinct_map_filter)
    then have "distinct (map (\<lambda>b. (ch, BackendId b)) ?own)"
      by (auto simp: distinct_map inj_on_def)
    moreover have "ch \<notin> set st"
      using q top by (auto simp: quiet_def guard_ok_def)
    moreover have "(ch, b) \<notin> set (shown ev2)" for b
      using once top by (force simp: disjoint_iff)
    ultimately show ?thesis using once res top by (auto simp: top)
  next
    case False
    with r f have "s' = s" "ev = []" by (auto simp: display_body_def Let_def split: if_splits)
    with q top show ?thesis by simp
  qed
qed

lemma display_step_once:
  assumes d: "once_at d" and q: "quiet s" and r: "display_step d ch c s = Some (s', c', ev)"
  shows "quiet s' \<and> guard_stack (Guard s') = guard_stack (Guard s) \<and>
     distinct (shown ev) \<and> fst ` set (shown ev) \<inter> set (guard_stack (Guard s)) = {}"
proof -
  let ?s = "upd_chan ch count_access s"
  let ?g = "guard_enter ch (Guard ?s)"
  have q1: "quiet ?s" and gs: "Guard ?s = Guard s"
    using q by (auto simp: quiet_def upd_chan_def count_access_def)
  then have gok: "guard_ok (Guard ?s)" by (simp add: quiet_def)
  show ?thesis
  proof (cases "is_shutdown s \<or> \<not> Enabled (Chan ?s ch)")
    case True
    with r q q1 gs show ?thesis by (auto simp: display_step_def Let_def split: if_splits)
  next
    case run: False
    show ?thesis
    proof (cases "ch \<in> set (guard_stack (Guard ?s))")
      case True
      with display_guard.enter_active [OF gok, of ch] display_guard.enter_stack [OF gok, of ch]
      have "\<not> snd ?g" "guard_ok (fst ?g)" "guard_stack (fst ?g) = guard_stack (Guard ?s)" by simp_all
      with run r q1 gs show ?thesis
        by (auto simp: display_step_def Let_def case_prod_beta guard_leave_def quiet_def)
    next
      case False
      let ?s2 = "?s\<lparr>Guard := fst ?g\<rparr>"
      from False display_guard.enter_active [OF gok, of ch] display_guard.enter_stack [OF gok, of ch]
      have act: "snd ?g" and g: "guard_ok (fst ?g)" "guard_stack (fst ?g) = guard_stack (Guard ?s) @ [ch]"
        by simp_all
      with q1 have q2: "quiet ?s2" by (simp add: quiet_def)
      from r run act obtain s3 where
        body: "display_body d ch c ?s2 = Some (s3, c', ev)"
        and s': "s' = s3\<lparr>Guard := guard_leave True (Guard s3)\<rparr>"
        by (auto simp: display_step_def Let_def case_prod_beta split: option.splits)
      note once = display_body_once [OF d q2 _ body, of "guard_stack (Guard ?s)"]
      then have "guard_stack (Guard s3) = guard_stack (Guard ?s) @ [ch]" "quiet s3"
        using g by simp_all
      then have "quiet s'" "guard_stack (Guard s') = guard_stack (Guard ?s)"
        using display_guard.leave_stack [of "Guard s3" True] s' by (auto simp: quiet_def)
      with once g gs show ?thesis by simp
    qed
  qed
qed

lemma Display_once: "once_at (Display n)"
proof (induction n)
  case (Suc n)
  show ?case unfolding once_at_def Display.simps using display_step_once [OF Suc] by blast
qed (simp add: once_at_def)


section \<open>The channel's own invariant and the early test\<close>

definition channel_ok :: "channel \<Rightarrow> bool" where
  "channel_ok c \<longleftrightarrow> BackendCount c = length (Backends c) \<and>
     (Linked c \<longleftrightarrow> Link c \<noteq> None \<or> LinkTo c \<noteq> None) \<and>
     (Active c \<longleftrightarrow> Linked c \<or> Enabled c \<and> Backends c \<noteq> []) \<and>
     distinct (map BackendId (Backends c))"

datatype chan_op =
  OpAddLinkId string | OpAddLinkPtr bool nat | OpRemoveLink | OpSetEnabled bool
| OpSetFilterLevel level | OpSetFlags u32 | OpAddLoggedBytes u64 | OpFreeze | OpRemoveBackends
| OpRemoveBackend nat | OpAddBackend bool backend

fun chan_exec :: "chan_op \<Rightarrow> channel \<Rightarrow> channel" where
  "chan_exec (OpAddLinkId to) = AddLinkId to"
| "chan_exec (OpAddLinkPtr sd to) = AddLinkPtr sd to"
| "chan_exec OpRemoveLink = RemoveLink"
| "chan_exec (OpSetEnabled b) = SetEnabled b"
| "chan_exec (OpSetFilterLevel l) = SetFilterLevel l"
| "chan_exec (OpSetFlags f) = SetFlags f"
| "chan_exec (OpAddLoggedBytes n) = AddLoggedBytes n"
| "chan_exec OpFreeze = Freeze"
| "chan_exec OpRemoveBackends = RemoveBackends"
| "chan_exec (OpRemoveBackend bid) = (\<lambda>c. fst (RemoveBackend bid c))"
| "chan_exec (OpAddBackend sd b) = AddBackend sd b"

lemma remove_first_ids:
  "remove_first bid bs = Some (p, rest) \<Longrightarrow>
     BackendId p = bid \<and> Freezed p \<and>
     (\<exists>xs b ys. bs = xs @ b # ys \<and> rest = xs @ ys \<and> BackendId b = bid \<and> bid \<notin> BackendId ` set xs)"
proof (induction bs arbitrary: p rest)
  case (Cons b bs)
  show ?case
  proof (cases "BackendId b = bid")
    case True
    with Cons.prems show ?thesis by (intro conjI exI [of _ "[]"]) auto
  next
    case False
    with Cons.prems obtain r where r: "remove_first bid bs = Some (p, r)" "rest = b # r" by auto
    from Cons.IH [OF r(1)] obtain xs x ys where
      "BackendId p = bid" "Freezed p" "bs = xs @ x # ys" "r = xs @ ys" "BackendId x = bid"
      "bid \<notin> BackendId ` set xs" by blast
    with r(2) False show ?thesis by (intro conjI exI [of _ "b # xs"]) auto
  qed
qed simp

lemma chan_exec_ok: "channel_ok c \<Longrightarrow> channel_ok (chan_exec op c)"
proof (cases op)
  case (OpRemoveBackend bid)
  assume ok: "channel_ok c"
  show ?thesis
  proof (cases "remove_first bid (Backends c)")
    case None
    with ok OpRemoveBackend show ?thesis by (simp add: RemoveBackend_def)
  next
    case (Some pr)
    obtain p rest where pr: "pr = (p, rest)" by (cases pr)
    with remove_first_ids Some ok have "distinct (map BackendId rest)"
      by (fastforce simp: channel_ok_def)
    with ok OpRemoveBackend Some pr show ?thesis
      by (simp add: RemoveBackend_def UpdateActive_def channel_ok_def)
  qed
qed (auto simp: channel_ok_def UpdateActive_def AddLinkId_def AddLinkPtr_def RemoveLink_def
    SetEnabled_def SetFilterLevel_def SetFlags_def AddLoggedBytes_def Freeze_def RemoveBackends_def
    AddBackend_def Let_def comp_def)

text \<open>The \<open>Active\<close> flag a caller reads without the lock is right after any sequence of
  operations on the channel: linked, or enabled with at least one backend; the count is that
  of the backends, none of which is attached twice.\<close>

theorem channel_active_invariant:
  "let c = fold chan_exec ops (new_channel name flags level) in
     (Active c \<longleftrightarrow> Linked c \<or> Enabled c \<and> Backends c \<noteq> []) \<and>
     (Linked c \<longleftrightarrow> (Link c, LinkTo c) \<noteq> (None, None)) \<and>
     BackendCount c = length (Backends c) \<and> distinct (map BackendId (Backends c))"
proof -
  have "channel_ok c \<Longrightarrow> channel_ok (fold chan_exec ops c)" for c
    by (induction ops arbitrary: c) (auto simp: chan_exec_ok)
  moreover have "channel_ok (new_channel name flags level)"
    by (simp add: channel_ok_def new_channel_def)
  ultimately show ?thesis by (auto simp: channel_ok_def Let_def)
qed

lemma inactive_no_output:
  assumes wf: "subsys_wf (Subsys s)" and ok: "channel_ok (Chan s ch)" and en: "Enabled (Chan s ch)"
    and nf: "DisplayFilter (Chan s ch) = None" and off: "\<not> IsOutputActive s c (Chan s ch)"
    and r: "display_body d ch c s = Some (s', c', ev)"
  shows "ev = []"
proof (cases "Active (Chan s ch)")
  case True
  with off have lvl: "ErrorLevel c < LevelFilter (Chan s ch)"
    and "CtxSubsystem c = 0 \<or> \<not> HasSubsystemLevelOverrides (Subsys s)"
    by (auto simp: IsOutputActive_def split: if_splits)
  then have "GetSubsystemLevel (CtxSubsystem c) (Subsys s) = None"
    by (auto simp: GetSubsystemLevel_def HasSubsystemLevelOverrides_def split: option.split)
  with lvl nf r show ?thesis by (simp add: display_body_def apply_filter_def effective_level_def)
next
  case False
  with ok en have "leaf (Chan s ch)" by (auto simp: channel_ok_def leaf_def)
  with display_body_leaf [of s ch d c] r show ?thesis by auto
qed

text \<open>The early test in front of formatting is sound: a record \<open>IsOutputActive\<close> rejects would
  have reached no backend, as long as the channel has no display filter (which could raise the
  record's level).\<close>

theorem early_test_sound:
  assumes "subsys_wf (Subsys s)" and "channel_ok (Chan s ch)" and "DisplayFilter (Chan s ch) = None"
    and "\<not> IsOutputActive s c (Chan s ch)" and "Display n ch c s = Some (s', c', ev)"
  shows "ev = []"
proof -
  obtain m where n: "n = Suc m" using assms(5) by (cases n) auto
  let ?s = "upd_chan ch count_access s"
  let ?s2 = "?s\<lparr>Guard := fst (guard_enter ch (Guard ?s))\<rparr>"
  have body: "ev' = []" if "Enabled (Chan s ch)" and "display_body (Display m) ch c ?s2 = Some (r, c1, ev')"
    for r c1 ev'
    by (rule inactive_no_output [OF _ _ _ _ _ that(2)])
       (use assms that(1) in \<open>auto simp: upd_chan_def count_access_def channel_ok_def IsOutputActive_def\<close>)
  have "Enabled (Chan ?s ch) = Enabled (Chan s ch)" by (simp add: upd_chan_def count_access_def)
  with assms(5) n body show ?thesis
    by (auto simp: display_step_def Let_def case_prod_beta split: if_splits option.splits)
qed

section \<open>Two channels linked in a cycle\<close>

text \<open>Two channels linked to each other, each with one backend; a record of level \<open>LEVEL_INFO\<close>.\<close>

definition demo_backend :: "nat \<Rightarrow> backend" where
  "demo_backend bid = \<lparr>BackendId = bid, BackendType = ''Buffer'', Freezed = False,
     BackendIdle = True, Calls = []\<rparr>"

definition demo_channel :: "string \<Rightarrow> nat \<Rightarrow> nat \<Rightarrow> channel" where
  "demo_channel name to bid =
     AddBackend False (demo_backend bid) (AddLinkPtr False to (new_channel name 0 LEVEL_INFO))"

definition demo_logger :: logger where
  "demo_logger = \<lparr>Subsys = subsys_init, Guard = guard_init,
     Chan = (\<lambda>_. blank_channel)(0 := demo_channel ''d'' 1 10, 1 := demo_channel ''e'' 0 11),
     NextChan = 2, ChannelMap = [''d'' \<mapsto> 0, ''e'' \<mapsto> 1], Default = None, ToDelete = [],
     NumDeleting = 0, LastDoAutodelete = 0, IDGenerator = 1\<rparr>"

definition demo_ctx :: "level \<Rightarrow> ctx" where
  "demo_ctx l = \<lparr>ErrorLevel = l, CtxSubsystem = 0, Ovr = None, CtxText = ''x''\<rparr>"

lemmas demo_defs = demo_logger_def demo_channel_def demo_backend_def new_channel_def blank_channel_def
  AddLinkPtr_def AddBackend_def UpdateActive_def

lemma demo_ok: "logger_ok demo_logger" "quiet demo_logger"
  using guard_init_ok by (simp_all add: logger_ok_def quiet_def demo_defs leaf_def Let_def)

lemma demo_run:
  "\<exists>s'. Display 4 0 (demo_ctx LEVEL_INFO) demo_logger =
     Some (s', demo_ctx LEVEL_INFO, [Applied 0 0, Applied 1 0, Shown 1 11 (demo_ctx LEVEL_INFO),
       Shown 0 10 (demo_ctx LEVEL_INFO)])"
  by (simp add: eval_nat_numeral display_step_def display_body_def display_link_def is_shutdown_def
      demo_defs upd_chan_def count_access_def apply_filter_def effective_level_def effective_flags_def
      guard_enter_def guard_leave_def guard_init_def SMALL_CAPACITY_def GetSubsystemLevel_def
      demo_ctx_def level_order subsys_init_def flag_def get_field_def Let_def)

lemma demo_returns: "\<exists>s' c' ev. Display 4 0 (demo_ctx l) demo_logger = Some (s', c', ev)"
proof -
  have "NextChan demo_logger = 2" by (simp add: demo_logger_def)
  then have "total_at (Display 4) (NextChan demo_logger) []"
    by (intro Display_total) (use free_channels_le [of 2 "[]"] in simp)
  moreover have "display_ok (NextChan demo_logger) [] demo_logger"
    using demo_ok(1) guard_init_ok by (simp add: display_ok_def logger_ok_def demo_logger_def)
  ultimately show ?thesis unfolding total_at_def by blast
qed

theorem display_terminates_witness:
  "\<exists>s' c' ev. Display 4 0 (demo_ctx LEVEL_INFO) demo_logger = Some (s', c', ev) \<and>
     guard_stack (Guard s') = []"
proof -
  have "NextChan demo_logger + 2 \<le> 4" "guard_stack (Guard demo_logger) = []"
    using guard_init_ok by (simp_all add: demo_logger_def)
  with display_terminates [OF demo_ok(1), of 0 "demo_ctx LEVEL_INFO"] show ?thesis by metis
qed


theorem early_test_sound_witness:
  "\<exists>s' c'. Display 4 0 (demo_ctx LEVEL_DEBUG) demo_logger = Some (s', c', [])"
proof -
  obtain s' c' ev where r: "Display 4 0 (demo_ctx LEVEL_DEBUG) demo_logger = Some (s', c', ev)"
    using demo_returns by blast
  have "subsys_wf (Subsys demo_logger)" using subsys_init_wf by (simp add: demo_logger_def)
  moreover have "channel_ok (Chan demo_logger 0)"
    by (simp add: demo_defs channel_ok_def Let_def)
  moreover have "DisplayFilter (Chan demo_logger 0) = None" by (simp add: demo_defs Let_def)
  moreover have "\<not> IsOutputActive demo_logger (demo_ctx LEVEL_DEBUG) (Chan demo_logger 0)"
    by (simp add: IsOutputActive_def demo_ctx_def demo_defs level_order Let_def)
  ultimately show ?thesis using early_test_sound [OF _ _ _ _ r] r by auto
qed

end
