(* ===== verification/Channel_Text.thy ===== *)
theory Channel_Text
  imports Channels
begin

text \<open>
  The texts a channel rewrites (\<open>Channel.cpp\<close>): prefix shorteners for method and file names,
  and the names of threads with their transitions. The shortener returns a pointer: into its
  argument, to the context's static buffer, or to its heap buffer; \<open>place\<close> says which, with the
  text found there. Lemmas: the result is the argument with the first matching prefix replaced,
  the static buffer never overflows, and a text already rewritten is left alone.
\<close>

section \<open>Shorteners\<close>

definition STATIC_BUFFER_SIZE :: nat where
  "STATIC_BUFFER_SIZE = 256"

datatype place = InArgument | InStatic | InHeap

record shortener_ctx =
  StaticBuffer :: string
  HeapBuffer :: "string option"

text \<open>Storing a rewritten text: in the static buffer when it fits with its terminator.\<close>

definition store_text :: "string \<Rightarrow> shortener_ctx \<Rightarrow> shortener_ctx \<times> place \<times> string" where
  "store_text txt context =
     (if length txt < STATIC_BUFFER_SIZE then (context\<lparr>StaticBuffer := txt\<rparr>, InStatic, txt)
      else (context\<lparr>HeapBuffer := Some txt\<rparr>, InHeap, txt))"

fun run_pairs ::
  "(string \<times> string) list \<Rightarrow> string \<Rightarrow> shortener_ctx \<Rightarrow> shortener_ctx \<times> place \<times> string" where
  "run_pairs [] value context = (context, InArgument, value)"
| "run_pairs ((SerachFor, ReplaceOn) # pairs) value context =
     (if length value < length SerachFor then run_pairs pairs value context
      else if take (length SerachFor) value \<noteq> SerachFor then run_pairs pairs value context
      else if length ReplaceOn = 0 then (context, InArgument, drop (length SerachFor) value)
      else store_text (ReplaceOn @ drop (length SerachFor) value) context)"

definition ShortenerPairRun ::
  "place \<Rightarrow> string \<Rightarrow> shortener_ctx \<Rightarrow> (string \<times> string) list \<Rightarrow> shortener_ctx \<times> place \<times> string" where
  "ShortenerPairRun pl value context pairs =
     (if pl = InStatic then (context, pl, value)
      else if pl = InHeap then (context, pl, value)
      else run_pairs pairs value context)"

text \<open>The overload with an override.\<close>

definition ShortenerRunOverride ::
  "place \<Rightarrow> string \<Rightarrow> shortener_ctx \<Rightarrow> override \<Rightarrow> shortener_ctx \<times> place \<times> string" where
  "ShortenerRunOverride pl value context ovr =
     (case Shortener ovr of
        None \<Rightarrow> (context, pl, value)
      | Some pairs \<Rightarrow> ShortenerPairRun pl value context pairs)"

text \<open>
  The overload of the channel: the static table, then, when nothing was stored, the map. The
  map is the list of its entries in key order; the loop is that of the table.
\<close>

definition ShortenerRun ::
  "(string \<times> string) list option \<Rightarrow> (string \<times> string) list \<Rightarrow>
   place \<Rightarrow> string \<Rightarrow> shortener_ctx \<Rightarrow> shortener_ctx \<times> place \<times> string" where
  "ShortenerRun ShortenerList ShortenerMap pl value context =
     (let (context, pl, value) =
            (case ShortenerList of
               None \<Rightarrow> (context, pl, value)
             | Some pairs \<Rightarrow> ShortenerPairRun pl value context pairs)
      in if pl = InStatic then (context, pl, value)
         else if pl = InHeap then (context, pl, value)
         else run_pairs ShortenerMap value context)"

text \<open>\<open>ShortenerAdd\<close> on the map, kept in key order; \<open>None\<close> is a null replacement.\<close>

fun map_assign :: "string \<Rightarrow> string \<Rightarrow> (string \<times> string) list \<Rightarrow> (string \<times> string) list" where
  "map_assign k v [] = [(k, v)]"
| "map_assign k v ((k', v') # m) =
     (if k < k' then (k, v) # (k', v') # m
      else if k = k' then (k, v) # m
      else (k', v') # map_assign k v m)"

definition ShortenerAdd ::
  "string \<Rightarrow> string option \<Rightarrow> (string \<times> string) list \<Rightarrow> (string \<times> string) list" where
  "ShortenerAdd what replace_on m =
     (case map_of m what of
        Some _ \<Rightarrow> (case replace_on of
                     Some r \<Rightarrow> map_assign what r m
                   | None \<Rightarrow> filter (\<lambda>e. fst e \<noteq> what) m)
      | None \<Rightarrow> (case replace_on of Some r \<Rightarrow> map_assign what r m | None \<Rightarrow> m))"

text \<open>The reference: the first entry whose key is a prefix.\<close>

definition shorten :: "(string \<times> string) list \<Rightarrow> string \<Rightarrow> string" where
  "shorten pairs value =
     (case find (\<lambda>e. prefix (fst e) value) pairs of
        None \<Rightarrow> value
      | Some (k, r) \<Rightarrow> r @ drop (length k) value)"

lemma prefix_take: "prefix k v \<longleftrightarrow> length k \<le> length v \<and> take (length k) v = k"
  by (metis append_eq_conv_conj append_take_drop_id prefix_def prefix_length_le take_is_prefix)

text \<open>The pointer is good: what it points at is what the place holds.\<close>

definition good_place :: "shortener_ctx \<times> place \<times> string \<Rightarrow> bool" where
  "good_place r \<longleftrightarrow>
     (case r of (context, pl, txt) \<Rightarrow>
        (pl = InStatic \<longrightarrow> StaticBuffer context = txt \<and> length txt < STATIC_BUFFER_SIZE) \<and>
        (pl = InHeap \<longrightarrow> HeapBuffer context = Some txt))"

lemma run_pairs_shorten:
  "snd (snd (run_pairs pairs value context)) = shorten pairs value \<and>
   good_place (run_pairs pairs value context)"
proof (induction pairs "value" "context" rule: run_pairs.induct)
  case (2 k r pairs val cx)
  then show ?case
    by (auto simp: shorten_def prefix_take store_text_def good_place_def)
qed (simp add: shorten_def good_place_def)

text \<open>A channel's shortener returns the text with the first matching prefix replaced, first
  from the static table and, unless that stored a new text, from the map; the pointer it
  returns is valid and the 256-byte buffer is never overrun.\<close>

theorem shortener_result:
  "let r = ShortenerRun list m InArgument value context;
       first = (case list of None \<Rightarrow> value | Some pairs \<Rightarrow> shorten pairs value);
       stored = (\<exists>pairs. list = Some pairs \<and> fst (snd (run_pairs pairs value context)) \<noteq> InArgument)
   in snd (snd r) = (if stored then first else shorten m first) \<and> good_place r"
proof (cases list)
  case None
  then show ?thesis
    using run_pairs_shorten [of m "value" "context"] by (simp add: ShortenerRun_def Let_def)
next
  case (Some pairs)
  obtain c pl v where r: "run_pairs pairs value context = (c, pl, v)" by (cases "run_pairs pairs value context")
  with run_pairs_shorten [of pairs "value" "context"] run_pairs_shorten [of m v c] Some
  show ?thesis
    by (cases pl) (auto simp: ShortenerRun_def ShortenerPairRun_def Let_def)
qed

section \<open>Thread names\<close>

definition hex_char :: "nat \<Rightarrow> char" where
  "hex_char n = (if n < 10 then digit_char n else char_of (55 + n))"

text \<open>\<open>%X\<close> of an unsigned 64-bit number.\<close>

fun show_hex :: "nat \<Rightarrow> string" where
  "show_hex n = (if n < 16 then [hex_char n] else show_hex (n div 16) @ [hex_char (n mod 16)])"

declare show_hex.simps [simp del]

text \<open>\<open>forward\<close> is the address of the flag a \<open>ThreadName\<close> object watches.\<close>

definition SetThreadName ::
  "u64 \<Rightarrow> string option \<Rightarrow> bool \<Rightarrow> nat option \<Rightarrow> (u64 \<rightharpoonup> thread_name) \<Rightarrow> (u64 \<rightharpoonup> thread_name)" where
  "SetThreadName tid name log forward m =
     (case m tid of
        Some it \<Rightarrow>
          let it = (if log then it\<lparr>TPrev := TName it, TForward := forward\<rparr>
                    else it\<lparr>TPrev := None, TForward := None\<rparr>)
          in (case name of
                Some n \<Rightarrow> m(tid \<mapsto> it\<lparr>TName := Some n\<rparr>)
              | None \<Rightarrow> if \<not> log then m(tid := None) else m(tid \<mapsto> it\<lparr>TName := None\<rparr>))
      | None \<Rightarrow>
          (case name of
             None \<Rightarrow> m
           | Some n \<Rightarrow>
               m(tid \<mapsto> (if log then \<lparr>TName = Some n, TPrev = Some (show_hex (unat tid)), TForward = forward\<rparr>
                         else \<lparr>TName = Some n, TPrev = None, TForward = None\<rparr>))))"

record thread_name_result =
  RName :: "string option"
  RTransition :: "string option"
  RForward :: "nat option"

definition GetThreadName ::
  "u64 \<Rightarrow> bool \<Rightarrow> bool \<Rightarrow> (u64 \<rightharpoonup> thread_name) \<Rightarrow> (u64 \<rightharpoonup> thread_name) \<times> thread_name_result" where
  "GetThreadName tid transition clear m =
     (let none = \<lparr>RName = None, RTransition = None, RForward = None\<rparr> in
      case m tid of
        None \<Rightarrow> (m, none)
      | Some it \<Rightarrow>
          if TName it = None \<and> TPrev it = None then (m(tid := None), none)
          else
            let r = (if transition
                     then none\<lparr>RTransition := TPrev it,
                               RForward := (if TPrev it \<noteq> None then TForward it else None)\<rparr>
                     else none);
                m = (if clear then m(tid \<mapsto> it\<lparr>TPrev := None, TForward := None\<rparr>) else m)
            in (m, r\<lparr>RName := TName it\<rparr>))"

text \<open>The \<open>ThreadName\<close> object: constructor (what it saves) and destructor without the closing record.\<close>

definition ThreadName_begin ::
  "u64 \<Rightarrow> string \<Rightarrow> bool \<Rightarrow> nat \<Rightarrow> (u64 \<rightharpoonup> thread_name) \<Rightarrow> (u64 \<rightharpoonup> thread_name) \<times> string option" where
  "ThreadName_begin tid name log forward m =
     (let (m, r) = GetThreadName tid False False m in
      (SetThreadName tid (Some name) log (Some forward) m, RName r))"

definition ThreadName_end ::
  "u64 \<Rightarrow> string option \<Rightarrow> bool \<Rightarrow> (u64 \<rightharpoonup> thread_name) \<Rightarrow> (u64 \<rightharpoonup> thread_name)" where
  "ThreadName_end tid PreviousName logReturn m = SetThreadName tid PreviousName logReturn None m"

definition name_of :: "u64 \<Rightarrow> (u64 \<rightharpoonup> thread_name) \<Rightarrow> string option" where
  "name_of tid m = (case m tid of None \<Rightarrow> None | Some it \<Rightarrow> TName it)"

lemma SetThreadName_name: "name_of tid (SetThreadName tid name log f m) = name"
  by (auto simp: SetThreadName_def name_of_def Let_def split: option.split)

lemma SetThreadName_other: "u \<noteq> tid \<Longrightarrow> SetThreadName tid name log f m u = m u"
  by (auto simp: SetThreadName_def Let_def split: option.split)

lemma GetThreadName_name:
  "RName (snd (GetThreadName tid tr cl m)) = name_of tid m \<and>
   name_of tid (fst (GetThreadName tid tr cl m)) = name_of tid m"
  by (auto simp: GetThreadName_def name_of_def Let_def split: option.split)

text \<open>A thread-name object gives the thread its name and puts the previous one back, however
  the transitions are logged or read in between; the change is reported once: reading with
  \<open>clear\<close> returns the previous name (the hexadecimal id for an unnamed thread) and reading again
  returns none.\<close>

theorem thread_name_scope:
  "let (m1, saved) = ThreadName_begin tid name log f m;
       (m2, r) = GetThreadName tid True True m1;
       r' = snd (GetThreadName tid True True m2)
   in RName r = Some name \<and> RName r' = Some name \<and> RTransition r' = None \<and>
      name_of tid (ThreadName_end tid saved ret m2) = name_of tid m \<and>
      RTransition r =
        (if \<not> log then None
         else if name_of tid m \<noteq> None then name_of tid m
         else if m tid = None then Some (show_hex (unat tid))
         else if TPrev (the (m tid)) = None then Some (show_hex (unat tid))
         else None)"
proof -
  note defs = ThreadName_begin_def ThreadName_end_def GetThreadName_def SetThreadName_def name_of_def
  show ?thesis
  proof (cases "m tid")
    case None
    then show ?thesis by (simp add: defs Let_def)
  next
    case (Some it)
    then show ?thesis
      by (cases it; cases "TName it"; cases "TPrev it"; cases log; cases ret)
         (simp_all add: defs Let_def)
  qed
qed

end
