(* ===== verification/Data_Buffers.thy ===== *)
theory Data_Buffers
  imports Prelude_Logme
begin

text \<open>
  The memory of the file backends: \<open>DataBuffer\<close> (\<open>Buffer/DataBuffer.cpp\<close>), the usage counters
  it reports to (\<open>MemoryUsageTracker.cpp\<close>) and the shared cache of spare buffers in
  \<open>FileManager\<close> (\<open>File/FileManager.cpp\<close>). A buffer's content is the bytes up to its size; its
  identity is a number. Usage counters are integers, so that the lemmas can say that they never
  go below zero. The locale \<open>buffer_cache\<close> is what a queue needs of a cache: a buffer taken
  belongs to the queue's tracker, one given back or refused belongs to nobody.
\<close>

section \<open>Buffers and usage counters\<close>

record data_buffer =
  BufId :: nat
  CapacityValue :: nat
  Content :: string
  FirstWriteTime :: u64
  SeenOnSoftFlush :: bool
  MemoryTracker :: "nat option"

record heap =
  NextBuf :: nat
  MemoryUsage :: "nat \<Rightarrow> int"

definition AddMemoryUsage :: "nat \<Rightarrow> nat \<Rightarrow> heap \<Rightarrow> heap" where
  "AddMemoryUsage tracker bytes h =
     h\<lparr>MemoryUsage := (MemoryUsage h)(tracker := MemoryUsage h tracker + int bytes)\<rparr>"

definition RemoveMemoryUsage :: "nat \<Rightarrow> nat \<Rightarrow> heap \<Rightarrow> heap" where
  "RemoveMemoryUsage tracker bytes h =
     h\<lparr>MemoryUsage := (MemoryUsage h)(tracker := MemoryUsage h tracker - int bytes)\<rparr>"

definition DataBuffer_new :: "nat \<Rightarrow> nat option \<Rightarrow> heap \<Rightarrow> heap \<times> data_buffer" where
  "DataBuffer_new capacity memoryTracker h =
     (let b = \<lparr>BufId = NextBuf h, CapacityValue = capacity, Content = [], FirstWriteTime = 0,
               SeenOnSoftFlush = False, MemoryTracker = memoryTracker\<rparr>;
          h = h\<lparr>NextBuf := NextBuf h + 1\<rparr>
      in case memoryTracker of
           None \<Rightarrow> (h, b)
         | Some t \<Rightarrow> (AddMemoryUsage t capacity h, b))"

definition DataBuffer_delete :: "data_buffer \<Rightarrow> heap \<Rightarrow> heap" where
  "DataBuffer_delete b h =
     (case MemoryTracker b of
        None \<Rightarrow> h
      | Some t \<Rightarrow> RemoveMemoryUsage t (CapacityValue b) h)"

definition Size :: "data_buffer \<Rightarrow> nat" where
  "Size b = length (Content b)"

definition Reset :: "data_buffer \<Rightarrow> data_buffer" where
  "Reset b = b\<lparr>Content := [], FirstWriteTime := 0, SeenOnSoftFlush := False\<rparr>"

definition AttachMemoryTracker :: "nat option \<Rightarrow> data_buffer \<Rightarrow> heap \<Rightarrow> heap \<times> data_buffer" where
  "AttachMemoryTracker memoryTracker b h =
     (if MemoryTracker b = memoryTracker then (h, b)
      else
        let h = (case MemoryTracker b of None \<Rightarrow> h | Some t \<Rightarrow> RemoveMemoryUsage t (CapacityValue b) h);
            b = b\<lparr>MemoryTracker := memoryTracker\<rparr>
        in case memoryTracker of
             None \<Rightarrow> (h, b)
           | Some t \<Rightarrow> (AddMemoryUsage t (CapacityValue b) h, b))"

definition DetachMemoryTracker :: "data_buffer \<Rightarrow> heap \<Rightarrow> heap \<times> data_buffer" where
  "DetachMemoryTracker b h =
     (case MemoryTracker b of None \<Rightarrow> h | Some t \<Rightarrow> RemoveMemoryUsage t (CapacityValue b) h,
      b\<lparr>MemoryTracker := None\<rparr>)"

definition CanAppend :: "nat \<Rightarrow> data_buffer \<Rightarrow> bool" where
  "CanAppend cb b \<longleftrightarrow> cb \<le> CapacityValue b - Size b"

definition AppendBytes :: "string \<Rightarrow> data_buffer \<Rightarrow> data_buffer" where
  "AppendBytes p b = b\<lparr>Content := Content b @ p\<rparr>"

definition SetFirstWriteTime :: "u64 \<Rightarrow> data_buffer \<Rightarrow> data_buffer" where
  "SetFirstWriteTime value b = b\<lparr>FirstWriteTime := value\<rparr>"

definition SetSeenOnSoftFlush :: "bool \<Rightarrow> data_buffer \<Rightarrow> data_buffer" where
  "SetSeenOnSoftFlush value b = b\<lparr>SeenOnSoftFlush := value\<rparr>"

text \<open>The usage a tracker owes to a list of buffers.\<close>

definition owed :: "nat \<Rightarrow> data_buffer list \<Rightarrow> int" where
  "owed t bs = (\<Sum>b\<leftarrow>bs. if MemoryTracker b = Some t then int (CapacityValue b) else 0)"

lemma owed_simps [simp]:
  "owed t [] = 0"
  "owed t (b # bs) = (if MemoryTracker b = Some t then int (CapacityValue b) else 0) + owed t bs"
  "owed t (bs @ bs') = owed t bs + owed t bs'"
  by (simp_all add: owed_def)

lemma owed_nonneg: "0 \<le> owed t bs"
  by (induction bs) auto

lemma Reset_simps [simp]:
  "Content (Reset b) = []" "MemoryTracker (Reset b) = MemoryTracker b"
  "CapacityValue (Reset b) = CapacityValue b" "BufId (Reset b) = BufId b"
  by (simp_all add: Reset_def)

lemmas heap_defs = AddMemoryUsage_def RemoveMemoryUsage_def DataBuffer_new_def DataBuffer_delete_def
  AttachMemoryTracker_def DetachMemoryTracker_def

section \<open>The cache of spare buffers\<close>

record buffer_cache_state =
  DataBufferCache :: "data_buffer list"
  DataBufferCacheOverLimitSince :: u64

definition TrimDataBufferCacheMaxLimitLocked :: "nat \<Rightarrow> buffer_cache_state \<Rightarrow> buffer_cache_state" where
  "TrimDataBufferCacheMaxLimitLocked cacheMaxLimit s =
     (if cacheMaxLimit = 0 \<or> length (DataBufferCache s) \<le> cacheMaxLimit then s
      else s\<lparr>DataBufferCache :=
               drop (length (DataBufferCache s) - cacheMaxLimit) (DataBufferCache s)\<rparr>)"

definition TrimDataBufferCacheOverLimitLocked ::
  "nat \<Rightarrow> u64 \<Rightarrow> u64 \<Rightarrow> buffer_cache_state \<Rightarrow> buffer_cache_state" where
  "TrimDataBufferCacheOverLimitLocked cacheLimit now retainOverLimitMs s =
     (if length (DataBufferCache s) \<le> cacheLimit then s\<lparr>DataBufferCacheOverLimitSince := 0\<rparr>
      else if DataBufferCacheOverLimitSince s = 0 then s\<lparr>DataBufferCacheOverLimitSince := now\<rparr>
      else if retainOverLimitMs \<noteq> 0 \<and> now - DataBufferCacheOverLimitSince s < retainOverLimitMs then s
      else s\<lparr>DataBufferCache := drop (length (DataBufferCache s) - cacheLimit) (DataBufferCache s),
             DataBufferCacheOverLimitSince := 0\<rparr>)"

text \<open>\<open>now\<close> is the millisecond clock. A null pointer is never in the cache.\<close>

definition TakeDataBuffer ::
  "nat option \<Rightarrow> nat \<Rightarrow> nat \<Rightarrow> nat \<Rightarrow> u64 \<Rightarrow> u64 \<Rightarrow> buffer_cache_state \<Rightarrow> heap \<Rightarrow>
     buffer_cache_state \<times> heap \<times> data_buffer option" where
  "TakeDataBuffer memoryTracker capacity cacheLimit cacheMaxLimit retainOverLimitMs now s h =
     (if DataBufferCache s = [] then (s, h, None)
      else
        let buffer = last (DataBufferCache s);
            s = s\<lparr>DataBufferCache := butlast (DataBufferCache s)\<rparr>;
            s = (if cacheMaxLimit \<noteq> 0 \<and> length (DataBufferCache s) > cacheMaxLimit
                 then TrimDataBufferCacheMaxLimitLocked cacheMaxLimit s else s);
            s = (if length (DataBufferCache s) > cacheLimit
                 then TrimDataBufferCacheOverLimitLocked cacheLimit now retainOverLimitMs s
                 else s\<lparr>DataBufferCacheOverLimitSince := 0\<rparr>);
            (h, buffer) = AttachMemoryTracker memoryTracker buffer h
        in (s, h, Some (Reset buffer)))"

text \<open>A buffer that is refused is destroyed when the call returns.\<close>

definition ReturnDataBuffer ::
  "data_buffer \<Rightarrow> nat \<Rightarrow> nat \<Rightarrow> u64 \<Rightarrow> u64 \<Rightarrow> buffer_cache_state \<Rightarrow> heap \<Rightarrow>
     buffer_cache_state \<times> heap \<times> bool" where
  "ReturnDataBuffer buffer cacheLimit cacheMaxLimit retainOverLimitMs now s h =
     (if cacheLimit = 0 then (s, DataBuffer_delete buffer h, False)
      else
        let s = (if length (DataBufferCache s) > cacheLimit
                 then TrimDataBufferCacheOverLimitLocked cacheLimit now retainOverLimitMs s else s);
            s = (if cacheMaxLimit \<noteq> 0 \<and> length (DataBufferCache s) \<ge> cacheMaxLimit
                 then TrimDataBufferCacheMaxLimitLocked (cacheMaxLimit - 1) s else s)
        in if cacheMaxLimit \<noteq> 0 \<and> length (DataBufferCache s) \<ge> cacheMaxLimit
           then (s, DataBuffer_delete buffer h, False)
           else if retainOverLimitMs = 0 \<and> length (DataBufferCache s) \<ge> cacheLimit
           then (s, DataBuffer_delete buffer h, False)
           else
             let (h, buffer) = DetachMemoryTracker (Reset buffer) h;
                 s = s\<lparr>DataBufferCache := DataBufferCache s @ [buffer]\<rparr>;
                 s = (if length (DataBufferCache s) > cacheLimit
                      then (if DataBufferCacheOverLimitSince s = 0
                            then s\<lparr>DataBufferCacheOverLimitSince := now\<rparr> else s)
                      else s\<lparr>DataBufferCacheOverLimitSince := 0\<rparr>)
             in (s, h, True))"

definition TrimDataBufferCache :: "nat \<Rightarrow> buffer_cache_state \<Rightarrow> buffer_cache_state" where
  "TrimDataBufferCache cacheLimit s =
     s\<lparr>DataBufferCache := drop (length (DataBufferCache s) - cacheLimit) (DataBufferCache s),
       DataBufferCacheOverLimitSince := 0\<rparr>"

definition ClearDataBufferCache :: "buffer_cache_state \<Rightarrow> buffer_cache_state" where
  "ClearDataBufferCache s =
     (if DataBufferCache s = [] then s
      else s\<lparr>DataBufferCache := [], DataBufferCacheOverLimitSince := 0\<rparr>)"

text \<open>
  The callbacks the file backend gives its queue (\<open>FileBackend::TakeCachedDataBuffer\<close> and
  \<open>ReturnCachedDataBuffer\<close>). \<open>attached\<close> says that the channel and its logger are still there.
\<close>

definition TakeCachedDataBuffer ::
  "bool \<Rightarrow> nat \<Rightarrow> nat \<Rightarrow> u64 \<Rightarrow> nat option \<Rightarrow> nat \<Rightarrow> u64 \<Rightarrow> buffer_cache_state \<Rightarrow> heap \<Rightarrow>
     buffer_cache_state \<times> heap \<times> data_buffer option" where
  "TakeCachedDataBuffer attached cacheLimit cacheMaxLimit retainMs memoryTracker capacity now s h =
     (if cacheLimit = 0 \<or> \<not> attached then (s, h, None)
      else TakeDataBuffer memoryTracker capacity cacheLimit cacheMaxLimit retainMs now s h)"

definition ReturnCachedDataBuffer ::
  "bool \<Rightarrow> nat \<Rightarrow> nat \<Rightarrow> u64 \<Rightarrow> data_buffer \<Rightarrow> u64 \<Rightarrow> buffer_cache_state \<Rightarrow> heap \<Rightarrow>
     buffer_cache_state \<times> heap \<times> bool" where
  "ReturnCachedDataBuffer attached cacheLimit cacheMaxLimit retainMs buffer now s h =
     (if cacheLimit = 0 \<or> \<not> attached then (s, DataBuffer_delete buffer h, False)
      else ReturnDataBuffer buffer cacheLimit cacheMaxLimit retainMs now s h)"

section \<open>The contract\<close>

locale buffer_cache =
  fixes good :: "'c \<Rightarrow> bool"
    and take_cached :: "nat option \<Rightarrow> nat \<Rightarrow> u64 \<Rightarrow> 'c \<Rightarrow> heap \<Rightarrow> 'c \<times> heap \<times> data_buffer option"
    and return_cached :: "data_buffer \<Rightarrow> u64 \<Rightarrow> 'c \<Rightarrow> heap \<Rightarrow> 'c \<times> heap \<times> bool"
  assumes take_good: "good c \<Longrightarrow> take_cached tr cap now c h = (c', h', r) \<Longrightarrow> good c'"
    and take_none: "good c \<Longrightarrow> take_cached tr cap now c h = (c', h', None) \<Longrightarrow> h' = h"
    and take_some: "good c \<Longrightarrow> take_cached tr cap now c h = (c', h', Some b) \<Longrightarrow>
      MemoryTracker b = tr \<and> Content b = [] \<and>
      MemoryUsage h' t = MemoryUsage h t + (if tr = Some t then int (CapacityValue b) else 0)"
    and return_good: "good c \<Longrightarrow> return_cached b now c h = (c', h', ok) \<Longrightarrow> good c'"
    and return_usage: "good c \<Longrightarrow> return_cached b now c h = (c', h', ok) \<Longrightarrow>
      MemoryUsage h' t = MemoryUsage h t -
        (if MemoryTracker b = Some t then int (CapacityValue b) else 0)"
begin

text \<open>Taking a buffer for a tracker and giving it back leaves every tracker as it was.\<close>

lemma take_return_usage:
  assumes "good c" and "take_cached tr cap now c h = (c', h', Some b)"
    and "return_cached b now' c' h' = (c'', h'', ok)"
  shows "MemoryUsage h'' = MemoryUsage h"
proof
  fix t
  from take_some [OF assms(1,2)] return_usage [OF take_good [OF assms(1,2)] assms(3)]
  show "MemoryUsage h'' t = MemoryUsage h t" by simp
qed

end

text \<open>Cached buffers are empty and belong to no tracker.\<close>

definition cache_good :: "buffer_cache_state \<Rightarrow> bool" where
  "cache_good s \<longleftrightarrow> (\<forall>b \<in> set (DataBufferCache s). Content b = [] \<and> MemoryTracker b = None)"

lemma trim_max_subset:
  "set (DataBufferCache (TrimDataBufferCacheMaxLimitLocked l s)) \<subseteq> set (DataBufferCache s)"
  by (auto simp: TrimDataBufferCacheMaxLimitLocked_def dest: in_set_dropD)

lemma trim_over_subset:
  "set (DataBufferCache (TrimDataBufferCacheOverLimitLocked l now r s)) \<subseteq> set (DataBufferCache s)"
  by (auto simp: TrimDataBufferCacheOverLimitLocked_def dest: in_set_dropD)

lemma trim_good:
  "cache_good s \<Longrightarrow> cache_good (TrimDataBufferCacheMaxLimitLocked l s)"
  "cache_good s \<Longrightarrow> cache_good (TrimDataBufferCacheOverLimitLocked l now r s)"
  using trim_max_subset [of l s] trim_over_subset [of l now r s] by (auto simp: cache_good_def)

lemma cache_good_frame [simp]:
  "cache_good (s\<lparr>DataBufferCacheOverLimitSince := x\<rparr>) = cache_good s"
  by (simp add: cache_good_def)

lemma TakeDataBuffer_spec:
  assumes "cache_good s" and "TakeDataBuffer tr cap cl cm ro now s h = (s', h', r)"
  shows "cache_good s' \<and>
     (case r of None \<Rightarrow> h' = h \<and> s' = s
      | Some b \<Rightarrow> MemoryTracker b = tr \<and> Content b = [] \<and>
          MemoryUsage h' t = MemoryUsage h t + (if tr = Some t then int (CapacityValue b) else 0))"
proof (cases "DataBufferCache s = []")
  case True
  with assms show ?thesis by (auto simp: TakeDataBuffer_def)
next
  case False
  let ?b = "last (DataBufferCache s)"
  let ?s1 = "s\<lparr>DataBufferCache := butlast (DataBufferCache s)\<rparr>"
  have g: "cache_good ?s1" and b: "MemoryTracker ?b = None"
    using assms(1) False by (auto simp: cache_good_def dest: in_set_butlastD)
  have "cache_good s'"
    using assms(2) False g trim_good
    by (auto simp: TakeDataBuffer_def Let_def case_prod_beta split: if_splits)
  moreover obtain h1 b1 where at: "AttachMemoryTracker tr ?b h = (h1, b1)"
    by (cases "AttachMemoryTracker tr ?b h")
  then have "h' = h1" "r = Some (Reset b1)"
    using assms(2) False by (auto simp: TakeDataBuffer_def Let_def)
  moreover have "MemoryTracker b1 = tr" "CapacityValue b1 = CapacityValue ?b"
    "MemoryUsage h1 t = MemoryUsage h t + (if tr = Some t then int (CapacityValue ?b) else 0)"
    using at b by (auto simp: heap_defs Let_def split: if_splits option.splits)
  ultimately show ?thesis by simp
qed

lemma delete_usage:
  "MemoryUsage (DataBuffer_delete b h) t =
     MemoryUsage h t - (if MemoryTracker b = Some t then int (CapacityValue b) else 0)"
  by (simp add: heap_defs split: option.split)

lemma detach_usage:
  "MemoryUsage (fst (DetachMemoryTracker b h)) t =
     MemoryUsage h t - (if MemoryTracker b = Some t then int (CapacityValue b) else 0)"
  by (simp add: heap_defs split: option.split)

lemma detach_buffer: "snd (DetachMemoryTracker b h) = b\<lparr>MemoryTracker := None\<rparr>"
  by (simp add: DetachMemoryTracker_def)

text \<open>The cache as \<open>ReturnDataBuffer\<close> has it before it decides.\<close>

definition trimmed :: "nat \<Rightarrow> nat \<Rightarrow> u64 \<Rightarrow> u64 \<Rightarrow> buffer_cache_state \<Rightarrow> buffer_cache_state" where
  "trimmed cl cm ro now s =
     (let s = (if length (DataBufferCache s) > cl then TrimDataBufferCacheOverLimitLocked cl now ro s else s)
      in if cm \<noteq> 0 \<and> length (DataBufferCache s) \<ge> cm
         then TrimDataBufferCacheMaxLimitLocked (cm - 1) s else s)"

definition pushed :: "nat \<Rightarrow> u64 \<Rightarrow> data_buffer \<Rightarrow> buffer_cache_state \<Rightarrow> buffer_cache_state" where
  "pushed cl now b s =
     (let s = s\<lparr>DataBufferCache := DataBufferCache s @ [b]\<rparr>
      in if length (DataBufferCache s) > cl
         then (if DataBufferCacheOverLimitSince s = 0 then s\<lparr>DataBufferCacheOverLimitSince := now\<rparr> else s)
         else s\<lparr>DataBufferCacheOverLimitSince := 0\<rparr>)"

lemma if_or: "(if A \<or> B then x else y) = (if A then x else if B then x else y)"
  by simp

lemma ReturnDataBuffer_eq:
  "ReturnDataBuffer b cl cm ro now s h =
     (if cl = 0 then (s, DataBuffer_delete b h, False)
      else let s = trimmed cl cm ro now s in
        if cm \<noteq> 0 \<and> length (DataBufferCache s) \<ge> cm \<or> ro = 0 \<and> length (DataBufferCache s) \<ge> cl
        then (s, DataBuffer_delete b h, False)
        else (pushed cl now ((Reset b)\<lparr>MemoryTracker := None\<rparr>) s,
              fst (DetachMemoryTracker (Reset b) h), True))"
proof -
  have "ReturnDataBuffer b cl cm ro now s h =
     (if cl = 0 then (s, DataBuffer_delete b h, False)
      else let s = trimmed cl cm ro now s in
        if cm \<noteq> 0 \<and> length (DataBufferCache s) \<ge> cm then (s, DataBuffer_delete b h, False)
        else if ro = 0 \<and> length (DataBufferCache s) \<ge> cl then (s, DataBuffer_delete b h, False)
        else (pushed cl now (snd (DetachMemoryTracker (Reset b) h)) s,
              fst (DetachMemoryTracker (Reset b) h), True))"
    unfolding ReturnDataBuffer_def trimmed_def pushed_def Let_def case_prod_beta by (rule refl)
  then show ?thesis by (simp only: Let_def detach_buffer if_or)
qed

lemma trimmed_good: "cache_good s \<Longrightarrow> cache_good (trimmed cl cm ro now s)"
  by (simp add: trimmed_def trim_good Let_def)

lemma pushed_good:
  "cache_good s \<Longrightarrow> Content b = [] \<Longrightarrow> MemoryTracker b = None \<Longrightarrow> cache_good (pushed cl now b s)"
  by (auto simp: pushed_def cache_good_def Let_def)

lemma ReturnDataBuffer_spec:
  assumes "cache_good s" and "ReturnDataBuffer b cl cm ro now s h = (s', h', ok)"
  shows "cache_good s' \<and> MemoryUsage h' t =
     MemoryUsage h t - (if MemoryTracker b = Some t then int (CapacityValue b) else 0)"
  using assms trimmed_good [OF assms(1)]
  by (auto simp: ReturnDataBuffer_eq Let_def pushed_good delete_usage detach_usage split: if_splits)

interpretation file_cache: buffer_cache cache_good
    "\<lambda>tr cap now. TakeDataBuffer tr cap cl cm ro now" "\<lambda>b now. ReturnDataBuffer b cl cm ro now"
    for cl cm ro
proof unfold_locales
  fix s s' :: buffer_cache_state and h h' tr cap now b t ok
  assume g: "cache_good s"
  show "cache_good s'" if "TakeDataBuffer tr cap cl cm ro now s h = (s', h', r)" for r
    using TakeDataBuffer_spec [OF g that] by simp
  show "h' = h" if "TakeDataBuffer tr cap cl cm ro now s h = (s', h', None)"
    using TakeDataBuffer_spec [OF g that] by simp
  show "MemoryTracker b = tr \<and> Content b = [] \<and>
      MemoryUsage h' t = MemoryUsage h t + (if tr = Some t then int (CapacityValue b) else 0)"
    if "TakeDataBuffer tr cap cl cm ro now s h = (s', h', Some b)"
    using TakeDataBuffer_spec [OF g that] by simp
  show "cache_good s'" if "ReturnDataBuffer b cl cm ro now s h = (s', h', ok)"
    using ReturnDataBuffer_spec [OF g that] by simp
  show "MemoryUsage h' t = MemoryUsage h t - (if MemoryTracker b = Some t then int (CapacityValue b) else 0)"
    if "ReturnDataBuffer b cl cm ro now s h = (s', h', ok)"
    using ReturnDataBuffer_spec [OF g that] by simp
qed

interpretation backend_cache: buffer_cache cache_good
    "TakeCachedDataBuffer attached cl cm ro" "ReturnCachedDataBuffer attached cl cm ro"
    for attached cl cm ro
proof unfold_locales
  fix s s' :: buffer_cache_state and h h' tr cap now b t ok
  assume g: "cache_good s"
  show "cache_good s'" if "TakeCachedDataBuffer attached cl cm ro tr cap now s h = (s', h', r)" for r
    using that g file_cache.take_good [OF g] by (auto simp: TakeCachedDataBuffer_def split: if_splits)
  show "h' = h" if "TakeCachedDataBuffer attached cl cm ro tr cap now s h = (s', h', None)"
    using that file_cache.take_none [OF g] by (auto simp: TakeCachedDataBuffer_def split: if_splits)
  show "MemoryTracker b = tr \<and> Content b = [] \<and>
      MemoryUsage h' t = MemoryUsage h t + (if tr = Some t then int (CapacityValue b) else 0)"
    if "TakeCachedDataBuffer attached cl cm ro tr cap now s h = (s', h', Some b)"
    using that file_cache.take_some [OF g] by (simp add: TakeCachedDataBuffer_def split: if_splits)
  show "cache_good s'" if "ReturnCachedDataBuffer attached cl cm ro b now s h = (s', h', ok)"
    using that g file_cache.return_good [OF g] by (auto simp: ReturnCachedDataBuffer_def split: if_splits)
  show "MemoryUsage h' t = MemoryUsage h t - (if MemoryTracker b = Some t then int (CapacityValue b) else 0)"
    if "ReturnCachedDataBuffer attached cl cm ro b now s h = (s', h', ok)"
    using that delete_usage [of b h t] file_cache.return_usage [OF g]
    by (auto simp: ReturnCachedDataBuffer_def split: if_splits)
qed

section \<open>Bounds of the cache\<close>

text \<open>Calls with fixed limits, as one backend configuration makes them, at increasing or any times.\<close>

datatype cache_call = CallTake "nat option" nat u64 | CallReturn data_buffer u64

fun cache_exec ::
  "nat \<Rightarrow> nat \<Rightarrow> u64 \<Rightarrow> cache_call \<Rightarrow> buffer_cache_state \<times> heap \<Rightarrow> buffer_cache_state \<times> heap" where
  "cache_exec cl cm ro (CallTake tr cap now) (s, h) =
     (let (s, h, b) = TakeDataBuffer tr cap cl cm ro now s h in (s, h))"
| "cache_exec cl cm ro (CallReturn b now) (s, h) =
     (let (s, h, ok) = ReturnDataBuffer b cl cm ro now s h in (s, h))"

definition cache_init :: buffer_cache_state where
  "cache_init = \<lparr>DataBufferCache = [], DataBufferCacheOverLimitSince = 0\<rparr>"

definition cache_bounded :: "nat \<Rightarrow> nat \<Rightarrow> u64 \<Rightarrow> buffer_cache_state \<Rightarrow> bool" where
  "cache_bounded cl cm ro s \<longleftrightarrow>
     (cm \<noteq> 0 \<longrightarrow> length (DataBufferCache s) \<le> cm) \<and>
     (ro = 0 \<or> cl = 0 \<longrightarrow> length (DataBufferCache s) \<le> cl)"

lemma trim_over_length:
  "length (DataBufferCache (TrimDataBufferCacheOverLimitLocked l now r s)) \<le> length (DataBufferCache s)"
  by (simp add: TrimDataBufferCacheOverLimitLocked_def)

lemma trim_max_length:
  "length (DataBufferCache (TrimDataBufferCacheMaxLimitLocked l s)) \<le> length (DataBufferCache s)"
  by (simp add: TrimDataBufferCacheMaxLimitLocked_def)

lemma trimmed_length: "length (DataBufferCache (trimmed cl cm ro now s)) \<le> length (DataBufferCache s)"
  using trim_over_length [of cl now ro s]
    trim_max_length [of "cm - 1" "TrimDataBufferCacheOverLimitLocked cl now ro s"]
    trim_max_length [of "cm - 1" s]
  by (auto simp: trimmed_def Let_def)

lemma take_length:
  "length (DataBufferCache (fst (TakeDataBuffer tr cap cl cm ro now s h))) \<le> length (DataBufferCache s)"
proof -
  let ?s1 = "s\<lparr>DataBufferCache := butlast (DataBufferCache s)\<rparr>"
  show ?thesis
    using trim_max_length [of cm ?s1] trim_over_length [of cl now ro ?s1]
      trim_over_length [of cl now ro "TrimDataBufferCacheMaxLimitLocked cm ?s1"]
    by (auto simp: TakeDataBuffer_def Let_def case_prod_beta)
qed

lemma cache_exec_bounded:
  assumes "cache_bounded cl cm ro s"
  shows "cache_bounded cl cm ro (fst (cache_exec cl cm ro call (s, h)))"
proof (cases call)
  case (CallTake tr cap now)
  with assms take_length [of tr cap cl cm ro now s h] show ?thesis
    by (auto simp: cache_bounded_def case_prod_beta)
next
  case (CallReturn b now)
  have "length (DataBufferCache (pushed cl now x s')) = Suc (length (DataBufferCache s'))" for x s'
    by (simp add: pushed_def Let_def)
  with CallReturn assms trimmed_length [of cl cm ro now s] show ?thesis
    by (auto simp: cache_bounded_def ReturnDataBuffer_eq Let_def)
qed

lemma cache_exec_good:
  assumes "cache_good s"
  shows "cache_good (fst (cache_exec cl cm ro call (s, h)))"
proof (cases call)
  case (CallTake tr cap now)
  obtain s' h' r where t: "TakeDataBuffer tr cap cl cm ro now s h = (s', h', r)"
    by (cases "TakeDataBuffer tr cap cl cm ro now s h")
  from file_cache.take_good [OF assms t] show ?thesis by (simp add: CallTake t)
next
  case (CallReturn b now)
  obtain s' h' ok where t: "ReturnDataBuffer b cl cm ro now s h = (s', h', ok)"
    by (cases "ReturnDataBuffer b cl cm ro now s h")
  from file_cache.return_good [OF assms t] show ?thesis by (simp add: CallReturn t)
qed

text \<open>The shared cache never exceeds its hard limit, nor its soft limit when over-limit
  buffers are not to be retained; what it holds is empty and charged to nobody, and every
  tracker's usage changes only by the buffers taken for it and given back.\<close>

theorem cache_limits:
  assumes "cm \<noteq> 0"
  shows "let s = fst (fold (cache_exec cl cm ro) calls (cache_init, h)) in
     length (DataBufferCache s) \<le> cm \<and> (ro = 0 \<longrightarrow> length (DataBufferCache s) \<le> cl) \<and>
     (\<forall>b \<in> set (DataBufferCache s). Content b = [] \<and> MemoryTracker b = None)"
proof -
  have "cache_bounded cl cm ro s \<and> cache_good s \<Longrightarrow>
      cache_bounded cl cm ro (fst (fold (cache_exec cl cm ro) calls (s, h))) \<and>
      cache_good (fst (fold (cache_exec cl cm ro) calls (s, h)))" for s h
  proof (induction calls arbitrary: s h)
    case (Cons call calls)
    have "cache_good (fst (cache_exec cl cm ro call (s, h)))"
      using Cons.prems cache_exec_good by blast
    with Cons.prems cache_exec_bounded [of cl cm ro s call h]
    show ?case using Cons.IH by (cases "cache_exec cl cm ro call (s, h)") auto
  qed simp
  from this [of cache_init h] assms show ?thesis
    by (auto simp: cache_bounded_def cache_good_def cache_init_def Let_def)
qed

definition demo_heap :: heap where
  "demo_heap = \<lparr>NextBuf = 0, MemoryUsage = (\<lambda>_. 0)\<rparr>"

definition demo_returns :: "cache_call list" where
  "demo_returns = replicate 9 (CallReturn (snd (DataBuffer_new 64 None demo_heap)) 5)"

theorem cache_limits_witness:
  "length (DataBufferCache (fst (fold (cache_exec 1 2 0) demo_returns (cache_init, demo_heap)))) \<le> 1"
proof -
  have two: "(2::nat) \<noteq> 0" by simp
  from cache_limits [OF two, of 1 0 demo_returns demo_heap]
  have "(0::u64) = 0 \<longrightarrow> ?thesis" unfolding Let_def by (elim conjE)
  then show ?thesis by (rule mp) (rule refl)
qed

end
