(* ===== verification/Buffer_Queue.thy ===== *)
theory Buffer_Queue
  imports Data_Buffers "HOL-Library.Multiset"
begin

text \<open>
  The queue of a file backend (\<open>Buffer/BufferQueue.cpp\<close>, \<open>BufferQueue.h\<close>): log calls append to
  the current buffer, full or flushed buffers go to the ready list, the worker takes the ready
  list, writes it and recycles the buffers. \<open>Current\<close> is never null: the constructor sets it and
  each move out of it is followed, under the same lock, by a new one; the null tests of the code
  are therefore left out. The two size counters are integers, and the invariant shows that they
  never become negative (so \<open>size_t\<close> does not wrap). The environment of the queue, the shared
  cache, the heap of usage counters and the clock, are fields of its record. The counters are
  behind a build option, the field \<open>FileCounters\<close>.

  \<open>PublishCurrent\<close> takes its replacement, swaps it in under the data lock and enqueues the old
  buffer after releasing it; these are three definitions, so that they can be interleaved
  with the appends of other threads (theory \<open>Queue_Threads\<close>).
\<close>

section \<open>State\<close>

record 'c queue_options =
  BufferSize :: nat
  BaseFreeLimit :: nat
  MaxTotalBuffers :: nat
  MaxAdaptiveFreeLimit :: nat
  TakeCachedBuffer ::
    "(nat option \<Rightarrow> nat \<Rightarrow> u64 \<Rightarrow> 'c \<Rightarrow> heap \<Rightarrow> 'c \<times> heap \<times> data_buffer option) option"
  ReturnCachedBuffer :: "(data_buffer \<Rightarrow> u64 \<Rightarrow> 'c \<Rightarrow> heap \<Rightarrow> 'c \<times> heap \<times> bool) option"

record buffer_counters =
  Appends :: u64
  AppendedBytes :: u64
  EnqueuedBuffers :: u64
  WrittenBuffers :: u64
  WrittenBytes :: u64
  AllocatedBuffers :: u64
  DeletedBuffers :: u64
  DroppedAppends :: u64
  DroppedBytes :: u64
  WriteErrors :: u64
  SignalsSent :: u64

definition no_counters :: buffer_counters where
  "no_counters = \<lparr>Appends = 0, AppendedBytes = 0, EnqueuedBuffers = 0, WrittenBuffers = 0,
     WrittenBytes = 0, AllocatedBuffers = 0, DeletedBuffers = 0, DroppedAppends = 0,
     DroppedBytes = 0, WriteErrors = 0, SignalsSent = 0\<rparr>"

record 'c buffer_queue =
  OptionsValue :: "'c queue_options"
  QueueTracker :: "nat option"
  FreeList :: "data_buffer list"
  ReadyList :: "data_buffer list"
  Current :: data_buffer
  HasCurrentDataFlag :: bool
  CurrentFirstWriteTime :: u64
  UsedBuffersCount :: int
  TotalBuffers :: int
  AdaptiveFreeLimit :: nat
  Signaled :: bool
  Counters :: buffer_counters
  GlobalCounters :: buffer_counters
  FileCounters :: bool
  Cache :: 'c
  Heap :: heap
  Clock :: u64

section \<open>Counters\<close>

definition count_event ::
  "(buffer_counters \<Rightarrow> buffer_counters) \<Rightarrow> 'c buffer_queue \<Rightarrow> 'c buffer_queue" where
  "count_event f q =
     (if FileCounters q then q\<lparr>Counters := f (Counters q), GlobalCounters := f (GlobalCounters q)\<rparr>
      else q)"

definition CountAppended :: "nat \<Rightarrow> 'c buffer_queue \<Rightarrow> 'c buffer_queue" where
  "CountAppended cb =
     count_event (\<lambda>c. c\<lparr>Appends := Appends c + 1, AppendedBytes := AppendedBytes c + of_nat cb\<rparr>)"

definition CountDropped :: "nat \<Rightarrow> 'c buffer_queue \<Rightarrow> 'c buffer_queue" where
  "CountDropped cb =
     count_event (\<lambda>c. c\<lparr>DroppedAppends := DroppedAppends c + 1, DroppedBytes := DroppedBytes c + of_nat cb\<rparr>)"

definition CountAllocated :: "'c buffer_queue \<Rightarrow> 'c buffer_queue" where
  "CountAllocated = count_event (\<lambda>c. c\<lparr>AllocatedBuffers := AllocatedBuffers c + 1\<rparr>)"

definition CountDeleted :: "'c buffer_queue \<Rightarrow> 'c buffer_queue" where
  "CountDeleted = count_event (\<lambda>c. c\<lparr>DeletedBuffers := DeletedBuffers c + 1\<rparr>)"

definition CountEnqueued :: "'c buffer_queue \<Rightarrow> 'c buffer_queue" where
  "CountEnqueued = count_event (\<lambda>c. c\<lparr>EnqueuedBuffers := EnqueuedBuffers c + 1\<rparr>)"

definition CountWritten :: "nat \<Rightarrow> nat \<Rightarrow> bool \<Rightarrow> 'c buffer_queue \<Rightarrow> 'c buffer_queue" where
  "CountWritten buffers bytes ok =
     (if ok then count_event (\<lambda>c. c\<lparr>WrittenBuffers := WrittenBuffers c + of_nat buffers,
                                    WrittenBytes := WrittenBytes c + of_nat bytes\<rparr>)
      else count_event (\<lambda>c. c\<lparr>WriteErrors := WriteErrors c + 1\<rparr>))"

definition CountSignal :: "'c buffer_queue \<Rightarrow> 'c buffer_queue" where
  "CountSignal = count_event (\<lambda>c. c\<lparr>SignalsSent := SignalsSent c + 1\<rparr>)"

lemmas count_defs = CountAppended_def CountDropped_def CountAllocated_def CountDeleted_def
  CountEnqueued_def CountWritten_def CountSignal_def

section \<open>Buffers in and out of the queue\<close>

definition TryTakeFreeBuffer :: "'c buffer_queue \<Rightarrow> data_buffer option \<times> 'c buffer_queue" where
  "TryTakeFreeBuffer q =
     (case FreeList q of
        [] \<Rightarrow> (None, q)
      | b # bs \<Rightarrow> (Some b, q\<lparr>FreeList := bs, UsedBuffersCount := UsedBuffersCount q + 1\<rparr>))"

definition TryTakeCachedBuffer :: "'c buffer_queue \<Rightarrow> data_buffer option \<times> 'c buffer_queue" where
  "TryTakeCachedBuffer q =
     (case TakeCachedBuffer (OptionsValue q) of
        None \<Rightarrow> (None, q)
      | Some take_buffer \<Rightarrow>
          (case take_buffer (QueueTracker q) (BufferSize (OptionsValue q)) (Clock q) (Cache q) (Heap q) of
             (c, h, b) \<Rightarrow> (map_option Reset b, q\<lparr>Cache := c, Heap := h\<rparr>)))"

definition new_buffer :: "'c buffer_queue \<Rightarrow> data_buffer \<times> 'c buffer_queue" where
  "new_buffer q =
     (case DataBuffer_new (BufferSize (OptionsValue q)) (QueueTracker q) (Heap q) of
        (h, b) \<Rightarrow> (b, q\<lparr>Heap := h\<rparr>))"

definition total_limit_reached :: "'c buffer_queue \<Rightarrow> bool" where
  "total_limit_reached q \<longleftrightarrow>
     MaxTotalBuffers (OptionsValue q) \<noteq> 0 \<and> TotalBuffers q \<ge> int (MaxTotalBuffers (OptionsValue q))"

text \<open>The second test of the limit repeats the first, under the creation lock; a buffer that fails
  it is destroyed.\<close>

definition TryCreateBuffer :: "'c buffer_queue \<Rightarrow> data_buffer option \<times> 'c buffer_queue" where
  "TryCreateBuffer q =
     (if total_limit_reached q then (None, q)
      else
        let (cached, q) = TryTakeCachedBuffer q;
            (buffer, q) = (case cached of Some b \<Rightarrow> (b, q) | None \<Rightarrow> new_buffer q);
            allocated = (cached = None)
        in if total_limit_reached q then (None, q\<lparr>Heap := DataBuffer_delete buffer (Heap q)\<rparr>)
           else
             let q = q\<lparr>TotalBuffers := TotalBuffers q + 1, UsedBuffersCount := UsedBuffersCount q + 1\<rparr>
             in (Some buffer, if allocated then CountAllocated q else q))"

text \<open>The buffer passed by value is destroyed when nobody takes it over.\<close>

definition TryReturnCachedBuffer :: "data_buffer \<Rightarrow> 'c buffer_queue \<Rightarrow> bool \<times> 'c buffer_queue" where
  "TryReturnCachedBuffer buffer q =
     (case ReturnCachedBuffer (OptionsValue q) of
        None \<Rightarrow> (False, q\<lparr>Heap := DataBuffer_delete buffer (Heap q)\<rparr>)
      | Some return_buffer \<Rightarrow>
          (case return_buffer (Reset buffer) (Clock q) (Cache q) (Heap q) of
             (c, h, ok) \<Rightarrow> (ok, q\<lparr>Cache := c, Heap := h\<rparr>)))"

definition give_back :: "data_buffer \<Rightarrow> 'c buffer_queue \<Rightarrow> 'c buffer_queue" where
  "give_back buffer q =
     (case TryReturnCachedBuffer buffer q of (ok, q) \<Rightarrow> if ok then q else CountDeleted q)"

fun decay_limit :: "nat \<Rightarrow> nat \<Rightarrow> nat \<Rightarrow> nat" where
  "decay_limit base free limit =
     (if limit > base \<and> free \<le> limit - 1 then decay_limit base free (limit - 1) else limit)"

declare decay_limit.simps [simp del]

primrec pop_over :: "data_buffer list \<Rightarrow> 'c buffer_queue \<Rightarrow> 'c buffer_queue" where
  "pop_over [] q = q\<lparr>FreeList := []\<rparr>"
| "pop_over (b # bs) q =
     (if length (b # bs) > AdaptiveFreeLimit q
      then pop_over bs (give_back b (q\<lparr>FreeList := bs, TotalBuffers := TotalBuffers q - 1\<rparr>))
      else q\<lparr>FreeList := b # bs\<rparr>)"

definition DecayFreeLocked :: "'c buffer_queue \<Rightarrow> 'c buffer_queue" where
  "DecayFreeLocked q =
     (let q = q\<lparr>AdaptiveFreeLimit :=
                  decay_limit (BaseFreeLimit (OptionsValue q)) (length (FreeList q)) (AdaptiveFreeLimit q)\<rparr>
      in pop_over (FreeList q) q)"

definition ReleaseBuffer :: "data_buffer \<Rightarrow> 'c buffer_queue \<Rightarrow> 'c buffer_queue" where
  "ReleaseBuffer buffer q =
     DecayFreeLocked (q\<lparr>FreeList := FreeList q @ [Reset buffer],
                        UsedBuffersCount := UsedBuffersCount q - 1\<rparr>)"

text \<open>The flag is \<open>needSignal\<close>: set to true here or left as it is.\<close>

definition EnqueueReady :: "data_buffer \<Rightarrow> bool \<Rightarrow> 'c buffer_queue \<Rightarrow> bool \<times> 'c buffer_queue" where
  "EnqueueReady buffer needSignal q =
     (if Size buffer = 0 then (needSignal, ReleaseBuffer buffer q)
      else
        let q = CountEnqueued (q\<lparr>ReadyList := ReadyList q @ [buffer]\<rparr>)
        in if \<not> Signaled q then (True, CountSignal (q\<lparr>Signaled := True\<rparr>)) else (needSignal, q))"

definition MaybeGrowAdaptive :: "bool \<Rightarrow> 'c buffer_queue \<Rightarrow> 'c buffer_queue" where
  "MaybeGrowAdaptive allocatedBecauseNoFree q =
     (if \<not> allocatedBecauseNoFree then q
      else
        let cap = (if MaxAdaptiveFreeLimit (OptionsValue q) \<noteq> 0 then MaxAdaptiveFreeLimit (OptionsValue q)
                   else if MaxTotalBuffers (OptionsValue q) \<noteq> 0 then MaxTotalBuffers (OptionsValue q)
                   else 0)
        in if cap \<noteq> 0 \<and> AdaptiveFreeLimit q \<ge> cap then q
           else q\<lparr>AdaptiveFreeLimit := AdaptiveFreeLimit q + 1\<rparr>)"

section \<open>Operations\<close>

definition BufferQueue_new ::
  "'c queue_options \<Rightarrow> nat option \<Rightarrow> buffer_counters \<Rightarrow> bool \<Rightarrow> 'c \<Rightarrow> heap \<Rightarrow> u64 \<Rightarrow> 'c buffer_queue" where
  "BufferQueue_new options memoryTracker globals file_counters cache h now =
     (let dummy = \<lparr>BufId = 0, CapacityValue = 0, Content = [], FirstWriteTime = 0,
                   SeenOnSoftFlush = False, MemoryTracker = None\<rparr>;
          q = \<lparr>OptionsValue = options, QueueTracker = memoryTracker, FreeList = [], ReadyList = [],
               Current = dummy, HasCurrentDataFlag = False, CurrentFirstWriteTime = 0,
               UsedBuffersCount = 1, TotalBuffers = 0, AdaptiveFreeLimit = BaseFreeLimit options,
               Signaled = False, Counters = no_counters, GlobalCounters = globals,
               FileCounters = file_counters, Cache = cache, Heap = h, Clock = now\<rparr>;
          (cached, q) = TryTakeCachedBuffer q;
          (buffer, q) = (case cached of
              Some b \<Rightarrow> (b, q)
            | None \<Rightarrow> (case new_buffer q of (b, q) \<Rightarrow> (b, CountAllocated q)))
      in q\<lparr>Current := buffer, TotalBuffers := 1\<rparr>)"

definition dispose :: "data_buffer \<Rightarrow> 'c buffer_queue \<Rightarrow> 'c buffer_queue" where
  "dispose buffer q =
     (let q = give_back buffer q
      in if TotalBuffers q > 0 then q\<lparr>TotalBuffers := TotalBuffers q - 1\<rparr> else q)"

definition BufferQueue_destroy :: "'c buffer_queue \<Rightarrow> 'c buffer_queue" where
  "BufferQueue_destroy q =
     (let q = dispose (Current q) q;
          q = fold dispose (FreeList q) (q\<lparr>FreeList := []\<rparr>)
      in fold dispose (ReadyList q) (q\<lparr>ReadyList := []\<rparr>))"

text \<open>The first write into the current buffer, and the append itself.\<close>

definition append_current :: "string \<Rightarrow> u64 \<Rightarrow> 'c buffer_queue \<Rightarrow> bool \<times> 'c buffer_queue" where
  "append_current p firstWriteTime q =
     (let firstData = (Size (Current q) = 0);
          q = (if firstData
               then q\<lparr>Current := SetFirstWriteTime firstWriteTime (Current q),
                      CurrentFirstWriteTime := firstWriteTime, HasCurrentDataFlag := True\<rparr>
               else q)
      in (firstData, q\<lparr>Current := AppendBytes p (Current q)\<rparr>))"

definition take_replacement :: "'c buffer_queue \<Rightarrow> data_buffer option \<times> bool \<times> 'c buffer_queue" where
  "take_replacement q =
     (case TryTakeFreeBuffer q of
        (Some b, q) \<Rightarrow> (Some b, False, q)
      | (None, q) \<Rightarrow> (case TryCreateBuffer q of (b, q) \<Rightarrow> (b, b \<noteq> None, q)))"

text \<open>Result: success, \<open>needSignal\<close>, \<open>firstData\<close>.\<close>

definition Append ::
  "string \<Rightarrow> u64 \<Rightarrow> 'c buffer_queue \<Rightarrow> bool \<times> bool \<times> bool \<times> 'c buffer_queue" where
  "Append p firstWriteTime q =
     (let cb = length p in
      if cb = 0 then (True, False, False, q)
      else if CanAppend cb (Current q)
      then (let (firstData, q) = append_current p firstWriteTime q
            in (True, False, firstData, CountAppended cb q))
      else
        (case take_replacement q of
           (None, _, q) \<Rightarrow> (False, False, False, CountDropped cb q)
         | (Some replacement, allocatedBecauseNoFree, q) \<Rightarrow>
             if CanAppend cb (Current q)
             then (let (firstData, q) = append_current p firstWriteTime q
                   in (True, False, firstData, CountAppended cb (ReleaseBuffer replacement q)))
             else
               let replacement = SetSeenOnSoftFlush False (Reset replacement)
               in if \<not> CanAppend cb replacement
                  then (False, False, False, CountDropped cb (ReleaseBuffer replacement q))
                  else
                    let readyBuffer = Current q;
                        current = AppendBytes p (SetFirstWriteTime firstWriteTime replacement);
                        q = q\<lparr>Current := current, CurrentFirstWriteTime := firstWriteTime,
                              HasCurrentDataFlag := True\<rparr>;
                        q = MaybeGrowAdaptive allocatedBecauseNoFree q;
                        (needSignal, q) = EnqueueReady readyBuffer False q
                    in (True, needSignal, True, CountAppended cb q)))"

definition SetCurrentFirstWriteTime :: "u64 \<Rightarrow> 'c buffer_queue \<Rightarrow> 'c buffer_queue" where
  "SetCurrentFirstWriteTime value q =
     (if Size (Current q) = 0 then q
      else if FirstWriteTime (Current q) \<noteq> 0
      then q\<lparr>CurrentFirstWriteTime := FirstWriteTime (Current q)\<rparr>
      else q\<lparr>Current := SetFirstWriteTime value (Current q), CurrentFirstWriteTime := value\<rparr>)"

definition TakeReady :: "'c buffer_queue \<Rightarrow> bool \<times> data_buffer list \<times> 'c buffer_queue" where
  "TakeReady q =
     (if ReadyList q = [] then (False, [], q\<lparr>Signaled := False\<rparr>)
      else (True, ReadyList q, q\<lparr>ReadyList := [], Signaled := False\<rparr>))"

fun Recycle :: "data_buffer list \<Rightarrow> 'c buffer_queue \<Rightarrow> 'c buffer_queue" where
  "Recycle [] q = q"
| "Recycle (b # bs) q =
     Recycle bs (q\<lparr>FreeList := FreeList q @ [Reset b], UsedBuffersCount := UsedBuffersCount q - 1\<rparr>)"

datatype soft_flush_state = SOFT_EMPTY | SOFT_MARKED | SOFT_PUBLISH

text \<open>The expected buffer is passed on by its identity.\<close>

definition PrepareSoftFlushCurrent ::
  "'c buffer_queue \<Rightarrow> soft_flush_state \<times> nat option \<times> 'c buffer_queue" where
  "PrepareSoftFlushCurrent q =
     (if Size (Current q) = 0 then (SOFT_EMPTY, None, q)
      else if \<not> SeenOnSoftFlush (Current q)
      then (SOFT_MARKED, None, q\<lparr>Current := SetSeenOnSoftFlush True (Current q)\<rparr>)
      else (SOFT_PUBLISH, Some (BufId (Current q)), q))"

text \<open>The part under the data lock. \<open>None\<close> expects nothing (\<open>PublishCurrent\<close>).\<close>

definition swap_current ::
  "nat option \<Rightarrow> data_buffer \<Rightarrow> 'c buffer_queue \<Rightarrow> data_buffer option \<times> 'c buffer_queue" where
  "swap_current expected replacement q =
     (if (case expected of None \<Rightarrow> False | Some e \<Rightarrow> BufId (Current q) \<noteq> e) \<or> Size (Current q) = 0
      then (None, ReleaseBuffer replacement q)
      else (Some (Current q),
            q\<lparr>Current := SetSeenOnSoftFlush False (Reset replacement),
              CurrentFirstWriteTime := 0, HasCurrentDataFlag := False\<rparr>))"

definition finish_publish :: "data_buffer \<Rightarrow> bool \<Rightarrow> 'c buffer_queue \<Rightarrow> bool \<times> 'c buffer_queue" where
  "finish_publish readyBuffer allocatedBecauseNoFree q =
     EnqueueReady readyBuffer False (MaybeGrowAdaptive allocatedBecauseNoFree q)"

text \<open>Result: success, \<open>needSignal\<close>.\<close>

definition publish :: "nat option \<Rightarrow> 'c buffer_queue \<Rightarrow> bool \<times> bool \<times> 'c buffer_queue" where
  "publish expected q =
     (case take_replacement q of
        (None, _, q) \<Rightarrow> (False, False, q)
      | (Some replacement, allocatedBecauseNoFree, q) \<Rightarrow>
          (case swap_current expected replacement q of
             (None, q) \<Rightarrow> (False, False, q)
           | (Some readyBuffer, q) \<Rightarrow>
               (case finish_publish readyBuffer allocatedBecauseNoFree q of
                  (needSignal, q) \<Rightarrow> (True, needSignal, q))))"

definition PublishCurrent :: "'c buffer_queue \<Rightarrow> bool \<times> bool \<times> 'c buffer_queue" where
  "PublishCurrent q = publish None q"

definition PublishCurrentIfMatches ::
  "nat option \<Rightarrow> 'c buffer_queue \<Rightarrow> bool \<times> bool \<times> 'c buffer_queue" where
  "PublishCurrentIfMatches expected q =
     (case expected of None \<Rightarrow> (False, False, q) | Some e \<Rightarrow> publish (Some e) q)"

definition ReportWrite :: "nat \<Rightarrow> nat \<Rightarrow> bool \<Rightarrow> 'c buffer_queue \<Rightarrow> 'c buffer_queue" where
  "ReportWrite buffers bytes ok q = CountWritten buffers bytes ok q"

definition HasReady :: "'c buffer_queue \<Rightarrow> bool" where
  "HasReady q \<longleftrightarrow> ReadyList q \<noteq> []"

definition HasCurrentData :: "'c buffer_queue \<Rightarrow> bool" where
  "HasCurrentData q \<longleftrightarrow> Size (Current q) \<noteq> 0"

definition HasCurrentDataFlagged :: "'c buffer_queue \<Rightarrow> bool" where
  "HasCurrentDataFlagged q = HasCurrentDataFlag q"

definition GetCurrentFirstWriteTimeSnapshot :: "'c buffer_queue \<Rightarrow> u64" where
  "GetCurrentFirstWriteTimeSnapshot q = CurrentFirstWriteTime q"

definition GetOldestReadyDataTime :: "'c buffer_queue \<Rightarrow> u64" where
  "GetOldestReadyDataTime q = (case ReadyList q of [] \<Rightarrow> 0 | b # bs \<Rightarrow> FirstWriteTime b)"

definition GetUsedBuffers :: "'c buffer_queue \<Rightarrow> int" where
  "GetUsedBuffers q = UsedBuffersCount q"

definition TrimFreeBuffersIfIdle :: "'c buffer_queue \<Rightarrow> 'c buffer_queue" where
  "TrimFreeBuffersIfIdle q = DecayFreeLocked q"

definition GetOldestDataTime :: "'c buffer_queue \<Rightarrow> u64" where
  "GetOldestDataTime q =
     (let readyTime = (case ReadyList q of [] \<Rightarrow> 0 | b # bs \<Rightarrow> FirstWriteTime b);
          currentTime = (if Size (Current q) \<noteq> 0 then FirstWriteTime (Current q) else 0)
      in if readyTime = 0 then currentTime
         else if currentTime = 0 then readyTime
         else if readyTime < currentTime then readyTime else currentTime)"

definition GetCounters :: "'c buffer_queue \<Rightarrow> buffer_counters" where
  "GetCounters q = Counters q"

definition GetGlobalCounters :: "'c buffer_queue \<Rightarrow> buffer_counters" where
  "GetGlobalCounters q = GlobalCounters q"

section \<open>The accounts of a queue\<close>

text \<open>\<open>frame q q'\<close>: the operation did not touch what the queue carries, nor its configuration.\<close>

definition frame :: "'c buffer_queue \<Rightarrow> 'c buffer_queue \<Rightarrow> bool" where
  "frame q q' \<longleftrightarrow> OptionsValue q' = OptionsValue q \<and> QueueTracker q' = QueueTracker q \<and>
     ReadyList q' = ReadyList q \<and> Current q' = Current q \<and> Signaled q' = Signaled q \<and>
     HasCurrentDataFlag q' = HasCurrentDataFlag q \<and> CurrentFirstWriteTime q' = CurrentFirstWriteTime q"

lemma frame_refl [simp]: "frame q q"
  by (simp add: frame_def)

lemma frame_trans: "frame q q' \<Longrightarrow> frame q' q'' \<Longrightarrow> frame q q''"
  by (simp add: frame_def)

text \<open>
  The accounts: every buffer of the queue is free, ready, current or outside in the hands of a
  thread (\<open>ext\<close>), \<open>TotalBuffers\<close> counts them all, \<open>UsedBuffersCount\<close> those that are not free,
  and the usage counters are those of \<open>base\<close> plus what these buffers owe.
\<close>

definition all_buffers :: "data_buffer list \<Rightarrow> 'c buffer_queue \<Rightarrow> data_buffer list" where
  "all_buffers ext q = FreeList q @ ReadyList q @ Current q # ext"

definition within_limit :: "'c buffer_queue \<Rightarrow> bool" where
  "within_limit q \<longleftrightarrow> (MaxTotalBuffers (OptionsValue q) = 0 \<or>
     TotalBuffers q \<le> int (MaxTotalBuffers (OptionsValue q)))"

definition sound_buffer :: "'c buffer_queue \<Rightarrow> data_buffer \<Rightarrow> bool" where
  "sound_buffer q b \<longleftrightarrow> MemoryTracker b = QueueTracker q \<and> length (Content b) \<le> CapacityValue b"

definition accounts ::
  "('c \<Rightarrow> bool) \<Rightarrow> (nat \<Rightarrow> int) \<Rightarrow> data_buffer list \<Rightarrow> 'c buffer_queue \<Rightarrow> bool" where
  "accounts good base ext q \<longleftrightarrow>
     good (Cache q) \<and>
     TotalBuffers q = int (length (all_buffers ext q)) \<and>
     UsedBuffersCount q + int (length (FreeList q)) = TotalBuffers q \<and>
     within_limit q \<and>
     (\<forall>b \<in> set (all_buffers ext q). sound_buffer q b) \<and>
     (\<forall>b \<in> set (FreeList q). Content b = []) \<and>
     (\<forall>t. MemoryUsage (Heap q) t = base t + owed t (all_buffers ext q))"

text \<open>What the ready list and the flags promise.\<close>

definition flags_ok :: "'c buffer_queue \<Rightarrow> bool" where
  "flags_ok q \<longleftrightarrow> (\<forall>b \<in> set (ReadyList q). Content b \<noteq> []) \<and>
     (ReadyList q \<noteq> [] \<longrightarrow> Signaled q) \<and> (HasCurrentDataFlag q \<longleftrightarrow> Content (Current q) \<noteq> [])"

lemma flags_frame: "frame q q' \<Longrightarrow> flags_ok q \<Longrightarrow> flags_ok q'"
  by (simp add: frame_def flags_ok_def)

lemma count_event_fields [simp]:
  "OptionsValue (count_event f q) = OptionsValue q" "QueueTracker (count_event f q) = QueueTracker q"
  "FreeList (count_event f q) = FreeList q" "ReadyList (count_event f q) = ReadyList q"
  "Current (count_event f q) = Current q" "HasCurrentDataFlag (count_event f q) = HasCurrentDataFlag q"
  "CurrentFirstWriteTime (count_event f q) = CurrentFirstWriteTime q"
  "UsedBuffersCount (count_event f q) = UsedBuffersCount q" "TotalBuffers (count_event f q) = TotalBuffers q"
  "AdaptiveFreeLimit (count_event f q) = AdaptiveFreeLimit q" "Signaled (count_event f q) = Signaled q"
  "Cache (count_event f q) = Cache q" "Heap (count_event f q) = Heap q" "Clock (count_event f q) = Clock q"
  by (simp_all add: count_event_def)

lemma accounts_count_event [simp]:
  "accounts good base ext (count_event f q) = accounts good base ext q"
  by (simp add: accounts_def all_buffers_def sound_buffer_def within_limit_def)

lemma frame_count_event [simp]: "frame q (count_event f q') = frame q q'"
  by (simp add: frame_def)

lemma flags_count_event [simp]: "flags_ok (count_event f q) = flags_ok q"
  by (simp add: flags_ok_def)

lemma accounts_adaptive [simp]:
  "accounts good base ext (q\<lparr>AdaptiveFreeLimit := n\<rparr>) = accounts good base ext q"
  by (simp add: accounts_def all_buffers_def sound_buffer_def within_limit_def)

lemma owed_mset:
  "owed t bs = (\<Sum>b\<in>#mset bs. if MemoryTracker b = Some t then int (CapacityValue b) else 0)"
  by (induction bs) simp_all

lemma accounts_perm:
  "mset ext = mset ext' \<Longrightarrow> accounts good base ext q = accounts good base ext' q"
proof -
  assume m: "mset ext = mset ext'"
  then have "owed t ext = owed t ext'" for t
    by (simp add: owed_mset)
  with m mset_eq_setD [OF m] mset_eq_length [OF m] show ?thesis
    by (simp add: accounts_def all_buffers_def)
qed

text \<open>Taking from the free list and recycling.\<close>

lemma accounts_take_free:
  assumes "accounts good base ext q" and "TryTakeFreeBuffer q = (Some b, q')"
  shows "accounts good base (b # ext) q' \<and> frame q q' \<and> Content b = []"
  using assms
  by (auto simp: TryTakeFreeBuffer_def accounts_def all_buffers_def frame_def within_limit_def sound_buffer_def
      split: list.splits)

lemma take_free_None: "TryTakeFreeBuffer q = (None, q') \<Longrightarrow> q' = q"
  by (auto simp: TryTakeFreeBuffer_def split: list.splits)

definition put_free :: "data_buffer \<Rightarrow> 'c buffer_queue \<Rightarrow> 'c buffer_queue" where
  "put_free b q = q\<lparr>FreeList := FreeList q @ [Reset b], UsedBuffersCount := UsedBuffersCount q - 1\<rparr>"

lemma accounts_put_free:
  "accounts good base (b # ext) q \<Longrightarrow> accounts good base ext (put_free b q) \<and> frame q (put_free b q)"
  by (auto simp: put_free_def accounts_def all_buffers_def frame_def within_limit_def sound_buffer_def)

lemma Recycle_fold: "Recycle bs q = fold put_free bs q"
  by (induction bs q rule: Recycle.induct) (simp_all add: put_free_def)

lemma accounts_Recycle:
  "accounts good base (bs @ ext) q \<Longrightarrow> accounts good base ext (Recycle bs q) \<and> frame q (Recycle bs q)"
proof (induction bs arbitrary: q)
  case (Cons b bs)
  then have "accounts good base (bs @ ext) (put_free b q)" "frame q (put_free b q)"
    using accounts_put_free [of good base b "bs @ ext" q] by auto
  with Cons.IH [of "put_free b q"] show ?case
    by (auto simp: Recycle_fold intro: frame_trans)
qed simp

text \<open>
  The operations that use the cache, under the contract of the cache: the queue has no callbacks,
  or those of the locale.
\<close>

definition with_callbacks ::
  "(nat option \<Rightarrow> nat \<Rightarrow> u64 \<Rightarrow> 'c \<Rightarrow> heap \<Rightarrow> 'c \<times> heap \<times> data_buffer option) \<Rightarrow>
   (data_buffer \<Rightarrow> u64 \<Rightarrow> 'c \<Rightarrow> heap \<Rightarrow> 'c \<times> heap \<times> bool) \<Rightarrow> 'c queue_options \<Rightarrow> bool" where
  "with_callbacks take_cached return_cached o' \<longleftrightarrow>
     (TakeCachedBuffer o' = None \<or> TakeCachedBuffer o' = Some take_cached) \<and>
     (ReturnCachedBuffer o' = None \<or> ReturnCachedBuffer o' = Some return_cached)"

lemma Reset_id: "Content b = [] \<Longrightarrow> CapacityValue (Reset b) = CapacityValue b \<and> Content (Reset b) = []"
  by simp

lemma total_limit_cong [simp]:
  "total_limit_reached (q\<lparr>Cache := c, Heap := h\<rparr>) = total_limit_reached q"
  "total_limit_reached (q\<lparr>Heap := h\<rparr>) = total_limit_reached q"
  "total_limit_reached (q\<lparr>Cache := c\<rparr>) = total_limit_reached q"
  by (simp_all add: total_limit_reached_def)

text \<open>A new buffer charged to the queue's tracker.\<close>

definition charged ::
  "('c \<Rightarrow> bool) \<Rightarrow> data_buffer \<Rightarrow> 'c buffer_queue \<Rightarrow> 'c buffer_queue \<Rightarrow> bool" where
  "charged good b q q' \<longleftrightarrow> (\<exists>c h. q' = q\<lparr>Cache := c, Heap := h\<rparr> \<and> good c \<and>
     MemoryTracker b = QueueTracker q \<and> Content b = [] \<and>
     (\<forall>t. MemoryUsage h t = MemoryUsage (Heap q) t +
        (if QueueTracker q = Some t then int (CapacityValue b) else 0)))"

lemma new_buffer_charged:
  "good (Cache q) \<Longrightarrow> new_buffer q = (b, q') \<Longrightarrow> charged good b q q'"
  unfolding charged_def
  by (rule exI [of _ "Cache q"], rule exI [of _ "Heap q'"])
    (auto simp: new_buffer_def DataBuffer_new_def AddMemoryUsage_def Let_def split: option.splits)

context buffer_cache
begin

lemma take_cached_buffer:
  assumes "good (Cache q)" and "with_callbacks take_cached return_cached (OptionsValue q)"
    and "TryTakeCachedBuffer q = (r, q')"
  shows "case r of
      None \<Rightarrow> (\<exists>c. q' = q\<lparr>Cache := c\<rparr> \<and> good c)
    | Some b \<Rightarrow> charged good b q q'"
proof (cases "TakeCachedBuffer (OptionsValue q)")
  case None
  with assms show ?thesis
    by (auto simp: TryTakeCachedBuffer_def intro!: exI [of _ "Cache q"])
next
  case (Some f)
  with assms(2) have f: "f = take_cached" by (simp add: with_callbacks_def)
  obtain c h b where t: "take_cached (QueueTracker q) (BufferSize (OptionsValue q)) (Clock q) (Cache q) (Heap q)
      = (c, h, b)" by (metis prod_cases3)
  have q': "q' = q\<lparr>Cache := c, Heap := h\<rparr>" "r = map_option Reset b"
    using assms(3) Some f t by (auto simp: TryTakeCachedBuffer_def)
  show ?thesis
  proof (cases b)
    case None
    with t take_none [OF assms(1)] take_good [OF assms(1)] q' show ?thesis
      by (auto intro!: exI [of _ c])
  next
    case (Some b0)
    with t take_some [OF assms(1)] take_good [OF assms(1)] q' show ?thesis
      unfolding charged_def by (auto intro!: exI [of _ c] exI [of _ h])
  qed
qed

lemma obtain_buffer:
  assumes "good (Cache q)" and "with_callbacks take_cached return_cached (OptionsValue q)"
    and "TryTakeCachedBuffer q = (r, q1)"
    and "(case r of Some b \<Rightarrow> (b, q1) | None \<Rightarrow> new_buffer q1) = (b, q')"
  shows "charged good b q q'"
proof (cases r)
  case None
  with take_cached_buffer [OF assms(1-3)] obtain c where c: "q1 = q\<lparr>Cache := c\<rparr>" "good c" by auto
  have "charged good b q1 q'"
    by (rule new_buffer_charged) (use c None assms(4) in auto)
  with c show ?thesis unfolding charged_def by auto
next
  case (Some b0)
  with take_cached_buffer [OF assms(1-3)] assms(4) show ?thesis by simp
qed

lemma accounts_charge:
  assumes "accounts good base ext q" and "charged good b q q1" and "\<not> total_limit_reached q"
    and "q' = q1\<lparr>TotalBuffers := TotalBuffers q1 + 1, UsedBuffersCount := UsedBuffersCount q1 + 1\<rparr>"
  shows "accounts good base (b # ext) q' \<and> frame q q'"
proof -
  from assms(2) obtain c h where q1: "q1 = q\<lparr>Cache := c, Heap := h\<rparr>" and c: "good c"
    and b: "MemoryTracker b = QueueTracker q" "Content b = []"
    and h: "\<And>t. MemoryUsage h t = MemoryUsage (Heap q) t +
        (if QueueTracker q = Some t then int (CapacityValue b) else 0)"
    unfolding charged_def by blast
  have q': "q' = q\<lparr>Cache := c, Heap := h, TotalBuffers := TotalBuffers q + 1,
      UsedBuffersCount := UsedBuffersCount q + 1\<rparr>"
    using assms(4) q1 by simp
  have m: "MemoryUsage h t = base t + owed t (all_buffers (b # ext) q)" for t
    using assms(1) h [of t] b by (simp add: accounts_def all_buffers_def)
  have "within_limit q'"
    using assms(3) q' by (auto simp: within_limit_def total_limit_reached_def)
  moreover have "all_buffers (b # ext) q' = all_buffers (b # ext) q" "sound_buffer q' = sound_buffer q"
    "set (all_buffers (b # ext) q) = insert b (set (all_buffers ext q))"
    by (auto simp: q' all_buffers_def sound_buffer_def fun_eq_iff)
  ultimately show ?thesis
    using assms(1) c b m by (simp add: accounts_def q' frame_def sound_buffer_def)
      (simp add: all_buffers_def)
qed

lemma accounts_TryCreateBuffer:
  assumes "accounts good base ext q" and "with_callbacks take_cached return_cached (OptionsValue q)"
    and "TryCreateBuffer q = (r, q')"
  shows "case r of
      None \<Rightarrow> accounts good base ext q' \<and> frame q q'
    | Some b \<Rightarrow> accounts good base (b # ext) q' \<and> frame q q' \<and> Content b = []"
proof (cases "total_limit_reached q")
  case True
  with assms show ?thesis by (auto simp: TryCreateBuffer_def)
next
  case False
  have g: "good (Cache q)" using assms(1) by (simp add: accounts_def)
  obtain r1 q1 where t: "TryTakeCachedBuffer q = (r1, q1)" by fastforce
  obtain b q2 where n: "(case r1 of Some b \<Rightarrow> (b, q1) | None \<Rightarrow> new_buffer q1) = (b, q2)" by fastforce
  from obtain_buffer [OF g assms(2) t n] have ch: "charged good b q q2" .
  then have "\<not> total_limit_reached q2" "Content b = []"
    using False by (auto simp: charged_def)
  moreover note accounts_charge [OF assms(1) ch False refl]
  ultimately show ?thesis
    using assms(3) False t n
    by (auto simp: TryCreateBuffer_def Let_def CountAllocated_def split: prod.splits if_splits)
qed

lemma accounts_take_replacement:
  assumes "accounts good base ext q" and "with_callbacks take_cached return_cached (OptionsValue q)"
    and "take_replacement q = (r, a, q')"
  shows "case r of
      None \<Rightarrow> accounts good base ext q' \<and> frame q q'
    | Some b \<Rightarrow> accounts good base (b # ext) q' \<and> frame q q' \<and> Content b = []"
proof (cases "TryTakeFreeBuffer q")
  case (Pair r1 q1)
  show ?thesis
  proof (cases r1)
    case None
    with Pair take_free_None have "q1 = q" by blast
    with accounts_TryCreateBuffer [OF assms(1,2)] Pair None assms(3) show ?thesis
      by (auto simp: take_replacement_def split: prod.splits)
  next
    case (Some b)
    with Pair accounts_take_free [OF assms(1)] assms(3) show ?thesis
      by (auto simp: take_replacement_def)
  qed
qed

end

text \<open>Giving buffers back and the decay of the free list.\<close>

lemma give_back_fields [simp]:
  "OptionsValue (give_back b q) = OptionsValue q" "QueueTracker (give_back b q) = QueueTracker q"
  "FreeList (give_back b q) = FreeList q" "ReadyList (give_back b q) = ReadyList q"
  "Current (give_back b q) = Current q" "HasCurrentDataFlag (give_back b q) = HasCurrentDataFlag q"
  "CurrentFirstWriteTime (give_back b q) = CurrentFirstWriteTime q"
  "UsedBuffersCount (give_back b q) = UsedBuffersCount q" "TotalBuffers (give_back b q) = TotalBuffers q"
  "AdaptiveFreeLimit (give_back b q) = AdaptiveFreeLimit q" "Signaled (give_back b q) = Signaled q"
  by (auto simp: give_back_def TryReturnCachedBuffer_def CountDeleted_def split: option.split prod.split)

lemma decay_limit_le: "decay_limit base free limit \<le> limit"
  by (induction base free limit rule: decay_limit.induct) (subst decay_limit.simps, auto)

lemma decay_limit_eq:
  "decay_limit base free limit =
     (if limit > base \<and> free < limit then max base free else limit)"
proof (induction base free limit rule: decay_limit.induct)
  case (1 base free limit)
  show ?case
  proof (cases "limit > base \<and> free \<le> limit - 1")
    case True
    with 1 show ?thesis by (subst decay_limit.simps) (auto simp: max_def)
  next
    case False
    then show ?thesis by (subst decay_limit.simps) auto
  qed
qed

lemma pop_over_limit [simp]: "AdaptiveFreeLimit (pop_over bs q) = AdaptiveFreeLimit q"
  by (induction bs arbitrary: q) simp_all

lemma length_pop_over: "length (FreeList (pop_over bs q)) \<le> AdaptiveFreeLimit q"
proof (induction bs arbitrary: q)
  case (Cons b bs)
  from Cons.IH [of "give_back b (q\<lparr>FreeList := bs, TotalBuffers := TotalBuffers q - 1\<rparr>)"]
  show ?case by (simp add: not_less)
qed simp

context buffer_cache
begin

lemma give_back_spec:
  assumes "good (Cache q)" and "with_callbacks take_cached return_cached (OptionsValue q)"
  shows "good (Cache (give_back b q)) \<and>
    MemoryUsage (Heap (give_back b q)) t = MemoryUsage (Heap q) t -
      (if MemoryTracker b = Some t then int (CapacityValue b) else 0)"
proof (cases "ReturnCachedBuffer (OptionsValue q)")
  case None
  with assms show ?thesis
    by (simp add: give_back_def TryReturnCachedBuffer_def CountDeleted_def delete_usage)
next
  case (Some f)
  with assms(2) have f: "f = return_cached" by (simp add: with_callbacks_def)
  obtain c h ok where r: "return_cached (Reset b) (Clock q) (Cache q) (Heap q) = (c, h, ok)"
    by (metis prod_cases3)
  with return_good [OF assms(1) r] return_usage [OF assms(1) r] Some f show ?thesis
    by (simp add: give_back_def TryReturnCachedBuffer_def CountDeleted_def)
qed

lemma accounts_pop_over:
  assumes "accounts good base ext (q\<lparr>FreeList := bs\<rparr>)"
    and "with_callbacks take_cached return_cached (OptionsValue q)"
  shows "accounts good base ext (pop_over bs q) \<and> frame q (pop_over bs q)"
  using assms
proof (induction bs arbitrary: q)
  case Nil
  then show ?case by (simp add: frame_def)
next
  case (Cons b bs)
  let ?q1 = "q\<lparr>FreeList := bs, TotalBuffers := TotalBuffers q - 1\<rparr>"
  let ?q2 = "give_back b ?q1"
  have g: "good (Cache ?q1)" and w: "with_callbacks take_cached return_cached (OptionsValue ?q1)"
    using Cons.prems by (simp_all add: accounts_def)
  note spec = give_back_spec [OF g w, of b]
  have "accounts good base ext (?q2\<lparr>FreeList := bs\<rparr>)"
    using Cons.prems(1) spec by (auto simp: accounts_def all_buffers_def within_limit_def sound_buffer_def)
  moreover have "frame q ?q2" by (simp add: frame_def)
  moreover have "frame q (q\<lparr>FreeList := b # bs\<rparr>)" by (simp add: frame_def)
  ultimately show ?case
    using Cons.IH [of ?q2] Cons.prems by (auto intro: frame_trans)
qed

lemma accounts_DecayFreeLocked:
  assumes "accounts good base ext q" and "with_callbacks take_cached return_cached (OptionsValue q)"
  shows "accounts good base ext (DecayFreeLocked q) \<and> frame q (DecayFreeLocked q)"
proof -
  let ?q1 = "q\<lparr>AdaptiveFreeLimit :=
    decay_limit (BaseFreeLimit (OptionsValue q)) (length (FreeList q)) (AdaptiveFreeLimit q)\<rparr>"
  have "?q1\<lparr>FreeList := FreeList q\<rparr> = ?q1" by simp
  then have "accounts good base ext (?q1\<lparr>FreeList := FreeList q\<rparr>)" using assms(1) by simp
  from accounts_pop_over [OF this] assms(2)
  have "accounts good base ext (DecayFreeLocked q) \<and> frame ?q1 (DecayFreeLocked q)"
    by (simp add: DecayFreeLocked_def Let_def)
  then show ?thesis by (simp add: frame_def)
qed

lemma accounts_ReleaseBuffer:
  assumes "accounts good base (b # ext) q" and "with_callbacks take_cached return_cached (OptionsValue q)"
  shows "accounts good base ext (ReleaseBuffer b q) \<and> frame q (ReleaseBuffer b q)"
proof -
  have r: "ReleaseBuffer b q = DecayFreeLocked (put_free b q)"
    by (simp add: ReleaseBuffer_def put_free_def)
  have "with_callbacks take_cached return_cached (OptionsValue (put_free b q))"
    using assms(2) by (simp add: put_free_def)
  with accounts_put_free [OF assms(1)] accounts_DecayFreeLocked [of base ext "put_free b q"]
  show ?thesis unfolding r by (blast intro: frame_trans)
qed

end

section \<open>What the queue carries\<close>

definition chunks :: "'c buffer_queue \<Rightarrow> string list" where
  "chunks q = map Content (ReadyList q)"

definition current :: "'c buffer_queue \<Rightarrow> string" where
  "current q = Content (Current q)"

definition settings :: "'c buffer_queue \<Rightarrow> 'c queue_options \<times> nat option" where
  "settings q = (OptionsValue q, QueueTracker q)"

definition nonempty :: "string \<Rightarrow> string list" where
  "nonempty c = (if c = [] then [] else [c])"

lemma concat_nonempty [simp]: "concat (nonempty c) = c"
  by (simp add: nonempty_def)

lemma frame_carries:
  "frame q q' \<Longrightarrow> chunks q' = chunks q \<and> current q' = current q \<and> settings q' = settings q"
  by (simp add: frame_def chunks_def current_def settings_def)

lemma current_count_event [simp]:
  "current (count_event f q) = current q" "chunks (count_event f q) = chunks q"
  "settings (count_event f q) = settings q"
  by (simp_all add: current_def chunks_def settings_def)

lemma Size_0: "Size b = 0 \<longleftrightarrow> Content b = []"
  by (simp add: Size_def)

text \<open>Replacing the current buffer: the old one is then outside the queue.\<close>

lemma accounts_swap:
  assumes "accounts good base (r # ext) q"
    and "MemoryTracker n = MemoryTracker r" and "CapacityValue n = CapacityValue r"
    and "length (Content n) \<le> CapacityValue r"
  shows "accounts good base (Current q # ext)
    (q\<lparr>Current := n, CurrentFirstWriteTime := w, HasCurrentDataFlag := f\<rparr>)"
  using assms by (auto simp: accounts_def all_buffers_def within_limit_def sound_buffer_def)

lemma accounts_current:
  assumes "accounts good base ext q"
    and "MemoryTracker n = MemoryTracker (Current q)" and "CapacityValue n = CapacityValue (Current q)"
    and "length (Content n) \<le> CapacityValue n"
  shows "accounts good base ext (q\<lparr>Current := n\<rparr>)"
  using assms by (auto simp: accounts_def all_buffers_def within_limit_def sound_buffer_def)

lemma accounts_plain [simp]:
  "accounts good base ext (q\<lparr>CurrentFirstWriteTime := w\<rparr>) = accounts good base ext q"
  "accounts good base ext (q\<lparr>HasCurrentDataFlag := f\<rparr>) = accounts good base ext q"
  "accounts good base ext (q\<lparr>Signaled := g\<rparr>) = accounts good base ext q"
  by (simp_all add: accounts_def all_buffers_def within_limit_def sound_buffer_def)

lemma accounts_push_ready:
  "accounts good base (b # ext) q \<Longrightarrow> accounts good base ext (q\<lparr>ReadyList := ReadyList q @ [b]\<rparr>)"
  by (auto simp: accounts_def all_buffers_def within_limit_def sound_buffer_def)

lemma MaybeGrowAdaptive_cases:
  "MaybeGrowAdaptive a q = q \<or> MaybeGrowAdaptive a q = q\<lparr>AdaptiveFreeLimit := AdaptiveFreeLimit q + 1\<rparr>"
  unfolding MaybeGrowAdaptive_def Let_def by presburger

lemma MaybeGrowAdaptive_frame:
  "frame q (MaybeGrowAdaptive a q) \<and> accounts good base ext (MaybeGrowAdaptive a q) = accounts good base ext q"
  using MaybeGrowAdaptive_cases [of a q] by (auto simp: frame_def)

lemma append_current_spec:
  assumes "accounts good base ext q" and "flags_ok q" and "CanAppend (length p) (Current q)"
    and "append_current p w q = (first, q')" and "p \<noteq> []"
  shows "accounts good base ext q' \<and> flags_ok q' \<and> current q' = current q @ p \<and>
    chunks q' = chunks q \<and> settings q' = settings q \<and> (first \<longleftrightarrow> current q = [])"
proof -
  let ?n = "AppendBytes p (if current q = [] then SetFirstWriteTime w (Current q) else Current q)"
  have n: "MemoryTracker ?n = MemoryTracker (Current q)" "CapacityValue ?n = CapacityValue (Current q)"
    "Content ?n = current q @ p"
    by (auto simp: AppendBytes_def SetFirstWriteTime_def current_def)
  have "length (current q) \<le> CapacityValue (Current q)"
    using assms(1) by (simp add: accounts_def all_buffers_def sound_buffer_def current_def)
  then have "length (Content ?n) \<le> CapacityValue ?n"
    using assms(3) n by (simp add: CanAppend_def Size_def current_def)
  from accounts_current [OF assms(1) n(1,2) this] have a: "accounts good base ext (q\<lparr>Current := ?n\<rparr>)" .
  show ?thesis
  proof (cases "current q = []")
    case True
    then have "q' = (q\<lparr>Current := ?n\<rparr>)\<lparr>CurrentFirstWriteTime := w, HasCurrentDataFlag := True\<rparr>" "first"
      using assms(4) by (auto simp: append_current_def Let_def Size_0 current_def)
    with a n assms(2,5) True show ?thesis
      by (simp add: flags_ok_def current_def chunks_def settings_def)
  next
    case False
    then have "q' = q\<lparr>Current := ?n\<rparr>" "\<not> first"
      using assms(4) by (auto simp: append_current_def Let_def Size_0 current_def)
    with a n assms(2,5) False show ?thesis
      by (simp add: flags_ok_def current_def chunks_def settings_def)
  qed
qed

context buffer_cache
begin

lemma EnqueueReady_spec:
  assumes "accounts good base (b # ext) q" and "flags_ok q"
    and "with_callbacks take_cached return_cached (OptionsValue q)"
    and "EnqueueReady b ns q = (ns', q')"
  shows "accounts good base ext q' \<and> flags_ok q' \<and> chunks q' = chunks q @ nonempty (Content b) \<and>
    current q' = current q \<and> settings q' = settings q"
proof (cases "Content b = []")
  case True
  then have "q' = ReleaseBuffer b q" using assms(4) by (simp add: EnqueueReady_def Size_0)
  with accounts_ReleaseBuffer [OF assms(1,3)] flags_frame [OF _ assms(2)] frame_carries True show ?thesis
    by (auto simp: nonempty_def)
next
  case False
  have "accounts good base ext (q\<lparr>ReadyList := ReadyList q @ [b]\<rparr>)"
    by (rule accounts_push_ready [OF assms(1)])
  with False assms(2,4) show ?thesis
    by (auto simp: EnqueueReady_def Size_0 Let_def CountEnqueued_def CountSignal_def flags_ok_def
        chunks_def nonempty_def current_def settings_def split: if_splits)
qed

lemma finish_publish_spec:
  assumes "accounts good base (b # ext) q" and "flags_ok q"
    and "with_callbacks take_cached return_cached (OptionsValue q)"
    and "finish_publish b a q = (ns, q')"
  shows "accounts good base ext q' \<and> flags_ok q' \<and> chunks q' = chunks q @ nonempty (Content b) \<and>
    current q' = current q \<and> settings q' = settings q"
proof -
  let ?q1 = "MaybeGrowAdaptive a q"
  have "frame q ?q1" using MaybeGrowAdaptive_frame by blast
  moreover have "accounts good base (b # ext) ?q1" using MaybeGrowAdaptive_frame assms(1) by blast
  moreover have "with_callbacks take_cached return_cached (OptionsValue ?q1)"
    using assms(3) \<open>frame q ?q1\<close> by (simp add: frame_def)
  ultimately show ?thesis
    using EnqueueReady_spec [of base b ext ?q1 False ns q'] assms(2,4) flags_frame frame_carries
    by (fastforce simp: finish_publish_def)
qed

lemma swap_current_spec:
  assumes "accounts good base (r # ext) q" and "flags_ok q" and "Content r = []"
    and "with_callbacks take_cached return_cached (OptionsValue q)"
    and "swap_current e r q = (x, q')"
  shows "flags_ok q' \<and> chunks q' = chunks q \<and> settings q' = settings q \<and>
    (case x of
       None \<Rightarrow> accounts good base ext q' \<and> current q' = current q
     | Some b \<Rightarrow> accounts good base (b # ext) q' \<and> Content b = current q \<and> current q \<noteq> [] \<and> current q' = [])"
proof (cases "(case e of None \<Rightarrow> False | Some e \<Rightarrow> BufId (Current q) \<noteq> e) \<or> Size (Current q) = 0")
  case True
  then have "x = None" "q' = ReleaseBuffer r q" using assms(5) by (auto simp: swap_current_def)
  with accounts_ReleaseBuffer [OF assms(1,4)] flags_frame [OF _ assms(2)] frame_carries show ?thesis
    by fastforce
next
  case False
  let ?n = "SetSeenOnSoftFlush False (Reset r)"
  have n: "MemoryTracker ?n = MemoryTracker r" "CapacityValue ?n = CapacityValue r" "Content ?n = []"
    by (simp_all add: SetSeenOnSoftFlush_def)
  from accounts_swap [OF assms(1) n(1,2), of False 0] n(3)
  have "accounts good base (Current q # ext)
    (q\<lparr>Current := ?n, CurrentFirstWriteTime := 0, HasCurrentDataFlag := False\<rparr>)" by simp
  moreover from False have "x = Some (Current q)" "current q \<noteq> []"
    "q' = q\<lparr>Current := ?n, CurrentFirstWriteTime := 0, HasCurrentDataFlag := False\<rparr>"
    using assms(5) by (auto simp: swap_current_def Size_0 current_def)
  ultimately show ?thesis
    using assms(2) n by (simp add: flags_ok_def chunks_def current_def settings_def)
qed

end

text \<open>What an append may do: extend the current buffer, rotate it, or refuse.\<close>

definition appended :: "bool \<Rightarrow> string \<Rightarrow> 'c buffer_queue \<Rightarrow> 'c buffer_queue \<Rightarrow> bool" where
  "appended ok p q q' \<longleftrightarrow> settings q' = settings q \<and>
     (if ok then chunks q' = chunks q \<and> current q' = current q @ p \<or>
                 chunks q' = chunks q @ nonempty (current q) \<and> current q' = p
      else chunks q' = chunks q \<and> current q' = current q)"

lemma settings_callbacks:
  "settings q' = settings q \<Longrightarrow> with_callbacks f g (OptionsValue q') = with_callbacks f g (OptionsValue q)"
  by (simp add: settings_def)

context buffer_cache
begin

lemma rotate_spec:
  assumes "accounts good base (r # ext) q" and "flags_ok q" and "Content r = []" and "p \<noteq> []"
    and "with_callbacks take_cached return_cached (OptionsValue q)"
    and "CanAppend (length p) r"
    and "n = AppendBytes p (SetFirstWriteTime w (SetSeenOnSoftFlush False (Reset r)))"
    and "finish_publish (Current q) a
      (q\<lparr>Current := n, CurrentFirstWriteTime := w, HasCurrentDataFlag := True\<rparr>) = (ns, q')"
  shows "accounts good base ext q' \<and> flags_ok q' \<and> appended True p q q'"
proof -
  let ?q1 = "q\<lparr>Current := n, CurrentFirstWriteTime := w, HasCurrentDataFlag := True\<rparr>"
  have n: "MemoryTracker n = MemoryTracker r" "CapacityValue n = CapacityValue r" "Content n = p"
    unfolding assms(7) by (simp_all add: AppendBytes_def SetFirstWriteTime_def SetSeenOnSoftFlush_def)
  have l: "length (Content n) \<le> CapacityValue r"
    using assms(3,6) n by (simp add: CanAppend_def Size_def)
  from accounts_swap [OF assms(1) n(1,2) l]
  have a: "accounts good base (Current q # ext) ?q1" .
  have f: "flags_ok ?q1" using assms(2,4) n by (simp add: flags_ok_def)
  have w: "with_callbacks take_cached return_cached (OptionsValue ?q1)" using assms(5) by simp
  from finish_publish_spec [OF a f w assms(8)] n show ?thesis
    by (simp add: appended_def chunks_def current_def settings_def)
qed

lemma Append_spec:
  assumes "accounts good base ext q" and "flags_ok q"
    and "with_callbacks take_cached return_cached (OptionsValue q)"
    and "Append p w q = (ok, ns, first, q')"
  shows "accounts good base ext q' \<and> flags_ok q' \<and> appended ok p q q'"
proof (cases "p = []")
  case True
  with assms show ?thesis by (auto simp: Append_def Let_def appended_def)
next
  case p: False
  show ?thesis
  proof (cases "CanAppend (length p) (Current q)")
    case True
    obtain f q1 where a: "append_current p w q = (f, q1)" by fastforce
    with assms(4) p True have "ok" "q' = CountAppended (length p) q1"
      by (auto simp: Append_def Let_def)
    with append_current_spec [OF assms(1,2) True a p] show ?thesis
      by (simp add: CountAppended_def appended_def)
  next
    case full: False
    obtain r al q1 where t: "take_replacement q = (r, al, q1)" by (metis prod_cases3)
    note t1 = accounts_take_replacement [OF assms(1,3) t]
    show ?thesis
    proof (cases r)
      case None
      with assms(4) p full t have "\<not> ok" "q' = CountDropped (length p) q1"
        by (auto simp: Append_def Let_def)
      with t1 None flags_frame [OF _ assms(2)] frame_carries show ?thesis
        by (auto simp: CountDropped_def appended_def)
    next
      case (Some b)
      with t1 have b: "accounts good base (b # ext) q1" "frame q q1" "Content b = []" by auto
      have w1: "with_callbacks take_cached return_cached (OptionsValue q1)"
        using b(2) assms(3) by (simp add: frame_def)
      have nf: "\<not> CanAppend (length p) (Current q1)" using full b(2) by (simp add: frame_def)
      have f1: "flags_ok q1" by (rule flags_frame [OF b(2) assms(2)])
      let ?r = "SetSeenOnSoftFlush False (Reset b)"
      have cr: "CanAppend (length p) ?r = CanAppend (length p) b"
        using b(3) by (simp add: CanAppend_def Size_def SetSeenOnSoftFlush_def)
      show ?thesis
      proof (cases "CanAppend (length p) b")
        case False
        with assms(4) p full t Some nf cr have "\<not> ok" "q' = CountDropped (length p) (ReleaseBuffer b q1)"
          by (auto simp: Append_def Let_def SetSeenOnSoftFlush_def CanAppend_def Size_def ReleaseBuffer_def Reset_def)
        with accounts_ReleaseBuffer [OF b(1) w1] frame_carries [OF b(2)] flags_frame [OF _ f1] frame_carries
        show ?thesis by (fastforce simp: CountDropped_def appended_def)
      next
        case True
        let ?n = "AppendBytes p (SetFirstWriteTime w ?r)"
        let ?q2 = "q1\<lparr>Current := ?n, CurrentFirstWriteTime := w, HasCurrentDataFlag := True\<rparr>"
        obtain ns' q3 where e: "finish_publish (Current q1) al ?q2 = (ns', q3)" by fastforce
        with assms(4) p full t Some nf cr True have q': "ok" "q' = CountAppended (length p) q3"
          by (auto simp: Append_def Let_def finish_publish_def)
        from rotate_spec [OF b(1) f1 b(3) p w1 True refl e] frame_carries [OF b(2)] show ?thesis
          by (simp add: q' CountAppended_def appended_def)
      qed
    qed
  qed
qed

end

lemma accounts_tick [simp]:
  "accounts good base ext (q\<lparr>Clock := now\<rparr>) = accounts good base ext q"
  by (simp add: accounts_def all_buffers_def within_limit_def sound_buffer_def)

lemma carries_tick [simp]:
  "flags_ok (q\<lparr>Clock := now\<rparr>) = flags_ok q" "current (q\<lparr>Clock := now\<rparr>) = current q"
  "chunks (q\<lparr>Clock := now\<rparr>) = chunks q" "settings (q\<lparr>Clock := now\<rparr>) = settings q"
  by (simp_all add: flags_ok_def current_def chunks_def settings_def)

text \<open>Operations that only mark the current buffer.\<close>

lemma mark_spec:
  assumes "accounts good base ext q" and "flags_ok q" and "PrepareSoftFlushCurrent q = (r, e, q')"
  shows "accounts good base ext q' \<and> flags_ok q' \<and> chunks q' = chunks q \<and> current q' = current q \<and>
    settings q' = settings q"
proof -
  have "length (Content (Current q)) \<le> CapacityValue (Current q)"
    using assms(1) by (simp add: accounts_def all_buffers_def sound_buffer_def)
  then have "accounts good base ext (q\<lparr>Current := SetSeenOnSoftFlush True (Current q)\<rparr>)"
    by (intro accounts_current [OF assms(1)]) (simp_all add: SetSeenOnSoftFlush_def)
  with assms show ?thesis
    by (auto simp: PrepareSoftFlushCurrent_def SetSeenOnSoftFlush_def flags_ok_def chunks_def current_def
        settings_def split: if_splits)
qed

lemma set_time_spec:
  assumes "accounts good base ext q" and "flags_ok q"
  shows "accounts good base ext (SetCurrentFirstWriteTime w q) \<and> flags_ok (SetCurrentFirstWriteTime w q) \<and>
    chunks (SetCurrentFirstWriteTime w q) = chunks q \<and> current (SetCurrentFirstWriteTime w q) = current q \<and>
    settings (SetCurrentFirstWriteTime w q) = settings q"
proof -
  have "length (Content (Current q)) \<le> CapacityValue (Current q)"
    using assms(1) by (simp add: accounts_def all_buffers_def sound_buffer_def)
  then have "accounts good base ext (q\<lparr>Current := SetFirstWriteTime w (Current q)\<rparr>)"
    by (intro accounts_current [OF assms(1)]) (simp_all add: SetFirstWriteTime_def)
  then have "accounts good base ext (q\<lparr>Current := SetFirstWriteTime w (Current q), CurrentFirstWriteTime := w\<rparr>)"
    by simp
  with assms show ?thesis
    by (auto simp: SetCurrentFirstWriteTime_def SetFirstWriteTime_def flags_ok_def chunks_def current_def
        settings_def)
qed

lemma accounts_take_ready:
  assumes "accounts good base ext q"
  shows "accounts good base (ReadyList q @ ext) (q\<lparr>ReadyList := [], Signaled := False\<rparr>)"
proof -
  let ?q' = "q\<lparr>ReadyList := [], Signaled := False\<rparr>"
  have "mset (all_buffers (ReadyList q @ ext) ?q') = mset (all_buffers ext q)"
    by (simp add: all_buffers_def)
  from mset_eq_setD [OF this] mset_eq_length [OF this] this assms show ?thesis
    by (clarsimp simp: accounts_def within_limit_def sound_buffer_def owed_mset)
qed

lemma take_ready_spec:
  assumes "accounts good base ext q" and "flags_ok q" and "TakeReady q = (ok, out, q')"
  shows "accounts good base (out @ ext) q' \<and> flags_ok q' \<and> map Content out = chunks q \<and> chunks q' = [] \<and>
    current q' = current q \<and> settings q' = settings q"
proof (cases "ReadyList q = []")
  case True
  with assms have "out = []" "q' = q\<lparr>Signaled := False\<rparr>" by (simp_all add: TakeReady_def)
  with True assms(1,2) show ?thesis
    by (simp add: flags_ok_def chunks_def current_def settings_def)
next
  case False
  with assms have q': "out = ReadyList q" "q' = q\<lparr>ReadyList := [], Signaled := False\<rparr>"
    by (simp_all add: TakeReady_def)
  from accounts_take_ready [OF assms(1)] assms(2) show ?thesis
    unfolding q' by (simp add: flags_ok_def chunks_def current_def settings_def)
qed

context buffer_cache
begin

lemma publish_spec:
  assumes "accounts good base ext q" and "flags_ok q"
    and "with_callbacks take_cached return_cached (OptionsValue q)"
    and "publish e q = (ok, ns, q')"
  shows "accounts good base ext q' \<and> flags_ok q' \<and> settings q' = settings q \<and>
    (if ok then chunks q' = chunks q @ [current q] \<and> current q' = [] \<and> current q \<noteq> []
     else chunks q' = chunks q \<and> current q' = current q)"
proof -
  obtain r a q1 where t: "take_replacement q = (r, a, q1)" by (metis prod_cases3)
  note t1 = accounts_take_replacement [OF assms(1,3) t]
  show ?thesis
  proof (cases r)
    case None
    with t1 t assms(4) flags_frame [OF _ assms(2)] frame_carries show ?thesis
      by (auto simp: publish_def)
  next
    case (Some b)
    with t1 have b: "accounts good base (b # ext) q1" "frame q q1" "Content b = []" by auto
    have w1: "with_callbacks take_cached return_cached (OptionsValue q1)"
      using b(2) assms(3) by (simp add: frame_def)
    obtain x q2 where sw: "swap_current e b q1 = (x, q2)" by fastforce
    note s1 = swap_current_spec [OF b(1) flags_frame [OF b(2) assms(2)] b(3) w1 sw]
    have w2: "with_callbacks take_cached return_cached (OptionsValue q2)"
      using s1 w1 settings_callbacks by blast
    show ?thesis
    proof (cases x)
      case None
      with s1 t Some sw assms(4) frame_carries [OF b(2)] show ?thesis
        by (auto simp: publish_def)
    next
      case (Some rb)
      obtain ns' q3 where e: "finish_publish rb a q2 = (ns', q3)" by fastforce
      with \<open>r = Some b\<close> Some t sw assms(4) have "ok" "q' = q3" by (auto simp: publish_def)
      with s1 Some finish_publish_spec [OF _ _ w2 e, of base ext] frame_carries [OF b(2)] show ?thesis
        by (auto simp: nonempty_def)
    qed
  qed
qed

end

end
