(* ===== verification/Queue_Threads.thy ===== *)
theory Queue_Threads
  imports Buffer_Queue
begin

text \<open>
  The threads that use one buffer queue (\<open>Buffer/BufferQueue.cpp\<close>, called by
  \<open>Backend/FileBackend.cpp\<close>), interleaved: what the queue accepts it delivers once and whole, in
  order when publishing is not interleaved, within its buffer limit and with the memory usage
  accounted for, and its destructor leaves nothing behind.
\<close>

section \<open>Threads around a queue\<close>

text \<open>
  Log threads append, publishing threads (flush, worker, shutdown) go through the three phases of
  \<open>PublishCurrent\<close>, the worker takes and recycles. \<open>Accepted\<close>, \<open>Published\<close> and \<open>Delivered\<close> are
  history: the bytes appends accepted, the contents of the buffers in the order they left
  \<open>Current\<close>, and the contents in the order the worker got them. A step that is not enabled
  changes nothing.
\<close>

datatype publisher =
    Idle
  | Prepared data_buffer bool "nat option"
  | Swapped data_buffer bool

fun held :: "publisher \<Rightarrow> data_buffer list" where
  "held Idle = []"
| "held (Prepared b a e) = [b]"
| "held (Swapped b a) = [b]"

fun in_flight :: "publisher \<Rightarrow> string list" where
  "in_flight (Swapped b a) = [Content b]"
| "in_flight p = []"

record 'c queue_system =
  Q :: "'c buffer_queue"
  Publishers :: "publisher list"
  Taken :: "data_buffer list"
  Accepted :: string
  Published :: "string list"
  Delivered :: "string list"

datatype queue_step =
    DoAppend string u64
  | DoPrepare nat "nat option"
  | DoSwap nat
  | DoEnqueue nat
  | DoPublish "nat option"
  | DoTake
  | DoRecycle
  | DoTrim
  | DoMark
  | DoSetTime u64
  | DoReport nat nat bool
  | DoTick u64

definition publisher_at :: "nat \<Rightarrow> 'c queue_system \<Rightarrow> publisher" where
  "publisher_at i s = (if i < length (Publishers s) then Publishers s ! i else Idle)"

fun do_step :: "queue_step \<Rightarrow> 'c queue_system \<Rightarrow> 'c queue_system" where
  "do_step (DoAppend p w) s =
     (case Append p w (Q s) of (ok, needSignal, firstData, q) \<Rightarrow>
        if ok
        then s\<lparr>Q := q, Accepted := Accepted s @ p,
               Published := Published s @
                 (if current q = current (Q s) @ p then [] else nonempty (current (Q s)))\<rparr>
        else s\<lparr>Q := q\<rparr>)"
| "do_step (DoPrepare i e) s =
     (if i < length (Publishers s) \<and> Publishers s ! i = Idle
      then case take_replacement (Q s) of
             (None, a, q) \<Rightarrow> s\<lparr>Q := q\<rparr>
           | (Some b, a, q) \<Rightarrow> s\<lparr>Q := q, Publishers := (Publishers s)[i := Prepared b a e]\<rparr>
      else s)"
| "do_step (DoSwap i) s =
     (case publisher_at i s of
        Prepared b a e \<Rightarrow>
          (case swap_current e b (Q s) of
             (None, q) \<Rightarrow> s\<lparr>Q := q, Publishers := (Publishers s)[i := Idle]\<rparr>
           | (Some r, q) \<Rightarrow> s\<lparr>Q := q, Publishers := (Publishers s)[i := Swapped r a],
                               Published := Published s @ [Content r]\<rparr>)
      | _ \<Rightarrow> s)"
| "do_step (DoEnqueue i) s =
     (case publisher_at i s of
        Swapped r a \<Rightarrow>
          (case finish_publish r a (Q s) of
             (needSignal, q) \<Rightarrow> s\<lparr>Q := q, Publishers := (Publishers s)[i := Idle]\<rparr>)
      | _ \<Rightarrow> s)"
| "do_step (DoPublish e) s =
     (case publish e (Q s) of
        (ok, needSignal, q) \<Rightarrow>
          s\<lparr>Q := q, Published := Published s @ (if ok then [current (Q s)] else [])\<rparr>)"
| "do_step DoTake s =
     (if Taken s = []
      then case TakeReady (Q s) of
             (ok, out, q) \<Rightarrow> s\<lparr>Q := q, Taken := out, Delivered := Delivered s @ map Content out\<rparr>
      else s)"
| "do_step DoRecycle s = s\<lparr>Q := Recycle (Taken s) (Q s), Taken := []\<rparr>"
| "do_step DoTrim s = s\<lparr>Q := TrimFreeBuffersIfIdle (Q s)\<rparr>"
| "do_step DoMark s = (case PrepareSoftFlushCurrent (Q s) of (r, e, q) \<Rightarrow> s\<lparr>Q := q\<rparr>)"
| "do_step (DoSetTime w) s = s\<lparr>Q := SetCurrentFirstWriteTime w (Q s)\<rparr>"
| "do_step (DoReport n c ok) s = s\<lparr>Q := ReportWrite n c ok (Q s)\<rparr>"
| "do_step (DoTick now) s = s\<lparr>Q := (Q s)\<lparr>Clock := now\<rparr>\<rparr>"

definition outside :: "'c queue_system \<Rightarrow> data_buffer list" where
  "outside s = concat (map held (Publishers s)) @ Taken s"

definition flying :: "'c queue_system \<Rightarrow> string list" where
  "flying s = concat (map in_flight (Publishers s))"

fun publisher_ok :: "publisher \<Rightarrow> bool" where
  "publisher_ok Idle = True"
| "publisher_ok (Prepared b a e) = (Content b = [])"
| "publisher_ok (Swapped b a) = (Content b \<noteq> [])"

definition system_inv ::
  "('c \<Rightarrow> bool) \<Rightarrow> (nat \<Rightarrow> int) \<Rightarrow> 'c queue_options \<times> nat option \<Rightarrow> 'c queue_system \<Rightarrow> bool" where
  "system_inv good base cfg s \<longleftrightarrow>
     settings (Q s) = cfg \<and> accounts good base (outside s) (Q s) \<and> flags_ok (Q s) \<and>
     Accepted s = concat (Published s) @ current (Q s) \<and>
     mset (Published s) = mset (Delivered s @ chunks (Q s) @ flying s) \<and>
     (\<forall>p \<in> set (Publishers s). publisher_ok p)"

lemma mset_concat_update:
  assumes "i < length xs"
  shows "mset (concat (map f (xs[i := y]))) + mset (f (xs ! i)) = mset (concat (map f xs)) + mset (f y)"
proof -
  have "mset (concat (map f xs)) =
      mset (concat (map f (take i xs))) + mset (f (xs ! i)) + mset (concat (map f (drop (Suc i) xs)))"
    by (subst id_take_nth_drop [OF assms]) simp
  moreover have "mset (concat (map f (xs[i := y]))) =
      mset (concat (map f (take i xs))) + mset (f y) + mset (concat (map f (drop (Suc i) xs)))"
    by (simp add: upd_conv_take_nth_drop [OF assms])
  ultimately show ?thesis by simp
qed

text \<open>Replacing a publisher by one that holds nothing, or taking a buffer in an idle one.\<close>

lemma outside_to_idle:
  assumes "i < length (Publishers s)" and "Publishers s ! i = p" and "held p = [b]" and "held p' = []"
  shows "mset (outside s) = mset (b # outside (s\<lparr>Publishers := (Publishers s)[i := p']\<rparr>))"
  using mset_concat_update [OF assms(1), of held p'] assms by (simp add: outside_def)

lemma outside_from_idle:
  assumes "i < length (Publishers s)" and "held (Publishers s ! i) = []" and "held p' = [b]"
  shows "mset (outside (s\<lparr>Publishers := (Publishers s)[i := p']\<rparr>)) = mset (b # outside s)"
  using mset_concat_update [OF assms(1), of held p'] assms by (simp add: outside_def)

lemma outside_same:
  assumes "i < length (Publishers s)" and "held (Publishers s ! i) = [b]" and "held p' = [b']"
  shows "mset (outside (s\<lparr>Publishers := (Publishers s)[i := p']\<rparr>)) + {#b#} = mset (outside s) + {#b'#}"
  using mset_concat_update [OF assms(1), of held p'] assms by (simp add: outside_def)

lemma flying_update:
  assumes "i < length (Publishers s)"
  shows "mset (flying (s\<lparr>Publishers := (Publishers s)[i := p']\<rparr>)) + mset (in_flight (Publishers s ! i)) =
    mset (flying s) + mset (in_flight p')"
  using mset_concat_update [OF assms, of in_flight p'] by (simp add: flying_def)

lemma nonempty_mset: "c \<noteq> [] \<Longrightarrow> nonempty c = [c]"
  by (simp add: nonempty_def)

lemma publisher_at_nonidle:
  "publisher_at i s = p \<Longrightarrow> p \<noteq> Idle \<Longrightarrow> i < length (Publishers s) \<and> Publishers s ! i = p"
  by (auto simp: publisher_at_def split: if_splits)

lemma outside_more [simp]:
  "outside (s\<lparr>Q := q\<rparr>) = outside s" "flying (s\<lparr>Q := q\<rparr>) = flying s"
  "outside (s\<lparr>Accepted := a\<rparr>) = outside s" "flying (s\<lparr>Accepted := a\<rparr>) = flying s"
  "outside (s\<lparr>Published := ps\<rparr>) = outside s" "flying (s\<lparr>Published := ps\<rparr>) = flying s"
  "outside (s\<lparr>Delivered := ds\<rparr>) = outside s" "flying (s\<lparr>Delivered := ds\<rparr>) = flying s"
  "flying (s\<lparr>Taken := ts\<rparr>) = flying s"
  "outside (s\<lparr>Publishers := pb, Published := ps\<rparr>) = outside (s\<lparr>Publishers := pb\<rparr>)"
  "flying (s\<lparr>Publishers := pb, Published := ps\<rparr>) = flying (s\<lparr>Publishers := pb\<rparr>)"
  by (simp_all add: outside_def flying_def)

text \<open>A step that replaces the queue by one that carries the same and owes for the same.\<close>

lemma system_inv_same:
  assumes "system_inv good base cfg s" and "accounts good base (outside s) q" and "flags_ok q"
    and "chunks q = chunks (Q s)" and "current q = current (Q s)" and "settings q = settings (Q s)"
  shows "system_inv good base cfg (s\<lparr>Q := q\<rparr>)"
  using assms by (simp add: system_inv_def)

lemma update_ok:
  assumes "system_inv good base cfg s" and "publisher_ok p'"
  shows "\<forall>p \<in> set ((Publishers s)[i := p']). publisher_ok p"
  using assms set_update_subset_insert [of "Publishers s" i p'] by (auto simp: system_inv_def)

context buffer_cache
begin

lemma inv_callbacks:
  "system_inv good base cfg s \<Longrightarrow> with_callbacks take_cached return_cached (fst cfg) \<Longrightarrow>
     with_callbacks take_cached return_cached (OptionsValue (Q s))"
  by (auto simp: system_inv_def settings_def)

lemma inv_DoAppend:
  assumes "system_inv good base cfg s" and "with_callbacks take_cached return_cached (fst cfg)"
  shows "system_inv good base cfg (do_step (DoAppend p w) s)"
proof -
  obtain ok ns first q where a: "Append p w (Q s) = (ok, ns, first, q)" by (metis prod_cases4)
  have "accounts good base (outside s) (Q s)" "flags_ok (Q s)" using assms(1) by (simp_all add: system_inv_def)
  note sp = Append_spec [OF this inv_callbacks [OF assms] a]
  show ?thesis
  proof (cases ok)
    case False
    with a sp assms(1) system_inv_same [OF assms(1), of q] show ?thesis
      by (simp add: appended_def)
  next
    case True
    with sp consider "chunks q = chunks (Q s)" "current q = current (Q s) @ p"
      | "chunks q = chunks (Q s) @ nonempty (current (Q s))" "current q = p" "current q \<noteq> current (Q s) @ p"
      by (cases "current q = current (Q s) @ p") (auto simp: appended_def nonempty_def)
    then show ?thesis
      by cases (use a True sp assms(1) in \<open>simp_all add: system_inv_def appended_def\<close>)
  qed
qed

lemma inv_DoPrepare:
  assumes "system_inv good base cfg s" and "with_callbacks take_cached return_cached (fst cfg)"
  shows "system_inv good base cfg (do_step (DoPrepare i e) s)"
proof (cases "i < length (Publishers s) \<and> Publishers s ! i = Idle")
  case False
  with assms(1) show ?thesis by auto
next
  case i: True
  obtain r a q where t: "take_replacement (Q s) = (r, a, q)" by (metis prod_cases3)
  have ac: "accounts good base (outside s) (Q s)" and fl: "flags_ok (Q s)"
    using assms(1) by (simp_all add: system_inv_def)
  note sp = accounts_take_replacement [OF ac inv_callbacks [OF assms] t]
  show ?thesis
  proof (cases r)
    case None
    with i t sp system_inv_same [OF assms(1), of q] flags_frame [OF _ fl] frame_carries show ?thesis
      by auto
  next
    case (Some b)
    with sp have b: "accounts good base (b # outside s) q" "frame (Q s) q" "Content b = []" by auto
    let ?s1 = "s\<lparr>Publishers := (Publishers s)[i := Prepared b a e]\<rparr>"
    have "mset (outside ?s1) = mset (b # outside s)"
      by (rule outside_from_idle) (use i in auto)
    then have "accounts good base (outside ?s1) q" using b(1) by (rule iffD2 [OF accounts_perm])
    moreover have "mset (flying ?s1) = mset (flying s)"
      using flying_update [of i s "Prepared b a e"] i by simp
    moreover have "\<forall>p \<in> set ((Publishers s)[i := Prepared b a e]). publisher_ok p"
      by (rule update_ok [OF assms(1)]) (simp add: b(3))
    moreover have "outside (?s1\<lparr>Q := q\<rparr>) = outside ?s1" "flying (?s1\<lparr>Q := q\<rparr>) = flying ?s1" by simp_all
    moreover have "do_step (DoPrepare i e) s = ?s1\<lparr>Q := q\<rparr>" using i t Some by simp
    ultimately show ?thesis
      using assms(1) frame_carries [OF b(2)] flags_frame [OF b(2) fl] by (simp add: system_inv_def)
  qed
qed

lemma inv_DoSwap:
  assumes "system_inv good base cfg s" and "with_callbacks take_cached return_cached (fst cfg)"
  shows "system_inv good base cfg (do_step (DoSwap i) s)"
proof (cases "publisher_at i s")
  case (Prepared b a e)
  then have i: "i < length (Publishers s)" "Publishers s ! i = Prepared b a e"
    using publisher_at_nonidle [of i s] by auto
  have bc: "Content b = []" using assms(1) i nth_mem [OF i(1)] by (fastforce simp: system_inv_def)
  have ac: "accounts good base (outside s) (Q s)" and fl: "flags_ok (Q s)"
    using assms(1) by (simp_all add: system_inv_def)
  let ?idle = "s\<lparr>Publishers := (Publishers s)[i := Idle]\<rparr>"
  have m: "mset (outside s) = mset (b # outside ?idle)"
    by (rule outside_to_idle [OF i]) simp_all
  from ac have ac1: "accounts good base (b # outside ?idle) (Q s)" by (rule iffD1 [OF accounts_perm [OF m]])
  obtain x q where sw: "swap_current e b (Q s) = (x, q)" by fastforce
  note sp = swap_current_spec [OF ac1 fl bc inv_callbacks [OF assms] sw]
  have fly: "mset (flying ?idle) = mset (flying s)"
    using flying_update [OF i(1), of Idle] i by simp
  show ?thesis
  proof (cases x)
    case None
    then have "do_step (DoSwap i) s = ?idle\<lparr>Q := q\<rparr>" using Prepared sw by simp
    with sp None assms(1) fly update_ok [OF assms(1), of Idle i] show ?thesis
      by (simp add: system_inv_def)
  next
    case (Some r)
    let ?s1 = "s\<lparr>Publishers := (Publishers s)[i := Swapped r a]\<rparr>"
    have "mset (outside ?s1) = mset (r # outside ?idle)"
      using outside_same [OF i(1), of b "Swapped r a" r] i m by simp
    moreover have "accounts good base (r # outside ?idle) q" using sp Some by simp
    ultimately have "accounts good base (outside ?s1) q" by (rule iffD2 [OF accounts_perm])
    moreover have "mset (flying ?s1) = mset (flying s) + {#Content r#}"
      using flying_update [OF i(1), of "Swapped r a"] i by simp
    moreover have "do_step (DoSwap i) s = ?s1\<lparr>Q := q, Published := Published s @ [Content r]\<rparr>"
      using Prepared sw Some by simp
    ultimately show ?thesis
      using sp Some assms(1) update_ok [OF assms(1), of "Swapped r a" i] by (simp add: system_inv_def)
  qed
qed (use assms(1) in simp_all)

lemma inv_DoEnqueue:
  assumes "system_inv good base cfg s" and "with_callbacks take_cached return_cached (fst cfg)"
  shows "system_inv good base cfg (do_step (DoEnqueue i) s)"
proof (cases "publisher_at i s")
  case (Swapped r a)
  then have i: "i < length (Publishers s)" "Publishers s ! i = Swapped r a"
    using publisher_at_nonidle [of i s] by auto
  have rc: "Content r \<noteq> []" using assms(1) i nth_mem [OF i(1)] by (fastforce simp: system_inv_def)
  have ac: "accounts good base (outside s) (Q s)" and fl: "flags_ok (Q s)"
    using assms(1) by (simp_all add: system_inv_def)
  let ?idle = "s\<lparr>Publishers := (Publishers s)[i := Idle]\<rparr>"
  have m: "mset (outside s) = mset (r # outside ?idle)"
    by (rule outside_to_idle [OF i]) simp_all
  from ac have ac1: "accounts good base (r # outside ?idle) (Q s)" by (rule iffD1 [OF accounts_perm [OF m]])
  obtain ns q where f: "finish_publish r a (Q s) = (ns, q)" by fastforce
  note sp = finish_publish_spec [OF ac1 fl inv_callbacks [OF assms(1,2)] f]
  have fly: "mset (flying s) = mset (flying ?idle) + {#Content r#}"
    using flying_update [OF i(1), of Idle] i by simp
  have "do_step (DoEnqueue i) s = ?idle\<lparr>Q := q\<rparr>" using Swapped f by simp
  with sp assms(1) fly update_ok [OF assms(1), of Idle i] rc show ?thesis
    by (simp add: system_inv_def nonempty_mset)
qed (use assms(1) in simp_all)

lemma inv_DoPublish:
  assumes "system_inv good base cfg s" and "with_callbacks take_cached return_cached (fst cfg)"
  shows "system_inv good base cfg (do_step (DoPublish e) s)"
proof -
  obtain ok ns q where a: "publish e (Q s) = (ok, ns, q)" by (metis prod_cases3)
  have "accounts good base (outside s) (Q s)" "flags_ok (Q s)" using assms(1) by (simp_all add: system_inv_def)
  from publish_spec [OF this inv_callbacks [OF assms] a] a assms(1) show ?thesis
    by (cases ok) (simp_all add: system_inv_def)
qed

lemma inv_DoTake:
  assumes "system_inv good base cfg s"
  shows "system_inv good base cfg (do_step DoTake s)"
proof (cases "Taken s = []")
  case True
  obtain ok out q where t: "TakeReady (Q s) = (ok, out, q)" by (metis prod_cases3)
  have ac: "accounts good base (outside s) (Q s)" "flags_ok (Q s)" using assms by (simp_all add: system_inv_def)
  note sp = take_ready_spec [OF ac t]
  let ?s1 = "s\<lparr>Q := q, Taken := out, Delivered := Delivered s @ map Content out\<rparr>"
  have "mset (outside ?s1) = mset (out @ outside s)" using True by (simp add: outside_def)
  with sp have "accounts good base (outside ?s1) q" by (blast intro: iffD2 [OF accounts_perm])
  moreover have "do_step DoTake s = ?s1" using True t by simp
  moreover have "flying ?s1 = flying s" by (simp add: flying_def)
  ultimately show ?thesis using assms sp by (simp add: system_inv_def)
qed (use assms in simp)

lemma inv_DoRecycle:
  assumes "system_inv good base cfg s"
  shows "system_inv good base cfg (do_step DoRecycle s)"
proof -
  have fl: "flags_ok (Q s)" using assms by (simp add: system_inv_def)
  let ?s1 = "s\<lparr>Q := Recycle (Taken s) (Q s), Taken := []\<rparr>"
  have m: "mset (outside s) = mset (Taken s @ outside ?s1)" by (simp add: outside_def)
  have "accounts good base (outside s) (Q s)" using assms by (simp add: system_inv_def)
  then have "accounts good base (Taken s @ outside ?s1) (Q s)" by (rule iffD1 [OF accounts_perm [OF m]])
  note ac = accounts_Recycle [OF this]
  have "flying ?s1 = flying s" by (simp add: flying_def)
  with ac assms flags_frame [OF _ fl] frame_carries show ?thesis
    by (fastforce simp: system_inv_def)
qed

lemma inv_step:
  assumes "system_inv good base cfg s" and "with_callbacks take_cached return_cached (fst cfg)"
  shows "system_inv good base cfg (do_step st s)"
proof (cases st)
  case DoTrim
  have "accounts good base (outside s) (Q s)" "flags_ok (Q s)" using assms(1) by (simp_all add: system_inv_def)
  with accounts_DecayFreeLocked [OF _ inv_callbacks [OF assms]] flags_frame frame_carries show ?thesis
    unfolding DoTrim do_step.simps TrimFreeBuffersIfIdle_def
    by (blast intro: system_inv_same [OF assms(1)])
next
  case DoMark
  obtain r e q where m: "PrepareSoftFlushCurrent (Q s) = (r, e, q)" by (metis prod_cases3)
  have "accounts good base (outside s) (Q s)" "flags_ok (Q s)" using assms(1) by (simp_all add: system_inv_def)
  from mark_spec [OF this m] m show ?thesis
    by (auto simp: DoMark intro: system_inv_same [OF assms(1)])
next
  case (DoSetTime w)
  have "accounts good base (outside s) (Q s)" "flags_ok (Q s)" using assms(1) by (simp_all add: system_inv_def)
  from set_time_spec [OF this] show ?thesis
    unfolding DoSetTime do_step.simps by (blast intro: system_inv_same [OF assms(1)])
next
  case (DoReport n c ok)
  have "accounts good base (outside s) (Q s)" "flags_ok (Q s)" using assms(1) by (simp_all add: system_inv_def)
  then show ?thesis
    by (auto simp: DoReport ReportWrite_def CountWritten_def intro!: system_inv_same [OF assms(1)])
next
  case (DoTick now)
  have "accounts good base (outside s) (Q s)" "flags_ok (Q s)" using assms(1) by (simp_all add: system_inv_def)
  then show ?thesis
    by (auto simp: DoTick intro!: system_inv_same [OF assms(1)])
qed (simp_all only: inv_DoAppend [OF assms] inv_DoPrepare [OF assms] inv_DoSwap [OF assms]
    inv_DoEnqueue [OF assms] inv_DoPublish [OF assms] inv_DoTake [OF assms(1)] inv_DoRecycle [OF assms(1)])

lemma inv_run:
  assumes "system_inv good base cfg s" and "with_callbacks take_cached return_cached (fst cfg)"
  shows "system_inv good base cfg (fold do_step steps s)"
  using assms(1) by (induction steps arbitrary: s) (simp_all add: inv_step [OF _ assms(2)])

end

section \<open>The queue from construction to destruction\<close>

definition system_new :: "nat \<Rightarrow> 'c buffer_queue \<Rightarrow> 'c queue_system" where
  "system_new publishers q =
     \<lparr>Q = q, Publishers = replicate publishers Idle, Taken = [], Accepted = [], Published = [], Delivered = []\<rparr>"

context buffer_cache
begin

lemma accounts_new:
  assumes "good c" and "with_callbacks take_cached return_cached opt"
    and "q = BufferQueue_new opt tracker globals fc c h now"
  shows "accounts good (MemoryUsage h) [] q \<and> flags_ok q \<and> settings q = (opt, tracker) \<and>
    current q = [] \<and> chunks q = []"
proof -
  define q0 where "q0 = \<lparr>OptionsValue = opt, QueueTracker = tracker, FreeList = [], ReadyList = [],
      Current = \<lparr>BufId = 0, CapacityValue = 0, Content = [], FirstWriteTime = 0,
        SeenOnSoftFlush = False, MemoryTracker = None\<rparr>, HasCurrentDataFlag = False,
      CurrentFirstWriteTime = 0, UsedBuffersCount = 1, TotalBuffers = 0,
      AdaptiveFreeLimit = BaseFreeLimit opt, Signaled = False, Counters = no_counters,
      GlobalCounters = globals, FileCounters = fc, Cache = c, Heap = h, Clock = now\<rparr>"
  obtain r q1 where t: "TryTakeCachedBuffer q0 = (r, q1)" by fastforce
  obtain b q2 where n: "(case r of Some b \<Rightarrow> (b, q1) | None \<Rightarrow> new_buffer q1) = (b, q2)" by fastforce
  have "good (Cache q0)" "with_callbacks take_cached return_cached (OptionsValue q0)"
    using assms(1,2) by (simp_all add: q0_def)
  from obtain_buffer [OF this t n] obtain c' h' where q2: "q2 = q0\<lparr>Cache := c', Heap := h'\<rparr>" "good c'"
    "MemoryTracker b = tracker" "Content b = []"
    "\<And>t. MemoryUsage h' t = MemoryUsage h t + (if tracker = Some t then int (CapacityValue b) else 0)"
    unfolding charged_def by (auto simp: q0_def)
  have "q = (q2\<lparr>Current := b, TotalBuffers := 1\<rparr>) \<or> q = (CountAllocated q2)\<lparr>Current := b, TotalBuffers := 1\<rparr>"
    using t n unfolding assms(3) BufferQueue_new_def Let_def q0_def [symmetric]
    by (auto split: option.splits prod.splits)
  then show ?thesis
    using q2 by (auto simp: CountAllocated_def q0_def accounts_def all_buffers_def within_limit_def
        sound_buffer_def flags_ok_def settings_def current_def chunks_def)
qed

lemma dispose_spec:
  assumes "good (Cache q)" and "with_callbacks take_cached return_cached (OptionsValue q)"
    and "0 < TotalBuffers q"
  shows "good (Cache (dispose b q)) \<and> OptionsValue (dispose b q) = OptionsValue q \<and>
    ReadyList (dispose b q) = ReadyList q \<and> FreeList (dispose b q) = FreeList q \<and>
    TotalBuffers (dispose b q) = TotalBuffers q - 1 \<and>
    MemoryUsage (Heap (dispose b q)) t = MemoryUsage (Heap q) t - owed t [b]"
  using give_back_spec [OF assms(1,2), of b t] assms(3) by (simp add: dispose_def Let_def)

lemma fold_dispose:
  assumes "good (Cache q)" and "with_callbacks take_cached return_cached (OptionsValue q)"
    and "int (length bs) \<le> TotalBuffers q"
  shows "good (Cache (fold dispose bs q)) \<and> OptionsValue (fold dispose bs q) = OptionsValue q \<and>
    ReadyList (fold dispose bs q) = ReadyList q \<and>
    TotalBuffers (fold dispose bs q) = TotalBuffers q - int (length bs) \<and>
    MemoryUsage (Heap (fold dispose bs q)) t = MemoryUsage (Heap q) t - owed t bs"
  using assms
proof (induction bs arbitrary: q)
  case (Cons b bs)
  then have "0 < TotalBuffers q" by simp
  note d = dispose_spec [OF Cons.prems(1,2) this]
  from Cons.IH [of "dispose b q"] d [of b t] Cons.prems show ?case by simp
qed simp

lemma destroy_spec:
  assumes "accounts good base ext q" and "with_callbacks take_cached return_cached (OptionsValue q)"
  shows "TotalBuffers (BufferQueue_destroy q) = int (length ext) \<and>
    MemoryUsage (Heap (BufferQueue_destroy q)) t = base t + owed t ext"
proof -
  have tot: "TotalBuffers q = int (length (FreeList q) + length (ReadyList q) + 1 + length ext)"
    and g: "good (Cache q)"
    and u: "MemoryUsage (Heap q) t = base t + owed t (FreeList q) + owed t (ReadyList q) + owed t [Current q] + owed t ext"
    using assms(1) by (simp_all add: accounts_def all_buffers_def)
  let ?q1 = "dispose (Current q) q"
  have d1: "good (Cache ?q1) \<and> OptionsValue ?q1 = OptionsValue q \<and> ReadyList ?q1 = ReadyList q \<and>
      FreeList ?q1 = FreeList q \<and> TotalBuffers ?q1 = TotalBuffers q - 1 \<and>
      MemoryUsage (Heap ?q1) t = MemoryUsage (Heap q) t - owed t [Current q]"
    by (rule dispose_spec [OF g assms(2)]) (simp add: tot)
  let ?q2 = "fold dispose (FreeList ?q1) (?q1\<lparr>FreeList := []\<rparr>)"
  have d2: "good (Cache ?q2) \<and> OptionsValue ?q2 = OptionsValue q \<and> ReadyList ?q2 = ReadyList q \<and>
      TotalBuffers ?q2 = TotalBuffers ?q1 - int (length (FreeList q)) \<and>
      MemoryUsage (Heap ?q2) t = MemoryUsage (Heap ?q1) t - owed t (FreeList q)"
    using fold_dispose [of "?q1\<lparr>FreeList := []\<rparr>" "FreeList ?q1" t] d1 assms(2) by (simp add: tot)
  have "TotalBuffers (fold dispose (ReadyList ?q2) (?q2\<lparr>ReadyList := []\<rparr>)) =
        TotalBuffers ?q2 - int (length (ReadyList q)) \<and>
      MemoryUsage (Heap (fold dispose (ReadyList ?q2) (?q2\<lparr>ReadyList := []\<rparr>))) t =
        MemoryUsage (Heap ?q2) t - owed t (ReadyList q)"
    using fold_dispose [of "?q2\<lparr>ReadyList := []\<rparr>" "ReadyList ?q2" t] d1 d2 assms(2) by (simp add: tot)
  with d1 d2 tot u show ?thesis by (simp add: BufferQueue_destroy_def Let_def)
qed

text \<open>Order: as long as publishing is not interleaved.\<close>

lemma fifo_step:
  assumes "system_inv good base cfg s" and "with_callbacks take_cached return_cached (fst cfg)"
    and "list_all (\<lambda>p. p = Idle) (Publishers s) \<and> Published s = Delivered s @ chunks (Q s)"
    and "\<forall>i e. st \<noteq> DoPrepare i e"
  shows "list_all (\<lambda>p. p = Idle) (Publishers (do_step st s)) \<and>
    Published (do_step st s) = Delivered (do_step st s) @ chunks (Q (do_step st s))"
proof -
  have ac: "accounts good base (outside s) (Q s)" and fl: "flags_ok (Q s)"
    using assms(1) by (simp_all add: system_inv_def)
  note w = inv_callbacks [OF assms(1,2)]
  have idle: "publisher_at i s = Idle" for i
    using assms(3) by (auto simp: publisher_at_def list_all_length)
  show ?thesis
  proof (cases st)
    case (DoAppend p t)
    obtain ok ns first q where a: "Append p t (Q s) = (ok, ns, first, q)" by (metis prod_cases4)
    from Append_spec [OF ac fl w a] assms(3) show ?thesis
      by (auto simp: DoAppend a appended_def nonempty_def split: if_splits)
  next
    case (DoPublish e)
    obtain ok ns q where a: "publish e (Q s) = (ok, ns, q)" by (metis prod_cases3)
    from publish_spec [OF ac fl w a] assms(3) show ?thesis by (cases ok) (simp_all add: DoPublish a)
  next
    case DoTake
    obtain ok out q where t: "TakeReady (Q s) = (ok, out, q)" by (metis prod_cases3)
    from take_ready_spec [OF ac fl t] assms(3) show ?thesis by (simp add: DoTake t)
  next
    case DoRecycle
    have "mset (outside s) = mset (Taken s @ concat (map held (Publishers s)))" by (simp add: outside_def)
    from iffD1 [OF accounts_perm [OF this] ac] accounts_Recycle assms(3) show ?thesis
      by (fastforce simp: DoRecycle dest: frame_carries)
  next
    case DoTrim
    from accounts_DecayFreeLocked [OF ac w] assms(3) show ?thesis
      by (auto simp: DoTrim TrimFreeBuffersIfIdle_def dest: frame_carries)
  next
    case DoMark
    obtain r e q where m: "PrepareSoftFlushCurrent (Q s) = (r, e, q)" by (metis prod_cases3)
    from mark_spec [OF ac fl m] assms(3) show ?thesis by (simp add: DoMark m)
  next
    case (DoSetTime t)
    from set_time_spec [OF ac fl] assms(3) show ?thesis by (simp add: DoSetTime)
  qed (use assms(3,4) idle in \<open>simp_all add: ReportWrite_def CountWritten_def\<close>)
qed

lemma fifo_run:
  assumes "system_inv good base cfg s" and "with_callbacks take_cached return_cached (fst cfg)"
    and "list_all (\<lambda>p. p = Idle) (Publishers s) \<and> Published s = Delivered s @ chunks (Q s)"
    and "\<forall>st \<in> set steps. \<forall>i e. st \<noteq> DoPrepare i e"
  shows "Published (fold do_step steps s) = Delivered (fold do_step steps s) @ chunks (Q (fold do_step steps s))"
  using assms
proof (induction steps arbitrary: s)
  case (Cons st steps)
  from Cons.IH [OF inv_step [OF Cons.prems(1,2)] Cons.prems(2) fifo_step [OF Cons.prems(1-3)]] Cons.prems(4)
  show ?case by simp
qed simp

lemma inv_new:
  assumes "good c" and "with_callbacks take_cached return_cached opt"
  shows "system_inv good (MemoryUsage h) (opt, tracker)
    (system_new n (BufferQueue_new opt tracker globals fc c h now))"
proof -
  have "concat (map f (replicate n Idle)) = []" if "f Idle = []" for f :: "publisher \<Rightarrow> 'x list"
    using that by (induction n) simp_all
  with accounts_new [OF assms refl] show ?thesis
    by (simp add: system_inv_def system_new_def outside_def flying_def)
qed

end

section \<open>The queue of a file backend\<close>

text \<open>The options the constructor of \<open>FileBackend\<close> gives its queue; sizes not set there have the
  defaults of \<open>BufferQueue::Options\<close>.\<close>

definition backend_options ::
  "nat \<Rightarrow> nat \<Rightarrow> bool \<Rightarrow> nat \<Rightarrow> nat \<Rightarrow> u64 \<Rightarrow> buffer_cache_state queue_options" where
  "backend_options bufferSize queueBufferLimit attached cacheLimit cacheMaxLimit retainMs =
     \<lparr>BufferSize = bufferSize, BaseFreeLimit = 6, MaxTotalBuffers = queueBufferLimit,
      MaxAdaptiveFreeLimit = 0,
      TakeCachedBuffer = Some (TakeCachedDataBuffer attached cacheLimit cacheMaxLimit retainMs),
      ReturnCachedBuffer = Some (ReturnCachedDataBuffer attached cacheLimit cacheMaxLimit retainMs)\<rparr>"

lemma backend_callbacks:
  "with_callbacks (TakeCachedDataBuffer att cl cm ro) (ReturnCachedDataBuffer att cl cm ro)
     (backend_options sz lim att cl cm ro)"
  by (simp add: with_callbacks_def backend_options_def)

lemma fst_callbacks:
  "with_callbacks (TakeCachedDataBuffer att cl cm ro) (ReturnCachedDataBuffer att cl cm ro)
     (fst (backend_options sz lim att cl cm ro, tracker))"
  by (simp add: backend_callbacks)

definition backend_system ::
  "buffer_cache_state queue_options \<Rightarrow> nat option \<Rightarrow> buffer_cache_state \<Rightarrow> heap \<Rightarrow> nat \<Rightarrow>
     queue_step list \<Rightarrow> buffer_cache_state queue_system" where
  "backend_system opt tracker c h n steps =
     fold do_step steps (system_new n (BufferQueue_new opt tracker no_counters False c h 0))"

lemma backend_inv:
  assumes "cache_good c"
  shows "system_inv cache_good (MemoryUsage h) (backend_options sz lim att cl cm ro, tracker)
    (backend_system (backend_options sz lim att cl cm ro) tracker c h n steps)"
  unfolding backend_system_def
  by (rule backend_cache.inv_run [OF backend_cache.inv_new [OF assms backend_callbacks] fst_callbacks])

text \<open>C10. Whatever log threads, publishing threads and the worker do, and in whatever order, the
  queue of a file backend counts its buffers exactly: those free, ready, current, held by
  publishers and taken by the worker are \<open>TotalBuffers\<close>, at least one and never more than the
  limit; \<open>UsedBuffersCount\<close> is what is not free; a ready buffer implies that a signal is raised;
  and the memory charged is exactly that of these buffers.\<close>

theorem queue_accounts:
  assumes "cache_good c"
  shows "let s = backend_system (backend_options sz lim att cl cm ro) tracker c h n steps; q = Q s in
     TotalBuffers q = int (length (FreeList q) + length (ReadyList q) + 1 + length (outside s)) \<and>
     (lim \<noteq> 0 \<longrightarrow> TotalBuffers q \<le> int lim) \<and>
     UsedBuffersCount q = TotalBuffers q - int (length (FreeList q)) \<and> 1 \<le> UsedBuffersCount q \<and>
     (ReadyList q \<noteq> [] \<longrightarrow> Signaled q) \<and>
     MemoryUsage (Heap q) t = MemoryUsage h t + owed t (FreeList q @ ReadyList q @ Current q # outside s)"
  using backend_inv [OF assms, of h sz lim att cl cm ro tracker n steps]
  by (auto simp: Let_def system_inv_def accounts_def all_buffers_def within_limit_def flags_ok_def
      settings_def backend_options_def)

definition demo_steps :: "queue_step list" where
  "demo_steps = [DoAppend ''ab'' 1, DoPublish None, DoAppend ''cd'' 2, DoTake, DoRecycle]"

lemma cache_init_good: "cache_good cache_init"
  by (simp add: cache_good_def cache_init_def)

theorem queue_accounts_witness:
  "TotalBuffers (Q (backend_system (backend_options 4 2 True 16 64 0) (Some 0) cache_init demo_heap 1 demo_steps)) \<le> 2"
proof -
  have two: "(2::nat) \<noteq> 0" by simp
  from queue_accounts [OF cache_init_good, of 4 2 True 16 64 0 "Some 0" demo_heap 1 demo_steps 0]
  have "(2::nat) \<noteq> 0 \<longrightarrow> TotalBuffers (Q (backend_system (backend_options 4 2 True 16 64 0) (Some 0)
      cache_init demo_heap 1 demo_steps)) \<le> int 2"
    unfolding Let_def by (elim conjE)
  with two show ?thesis by simp
qed

text \<open>C1. Every byte an append accepted is in exactly one place: in the current buffer or in one
  published buffer, and each published buffer is, whole and once, delivered to the worker, on the
  ready list, or in the hands of one publisher.\<close>

theorem queue_exactly_once:
  assumes "cache_good c"
  shows "let s = backend_system (backend_options sz lim att cl cm ro) tracker c h n steps in
     Accepted s = concat (Published s) @ current (Q s) \<and>
     mset (Published s) = mset (Delivered s) + mset (chunks (Q s)) + mset (flying s)"
  using backend_inv [OF assms, of h sz lim att cl cm ro tracker n steps]
  by (simp add: Let_def system_inv_def)

theorem queue_exactly_once_witness:
  "mset (Published (backend_system (backend_options 4 2 True 16 64 0) (Some 0) cache_init demo_heap 1 demo_steps)) =
   mset (Delivered (backend_system (backend_options 4 2 True 16 64 0) (Some 0) cache_init demo_heap 1 demo_steps)) +
   mset (chunks (Q (backend_system (backend_options 4 2 True 16 64 0) (Some 0) cache_init demo_heap 1 demo_steps))) +
   mset (flying (backend_system (backend_options 4 2 True 16 64 0) (Some 0) cache_init demo_heap 1 demo_steps))"
  using queue_exactly_once [OF cache_init_good, of 4 2 True 16 64 0 "Some 0" demo_heap 1 demo_steps]
  unfolding Let_def by (elim conjE)

text \<open>C11. When no publication is interleaved with other threads, the worker gets the accepted
  bytes in the order in which they were accepted.\<close>

theorem queue_fifo:
  assumes "cache_good c" and "\<forall>st \<in> set steps. \<forall>i e. st \<noteq> DoPrepare i e"
  shows "let s = backend_system (backend_options sz lim att cl cm ro) tracker c h n steps in
     Accepted s = concat (Delivered s) @ concat (chunks (Q s)) @ current (Q s)"
proof -
  let ?opt = "backend_options sz lim att cl cm ro"
  let ?s0 = "system_new n (BufferQueue_new ?opt tracker no_counters False c h 0)"
  have i: "list_all (\<lambda>p. p = Idle) (Publishers ?s0) \<and> Published ?s0 = Delivered ?s0 @ chunks (Q ?s0)"
    using backend_cache.accounts_new [OF assms(1) backend_callbacks refl]
    by (simp add: system_new_def list_all_iff)
  from backend_cache.fifo_run [OF backend_cache.inv_new [OF assms(1) backend_callbacks] fst_callbacks i assms(2)]
  have "Published (backend_system ?opt tracker c h n steps) =
      Delivered (backend_system ?opt tracker c h n steps) @ chunks (Q (backend_system ?opt tracker c h n steps))"
    unfolding backend_system_def .
  with backend_inv [OF assms(1), of h sz lim att cl cm ro tracker n steps] show ?thesis
    by (simp add: Let_def system_inv_def)
qed

theorem queue_fifo_witness:
  "Accepted (backend_system (backend_options 4 2 True 16 64 0) (Some 0) cache_init demo_heap 1 demo_steps) =
     concat (Delivered (backend_system (backend_options 4 2 True 16 64 0) (Some 0) cache_init demo_heap 1 demo_steps)) @
     concat (chunks (Q (backend_system (backend_options 4 2 True 16 64 0) (Some 0) cache_init demo_heap 1 demo_steps))) @
     current (Q (backend_system (backend_options 4 2 True 16 64 0) (Some 0) cache_init demo_heap 1 demo_steps))"
proof -
  have "\<forall>st \<in> set demo_steps. \<forall>i e. st \<noteq> DoPrepare i e" by (simp add: demo_steps_def)
  from queue_fifo [OF cache_init_good this, of 4 2 True 16 64 0 "Some 0" demo_heap 1]
  show ?thesis unfolding Let_def .
qed

text \<open>\<open>PublishCurrent\<close> enqueues after it has released the data lock: an append that rotates
  the current buffer in between overtakes it, and the later bytes are delivered first.\<close>

theorem publish_can_be_overtaken:
  "let s = backend_system (backend_options 2 8 False 0 0 0) None cache_init demo_heap 1
       [DoAppend ''aa'' 1, DoPrepare 0 None, DoSwap 0, DoAppend ''bb'' 2, DoAppend ''cc'' 3, DoEnqueue 0, DoTake]
   in Accepted s = ''aabbcc'' \<and> Delivered s = [''bb'', ''aa'']"
  by code_simp

text \<open>The destructor leaves no buffer counted and no memory charged, when no thread holds a
  buffer any more.\<close>

theorem queue_destroyed:
  assumes "cache_good c"
    and "outside (backend_system (backend_options sz lim att cl cm ro) tracker c h n steps) = []"
  shows "let q = BufferQueue_destroy (Q (backend_system (backend_options sz lim att cl cm ro) tracker c h n steps))
     in TotalBuffers q = 0 \<and> MemoryUsage (Heap q) = MemoryUsage h"
proof -
  let ?s = "backend_system (backend_options sz lim att cl cm ro) tracker c h n steps"
  note i = backend_inv [OF assms(1), of h sz lim att cl cm ro tracker n steps]
  then have "accounts cache_good (MemoryUsage h) [] (Q ?s)" using assms(2) by (simp add: system_inv_def)
  from backend_cache.destroy_spec [OF this backend_cache.inv_callbacks [OF i fst_callbacks]]
  show ?thesis by (auto simp: Let_def)
qed

theorem queue_destroyed_witness:
  "MemoryUsage (Heap (BufferQueue_destroy
     (Q (backend_system (backend_options 4 2 True 16 64 0) (Some 0) cache_init demo_heap 1 demo_steps)))) =
   MemoryUsage demo_heap"
proof -
  have "outside (backend_system (backend_options 4 2 True 16 64 0) (Some 0) cache_init demo_heap 1 demo_steps) = []"
    by code_simp
  from queue_destroyed [OF cache_init_good this] show ?thesis unfolding Let_def by (elim conjE)
qed

end
