(* ===== verification/Control_Policy.thy ===== *)
theory Control_Policy
  imports Text_Utils
begin

text \<open>
  What a control client may do: \<open>ControlPolicy\<close> (\<open>Control/ControlPolicy.cpp\<close>) and the checks made on
  a command before it is dispatched (\<open>Control/Control.cpp\<close>, the functions \<open>Check...ControlPolicy\<close>).
  A check returns \<open>None\<close> for "allowed" and the reason otherwise; \<open>reason\<close> is an output parameter
  of the code. The words are those of \<open>WordSplit\<close>, the first one in lower case.
\<close>

section \<open>Policies\<close>

datatype policy_mode = POLICY_FULL | POLICY_SAFE | POLICY_DIAGNOSTIC | POLICY_CUSTOM

record control_policy =
  Mode :: policy_mode
  AllowExtensions :: bool
  AllowLogsCommand :: bool
  AllowFormatCommand :: bool
  AllowFileBackends :: bool
  AllowChannelCreateDelete :: bool
  AllowChannelRouting :: bool
  AllowChannelError :: bool
  AllowBackendChanges :: bool
  AllowLevelChanges :: bool
  AllowFlagChanges :: bool
  AllowTraceChanges :: bool
  AllowLogStatistics :: bool
  AllowSubsystemChanges :: bool

definition ControlPolicy_new :: control_policy where
  "ControlPolicy_new = \<lparr>Mode = POLICY_FULL, AllowExtensions = True, AllowLogsCommand = True,
     AllowFormatCommand = True, AllowFileBackends = True, AllowChannelCreateDelete = True,
     AllowChannelRouting = True, AllowChannelError = True, AllowBackendChanges = True,
     AllowLevelChanges = True, AllowFlagChanges = True, AllowTraceChanges = True,
     AllowLogStatistics = True, AllowSubsystemChanges = True\<rparr>"

definition Policy_Full :: control_policy where
  "Policy_Full = ControlPolicy_new\<lparr>Mode := POLICY_FULL, AllowExtensions := True, AllowLogsCommand := True,
     AllowFormatCommand := True, AllowFileBackends := True, AllowChannelCreateDelete := True,
     AllowChannelRouting := True, AllowChannelError := True, AllowBackendChanges := True,
     AllowLevelChanges := True, AllowFlagChanges := True, AllowTraceChanges := True,
     AllowLogStatistics := True, AllowSubsystemChanges := True\<rparr>"

definition Policy_Safe :: control_policy where
  "Policy_Safe = ControlPolicy_new\<lparr>Mode := POLICY_SAFE, AllowExtensions := False, AllowLogsCommand := False,
     AllowFormatCommand := True, AllowFileBackends := False, AllowChannelCreateDelete := False,
     AllowChannelRouting := False, AllowChannelError := False, AllowBackendChanges := False,
     AllowLevelChanges := True, AllowFlagChanges := True, AllowTraceChanges := True,
     AllowLogStatistics := True, AllowSubsystemChanges := True\<rparr>"

definition Policy_Diagnostic :: control_policy where
  "Policy_Diagnostic = Policy_Safe\<lparr>Mode := POLICY_DIAGNOSTIC, AllowBackendChanges := True\<rparr>"

section \<open>Backend types\<close>

definition strip_backend :: "string \<Rightarrow> string" where
  "strip_backend s =
     (if length s \<ge> 7 \<and> drop (length s - 7) s = ''backend'' then take (length s - 7) s else s)"

definition NormalizeControlBackendType :: "string \<Rightarrow> string" where
  "NormalizeControlBackendType input =
     (let s = strip_backend (ToLowerAsciiInplace input) in
      if s = ''console'' \<or> s = ''con'' then ''console''
      else if s = ''debug'' \<or> s = ''dbg'' then ''debug''
      else if s = ''file'' then ''file''
      else if s = ''sharedfile'' \<or> s = ''shared'' \<or> s = ''sfile'' then ''sharedfile''
      else if s = ''buffer'' \<or> s = ''buf'' then ''buffer''
      else if s = ''ringbuffer'' \<or> s = ''ring'' \<or> s = ''rbuf'' then ''ringbuffer''
      else s)"

definition IsDiagnosticBackendType :: "string \<Rightarrow> bool" where
  "IsDiagnosticBackendType type \<longleftrightarrow>
     type = ''console'' \<or> type = ''debug'' \<or> type = ''buffer'' \<or> type = ''ringbuffer''"

section \<open>The checks\<close>

definition IsControlOption :: "string \<Rightarrow> bool" where
  "IsControlOption s \<longleftrightarrow> prefix ''--'' s"

definition allow :: "bool \<Rightarrow> string \<Rightarrow> string option" where
  "allow ok reason = (if ok then None else Some reason)"

text \<open>Index of the operation: after \<open>--channel name\<close>, when both are there.\<close>

definition skip_channel :: "string list \<Rightarrow> nat" where
  "skip_channel items = (if 1 + 1 < length items \<and> items ! 1 = ''--channel'' then 3 else 1)"

definition CheckBackendControlPolicy :: "string list \<Rightarrow> control_policy \<Rightarrow> string option" where
  "CheckBackendControlPolicy items policy =
     (if \<not> AllowBackendChanges policy then Some ''backend command is disabled''
      else if AllowFileBackends policy then None
      else
        let index = skip_channel items in
        if index + 1 \<ge> length items then None
        else
          let operation = items ! index in
          if operation \<noteq> ''--add'' \<and> operation \<noteq> ''--delete'' then None
          else if IsDiagnosticBackendType (NormalizeControlBackendType (items ! (index + 1))) then None
          else Some (''backend type is not allowed by control policy: '' @ items ! (index + 1)))"

definition CheckChannelControlPolicy :: "string list \<Rightarrow> control_policy \<Rightarrow> string option" where
  "CheckChannelControlPolicy items policy =
     (if length items < 2 \<or> \<not> IsControlOption (items ! 1) then None
      else
        let opt = items ! 1 in
        if opt = ''--enable'' \<or> opt = ''--disable'' then None
        else if opt = ''--create'' \<or> opt = ''--delete''
        then allow (AllowChannelCreateDelete policy) ''channel create/delete commands are disabled''
        else if opt = ''--bind'' \<or> opt = ''--unbind''
        then allow (AllowChannelRouting policy) ''channel routing commands are disabled''
        else if opt = ''--error'' \<or> opt = ''--clear-error''
        then allow (AllowChannelError policy) ''channel error routing commands are disabled''
        else None)"

definition CheckControlPolicy :: "string list \<Rightarrow> control_policy \<Rightarrow> string option" where
  "CheckControlPolicy items policy =
     (if items = [] then None
      else
        let c = items ! 0 in
        if c = ''help'' \<or> c = ''version'' \<or> c = ''overview'' \<or> c = ''list'' then None
        else if c = ''level'' then allow (AllowLevelChanges policy) ''level command is disabled''
        else if c = ''flags'' then allow (AllowFlagChanges policy) ''flags command is disabled''
        else if c = ''trace'' then allow (AllowTraceChanges policy) ''trace command is disabled''
        else if c = ''logstat'' then allow (AllowLogStatistics policy) ''logstat command is disabled''
        else if c = ''subsystem'' then allow (AllowSubsystemChanges policy) ''subsystem command is disabled''
        else if c = ''channel'' then CheckChannelControlPolicy items policy
        else if c = ''backend'' then CheckBackendControlPolicy items policy
        else if c = ''logs'' then allow (AllowLogsCommand policy) ''logs command is disabled''
        else if c = ''format'' then allow (AllowFormatCommand policy) ''format command is disabled''
        else allow (AllowExtensions policy) ''extension commands are disabled'')"

lemma allow_None [simp]: "allow ok r = None \<longleftrightarrow> ok"
  by (simp add: allow_def)

lemma CheckControlPolicy_Nil: "CheckControlPolicy [] policy = None"
  by (simp add: CheckControlPolicy_def)

lemma CheckControlPolicy_channel:
  "CheckControlPolicy (''channel'' # args) policy = CheckChannelControlPolicy (''channel'' # args) policy"
  by (simp add: CheckControlPolicy_def)

lemma CheckControlPolicy_backend:
  "CheckControlPolicy (''backend'' # args) policy = CheckBackendControlPolicy (''backend'' # args) policy"
  by (simp add: CheckControlPolicy_def)

lemma policy_simps [simp]:
  "\<not> AllowExtensions Policy_Safe" "\<not> AllowLogsCommand Policy_Safe" "\<not> AllowFileBackends Policy_Safe"
  "\<not> AllowChannelCreateDelete Policy_Safe" "\<not> AllowChannelRouting Policy_Safe"
  "\<not> AllowChannelError Policy_Safe" "\<not> AllowBackendChanges Policy_Safe"
  "\<not> AllowExtensions Policy_Diagnostic" "\<not> AllowLogsCommand Policy_Diagnostic"
  "\<not> AllowFileBackends Policy_Diagnostic" "\<not> AllowChannelCreateDelete Policy_Diagnostic"
  "\<not> AllowChannelRouting Policy_Diagnostic" "\<not> AllowChannelError Policy_Diagnostic"
  "AllowBackendChanges Policy_Diagnostic" "AllowFormatCommand Policy_Safe" "AllowFormatCommand Policy_Diagnostic"
  by (simp_all add: Policy_Safe_def Policy_Diagnostic_def)

text \<open>Full rejects nothing, and what Safe allows Diagnostic and Full allow.\<close>

lemma full_allows_all: "CheckControlPolicy items Policy_Full = None"
  by (simp add: CheckControlPolicy_def CheckChannelControlPolicy_def CheckBackendControlPolicy_def
      Policy_Full_def Let_def allow_def)

lemma diagnostic_is_safe_and_backend:
  "hd items \<noteq> ''backend'' \<Longrightarrow> CheckControlPolicy items Policy_Diagnostic = CheckControlPolicy items Policy_Safe"
  by (cases items) (simp_all add: CheckControlPolicy_def CheckChannelControlPolicy_def Policy_Diagnostic_def Let_def)

lemma safe_rejects_backend: "CheckControlPolicy (''backend'' # args) Policy_Safe \<noteq> None"
  by (simp add: CheckControlPolicy_backend CheckBackendControlPolicy_def)

lemma safe_below_diagnostic:
  assumes "CheckControlPolicy items Policy_Safe = None"
  shows "CheckControlPolicy items Policy_Diagnostic = None"
proof (cases "items \<noteq> [] \<and> hd items = ''backend''")
  case True
  then have "items = ''backend'' # tl items" by (metis list.collapse)
  with assms safe_rejects_backend show ?thesis by metis
next
  case False
  then consider "items = []" | "hd items \<noteq> ''backend''" by blast
  then show ?thesis
  proof cases
    case 1
    then show ?thesis by (simp add: CheckControlPolicy_Nil)
  next
    case 2
    from diagnostic_is_safe_and_backend [OF 2] assms show ?thesis by (rule trans)
  qed
qed

end
