(* ===== verification/Control_Commands.thy ===== *)
theory Control_Commands
  imports Control_Policy Smart_Values Level_Names Thread_Scope Channel_Display Channel_Text
begin

text \<open>
  The control commands \<open>channel\<close>, \<open>backend\<close> and \<open>level\<close> (\<open>Control/Command/CmdChannel.cpp\<close>,
  \<open>CmdBackend.cpp\<close>, \<open>CmdLevel.cpp\<close>) on the model of the logger. A command takes its words and
  returns the response; all three always report that they handled the command. Parameters are what
  depends on the backends' own code: \<open>details\<close> (\<open>FormatDetails\<close>) and \<open>apply_config\<close>
  (\<open>ApplyConfig\<close>, which opens files). The configuration record has the members these commands set.
  The last section proves that the policy check of a command is a check of what it does.
\<close>

section \<open>State and names\<close>

record control_state =
  Log :: logger
  ErrorChannel :: "string option"
  NextBackendId :: nat

definition SetErrorChannel :: "string \<Rightarrow> control_state \<Rightarrow> control_state" where
  "SetErrorChannel name s = s\<lparr>ErrorChannel := Some (c_str name)\<rparr>"

definition on_channel :: "nat \<Rightarrow> (channel \<Rightarrow> channel) \<Rightarrow> control_state \<Rightarrow> control_state" where
  "on_channel ch f s = s\<lparr>Log := upd_chan ch f (Log s)\<rparr>"

definition GetChannelByControlName :: "string \<Rightarrow> control_state \<Rightarrow> nat option" where
  "GetChannelByControlName name s =
     (if name = ''<default>'' then GetExistingChannel CH (Log s) else GetExistingChannel name (Log s))"

definition NormalizeChannelDisplayName :: "string \<Rightarrow> string" where
  "NormalizeChannelDisplayName name = (if name = [] then ''<default>'' else name)"

definition line :: "string \<Rightarrow> string" where
  "line s = s @ [CHR 0x0A]"

section \<open>The channel command\<close>

definition channel_backend_line :: "(backend \<Rightarrow> string) \<Rightarrow> backend \<Rightarrow> string" where
  "channel_backend_line details b =
     line (''  '' @ BackendType b @ (if Freezed b then '' [frozen]'' else []) @
           (if details b \<noteq> [] then '' '' @ details b else []))"

definition channel_report :: "(backend \<Rightarrow> string) \<Rightarrow> string \<Rightarrow> nat \<Rightarrow> control_state \<Rightarrow> string" where
  "channel_report details name ch s =
     (let c = Chan (Log s) ch;
          isErrorChannel = (case ErrorChannel s of None \<Rightarrow> False | Some e \<Rightarrow> e = ChanName c)
      in line (''Channel: '' @ NormalizeChannelDisplayName name) @
         line (''Status: '' @ (if Enabled c then ''Enabled'' else ''Disabled'')) @
         line (''Access count: '' @ show_nat (AccessCount c)) @
         line (''Logged bytes: '' @ show_nat (unat (LoggedBytes c))) @
         line (''Flags: 0x'' @ show_hex (unat (Flags c)) @ '' '' @ OutputFlags_ToString (Flags c) '' '' True) @
         line (''Format: '' @ FormatType (flag Format (Flags c))) @
         line (''Level: '' @ GetLevelName (LevelFilter c)) @
         line (''Error channel: '' @ (if isErrorChannel then ''Yes'' else ''No'')) @
         (case LinkTo c of
            Some l \<Rightarrow> line (''Linked to: '' @ NormalizeChannelDisplayName (ChanName (Chan (Log s) l)))
          | None \<Rightarrow> line ''Linked to: <none>'') @
         (if BackendCount c \<noteq> 0
          then line (''Backends: '' @ show_nat (BackendCount c)) @
               concat (map (\<lambda>i. case GetBackend i c of
                                  Some b \<Rightarrow> channel_backend_line details b | None \<Rightarrow> [])
                           [0..<BackendCount c])
          else line ''Backends: 0''))"

definition no_such_channel :: "string \<Rightarrow> string" where
  "no_such_channel name = ''error: no such channel: '' @ name"

definition channel_option ::
  "string \<Rightarrow> string \<Rightarrow> string list \<Rightarrow> control_state \<Rightarrow> string \<times> control_state" where
  "channel_option opt name arr s =
     (let existing = GetChannelByControlName name s in
      if opt = ''--enable'' \<or> opt = ''--disable''
      then case existing of
             None \<Rightarrow> (no_such_channel name, s)
           | Some ch \<Rightarrow> (''ok'', on_channel ch (SetEnabled (opt = ''--enable'')) s)
      else if opt = ''--create''
      then case existing of
             Some ch \<Rightarrow> (''error: channel already exists: '' @ name, s)
           | None \<Rightarrow> (''ok'', s\<lparr>Log := fst (CreateChannel name OutputFlags_init DEFAULT_LEVEL (Log s))\<rparr>)
      else if opt = ''--delete''
      then if name = [] then (''error: invalid channel name'', s)
           else if name = ''<default>'' then (''error: cannot delete default channel'', s)
           else case existing of
                  None \<Rightarrow> (no_such_channel name, s)
                | Some ch \<Rightarrow>
                    if ChanName (Chan (Log s) ch) = [] then (''error: cannot delete default channel'', s)
                    else (''ok'', s\<lparr>Log := DeleteChannel name (Log s)\<rparr>)
      else if opt = ''--bind''
      then if length arr < 4 then (''error: missing target channel name'', s)
           else case existing of
                  None \<Rightarrow> (no_such_channel name, s)
                | Some source \<Rightarrow>
                    (case GetChannelByControlName (arr ! 3) s of
                       None \<Rightarrow> (no_such_channel (arr ! 3), s)
                     | Some target \<Rightarrow>
                         (''ok'', on_channel source (AddLinkPtr (is_shutdown (Log s)) target) s))
      else if opt = ''--unbind''
      then case existing of
             None \<Rightarrow> (no_such_channel name, s)
           | Some ch \<Rightarrow> (''ok'', on_channel ch RemoveLink s)
      else if opt = ''--error''
      then case existing of
             None \<Rightarrow> (no_such_channel name, s)
           | Some ch \<Rightarrow> (''ok'', SetErrorChannel (if name = ''<default>'' then [] else name) s)
      else (''error: unknown option: '' @ opt, s))"

definition CommandChannel ::
  "(backend \<Rightarrow> string) \<Rightarrow> string list \<Rightarrow> control_state \<Rightarrow> string \<times> control_state" where
  "CommandChannel details arr s =
     (if length arr \<ge> 2 \<and> IsControlOption (arr ! 1)
      then let opt = arr ! 1 in
           if opt = ''--clear-error'' then (''ok'', s\<lparr>ErrorChannel := None\<rparr>)
           else if length arr < 3 then (''error: missing channel name'', s)
           else channel_option opt (arr ! 2) arr s
      else
        let name = (if length arr > 1 then arr ! 1 else ''<default>'');
            ch = (if length arr > 1 then GetChannelByControlName (arr ! 1) s
                  else GetExistingChannel CH (Log s))
        in case ch of
             None \<Rightarrow> (no_such_channel name, s)
           | Some ch \<Rightarrow> (channel_report details name ch s, s))"

section \<open>Channel argument and the level command\<close>

text \<open>The channel and the index of the next word, or the error.\<close>

definition GetChannelFromArgs :: "string list \<Rightarrow> nat \<Rightarrow> control_state \<Rightarrow> string + nat \<times> nat" where
  "GetChannelFromArgs arr index s =
     (if index + 1 < length arr \<and> arr ! index = ''--channel''
      then let name = arr ! (index + 1) in
           if name = [] then Inl ''invalid channel name''
           else case GetExistingChannel name (Log s) of
                  None \<Rightarrow> Inl (''no such channel: '' @ name)
                | Some ch \<Rightarrow> Inr (ch, index + 2)
      else case GetExistingChannel CH (Log s) of
             None \<Rightarrow> Inl ''no default channel''
           | Some ch \<Rightarrow> Inr (ch, index))"

definition CommandLevel :: "string list \<Rightarrow> control_state \<Rightarrow> string \<times> control_state" where
  "CommandLevel arr s =
     (case GetChannelFromArgs arr 1 s of
        Inl error \<Rightarrow> (''error: '' @ error, s)
      | Inr (ch, index) \<Rightarrow>
          if index \<ge> length arr then (''Level: '' @ GetLevelName (LevelFilter (Chan (Log s) ch)), s)
          else case FindNamed CmdLevelValues (arr ! index) of
                 None \<Rightarrow> (''error: invalid level: '' @ arr ! index, s)
               | Some level \<Rightarrow>
                   let s = on_channel ch (SetFilterLevel level) s
                   in (''Level: '' @ GetLevelName (LevelFilter (Chan (Log s) ch)) @ [CHR 0x0A] @ ''ok'', s))"

section \<open>The backend command\<close>

text \<open>\<open>NormalizeBackendType\<close> of the command, as opposed to that of the policy check.\<close>

definition NormalizeBackendType :: "string \<Rightarrow> string" where
  "NormalizeBackendType input =
     (let s = strip_backend (ToLowerAsciiInplace input) in
      if s = ''console'' \<or> s = ''con'' then ''ConsoleBackend''
      else if s = ''debug'' \<or> s = ''dbg'' then ''DebugBackend''
      else if s = ''file'' then ''FileBackend''
      else if s = ''sharedfile'' \<or> s = ''shared'' \<or> s = ''sfile'' then ''SharedFileBackend''
      else if s = ''buffer'' \<or> s = ''buf'' then ''BufferBackend''
      else if s = ''ringbuffer'' \<or> s = ''ring'' \<or> s = ''rbuf'' then ''RingBufferBackend''
      else if s = ''consolebackend'' then ''ConsoleBackend''
      else if s = ''debugbackend'' then ''DebugBackend''
      else if s = ''filebackend'' then ''FileBackend''
      else if s = ''sharedfilebackend'' then ''SharedFileBackend''
      else if s = ''bufferbackend'' then ''BufferBackend''
      else if s = ''ringbufferbackend'' then ''RingBufferBackend''
      else [])"

datatype buffer_policy = STOP_APPENDING | DELETE_OLDEST

record backend_config =
  CfgType :: string
  Async :: bool
  Filename :: string
  FileAppend :: bool
  MaxSize :: nat
  DailyRotation :: bool
  MaxParts :: int
  Timeout :: nat
  Policy :: buffer_policy
  MaxItems :: nat

text \<open>
  \<open>CreateConfig\<close> of the backend types the command knows; \<open>maxSize\<close> is
  \<open>FileBackend::GetMaxSizeDefault()\<close>. Members a type does not have are never read for it.
\<close>

definition CreateConfig :: "nat \<Rightarrow> string \<Rightarrow> backend_config" where
  "CreateConfig maxSize type =
     \<lparr>CfgType = type, Async = (type = ''FileBackend''), Filename = [], FileAppend = True,
      MaxSize = (if type = ''BufferBackend'' then 4 * 1024 * 1024 else maxSize),
      DailyRotation = False, MaxParts = 2, Timeout = 10, Policy = STOP_APPENDING, MaxItems = 1000\<rparr>"

definition IsAsyncSupported :: "string \<Rightarrow> bool" where
  "IsAsyncSupported type \<longleftrightarrow> type = ''ConsoleBackend'' \<or> type = ''DebugBackend'' \<or> type = ''FileBackend''"

definition ParseBufferPolicy :: "string \<Rightarrow> buffer_policy option" where
  "ParseBufferPolicy input =
     (let s = ToLowerAsciiInplace input in
      if s = ''stop'' \<or> s = ''stop-appending'' \<or> s = ''stop_appending'' then Some STOP_APPENDING
      else if s = ''delete'' \<or> s = ''delete-oldest'' \<or> s = ''delete_oldest'' then Some DELETE_OLDEST
      else None)"

text \<open>
  \<open>std::stoi\<close>: white space, a sign, decimal digits, out of range is an exception; the caller wants
  the whole text consumed. The words of a command hold no blank or tab.
\<close>

definition ParseIntValue :: "string \<Rightarrow> int option" where
  "ParseIntValue input =
     (let s = dropWhile trim_space (c_str input);
          negative = (s \<noteq> [] \<and> hd s = CHR ''-'');
          digits = (if s \<noteq> [] \<and> (hd s = CHR ''-'' \<or> hd s = CHR ''+'') then tl s else s);
          v = (if negative then - int (dec_val digits) else int (dec_val digits))
      in if input = [] then None
         else if c_str input \<noteq> input then None
         else if digits = [] \<or> \<not> list_all is_digit digits then None
         else if v < - 2147483648 \<or> 2147483647 < v then None
         else Some v)"

definition unsupported :: "string \<Rightarrow> string \<Rightarrow> string" where
  "unsupported arg what = ''error: '' @ arg @ '' is only supported by '' @ what"

text \<open>The option loop: the error response, or the configuration.\<close>

fun parse_backend_options :: "string list \<Rightarrow> backend_config \<Rightarrow> string + backend_config" where
  "parse_backend_options [] config = Inr config"
| "parse_backend_options (arg # rest) config =
     (let file = (CfgType config = ''FileBackend''); shared = (CfgType config = ''SharedFileBackend'');
          buffer = (CfgType config = ''BufferBackend''); ring = (CfgType config = ''RingBufferBackend'')
      in if arg = ''--async''
         then if IsAsyncSupported (CfgType config) then parse_backend_options rest (config\<lparr>Async := True\<rparr>)
              else Inl ''error: --async is not supported by this backend''
         else if arg = ''--append'' \<or> arg = ''--overwrite''
         then if file then parse_backend_options rest (config\<lparr>FileAppend := (arg = ''--append'')\<rparr>)
              else Inl (unsupported arg ''FileBackend'')
         else if arg = ''--daily-rotation'' \<or> arg = ''--no-daily-rotation''
         then if file then parse_backend_options rest (config\<lparr>DailyRotation := (arg = ''--daily-rotation'')\<rparr>)
              else Inl (unsupported arg ''FileBackend'')
         else if arg = ''--file''
         then (case rest of
                 [] \<Rightarrow> Inl ''error: missing file name''
               | v # rest' \<Rightarrow>
                   if file \<or> shared then parse_backend_options rest' (config\<lparr>Filename := v\<rparr>)
                   else Inl (unsupported arg ''file backends''))
         else if arg = ''--max-size''
         then (case rest of
                 [] \<Rightarrow> Inl ''error: missing max size''
               | v # rest' \<Rightarrow>
                   (case ParseByteSize v of
                      None \<Rightarrow> Inl ''error: invalid max size''
                    | Some n \<Rightarrow>
                        if n > ULLONG_MAX then Inl ''error: invalid max size''
                        else if file \<or> shared \<or> buffer then parse_backend_options rest' (config\<lparr>MaxSize := n\<rparr>)
                        else Inl (unsupported arg ''file and buffer backends'')))
         else if arg = ''--max-parts''
         then (case rest of
                 [] \<Rightarrow> Inl ''error: missing max parts''
               | v # rest' \<Rightarrow>
                   (case ParseIntValue v of
                      None \<Rightarrow> Inl ''error: invalid max parts''
                    | Some n \<Rightarrow>
                        if file then parse_backend_options rest' (config\<lparr>MaxParts := n\<rparr>)
                        else Inl (unsupported arg ''FileBackend'')))
         else if arg = ''--timeout''
         then (case rest of
                 [] \<Rightarrow> Inl ''error: missing timeout''
               | v # rest' \<Rightarrow>
                   (case ParseInterval v of
                      None \<Rightarrow> Inl ''error: invalid timeout''
                    | Some n \<Rightarrow>
                        if n > ULLONG_MAX then Inl ''error: invalid timeout''
                        else if shared then parse_backend_options rest' (config\<lparr>Timeout := n\<rparr>)
                        else Inl (unsupported arg ''SharedFileBackend'')))
         else if arg = ''--policy''
         then (case rest of
                 [] \<Rightarrow> Inl ''error: missing buffer policy''
               | v # rest' \<Rightarrow>
                   (case ParseBufferPolicy v of
                      None \<Rightarrow> Inl ''error: invalid buffer policy''
                    | Some p \<Rightarrow>
                        if buffer then parse_backend_options rest' (config\<lparr>Policy := p\<rparr>)
                        else Inl (unsupported arg ''BufferBackend'')))
         else if arg = ''--max-items''
         then (case rest of
                 [] \<Rightarrow> Inl ''error: missing max items''
               | v # rest' \<Rightarrow>
                   (case ParseIntValue v of
                      None \<Rightarrow> Inl ''error: invalid max items''
                    | Some n \<Rightarrow>
                        if n \<le> 0 then Inl ''error: invalid max items''
                        else if ring then parse_backend_options rest' (config\<lparr>MaxItems := nat n\<rparr>)
                        else Inl (unsupported arg ''RingBufferBackend'')))
         else Inl (''error: unknown backend option: '' @ arg))"

declare parse_backend_options.simps(2) [simp del]

text \<open>\<open>Backend::Create\<close> for the types the command passes it: a new object, or null after shutdown.\<close>

definition Backend_Create :: "string \<Rightarrow> control_state \<Rightarrow> backend option \<times> control_state" where
  "Backend_Create type s =
     (if is_shutdown (Log s) then (None, s)
      else (Some \<lparr>BackendId = NextBackendId s, BackendType = type, Freezed = False, BackendIdle = True, Calls = []\<rparr>,
            s\<lparr>NextBackendId := NextBackendId s + 1\<rparr>))"

definition is_file_type :: "string \<Rightarrow> bool" where
  "is_file_type type \<longleftrightarrow> type = ''FileBackend'' \<or> type = ''SharedFileBackend''"

definition add_backend ::
  "(backend_config \<Rightarrow> bool) \<Rightarrow> nat \<Rightarrow> nat \<Rightarrow> string \<Rightarrow> string \<Rightarrow> string list \<Rightarrow> control_state \<Rightarrow>
     string \<times> control_state" where
  "add_backend apply_config maxSize ch type typeInput args s =
     (if \<not> is_file_type type \<and> snd (FindFirstBackend type (Chan (Log s) ch)) \<noteq> None
      then (''error: backend already exists: '' @ typeInput, s)
      else
        case Backend_Create type s of
          (None, s) \<Rightarrow> (''error: unknown backend type: '' @ typeInput, s)
        | (Some backend, s) \<Rightarrow>
            (case parse_backend_options args (CreateConfig maxSize type) of
               Inl error \<Rightarrow> (error, s)
             | Inr config \<Rightarrow>
                 if \<not> apply_config config then (''error: failed to apply backend configuration'', s)
                 else (''ok'', on_channel ch (AddBackend (is_shutdown (Log s)) backend) s)))"

definition delete_backend :: "nat \<Rightarrow> string \<Rightarrow> string \<Rightarrow> control_state \<Rightarrow> string \<times> control_state" where
  "delete_backend ch type typeInput s =
     (case snd (FindFirstBackend type (Chan (Log s) ch)) of
        None \<Rightarrow> (''error: no such backend: '' @ typeInput, s)
      | Some backend \<Rightarrow>
          if snd (RemoveBackend (BackendId backend) (Chan (Log s) ch)) = None
          then (''error: failed to remove backend: '' @ typeInput, s)
          else (''ok'', on_channel ch (\<lambda>c. fst (RemoveBackend (BackendId backend) c)) s))"

definition CommandBackend ::
  "(backend_config \<Rightarrow> bool) \<Rightarrow> nat \<Rightarrow> string list \<Rightarrow> control_state \<Rightarrow> string \<times> control_state" where
  "CommandBackend apply_config maxSize arr s =
     (case GetChannelFromArgs arr 1 s of
        Inl error \<Rightarrow> (''error: '' @ error, s)
      | Inr (ch, index) \<Rightarrow>
          if index + 2 > length arr then (''error: missing operation'', s)
          else
            let operation = arr ! index; typeInput = arr ! (index + 1);
                type = NormalizeBackendType typeInput
            in if operation \<noteq> ''--add'' \<and> operation \<noteq> ''--delete''
               then (''error: unknown option: '' @ operation, s)
               else if typeInput = [] then (''error: invalid backend type'', s)
               else if type = [] then (''error: unknown backend type: '' @ typeInput, s)
               else if operation = ''--add''
               then add_backend apply_config maxSize ch type typeInput (drop (index + 2) arr) s
               else delete_backend ch type typeInput s)"

section \<open>What the policy check guarantees\<close>

text \<open>The check and the command read the same words.\<close>

lemma channel_args_index:
  "GetChannelFromArgs arr 1 s = Inr (ch, index) \<Longrightarrow> index = skip_channel arr"
  by (auto simp: GetChannelFromArgs_def skip_channel_def Let_def split: if_splits option.splits)

lemma diagnostic_type_is_no_file:
  assumes "IsDiagnosticBackendType (NormalizeControlBackendType input)"
  shows "\<not> is_file_type (NormalizeBackendType input)"
proof -
  let ?s = "strip_backend (ToLowerAsciiInplace input)"
  have "?s \<noteq> ''file'' \<and> ?s \<notin> {''sharedfile'', ''shared'', ''sfile'', ''filebackend'', ''sharedfilebackend''}"
  proof
    show "?s \<noteq> ''file''"
    proof
      assume "?s = ''file''"
      with assms show False by (simp add: NormalizeControlBackendType_def IsDiagnosticBackendType_def)
    qed
    show "?s \<notin> {''sharedfile'', ''shared'', ''sfile'', ''filebackend'', ''sharedfilebackend''}"
    proof
      assume "?s \<in> {''sharedfile'', ''shared'', ''sfile'', ''filebackend'', ''sharedfilebackend''}"
      then consider "?s = ''sharedfile''" | "?s = ''shared''" | "?s = ''sfile''" | "?s = ''filebackend''"
        | "?s = ''sharedfilebackend''" by blast
      then show False
        by cases (use assms in \<open>simp_all add: NormalizeControlBackendType_def IsDiagnosticBackendType_def\<close>)
    qed
  qed
  then show ?thesis by (simp add: NormalizeBackendType_def is_file_type_def Let_def)
qed

text \<open>The file backends of a channel.\<close>

definition file_backends :: "channel \<Rightarrow> backend list" where
  "file_backends c = filter (\<lambda>b. is_file_type (BackendType b)) (Backends c)"

lemma file_backends_UpdateActive [simp]: "file_backends (UpdateActive c) = file_backends c"
  by (simp add: file_backends_def UpdateActive_def)

lemma file_backends_add:
  "\<not> is_file_type (BackendType b) \<Longrightarrow> file_backends (AddBackend sd b c) = file_backends c"
  unfolding AddBackend_def Let_def by (simp add: file_backends_def UpdateActive_def)

lemma remove_first_filter:
  "remove_first bid bs = Some (x, rest) \<Longrightarrow> (\<And>b. b \<in> set bs \<Longrightarrow> BackendId b = bid \<Longrightarrow> \<not> P b) \<Longrightarrow>
     filter P rest = filter P bs"
  by (induction bs arbitrary: x rest) (auto split: if_splits)

lemma file_backends_remove:
  assumes "distinct (map BackendId (Backends c))" and "b \<in> set (Backends c)"
    and "\<not> is_file_type (BackendType b)"
  shows "file_backends (fst (RemoveBackend (BackendId b) c)) = file_backends c"
proof -
  have other: "\<not> is_file_type (BackendType b')" if "b' \<in> set (Backends c)" "BackendId b' = BackendId b" for b'
    using assms that by (auto simp: distinct_map inj_on_def)
  show ?thesis
  proof (cases "remove_first (BackendId b) (Backends c)")
    case None
    then show ?thesis by (simp add: RemoveBackend_def)
  next
    case (Some p)
    obtain x rest where p: "p = (x, rest)" by (cases p)
    with Some remove_first_filter [of "BackendId b" "Backends c" x rest "\<lambda>b. is_file_type (BackendType b)"] other
    show ?thesis by (simp add: RemoveBackend_def file_backends_def UpdateActive_def)
  qed
qed

lemma FindFirstBackend_type:
  "snd (FindFirstBackend type c) = Some b \<Longrightarrow> b \<in> set (Backends c) \<and> BackendType b = type"
  by (auto simp: FindFirstBackend_def FindNextBackend_def find_Some_iff split: option.splits)

lemma on_channel_chan: "Chan (Log (on_channel ch f s)) = (Chan (Log s))(ch := f (Chan (Log s) ch))"
  by (simp add: on_channel_def upd_chan_def)

lemma Backend_Create_simps:
  "Log (snd (Backend_Create type s)) = Log s" "ErrorChannel (snd (Backend_Create type s)) = ErrorChannel s"
  "fst (Backend_Create type s) = Some b \<Longrightarrow> BackendType b = type"
  by (auto simp: Backend_Create_def split: if_splits)

text \<open>Adding and deleting a backend of another type leaves the file backends alone.\<close>

lemma add_backend_files:
  assumes "\<not> is_file_type type"
  shows "file_backends (Chan (Log (snd (add_backend ap ms c type ti args s))) ch) = file_backends (Chan (Log s) ch)"
proof -
  obtain b s1 where b: "Backend_Create type s = (b, s1)" by fastforce
  then have s1: "Log s1 = Log s" and t: "\<And>x. b = Some x \<Longrightarrow> BackendType x = type"
    using Backend_Create_simps [of type s] by auto
  show ?thesis
    using assms s1 t b
    by (auto simp: add_backend_def on_channel_chan file_backends_add split: option.split sum.split)
qed

lemma delete_backend_files:
  assumes "\<not> is_file_type type" and "distinct (map BackendId (Backends (Chan (Log s) c)))"
  shows "file_backends (Chan (Log (snd (delete_backend c type ti s))) ch) = file_backends (Chan (Log s) ch)"
  using assms FindFirstBackend_type [of type "Chan (Log s) c"] file_backends_remove [OF assms(2)]
  by (auto simp: delete_backend_def on_channel_chan split: option.split)

lemma CommandBackend_files:
  assumes "\<And>ch index. GetChannelFromArgs arr 1 s = Inr (ch, index) \<Longrightarrow> index + 2 \<le> length arr \<Longrightarrow>
      arr ! index = ''--add'' \<or> arr ! index = ''--delete'' \<Longrightarrow>
      \<not> is_file_type (NormalizeBackendType (arr ! (index + 1)))"
    and "\<And>c. distinct (map BackendId (Backends (Chan (Log s) c)))"
  shows "file_backends (Chan (Log (snd (CommandBackend ap ms arr s))) ch) = file_backends (Chan (Log s) ch)"
proof (cases "GetChannelFromArgs arr 1 s")
  case (Inl e)
  then show ?thesis by (simp add: CommandBackend_def)
next
  case (Inr p)
  obtain c index where p: "p = (c, index)" by (cases p)
  note nf = assms(1) [OF Inr [unfolded p]]
  show ?thesis
    unfolding CommandBackend_def Inr p sum.case prod.case Let_def
    using nf add_backend_files [of "NormalizeBackendType (arr ! (index + 1))"]
      delete_backend_files [OF _ assms(2), of "NormalizeBackendType (arr ! (index + 1))"]
    by simp
qed

text \<open>C29. Under a policy that does not allow file backends, a backend command that passes the check
  neither adds nor removes a file backend in any channel, whatever its words are.\<close>

theorem policy_protects_file_backends:
  assumes "CheckControlPolicy (''backend'' # args) policy = None" and "\<not> AllowFileBackends policy"
    and "\<And>c. distinct (map BackendId (Backends (Chan (Log s) c)))"
  shows "file_backends (Chan (Log (snd (CommandBackend ap ms (''backend'' # args) s))) ch) =
    file_backends (Chan (Log s) ch)"
proof (rule CommandBackend_files [OF _ assms(3)])
  fix c index
  let ?arr = "''backend'' # args"
  assume g: "GetChannelFromArgs ?arr 1 s = Inr (c, index)" and l: "index + 2 \<le> length ?arr"
    and o: "?arr ! index = ''--add'' \<or> ?arr ! index = ''--delete''"
  have i: "index = skip_channel ?arr" by (rule channel_args_index [OF g])
  have "CheckBackendControlPolicy ?arr policy = None"
    using assms(1) by (simp only: CheckControlPolicy_backend)
  then have "IsDiagnosticBackendType (NormalizeControlBackendType (?arr ! (index + 1)))"
    using assms(2) l o unfolding CheckBackendControlPolicy_def Let_def i [symmetric]
    by (simp split: if_splits)
  then show "\<not> is_file_type (NormalizeBackendType (?arr ! (index + 1)))"
    by (rule diagnostic_type_is_no_file)
qed

definition demo_object :: "nat \<Rightarrow> string \<Rightarrow> backend" where
  "demo_object bid type = \<lparr>BackendId = bid, BackendType = type, Freezed = False, BackendIdle = True, Calls = []\<rparr>"

definition demo_control :: control_state where
  "demo_control =
     \<lparr>Log = demo_logger\<lparr>Default := Some 0, ChannelMap := Map.empty,
        Chan := (\<lambda>_. blank_channel)
          (0 := AddBackend False (demo_object 2 ''FileBackend'')
                  (AddBackend False (demo_object 1 ''ConsoleBackend'') (new_channel [] 0 LEVEL_INFO)))\<rparr>,
      ErrorChannel = None, NextBackendId = 3\<rparr>"

lemmas demo_control_defs = demo_control_def demo_logger_def demo_object_def new_channel_def blank_channel_def
  AddBackend_def UpdateActive_def

theorem policy_protects_file_backends_witness:
  "fst (CommandBackend (\<lambda>_. True) 0 (''backend'' # [''--delete'', ''Console'']) demo_control) = ''ok'' \<and>
   map BackendType (file_backends (Chan (Log (snd
     (CommandBackend (\<lambda>_. True) 0 (''backend'' # [''--delete'', ''Console'']) demo_control))) 0)) = [''FileBackend'']"
proof -
  let ?arr = "''backend'' # [''--delete'', ''Console'']"
  have "CheckControlPolicy ?arr Policy_Diagnostic = None" by code_simp
  moreover have "\<not> AllowFileBackends Policy_Diagnostic" by simp
  moreover have "distinct (map BackendId (Backends (Chan (Log demo_control) c)))" for c
    by (simp add: demo_control_defs Let_def)
  ultimately have "file_backends (Chan (Log (snd (CommandBackend (\<lambda>_. True) 0 ?arr demo_control))) 0) =
      file_backends (Chan (Log demo_control) 0)"
    by (rule policy_protects_file_backends)
  moreover have "map BackendType (file_backends (Chan (Log demo_control) 0)) = [''FileBackend'']"
    by code_simp
  moreover have "fst (CommandBackend (\<lambda>_. True) 0 ?arr demo_control) = ''ok''" by code_simp
  ultimately show ?thesis by simp
qed

text \<open>A channel command that passes the check of a policy without channel creation, routing and
  error-channel rights changes nothing but the enable flag of channels.\<close>

theorem policy_restricts_channel_command:
  assumes "CheckControlPolicy (''channel'' # args) policy = None"
    and "\<not> AllowChannelCreateDelete policy" and "\<not> AllowChannelRouting policy" and "\<not> AllowChannelError policy"
  shows "let s' = snd (CommandChannel details (''channel'' # args) s) in
     ErrorChannel s' = ErrorChannel s \<and> ChannelMap (Log s') = ChannelMap (Log s) \<and>
     Default (Log s') = Default (Log s) \<and> NextChan (Log s') = NextChan (Log s) \<and>
     (\<forall>ch. Chan (Log s') ch = Chan (Log s) ch \<or> (\<exists>e. Chan (Log s') ch = SetEnabled e (Chan (Log s) ch)))"
proof -
  let ?arr = "''channel'' # args"
  have check: "CheckChannelControlPolicy ?arr policy = None"
    using assms(1) by (simp only: CheckControlPolicy_channel)
  have opt: "?arr ! 1 \<notin> {''--create'', ''--delete'', ''--bind'', ''--unbind'', ''--error'', ''--clear-error''}"
    if o: "length ?arr \<ge> 2" "IsControlOption (?arr ! 1)"
  proof
    assume "?arr ! 1 \<in> {''--create'', ''--delete'', ''--bind'', ''--unbind'', ''--error'', ''--clear-error''}"
    then consider "?arr ! 1 = ''--create''" | "?arr ! 1 = ''--delete''" | "?arr ! 1 = ''--bind''"
      | "?arr ! 1 = ''--unbind''" | "?arr ! 1 = ''--error''" | "?arr ! 1 = ''--clear-error''" by blast
    then have "CheckChannelControlPolicy ?arr policy \<noteq> None"
      by cases (use o assms(2-4) in \<open>auto simp: CheckChannelControlPolicy_def allow_def Suc_le_eq\<close>)
    with check show False by simp
  qed
  have enable: "?thesis" if "snd (CommandChannel details ?arr s) = s \<or>
      (\<exists>ch e. snd (CommandChannel details ?arr s) = on_channel ch (SetEnabled e) s)"
  proof (cases "snd (CommandChannel details ?arr s) = s")
    case False
    with that obtain ch e where s': "snd (CommandChannel details ?arr s) = on_channel ch (SetEnabled e) s" by blast
    have "Chan (Log s) c = (if c = ch then SetEnabled e (Chan (Log s) ch) else Chan (Log s) c) \<or>
        (\<exists>e'. (if c = ch then SetEnabled e (Chan (Log s) ch) else Chan (Log s) c) = SetEnabled e' (Chan (Log s) c))" for c
      by (cases "c = ch") auto
    then show ?thesis
      unfolding s' Let_def on_channel_def upd_chan_def by (simp add: eq_commute)
  qed (simp add: Let_def)
  show ?thesis
  proof (rule enable, cases "length ?arr \<ge> 2 \<and> IsControlOption (?arr ! 1)")
    case False
    then show "snd (CommandChannel details ?arr s) = s \<or>
        (\<exists>ch e. snd (CommandChannel details ?arr s) = on_channel ch (SetEnabled e) s)"
      unfolding CommandChannel_def Let_def by (auto split: option.split)
  next
    case True
    with opt have o: "?arr ! 1 \<notin> {''--create'', ''--delete'', ''--bind'', ''--unbind'', ''--error'', ''--clear-error''}"
      by blast
    have "snd (channel_option (?arr ! 1) n ?arr s) = s \<or>
        (\<exists>ch e. snd (channel_option (?arr ! 1) n ?arr s) = on_channel ch (SetEnabled e) s)" for n
      using o unfolding channel_option_def Let_def by (auto split: option.split)
    with True o show "snd (CommandChannel details ?arr s) = s \<or>
        (\<exists>ch e. snd (CommandChannel details ?arr s) = on_channel ch (SetEnabled e) s)"
      unfolding CommandChannel_def Let_def by auto
  qed
qed

theorem policy_restricts_channel_command_witness:
  "Enabled (Chan (Log demo_control) 0) \<and>
   fst (CommandChannel (\<lambda>_. []) (''channel'' # [''--disable'', ''<default>'']) demo_control) = ''ok'' \<and>
   \<not> Enabled (Chan (Log (snd (CommandChannel (\<lambda>_. []) (''channel'' # [''--disable'', ''<default>'']) demo_control))) 0) \<and>
   ChannelMap (Log (snd (CommandChannel (\<lambda>_. []) (''channel'' # [''--disable'', ''<default>'']) demo_control))) =
     ChannelMap (Log demo_control)"
proof -
  let ?arr = "''channel'' # [''--disable'', ''<default>'']"
  have "CheckControlPolicy ?arr Policy_Safe = None" by code_simp
  moreover have "\<not> AllowChannelCreateDelete Policy_Safe" "\<not> AllowChannelRouting Policy_Safe"
    "\<not> AllowChannelError Policy_Safe" by simp_all
  ultimately have "ChannelMap (Log (snd (CommandChannel (\<lambda>_. []) ?arr demo_control))) = ChannelMap (Log demo_control)"
    using policy_restricts_channel_command [of "[''--disable'', ''<default>'']" Policy_Safe "\<lambda>_. []" demo_control]
    unfolding Let_def by blast
  moreover have "Enabled (Chan (Log demo_control) 0)" by code_simp
  moreover have "fst (CommandChannel (\<lambda>_. []) ?arr demo_control) = ''ok''" by code_simp
  moreover have "\<not> Enabled (Chan (Log (snd (CommandChannel (\<lambda>_. []) ?arr demo_control))) 0)" by code_simp
  ultimately show ?thesis by blast
qed

section \<open>Errors\<close>

text \<open>
  \<open>unless_ok ok s r\<close>: the response is one of the success texts \<open>ok\<close>, or the logger and its error channel
  are as in \<open>s\<close>.
\<close>

definition unless_ok :: "string set \<Rightarrow> control_state \<Rightarrow> string \<times> control_state \<Rightarrow> bool" where
  "unless_ok ok s r \<longleftrightarrow> fst r \<in> ok \<or> (Log (snd r) = Log s \<and> ErrorChannel (snd r) = ErrorChannel s)"

lemma unless_ok_same [intro]: "unless_ok ok s (r, s)"
  by (simp add: unless_ok_def)

lemma unless_ok_ok [intro]: "r \<in> ok \<Longrightarrow> unless_ok ok s (r, s')"
  by (simp add: unless_ok_def)

lemma unless_ok_if: "unless_ok ok s a \<Longrightarrow> unless_ok ok s b \<Longrightarrow> unless_ok ok s (if c then a else b)"
  by simp

lemma unless_ok_option:
  "unless_ok ok s a \<Longrightarrow> (\<And>x. unless_ok ok s (f x)) \<Longrightarrow> unless_ok ok s (case opt of None \<Rightarrow> a | Some x \<Rightarrow> f x)"
  by (simp split: option.split)

lemma unless_ok_sum:
  "(\<And>x. unless_ok ok s (f x)) \<Longrightarrow> (\<And>x. unless_ok ok s (g x)) \<Longrightarrow>
     unless_ok ok s (case r of Inl x \<Rightarrow> f x | Inr x \<Rightarrow> g x)"
  by (simp split: sum.split)

lemma unless_ok_prod: "(\<And>x y. unless_ok ok s (f x y)) \<Longrightarrow> unless_ok ok s (case p of (x, y) \<Rightarrow> f x y)"
  by (simp split: prod.split)

lemmas unless_ok_intros = unless_ok_same unless_ok_ok unless_ok_if unless_ok_option unless_ok_sum unless_ok_prod

lemma CommandChannel_unless_ok: "unless_ok {''ok''} s (CommandChannel details arr s)"
  unfolding CommandChannel_def channel_option_def Let_def by (intro unless_ok_intros) simp_all

definition level_answer :: "level \<Rightarrow> string" where
  "level_answer l = ''Level: '' @ GetLevelName l @ [CHR 0x0A] @ ''ok''"

lemma CommandLevel_unless_ok: "unless_ok (range level_answer) s (CommandLevel arr s)"
proof -
  have "''Level: '' @ GetLevelName l @ [CHR 0x0A] @ ''ok'' \<in> range level_answer" for l
    by (simp add: level_answer_def [abs_def])
  then show ?thesis unfolding CommandLevel_def Let_def by (intro unless_ok_intros) simp
qed

lemma add_backend_unless_ok: "unless_ok {''ok''} s (add_backend ap ms ch type ti args s)"
proof -
  have "unless_ok {''ok''} s (r, s1)" if "Backend_Create type s = (b, s1)" for r b s1
    using Backend_Create_simps(1,2) [of type s] that by (simp add: unless_ok_def)
  then show ?thesis
    by (auto simp: add_backend_def unless_ok_ok split: option.split sum.split prod.split)
qed

lemma CommandBackend_unless_ok: "unless_ok {''ok''} s (CommandBackend ap ms arr s)"
  unfolding CommandBackend_def delete_backend_def Let_def
  by (intro unless_ok_intros add_backend_unless_ok) simp_all

text \<open>Every error of the option loop is an error response.\<close>

definition error_or_config :: "string + backend_config \<Rightarrow> bool" where
  "error_or_config r \<longleftrightarrow> (case r of Inl e \<Rightarrow> prefix ''error: '' e | Inr c \<Rightarrow> True)"

lemma error_or_config_if: "error_or_config a \<Longrightarrow> error_or_config b \<Longrightarrow> error_or_config (if c then a else b)"
  by simp

lemma error_or_config_list:
  "error_or_config a \<Longrightarrow> (\<And>x xs. l = x # xs \<Longrightarrow> error_or_config (f x xs)) \<Longrightarrow>
     error_or_config (case l of [] \<Rightarrow> a | x # xs \<Rightarrow> f x xs)"
  by (simp split: list.split)

lemma error_or_config_option:
  "error_or_config a \<Longrightarrow> (\<And>x. error_or_config (f x)) \<Longrightarrow>
     error_or_config (case opt of None \<Rightarrow> a | Some x \<Rightarrow> f x)"
  by (simp split: option.split)

lemma error_or_config_error: "error_or_config (Inl (''error: '' @ e))" "error_or_config (Inl (unsupported arg what))"
  by (simp_all add: error_or_config_def unsupported_def)

lemma parse_error_prefix: "error_or_config (parse_backend_options args config)"
proof (induction "length args" arbitrary: args config rule: less_induct)
  case less
  show ?case
  proof (cases args)
    case Nil
    then show ?thesis by (simp add: error_or_config_def)
  next
    case (Cons arg rest)
    have step: "error_or_config (parse_backend_options rest c)"
      "rest = v # rest' \<Longrightarrow> error_or_config (parse_backend_options rest' c)" for c v rest'
      using less Cons by auto
    show ?thesis
      unfolding Cons parse_backend_options.simps(2) Let_def
      by (intro error_or_config_if error_or_config_list error_or_config_option)
        (simp_all add: step error_or_config_error, simp_all add: error_or_config_def)
  qed
qed

text \<open>C30. A channel or backend command changes the logger only when its response is \<open>ok\<close>, a level
  command only when it is the new level's name and, on a line of its own, \<open>ok\<close>; with any other response,
  an error that quotes whatever text included, channels, registry and error channel are exactly as before.
  Each malformed backend option is answered with an error response.\<close>

theorem commands_change_only_on_ok:
  "(case CommandChannel details arr s of (r, s') \<Rightarrow>
      r = ''ok'' \<or> (Log s' = Log s \<and> ErrorChannel s' = ErrorChannel s)) \<and>
   (case CommandLevel arr s of (r, s') \<Rightarrow>
      (\<exists>l. r = ''Level: '' @ GetLevelName l @ [CHR 0x0A] @ ''ok'') \<or> (Log s' = Log s \<and> ErrorChannel s' = ErrorChannel s)) \<and>
   (case CommandBackend ap ms arr s of (r, s') \<Rightarrow>
      r = ''ok'' \<or> (Log s' = Log s \<and> ErrorChannel s' = ErrorChannel s)) \<and>
   (case parse_backend_options args config of Inl e \<Rightarrow> prefix ''error: '' e | Inr c \<Rightarrow> True)"
  using CommandChannel_unless_ok [of s details arr] CommandLevel_unless_ok [of s arr]
    CommandBackend_unless_ok [of s ap ms arr] parse_error_prefix [of args config]
  by (auto simp: unless_ok_def level_answer_def error_or_config_def case_prod_beta)

end
