(* ===== verification/Control_Json.thy ===== *)
theory Control_Json
  imports Text_Utils Smart_Values Channel_Text
begin

text \<open>
  The JSON form of a control response (\<open>Control/Control.cpp\<close>, the \<open>format json\<close> branch of
  \<open>Logger::Control\<close>): escaping, the field writers, and the translation of the text a command printed
  into a data object. The output is built as the code builds it, a text and the flag that says
  whether a comma is due. The last sections give the response a meaning: it is the rendering of a
  JSON value, and a reference parser reads that value back.
\<close>

section \<open>Escaping\<close>

definition QUOTE :: char where
  "QUOTE = CHR 0x22"

definition BACKSLASH :: char where
  "BACKSLASH = CHR 0x5C"

text \<open>\<open>snprintf("\u%04x")\<close> for a character below 32.\<close>

definition hex_digit :: "nat \<Rightarrow> char" where
  "hex_digit n = (if n < 10 then digit_char n else char_of (87 + n))"

definition JsonEscape_char :: "char \<Rightarrow> string" where
  "JsonEscape_char ch =
     (if ch = BACKSLASH then [BACKSLASH, BACKSLASH]
      else if ch = QUOTE then [BACKSLASH, QUOTE]
      else if ch = CHR 0x08 then [BACKSLASH, CHR ''b'']
      else if ch = CHR 0x0C then [BACKSLASH, CHR ''f'']
      else if ch = CHR 0x0A then [BACKSLASH, CHR ''n'']
      else if ch = CHR 0x0D then [BACKSLASH, CHR ''r'']
      else if ch = CHR 0x09 then [BACKSLASH, CHR ''t'']
      else if char_code ch < 32
      then [BACKSLASH, CHR ''u'', CHR ''0'', CHR ''0'', hex_digit (char_code ch div 16), hex_digit (char_code ch mod 16)]
      else [ch])"

definition JsonEscape :: "string \<Rightarrow> string" where
  "JsonEscape s = concat (map JsonEscape_char s)"

definition quoted :: "string \<Rightarrow> string" where
  "quoted s = QUOTE # s @ [QUOTE]"

section \<open>Lines\<close>

definition json_space :: "char \<Rightarrow> bool" where
  "json_space c \<longleftrightarrow> c = CHR '' '' \<or> c = CHR 0x09 \<or> c = CHR 0x0D \<or> c = CHR 0x0A"

definition Trim :: "string \<Rightarrow> string" where
  "Trim s = rev (dropWhile json_space (rev (dropWhile json_space s)))"

definition FirstLine :: "string \<Rightarrow> string" where
  "FirstLine s = takeWhile (\<lambda>c. c \<noteq> CHR 0x0A) s"

definition drop_cr :: "string \<Rightarrow> string" where
  "drop_cr line = (if line \<noteq> [] \<and> last line = CHR 0x0D then butlast line else line)"

fun SplitLines :: "string \<Rightarrow> string list" where
  "SplitLines s =
     (let line = takeWhile (\<lambda>c. c \<noteq> CHR 0x0A) s
      in if length line < length s
         then drop_cr line # SplitLines (drop (Suc (length line)) s)
         else [drop_cr line])"

declare SplitLines.simps [simp del]

section \<open>Field writers\<close>

text \<open>The text written so far, and whether the next field is the first.\<close>

type_synonym json_out = "string \<times> bool"

definition field_start :: "string \<Rightarrow> json_out \<Rightarrow> string" where
  "field_start name out = fst out @ (if snd out then [] else '','') @ quoted name @ '':''"

definition JsonStringField :: "string \<Rightarrow> string \<Rightarrow> json_out \<Rightarrow> json_out" where
  "JsonStringField name value out = (field_start name out @ quoted (JsonEscape value), False)"

definition JsonIntField :: "string \<Rightarrow> nat \<Rightarrow> json_out \<Rightarrow> json_out" where
  "JsonIntField name value out = (field_start name out @ show_nat value, False)"

definition JsonBoolField :: "string \<Rightarrow> bool \<Rightarrow> json_out \<Rightarrow> json_out" where
  "JsonBoolField name value out = (field_start name out @ (if value then ''true'' else ''false''), False)"

text \<open>A comma before each element but the first.\<close>

fun with_commas :: "string list \<Rightarrow> string" where
  "with_commas [] = []"
| "with_commas [x] = x"
| "with_commas (x # y # ys) = x @ '','' @ with_commas (y # ys)"

definition JsonStringMapField :: "string \<Rightarrow> (string \<times> string) list \<Rightarrow> json_out \<Rightarrow> json_out" where
  "JsonStringMapField name values out =
     (field_start name out @ ''{'' @
      with_commas (map (\<lambda>(k, v). quoted (JsonEscape k) @ '':'' @ quoted (JsonEscape v)) values) @ ''}'', False)"

definition JsonStringArrayField :: "string \<Rightarrow> string list \<Rightarrow> json_out \<Rightarrow> json_out" where
  "JsonStringArrayField name values out =
     (field_start name out @ ''['' @ with_commas (map (\<lambda>v. quoted (JsonEscape v)) values) @ '']'', False)"

section \<open>The data of the commands\<close>

datatype subsystem_section = NoSection | BlockedSection | AllowedSection | LevelsSection

record subsystem_data =
  Out :: json_out
  HasBlocked :: bool
  HasAllowed :: bool
  HasLevels :: bool
  BlockedNames :: "string list"
  AllowedNames :: "string list"
  LevelPairs :: "(string \<times> string) list"
  Section :: subsystem_section

definition level_pair :: "string \<Rightarrow> (string \<times> string) option" where
  "level_pair line =
     (let name = takeWhile (\<lambda>c. c \<noteq> CHR '':'') line
      in if length name < length line
         then let name' = Trim name; level = Trim (drop (Suc (length name)) line)
              in if name' \<noteq> [] \<and> level \<noteq> [] then Some (name', level) else None
         else None)"

definition subsystem_line :: "string \<Rightarrow> subsystem_data \<Rightarrow> subsystem_data" where
  "subsystem_line rawLine d =
     (let line = Trim rawLine in
      if line = [] then d
      else if line = ''Blocked subsystems: none''
      then d\<lparr>HasBlocked := True, BlockedNames := [], Section := NoSection\<rparr>
      else if line = ''Allowed subsystems: none''
      then d\<lparr>HasAllowed := True, AllowedNames := [], Section := NoSection\<rparr>
      else if line = ''Subsystem levels: none''
      then d\<lparr>HasLevels := True, LevelPairs := [], Section := NoSection\<rparr>
      else if line = ''Blocked subsystems:''
      then d\<lparr>HasBlocked := True, BlockedNames := [], Section := BlockedSection\<rparr>
      else if line = ''Allowed subsystems:''
      then d\<lparr>HasAllowed := True, AllowedNames := [], Section := AllowedSection\<rparr>
      else if line = ''Subsystem levels:''
      then d\<lparr>HasLevels := True, LevelPairs := [], Section := LevelsSection\<rparr>
      else if prefix ''Blocked: '' line
      then d\<lparr>Out := JsonBoolField ''blocked'' (drop 9 line = ''true'') (Out d), Section := NoSection\<rparr>
      else if prefix ''Allowed: '' line
      then d\<lparr>Out := JsonBoolField ''allowed'' (drop 9 line = ''true'') (Out d), Section := NoSection\<rparr>
      else if prefix ''Level: '' line
      then d\<lparr>Out := JsonStringField ''level'' (drop 7 line) (Out d), Section := NoSection\<rparr>
      else case Section d of
             BlockedSection \<Rightarrow> d\<lparr>BlockedNames := BlockedNames d @ [line]\<rparr>
           | AllowedSection \<Rightarrow> d\<lparr>AllowedNames := AllowedNames d @ [line]\<rparr>
           | LevelsSection \<Rightarrow>
               (case level_pair line of None \<Rightarrow> d | Some p \<Rightarrow> d\<lparr>LevelPairs := LevelPairs d @ [p]\<rparr>)
           | NoSection \<Rightarrow> d)"

definition subsystem_fields :: "string \<Rightarrow> json_out \<Rightarrow> json_out" where
  "subsystem_fields text out =
     (let d = fold subsystem_line (SplitLines text)
                \<lparr>Out = out, HasBlocked = False, HasAllowed = False, HasLevels = False,
                 BlockedNames = [], AllowedNames = [], LevelPairs = [], Section = NoSection\<rparr>;
          out = Out d;
          out = (if HasBlocked d then JsonStringArrayField ''blockedSubsystems'' (BlockedNames d) out else out);
          out = (if HasAllowed d then JsonStringArrayField ''allowedSubsystems'' (AllowedNames d) out else out)
      in if HasLevels d then JsonStringMapField ''subsystemLevels'' (LevelPairs d) out else out)"

definition list_fields :: "string \<Rightarrow> json_out \<Rightarrow> json_out" where
  "list_fields text out =
     (let channels = map (\<lambda>l. if l = ''<default>'' then [] else l)
                       (filter (\<lambda>l. l \<noteq> []) (map Trim (SplitLines text)))
      in JsonStringArrayField ''channels'' channels out)"

text \<open>\<open>strtoull\<close> with base 0, of a text without white space at its start.\<close>

definition hex_value :: "char \<Rightarrow> nat option" where
  "hex_value c =
     (if is_digit c then Some (digit_val c)
      else if 65 \<le> char_code c \<and> char_code c \<le> 70 then Some (char_code c - 55)
      else if 97 \<le> char_code c \<and> char_code c \<le> 102 then Some (char_code c - 87)
      else None)"

definition base_value :: "nat \<Rightarrow> string \<Rightarrow> nat" where
  "base_value base s =
     foldl (\<lambda>n c. n * base + the (hex_value c)) 0
       (takeWhile (\<lambda>c. case hex_value c of None \<Rightarrow> False | Some v \<Rightarrow> v < base) s)"

definition strtoull0 :: "string \<Rightarrow> nat" where
  "strtoull0 s =
     (let negative = (s \<noteq> [] \<and> hd s = CHR ''-'');
          u = (if s \<noteq> [] \<and> (hd s = CHR ''-'' \<or> hd s = CHR ''+'') then tl s else s);
          n = (if length u > 2 \<and> u ! 0 = CHR ''0'' \<and> (u ! 1 = CHR ''x'' \<or> u ! 1 = CHR ''X'') \<and> hex_value (u ! 2) \<noteq> None
               then base_value 16 (drop 2 u)
               else if u \<noteq> [] \<and> hd u = CHR ''0'' then base_value 8 u
               else base_value 10 u)
      in if n > ULLONG_MAX then ULLONG_MAX else if negative then (2 ^ 64 - n) mod 2 ^ 64 else n)"

definition flags_fields :: "string \<Rightarrow> json_out \<Rightarrow> json_out" where
  "flags_fields text out =
     (let line = Trim (FirstLine text) in
      if prefix ''Flags:'' line
      then let rest = Trim (drop 6 line);
               word = takeWhile (\<lambda>c. c \<noteq> CHR '' '') rest;
               found = (length word < length rest);
               hex = Trim (if found then word else rest);
               names = Trim (if found then drop (Suc (length word)) rest else []);
               value = (if hex \<noteq> [] then strtoull0 (c_str hex) else 0);
               arr = (if names \<noteq> [] then filter (\<lambda>t. t \<noteq> []) (fst (WordSplit names ('' '' @ [CHR 0x09]) True True)) else [])
           in JsonStringArrayField ''names'' arr (JsonIntField ''value'' value out)
      else out)"

definition level_fields :: "string \<Rightarrow> json_out \<Rightarrow> json_out" where
  "level_fields text out =
     (let line = Trim (FirstLine text) in
      if prefix ''Level:'' line
      then let v = Trim (drop 6 line) in if v \<noteq> [] then JsonStringField ''level'' v out else out
      else out)"

definition data_fields :: "string list \<Rightarrow> bool \<Rightarrow> string \<Rightarrow> json_out \<Rightarrow> json_out" where
  "data_fields remainderItems ok text out =
     (if ok \<and> remainderItems \<noteq> []
      then let cmdName = remainderItems ! 0 in
           if cmdName = ''subsystem'' then subsystem_fields text out
           else if cmdName = ''list'' then list_fields text out
           else if cmdName = ''flags'' then flags_fields text out
           else if cmdName = ''level'' then level_fields text out
           else out
      else out)"

text \<open>The response to \<open>format json\<close>, from the words of the command and the text it printed.\<close>

definition json_response :: "string list \<Rightarrow> string \<Rightarrow> string" where
  "json_response remainderItems text =
     (let ok = (\<not> prefix ''error:'' text);
          data = fst (JsonStringField ''text'' text (data_fields remainderItems ok text (''{'', True))) @ ''}'';
          err = dropWhile (\<lambda>c. c = CHR '' '' \<or> c = CHR 0x09) (drop 6 text)
      in ''{'' @ quoted ''ok'' @ '':'' @ (if ok then ''true'' else ''false'') @ '','' @ quoted ''error'' @ '':'' @
         (if ok then ''null'' else quoted (JsonEscape err)) @ '','' @ quoted ''data'' @ '':'' @ data @ ''}'')"

section \<open>Escaped text read back\<close>

text \<open>A reference reader of a JSON string after its opening quote: the text up to the first quote
  that is not escaped, and what follows it. Raw control characters are not allowed.\<close>

fun simple_escape :: "char \<Rightarrow> char option" where
  "simple_escape c =
     (if c = QUOTE \<or> c = BACKSLASH \<or> c = CHR ''/'' then Some c
      else if c = CHR ''b'' then Some (CHR 0x08)
      else if c = CHR ''f'' then Some (CHR 0x0C)
      else if c = CHR ''n'' then Some (CHR 0x0A)
      else if c = CHR ''r'' then Some (CHR 0x0D)
      else if c = CHR ''t'' then Some (CHR 0x09)
      else None)"

fun unicode_escape :: "string \<Rightarrow> char option" where
  "unicode_escape [a, b, c, d] =
     (case (hex_value a, hex_value b, hex_value c, hex_value d) of
        (Some w, Some x, Some y, Some z) \<Rightarrow>
          let n = ((w * 16 + x) * 16 + y) * 16 + z in if n < 256 then Some (char_of n) else None
      | _ \<Rightarrow> None)"
| "unicode_escape _ = None"

function read_string :: "string \<Rightarrow> (string \<times> string) option" where
  "read_string s =
     (case s of
        [] \<Rightarrow> None
      | c # cs \<Rightarrow>
          if c = QUOTE then Some ([], cs)
          else if c = BACKSLASH
          then (case cs of
                  [] \<Rightarrow> None
                | e # r \<Rightarrow>
                    if e = CHR ''u''
                    then (case unicode_escape (take 4 r) of
                            None \<Rightarrow> None
                          | Some x \<Rightarrow> map_option (apfst (Cons x)) (read_string (drop 4 r)))
                    else (case simple_escape e of
                            None \<Rightarrow> None
                          | Some x \<Rightarrow> map_option (apfst (Cons x)) (read_string r)))
          else if char_code c < 32 then None
          else map_option (apfst (Cons c)) (read_string cs))"
  by pat_completeness auto
termination by (relation "measure length") auto

declare read_string.simps [simp del]

lemma char_code_less [simp]: "char_code c < 256"
  by (simp add: char_code_def)

lemma char_of_char_code [simp]: "char_of (char_code c) = c"
  by (simp add: char_code_def)

lemma hex_value_hex_digit: "n < 16 \<Longrightarrow> hex_value (hex_digit n) = Some n"
proof (cases "n < 10")
  case True
  then show ?thesis by (simp add: hex_digit_def hex_value_def)
next
  case False
  moreover assume "n < 16"
  ultimately have "char_code (hex_digit n) = 87 + n" by (simp add: hex_digit_def char_code_def)
  with False \<open>n < 16\<close> show ?thesis by (simp add: hex_value_def is_digit_def)
qed

lemma unicode_escape_below_32:
  assumes "char_code c < 32"
  shows "unicode_escape [CHR ''0'', CHR ''0'', hex_digit (char_code c div 16), hex_digit (char_code c mod 16)] = Some c"
proof -
  have "hex_value (CHR ''0'') = Some 0" by code_simp
  moreover have "char_code c div 16 < 16" using assms by simp
  moreover have "char_code c mod 16 < 16" by simp
  moreover have "char_code c div 16 * 16 + char_code c mod 16 = char_code c" by simp
  ultimately show ?thesis by (simp add: hex_value_hex_digit del: div_mult_mod_eq)
qed

lemma read_escaped_char:
  "read_string (JsonEscape_char c @ rest) = map_option (apfst (Cons c)) (read_string rest)"
proof (cases "c = BACKSLASH \<or> c = QUOTE \<or> c = CHR 0x08 \<or> c = CHR 0x0C \<or> c = CHR 0x0A \<or> c = CHR 0x0D \<or> c = CHR 0x09")
  case True
  then show ?thesis
    by (elim disjE) (subst read_string.simps, simp add: JsonEscape_char_def QUOTE_def BACKSLASH_def)+
next
  case special: False
  show ?thesis
  proof (cases "char_code c < 32")
    case True
    with special show ?thesis
      by (subst read_string.simps)
        (simp add: JsonEscape_char_def unicode_escape_below_32 QUOTE_def BACKSLASH_def del: unicode_escape.simps)
  next
    case False
    with special show ?thesis
      by (subst read_string.simps) (simp add: JsonEscape_char_def)
  qed
qed

lemma read_JsonEscape:
  "read_string (JsonEscape s @ QUOTE # rest) = Some (s, rest)"
proof (induction s)
  case Nil
  then show ?case by (subst read_string.simps) (simp add: JsonEscape_def)
next
  case (Cons c s)
  have "JsonEscape (c # s) @ QUOTE # rest = JsonEscape_char c @ (JsonEscape s @ QUOTE # rest)"
    by (simp add: JsonEscape_def)
  with Cons show ?case by (simp add: read_escaped_char)
qed

section \<open>The response as a JSON value\<close>

datatype json = JNull | JBool bool | JNum nat | JStr string | JArr "json list" | JObj "(string \<times> json) list"

fun render :: "json \<Rightarrow> string" where
  "render JNull = ''null''"
| "render (JBool b) = (if b then ''true'' else ''false'')"
| "render (JNum n) = show_nat n"
| "render (JStr s) = quoted (JsonEscape s)"
| "render (JArr vs) = ''['' @ with_commas (map render vs) @ '']''"
| "render (JObj fs) = ''{'' @ with_commas (map (\<lambda>(k, v). quoted (JsonEscape k) @ '':'' @ render v) fs) @ ''}''"

text \<open>Text written so far and flag, against the fields it stands for.\<close>

definition member :: "string \<times> json \<Rightarrow> string" where
  "member f = quoted (JsonEscape (fst f)) @ '':'' @ render (snd f)"

definition out_of :: "(string \<times> json) list \<Rightarrow> json_out" where
  "out_of fs = (''{'' @ with_commas (map member fs), fs = [])"

lemma render_obj: "render (JObj fs) = ''{'' @ with_commas (map member fs) @ ''}''"
  by (simp add: member_def [abs_def] case_prod_unfold)

lemma with_commas_snoc: "with_commas (xs @ [x]) = with_commas xs @ (if xs = [] then [] else '','') @ x"
  by (induction xs rule: with_commas.induct) auto

lemma out_of_snoc:
  "JsonEscape k = k \<Longrightarrow> (field_start k (out_of fs) @ render v, False) = out_of (fs @ [(k, v)])"
  by (auto simp: out_of_def field_start_def with_commas_snoc member_def)

lemma field_out_of:
  "JsonEscape k = k \<Longrightarrow> JsonStringField k s (out_of fs) = out_of (fs @ [(k, JStr s)])"
  "JsonEscape k = k \<Longrightarrow> JsonIntField k n (out_of fs) = out_of (fs @ [(k, JNum n)])"
  "JsonEscape k = k \<Longrightarrow> JsonBoolField k b (out_of fs) = out_of (fs @ [(k, JBool b)])"
  "JsonEscape k = k \<Longrightarrow> JsonStringArrayField k vs (out_of fs) = out_of (fs @ [(k, JArr (map JStr vs))])"
  "JsonEscape k = k \<Longrightarrow>
     JsonStringMapField k ps (out_of fs) = out_of (fs @ [(k, JObj (map (\<lambda>(a, b). (a, JStr b)) ps))])"
  by (simp_all add: JsonStringField_def JsonIntField_def JsonBoolField_def JsonStringArrayField_def
      JsonStringMapField_def out_of_snoc [symmetric] comp_def case_prod_unfold)

lemma literal_names [simp]:
  "JsonEscape ''blocked'' = ''blocked''" "JsonEscape ''allowed'' = ''allowed''"
  "JsonEscape ''level'' = ''level''" "JsonEscape ''blockedSubsystems'' = ''blockedSubsystems''"
  "JsonEscape ''allowedSubsystems'' = ''allowedSubsystems''"
  "JsonEscape ''subsystemLevels'' = ''subsystemLevels''" "JsonEscape ''channels'' = ''channels''"
  "JsonEscape ''value'' = ''value''" "JsonEscape ''names'' = ''names''" "JsonEscape ''text'' = ''text''"
  "JsonEscape ''ok'' = ''ok''" "JsonEscape ''error'' = ''error''" "JsonEscape ''data'' = ''data''"
  by code_simp+

definition is_object :: "json_out \<Rightarrow> bool" where
  "is_object out \<longleftrightarrow> (\<exists>fs. out = out_of fs)"

lemma is_object_field [intro]:
  "JsonEscape k = k \<Longrightarrow> is_object out \<Longrightarrow> is_object (JsonStringField k s out)"
  "JsonEscape k = k \<Longrightarrow> is_object out \<Longrightarrow> is_object (JsonIntField k n out)"
  "JsonEscape k = k \<Longrightarrow> is_object out \<Longrightarrow> is_object (JsonBoolField k b out)"
  "JsonEscape k = k \<Longrightarrow> is_object out \<Longrightarrow> is_object (JsonStringArrayField k vs out)"
  "JsonEscape k = k \<Longrightarrow> is_object out \<Longrightarrow> is_object (JsonStringMapField k ps out)"
  unfolding is_object_def by (metis field_out_of)+

lemma subsystem_line_object: "is_object (Out d) \<Longrightarrow> is_object (Out (subsystem_line l d))"
  unfolding subsystem_line_def Let_def
  by (simp add: is_object_field split: option.split subsystem_section.split)

lemma subsystem_lines_object: "is_object (Out d) \<Longrightarrow> is_object (Out (fold subsystem_line ls d))"
  by (induction ls arbitrary: d) (simp_all add: subsystem_line_object)

lemma data_fields_object:
  assumes "is_object out"
  shows "is_object (data_fields items ok text out)"
proof -
  have "is_object (subsystem_fields text out)"
    unfolding subsystem_fields_def Let_def
    using subsystem_lines_object [of "\<lparr>Out = out, HasBlocked = False, HasAllowed = False, HasLevels = False,
        BlockedNames = [], AllowedNames = [], LevelPairs = [], Section = NoSection\<rparr>" "SplitLines text"] assms
    by (simp add: is_object_field)
  moreover have "is_object (list_fields text out)" "is_object (flags_fields text out)" "is_object (level_fields text out)"
    using assms unfolding list_fields_def flags_fields_def level_fields_def Let_def
    by (simp_all add: is_object_field)
  ultimately show ?thesis using assms by (simp add: data_fields_def Let_def)
qed

text \<open>The fields of the data object besides the text.\<close>

lemma json_response_value:
  "\<exists>fs. json_response items text =
     render (JObj [(''ok'', JBool (\<not> prefix ''error:'' text)),
       (''error'', if prefix ''error:'' text
                  then JStr (dropWhile (\<lambda>c. c = CHR '' '' \<or> c = CHR 0x09) (drop 6 text)) else JNull),
       (''data'', JObj (fs @ [(''text'', JStr text)]))])"
proof -
  have "is_object (''{'', True)"
    unfolding is_object_def by (rule exI [of _ "[]"]) (simp add: out_of_def)
  from data_fields_object [OF this, of items "\<not> prefix ''error:'' text" "text"]
  obtain fs where fs: "data_fields items (\<not> prefix ''error:'' text) text (''{'', True) = out_of fs"
    unfolding is_object_def by blast
  have "fst (out_of (fs @ [(''text'', JStr text)])) @ ''}'' = render (JObj (fs @ [(''text'', JStr text)]))"
    by (simp add: out_of_def render_obj del: render.simps)
  then show ?thesis
    unfolding json_response_def Let_def fs
    by (intro exI [of _ fs]) (simp add: field_out_of)
qed

text \<open>A reference parser of JSON without blanks; \<open>n\<close> bounds the number of calls.\<close>

fun parse_value :: "nat \<Rightarrow> string \<Rightarrow> (json \<times> string) option"
and parse_elements :: "nat \<Rightarrow> string \<Rightarrow> (json list \<times> string) option"
and parse_members :: "nat \<Rightarrow> string \<Rightarrow> ((string \<times> json) list \<times> string) option" where
  "parse_value 0 s = None"
| "parse_value (Suc n) s =
     (if prefix ''null'' s then Some (JNull, drop 4 s)
      else if prefix ''true'' s then Some (JBool True, drop 4 s)
      else if prefix ''false'' s then Some (JBool False, drop 5 s)
      else case s of
        [] \<Rightarrow> None
      | c # r \<Rightarrow>
          if c = QUOTE then map_option (apfst JStr) (read_string r)
          else if is_digit c then Some (JNum (dec_val (takeWhile is_digit s)), dropWhile is_digit s)
          else if c = CHR ''['' then
            (if prefix '']'' r then Some (JArr [], tl r) else map_option (apfst JArr) (parse_elements n r))
          else if c = CHR ''{'' then
            (if prefix ''}'' r then Some (JObj [], tl r) else map_option (apfst JObj) (parse_members n r))
          else None)"
| "parse_elements 0 s = None"
| "parse_elements (Suc n) s =
     (case parse_value n s of
        None \<Rightarrow> None
      | Some (v, r) \<Rightarrow>
          if prefix '','' r then map_option (apfst (Cons v)) (parse_elements n (tl r))
          else if prefix '']'' r then Some ([v], tl r)
          else None)"
| "parse_members 0 s = None"
| "parse_members (Suc n) s =
     (if \<not> prefix [QUOTE] s then None
      else case read_string (tl s) of
        None \<Rightarrow> None
      | Some (k, r) \<Rightarrow>
          if \<not> prefix '':'' r then None
          else case parse_value n (tl r) of
            None \<Rightarrow> None
          | Some (v, r) \<Rightarrow>
              if prefix '','' r then map_option (apfst (Cons (k, v))) (parse_members n (tl r))
              else if prefix ''}'' r then Some ([(k, v)], tl r)
              else None)"

definition parse_json :: "string \<Rightarrow> json option" where
  "parse_json s =
     (case parse_value (Suc (length s)) s of Some (v, []) \<Rightarrow> Some v | _ \<Rightarrow> None)"

definition ends_value :: "string \<Rightarrow> bool" where
  "ends_value rest \<longleftrightarrow> (case rest of [] \<Rightarrow> True | c # r \<Rightarrow> \<not> is_digit c)"

lemma quoted_value:
  "parse_value (Suc n) (quoted (JsonEscape s) @ rest) = Some (JStr s, rest)"
  by (simp add: quoted_def read_JsonEscape QUOTE_def [symmetric])
    (simp add: QUOTE_def)

lemma number_value:
  assumes "ends_value rest"
  shows "parse_value (Suc n) (show_nat k @ rest) = Some (JNum k, rest)"
proof -
  obtain d ds where ds: "show_nat k = d # ds" by (cases "show_nat k") auto
  with show_nat_digits [of k] have d: "is_digit d" by simp
  then have nd: "d \<noteq> CHR ''n''" "d \<noteq> CHR ''t''" "d \<noteq> CHR ''f''" "d \<noteq> QUOTE"
    by (auto simp: is_digit_def char_code_def QUOTE_def)
  have e: "rest \<noteq> [] \<Longrightarrow> \<not> is_digit (hd rest)" using assms by (cases rest) (auto simp: ends_value_def)
  have "takeWhile is_digit (show_nat k @ rest) = show_nat k"
    by (rule takeWhile_digits_append [OF show_nat_digits]) (rule e)
  moreover have "dropWhile is_digit (show_nat k @ rest) = rest"
    by (rule dropWhile_digits_append [OF show_nat_digits]) (rule e)
  ultimately show ?thesis using d nd dec_val_show_nat [of k] by (simp add: ds)
qed

lemma render_start:
  obtains c r where "render v = c # r" "c \<noteq> CHR '']''" "c \<noteq> CHR ''}''"
proof (cases v)
  case (JNum n)
  obtain d ds where ds: "show_nat n = d # ds" by (cases "show_nat n") auto
  with show_nat_digits [of n] have "is_digit d" by simp
  then have "d \<noteq> CHR '']''" "d \<noteq> CHR ''}''" by (auto simp: is_digit_def char_code_def)
  with that JNum ds show ?thesis by simp
next
  case (JBool b)
  with that show ?thesis by (cases b) auto
qed (use that in \<open>auto simp: quoted_def QUOTE_def split: if_splits\<close>)

lemma ends_value_simps [simp]: "ends_value []" "ends_value ('','' @ r)" "ends_value ('']'' @ r)" "ends_value (''}'' @ r)"
  "ends_value (CHR '','' # r)" "ends_value (CHR '']'' # r)" "ends_value (CHR ''}'' # r)"
  by (simp_all add: ends_value_def is_digit_def char_code_def)

lemma parse_render_elements:
  assumes "\<And>v n rest. v \<in> set vs \<Longrightarrow> length (render v) < n \<Longrightarrow> ends_value rest \<Longrightarrow>
      parse_value n (render v @ rest) = Some (v, rest)"
    and "vs \<noteq> []" and "length (with_commas (map render vs)) + 1 < n"
  shows "parse_elements n (with_commas (map render vs) @ '']'' @ rest) = Some (vs, rest)"
  using assms
proof (induction vs arbitrary: n)
  case (Cons v vs)
  obtain m where n: "n = Suc m" using Cons.prems(3) by (cases n) auto
  show ?case
  proof (cases vs)
    case Nil
    then have "parse_value m (render v @ '']'' @ rest) = Some (v, '']'' @ rest)"
      using Cons.prems(1,3) n by simp
    with Nil n show ?thesis by simp
  next
    case (Cons w ws)
    let ?tail = "with_commas (map render vs) @ '']'' @ rest"
    obtain c r where c: "render v = c # r" by (rule render_start)
    have w: "with_commas (map render (v # vs)) = render v @ '','' @ with_commas (map render vs)"
      using Cons by simp
    have "length (render v) < m" using Cons.prems(3) n w by simp
    then have "parse_value m (render v @ '','' @ ?tail) = Some (v, '','' @ ?tail)"
      using Cons.prems(1) by simp
    moreover have "parse_elements m ?tail = Some (vs, rest)"
      by (rule Cons.IH) (use Cons.prems(1,3) n w c \<open>vs = w # ws\<close> in auto)
    ultimately show ?thesis using n w by simp
  qed
qed simp

lemma parse_render_members:
  assumes "\<And>k v n rest. (k, v) \<in> set fs \<Longrightarrow> length (render v) < n \<Longrightarrow> ends_value rest \<Longrightarrow>
      parse_value n (render v @ rest) = Some (v, rest)"
    and "fs \<noteq> []" and "length (with_commas (map member fs)) + 1 < n"
  shows "parse_members n (with_commas (map member fs) @ ''}'' @ rest) = Some (fs, rest)"
  using assms
proof (induction fs arbitrary: n)
  case (Cons f fs)
  obtain k v where f: "f = (k, v)" by (cases f)
  obtain m where n: "n = Suc m" using Cons.prems(3) by (cases n) auto
  have key: "read_string (JsonEscape k @ QUOTE # r) = Some (k, r)" for r by (rule read_JsonEscape)
  have mem: "member f @ r = QUOTE # JsonEscape k @ QUOTE # '':'' @ render v @ r" for r
    by (simp add: member_def f quoted_def)
  show ?case
  proof (cases fs)
    case Nil
    then have "length (render v) < m" using Cons.prems(3) n f by (simp add: member_def quoted_def)
    then have "parse_value m (render v @ ''}'' @ rest) = Some (v, ''}'' @ rest)"
      using Cons.prems(1) [of k v m] f by simp
    with Nil n mem key show ?thesis by (simp add: f)
  next
    case (Cons w ws)
    let ?tail = "with_commas (map member fs) @ ''}'' @ rest"
    have w: "with_commas (map member (f # fs)) = member f @ '','' @ with_commas (map member fs)"
      using Cons by simp
    have "length (member f) < m" using Cons.prems(3) n w by simp
    then have "length (render v) < m" by (simp add: f member_def quoted_def)
    then have "parse_value m (render v @ '','' @ ?tail) = Some (v, '','' @ ?tail)"
      using Cons.prems(1) [of k v m] f by simp
    moreover have "parse_members m ?tail = Some (fs, rest)"
    proof (rule Cons.IH)
      show "fs \<noteq> []" by (simp add: \<open>fs = w # ws\<close>)
      have "0 < length (member f)" by (simp add: member_def quoted_def)
      with Cons.prems(3) n w show "length (with_commas (map member fs)) + 1 < m" by simp
    next
      show "parse_value n' (render v' @ rest') = Some (v', rest')"
        if "(k', v') \<in> set fs" "length (render v') < n'" "ends_value rest'" for k' v' n' rest'
        by (rule Cons.prems(1) [of k']) (use that in simp_all)
    qed
    ultimately show ?thesis using n w mem key by (simp add: f)
  qed
qed simp

lemma parse_render:
  "length (render v) < n \<Longrightarrow> ends_value rest \<Longrightarrow> parse_value n (render v @ rest) = Some (v, rest)"
proof (induction v arbitrary: n rest)
  case (JStr x)
  then show ?case by (cases n) (simp_all add: quoted_value del: parse_value.simps(2))
next
  case (JNum x)
  then show ?case by (cases n) (simp_all add: number_value del: parse_value.simps(2))
next
  case (JArr vs)
  then obtain m where n: "n = Suc m" by (cases n) auto
  show ?case
  proof (cases "vs = []")
    case True
    then show ?thesis by (simp add: n QUOTE_def is_digit_def char_code_def)
  next
    case False
    then obtain v ws where vs: "vs = v # ws" by (cases vs) auto
    obtain c r where c: "render v = c # r" "c \<noteq> CHR '']''" by (rule render_start)
    have e: "parse_elements m (with_commas (map render vs) @ '']'' @ rest) = Some (vs, rest)"
      by (rule parse_render_elements [OF _ False]) (use JArr n in auto)
    have "\<exists>c' r'. with_commas (map render vs) = c' # r' \<and> c' \<noteq> CHR '']''"
      using c by (cases ws) (auto simp: vs)
    with e show ?thesis by (auto simp: n QUOTE_def is_digit_def char_code_def)
  qed
next
  case (JObj fs)
  then obtain m where n: "n = Suc m" by (cases n) auto
  show ?case
  proof (cases "fs = []")
    case True
    then show ?thesis by (simp add: n QUOTE_def is_digit_def char_code_def)
  next
    case False
    then obtain f ws where fs: "fs = f # ws" by (cases fs) auto
    have l: "length (with_commas (map member fs)) + 1 < m"
      using JObj.prems(1) n render_obj [of fs] by simp
    have e: "parse_members m (with_commas (map member fs) @ ''}'' @ rest) = Some (fs, rest)"
      by (rule parse_render_members [OF _ False l]) (use JObj.IH in \<open>force simp: snds.simps\<close>)
    have "\<exists>r'. with_commas (map member fs) = QUOTE # r'"
      by (cases ws) (auto simp: fs member_def quoted_def)
    with e show ?thesis
      unfolding render_obj by (auto simp: n QUOTE_def is_digit_def char_code_def)
  qed
next
  case JNull
  then show ?case by (cases n) simp_all
next
  case (JBool b)
  then show ?case by (cases n) auto
qed

lemma parse_json_render: "parse_json (render v) = Some v"
  using parse_render [of v "Suc (length (render v))" "[]"] by (simp add: parse_json_def)

text \<open>C31. The response to a command in JSON format is a JSON document: it parses to an object whose
  \<open>ok\<close> says that the text is no error, whose \<open>error\<close> is the message otherwise, and whose \<open>data\<close>
  holds, after the fields derived from the text, the text itself byte for byte, whatever it
  contains.\<close>

theorem json_response_parses:
  "\<exists>fs. parse_json (json_response items response) =
     Some (JObj [(''ok'', JBool (\<not> prefix ''error:'' response)),
       (''error'', if prefix ''error:'' response
                  then JStr (dropWhile (\<lambda>c. c = CHR '' '' \<or> c = CHR 0x09) (drop 6 response)) else JNull),
       (''data'', JObj (fs @ [(''text'', JStr response)]))])"
proof -
  from json_response_value [of items "response"] obtain fs where
    "json_response items response = render (JObj [(''ok'', JBool (\<not> prefix ''error:'' response)),
       (''error'', if prefix ''error:'' response
                  then JStr (dropWhile (\<lambda>c. c = CHR '' '' \<or> c = CHR 0x09) (drop 6 response)) else JNull),
       (''data'', JObj (fs @ [(''text'', JStr response)]))])" ..
  then show ?thesis by (simp only: parse_json_render) blast
qed

end
