(* ===== verification/Control_Session.thy ===== *)
theory Control_Session
  imports Control_Policy Control_Json
begin

text \<open>
  A control connection (\<open>Control/Control.cpp\<close>: \<open>Logger::Control\<close>, \<open>Logger::ControlHandler\<close>). Each
  message received is a command; \<open>auth\<close> and \<open>help\<close> are open, everything else needs the password, if
  one is configured. The command handlers, the extension callback and the registered commands are
  parameters: the code calls them through pointers. They get the words, the response so far and the
  state. Every call is recorded, so that the theorems can say who was called.

  The words of a command are found in two ways: \<open>WordSplit\<close> separates at blanks and tabs and then
  trims all white space, \<open>SplitRemainderAfterWords\<close> separates at blanks, tabs and line ends. The
  authorization decision uses the first, the dispatch of \<open>format json\<close> the second; the section on
  words shows that the difference cannot be used to run a command.
\<close>

section \<open>Words of a command\<close>

definition BLANKS :: string where
  "BLANKS = [CHR '' '', CHR 0x09]"

definition words_of :: "string \<Rightarrow> string list" where
  "words_of s = fst (WordSplit s BLANKS True True)"

fun split_rest :: "nat \<Rightarrow> nat \<Rightarrow> bool \<Rightarrow> string \<Rightarrow> string" where
  "split_rest words w inWord [] = []"
| "split_rest words w inWord (c # cs) =
     (if \<not> json_space c
      then if \<not> inWord
           then if w + 1 = words + 1 then c # cs else split_rest words (w + 1) True cs
           else split_rest words w True cs
      else split_rest words w False cs)"

definition SplitRemainderAfterWords :: "string \<Rightarrow> nat \<Rightarrow> string" where
  "SplitRemainderAfterWords s words = split_rest words 0 False s"

text \<open>The name that decides what a message may do, and the number of words before it.\<close>

definition GetCommandName :: "string \<Rightarrow> string \<times> nat" where
  "GetCommandName cmd =
     (let items = words_of (ToLowerAsciiInplace cmd); n = length items in
      if n = 0 then ([], 0)
      else if items ! 0 = ''format'' \<and> n \<ge> 3 \<and> items ! 1 = ''json'' then (items ! 2, 2)
      else (items ! 0, 0))"

section \<open>Dispatch\<close>

type_synonym 's handler = "string list \<Rightarrow> string \<Rightarrow> 's \<Rightarrow> bool \<times> string \<times> 's"

datatype call = ExtensionCall string | CommandCall string "string list"

record 's control_env =
  BuiltIn :: "string \<Rightarrow> 's handler"
  Registered :: "(string \<times> 's handler) list"
  Extension :: "(string \<Rightarrow> string \<Rightarrow> 's \<Rightarrow> bool \<times> string \<times> 's) option"

definition built_in_names :: "string list" where
  "built_in_names =
     [''help'', ''version'', ''list'', ''channel'', ''subsystem'', ''backend'', ''flags'', ''level'',
      ''trace'', ''logstat'', ''overview'', ''logs'']"

text \<open>The chain of registered commands: the first one of that name that handles the words.\<close>

fun run_registered ::
  "(string \<times> 's handler) list \<Rightarrow> string \<Rightarrow> string list \<Rightarrow> string \<Rightarrow> 's \<Rightarrow> call list \<Rightarrow>
     (string \<times> 's \<times> call list) option \<times> 's \<times> call list" where
  "run_registered [] c items response s calls = (None, s, calls)"
| "run_registered ((name, h) # ds) c items response s calls =
     (if name \<noteq> c then run_registered ds c items response s calls
      else
        case h items response s of
          (handled, response, s) \<Rightarrow>
            let calls = calls @ [CommandCall c items] in
            if handled then (Some (response, s, calls), s, calls)
            else run_registered ds c items response s calls)"

definition lower_first :: "string list \<Rightarrow> string list" where
  "lower_first items =
     (let items = (if items \<noteq> [] then items[0 := ToLowerAsciiInplace (items ! 0)] else items) in
      if length items \<ge> 2 \<and> items ! 0 = ''trace'' then items[1 := ToLowerAsciiInplace (items ! 1)] else items)"

definition run_commands ::
  "'s control_env \<Rightarrow> string list \<Rightarrow> string \<Rightarrow> 's \<Rightarrow> call list \<Rightarrow> string \<times> 's \<times> call list" where
  "run_commands env items response s calls =
     (if items = [] then (''error: unsupported command: <empty>'', s, calls)
      else
        let c = items ! 0;
            unsupported = ''error: unsupported command: '' @ c;
            (handled, response, s, calls) =
              (if c \<in> set built_in_names
               then (case BuiltIn env c items response s of
                       (handled, response, s) \<Rightarrow> (handled, response, s, calls @ [CommandCall c items]))
               else (False, response, s, calls))
        in if handled then (response, s, calls)
           else (case run_registered (Registered env) c items response s calls of
                   (Some r, _, _) \<Rightarrow> r
                 | (None, s, calls) \<Rightarrow> (unsupported, s, calls)))"

definition ControlInternal ::
  "'s control_env \<Rightarrow> control_policy \<Rightarrow> string \<Rightarrow> 's \<Rightarrow> string \<times> 's \<times> call list" where
  "ControlInternal env policy cmd s =
     (let items = lower_first (words_of cmd) in
      case CheckControlPolicy items policy of
        Some reason \<Rightarrow> (''error: command rejected by control policy: '' @ reason, s, [])
      | None \<Rightarrow>
          (case (if AllowExtensions policy then Extension env else None) of
             None \<Rightarrow> run_commands env items [] s []
           | Some ext \<Rightarrow>
               (case ext cmd [] s of
                  (handled, response, s) \<Rightarrow>
                    if handled \<and> (items = [] \<or> items ! 0 \<noteq> ''help'')
                    then (response, s, [ExtensionCall cmd])
                    else run_commands env items response s [ExtensionCall cmd])))"

definition Control ::
  "'s control_env \<Rightarrow> control_policy \<Rightarrow> string \<Rightarrow> 's \<Rightarrow> string \<times> 's \<times> call list" where
  "Control env policy command s =
     (let items = words_of (ToLowerAsciiInplace command) in
      if length items \<ge> 2 \<and> items ! 0 = ''format''
      then if \<not> AllowFormatCommand policy
           then (''error: command rejected by control policy: format command is disabled'', s, [])
           else if items ! 1 = ''json''
           then let remainder = SplitRemainderAfterWords command 2 in
                (case ControlInternal env policy remainder s of
                   (text, s, calls) \<Rightarrow>
                     (json_response (words_of (ToLowerAsciiInplace remainder)) text, s, calls))
           else if items ! 1 = ''text'' \<or> items ! 1 = ''plain'' \<or> items ! 1 = ''plain/text''
           then ControlInternal env policy (SplitRemainderAfterWords command 2) s
           else (''error: invalid format'', s, [])
      else ControlInternal env policy command s)"

section \<open>A connection\<close>

text \<open>
  One round of \<open>ControlHandler\<close>: the bytes received, and the password and the policy the server has
  at that time. \<open>Stored\<close> is the flag in the table of connections.
\<close>

record round =
  Bytes :: string
  Password :: "string option"
  ServerPolicy :: control_policy
  SendOk :: bool

record 's session =
  Authorized :: bool
  Stored :: bool
  Open :: bool
  State :: 's
  Sent :: "string list"
  Ran :: "call list"

definition has_password :: "round \<Rightarrow> bool" where
  "has_password r \<longleftrightarrow> (case Password r of None \<Rightarrow> False | Some p \<Rightarrow> p \<noteq> [])"

definition auth_ok :: "round \<Rightarrow> bool" where
  "auth_ok r \<longleftrightarrow>
     (let pass = Trim (SplitRemainderAfterWords (Bytes r) (snd (GetCommandName (Bytes r)) + 1)) in
      \<not> has_password r \<or> pass \<noteq> [] \<and> Password r = Some pass)"

definition respond :: "string \<Rightarrow> string" where
  "respond response =
     (if response \<noteq> [] \<and> last response \<noteq> CHR 0x0A then response @ [CHR 0x0A] else response)"

definition handle_round :: "'s control_env \<Rightarrow> round \<Rightarrow> 's session \<Rightarrow> 's session" where
  "handle_round env r t =
     (if \<not> Open t then t
      else
        let cmdName = fst (GetCommandName (Bytes r));
            (response, t) =
              (if cmdName = ''auth''
               then if auth_ok r then (''ok'', t\<lparr>Authorized := True, Stored := True\<rparr>)
                    else (''error: invalid password'', t\<lparr>Stored := Authorized t\<rparr>)
               else if cmdName \<noteq> ''help'' \<and> has_password r \<and> \<not> Authorized t
               then (''error: unauthorized'', t)
               else (case Control env (ServerPolicy r) (Bytes r) (State t) of
                       (response, s, calls) \<Rightarrow> (response, t\<lparr>State := s, Ran := Ran t @ calls\<rparr>)));
            response = respond response
        in if response = [] then t
           else if SendOk r then t\<lparr>Sent := Sent t @ [response]\<rparr>
           else t\<lparr>Open := False\<rparr>)"

definition new_session :: "bool \<Rightarrow> 's \<Rightarrow> 's session" where
  "new_session authorized s =
     \<lparr>Authorized = authorized, Stored = authorized, Open = True, State = s, Sent = [], Ran = []\<rparr>"

section \<open>Lemmas: the words after a prefix\<close>

lemma of_char_to_lower:
  "(of_char (to_lower_char c) :: nat) = (if 65 \<le> char_code c \<and> char_code c \<le> 90 then char_code c + 32 else char_code c)"
  by (simp add: to_lower_char_def char_code_def)

lemma to_lower_char_special:
  assumes "char_code x < 65"
  shows "to_lower_char c = x \<longleftrightarrow> c = x"
proof -
  have "to_lower_char c = x \<longleftrightarrow> (of_char (to_lower_char c) :: nat) = of_char x" by simp
  also have "\<dots> \<longleftrightarrow> char_code c = char_code x"
    using assms by (auto simp: of_char_to_lower char_code_def)
  finally show ?thesis by (simp add: char_code_def)
qed

lemma lower_blank [simp]: "to_lower_char c \<in> set BLANKS \<longleftrightarrow> c \<in> set BLANKS"
  by (simp add: BLANKS_def to_lower_char_special char_code_def)

lemma lower_trim_space [simp]: "trim_space (to_lower_char c) \<longleftrightarrow> trim_space c"
  by (simp add: trim_space_def to_lower_char_special char_code_def)

lemma lower_json_space [simp]: "json_space (to_lower_char c) \<longleftrightarrow> json_space c"
  by (simp add: json_space_def to_lower_char_special char_code_def)

lemma TrimSpaces_lower: "TrimSpaces (ToLowerAsciiInplace s) = ToLowerAsciiInplace (TrimSpaces s)"
  by (simp add: TrimSpaces_def erase_right_def ToLowerAsciiInplace_def dropWhile_map o_def rev_map)

definition word1 :: "string \<Rightarrow> string list" where
  "word1 t = (if TrimSpaces t = [] then [] else [TrimSpaces t])"

lemma words_of_Nil [simp]: "words_of [] = []"
  by (simp add: words_of_def WordSplit_def word_split_loop.simps)

lemma words_of_eq:
  "s \<noteq> [] \<Longrightarrow> words_of s =
     (let t = takeWhile (\<lambda>c. c \<notin> set BLANKS) s in word1 t @ words_of (drop (Suc (length t)) s))"
  by (simp add: words_of_def WordSplit_def word1_def word_split_loop.simps [of _ _ _ s] Let_def)

lemma words_of_induct [case_names Nil Cons]:
  assumes "P []"
    and "\<And>s. s \<noteq> [] \<Longrightarrow> P (drop (Suc (length (takeWhile (\<lambda>c. c \<notin> set BLANKS) s))) s) \<Longrightarrow> P s"
  shows "P s"
proof (induction "length s" arbitrary: s rule: less_induct)
  case less
  show ?case
  proof (cases "s = []")
    case False
    then have "P (drop (Suc (length (takeWhile (\<lambda>c. c \<notin> set BLANKS) s))) s)"
      by (intro less) simp
    with False show ?thesis by (rule assms(2))
  qed (simp add: assms(1))
qed

lemma words_of_lower: "words_of (ToLowerAsciiInplace s) = map ToLowerAsciiInplace (words_of s)"
proof (induction s rule: words_of_induct)
  case Nil
  show ?case by (simp add: ToLowerAsciiInplace_def)
next
  case (Cons s)
  have t: "takeWhile (\<lambda>c. c \<notin> set BLANKS) (ToLowerAsciiInplace s) =
      ToLowerAsciiInplace (takeWhile (\<lambda>c. c \<notin> set BLANKS) s)"
    by (simp add: ToLowerAsciiInplace_def takeWhile_map o_def)
  have w: "word1 (ToLowerAsciiInplace x) = map ToLowerAsciiInplace (word1 x)" for x
    by (simp add: word1_def TrimSpaces_lower) (simp add: ToLowerAsciiInplace_def)
  have d: "drop n (ToLowerAsciiInplace s) = ToLowerAsciiInplace (drop n s)"
    and l: "length (ToLowerAsciiInplace x) = length x" for n x
    by (simp_all add: ToLowerAsciiInplace_def drop_map)
  have ne: "ToLowerAsciiInplace s \<noteq> []" using Cons.hyps by (simp add: ToLowerAsciiInplace_def)
  show ?case
    by (simp only: words_of_eq [OF Cons.hyps] words_of_eq [OF ne] Let_def t w l d Cons.IH map_append)
qed

lemma words_of_blank_free: "set t \<inter> set BLANKS = {} \<Longrightarrow> words_of t = word1 t"
proof (cases "t = []")
  case False
  assume "set t \<inter> set BLANKS = {}"
  then have tk: "takeWhile (\<lambda>c. c \<notin> set BLANKS) t = t" by (auto simp: takeWhile_eq_all_conv)
  show ?thesis unfolding words_of_eq [OF False] Let_def tk by simp
qed (simp add: word1_def TrimSpaces_def erase_right_def)

lemma words_of_append_blank: "d \<in> set BLANKS \<Longrightarrow> words_of (x @ d # y) = words_of x @ words_of y"
proof (induction x rule: words_of_induct)
  case Nil
  then show ?case by (simp add: words_of_eq word1_def TrimSpaces_def erase_right_def)
next
  case (Cons x)
  show ?case
  proof (cases "set x \<inter> set BLANKS = {}")
    case True
    then have "takeWhile (\<lambda>c. c \<notin> set BLANKS) (x @ d # y) = x"
      using Cons.prems by (subst takeWhile_append2) auto
    with True show ?thesis by (simp add: words_of_eq words_of_blank_free)
  next
    case False
    then obtain b where b: "b \<in> set x" "\<not> b \<notin> set BLANKS" by auto
    let ?t = "takeWhile (\<lambda>c. c \<notin> set BLANKS) x"
    have t: "takeWhile (\<lambda>c. c \<notin> set BLANKS) (x @ d # y) = ?t"
      using b by (intro takeWhile_append1)
    have "length ?t < length x"
      using b by (metis le_neq_implies_less length_takeWhile_le takeWhile_eq_all_conv
          takeWhile_eq_take take_all order_refl)
    then have "words_of (x @ d # y) = word1 ?t @ words_of (drop (Suc (length ?t)) x @ d # y)"
      by (simp add: words_of_eq [of "x @ d # y"] t Let_def)
    then show ?thesis
      using Cons.IH [OF Cons.prems] by (simp add: words_of_eq [OF Cons.hyps] Let_def)
  qed
qed

text \<open>
  Where a remainder starts: behind a white space character, or at the start, after a prefix with
  \<open>words\<close> words of the second kind. Such a prefix has at most as many words of the first kind.
\<close>

fun space_words :: "bool \<Rightarrow> string \<Rightarrow> nat" where
  "space_words inWord [] = 0"
| "space_words inWord (c # cs) =
     (if json_space c then space_words False cs
      else (if inWord then 0 else 1) + space_words True cs)"

lemma split_rest_prefix:
  "split_rest k w inWord s = u \<Longrightarrow> u \<noteq> [] \<Longrightarrow>
     \<exists>a. s = a @ u \<and> w + space_words inWord a = k \<and> (if a = [] then \<not> inWord else json_space (last a))"
proof (induction k w inWord s rule: split_rest.induct)
  case (2 k w inWord c cs)
  show ?case
  proof (cases "json_space c")
    case True
    with 2 obtain a where "cs = a @ u" "w + space_words False a = k"
        "if a = [] then \<not> False else json_space (last a)" by auto
    with True show ?thesis by (intro exI [of _ "c # a"]) auto
  next
    case c: False
    show ?thesis
    proof (cases "\<not> inWord \<and> w + 1 = k + 1")
      case True
      with c 2 show ?thesis by (intro exI [of _ "[]"]) auto
    next
      case False
      with c 2 obtain a where "cs = a @ u" "(if inWord then w else w + 1) + space_words True a = k"
          "a \<noteq> [] \<and> json_space (last a)" by (auto split: if_splits)
      with c show ?thesis by (intro exI [of _ "c # a"]) auto
    qed
  qed
qed simp

lemma space_words_append_space:
  "json_space d \<Longrightarrow> space_words b (x @ d # y) = space_words b x + space_words False y"
  by (induction b x rule: space_words.induct) auto

lemma space_words_pos: "\<exists>c \<in> set t. \<not> json_space c \<Longrightarrow> 1 \<le> space_words False t"
  by (induction t) auto

lemma TrimSpaces_none: "TrimSpaces t = [] \<longleftrightarrow> (\<forall>c \<in> set t. trim_space c)"
proof
  assume "TrimSpaces t = []"
  then have all: "\<forall>c \<in> set (dropWhile trim_space (rev t)). trim_space c"
    by (simp add: TrimSpaces_def erase_right_def)
  have "dropWhile trim_space (rev t) = []"
  proof (rule ccontr)
    assume ne: "dropWhile trim_space (rev t) \<noteq> []"
    with hd_dropWhile [OF ne] all show False by (meson hd_in_set)
  qed
  then show "\<forall>c \<in> set t. trim_space c" by simp
next
  assume "\<forall>c \<in> set t. trim_space c"
  then show "TrimSpaces t = []" by (auto simp: TrimSpaces_def erase_right_def dest: set_dropWhileD)
qed

lemma word1_count: "length (word1 t) \<le> space_words False t"
proof (cases "TrimSpaces t = []")
  case False
  then obtain c where "c \<in> set t" "\<not> trim_space c" by (auto simp: TrimSpaces_none)
  then have "\<exists>c \<in> set t. \<not> json_space c" by (auto simp: trim_space_def json_space_def)
  then show ?thesis using space_words_pos [of t] by (simp add: word1_def)
qed (simp add: word1_def)

lemma words_of_count: "length (words_of a) \<le> space_words False a"
proof (induction a rule: words_of_induct)
  case (Cons s)
  let ?t = "takeWhile (\<lambda>c. c \<notin> set BLANKS) s"
  show ?case
  proof (cases "length ?t < length s")
    case True
    let ?d = "s ! length ?t"
    have "?d \<in> set BLANKS" using nth_length_takeWhile [OF True] by simp
    then have d: "json_space ?d" by (auto simp: BLANKS_def json_space_def)
    have s: "s = ?t @ ?d # drop (Suc (length ?t)) s"
      using True by (metis id_take_nth_drop takeWhile_eq_take)
    have "space_words False s = space_words False ?t + space_words False (drop (Suc (length ?t)) s)"
      by (subst s) (rule space_words_append_space [OF d])
    with Cons word1_count [of ?t] show ?thesis by (simp add: words_of_eq Let_def)
  next
    case False
    then have t: "?t = s" by (metis le_neq_implies_less length_takeWhile_le takeWhile_eq_take take_all order_refl)
    show ?thesis unfolding words_of_eq [OF Cons.hyps] Let_def t using word1_count [of s] by simp
  qed
qed simp

text \<open>
  When a prefix ends inside a word of the first kind, that word holds a line end in its middle, so it
  is none of the names a command can start with.
\<close>

definition has_line_end :: "string \<Rightarrow> bool" where
  "has_line_end w \<longleftrightarrow> CHR 0x0D \<in> set w \<or> CHR 0x0A \<in> set w"

lemma has_line_end_lower [simp]: "has_line_end (ToLowerAsciiInplace w) \<longleftrightarrow> has_line_end w"
proof -
  have "x \<in> to_lower_char ` set w \<longleftrightarrow> x \<in> set w" if "char_code x < 65" for x
    using to_lower_char_special [OF that] by (metis imageE imageI)
  then show ?thesis by (simp add: has_line_end_def ToLowerAsciiInplace_def char_code_def)
qed

lemma erase_right_append:
  "erase_right (s @ t) = (if TrimSpaces t = [] then erase_right s else s @ erase_right t)"
proof (cases "TrimSpaces t = []")
  case True
  then have "\<forall>c \<in> set (rev t). trim_space c" by (simp add: TrimSpaces_none)
  then have "dropWhile trim_space (rev t @ rev s) = dropWhile trim_space (rev s)"
    by (intro dropWhile_append2) simp
  with True show ?thesis by (simp add: erase_right_def)
next
  case False
  then obtain c where "c \<in> set (rev t)" "\<not> trim_space c" by (auto simp: TrimSpaces_none)
  with False show ?thesis by (simp add: erase_right_def dropWhile_append1)
qed

lemma last_dropWhile_ex: "\<exists>c \<in> set t. \<not> P c \<Longrightarrow> last (dropWhile P t) = last t"
  by (induction t) auto

lemma word1_append:
  assumes "t \<noteq> []" and "last t = CHR 0x0D \<or> last t = CHR 0x0A"
  shows "word1 (t @ u) = word1 t @ word1 u \<or>
         word1 t \<noteq> [] \<and> (\<exists>w. word1 (t @ u) = [w] \<and> has_line_end w)"
proof -
  consider "TrimSpaces t = []" | "TrimSpaces u = []" | "TrimSpaces t \<noteq> []" "TrimSpaces u \<noteq> []" by blast
  then show ?thesis
  proof cases
    case 1
    have "TrimSpaces (t @ u) = TrimSpaces u"
    proof (cases "TrimSpaces u = []")
      case True
      with 1 show ?thesis by (simp add: TrimSpaces_none [of "t @ u"]) (auto simp: TrimSpaces_none)
    next
      case False
      from 1 have "\<forall>c \<in> set t. trim_space c" by (simp add: TrimSpaces_none)
      moreover have "erase_right (t @ u) = t @ erase_right u"
        using False by (simp add: erase_right_append)
      ultimately show ?thesis by (simp add: TrimSpaces_def dropWhile_append2)
    qed
    with 1 show ?thesis by (simp add: word1_def)
  next
    case 2
    then have "TrimSpaces (t @ u) = TrimSpaces t"
      by (simp add: TrimSpaces_def [of "t @ u"] TrimSpaces_def [of t] erase_right_append)
    with 2 show ?thesis by (simp add: word1_def)
  next
    case 3
    then obtain c where c: "c \<in> set t" "\<not> trim_space c" by (auto simp: TrimSpaces_none)
    then have "TrimSpaces (t @ u) = dropWhile trim_space t @ erase_right u"
      using 3 by (simp add: TrimSpaces_def [of "t @ u"] erase_right_append dropWhile_append1)
    moreover have "last t \<in> set (dropWhile trim_space t)"
      using c last_dropWhile_ex [of t trim_space] by (metis dropWhile_eq_Nil_conv last_in_set)
    ultimately have le: "last t \<in> set (TrimSpaces (t @ u))" by simp
    then have "has_line_end (TrimSpaces (t @ u))"
      using assms(2) by (auto simp: has_line_end_def simp del: last_in_set)
    moreover from le have "TrimSpaces (t @ u) \<noteq> []" by (metis empty_iff empty_set)
    ultimately show ?thesis using 3 by (simp add: word1_def)
  qed
qed

lemma blank_suffix: "\<exists>x y. a = x @ y \<and> set y \<inter> set BLANKS = {} \<and> (x = [] \<or> last x \<in> set BLANKS)"
proof (induction a rule: rev_induct)
  case (snoc c a)
  then obtain x y where xy: "a = x @ y" "set y \<inter> set BLANKS = {}" "x = [] \<or> last x \<in> set BLANKS" by blast
  show ?case
  proof (cases "c \<in> set BLANKS")
    case True
    then show ?thesis by (intro exI [of _ "a @ [c]"] exI [of _ "[]"]) auto
  next
    case False
    with xy show ?thesis by (intro exI [of _ x] exI [of _ "y @ [c]"]) auto
  qed
qed simp

lemma words_of_append_left: "x = [] \<or> last x \<in> set BLANKS \<Longrightarrow> words_of (x @ y) = words_of x @ words_of y"
  by (cases x rule: rev_cases) (auto simp: words_of_append_blank words_of_append_blank [of _ _ "[]", simplified])

lemma words_of_append:
  assumes "a = [] \<or> json_space (last a)"
  shows "words_of (a @ u) = words_of a @ words_of u \<or>
         (\<exists>w \<in> set (take (length (words_of a)) (words_of (a @ u))). has_line_end w)"
proof -
  obtain x t where a: "a = x @ t" "set t \<inter> set BLANKS = {}" "x = [] \<or> last x \<in> set BLANKS"
    using blank_suffix by blast
  show ?thesis
  proof (cases "t = []")
    case True
    with a show ?thesis by (simp add: words_of_append_left)
  next
    case t: False
    with a(1,2) assms have le: "last t = CHR 0x0D \<or> last t = CHR 0x0A"
      by (auto simp: json_space_def BLANKS_def dest!: last_in_set)
    define v y where "v = takeWhile (\<lambda>c. c \<notin> set BLANKS) u" and "y = dropWhile (\<lambda>c. c \<notin> set BLANKS) u"
    then have u: "u = v @ y" "set v \<inter> set BLANKS = {}" "y = [] \<or> hd y \<in> set BLANKS"
      using hd_dropWhile [of "\<lambda>c. c \<notin> set BLANKS" u] by (auto dest: set_takeWhileD)
    have y: "words_of (z @ y) = words_of z @ words_of y" for z
      using u(3) by (cases y) (auto simp: words_of_append_blank words_of_append_blank [of _ "[]", simplified])
    have words: "words_of (a @ u) = words_of x @ word1 (t @ v) @ words_of y"
      "words_of a = words_of x @ word1 t" "words_of u = word1 v @ words_of y"
      using a u words_of_append_left [OF a(3), of "t @ v @ y"] words_of_append_left [OF a(3), of t]
        y [of "t @ v"] y [of v] words_of_blank_free [of t] words_of_blank_free [of v]
        words_of_blank_free [of "t @ v"] by (simp_all add: Int_Un_distrib2)
    from word1_append [OF t le, of v] show ?thesis by (auto simp: words take_Cons')
  qed
qed

section \<open>Authorization\<close>

lemma run_registered_calls:
  "case run_registered ds c items response s calls of (r, s', calls') \<Rightarrow>
     (\<forall>x \<in> set (case r of None \<Rightarrow> calls' | Some (_, _, cs) \<Rightarrow> cs).
        x \<in> set calls \<or> x = CommandCall c items \<and> c \<in> fst ` set ds)"
proof (induction ds c items response s calls rule: run_registered.induct)
  case (2 name h ds c items response s calls)
  show ?case
  proof (cases "name = c")
    case False
    with "2.IH"(1) show ?thesis by (auto split: prod.splits option.splits)
  next
    case True
    obtain handled r s' where h: "h items response s = (handled, r, s')" by (metis prod_cases3)
    show ?thesis
    proof (cases handled)
      case True
      with \<open>name = c\<close> h show ?thesis by (simp add: Let_def)
    next
      case False
      with True h "2.IH"(2) [of handled "(r, s')" r s' "calls @ [CommandCall c items]"]
      show ?thesis by (auto split: prod.splits option.splits)
    qed
  qed
qed simp

lemma run_commands_calls:
  "x \<in> set (snd (snd (run_commands env items response s calls))) \<Longrightarrow>
     x \<in> set calls \<or> items \<noteq> [] \<and> x = CommandCall (items ! 0) items \<and>
       (items ! 0 \<in> set built_in_names \<or> items ! 0 \<in> fst ` set (Registered env))"
proof -
  assume x: "x \<in> set (snd (snd (run_commands env items response s calls)))"
  have reg: "y \<in> set cs \<or> y = CommandCall (items ! 0) items \<and> items ! 0 \<in> fst ` set (Registered env)"
    if "y \<in> set (snd (snd (case run_registered (Registered env) (items ! 0) items rs ss cs of
        (Some r, _, _) \<Rightarrow> r | (None, s, calls) \<Rightarrow> (u, s, calls))))" for y u rs ss and cs :: "call list"
    using that run_registered_calls
      [where ds = "Registered env" and c = "items ! 0" and items = items and response = rs and s = ss and calls = cs]
    by (auto split: prod.splits option.splits)
  show ?thesis
  proof (cases "items = []")
    case True
    with x show ?thesis by (simp add: run_commands_def)
  next
    case ne: False
    show ?thesis
    proof (cases "items ! 0 \<in> set built_in_names")
      case True
      obtain h r s' where b: "BuiltIn env (items ! 0) items response s = (h, r, s')" by (metis prod_cases3)
      show ?thesis
        using x ne True b reg [where y = x and rs = r and ss = s' and cs = "calls @ [CommandCall (items ! 0) items]"]
        by (auto simp: run_commands_def Let_def split: if_splits)
    next
      case False
      then show ?thesis
        using x ne reg [where y = x and rs = response and ss = s and cs = calls] by (auto simp: run_commands_def Let_def)
    qed
  qed
qed

lemma lower_first_hd: "items \<noteq> [] \<Longrightarrow> lower_first items ! 0 = ToLowerAsciiInplace (items ! 0)"
  by (cases items) (auto simp: lower_first_def Let_def)

lemma lower_first_Nil [simp]: "lower_first items = [] \<longleftrightarrow> items = []"
  by (simp add: lower_first_def Let_def)

lemma ControlInternal_calls:
  assumes "x \<in> set (snd (snd (ControlInternal env policy cmd s)))"
  shows "(\<exists>c. x = ExtensionCall c) \<and> AllowExtensions policy \<or>
     (\<exists>items. words_of cmd \<noteq> [] \<and> x = CommandCall (words_of (ToLowerAsciiInplace cmd) ! 0) items \<and>
       (words_of (ToLowerAsciiInplace cmd) ! 0 \<in> set built_in_names \<or>
        words_of (ToLowerAsciiInplace cmd) ! 0 \<in> fst ` set (Registered env)))"
proof -
  let ?items = "lower_first (words_of cmd)"
  have "(\<exists>c. x = ExtensionCall c) \<and> AllowExtensions policy \<or>
      (?items \<noteq> [] \<and> x = CommandCall (?items ! 0) ?items \<and>
       (?items ! 0 \<in> set built_in_names \<or> ?items ! 0 \<in> fst ` set (Registered env)))"
    using assms
    by (auto simp: ControlInternal_def Let_def split: option.splits if_splits prod.splits
        dest!: run_commands_calls)
  then show ?thesis by (elim disjE conjE) (simp_all add: lower_first_hd words_of_lower)
qed

text \<open>The remainder after \<open>k\<close> words starts at one of the first \<open>k + 1\<close> words of the command, or is empty.\<close>

lemma remainder_words:
  assumes "k < length (words_of s)" and "\<forall>w \<in> set (take k (words_of s)). \<not> has_line_end w"
    and "SplitRemainderAfterWords s k \<noteq> []"
  shows "\<exists>j \<le> k. words_of (SplitRemainderAfterWords s k) = drop j (words_of s)"
proof -
  let ?u = "SplitRemainderAfterWords s k"
  obtain a where a: "s = a @ ?u" "space_words False a = k" "if a = [] then True else json_space (last a)"
    using split_rest_prefix [of k 0 False s ?u] assms(3) by (auto simp: SplitRemainderAfterWords_def)
  have len: "length (words_of a) \<le> k" using words_of_count [of a] a(2) by simp
  have "\<forall>w \<in> set (take (length (words_of a)) (words_of s)). \<not> has_line_end w"
    using assms(2) set_take_subset_set_take [OF len, of "words_of s"] by blast
  with words_of_append [of a ?u] a(1,3) have "words_of s = words_of a @ words_of ?u"
    by (auto split: if_splits)
  then have "words_of ?u = drop (length (words_of a)) (words_of s)" by simp
  with len show ?thesis by blast
qed

definition help_calls :: "'s control_env \<Rightarrow> round \<Rightarrow> call \<Rightarrow> bool" where
  "help_calls env r x =
     (case x of
        ExtensionCall _ \<Rightarrow> AllowExtensions (ServerPolicy r)
      | CommandCall c _ \<Rightarrow>
          c = ''help'' \<or> (c = ''format'' \<or> c = ''json'') \<and> c \<in> fst ` set (Registered env))"

lemma ControlInternal_help:
  assumes "x \<in> set (snd (snd (ControlInternal env (ServerPolicy r) cmd s)))"
    and "words_of cmd \<noteq> [] \<Longrightarrow>
      words_of (ToLowerAsciiInplace cmd) ! 0 \<in> {''help'', ''format'', ''json''}"
  shows "help_calls env r x"
proof -
  have "''format'' \<notin> set built_in_names" "''json'' \<notin> set built_in_names"
    by (simp_all add: built_in_names_def)
  moreover define R where "R = fst ` set (Registered env)"
  ultimately show ?thesis
    using ControlInternal_calls [OF assms(1)] assms(2)
    unfolding help_calls_def R_def [symmetric] by auto
qed

lemma Control_help:
  assumes "fst (GetCommandName cmd) = ''help''"
    and x: "x \<in> set (snd (snd (Control env (ServerPolicy r) cmd s)))"
  shows "help_calls env r x"
proof -
  let ?W = "words_of (ToLowerAsciiInplace cmd)"
  have cases: "?W \<noteq> [] \<and> ?W ! 0 = ''help'' \<or>
      3 \<le> length ?W \<and> ?W ! 0 = ''format'' \<and> ?W ! 1 = ''json'' \<and> ?W ! 2 = ''help''"
    using assms(1) by (auto simp: GetCommandName_def Let_def split: if_splits)
  then show ?thesis
  proof
    assume h: "?W \<noteq> [] \<and> ?W ! 0 = ''help''"
    with x have "x \<in> set (snd (snd (ControlInternal env (ServerPolicy r) cmd s)))"
      by (auto simp: Control_def Let_def)
    then show ?thesis using h by (intro ControlInternal_help) auto
  next
    assume f: "3 \<le> length ?W \<and> ?W ! 0 = ''format'' \<and> ?W ! 1 = ''json'' \<and> ?W ! 2 = ''help''"
    let ?u = "SplitRemainderAfterWords cmd 2"
    have W: "length (words_of cmd) = length ?W" "\<And>i. i < length ?W \<Longrightarrow> ?W ! i = ToLowerAsciiInplace (words_of cmd ! i)"
      by (simp_all add: words_of_lower)
    have x': "x \<in> set (snd (snd (ControlInternal env (ServerPolicy r) ?u s)))"
      using x f by (auto simp: Control_def Let_def split: if_splits prod.splits)
    from f have len0: "0 < length ?W" and len1: "1 < length ?W" and len2: "2 < length ?W" by linarith+
    have "\<forall>w \<in> set (take 2 (words_of cmd)). \<not> has_line_end w"
    proof
      fix w assume "w \<in> set (take 2 (words_of cmd))"
      then have "w = words_of cmd ! 0 \<or> w = words_of cmd ! 1"
        by (auto simp: in_set_conv_nth less_2_cases_iff)
      moreover have "ToLowerAsciiInplace (words_of cmd ! 0) = ''format''"
          "ToLowerAsciiInplace (words_of cmd ! 1) = ''json''"
        using f W(2) [OF len0] W(2) [OF len1] by metis+
      ultimately have "ToLowerAsciiInplace w = ''format'' \<or> ToLowerAsciiInplace w = ''json''" by metis
      then have "\<not> has_line_end (ToLowerAsciiInplace w)" by (auto simp: has_line_end_def)
      then show "\<not> has_line_end w" by simp
    qed
    then have ex: "\<exists>j \<le> 2. words_of ?u = drop j (words_of cmd)" if "?u \<noteq> []"
      using remainder_words [OF _ _ that] f W(1) by auto
    show ?thesis
    proof (rule ControlInternal_help [OF x'])
      assume "words_of ?u \<noteq> []"
      then obtain j where j: "j \<le> 2" "words_of ?u = drop j (words_of cmd)"
        using ex by (cases "?u = []") auto
      then have "words_of (ToLowerAsciiInplace ?u) = drop j ?W"
        by (simp add: words_of_lower drop_map)
      then have "words_of (ToLowerAsciiInplace ?u) ! 0 = ?W ! j"
        using j(1) len2 by (metis add.right_neutral le_less_trans less_imp_le_nat nth_drop)
      moreover have "j = 0 \<or> j = 1 \<or> j = 2" using j(1) by auto
      ultimately show "words_of (ToLowerAsciiInplace ?u) ! 0 \<in> {''help'', ''format'', ''json''}"
        using f by auto
    qed
  qed
qed

definition no_auth :: "round \<Rightarrow> bool" where
  "no_auth r \<longleftrightarrow> has_password r \<and> \<not> (fst (GetCommandName (Bytes r)) = ''auth'' \<and> auth_ok r)"

lemma handle_round_unauthorized:
  assumes "no_auth r" and "\<not> Authorized t"
  shows "\<not> Authorized (handle_round env r t) \<and>
    (\<forall>x \<in> set (Ran (handle_round env r t)). x \<in> set (Ran t) \<or> help_calls env r x) \<and>
    (Stored (handle_round env r t) \<longrightarrow> Stored t)"
proof (cases "Open t \<and> fst (GetCommandName (Bytes r)) = ''help''")
  case True
  obtain resp s' calls where c: "Control env (ServerPolicy r) (Bytes r) (State t) = (resp, s', calls)"
    by (metis prod_cases3)
  have "\<forall>x \<in> set calls. help_calls env r x"
    using Control_help [of "Bytes r" _ env r "State t"] True c by simp
  with True assms c show ?thesis by (auto simp: handle_round_def Let_def)
next
  case False
  with assms show ?thesis by (auto simp: handle_round_def Let_def no_auth_def)
qed

text \<open>C4. Without the password a connection runs nothing but help. While a password is configured and
  no message is an accepted \<open>auth\<close>, a connection that started unauthorized stays unauthorized, and
  the only calls made for it are the help command, registered commands that are themselves named
  \<open>format\<close> or \<open>json\<close>, and the extension callback if the server's policy admits extensions.\<close>

theorem unauthorized_runs_help_only:
  assumes "\<forall>r \<in> set rounds. no_auth r"
  shows "\<not> Authorized (fold (handle_round env) rounds (new_session False s)) \<and>
    \<not> Stored (fold (handle_round env) rounds (new_session False s)) \<and>
    (\<forall>x \<in> set (Ran (fold (handle_round env) rounds (new_session False s))).
       \<exists>r \<in> set rounds. help_calls env r x)"
proof -
  have "\<not> Authorized (fold (handle_round env) rounds t) \<and>
      (Stored (fold (handle_round env) rounds t) \<longrightarrow> Stored t) \<and>
      (\<forall>x \<in> set (Ran (fold (handle_round env) rounds t)). x \<in> set (Ran t) \<or> (\<exists>r \<in> set rounds. help_calls env r x))"
    if "\<not> Authorized t" for t using that assms
  proof (induction rounds arbitrary: t)
    case (Cons r rounds)
    then have r: "no_auth r" by simp
    from handle_round_unauthorized [OF r Cons.prems(1)] Cons.IH [of "handle_round env r t"] Cons.prems(2)
    show ?case by simp blast
  qed simp
  from this [of "new_session False s"] show ?thesis by (simp add: new_session_def)
qed

text \<open>
  The witness sends an unknown command, a wrong password and two forms of \<open>help\<close>: both calls of help
  are made, the other messages make none.
\<close>

definition demo_env :: "unit control_env" where
  "demo_env = \<lparr>BuiltIn = (\<lambda>name items response s. (True, ''done'', s)), Registered = [], Extension = None\<rparr>"

definition demo_rounds :: "round list" where
  "demo_rounds =
     map (\<lambda>b. \<lparr>Bytes = b, Password = Some ''pw'', ServerPolicy = Policy_Full, SendOk = True\<rparr>)
       [''level error'', ''auth nope'', ''Help'', ''format json help'']"

lemma demo_no_auth: "\<forall>r \<in> set demo_rounds. no_auth r"
  by code_simp

theorem unauthorized_runs_help_only_witness:
  "\<not> Authorized (fold (handle_round demo_env) demo_rounds (new_session False ())) \<and>
   Ran (fold (handle_round demo_env) demo_rounds (new_session False ())) =
     [CommandCall ''help'' [''help''], CommandCall ''help'' [''help'']]"
proof -
  have "Ran (fold (handle_round demo_env) demo_rounds (new_session False ())) =
      [CommandCall ''help'' [''help''], CommandCall ''help'' [''help'']]"
    by code_simp
  with unauthorized_runs_help_only [OF demo_no_auth, of demo_env "()"] demo_no_auth show ?thesis by blast
qed

end
