(* ===== verification/Trace_Points.thy ===== *)
theory Trace_Points
  imports Text_Utils
begin

text \<open>
  Trace points (\<open>TracePoint.cpp\<close>, \<open>TracePoint.h\<close>, the macro \<open>LOGME_TP_BODY\<close> of \<open>Logme.h\<close>): call
  sites that count their hits, register themselves at the first hit and log only while enabled.
  \<open>TracePoint\<close> objects are static, so a number stands for the address; the registry is the list
  the \<open>Next\<close> pointers form. Patterns are matched by a backtracking loop with one star to retry;
  the reference definition is the usual recursive reading of \<open>?\<close> and \<open>*\<close>.
\<close>

section \<open>Wildcards\<close>

text \<open>
  \<open>WildcardMatchInternal\<close>: \<open>star\<close> and \<open>retry\<close> are the text to retry from and the pattern behind the
  last star. The end of a list is the terminator the code reads; no text character equals it.
\<close>

function WildcardMatchInternal :: "string \<Rightarrow> string \<Rightarrow> (string \<times> string) option \<Rightarrow> bool" where
  "WildcardMatchInternal [] pattern star \<longleftrightarrow> dropWhile (\<lambda>c. c = CHR ''*'') pattern = []"
| "WildcardMatchInternal (c # t) pattern star \<longleftrightarrow>
     (if pattern \<noteq> [] \<and> (hd pattern = CHR ''?'' \<or> hd pattern = c)
      then WildcardMatchInternal t (tl pattern) star
      else if pattern \<noteq> [] \<and> hd pattern = CHR ''*''
      then WildcardMatchInternal (c # t) (tl pattern) (Some (c # t, tl pattern))
      else case star of
             Some (retry, p) \<Rightarrow> WildcardMatchInternal (tl retry) p (Some (tl retry, p))
           | None \<Rightarrow> False)"
  by pat_completeness auto

termination
proof (relation "measures [\<lambda>(t, p, s). max (length p) (case s of None \<Rightarrow> 0 | Some (r, q) \<Rightarrow> length q),
    \<lambda>(t, p, s). case s of None \<Rightarrow> 0 | Some (r, q) \<Rightarrow> length r, \<lambda>(t, p, s). length t]", goal_cases)
  case (2 c t pattern star)
  then show ?case by (cases pattern; cases star) (auto simp: max_def)
next
  case (3 c t pattern star)
  then show ?case by (cases pattern; cases star) (auto simp: max_def)
next
  case (4 c t pattern star x retry p)
  then show ?case by (cases retry) (auto simp: max_def)
qed simp

fun glob :: "string \<Rightarrow> string \<Rightarrow> bool" where
  "glob [] t \<longleftrightarrow> t = []"
| "glob (p # ps) [] \<longleftrightarrow> p = CHR ''*'' \<and> glob ps []"
| "glob (p # ps) (c # t) \<longleftrightarrow>
     (if p = CHR ''*'' then glob ps (c # t) \<or> glob (p # ps) t else (p = CHR ''?'' \<or> p = c) \<and> glob ps t)"

lemma glob_Nil: "glob p [] \<longleftrightarrow> dropWhile (\<lambda>c. c = CHR ''*'') p = []"
  by (induction p) auto

lemma glob_star: "glob (CHR ''*'' # p) t \<longleftrightarrow> (\<exists>u. suffix u t \<and> glob p u)"
proof (induction t)
  case Nil
  then show ?case by simp
next
  case (Cons c t)
  then show ?case by (auto simp: suffix_Cons)
qed

text \<open>What the loop stands for: the rest matches, or the pattern behind the star does further on.\<close>

definition later :: "(string \<times> string) option \<Rightarrow> bool" where
  "later star \<longleftrightarrow> (case star of None \<Rightarrow> False | Some (retry, p) \<Rightarrow> retry \<noteq> [] \<and> glob (CHR ''*'' # p) (tl retry))"

lemma wildcard_sound:
  "WildcardMatchInternal t p star \<Longrightarrow> (case star of None \<Rightarrow> True | Some (r, _) \<Rightarrow> length t \<le> length r) \<Longrightarrow>
     glob p t \<or> later star"
proof (induction t p star rule: WildcardMatchInternal.induct)
  case (1 pattern star)
  then show ?case by (simp add: glob_Nil)
next
  case (2 c t pattern star)
  consider (same) "pattern \<noteq> [] \<and> (hd pattern = CHR ''?'' \<or> hd pattern = c)"
    | (new) "\<not> (pattern \<noteq> [] \<and> (hd pattern = CHR ''?'' \<or> hd pattern = c))"
        "pattern \<noteq> [] \<and> hd pattern = CHR ''*''"
    | (retry) "\<not> (pattern \<noteq> [] \<and> (hd pattern = CHR ''?'' \<or> hd pattern = c))"
        "\<not> (pattern \<noteq> [] \<and> hd pattern = CHR ''*'')" by blast
  then show ?case
  proof cases
    case same
    with 2 have "glob (tl pattern) t \<or> later star" by (auto split: option.splits)
    with same show ?thesis by (cases pattern) (auto simp: glob_star intro: suffix_ConsI)
  next
    case new
    with 2 have "glob (tl pattern) (c # t) \<or> later (Some (c # t, tl pattern))" by simp
    with new show ?thesis by (cases pattern) (auto simp: later_def)
  next
    case retry
    with "2.prems"(1) obtain r p where s: "star = Some (r, p)" by (auto split: option.splits)
    then have "WildcardMatchInternal (tl r) p (Some (tl r, p))" and "r \<noteq> []"
      using retry "2.prems" by auto
    then have "glob p (tl r) \<or> later (Some (tl r, p))"
      using "2.IH"(3) [OF retry s refl] by simp
    then have "glob (CHR ''*'' # p) (tl r)"
      by (cases "tl r") (auto simp: later_def)
    with \<open>r \<noteq> []\<close> s show ?thesis by (simp add: later_def)
  qed
qed

text \<open>
  Completeness needs the position of the loop: from the star on, the pattern read so far holds no
  star and is as long as the text read so far. Then an earlier star cannot do better than the last.
\<close>

definition star_position :: "string \<Rightarrow> string \<Rightarrow> (string \<times> string) option \<Rightarrow> bool" where
  "star_position t p star \<longleftrightarrow>
     (case star of None \<Rightarrow> True
      | Some (r, sp) \<Rightarrow> \<exists>q u. sp = q @ p \<and> r = u @ t \<and> length q = length u \<and> CHR ''*'' \<notin> set q)"

lemma glob_fixed:
  "CHR ''*'' \<notin> set q \<Longrightarrow> glob (q @ p) t \<Longrightarrow> length q \<le> length t \<and> glob p (drop (length q) t)"
proof (induction q arbitrary: t)
  case (Cons a q)
  then show ?case by (cases t) auto
qed simp

lemma later_skip:
  assumes "star_position t p star" and "later star"
  shows "\<exists>u. suffix u t \<and> u \<noteq> t \<and> glob p u"
proof -
  from assms obtain r sp q u where s: "star = Some (r, sp)" "sp = q @ p" "r = u @ t"
      "length q = length u" "CHR ''*'' \<notin> set q" "r \<noteq> []" "glob (CHR ''*'' # sp) (tl r)"
    by (auto simp: star_position_def later_def split: option.splits)
  from s(7) obtain v where v: "suffix v (tl r)" "glob sp v" by (auto simp: glob_star)
  with s have g: "length q \<le> length v" "glob p (drop (length q) v)" using glob_fixed by blast+
  have lv: "length v < length r" using v(1) s(6) suffix_length_le [OF v(1)] by (cases r) auto
  have "suffix (drop (length q) v) r"
    using v(1) s(6) by (cases r) (auto intro: suffix_ConsI suffix_drop suffix_order.trans)
  moreover have "suffix t r" using s by (simp add: suffix_def)
  moreover have len: "length (drop (length q) v) < length t" using g(1) lv s by simp
  ultimately have "suffix (drop (length q) v) t" by (metis less_imp_le_nat suffix_length_suffix)
  with g(2) len show ?thesis by blast
qed

lemma wildcard_complete:
  "glob p t \<or> later star \<Longrightarrow> star_position t p star \<Longrightarrow> CHR ''*'' \<notin> set t \<Longrightarrow>
     (case star of None \<Rightarrow> True | Some (r, _) \<Rightarrow> CHR ''*'' \<notin> set r) \<Longrightarrow> WildcardMatchInternal t p star"
proof (induction t p star rule: WildcardMatchInternal.induct)
  case (1 pattern star)
  then show ?case using later_skip [of "[]" pattern star] by (auto simp: glob_Nil)
next
  case (2 c t pattern star)
  consider (same) "pattern \<noteq> [] \<and> (hd pattern = CHR ''?'' \<or> hd pattern = c)"
    | (new) "\<not> (pattern \<noteq> [] \<and> (hd pattern = CHR ''?'' \<or> hd pattern = c))"
        "pattern \<noteq> [] \<and> hd pattern = CHR ''*''"
    | (retry) "\<not> (pattern \<noteq> [] \<and> (hd pattern = CHR ''?'' \<or> hd pattern = c))"
        "\<not> (pattern \<noteq> [] \<and> hd pattern = CHR ''*'')" by blast
  then show ?case
  proof cases
    case same
    then obtain a ps where p: "pattern = a # ps" "a = CHR ''?'' \<or> a = c" by (cases pattern) auto
    with "2.prems"(3) have a: "a \<noteq> CHR ''*''" by auto
    have pos: "star_position t ps star"
    proof (cases star)
      case (Some s)
      with "2.prems"(2) p obtain r sp q u where "s = (r, sp)" "sp = q @ a # ps" "r = u @ c # t"
          "length q = length u" "CHR ''*'' \<notin> set q"
        by (cases s) (auto simp: star_position_def)
      with a Some show ?thesis
        by (auto simp: star_position_def intro: exI [of _ "q @ [a]"] exI [of _ "u @ [c]"])
    qed (simp add: star_position_def)
    have "glob ps t \<or> later star" using "2.prems"(1) p a by auto
    then have "WildcardMatchInternal t (tl pattern) star"
      using "2.IH"(1) [OF same] pos p "2.prems" by simp
    with same show ?thesis by simp
  next
    case new
    then obtain ps where p: "pattern = CHR ''*'' # ps" by (cases pattern) auto
    have "glob pattern (c # t)"
      using "2.prems"(1) later_skip [OF "2.prems"(2)] p
      by (auto simp: glob_star dest: suffix_order.trans simp del: glob.simps)
    then have "glob ps (c # t) \<or> later (Some (c # t, ps))" by (simp add: p later_def)
    moreover have "star_position (c # t) ps (Some (c # t, ps))" by (simp add: star_position_def)
    ultimately have "WildcardMatchInternal (c # t) (tl pattern) (Some (c # t, tl pattern))"
      using "2.IH"(2) [OF new] "2.prems"(3) p by simp
    with new show ?thesis by simp
  next
    case retry
    have "\<not> glob pattern (c # t)" using retry by (cases pattern) auto
    with "2.prems"(1) have l: "later star" by simp
    then obtain r sp where s: "star = Some (r, sp)" "r \<noteq> []" "glob (CHR ''*'' # sp) (tl r)"
      by (auto simp: later_def split: option.splits)
    have "glob sp (tl r) \<or> later (Some (tl r, sp))"
      using s(3) by (cases "tl r") (auto simp: later_def)
    moreover have "star_position (tl r) sp (Some (tl r, sp))" by (simp add: star_position_def)
    moreover have ns: "CHR ''*'' \<notin> set (tl r)" using "2.prems"(4) s by (cases r) auto
    moreover have "case Some (tl r, sp) of None \<Rightarrow> True | Some (r, _) \<Rightarrow> CHR ''*'' \<notin> set r"
      using ns by simp
    ultimately have "WildcardMatchInternal (tl r) sp (Some (tl r, sp))"
      by (rule "2.IH"(3) [OF retry s(1) refl])
    moreover have "WildcardMatchInternal (c # t) pattern star = WildcardMatchInternal (tl r) sp (Some (tl r, sp))"
      by (subst WildcardMatchInternal.simps(2))
        (simp only: if_not_P [OF retry(1)] if_not_P [OF retry(2)] s(1) option.case prod.case)
    ultimately show ?thesis by (simp only:)
  qed
qed

text \<open>C39. A pattern that matches by the loop matches by the rules of \<open>?\<close> and \<open>*\<close>, and the other way
  round for every text without a star of its own: a star in the text is taken for a literal match of
  the star in the pattern, after which the loop has no star to come back to.\<close>

theorem wildcard_match_is_glob:
  "(WildcardMatchInternal t p None \<longrightarrow> glob p t) \<and>
   (CHR ''*'' \<notin> set t \<longrightarrow> WildcardMatchInternal t p None = glob p t) \<and>
   glob ''*12'' ''*:12'' \<and> \<not> WildcardMatchInternal ''*:12'' ''*12'' None"
proof -
  have "WildcardMatchInternal t p None \<Longrightarrow> glob p t"
    using wildcard_sound [of t p None] by (simp add: later_def)
  moreover have "CHR ''*'' \<notin> set t \<Longrightarrow> glob p t \<Longrightarrow> WildcardMatchInternal t p None"
    using wildcard_complete [of p t None] by (simp add: star_position_def)
  ultimately show ?thesis by auto
qed

theorem wildcard_match_is_glob_witness:
  "WildcardMatchInternal ''main.cpp:run:12'' ''*:r?n:*'' None \<and> glob ''*:r?n:*'' ''main.cpp:run:12''"
proof -
  have "WildcardMatchInternal ''main.cpp:run:12'' ''*:r?n:*'' None" by simp
  with wildcard_match_is_glob [of "''main.cpp:run:12''" "''*:r?n:*''"] show ?thesis by blast
qed

section \<open>Trace points\<close>

record trace_point =
  Module :: "string option"
  Method :: "string option"
  Line :: int
  Counter :: u64
  Enabled :: bool
  Registered :: bool

record trace_state =
  TracePoints :: "nat list"
  Point :: "nat \<Rightarrow> trace_point"

definition TracePoint_new :: "string option \<Rightarrow> string option \<Rightarrow> int \<Rightarrow> trace_point" where
  "TracePoint_new module method line =
     \<lparr>Module = module, Method = method, Line = line, Counter = 0, Enabled = False, Registered = False\<rparr>"

definition Hit :: "trace_point \<Rightarrow> trace_point" where
  "Hit p = p\<lparr>Counter := Counter p + 1\<rparr>"

definition ResetCounter :: "trace_point \<Rightarrow> trace_point" where
  "ResetCounter p = p\<lparr>Counter := 0\<rparr>"

definition name_of :: "string option \<Rightarrow> string" where
  "name_of n = (case n of None \<Rightarrow> [] | Some s \<Rightarrow> s)"

definition MakeTracePointKey :: "trace_point \<Rightarrow> string" where
  "MakeTracePointKey p = name_of (Module p) @ '':'' @ name_of (Method p) @ '':'' @ show_int (Line p)"

definition TracePointMatch :: "trace_point \<Rightarrow> string \<Rightarrow> bool" where
  "TracePointMatch p pattern \<longleftrightarrow>
     pattern = [] \<or>
     WildcardMatchInternal (c_str (ToLowerAsciiInplace (MakeTracePointKey p)))
       (c_str (ToLowerAsciiInplace pattern)) None"

definition RegisterTracePoint :: "nat \<Rightarrow> trace_state \<Rightarrow> trace_state" where
  "RegisterTracePoint i s =
     (if Registered (Point s i) then s
      else s\<lparr>TracePoints := i # TracePoints s, Point := (Point s)(i := Point s i\<lparr>Registered := True\<rparr>)\<rparr>)"

text \<open>
  The body of a trace point: the second component says whether the call is dispatched to the
  logger. \<open>condition\<close> is the answer of \<open>Instance->Condition()\<close>.
\<close>

definition LOGME_TP_BODY :: "nat \<Rightarrow> bool \<Rightarrow> trace_state \<Rightarrow> trace_state \<times> bool" where
  "LOGME_TP_BODY i condition s =
     (let s = s\<lparr>Point := (Point s)(i := Hit (Point s i))\<rparr>;
          s = (if \<not> Registered (Point s i) then RegisterTracePoint i s else s)
      in (s, Enabled (Point s i) \<and> condition))"

text \<open>The loops over the registry: each point that matches is changed and counted.\<close>

fun for_matching :: "string \<Rightarrow> (trace_point \<Rightarrow> trace_point) \<Rightarrow> nat list \<Rightarrow> (nat \<Rightarrow> trace_point) \<Rightarrow> nat
    \<Rightarrow> (nat \<Rightarrow> trace_point) \<times> nat" where
  "for_matching pattern f [] m count = (m, count)"
| "for_matching pattern f (i # is) m count =
     (if \<not> TracePointMatch (m i) pattern then for_matching pattern f is m count
      else for_matching pattern f is (m(i := f (m i))) (count + 1))"

definition SetTracePointsEnabled :: "string \<Rightarrow> bool \<Rightarrow> trace_state \<Rightarrow> trace_state \<times> nat" where
  "SetTracePointsEnabled pattern enabled s =
     (case for_matching pattern (\<lambda>p. p\<lparr>Enabled := enabled\<rparr>) (TracePoints s) (Point s) 0 of
        (m, count) \<Rightarrow> (s\<lparr>Point := m\<rparr>, count))"

definition ResetTracePointCounters :: "string \<Rightarrow> trace_state \<Rightarrow> trace_state \<times> nat" where
  "ResetTracePointCounters pattern s =
     (case for_matching pattern ResetCounter (TracePoints s) (Point s) 0 of
        (m, count) \<Rightarrow> (s\<lparr>Point := m\<rparr>, count))"

definition dump_line :: "trace_point \<Rightarrow> string" where
  "dump_line p =
     (if Enabled p then ''on  '' else ''off '') @ name_of (Module p) @ '':'' @ name_of (Method p) @ '':'' @
     show_int (Line p) @ '' hits='' @ show_nat (unat (Counter p)) @ [CHR 0x0A]"

definition DumpTracePoints :: "string \<Rightarrow> trace_state \<Rightarrow> string" where
  "DumpTracePoints pattern s =
     (let response = concat (map (\<lambda>i. dump_line (Point s i))
                       (filter (\<lambda>i. TracePointMatch (Point s i) pattern) (TracePoints s)))
      in if response = [] then ''none'' @ [CHR 0x0A] else response)"

definition CommandTrace :: "string list \<Rightarrow> trace_state \<Rightarrow> trace_state \<times> string" where
  "CommandTrace arr s =
     (if length arr = 1 \<or> arr ! 1 = ''list'' \<or> arr ! 1 = ''stat'' \<or> arr ! 1 = ''stats''
      then (s, DumpTracePoints (if length arr \<ge> 3 then arr ! 2 else []) s)
      else if arr ! 1 = ''enable'' \<or> arr ! 1 = ''disable''
      then if length arr < 3 then (s, ''error: missing trace point pattern'')
           else let enabled = (arr ! 1 = ''enable'');
                    (s, count) = SetTracePointsEnabled (arr ! 2) enabled s
                in (s, ''ok: '' @ show_nat count @ (if enabled then '' enabled'' else '' disabled''))
      else if arr ! 1 = ''reset''
      then let (s, count) = ResetTracePointCounters (if length arr \<ge> 3 then arr ! 2 else []) s
           in (s, ''ok: '' @ show_nat count @ '' reset'')
      else (s, ''error: unknown trace command: '' @ arr ! 1))"

section \<open>What one point sees\<close>

datatype trace_event = TraceHit nat bool | TraceCommand "string list"

definition trace_step :: "trace_event \<Rightarrow> trace_state \<Rightarrow> trace_state" where
  "trace_step e s =
     (case e of TraceHit i condition \<Rightarrow> fst (LOGME_TP_BODY i condition s)
      | TraceCommand args \<Rightarrow> fst (CommandTrace (''trace'' # args) s))"

text \<open>
  The specification, for one point and its own history: a hit registers it and counts; a command is
  ignored before the first hit and for a pattern that does not match, otherwise it sets the flag or
  clears the counter.
\<close>

definition point_step :: "nat \<Rightarrow> trace_event \<Rightarrow> trace_point \<Rightarrow> trace_point" where
  "point_step i e p =
     (case e of
        TraceHit j _ \<Rightarrow> if j = i then p\<lparr>Counter := Counter p + 1, Registered := True\<rparr> else p
      | TraceCommand args \<Rightarrow>
          let pattern = (if length args \<ge> 2 then args ! 1 else []) in
          if args = [] \<or> \<not> Registered p \<or> \<not> TracePointMatch p pattern then p
          else if args ! 0 = ''reset'' then p\<lparr>Counter := 0\<rparr>
          else if length args < 2 then p
          else if args ! 0 = ''enable'' then p\<lparr>Enabled := True\<rparr>
          else if args ! 0 = ''disable'' then p\<lparr>Enabled := False\<rparr>
          else p)"

lemma for_matching_result:
  "distinct is \<Longrightarrow> for_matching pattern f is m count =
     ((\<lambda>i. if i \<in> set is \<and> TracePointMatch (m i) pattern then f (m i) else m i),
      count + length (filter (\<lambda>i. TracePointMatch (m i) pattern) is))"
proof (induction pattern f "is" m count rule: for_matching.induct)
  case (2 pattern f i "is" m count)
  have "filter (\<lambda>j. TracePointMatch ((m(i := x)) j) pattern) is = filter (\<lambda>j. TracePointMatch (m j) pattern) is" for x
    using "2.prems" by (intro filter_cong) auto
  then have f: "filter (\<lambda>j. TracePointMatch ((m(i := f (m i))) j) pattern) is = filter (\<lambda>j. TracePointMatch (m j) pattern) is"
    by blast
  show ?case
  proof (cases "TracePointMatch (m i) pattern")
    case True
    with "2.IH"(2) "2.prems" f show ?thesis by (auto simp: fun_eq_iff simp del: fun_upd_apply) (auto simp: fun_eq_iff)
  next
    case False
    with "2.IH"(1) "2.prems" show ?thesis by (auto simp: fun_eq_iff)
  qed
qed auto

definition trace_inv :: "trace_state \<Rightarrow> bool" where
  "trace_inv s \<longleftrightarrow> distinct (TracePoints s) \<and> (\<forall>i. i \<in> set (TracePoints s) \<longleftrightarrow> Registered (Point s i))"

definition trace_start :: "(nat \<Rightarrow> trace_point) \<Rightarrow> trace_state" where
  "trace_start points = \<lparr>TracePoints = [], Point = points\<rparr>"

lemma CommandTrace_point:
  assumes "trace_inv s"
  shows "Point (fst (CommandTrace (''trace'' # args) s)) i = point_step i (TraceCommand args) (Point s i)"
    and "TracePoints (fst (CommandTrace (''trace'' # args) s)) = TracePoints s"
proof -
  have d: "distinct (TracePoints s)" and r: "\<And>i. i \<in> set (TracePoints s) \<longleftrightarrow> Registered (Point s i)"
    using assms by (auto simp: trace_inv_def)
  show "Point (fst (CommandTrace (''trace'' # args) s)) i = point_step i (TraceCommand args) (Point s i)"
    by (cases args; cases "tl args") (simp_all add: CommandTrace_def point_step_def SetTracePointsEnabled_def
        ResetTracePointCounters_def for_matching_result [OF d] r ResetCounter_def Let_def)
  show "TracePoints (fst (CommandTrace (''trace'' # args) s)) = TracePoints s"
    by (simp add: CommandTrace_def SetTracePointsEnabled_def ResetTracePointCounters_def Let_def
        for_matching_result [OF d])
qed

lemma point_step_Registered:
  "Registered (point_step i (TraceCommand args) p) = Registered p"
  by (simp add: point_step_def Let_def)

lemma RegisterTracePoint_body:
  "fst (LOGME_TP_BODY i c s) =
     s\<lparr>TracePoints := (if Registered (Point s i) then TracePoints s else i # TracePoints s),
       Point := (Point s)(i := Hit (Point s i)\<lparr>Registered := True\<rparr>)\<rparr>"
proof -
  have r: "Registered (Hit p) = Registered p" for p by (simp add: Hit_def)
  show ?thesis
  proof (cases "Registered (Point s i)")
    case True
    then have h: "Hit (Point s i)\<lparr>Registered := True\<rparr> = Hit (Point s i)"
      by (cases "Point s i") (simp add: Hit_def)
    show ?thesis
      unfolding h using True by (simp add: LOGME_TP_BODY_def r)
  next
    case False
    then show ?thesis by (simp add: LOGME_TP_BODY_def RegisterTracePoint_def Let_def r)
  qed
qed

lemma trace_step_inv: "trace_inv s \<Longrightarrow> trace_inv (trace_step e s)"
proof (cases e)
  case (TraceHit i c)
  assume "trace_inv s"
  then show ?thesis
    using TraceHit by (auto simp: trace_step_def RegisterTracePoint_body trace_inv_def)
next
  case (TraceCommand args)
  assume inv: "trace_inv s"
  then show ?thesis
    using CommandTrace_point [OF inv, of args] TraceCommand
    by (simp add: trace_step_def trace_inv_def point_step_Registered)
qed

lemma trace_step_point: "trace_inv s \<Longrightarrow> Point (trace_step e s) i = point_step i e (Point s i)"
  using CommandTrace_point(1) [of s _ i]
  by (cases e) (auto simp: trace_step_def RegisterTracePoint_body point_step_def Hit_def)

lemma trace_points_order:
  "trace_inv s \<Longrightarrow> TracePoints (trace_step e s) =
     (case e of TraceHit i _ \<Rightarrow> if i \<in> set (TracePoints s) then TracePoints s else i # TracePoints s
      | TraceCommand _ \<Rightarrow> TracePoints s)"
  using CommandTrace_point(2) [of s]
  by (cases e) (auto simp: trace_step_def RegisterTracePoint_body trace_inv_def)

lemma trace_run:
  "trace_inv s \<Longrightarrow> trace_inv (fold trace_step es s) \<and>
     Point (fold trace_step es s) i = fold (point_step i) es (Point s i)"
  by (induction es arbitrary: s) (simp_all add: trace_step_inv trace_step_point)

text \<open>C38. The commands act on each trace point alone: after any sequence of hits and commands a point's
  flag and counter are those its own history gives, the registry lists exactly the points that were
  hit, each once, and a further hit is logged iff the point is enabled by that history (and the
  logger's condition holds). A list command changes nothing.\<close>

theorem trace_points_refine:
  assumes "\<forall>i. \<not> Registered (points i)"
  shows "let s = fold trace_step es (trace_start points) in
     Point s i = fold (point_step i) es (points i) \<and>
     distinct (TracePoints s) \<and>
     set (TracePoints s) = {j. \<exists>c. TraceHit j c \<in> set es} \<and>
     snd (LOGME_TP_BODY i c s) = (Enabled (fold (point_step i) es (points i)) \<and> c)"
proof -
  have start: "trace_inv (trace_start points)" using assms by (simp add: trace_inv_def trace_start_def)
  let ?s = "fold trace_step es (trace_start points)"
  from trace_run [OF start, of es] have inv: "trace_inv ?s"
    and p: "\<And>i. Point ?s i = fold (point_step i) es (points i)"
    by (simp_all add: trace_start_def)
  have "set (TracePoints (fold trace_step es s)) = set (TracePoints s) \<union> {j. \<exists>c. TraceHit j c \<in> set es}"
    if "trace_inv s" for s using that
  proof (induction es arbitrary: s)
    case (Cons e es)
    have "set (TracePoints (trace_step e s)) = set (TracePoints s) \<union> {j. \<exists>c. e = TraceHit j c}"
      by (simp add: trace_points_order [OF Cons.prems] split: trace_event.splits) auto
    with Cons.IH [OF trace_step_inv [OF Cons.prems, of e]] show ?case by auto
  qed simp
  from this [OF start] have "set (TracePoints ?s) = {j. \<exists>c. TraceHit j c \<in> set es}"
    by (simp add: trace_start_def)
  moreover have "snd (LOGME_TP_BODY i c ?s) = (Enabled (Point ?s i) \<and> c)"
    by (simp add: LOGME_TP_BODY_def RegisterTracePoint_def Hit_def Let_def)
  ultimately show ?thesis using inv p by (simp add: Let_def trace_inv_def)
qed

definition demo_points :: "nat \<Rightarrow> trace_point" where
  "demo_points i = TracePoint_new (Some ''net.cpp'') (Some ''send'') (int i)"

definition demo_trace :: "trace_event list" where
  "demo_trace = [TraceHit 7 True, TraceCommand [''enable'', ''*:SEND:*''], TraceHit 9 True, TraceHit 7 True]"

theorem trace_points_refine_witness:
  "snd (LOGME_TP_BODY 7 True (fold trace_step demo_trace (trace_start demo_points))) \<and>
   \<not> snd (LOGME_TP_BODY 9 True (fold trace_step demo_trace (trace_start demo_points))) \<and>
   Counter (Point (fold trace_step demo_trace (trace_start demo_points)) 7) = 2"
proof -
  have "\<forall>i. \<not> Registered (demo_points i)" by (simp add: demo_points_def TracePoint_new_def)
  note refine = trace_points_refine [OF this, of demo_trace]
  have "Enabled (fold (point_step 7) demo_trace (demo_points 7))"
    "\<not> Enabled (fold (point_step 9) demo_trace (demo_points 9))"
    "Counter (fold (point_step 7) demo_trace (demo_points 7)) = 2" by code_simp+
  with refine [of 7 True] refine [of 9 True] show ?thesis by (simp add: Let_def)
qed

end
