(* ===== verification/Obfuscation.thy ===== *)
theory Obfuscation
  imports Prelude_Logme
begin

text \<open>
  Obfuscated log files (\<open>Obfuscate.cpp\<close>, \<open>Obfuscate.h\<close>, \<open>FileBackend::AppendObfuscated\<close>): a record is
  a signature, a length, a nonce and the text under a ChaCha20 key stream. A byte is an \<open>8 word\<close>, the
  state of the cipher a list of sixteen 32-bit words. Null pointers, which the functions reject, are
  not modelled; the capacity of an output buffer is an argument. A file is the list of its bytes.
\<close>

unbundle bit_operations_syntax

type_synonym byte = "8 word"
type_synonym u16 = "16 word"

section \<open>Little-endian numbers\<close>

definition StoreLe16 :: "u16 \<Rightarrow> byte list" where
  "StoreLe16 v = [ucast v, ucast (drop_bit 8 v)]"

definition LoadLe16 :: "byte list \<Rightarrow> u16" where
  "LoadLe16 p = ucast (p ! 0) OR push_bit 8 (ucast (p ! 1))"

definition StoreLe32 :: "u32 \<Rightarrow> byte list" where
  "StoreLe32 v = [ucast v, ucast (drop_bit 8 v), ucast (drop_bit 16 v), ucast (drop_bit 24 v)]"

definition LoadLe32 :: "byte list \<Rightarrow> u32" where
  "LoadLe32 p = ucast (p ! 0) OR push_bit 8 (ucast (p ! 1)) OR push_bit 16 (ucast (p ! 2)) OR
     push_bit 24 (ucast (p ! 3))"

definition StoreLe64 :: "u64 \<Rightarrow> byte list" where
  "StoreLe64 v = [ucast v, ucast (drop_bit 8 v), ucast (drop_bit 16 v), ucast (drop_bit 24 v),
     ucast (drop_bit 32 v), ucast (drop_bit 40 v), ucast (drop_bit 48 v), ucast (drop_bit 56 v)]"

lemma length_StoreLe [simp]:
  "length (StoreLe16 a) = 2" "length (StoreLe32 b) = 4" "length (StoreLe64 c) = 8"
  by (simp_all add: StoreLe16_def StoreLe32_def StoreLe64_def)

lemma LoadLe16_StoreLe16 [simp]: "LoadLe16 (StoreLe16 v @ x) = v"
  by (rule bit_word_eqI)
    (auto simp: LoadLe16_def StoreLe16_def bit_or_iff bit_push_bit_iff bit_ucast_iff bit_drop_bit_eq
      dest: bit_imp_le_length)

lemma StoreLe64_inject: "StoreLe64 a = StoreLe64 b \<longleftrightarrow> a = b"
proof
  assume eq: "StoreLe64 a = StoreLe64 b"
  have "bit a n = bit b n" if n: "n < 64" for n
  proof -
    have "bit (ucast (drop_bit (8 * k) a) :: byte) m = bit (ucast (drop_bit (8 * k) b) :: byte) m"
      if "k < 8" for k m
    proof -
      have "k \<in> {0, 1, 2, 3, 4, 5, 6, 7}" using that by auto
      then show ?thesis using eq by (auto simp: StoreLe64_def)
    qed
    from this [of "n div 8" "n mod 8"] n show ?thesis
      by (simp add: bit_ucast_iff bit_drop_bit_eq)
  qed
  then show "a = b" by (intro bit_word_eqI) simp
qed simp

section \<open>The nonce generator\<close>

record nonce_gen =
  NonceCounter :: u64
  Salt :: u32

definition NonceGenInit :: "u32 \<Rightarrow> u32 \<Rightarrow> nonce_gen" where
  "NonceGenInit time address = \<lparr>NonceCounter = 0, Salt = time XOR address\<rparr>"

definition NonceGenNext :: "nonce_gen \<Rightarrow> nonce_gen \<times> byte list" where
  "NonceGenNext gen =
     (gen\<lparr>NonceCounter := NonceCounter gen + 1\<rparr>, StoreLe32 (Salt gen) @ StoreLe64 (NonceCounter gen))"

section \<open>ChaCha20\<close>

definition Rotl32 :: "u32 \<Rightarrow> nat \<Rightarrow> u32" where
  "Rotl32 v r = push_bit r v OR drop_bit (32 - r) v"

definition QuarterRound :: "u32 \<times> u32 \<times> u32 \<times> u32 \<Rightarrow> u32 \<times> u32 \<times> u32 \<times> u32" where
  "QuarterRound q =
     (case q of (a, b, c, d) \<Rightarrow>
        let a = a + b; d = Rotl32 (d XOR a) 16;
            c = c + d; b = Rotl32 (b XOR c) 12;
            a = a + b; d = Rotl32 (d XOR a) 8;
            c = c + d; b = Rotl32 (b XOR c) 7
        in (a, b, c, d))"

text \<open>A quarter round on four places of the working state.\<close>

definition quarter :: "nat \<Rightarrow> nat \<Rightarrow> nat \<Rightarrow> nat \<Rightarrow> u32 list \<Rightarrow> u32 list" where
  "quarter i j k l work =
     (case QuarterRound (work ! i, work ! j, work ! k, work ! l) of
        (a, b, c, d) \<Rightarrow> work[i := a, j := b, k := c, l := d])"

definition double_round :: "u32 list \<Rightarrow> u32 list" where
  "double_round work =
     (let work = quarter 0 4 8 12 work;
          work = quarter 1 5 9 13 work;
          work = quarter 2 6 10 14 work;
          work = quarter 3 7 11 15 work;
          work = quarter 0 5 10 15 work;
          work = quarter 1 6 11 12 work;
          work = quarter 2 7 8 13 work;
          work = quarter 3 4 9 14 work
      in work)"

definition chacha_state :: "byte list \<Rightarrow> u32 \<Rightarrow> byte list \<Rightarrow> u32 list" where
  "chacha_state key counter nonce =
     [0x61707865, 0x3320646e, 0x79622d32, 0x6b206574,
      LoadLe32 (drop 0 key), LoadLe32 (drop 4 key), LoadLe32 (drop 8 key), LoadLe32 (drop 12 key),
      LoadLe32 (drop 16 key), LoadLe32 (drop 20 key), LoadLe32 (drop 24 key), LoadLe32 (drop 28 key),
      counter, LoadLe32 (drop 0 nonce), LoadLe32 (drop 4 nonce), LoadLe32 (drop 8 nonce)]"

definition ChaCha20Block :: "byte list \<Rightarrow> u32 \<Rightarrow> byte list \<Rightarrow> byte list" where
  "ChaCha20Block key counter nonce =
     (let state = chacha_state key counter nonce;
          work = (double_round ^^ 10) state
      in concat (map (\<lambda>i. StoreLe32 (work ! i + state ! i)) [0..<16]))"

fun ChaCha20Xor :: "byte list \<Rightarrow> byte list \<Rightarrow> u32 \<Rightarrow> byte list \<Rightarrow> byte list" where
  "ChaCha20Xor key nonce counter inp =
     (if inp = [] then []
      else map2 (XOR) (take 64 inp) (ChaCha20Block key counter nonce) @
           ChaCha20Xor key nonce (counter + 1) (drop 64 inp))"

declare ChaCha20Xor.simps [simp del]

lemma length_ChaCha20Block [simp]: "length (ChaCha20Block key counter nonce) = 64"
  by (simp add: ChaCha20Block_def Let_def length_concat o_def sum_list_triv)

lemma length_ChaCha20Xor [simp]: "length (ChaCha20Xor key nonce counter inp) = length inp"
proof (induction key nonce counter inp rule: ChaCha20Xor.induct)
  case (1 key nonce counter inp)
  then show ?case
    by (cases "inp = []") (simp_all add: ChaCha20Xor.simps [of key nonce counter] min_def)
qed

lemma map2_xor_twice:
  "length xs \<le> length ys \<Longrightarrow> map2 (XOR) (map2 (XOR) xs ys) ys = (xs :: byte list)"
  by (rule nth_equalityI) (simp_all add: xor.assoc)

lemma ChaCha20Xor_involution:
  "ChaCha20Xor key nonce counter (ChaCha20Xor key nonce counter inp) = inp"
proof (induction key nonce counter inp rule: ChaCha20Xor.induct)
  case (1 key nonce counter inp)
  show ?case
  proof (cases "inp = []")
    case False
    let ?b = "ChaCha20Block key counter nonce"
    define head where "head = map2 (XOR) (take 64 inp) ?b"
    define rest where "rest = ChaCha20Xor key nonce (counter + 1) (drop 64 inp)"
    have x: "ChaCha20Xor key nonce counter inp = head @ rest"
      using False by (simp add: ChaCha20Xor.simps [of key nonce counter] head_def rest_def)
    have h: "length head = min 64 (length inp)" and r: "length rest = length inp - 64"
      by (simp_all add: head_def rest_def)
    have parts: "take 64 (head @ rest) = head" "drop 64 (head @ rest) = rest" "head @ rest \<noteq> []"
      using False h r by (cases "64 \<le> length inp"; auto)+
    have "map2 (XOR) head ?b = take 64 inp" unfolding head_def by (rule map2_xor_twice) simp
    then show ?thesis
      unfolding x by (subst ChaCha20Xor.simps)
        (simp only: parts if_False "1.IH" [OF False, folded rest_def] append_take_drop_id)
  qed (simp add: ChaCha20Xor.simps)
qed


text \<open>The test vector of RFC 8439, section 2.1.1.\<close>

lemma quarter_round_rfc8439:
  "QuarterRound (0x11111111, 0x01020304, 0x9b8d6f43, 0x01234567) =
     (0xea2a92f4, 0xcb1cf8ce, 0x4581472e, 0x5881c4bb)"
  by code_simp

section \<open>Records\<close>

definition LOGOBF_SIGNATURE :: u16 where
  "LOGOBF_SIGNATURE = 0xA55A"

definition LOGOBF_HEADER_BYTES :: nat where
  "LOGOBF_HEADER_BYTES = 2 + 2 + 12"

definition ObfCalcRecordSize :: "nat \<Rightarrow> nat" where
  "ObfCalcRecordSize plaintextLen =
     (if plaintextLen > 0xffff then 0 else LOGOBF_HEADER_BYTES + plaintextLen)"

text \<open>The record written to the output buffer of \<open>cap\<close> bytes, or \<open>None\<close> for the return value 0.\<close>

definition ObfEncryptRecord ::
  "byte list \<Rightarrow> nonce_gen \<Rightarrow> byte list \<Rightarrow> nat \<Rightarrow> (nonce_gen \<times> byte list) option" where
  "ObfEncryptRecord key gen plaintext cap =
     (if length plaintext > 0xffff then None
      else if cap < ObfCalcRecordSize (length plaintext) then None
      else
        let header = StoreLe16 LOGOBF_SIGNATURE @ StoreLe16 (word_of_nat (length plaintext));
            (gen, nonce) = NonceGenNext gen
        in Some (gen, header @ nonce @ ChaCha20Xor key nonce 1 plaintext))"

definition ObfDecryptRecord :: "byte list \<Rightarrow> byte list \<Rightarrow> nat \<Rightarrow> (byte list \<times> byte list) option" where
  "ObfDecryptRecord key record cap =
     (if length record < LOGOBF_HEADER_BYTES then None
      else
        let sig = LoadLe16 record; len = unat (LoadLe16 (drop 2 record)) in
        if sig \<noteq> LOGOBF_SIGNATURE then None
        else if length record < LOGOBF_HEADER_BYTES + len then None
        else if cap < len then None
        else
          let nonce = take 12 (drop 4 record); ct = take len (drop LOGOBF_HEADER_BYTES record)
          in Some (ChaCha20Xor key nonce 1 ct, nonce))"

text \<open>
  \<open>Logger::DeobfuscateRecord\<close> reads the text back as a C string from a buffer that is not
  terminated: \<open>junk\<close> is what the 4096 byte buffer on the stack held. A larger buffer is cleared.
  \<open>None\<close> is the answer \<open>false\<close>.
\<close>

definition c_bytes :: "byte list \<Rightarrow> byte list" where
  "c_bytes s = takeWhile (\<lambda>b. b \<noteq> 0) s"

definition DeobfuscateRecord :: "byte list \<Rightarrow> byte list \<Rightarrow> byte list \<Rightarrow> byte list option" where
  "DeobfuscateRecord key junk r =
     (if length r < LOGOBF_HEADER_BYTES then None
      else if length r < 4 * 1024
      then (case ObfDecryptRecord key r (4 * 1024) of
              None \<Rightarrow> None
            | Some (plain, nonce) \<Rightarrow> Some (c_bytes (plain @ drop (length plain) junk)))
      else (case ObfDecryptRecord key r (length r) of
              None \<Rightarrow> None
            | Some (plain, nonce) \<Rightarrow> Some (c_bytes (plain @ replicate (length r - length plain) 0))))"

section \<open>Files\<close>

text \<open>\<open>ReadLe16FromFile\<close> on the rest of a file: one byte left is reported like the end of the file.\<close>

definition ReadLe16FromFile :: "byte list \<Rightarrow> (u16 \<times> byte list) option" where
  "ReadLe16FromFile f = (if length f < 2 then None else Some (LoadLe16 f, drop 2 f))"

text \<open>The loop of \<open>DeobfuscateLogFile\<close>: what is written to the output, or \<open>None\<close> for \<open>false\<close>.\<close>

function decode_records :: "byte list \<Rightarrow> byte list \<Rightarrow> byte list \<Rightarrow> byte list option" where
  "decode_records key f out =
     (case ReadLe16FromFile f of
        None \<Rightarrow> Some out
      | Some (sig, f1) \<Rightarrow>
          if sig \<noteq> LOGOBF_SIGNATURE then None
          else (case ReadLe16FromFile f1 of
            None \<Rightarrow> None
          | Some (plainLen16, f2) \<Rightarrow>
              let plainLen = unat plainLen16; recordLen = LOGOBF_HEADER_BYTES + plainLen in
              if length f2 < recordLen - 4 then None
              else
                let record = StoreLe16 sig @ StoreLe16 plainLen16 @ take (recordLen - 4) f2;
                    f3 = drop (recordLen - 4) f2
                in (case ObfDecryptRecord key record (max (4 * 1024) plainLen) of
                      None \<Rightarrow> None
                    | Some (plain, nonce) \<Rightarrow>
                        if length f3 \<ge> 2 \<and> LoadLe16 f3 \<noteq> LOGOBF_SIGNATURE then None
                        else decode_records key f3 (out @ plain))))"
  by pat_completeness auto

termination
  by (relation "measure (\<lambda>(key, f, out). length f)") (auto simp: ReadLe16FromFile_def split: if_splits)

declare decode_records.simps [simp del]

text \<open>
  The whole of \<open>DeobfuscateLogFile\<close> on a set of files; two paths are the same file iff they are equal.
  \<open>can_write\<close> says which files can be created. The first component is the return value.
\<close>

definition DeobfuscateLogFile ::
  "byte list \<Rightarrow> (string \<Rightarrow> bool) \<Rightarrow> string \<Rightarrow> string \<Rightarrow> (string \<rightharpoonup> byte list) \<Rightarrow> bool \<times> (string \<rightharpoonup> byte list)" where
  "DeobfuscateLogFile key can_write inPath outPath fs =
     (let out = (if outPath = [] then inPath else outPath);
          overwrite = (inPath = out);
          tmp = (if overwrite then out @ ''.deobf.tmp'' else out)
      in case fs inPath of
           None \<Rightarrow> (False, fs)
         | Some f \<Rightarrow>
             if length f < 2 then (True, fs)
             else if LoadLe16 f \<noteq> LOGOBF_SIGNATURE
             then if overwrite then (True, fs)
                  else if can_write out then (True, fs(out \<mapsto> f)) else (False, fs)
             else if \<not> can_write tmp then (False, fs)
             else (case decode_records key f [] of
                     None \<Rightarrow> (False, fs(tmp := None))
                   | Some plain \<Rightarrow>
                       if overwrite then (True, fs(tmp := None, out \<mapsto> plain))
                       else (True, fs(tmp \<mapsto> plain))))"

section \<open>The obfuscating file backend\<close>

text \<open>
  \<open>FileBackend::AppendObfuscated\<close> with a key: the bytes handed to \<open>AppendOutputData\<close>, \<open>[]\<close> when the
  record cannot be made, and the generator. Without a key the text goes out as it is.
\<close>

definition AppendObfuscated :: "byte list option \<Rightarrow> byte list \<Rightarrow> nonce_gen \<Rightarrow> nonce_gen \<times> byte list" where
  "AppendObfuscated key_opt txt gen =
     (case key_opt of
        None \<Rightarrow> (gen, txt)
      | Some key \<Rightarrow>
          let output = ObfCalcRecordSize (length txt) in
          (case ObfEncryptRecord key gen txt (if output < 4 * 1024 then 4 * 1024 else output) of
             None \<Rightarrow> (gen, [])
           | Some (gen, record) \<Rightarrow> (gen, record)))"

fun append_all :: "byte list \<Rightarrow> byte list list \<Rightarrow> nonce_gen \<Rightarrow> nonce_gen \<times> byte list" where
  "append_all key [] gen = (gen, [])"
| "append_all key (t # ts) gen =
     (case AppendObfuscated (Some key) t gen of
        (gen, record) \<Rightarrow>
          (case append_all key ts gen of (gen, rest) \<Rightarrow> (gen, record @ rest)))"


section \<open>Lemmas: reading back one record\<close>

definition record_of :: "byte list \<Rightarrow> byte list \<Rightarrow> byte list \<Rightarrow> byte list" where
  "record_of key nonce t =
     StoreLe16 LOGOBF_SIGNATURE @ StoreLe16 (word_of_nat (length t)) @ nonce @ ChaCha20Xor key nonce 1 t"

lemma length_record_of [simp]: "length nonce = 12 \<Longrightarrow> length (record_of key nonce t) = 16 + length t"
  by (simp add: record_of_def)

lemma nonce_length [simp]: "length (snd (NonceGenNext gen)) = 12"
  by (simp add: NonceGenNext_def)

lemma ObfEncryptRecord_eq:
  "ObfEncryptRecord key gen t cap =
     (if length t > 0xffff \<or> cap < 16 + length t then None
      else Some (fst (NonceGenNext gen), record_of key (snd (NonceGenNext gen)) t))"
  by (simp add: ObfEncryptRecord_def ObfCalcRecordSize_def LOGOBF_HEADER_BYTES_def record_of_def
      Let_def case_prod_beta)

lemma AppendObfuscated_eq:
  "AppendObfuscated (Some key) t gen =
     (if length t > 0xffff then (gen, [])
      else (fst (NonceGenNext gen), record_of key (snd (NonceGenNext gen)) t))"
  by (simp add: AppendObfuscated_def ObfEncryptRecord_eq ObfCalcRecordSize_def LOGOBF_HEADER_BYTES_def Let_def)

lemma record_fields:
  assumes "length nonce = 12" and "length t \<le> 0xffff"
  shows "LoadLe16 (record_of key nonce t @ x) = LOGOBF_SIGNATURE"
    and "unat (LoadLe16 (drop 2 (record_of key nonce t @ x))) = length t"
    and "take 12 (drop 4 (record_of key nonce t @ x)) = nonce"
    and "take (length t) (drop 16 (record_of key nonce t @ x)) = ChaCha20Xor key nonce 1 t"
  using assms by (simp_all add: record_of_def unat_of_nat take_bit_nat_eq_self)

lemma ObfDecryptRecord_record:
  assumes "length nonce = 12" and "length t \<le> 0xffff" and "length t \<le> cap"
  shows "ObfDecryptRecord key (record_of key nonce t @ x) cap = Some (t, nonce)"
  using assms record_fields [OF assms(1,2), of key x]
  by (simp add: ObfDecryptRecord_def LOGOBF_HEADER_BYTES_def Let_def ChaCha20Xor_involution)

lemma decode_record:
  assumes n: "length nonce = 12" and t: "length t \<le> 0xffff"
  shows "decode_records key (record_of key nonce t @ rest) out =
     (if length rest \<ge> 2 \<and> LoadLe16 rest \<noteq> LOGOBF_SIGNATURE then None
      else decode_records key rest (out @ t))"
proof -
  let ?f = "record_of key nonce t @ rest"
  have r1: "ReadLe16FromFile ?f = Some (LOGOBF_SIGNATURE, drop 2 ?f)"
    using record_fields(1) [OF n t, of key rest] n by (simp add: ReadLe16FromFile_def)
  let ?len = "LoadLe16 (drop 2 ?f)"
  have r2: "ReadLe16FromFile (drop 2 ?f) = Some (?len, drop 4 ?f)"
    using n by (simp add: ReadLe16FromFile_def)
  have len: "unat ?len = length t" by (rule record_fields(2) [OF n t])
  then have w: "?len = word_of_nat (length t)" by (simp flip: len)
  have parts: "take (LOGOBF_HEADER_BYTES + length t - 4) (drop 4 ?f) = nonce @ ChaCha20Xor key nonce 1 t"
    "drop (LOGOBF_HEADER_BYTES + length t - 4) (drop 4 ?f) = rest"
    "\<not> length (drop 4 ?f) < LOGOBF_HEADER_BYTES + length t - 4"
    using n by (simp_all add: record_of_def LOGOBF_HEADER_BYTES_def)
  have rec: "StoreLe16 LOGOBF_SIGNATURE @ StoreLe16 ?len @ nonce @ ChaCha20Xor key nonce 1 t =
      record_of key nonce t" by (simp add: w record_of_def)
  have dec: "ObfDecryptRecord key (record_of key nonce t) (max (4 * 1024) (length t)) = Some (t, nonce)"
    using ObfDecryptRecord_record [OF n t, of "max (4 * 1024) (length t)" key "[]"] by simp
  show ?thesis
    by (subst decode_records.simps)
      (simp only: r1 r2 len parts rec dec option.case prod.case Let_def if_False not_True_eq_False simp_thms)
qed

lemma decode_end: "length f < 2 \<Longrightarrow> decode_records key f out = Some out"
  by (subst decode_records.simps) (simp add: ReadLe16FromFile_def)

text \<open>What the texts leave: records of those that fit, in order, with some nonces.\<close>

definition kept :: "byte list list \<Rightarrow> byte list list" where
  "kept ts = filter (\<lambda>t. length t \<le> 0xffff) ts"

fun nonces_from :: "nonce_gen \<Rightarrow> nat \<Rightarrow> byte list list" where
  "nonces_from gen 0 = []"
| "nonces_from gen (Suc n) = snd (NonceGenNext gen) # nonces_from (fst (NonceGenNext gen)) n"

lemma nonces_length: "length (nonces_from gen n) = n" "n' \<in> set (nonces_from gen n) \<Longrightarrow> length n' = 12"
  by (induction gen n rule: nonces_from.induct) auto

lemma append_all_records:
  "snd (append_all key ts gen) =
     concat (map2 (record_of key) (nonces_from gen (length (kept ts))) (kept ts))"
proof (induction ts arbitrary: gen)
  case (Cons t ts)
  then show ?case
    by (cases "length t > 0xffff") (simp_all add: AppendObfuscated_eq kept_def case_prod_beta not_less)
qed (simp add: kept_def)

lemma decode_all:
  assumes "length ns = length ts" and "\<forall>n \<in> set ns. length n = 12" and "\<forall>t \<in> set ts. length t \<le> 0xffff"
    and "length rest \<ge> 2 \<longrightarrow> LoadLe16 rest = LOGOBF_SIGNATURE"
  shows "decode_records key (concat (map2 (record_of key) ns ts) @ rest) out =
     decode_records key rest (out @ concat ts)"
  using assms
proof (induction ns ts arbitrary: out rule: list_induct2)
  case (Cons n ns t ts)
  have sig: "LoadLe16 (concat (map2 (record_of key) ns ts) @ rest) = LOGOBF_SIGNATURE"
    if "length (concat (map2 (record_of key) ns ts) @ rest) \<ge> 2"
  proof (cases ns)
    case Nil
    with Cons.prems that show ?thesis by simp
  next
    case (Cons m ms)
    with Cons.hyps Cons.prems obtain u us where "ts = u # us" "length m = 12" "length u \<le> 0xffff"
      by (cases ts) auto
    with Cons show ?thesis using record_fields(1) [of m u key] by simp
  qed
  then have ok: "\<not> (length (concat (map2 (record_of key) ns ts) @ rest) \<ge> 2 \<and>
      LoadLe16 (concat (map2 (record_of key) ns ts) @ rest) \<noteq> LOGOBF_SIGNATURE)" by blast
  have "decode_records key (record_of key n t @ (concat (map2 (record_of key) ns ts) @ rest)) out =
      decode_records key (concat (map2 (record_of key) ns ts) @ rest) (out @ t)"
    using Cons.prems by (subst decode_record) (simp_all only: if_not_P [OF ok] list.set insert_iff ball_simps simp_thms)
  also have "\<dots> = decode_records key rest ((out @ t) @ concat ts)"
    using Cons.prems by (intro Cons.IH) simp_all
  finally show ?case by simp
qed simp

text \<open>
  The nonces of one generator differ as long as it makes at most \<open>2^64\<close> of them, so no key stream is
  used twice.
\<close>

lemma nonces_distinct: "n \<le> 2 ^ 64 \<Longrightarrow> distinct (nonces_from gen n)"
proof -
  have eq: "nonces_from gen n = map (\<lambda>i. StoreLe32 (Salt gen) @ StoreLe64 (NonceCounter gen + word_of_nat i)) [0..<n]"
    for gen n
  proof (induction n arbitrary: gen)
    case (Suc n)
    have "[0..<Suc n] = 0 # map Suc [0..<n]" by (simp add: map_Suc_upt upt_conv_Cons)
    then show ?case using Suc by (simp add: NonceGenNext_def o_def add_ac)
  qed simp
  assume n: "n \<le> 2 ^ 64"
  have "inj_on (\<lambda>i. StoreLe32 (Salt gen) @ StoreLe64 (NonceCounter gen + word_of_nat i)) {0..<n}"
  proof (rule inj_onI)
    fix i j
    assume ij: "i \<in> {0..<n}" "j \<in> {0..<n}"
      and "StoreLe32 (Salt gen) @ StoreLe64 (NonceCounter gen + word_of_nat i) =
        StoreLe32 (Salt gen) @ StoreLe64 (NonceCounter gen + word_of_nat j)"
    then have "(word_of_nat i :: u64) = word_of_nat j" by (simp add: StoreLe64_inject)
    then have "unat (word_of_nat i :: u64) = unat (word_of_nat j :: u64)" by simp
    with ij n show "i = j" by (simp add: unat_of_nat take_bit_nat_eq_self)
  qed
  then show ?thesis by (simp add: eq distinct_map)
qed


lemma decode_partial:
  assumes n: "length nonce = 12" and t: "length t \<le> 0xffff" and k: "2 \<le> k" "k < 16 + length t"
  shows "decode_records key (take k (record_of key nonce t)) out = None"
    and "LoadLe16 (take k (record_of key nonce t)) = LOGOBF_SIGNATURE"
proof -
  let ?r = "record_of key nonce t" and ?f = "take k (record_of key nonce t)"
  have len: "length ?f = k" using n k by simp
  have sig: "LoadLe16 ?f = LOGOBF_SIGNATURE"
    using record_fields(1) [OF n t, of key "[]"] k n by (simp add: LoadLe16_def)
  then show "LoadLe16 ?f = LOGOBF_SIGNATURE" .
  have r1: "ReadLe16FromFile ?f = Some (LOGOBF_SIGNATURE, drop 2 ?f)"
    using sig len k by (simp add: ReadLe16FromFile_def)
  show "decode_records key ?f out = None"
  proof (cases "k < 4")
    case True
    then have "ReadLe16FromFile (drop 2 ?f) = None" using len by (simp add: ReadLe16FromFile_def)
    then show ?thesis by (subst decode_records.simps) (simp add: r1)
  next
    case False
    have "LoadLe16 (drop 2 ?f) = LoadLe16 (drop 2 ?r)"
      using False n by (simp add: LoadLe16_def)
    then have l: "unat (LoadLe16 (drop 2 ?f)) = length t"
      using record_fields(2) [OF n t, of key "[]"] by simp
    have r2: "ReadLe16FromFile (drop 2 ?f) = Some (LoadLe16 (drop 2 ?f), drop 4 ?f)"
      using len False by (simp add: ReadLe16FromFile_def)
    have short: "length (drop 4 ?f) < LOGOBF_HEADER_BYTES + length t - 4"
      using len k by (simp add: LOGOBF_HEADER_BYTES_def)
    show ?thesis
      by (subst decode_records.simps)
        (simp only: r1 r2 l short option.case prod.case Let_def if_True if_False not_True_eq_False simp_thms)
  qed
qed

lemma decode_appended:
  assumes "length rest \<ge> 2 \<longrightarrow> LoadLe16 rest = LOGOBF_SIGNATURE"
  shows "decode_records key (snd (append_all key ts gen) @ rest) [] = decode_records key rest (concat (kept ts))"
proof -
  let ?ns = "nonces_from gen (length (kept ts))"
  have "\<forall>n \<in> set ?ns. length n = 12" by (simp add: nonces_length(2))
  moreover have "\<forall>t \<in> set (kept ts). length t \<le> 0xffff" by (simp add: kept_def)
  ultimately show ?thesis
    using decode_all [OF nonces_length(1) _ _ assms, of gen "kept ts" key "[]"]
    by (simp only: append_all_records append_Nil simp_thms)
qed

lemma kept_Cons: "kept ts = u # us \<Longrightarrow> length u \<le> 0xffff"
  unfolding kept_def by (drule filter_eq_ConsD) auto

text \<open>C6. What an obfuscating backend writes is read back. For any key, any start of the nonce generator and
  any sequence of texts, deobfuscating the file of their records in place succeeds and leaves the
  concatenation of the texts of at most 65535 bytes, in order; longer texts were dropped when they
  were logged.\<close>

theorem obfuscation_round_trip:
  assumes "fs path = Some (snd (append_all key ts gen))" and "path \<noteq> []" and "can_write (path @ ''.deobf.tmp'')"
  shows "fst (DeobfuscateLogFile key can_write path [] fs) \<and>
    snd (DeobfuscateLogFile key can_write path [] fs) path =
      Some (concat (filter (\<lambda>t. length t \<le> 65535) ts))"
proof -
  have f: "snd (append_all key ts gen) = concat (map2 (record_of key) (nonces_from gen (length (kept ts))) (kept ts))"
    by (rule append_all_records)
  have dec: "decode_records key (snd (append_all key ts gen)) [] = Some (concat (kept ts))"
    using decode_appended [of "[]" key ts gen] by (simp add: decode_end)
  show ?thesis
  proof (cases "kept ts")
    case Nil
    then show ?thesis using assms f by (simp add: DeobfuscateLogFile_def kept_def [symmetric])
  next
    case (Cons t us)
    then have t: "length t \<le> 0xffff" by (rule kept_Cons)
    have whole: "snd (append_all key ts gen) = record_of key (snd (NonceGenNext gen)) t @
        concat (map2 (record_of key) (nonces_from (fst (NonceGenNext gen)) (length us)) us)"
      by (simp add: f Cons)
    have "LoadLe16 (snd (append_all key ts gen)) = LOGOBF_SIGNATURE"
      unfolding whole by (rule record_fields(1) [OF nonce_length t])
    moreover have "\<not> length (snd (append_all key ts gen)) < 2" by (simp add: whole)
    ultimately show ?thesis
      using assms dec by (simp add: DeobfuscateLogFile_def Let_def kept_def)
  qed
qed

definition demo_key :: "byte list" where
  "demo_key = replicate 32 7"

definition demo_file :: "string \<rightharpoonup> byte list" where
  "demo_file = [''a.log'' \<mapsto> snd (append_all demo_key [[72, 105], [33]] (NonceGenInit 5 9))]"

theorem obfuscation_round_trip_witness:
  "snd (DeobfuscateLogFile demo_key (\<lambda>p. True) ''a.log'' [] demo_file) ''a.log'' = Some [72, 105, 33]"
proof -
  have h: "demo_file ''a.log'' = Some (snd (append_all demo_key [[72, 105], [33]] (NonceGenInit 5 9)))"
    by (simp only: demo_file_def fun_upd_same)
  have "concat (filter (\<lambda>t. length t \<le> 65535) [[72, 105], [33 :: byte]]) = [72, 105, 33]" by simp
  with obfuscation_round_trip [where fs = demo_file and path = "''a.log''" and key = demo_key and
      can_write = "\<lambda>p. True", OF h] show ?thesis by simp
qed

text \<open>C7. A truncated last record is detected, unless a single byte of it is left. When the file ends
  with the first \<open>k\<close> bytes of a further record, deobfuscation in place fails and leaves the file as
  it was if at least two bytes are there, and succeeds with the complete records if one is.\<close>

theorem truncated_record_detected:
  assumes "fs path = Some (snd (append_all key ts gen) @ take k (record_of key nonce t))" and "path \<noteq> []"
    and "length nonce = 12" and "length t \<le> 65535" and "0 < k" and "k < 16 + length t"
    and "can_write (path @ ''.deobf.tmp'')" and "kept ts \<noteq> []"
  shows "(case DeobfuscateLogFile key can_write path [] fs of
      (ok, fs') \<Rightarrow> ok = (k = 1) \<and> (if k = 1 then fs' path = Some (concat (kept ts)) else fs' path = fs path))"
proof -
  let ?p = "take k (record_of key nonce t)"
  have n: "length nonce = 12" and t: "length t \<le> 0xffff" using assms(3,4) by simp_all
  have f: "snd (append_all key ts gen) = concat (map2 (record_of key) (nonces_from gen (length (kept ts))) (kept ts))"
    by (rule append_all_records)
  have sig: "LoadLe16 ?p = LOGOBF_SIGNATURE" if "length ?p \<ge> 2"
    using decode_partial(2) [OF n t, of k] that assms(6) by simp
  have dec: "decode_records key (snd (append_all key ts gen) @ ?p) [] = decode_records key ?p (concat (kept ts))"
    using sig by (intro decode_appended) blast
  obtain u us where us: "kept ts = u # us" using assms(8) by (cases "kept ts") auto
  then have u: "length u \<le> 0xffff" by (rule kept_Cons)
  have whole: "snd (append_all key ts gen) @ ?p = record_of key (snd (NonceGenNext gen)) u @
      (concat (map2 (record_of key) (nonces_from (fst (NonceGenNext gen)) (length us)) us) @ ?p)"
    by (simp add: f us)
  have s: "LoadLe16 (snd (append_all key ts gen) @ ?p) = LOGOBF_SIGNATURE"
    unfolding whole by (rule record_fields(1) [OF nonce_length u])
  have l: "\<not> length (snd (append_all key ts gen) @ ?p) < 2" by (simp add: whole)
  have res: "decode_records key ?p (concat (kept ts)) = (if k = 1 then Some (concat (kept ts)) else None)"
  proof (cases "k = 1")
    case True
    have "length ?p < 2" using True n by simp
    then show ?thesis using True by (simp add: decode_end)
  next
    case False
    then show ?thesis using decode_partial(1) [OF n t, of k] assms(5,6) by simp
  qed
  show ?thesis
    using assms(1,2,7) s l by (simp add: DeobfuscateLogFile_def Let_def dec res)
qed

definition cut_file :: "nat \<Rightarrow> string \<rightharpoonup> byte list" where
  "cut_file k = [''a.log'' \<mapsto> snd (append_all demo_key [[72, 105]] (NonceGenInit 5 9)) @
     take k (record_of demo_key (replicate 12 0) [33])]"

theorem truncated_record_detected_witness:
  "fst (DeobfuscateLogFile demo_key (\<lambda>p. True) ''a.log'' [] (cut_file 1)) \<and>
   \<not> fst (DeobfuscateLogFile demo_key (\<lambda>p. True) ''a.log'' [] (cut_file 16))"
proof -
  have h: "cut_file k ''a.log'' = Some (snd (append_all demo_key [[72, 105]] (NonceGenInit 5 9)) @
      take k (record_of demo_key (replicate 12 0) [33]))" for k
    by (simp only: cut_file_def fun_upd_same)
  have "case DeobfuscateLogFile demo_key (\<lambda>p. True) ''a.log'' [] (cut_file k) of
      (ok, fs') \<Rightarrow> ok = (k = 1) \<and> (if k = 1 then fs' ''a.log'' = Some (concat (kept [[72, 105]]))
        else fs' ''a.log'' = cut_file k ''a.log'')" if "0 < k" "k < 17" for k
    by (rule truncated_record_detected [where key = demo_key and fs = "cut_file k" and path = "''a.log''", OF h]) (use that in \<open>simp_all add: kept_def\<close>)
  from this [of 1] this [of 16] show ?thesis by (simp add: case_prod_beta)
qed

text \<open>
  \<open>DeobfuscateRecord\<close> does not end the text it read: for a short record without a zero byte it goes
  on into what the stack held.
\<close>

lemma deobfuscate_record_junk:
  assumes "length nonce = 12" and "length t < 4 * 1024 - 16" and "0 \<notin> set t"
  shows "DeobfuscateRecord key junk (record_of key nonce t) = Some (t @ c_bytes (drop (length t) junk))"
proof -
  have "ObfDecryptRecord key (record_of key nonce t) (4 * 1024) = Some (t, nonce)"
    using ObfDecryptRecord_record [OF assms(1), of t "4 * 1024" key "[]"] assms(2) by simp
  moreover have "c_bytes (t @ x) = t @ c_bytes x" for x
    using assms(3) unfolding c_bytes_def by (subst takeWhile_append2) auto
  ultimately show ?thesis using assms(1,2) by (simp add: DeobfuscateRecord_def LOGOBF_HEADER_BYTES_def)
qed

end
