(* ===== verification/Memory_Backends.thy ===== *)
theory Memory_Backends
  imports Control_Commands
begin

text \<open>
  The backends that keep the log in memory: \<open>RingBufferBackend\<close> (the last \<open>MaxItems\<close> messages) and
  \<open>BufferBackend\<close> (one text of at most \<open>MaxSize\<close> bytes with its terminator). The capacity of a
  \<open>std::string\<close> and what \<open>std::vector::reserve\<close> makes of a capacity are the library's choice and
  parameters here; of the second the lemmas use that it is at least what was asked for. The usage
  counter is the one of \<open>MemoryTrackedBackend\<close>.
\<close>

section \<open>The ring buffer\<close>

record ring_backend =
  Ring :: "string list"
  RingConfig :: backend_config
  RingUsage :: int

definition RingBufferBackend_new :: ring_backend where
  "RingBufferBackend_new =
     \<lparr>Ring = [], RingConfig = CreateConfig 0 ''RingBufferBackend'', RingUsage = 0\<rparr>"

definition Ring_ApplyConfig :: "backend_config \<Rightarrow> ring_backend \<Rightarrow> bool \<times> ring_backend" where
  "Ring_ApplyConfig c r =
     (if CfgType c \<noteq> ''RingBufferBackend'' then (False, r) else (True, r\<lparr>RingConfig := c\<rparr>))"

definition Ring_Clear :: "(string \<Rightarrow> nat) \<Rightarrow> ring_backend \<Rightarrow> ring_backend" where
  "Ring_Clear cap r = r\<lparr>RingUsage := foldl (\<lambda>u item. u - int (cap item)) (RingUsage r) (Ring r), Ring := []\<rparr>"

definition Ring_Join :: "ring_backend \<Rightarrow> string" where
  "Ring_Join r = foldl (@) [] (Ring r)"

text \<open>The bytes a caller means: \<open>nc = -1\<close> (here \<open>None\<close>) asks for the text up to its terminator.\<close>

definition given :: "string \<Rightarrow> nat option \<Rightarrow> string" where
  "given str nc = (case nc of None \<Rightarrow> c_str str | Some n \<Rightarrow> take n str)"

function ring_trim :: "(string \<Rightarrow> nat) \<Rightarrow> ring_backend \<Rightarrow> ring_backend" where
  "ring_trim cap r =
     (if length (Ring r) > MaxItems (RingConfig r)
      then ring_trim cap (r\<lparr>RingUsage := RingUsage r - int (cap (hd (Ring r))), Ring := tl (Ring r)\<rparr>)
      else r)"
  by pat_completeness auto

termination
  by (relation "measure (\<lambda>(cap, r). length (Ring r))") auto

declare ring_trim.simps [simp del]

definition Ring_Append :: "(string \<Rightarrow> nat) \<Rightarrow> string \<Rightarrow> nat option \<Rightarrow> ring_backend \<Rightarrow> ring_backend" where
  "Ring_Append cap str nc r =
     (let s = given str nc in
      if s = [] then r
      else ring_trim cap (r\<lparr>Ring := Ring r @ [s], RingUsage := RingUsage r + int (cap s)\<rparr>))"

definition Ring_FormatDetails :: "ring_backend \<Rightarrow> string" where
  "Ring_FormatDetails r =
     ''MaxItems='' @ show_nat (MaxItems (RingConfig r)) @ '' Used='' @ show_nat (length (Ring r)) @
     (if RingUsage r \<noteq> 0 then '' Memory='' @ show_nat (nat (RingUsage r)) else [])"

section \<open>The buffer\<close>

record buffer_backend =
  Buffer :: string
  BufferCapacity :: nat
  BufferConfig :: backend_config
  BufferUsage :: int

definition NEWLINE :: char where
  "NEWLINE = CHR 0x0A"

definition GROW :: nat where
  "GROW = 4 * 1024"

definition SIZE_MAX :: nat where
  "SIZE_MAX = 2 ^ 64 - 1"

definition BufferBackend_new :: buffer_backend where
  "BufferBackend_new =
     \<lparr>Buffer = [], BufferCapacity = 0, BufferConfig = CreateConfig 0 ''BufferBackend'', BufferUsage = 0\<rparr>"

definition Buffer_ApplyConfig :: "backend_config \<Rightarrow> buffer_backend \<Rightarrow> bool \<times> buffer_backend" where
  "Buffer_ApplyConfig c b =
     (if CfgType c \<noteq> ''BufferBackend'' then (False, b) else (True, b\<lparr>BufferConfig := c\<rparr>))"

definition Buffer_Clear :: "buffer_backend \<Rightarrow> buffer_backend" where
  "Buffer_Clear b = b\<lparr>Buffer := []\<rparr>"

text \<open>The position of the terminator, where the next text goes.\<close>

definition write_pos :: "string \<Rightarrow> nat" where
  "write_pos buf = (if length buf \<noteq> 0 then length buf - 1 else length buf)"

definition drop_line :: "string \<Rightarrow> string" where
  "drop_line buf =
     (if NEWLINE \<in> set buf then drop (length (takeWhile (\<lambda>c. c \<noteq> NEWLINE) buf) + 1) buf else [])"

text \<open>The \<open>do ... while\<close> of \<open>DELETE_OLDEST\<close>; \<open>None\<close> is a loop that does not end.\<close>

partial_function (option) delete_oldest :: "nat \<Rightarrow> nat \<Rightarrow> string \<Rightarrow> string option" where
  "delete_oldest maxSize nc buf =
     (let buf = drop_line buf in
      if write_pos buf + nc + 1 > maxSize then delete_oldest maxSize nc buf else Some buf)"

definition store_buffer :: "(nat \<Rightarrow> nat \<Rightarrow> nat) \<Rightarrow> string \<Rightarrow> buffer_backend \<Rightarrow> buffer_backend" where
  "store_buffer reserve str b =
     (let pos = write_pos (Buffer b); s = pos + length str + 1;
          b = (if s > BufferCapacity b
               then let new = reserve (BufferCapacity b) ((s + GROW - 1) div GROW * GROW)
                    in b\<lparr>BufferCapacity := new,
                         BufferUsage := BufferUsage b + int (if new > BufferCapacity b then new - BufferCapacity b else 0)\<rparr>
               else b)
      in b\<lparr>Buffer := take pos (Buffer b) @ str @ [NUL]\<rparr>)"

definition Buffer_Append ::
  "(nat \<Rightarrow> nat \<Rightarrow> nat) \<Rightarrow> string \<Rightarrow> nat option \<Rightarrow> buffer_backend \<Rightarrow> buffer_backend option" where
  "Buffer_Append reserve str nc b =
     (let s = given str nc; maxSize = MaxSize (BufferConfig b) in
      if s = [] then Some b
      else if maxSize \<noteq> SIZE_MAX \<and> write_pos (Buffer b) + length s + 1 > maxSize
      then (case Policy (BufferConfig b) of
              STOP_APPENDING \<Rightarrow> Some b
            | DELETE_OLDEST \<Rightarrow>
                if length s + 1 > maxSize then Some b
                else (case delete_oldest maxSize (length s) (Buffer b) of
                        None \<Rightarrow> None
                      | Some buf \<Rightarrow> Some (store_buffer reserve s (b\<lparr>Buffer := buf\<rparr>))))
      else Some (store_buffer reserve s b))"

definition Buffer_AppendOther ::
  "(nat \<Rightarrow> nat \<Rightarrow> nat) \<Rightarrow> buffer_backend \<Rightarrow> buffer_backend \<Rightarrow> buffer_backend option" where
  "Buffer_AppendOther reserve bb b =
     (if Buffer bb = [] then Some b else Buffer_Append reserve (Buffer bb) None b)"

definition Buffer_FormatDetails :: "buffer_backend \<Rightarrow> string" where
  "Buffer_FormatDetails b =
     ''MaxSize='' @ show_nat (MaxSize (BufferConfig b)) @
     (if Policy (BufferConfig b) = DELETE_OLDEST then '' Policy=DELETE_OLDEST'' else '' Policy=STOP_APPENDING'') @
     '' Used='' @ show_nat (length (Buffer b)) @
     (if BufferUsage b \<noteq> 0 then '' Memory='' @ show_nat (nat (BufferUsage b)) else [])"

section \<open>The ring holds the last messages\<close>

definition window :: "nat \<Rightarrow> 'a list \<Rightarrow> 'a list" where
  "window n xs = drop (length xs - n) xs"

lemma window_snoc: "window n (window n xs @ [x]) = window n (xs @ [x])"
proof (cases "length xs \<le> n")
  case True
  then show ?thesis by (simp add: window_def)
next
  case False
  then have "length xs - (n - 1) = Suc (length xs - n)" if "n \<noteq> 0" using that by simp
  with False show ?thesis by (cases n) (simp_all add: window_def)
qed

definition ring_inv :: "(string \<Rightarrow> nat) \<Rightarrow> ring_backend \<Rightarrow> bool" where
  "ring_inv cap r \<longleftrightarrow> RingUsage r = (\<Sum>s\<leftarrow>Ring r. int (cap s))"

lemma ring_trim_result:
  "ring_inv cap r \<Longrightarrow> ring_inv cap (ring_trim cap r) \<and> RingConfig (ring_trim cap r) = RingConfig r \<and>
     Ring (ring_trim cap r) = drop (length (Ring r) - MaxItems (RingConfig r)) (Ring r)"
proof (induction cap r rule: ring_trim.induct)
  case (1 cap r)
  show ?case
  proof (cases "length (Ring r) > MaxItems (RingConfig r)")
    case True
    then obtain x xs where r: "Ring r = x # xs" by (cases "Ring r") auto
    let ?r = "r\<lparr>RingUsage := RingUsage r - int (cap (hd (Ring r))), Ring := tl (Ring r)\<rparr>"
    have "ring_inv cap ?r" using "1.prems" r by (simp add: ring_inv_def)
    with "1.IH" [OF True] True r show ?thesis
      by (subst (1 2 3) ring_trim.simps) (simp add: Suc_diff_le)
  next
    case False
    then show ?thesis using "1.prems" by (subst (1 2 3) ring_trim.simps) simp
  qed
qed

lemma Ring_Append_result:
  assumes "ring_inv cap r"
  shows "ring_inv cap (Ring_Append cap str nc r) \<and> RingConfig (Ring_Append cap str nc r) = RingConfig r \<and>
    (given str nc \<noteq> [] \<longrightarrow> Ring (Ring_Append cap str nc r) =
       window (MaxItems (RingConfig r)) (Ring r @ [given str nc]))"
proof -
  have "ring_inv cap (r\<lparr>Ring := Ring r @ [given str nc], RingUsage := RingUsage r + int (cap (given str nc))\<rparr>)"
    using assms by (simp add: ring_inv_def)
  from ring_trim_result [OF this] assms show ?thesis
    by (simp add: Ring_Append_def Let_def window_def)
qed

lemma Ring_Clear_inv: "ring_inv cap r \<Longrightarrow> ring_inv cap (Ring_Clear cap r)"
proof -
  have "foldl (\<lambda>u item. u - int (cap item)) u xs = u - (\<Sum>s\<leftarrow>xs. int (cap s))" for u xs
    by (induction xs arbitrary: u) simp_all
  then show "ring_inv cap r \<Longrightarrow> ring_inv cap (Ring_Clear cap r)"
    by (simp add: ring_inv_def Ring_Clear_def)
qed

definition ring_run :: "(string \<Rightarrow> nat) \<Rightarrow> string list \<Rightarrow> ring_backend \<Rightarrow> ring_backend" where
  "ring_run cap messages r = fold (\<lambda>m. Ring_Append cap m None) messages r"

definition ring_items :: "string list \<Rightarrow> ring_backend \<Rightarrow> string list" where
  "ring_items messages r = Ring r @ filter (\<lambda>m. m \<noteq> []) (map c_str messages)"

lemma ring_run_result:
  assumes "ring_inv cap r" and "length (Ring r) \<le> MaxItems (RingConfig r)"
  shows "ring_inv cap (ring_run cap messages r) \<and> RingConfig (ring_run cap messages r) = RingConfig r \<and>
    Ring (ring_run cap messages r) = window (MaxItems (RingConfig r)) (ring_items messages r)"
proof (induction messages rule: rev_induct)
  case Nil
  then show ?case using assms(1,2) by (simp add: ring_run_def ring_items_def window_def)
next
  case (snoc m ms)
  have run: "ring_run cap (ms @ [m]) r = Ring_Append cap m None (ring_run cap ms r)"
    by (simp add: ring_run_def)
  show ?case
  proof (cases "c_str m = []")
    case True
    then have "ring_run cap (ms @ [m]) r = ring_run cap ms r"
      by (simp add: run Ring_Append_def given_def)
    then show ?thesis using snoc True by (simp add: ring_items_def)
  next
    case False
    then show ?thesis
      using snoc Ring_Append_result [of cap "ring_run cap ms r" m None]
      by (simp add: run given_def ring_items_def window_snoc flip: append_assoc)
  qed
qed

text \<open>A ring buffer is the window of the last messages. After any messages, with \<open>MaxItems\<close> as it
  is, the ring holds the last \<open>MaxItems\<close> of its old contents followed by the non-empty messages,
  \<open>Join\<close> is their concatenation, and the usage counter is the memory of exactly these.\<close>

theorem ring_keeps_last:
  assumes "ring_inv cap r" and "length (Ring r) \<le> MaxItems (RingConfig r)"
  shows "Ring (ring_run cap messages r) = window (MaxItems (RingConfig r)) (ring_items messages r) \<and>
    Ring_Join (ring_run cap messages r) = concat (window (MaxItems (RingConfig r)) (ring_items messages r)) \<and>
    RingUsage (ring_run cap messages r) =
      (\<Sum>s\<leftarrow>window (MaxItems (RingConfig r)) (ring_items messages r). int (cap s))"
proof -
  have "foldl (@) [] xs = concat xs" for xs :: "string list"
    by (induction xs rule: rev_induct) simp_all
  with ring_run_result [OF assms, of messages] show ?thesis by (simp add: Ring_Join_def ring_inv_def)
qed

definition demo_ring :: ring_backend where
  "demo_ring = RingBufferBackend_new\<lparr>RingConfig := (CreateConfig 0 ''RingBufferBackend'')\<lparr>MaxItems := 2\<rparr>\<rparr>"

theorem ring_keeps_last_witness:
  "Ring (ring_run length [''one'', ''two'', [], ''three''] demo_ring) = [''two'', ''three''] \<and>
   RingUsage (ring_run length [''one'', ''two'', [], ''three''] demo_ring) = 8"
proof -
  have "ring_inv length demo_ring" "length (Ring demo_ring) \<le> MaxItems (RingConfig demo_ring)" by code_simp+
  note last = ring_keeps_last [OF this, of "[''one'', ''two'', [], ''three'']"]
  have "window (MaxItems (RingConfig demo_ring)) (ring_items [''one'', ''two'', [], ''three''] demo_ring) =
      [''two'', ''three'']" by code_simp
  with last show ?thesis by simp
qed

section \<open>The buffer holds the newest lines that fit\<close>

text \<open>
  The specification works on the text without terminator: the oldest lines are dropped until the rest
  fits into \<open>room\<close> bytes, a last unfinished line as a whole.
\<close>

function newest_lines :: "nat \<Rightarrow> string \<Rightarrow> string" where
  "newest_lines room t =
     (if length t \<le> room then t
      else newest_lines room (tl (dropWhile (\<lambda>c. c \<noteq> NEWLINE) t)))"
  by pat_completeness auto

termination
proof (relation "measure (\<lambda>(room, t). length t)", goal_cases)
  case (2 room t)
  then have "t \<noteq> []" by auto
  moreover have "length (tl (dropWhile (\<lambda>c. c \<noteq> NEWLINE) t)) \<le> length t - 1"
    by (simp only: length_tl diff_le_mono length_dropWhile_le)
  moreover have "0 < length t" using \<open>t \<noteq> []\<close> by simp
  ultimately have "length (tl (dropWhile (\<lambda>c. c \<noteq> NEWLINE) t)) < length t" by linarith
  then show ?case by simp
qed simp

declare newest_lines.simps [simp del]

definition buffer_text :: "buffer_backend \<Rightarrow> string" where
  "buffer_text b = butlast (Buffer b)"

definition append_text :: "backend_config \<Rightarrow> string \<Rightarrow> string \<Rightarrow> string" where
  "append_text config s t =
     (if s = [] then t
      else if MaxSize config = SIZE_MAX \<or> length t + length s + 1 \<le> MaxSize config then t @ s
      else if Policy config = STOP_APPENDING \<or> length s + 1 > MaxSize config then t
      else newest_lines (MaxSize config - length s - 1) t @ s)"

definition buffer_inv :: "buffer_backend \<Rightarrow> bool" where
  "buffer_inv b \<longleftrightarrow>
     (Buffer b = [] \<or> last (Buffer b) = NUL) \<and> length (Buffer b) \<le> BufferCapacity b \<and>
     BufferUsage b = int (BufferCapacity b)"

definition terminated :: "string \<Rightarrow> bool" where
  "terminated buf \<longleftrightarrow> buf = [] \<or> last buf = NUL"

lemma write_pos_length: "write_pos buf = length (butlast buf)"
  by (simp add: write_pos_def)

lemma drop_line_text:
  assumes "terminated buf"
  shows "butlast (drop_line buf) = tl (dropWhile (\<lambda>c. c \<noteq> NEWLINE) (butlast buf)) \<and>
    terminated (drop_line buf) \<and> length (drop_line buf) \<le> length buf"
proof (cases "NEWLINE \<in> set buf")
  case True
  then have ne: "buf \<noteq> []" by auto
  with assms obtain t where t: "buf = t @ [NUL]"
    unfolding terminated_def by (metis append_butlast_last_id)
  with True have m: "NEWLINE \<in> set t" by (simp add: NEWLINE_def NUL_def)
  let ?k = "length (takeWhile (\<lambda>c. c \<noteq> NEWLINE) t)"
  have tw: "takeWhile (\<lambda>c. c \<noteq> NEWLINE) buf = takeWhile (\<lambda>c. c \<noteq> NEWLINE) t"
    using m by (simp add: t takeWhile_append1)
  have "?k < length t" using m
    by (metis (mono_tags, lifting) append_eq_conv_conj length_append less_add_same_cancel1
        length_greater_0_conv takeWhile_dropWhile_id dropWhile_eq_Nil_conv)
  then have "drop_line buf = drop (?k + 1) t @ [NUL]"
    using True by (simp add: drop_line_def tw) (simp add: t)
  moreover have "tl (dropWhile (\<lambda>c. c \<noteq> NEWLINE) t) = drop (?k + 1) t"
    by (simp add: dropWhile_eq_drop tl_drop drop_Suc)
  ultimately show ?thesis by (simp add: t terminated_def)
next
  case False
  then have "NEWLINE \<notin> set (butlast buf)" by (auto dest: in_set_butlastD)
  then have dw: "dropWhile (\<lambda>c. c \<noteq> NEWLINE) (butlast buf) = []" by auto
  show ?thesis unfolding dw using False by (simp add: drop_line_def terminated_def)
qed


lemma delete_oldest_text:
  assumes "terminated buf" and "nc + 1 \<le> maxSize" and "length (butlast buf) + nc + 1 > maxSize"
  shows "\<exists>buf'. delete_oldest maxSize nc buf = Some buf' \<and> terminated buf' \<and> length buf' \<le> length buf \<and>
    butlast buf' = newest_lines (maxSize - nc - 1) (butlast buf) \<and> length (butlast buf') + nc + 1 \<le> maxSize"
  using assms
proof (induction "length (butlast buf)" arbitrary: buf rule: less_induct)
  case less
  let ?b = "drop_line buf" and ?room = "maxSize - nc - 1"
  from drop_line_text [OF less.prems(1)] have b: "terminated ?b" "length ?b \<le> length buf"
    "butlast ?b = tl (dropWhile (\<lambda>c. c \<noteq> NEWLINE) (butlast buf))" by simp_all
  have big: "\<not> length (butlast buf) \<le> ?room" using less.prems(2,3) by linarith
  then have spec: "newest_lines ?room (butlast buf) = newest_lines ?room (butlast ?b)"
    by (subst newest_lines.simps) (simp only: b(3) if_False)
  show ?case
  proof (cases "write_pos ?b + nc + 1 > maxSize")
    case True
    have "length (butlast ?b) \<le> length (butlast buf) - 1"
      unfolding b(3) by (simp only: length_tl diff_le_mono length_dropWhile_le)
    with big have "length (butlast ?b) < length (butlast buf)" by linarith
    moreover have "length (butlast ?b) + nc + 1 > maxSize" using True by (simp only: write_pos_length)
    ultimately obtain buf' where
      "delete_oldest maxSize nc ?b = Some buf'" "terminated buf'" "length buf' \<le> length ?b"
      "butlast buf' = newest_lines ?room (butlast ?b)" "length (butlast buf') + nc + 1 \<le> maxSize"
      using less.hyps [OF _ b(1) less.prems(2)] by blast
    with True b(2) spec show ?thesis
      by (intro exI [of _ buf']) (simp add: delete_oldest.simps [of maxSize nc buf])
  next
    case False
    then have fits: "length (butlast ?b) + nc + 1 \<le> maxSize" by (simp only: write_pos_length not_less)
    then have "length (butlast ?b) \<le> ?room" by linarith
    then have "newest_lines ?room (butlast ?b) = butlast ?b" by (subst newest_lines.simps) (simp only: if_True)
    with False b spec fits show ?thesis
      by (intro exI [of _ ?b]) (simp add: delete_oldest.simps [of maxSize nc buf] del: length_butlast)
  qed
qed

lemma store_buffer_result:
  assumes "buffer_inv b" and "\<And>old n. n \<le> reserve old n"
  shows "buffer_inv (store_buffer reserve s b) \<and> buffer_text (store_buffer reserve s b) = buffer_text b @ s \<and>
    BufferConfig (store_buffer reserve s b) = BufferConfig b \<and>
    length (Buffer (store_buffer reserve s b)) = length (buffer_text b) + length s + 1"
proof -
  let ?need = "write_pos (Buffer b) + length s + 1"
  have "?need \<le> (?need + GROW - 1) div GROW * GROW"
  proof -
    have "(?need + GROW - 1) mod GROW < GROW" by (simp add: GROW_def)
    then show ?thesis using div_mult_mod_eq [of "?need + GROW - 1" GROW] by linarith
  qed
  then have grow: "?need \<le> reserve c ((?need + GROW - 1) div GROW * GROW)" for c
    using assms(2) order_trans by blast
  have pos: "take (length (Buffer b) - Suc 0) (Buffer b) = butlast (Buffer b)"
    by (simp add: butlast_conv_take)
  show ?thesis
    using assms(1) grow [of "BufferCapacity b"]
    by (auto simp: store_buffer_def Let_def buffer_inv_def buffer_text_def pos write_pos_length butlast_append)
qed

text \<open>C36. A memory buffer keeps what its policy promises. Appending to a well-formed buffer always
  returns; the text becomes \<open>append_text\<close>: the old text and the new one if both fit, the old text
  alone when the policy is to stop or the new text cannot fit, else the newest lines that leave room
  followed by the new text. The buffer stays terminated and within its capacity, its memory usage is
  that capacity, and it does not outgrow \<open>MaxSize\<close>.\<close>

theorem buffer_append_policy:
  assumes "buffer_inv b" and "\<And>old n. n \<le> reserve old n"
  shows "\<exists>b'. Buffer_Append reserve str nc b = Some b' \<and> buffer_inv b' \<and>
    buffer_text b' = append_text (BufferConfig b) (given str nc) (buffer_text b) \<and>
    BufferConfig b' = BufferConfig b \<and>
    (length (Buffer b') \<le> MaxSize (BufferConfig b) \<or> MaxSize (BufferConfig b) = SIZE_MAX \<or>
     Buffer b' = Buffer b)"
proof -
  let ?s = "given str nc" and ?max = "MaxSize (BufferConfig b)"
  note store = store_buffer_result [OF _ assms(2)]
  have pos: "write_pos (Buffer b) = length (buffer_text b)" by (simp only: write_pos_length buffer_text_def)
  consider (same) "?s = []" | (fits) "?s \<noteq> []" "?max = SIZE_MAX \<or> length (buffer_text b) + length ?s + 1 \<le> ?max"
    | (refused) "?s \<noteq> []" "?max \<noteq> SIZE_MAX" "length (buffer_text b) + length ?s + 1 > ?max"
        "Policy (BufferConfig b) = STOP_APPENDING \<or> length ?s + 1 > ?max"
    | (delete) "?s \<noteq> []" "?max \<noteq> SIZE_MAX" "length (buffer_text b) + length ?s + 1 > ?max"
        "Policy (BufferConfig b) = DELETE_OLDEST" "length ?s + 1 \<le> ?max"
    by (meson buffer_policy.exhaust not_less)
  then show ?thesis
  proof cases
    case same
    with assms(1) show ?thesis by (simp add: Buffer_Append_def append_text_def)
  next
    case fits
    then have "Buffer_Append reserve str nc b = Some (store_buffer reserve ?s b)"
      by (auto simp: Buffer_Append_def Let_def pos)
    with fits store [OF assms(1), where s = ?s] show ?thesis by (auto simp: append_text_def)
  next
    case refused
    then have "Buffer_Append reserve str nc b = Some b"
      by (auto simp: Buffer_Append_def Let_def pos split: buffer_policy.split)
    with refused assms(1) show ?thesis by (auto simp: append_text_def)
  next
    case delete
    have "terminated (Buffer b)" using assms(1) by (simp add: buffer_inv_def terminated_def)
    from delete_oldest_text [OF this delete(5)] delete(3) obtain buf where buf:
      "delete_oldest ?max (length ?s) (Buffer b) = Some buf" "terminated buf" "length buf \<le> length (Buffer b)"
      "butlast buf = newest_lines (?max - length ?s - 1) (buffer_text b)" "length (butlast buf) + length ?s + 1 \<le> ?max"
      unfolding buffer_text_def by blast
    then have app: "Buffer_Append reserve str nc b = Some (store_buffer reserve ?s (b\<lparr>Buffer := buf\<rparr>))"
      using delete by (simp add: Buffer_Append_def Let_def pos)
    have "buffer_inv (b\<lparr>Buffer := buf\<rparr>)"
      using assms(1) buf(2,3) by (simp add: buffer_inv_def terminated_def)
    from store [OF this, where s = ?s] app delete buf(4,5) show ?thesis
      by (simp add: append_text_def buffer_text_def del: length_butlast)
  qed
qed

definition demo_buffer :: buffer_backend where
  "demo_buffer = \<lparr>Buffer = ''one'' @ [NEWLINE] @ ''two'' @ [NEWLINE, NUL], BufferCapacity = 16,
     BufferConfig = (CreateConfig 0 ''BufferBackend'')\<lparr>MaxSize := 12, Policy := DELETE_OLDEST\<rparr>, BufferUsage = 16\<rparr>"

theorem buffer_append_policy_witness:
  "\<exists>b'. Buffer_Append (\<lambda>old n. n) ''three'' None demo_buffer = Some b' \<and>
     buffer_text b' = ''two'' @ [NEWLINE] @ ''three''"
proof -
  have inv: "buffer_inv demo_buffer" by (simp add: buffer_inv_def demo_buffer_def)
  have "newest_lines 6 (''one'' @ [NEWLINE] @ ''two'' @ [NEWLINE]) = ''two'' @ [NEWLINE]"
    by (subst newest_lines.simps, subst newest_lines.simps) (simp add: NEWLINE_def)
  moreover have "buffer_text demo_buffer = ''one'' @ [NEWLINE] @ ''two'' @ [NEWLINE]"
    "given ''three'' None = ''three''" "MaxSize (BufferConfig demo_buffer) = 12"
    "Policy (BufferConfig demo_buffer) = DELETE_OLDEST"
    by (simp_all add: demo_buffer_def buffer_text_def given_def c_str_def NUL_def)
  ultimately have "append_text (BufferConfig demo_buffer) (given ''three'' None) (buffer_text demo_buffer) =
      ''two'' @ [NEWLINE] @ ''three''"
    by (simp add: append_text_def SIZE_MAX_def)
  with buffer_append_policy [OF inv, of "\<lambda>old n. n" "''three''" None] show ?thesis by auto
qed

end
