(* ===== verification/Collapse.thy ===== *)
theory Collapse
  imports Prelude_Logme
begin

text \<open>
  Repeated messages of one call site (\<open>CollapseContextCache\<close>, \<open>Context::ApplyCollapse\<close> in
  \<open>Context.cpp\<close>): by count, every \<open>Limit\<close>-th repetition is shown; by time, one message per interval.
  What an ignore pattern removes is the business of \<open>std::regex\<close>; here it is the function that does it.
  Lemmas: which messages of a sequence are shown, which counts they carry, and that every suppressed
  message is counted in one of them or still pending.
\<close>

datatype collapse_mode = COUNT | TIME

record collapse_cache =
  CollapseMode :: collapse_mode
  CollapseLimit :: u64
  IntervalMs :: u64
  LastKey :: string
  LastOutputTime :: u64
  RepeatCount :: u64
  IgnoreRegex :: "(string \<Rightarrow> string) option"

definition CollapseContextCache_count :: "u64 \<Rightarrow> collapse_cache" where
  "CollapseContextCache_count limit =
     \<lparr>CollapseMode = COUNT, CollapseLimit = limit, IntervalMs = 0, LastKey = [], LastOutputTime = 0,
      RepeatCount = 0, IgnoreRegex = None\<rparr>"

definition CollapseContextCache_time :: "u64 \<Rightarrow> collapse_cache" where
  "CollapseContextCache_time intervalMs =
     \<lparr>CollapseMode = TIME, CollapseLimit = 0, IntervalMs = intervalMs, LastKey = [], LastOutputTime = 0,
      RepeatCount = 0, IgnoreRegex = None\<rparr>"

text \<open>\<open>regex\<close> is what \<open>std::regex\<close> makes of a pattern, \<open>None\<close> when it throws.\<close>

definition CompileIgnoreRegex ::
  "(string \<Rightarrow> (string \<Rightarrow> string) option) \<Rightarrow> string \<Rightarrow> collapse_cache \<Rightarrow> collapse_cache" where
  "CompileIgnoreRegex regex text c =
     (if text = [] then c
      else case regex text of None \<Rightarrow> c | Some f \<Rightarrow> c\<lparr>IgnoreRegex := Some f\<rparr>)"

text \<open>
  The answer: the cache, the count the record carries, whether it is shown. The text is a C string;
  \<open>now\<close> is the clock.
\<close>

definition collapse_key :: "collapse_cache \<Rightarrow> string \<Rightarrow> string" where
  "collapse_key c msg = (case IgnoreRegex c of None \<Rightarrow> c_str msg | Some f \<Rightarrow> c_str (f (c_str msg)))"

definition ApplyCollapse :: "u64 \<Rightarrow> string \<Rightarrow> collapse_cache \<Rightarrow> collapse_cache \<times> u64 \<times> bool" where
  "ApplyCollapse now msg c =
     (if CollapseMode c = COUNT \<and> CollapseLimit c = 0 then (c, 0, True)
      else if CollapseMode c = TIME \<and> IntervalMs c = 0 then (c, 0, True)
      else
        let key = collapse_key c msg in
        if LastKey c \<noteq> key then (c\<lparr>LastKey := key, LastOutputTime := now, RepeatCount := 0\<rparr>, 0, True)
        else if CollapseMode c = COUNT
        then let c = c\<lparr>RepeatCount := RepeatCount c + 1\<rparr> in
             if RepeatCount c < CollapseLimit c then (c, 0, False)
             else (c\<lparr>RepeatCount := 0\<rparr>, RepeatCount c, True)
        else if now - LastOutputTime c < IntervalMs c
        then (c\<lparr>RepeatCount := RepeatCount c + 1\<rparr>, 0, False)
        else (c\<lparr>RepeatCount := 0, LastOutputTime := now\<rparr>, RepeatCount c, True))"

fun collapse_run :: "(u64 \<times> string) list \<Rightarrow> collapse_cache \<Rightarrow> (u64 \<times> bool) list" where
  "collapse_run [] c = []"
| "collapse_run ((now, msg) # ms) c =
     (case ApplyCollapse now msg c of (c, n, shown) \<Rightarrow> (n, shown) # collapse_run ms c)"

section \<open>Collapsing by count\<close>

text \<open>
  The specification: number the messages of a run of equal keys from 0 and show those whose number
  is a multiple of the limit; all but the first of them carry the limit as their count.
\<close>

fun count_spec :: "nat \<Rightarrow> string \<Rightarrow> nat \<Rightarrow> string list \<Rightarrow> (nat \<times> bool) list" where
  "count_spec limit prev n [] = []"
| "count_spec limit prev n (key # keys) =
     (let n = (if key = prev then n + 1 else 0)
      in (if n = 0 \<or> n mod limit \<noteq> 0 then 0 else limit, n mod limit = 0) # count_spec limit key n keys)"

lemma collapse_key_updates [simp]:
  "collapse_key (c\<lparr>RepeatCount := n\<rparr>) = collapse_key c"
  "collapse_key (c\<lparr>LastKey := key\<rparr>) = collapse_key c"
  "collapse_key (c\<lparr>LastOutputTime := t\<rparr>) = collapse_key c"
  by (simp_all add: collapse_key_def fun_eq_iff)

lemma collapse_count_run:
  assumes "CollapseMode c = COUNT" and "CollapseLimit c \<noteq> 0"
    and "unat (RepeatCount c) = n mod unat (CollapseLimit c)"
  shows "map (\<lambda>(m, shown). (unat m, shown)) (collapse_run ms c) =
    count_spec (unat (CollapseLimit c)) (LastKey c) n (map (\<lambda>m. collapse_key c (snd m)) ms)"
  using assms
proof (induction ms arbitrary: c n)
  case (Cons m ms)
  obtain now msg where m: "m = (now, msg)" by (cases m)
  let ?L = "unat (CollapseLimit c)" and ?key = "collapse_key c msg"
  have L: "0 < ?L" using Cons.prems(2) by (simp add: unat_gt_0)
  show ?case
  proof (cases "LastKey c = ?key")
    case False
    let ?c = "c\<lparr>LastKey := ?key, LastOutputTime := now, RepeatCount := 0\<rparr>"
    have "map (\<lambda>(m, shown). (unat m, shown)) (collapse_run ms ?c) =
        count_spec (unat (CollapseLimit ?c)) (LastKey ?c) 0 (map (\<lambda>m. collapse_key ?c (snd m)) ms)"
      using Cons.prems by (intro Cons.IH) simp_all
    then show ?thesis
      using False Cons.prems(1,2) by (simp add: m ApplyCollapse_def Let_def)
  next
    case True
    let ?r = "RepeatCount c + 1"
    have limit: "?L < 2 ^ 64" using unsigned_less [of "CollapseLimit c"] by simp
    have lt: "unat (RepeatCount c) < ?L" using Cons.prems(3) L by simp
    have up: "unat ?r = unat (RepeatCount c) + 1"
      using lt limit by (subst unat_add_lem [THEN iffD1]) simp_all
    have next_mod: "(n + 1) mod ?L = (if unat ?r < ?L then unat ?r else 0)"
      using Cons.prems(3) up lt by (simp add: mod_Suc)
    have n: "?r < CollapseLimit c \<longleftrightarrow> unat ?r < ?L" by (rule word_less_nat_alt)
    let ?c = "c\<lparr>RepeatCount := (if unat ?r < ?L then ?r else 0)\<rparr>"
    have "map (\<lambda>(m, shown). (unat m, shown)) (collapse_run ms ?c) =
        count_spec (unat (CollapseLimit ?c)) (LastKey ?c) (n + 1) (map (\<lambda>m. collapse_key ?c (snd m)) ms)"
      using Cons.prems(1,2) next_mod by (intro Cons.IH) simp_all
    moreover have "unat ?r = ?L" if "\<not> unat ?r < ?L" using that lt up by simp
    moreover have "unat ?r mod ?L \<noteq> 0" if "unat ?r < ?L" using that up by simp
    ultimately show ?thesis
      using True Cons.prems(1,2) next_mod up
      by (cases "unat ?r < ?L") (simp_all add: m ApplyCollapse_def Let_def n)
  qed
qed simp


section \<open>Collapsing by time\<close>

text \<open>Among repetitions of one message each suppressed one is counted, once, in the next one shown.\<close>

lemma collapse_time_run:
  assumes "CollapseMode c = TIME" and "IntervalMs c \<noteq> 0"
    and "\<forall>m \<in> set ms. collapse_key c (snd m) = LastKey c"
    and "unat (RepeatCount c) + length ms < 2 ^ 64"
  shows "(\<Sum>(n, shown)\<leftarrow>collapse_run ms c. unat n) + unat (RepeatCount (foldl (\<lambda>c m. fst (ApplyCollapse (fst m) (snd m) c)) c ms)) =
    unat (RepeatCount c) + length (filter (\<lambda>r. \<not> snd r) (collapse_run ms c))"
  using assms
proof (induction ms arbitrary: c)
  case (Cons m ms)
  obtain now msg where m: "m = (now, msg)" by (cases m)
  with Cons.prems(3) have key: "LastKey c = collapse_key c msg" by simp
  show ?case
  proof (cases "now - LastOutputTime c < IntervalMs c")
    case True
    let ?c = "c\<lparr>RepeatCount := RepeatCount c + 1\<rparr>"
    have up: "unat (RepeatCount c + 1) = unat (RepeatCount c) + 1"
      using Cons.prems(4) by (subst unat_add_lem [THEN iffD1]) simp_all
    have "(\<Sum>(n, shown)\<leftarrow>collapse_run ms ?c. unat n) + unat (RepeatCount (foldl (\<lambda>c m. fst (ApplyCollapse (fst m) (snd m) c)) ?c ms)) =
        unat (RepeatCount ?c) + length (filter (\<lambda>r. \<not> snd r) (collapse_run ms ?c))"
      using Cons.prems up by (intro Cons.IH) simp_all
    with True key Cons.prems(1,2) up show ?thesis by (simp add: m ApplyCollapse_def Let_def)
  next
    case False
    let ?c = "c\<lparr>RepeatCount := 0, LastOutputTime := now\<rparr>"
    have "(\<Sum>(n, shown)\<leftarrow>collapse_run ms ?c. unat n) + unat (RepeatCount (foldl (\<lambda>c m. fst (ApplyCollapse (fst m) (snd m) c)) ?c ms)) =
        unat (RepeatCount ?c) + length (filter (\<lambda>r. \<not> snd r) (collapse_run ms ?c))"
      using Cons.prems by (intro Cons.IH) simp_all
    with False key Cons.prems(1,2) show ?thesis by (simp add: m ApplyCollapse_def Let_def)
  qed
qed simp

text \<open>Collapsing by count shows what it says. For a fresh call site with a limit that is not 0, of
  every run of equal messages exactly those are shown whose number in the run, from 0, is a multiple
  of the limit; repetitions that are shown carry the limit as their count. A first message that is
  empty (after the ignore pattern) counts as a repetition and is suppressed for any limit above 1.\<close>

theorem collapse_count_shows:
  assumes "limit \<noteq> 0"
  shows "map (\<lambda>(n, shown). (unat n, shown)) (collapse_run ms (CollapseContextCache_count limit)) =
      count_spec (unat limit) [] 0 (map (\<lambda>m. c_str (snd m)) ms)"
  using collapse_count_run [of "CollapseContextCache_count limit" 0 ms] assms
  by (simp add: CollapseContextCache_count_def collapse_key_def)

theorem collapse_count_shows_witness:
  "map snd (collapse_run [(0, ''a''), (1, ''a''), (2, ''a''), (3, ''b''), (4, []), (5, [])] (CollapseContextCache_count 2)) =
     [True, False, True, True, True, False] \<and>
   map snd (collapse_run [(0, [])] (CollapseContextCache_count 2)) = [False]"
proof -
  have shown: "map snd (collapse_run ms (CollapseContextCache_count 2)) =
      map snd (count_spec (unat (2 :: u64)) [] 0 (map (\<lambda>m. c_str (snd m)) ms))" for ms
  proof -
    have "(2 :: u64) \<noteq> 0" by simp
    have "map snd (map (\<lambda>(n, shown). (unat n, shown)) (collapse_run ms (CollapseContextCache_count 2))) =
        map snd (count_spec (unat (2 :: u64)) [] 0 (map (\<lambda>m. c_str (snd m)) ms))"
      by (simp only: collapse_count_shows [OF \<open>2 \<noteq> 0\<close>])
    then show ?thesis by (simp add: o_def case_prod_beta)
  qed
  show ?thesis unfolding shown by (simp add: c_str_def NUL_def)
qed

end
