(* ===== verification/Log_Dispatch.thy ===== *)
theory Log_Dispatch
  imports Channel_Display Thread_Scope Control_Commands Collapse
begin

text \<open>
  A log call from the macro to the channels (\<open>Logger.cpp\<close>: the overloads of \<open>Logger::Log\<close>,
  \<open>Logger::DoLog\<close>, \<open>Logger::HandleFatal\<close>; \<open>Stream.cpp\<close>; the constructor of \<open>Context\<close>). It composes the
  thread settings, the override limits, the subsystem filter, the registry, the early activity test,
  collapsing, \<open>Channel::Display\<close> and the copy that errors make to the error channel. What the format
  functions produce and the clock are arguments. The statistics collector, which only observes, and
  the flush before a fatal handler are not modelled.
\<close>

section \<open>State and arguments\<close>

record log_state = control_state +
  Thread :: thread_state
  HasFatalHandler :: bool
  FatalHandling :: bool

text \<open>
  The text: a plain string for the format \<open>"%s"\<close>, else the buffer size with the full result of
  \<open>vsnprintf\<close> (\<open>None\<close>: it failed) unless the fast formatter produced the text.
\<close>

datatype format_arg = TextArg string | Formatted nat "string option" "string option"

record log_env =
  AutodeleteTime :: u64
  Ticks :: u64
  CollapseTime :: u64
  FormatArg :: "format_arg option"
  WantOutput :: bool

datatype log_event = Out event | OutputText string | FatalHandlerRun

text \<open>The context the macro builds: its channel and subsystem are the parameters', else the defaults.\<close>

record site =
  SiteLevel :: level
  SiteChannel :: string
  SiteSubsystem :: u64

definition Context_new :: "level \<Rightarrow> string \<Rightarrow> u64 \<Rightarrow> string option \<Rightarrow> u64 \<Rightarrow> site" where
  "Context_new level chdef siddef channel subsystem =
     \<lparr>SiteLevel = level, SiteChannel = (case channel of None \<Rightarrow> chdef | Some c \<Rightarrow> c),
      SiteSubsystem = (if subsystem = 0 then siddef else subsystem)\<rparr>"

section \<open>\<open>DoLog\<close>\<close>

text \<open>
  What \<open>vsnprintf(buffer, size - 1, ...)\<close> leaves in the buffer, up to \<open>bufferLen\<close>: the terminator it
  writes at \<open>size - 2\<close> is part of the text when the text is cut.
\<close>

definition format_text :: "format_arg \<Rightarrow> string" where
  "format_text f =
     (case f of
        TextArg t \<Rightarrow> c_str t
      | Formatted n full fast \<Rightarrow>
          (case fast of
             Some t \<Rightarrow> t
           | None \<Rightarrow>
               (case full of
                  None \<Rightarrow> ''[format error]''
                | Some t \<Rightarrow>
                    let bufferLen = (if length t > n - 1 then n - 1 else length t)
                    in take bufferLen (take (n - 2) t @ [NUL]))))"

definition limit_override :: "u64 \<Rightarrow> ctx \<Rightarrow> ctx \<times> bool" where
  "limit_override ticks c =
     (case Ovr c of
        None \<Rightarrow> (c, True)
      | Some ovr \<Rightarrow> (case rate_limit ticks ovr of (ovr, ok) \<Rightarrow> (c\<lparr>Ovr := Some ovr\<rparr>, ok)))"

definition target_channel :: "nat option \<Rightarrow> string \<Rightarrow> logger \<Rightarrow> logger \<times> nat option" where
  "target_channel ptr name l = (case ptr of Some ch \<Rightarrow> (l, Some ch) | None \<Rightarrow> GetChannel name l)"

text \<open>The test in front of formatting: an inactive channel, unless the record is for the error channel too.\<close>

definition output_wanted :: "log_state \<Rightarrow> nat \<Rightarrow> ctx \<Rightarrow> bool" where
  "output_wanted s ch c \<longleftrightarrow>
     (if \<not> IsOutputActive (Log s) c (Chan (Log s) ch)
      then if ErrorLevel c < LEVEL_ERROR then False
           else \<not> (ErrorChannel s = None \<or> ErrorChannel s = Some (ChanName (Chan (Log s) ch)))
      else True)"

definition collapse_text :: "u64 \<Rightarrow> string \<Rightarrow> collapse_cache option \<Rightarrow> collapse_cache option \<times> bool" where
  "collapse_text now msg cc =
     (case cc of
        None \<Rightarrow> (None, True)
      | Some k \<Rightarrow> (case ApplyCollapse now msg k of (k, count, sh) \<Rightarrow> (Some k, sh)))"

definition error_override :: "override option \<Rightarrow> override" where
  "error_override o' =
     (let ovr = (case o' of None \<Rightarrow> Override (-1) 0 | Some ovr \<Rightarrow> ovr)
      in ovr\<lparr>Add := set_flag DisableLink 1 (Add ovr)\<rparr>)"

definition display_error :: "nat \<Rightarrow> nat \<Rightarrow> ctx \<Rightarrow> log_state \<Rightarrow> (log_state \<times> ctx \<times> log_event list) option" where
  "display_error n ch c s =
     (if ErrorLevel c < LEVEL_ERROR then Some (s, c, [])
      else case ErrorChannel s of
             None \<Rightarrow> Some (s, c, [])
           | Some errorChannel \<Rightarrow>
               if ChanName (Chan (Log s) ch) = errorChannel then Some (s, c, [])
               else (case GetExistingChannel errorChannel (Log s) of
                       None \<Rightarrow> Some (s, c, [])
                     | Some chError \<Rightarrow>
                         (case Display n chError (c\<lparr>Ovr := Some (error_override (Ovr c))\<rparr>) (Log s) of
                            None \<Rightarrow> None
                          | Some (l, c', ev) \<Rightarrow> Some (s\<lparr>Log := l\<rparr>, c'\<lparr>Ovr := Ovr c\<rparr>, map Out ev))))"

definition HandleFatal :: "log_state \<Rightarrow> log_event list" where
  "HandleFatal s = (if \<not> HasFatalHandler s then [] else if FatalHandling s then [] else [FatalHandlerRun])"

text \<open>The record is formatted and shown on \<open>ch\<close>.\<close>

definition show_record ::
  "log_env \<Rightarrow> nat \<Rightarrow> nat \<Rightarrow> format_arg \<Rightarrow> ctx \<Rightarrow> collapse_cache option \<Rightarrow> log_state \<Rightarrow>
     (log_state \<times> ctx \<times> collapse_cache option \<times> log_event list) option" where
  "show_record env n ch f c cc s =
     (let buffer = format_text f; c = c\<lparr>CtxText := buffer\<rparr>;
          (cc, sh) = collapse_text (CollapseTime env) buffer cc
      in if \<not> sh then Some (s, c, cc, [])
         else case Display n ch c (Log s) of
                None \<Rightarrow> None
              | Some (l, c, ev) \<Rightarrow>
                  (case display_error n ch c (s\<lparr>Log := l\<rparr>) of
                     None \<Rightarrow> None
                   | Some (s, c, ev') \<Rightarrow>
                       Some (s, c, cc,
                         map Out ev @ ev' @ (if WantOutput env then [OutputText (c_str buffer)] else []) @
                         (if LEVEL_CRITICAL \<le> ErrorLevel c then HandleFatal s else []))))"

definition DoLog ::
  "log_env \<Rightarrow> nat \<Rightarrow> nat option \<Rightarrow> string \<Rightarrow> ctx \<Rightarrow> collapse_cache option \<Rightarrow> log_state \<Rightarrow>
     (log_state \<times> ctx \<times> collapse_cache option \<times> log_event list) option" where
  "DoLog env n ptr name c cc s =
     (let s = s\<lparr>Log := DoAutodelete False (AutodeleteTime env) (Log s)\<rparr> in
      if is_shutdown (Log s) then Some (s, c, cc, [])
      else
        let (c, ok) = limit_override (Ticks env) c in
        if \<not> ok then Some (s, c, cc, [])
        else if \<not> subsystem_admitted (Subsys (Log s)) (CtxSubsystem c) then Some (s, c, cc, [])
        else
          case target_channel ptr name (Log s) of
            (l, None) \<Rightarrow> Some (s\<lparr>Log := l\<rparr>, c, cc, [])
          | (l, Some ch) \<Rightarrow>
              let s = s\<lparr>Log := l\<rparr> in
              if \<not> output_wanted s ch c then Some (s, c, cc, [])
              else (case FormatArg env of
                      None \<Rightarrow> Some (s, c, cc, [])
                    | Some f \<Rightarrow> show_record env n ch f c cc s))"

section \<open>The overloads of \<open>Log\<close>\<close>

text \<open>\<open>ByPtr None\<close> is a null pointer: the record goes to the channel of the call site.\<close>

datatype channel_arg = NoChannel | ById string | ByPtr "nat option"

definition arg_ptr :: "channel_arg \<Rightarrow> nat option" where
  "arg_ptr a = (case a of ByPtr p \<Rightarrow> p | _ \<Rightarrow> None)"

definition arg_name :: "channel_arg \<Rightarrow> site \<Rightarrow> thread_state \<Rightarrow> string" where
  "arg_name a st t =
     (case a of NoChannel \<Rightarrow> ApplyThreadChannel t (SiteChannel st) | ById i \<Rightarrow> i | ByPtr _ \<Rightarrow> SiteChannel st)"

definition site_ctx :: "site \<Rightarrow> u64 \<Rightarrow> override \<Rightarrow> ctx" where
  "site_ctx st sid ovr =
     \<lparr>ErrorLevel = SiteLevel st, CtxSubsystem = sid, Ovr = Some ovr, CtxText = []\<rparr>"

text \<open>The activity test the overloads with a channel pointer and no subsystem make first.\<close>

definition early_reject :: "channel_arg \<Rightarrow> site \<Rightarrow> log_state \<Rightarrow> bool" where
  "early_reject a st s \<longleftrightarrow>
     (case arg_ptr a of
        None \<Rightarrow> False
      | Some ch \<Rightarrow>
          SiteLevel st < LEVEL_ERROR \<and>
          \<not> (HasSubsystemLevelOverrides (Subsys (Log s)) \<and>
             (SiteSubsystem st \<noteq> 0 \<or> HasThreadSubsystem (Thread s))) \<and>
          \<not> IsOutputActive (Log s) (site_ctx st (SiteSubsystem st) (Override (-1) 0)) (Chan (Log s) ch))"

type_synonym log_result = "(log_state \<times> ctx \<times> collapse_cache option \<times> log_event list) option"

text \<open>The override of a call: the caller's, or a copy of the thread's.\<close>

definition call_override :: "override option \<Rightarrow> thread_state \<Rightarrow> override" where
  "call_override ovr t = (case ovr of Some o' \<Rightarrow> o' | None \<Rightarrow> GetThreadOverride t)"

text \<open>The overloads without and with a subsystem; \<open>ovr\<close> is the caller's override, if it passes one.\<close>

definition Log_call ::
  "channel_arg \<Rightarrow> override option \<Rightarrow> log_env \<Rightarrow> nat \<Rightarrow> site \<Rightarrow> collapse_cache option \<Rightarrow> log_state \<Rightarrow> log_result" where
  "Log_call a ovr env n st cc s =
     (let c = site_ctx st (ApplyThreadSubsystem (Thread s) (SiteSubsystem st)) (call_override ovr (Thread s)) in
      if is_shutdown (Log s) \<or> early_reject a st s then Some (s, c, cc, [])
      else DoLog env n (arg_ptr a) (arg_name a st (Thread s)) c cc s)"

definition Log_call_sid ::
  "channel_arg \<Rightarrow> u64 \<Rightarrow> override option \<Rightarrow> log_env \<Rightarrow> nat \<Rightarrow> site \<Rightarrow> collapse_cache option \<Rightarrow> log_state \<Rightarrow> log_result" where
  "Log_call_sid a sid ovr env n st cc s =
     (let c = site_ctx st sid (call_override ovr (Thread s)) in
      if is_shutdown (Log s) then Some (s, c, cc, [])
      else DoLog env n (arg_ptr a) (arg_name a st (Thread s)) c cc s)"

definition Log_ovr_id where "Log_ovr_id ovr i = Log_call (ById i) (Some ovr)"
definition Log_ovr_ch where "Log_ovr_ch ovr ch = Log_call (ByPtr ch) (Some ovr)"
definition Log_ovr_id_sid where "Log_ovr_id_sid ovr i sid = Log_call_sid (ById i) sid (Some ovr)"
definition Log_ovr_ch_sid where "Log_ovr_ch_sid ovr ch sid = Log_call_sid (ByPtr ch) sid (Some ovr)"
definition Log_id where "Log_id i = Log_call (ById i) None"
definition Log_ch where "Log_ch ch = Log_call (ByPtr ch) None"
definition Log_id_sid where "Log_id_sid i sid = Log_call_sid (ById i) sid None"
definition Log_ch_sid where "Log_ch_sid ch sid = Log_call_sid (ByPtr ch) sid None"
definition Log_id_ovr where "Log_id_ovr i ovr = Log_call (ById i) (Some ovr)"
definition Log_ch_ovr where "Log_ch_ovr ch ovr = Log_call (ByPtr ch) (Some ovr)"
definition Log_ovr where "Log_ovr ovr = Log_call NoChannel (Some ovr)"
definition Log_ovr_sid where "Log_ovr_sid ovr sid = Log_call_sid NoChannel sid (Some ovr)"
definition Log_plain where "Log_plain = Log_call NoChannel None"


section \<open>A log call returns\<close>

lemma autodelete_loop_ok: "display_ok K st l \<Longrightarrow> display_ok K st (autodelete_loop force l)"
proof (induction force l rule: autodelete_loop.induct)
  case (1 force l)
  show ?case
  proof (cases "find (\<lambda>ch. force \<or> IsIdle (Chan l ch)) (ToDelete l)")
    case None
    with "1.prems" show ?thesis by (subst autodelete_loop.simps) simp
  next
    case (Some ch)
    let ?l = "upd_chan ch (\<lambda>c. RemoveLink (RemoveBackends c))
        (l\<lparr>ToDelete := remove1 ch (ToDelete l), NumDeleting := NumDeleting l - 1\<rparr>)"
    have "display_ok K st ?l"
      using "1.prems"
      by (auto simp: display_ok_def upd_chan_def leaf_def RemoveLink_def RemoveBackends_def UpdateActive_def)
    with "1.IH" [OF Some] Some show ?thesis by (subst autodelete_loop.simps) simp
  qed
qed

lemma DoAutodelete_ok: "display_ok K st l \<Longrightarrow> display_ok K st (DoAutodelete force now l)"
  using autodelete_loop_ok [of K st "l\<lparr>LastDoAutodelete := now\<rparr>" force]
  by (simp add: DoAutodelete_def display_ok_def)

lemma target_channel_ok: "display_ok K st l \<Longrightarrow> display_ok K st (fst (target_channel ptr name l))"
  using GetChannel_ok [of K st l name] by (simp add: target_channel_def split: option.split)

lemma display_error_total:
  assumes "total_at (Display n) K st" and "display_ok K st (Log s)"
  shows "\<exists>s' c' ev. display_error n ch c s = Some (s', c', ev) \<and> display_ok K st (Log s')"
proof -
  have d: "\<exists>l c' ev. Display n che c1 (Log s) = Some (l, c', ev) \<and> display_ok K st l" for che c1
    using assms unfolding total_at_def by blast
  show ?thesis
  proof (cases "ErrorChannel s")
    case None
    with assms(2) show ?thesis by (simp add: display_error_def)
  next
    case (Some e)
    show ?thesis
    proof (cases "GetExistingChannel e (Log s)")
      case None
      with assms(2) Some show ?thesis by (simp add: display_error_def)
    next
      case (Some che)
      from d [of che "c\<lparr>Ovr := Some (error_override (Ovr c))\<rparr>"] obtain l c' ev where
        "Display n che (c\<lparr>Ovr := Some (error_override (Ovr c))\<rparr>) (Log s) = Some (l, c', ev)" "display_ok K st l"
        by blast
      with \<open>ErrorChannel s = Some e\<close> Some assms(2) show ?thesis by (simp add: display_error_def)
    qed
  qed
qed

lemma show_record_total:
  assumes "total_at (Display n) K st" and "display_ok K st (Log s)"
  shows "\<exists>s' c' cc' ev. show_record env n ch f c cc s = Some (s', c', cc', ev) \<and> display_ok K st (Log s')"
proof -
  obtain cc1 sh where col: "collapse_text (CollapseTime env) (format_text f) cc = (cc1, sh)"
    by (cases "collapse_text (CollapseTime env) (format_text f) cc")
  obtain l c1 ev where d: "Display n ch (c\<lparr>CtxText := format_text f\<rparr>) (Log s) = Some (l, c1, ev)"
    and ok: "display_ok K st l"
    using assms unfolding total_at_def by blast
  from ok have "display_ok K st (Log (s\<lparr>Log := l\<rparr>))" by simp
  from display_error_total [OF assms(1) this, of ch c1] obtain s' c' ev' where
    "display_error n ch c1 (s\<lparr>Log := l\<rparr>) = Some (s', c', ev')" "display_ok K st (Log s')" by blast
  with col d assms(2) show ?thesis by (simp add: show_record_def Let_def)
qed

lemma DoLog_total:
  assumes "total_at (Display n) K st" and "display_ok K st (Log s)"
  shows "\<exists>s' c' cc' ev. DoLog env n ptr name c cc s = Some (s', c', cc', ev) \<and> display_ok K st (Log s')"
proof -
  let ?s = "s\<lparr>Log := DoAutodelete False (AutodeleteTime env) (Log s)\<rparr>"
  have ok: "display_ok K st (Log ?s)" using DoAutodelete_ok [OF assms(2)] by simp
  obtain c1 pass where lim: "limit_override (Ticks env) c = (c1, pass)"
    by (cases "limit_override (Ticks env) c")
  obtain l t where t: "target_channel ptr name (Log ?s) = (l, t)" by (cases "target_channel ptr name (Log ?s)")
  have okl: "display_ok K st (Log (?s\<lparr>Log := l\<rparr>))"
    using target_channel_ok [OF ok, of ptr name] t by simp
  have shw: "\<exists>s' c' cc' ev. show_record env n ch f c1 cc (?s\<lparr>Log := l\<rparr>) = Some (s', c', cc', ev) \<and>
      display_ok K st (Log s')" for ch f
    by (rule show_record_total [OF assms(1) okl])
  show ?thesis
    unfolding DoLog_def Let_def lim t prod.case
    using ok okl shw by (auto split: option.split)
qed

lemma Display_le: "n \<le> m \<Longrightarrow> Display n ch c l = Some r \<Longrightarrow> Display m ch c l = Some r"
  by (rule Display_mono)

lemma display_error_mono:
  "n \<le> m \<Longrightarrow> display_error n ch c s = Some r \<Longrightarrow> display_error m ch c s = Some r"
  by (auto simp: display_error_def Display_le split: if_splits option.splits)

lemma show_record_mono:
  "n \<le> m \<Longrightarrow> show_record env n ch f c cc s = Some r \<Longrightarrow> show_record env m ch f c cc s = Some r"
  by (auto simp: show_record_def Let_def Display_le display_error_mono case_prod_beta
      split: if_splits option.splits)

lemma DoLog_mono:
  "n \<le> m \<Longrightarrow> DoLog env n ptr name c cc s = Some r \<Longrightarrow> DoLog env m ptr name c cc s = Some r"
  by (auto simp: DoLog_def Let_def case_prod_beta show_record_mono split: if_splits option.splits)


section \<open>A log call keeps the logger well-formed\<close>

text \<open>What a call does to the logger by itself: count an access, use the guard, create a channel.\<close>

definition closed :: "(logger \<Rightarrow> bool) \<Rightarrow> bool" where
  "closed P \<longleftrightarrow>
     (\<forall>ch l. P l \<longrightarrow> P (upd_chan ch count_access l)) \<and> (\<forall>g l. P l \<longrightarrow> P (l\<lparr>Guard := g\<rparr>)) \<and>
     (\<forall>name l. P l \<longrightarrow> P (fst (GetChannel name l)))"

definition keeps :: "(logger \<Rightarrow> bool) \<Rightarrow> display_fun \<Rightarrow> bool" where
  "keeps P d \<longleftrightarrow> (\<forall>ch c l l' c' ev. d ch c l = Some (l', c', ev) \<longrightarrow> P l \<longrightarrow> P l')"

lemma keepsD: "keeps P d \<Longrightarrow> d ch c l = Some (l', c', ev) \<Longrightarrow> P l \<Longrightarrow> P l'"
  unfolding keeps_def by blast

lemma run_calls_keeps: "keeps P d \<Longrightarrow> run_calls d cs l = Some (l', ev) \<Longrightarrow> P l \<Longrightarrow> P l'"
proof (induction cs arbitrary: l ev)
  case (Cons x cs)
  obtain ch c where x: "x = (ch, c)" by (cases x)
  with Cons.prems(2) obtain l1 c1 ev1 ev2 where
    "d ch c l = Some (l1, c1, ev1)" "run_calls d cs l1 = Some (l', ev2)"
    by (auto split: option.splits)
  with Cons.IH [OF Cons.prems(1)] keepsD [OF Cons.prems(1)] Cons.prems(3) show ?case by blast
qed simp

lemma show_backends_keeps: "keeps P d \<Longrightarrow> show_backends d ch ps c l = Some (l', ev) \<Longrightarrow> P l \<Longrightarrow> P l'"
proof (induction ps arbitrary: l ev)
  case (Cons b ps)
  show ?case
  proof (cases "Freezed b")
    case True
    with Cons show ?thesis by simp
  next
    case False
    with Cons.prems(2) obtain l1 ev1 ev2 where
      "run_calls d (Calls b) l = Some (l1, ev1)" "show_backends d ch ps c l1 = Some (l', ev2)"
      by (auto split: option.splits)
    with Cons.IH [OF Cons.prems(1)] run_calls_keeps [OF Cons.prems(1)] Cons.prems(3) show ?thesis by blast
  qed
qed simp

lemma display_link_keeps:
  assumes "keeps P d" and "closed P" and "display_link d ch flags c l = Some (l', c', ev)" and "P l"
  shows "P l'"
proof -
  have "P (fst (GetChannel name l))" for name using assms(2,4) by (simp add: closed_def)
  then have "P l1" if "GetChannel name l = (l1, t)" for name l1 t using that by (metis fst_conv)
  with assms(1,3,4) show ?thesis
    by (auto simp: display_link_def dest: keepsD split: if_splits option.splits prod.splits)
qed

lemma display_body_keeps:
  assumes "keeps P d" and "closed P" and "display_body d ch c l = Some (l', c', ev)" and "P l"
  shows "P l'"
  using assms(3,4) display_link_keeps [OF assms(1,2)] show_backends_keeps [OF assms(1)]
  by (auto simp: display_body_def Let_def case_prod_beta split: if_splits option.splits)

lemma display_step_keeps: "keeps P d \<Longrightarrow> closed P \<Longrightarrow> keeps P (display_step d)"
proof -
  assume d: "keeps P d" and P: "closed P"
  have acc: "P l \<Longrightarrow> P (upd_chan ch count_access l)" and gd: "P l \<Longrightarrow> P (l\<lparr>Guard := g\<rparr>)" for ch l g
    using P by (auto simp: closed_def)
  have body: "display_body d ch c l = Some (l', c', ev) \<Longrightarrow> P l \<Longrightarrow> P l'" for ch c l l' c' ev
    by (rule display_body_keeps [OF d P])
  show ?thesis
    unfolding keeps_def
  proof (intro allI impI)
    fix ch c l l' c' ev
    assume r: "display_step d ch c l = Some (l', c', ev)" and "P l"
    then have p1: "P (upd_chan ch count_access l)" by (rule_tac acc)
    then have p2: "P (upd_chan ch count_access l\<lparr>Guard := g\<rparr>)" for g by (rule gd)
    show "P l'"
      using r \<open>P l\<close> p1 p2 gd body [OF _ p2]
      by (auto simp: display_step_def Let_def case_prod_beta split: if_splits option.splits)
  qed
qed

lemma Display_keeps: "closed P \<Longrightarrow> keeps P (Display n)"
proof (induction n)
  case 0
  show ?case by (simp add: keeps_def)
next
  case (Suc n)
  have "Display (Suc n) = display_step (Display n)" by (intro ext) simp
  with display_step_keeps [OF Suc.IH [OF Suc.prems] Suc.prems] show ?case by simp
qed


definition channels_ok :: "logger \<Rightarrow> bool" where
  "channels_ok l \<longleftrightarrow> subsys_wf (Subsys l) \<and> (\<forall>ch. channel_ok (Chan l ch))"

lemma channel_ok_new [simp]: "channel_ok (new_channel name flags level)"
  by (simp add: channel_ok_def new_channel_def)

lemma closed_channels_ok: "closed channels_ok"
  by (auto simp: closed_def channels_ok_def upd_chan_def count_access_def channel_ok_def [of "count_access c" for c]
      GetChannel_def CreateChannelInternal_def Let_def split: option.split)
    (auto simp: channel_ok_def)

lemma autodelete_loop_channels: "channels_ok l \<Longrightarrow> channels_ok (autodelete_loop force l)"
proof (induction force l rule: autodelete_loop.induct)
  case (1 force l)
  show ?case
  proof (cases "find (\<lambda>ch. force \<or> IsIdle (Chan l ch)) (ToDelete l)")
    case None
    with "1.prems" show ?thesis by (subst autodelete_loop.simps) simp
  next
    case (Some ch)
    have "channel_ok c \<Longrightarrow> channel_ok (RemoveLink (RemoveBackends c))" for c
      using chan_exec_ok [of "chan_exec OpRemoveBackends c" OpRemoveLink] chan_exec_ok [of c OpRemoveBackends] by simp
    then have "channels_ok (upd_chan ch (\<lambda>c. RemoveLink (RemoveBackends c))
        (l\<lparr>ToDelete := remove1 ch (ToDelete l), NumDeleting := NumDeleting l - 1\<rparr>))"
      using "1.prems" by (auto simp: channels_ok_def upd_chan_def)
    with "1.IH" [OF Some] Some show ?thesis by (subst autodelete_loop.simps) simp
  qed
qed

lemma DoAutodelete_channels: "channels_ok l \<Longrightarrow> channels_ok (DoAutodelete force now l)"
  using autodelete_loop_channels [of "l\<lparr>LastDoAutodelete := now\<rparr>" force]
  by (simp add: DoAutodelete_def channels_ok_def)

lemma display_error_keeps:
  "closed P \<Longrightarrow> display_error n ch c s = Some (s', c', ev) \<Longrightarrow> P (Log s) \<Longrightarrow> P (Log s')"
  using keepsD [OF Display_keeps] by (auto simp: display_error_def split: if_splits option.splits)

lemma show_record_keeps:
  assumes "closed P" and "show_record env n ch f c cc s = Some (s', c', cc', ev)" and "P (Log s)"
  shows "P (Log s')"
  using assms(2,3) keepsD [OF Display_keeps [OF assms(1)]] display_error_keeps [OF assms(1)]
  by (fastforce simp: show_record_def Let_def case_prod_beta split: if_splits option.splits)

lemma DoLog_channels:
  assumes "DoLog env n ptr name c cc s = Some (s', c', cc', ev)" and "channels_ok (Log s)"
  shows "channels_ok (Log s')"
proof -
  let ?l = "DoAutodelete False (AutodeleteTime env) (Log s)"
  have a: "channels_ok ?l" by (rule DoAutodelete_channels [OF assms(2)])
  then have t: "channels_ok (fst (target_channel ptr name ?l))"
    using closed_channels_ok by (simp add: target_channel_def closed_def split: option.split)
  have sr: "show_record env n ch f c1 cc (s\<lparr>Log := l\<rparr>) = Some (s', c', cc', ev) \<Longrightarrow> channels_ok l \<Longrightarrow>
      channels_ok (Log s')" for ch f c1 l
    by (erule show_record_keeps [OF closed_channels_ok]) simp
  from assms(1) a t show ?thesis
    by (auto dest!: sr simp: DoLog_def Let_def case_prod_beta split: if_splits option.splits prod.splits)
qed

definition log_wf :: "log_state \<Rightarrow> bool" where
  "log_wf s \<longleftrightarrow> logger_ok (Log s) \<and> channels_ok (Log s)"

lemma DoLog_wf:
  assumes "log_wf s"
  shows "\<exists>s' c' cc' ev. (\<forall>n \<ge> NextChan (Log s) + 2. DoLog env n ptr name c cc s = Some (s', c', cc', ev)) \<and>
    log_wf s' \<and> guard_stack (Guard (Log s')) = guard_stack (Guard (Log s))"
proof -
  let ?K = "NextChan (Log s)" and ?st = "guard_stack (Guard (Log s))"
  have "total_at (Display (?K + 2)) ?K ?st"
    by (rule Display_total) (use free_channels_le [of ?K ?st] in simp)
  moreover have "display_ok ?K ?st (Log s)" using assms by (simp add: log_wf_def logger_ok_def display_ok_def)
  ultimately obtain s' c' cc' ev where
    r: "DoLog env (?K + 2) ptr name c cc s = Some (s', c', cc', ev)" and ok: "display_ok ?K ?st (Log s')"
    using DoLog_total by blast
  have "channels_ok (Log s')" using DoLog_channels [OF r] assms by (simp add: log_wf_def)
  with DoLog_mono [OF _ r] ok show ?thesis by (auto simp: log_wf_def logger_ok_def display_ok_def)
qed

text \<open>C3. Every log call returns and keeps the logger well-formed. From a well-formed logger, with any
  channel argument, subsystem, override and text and whatever the backends log themselves, a call
  yields the same result for every fuel from the number of channels plus two on; afterwards the
  subsystem tables are sorted, every channel's flags agree with its links and backends, unused
  channels are empty, and the thread's guard stack is as before.\<close>

theorem log_call_wellformed:
  assumes "log_wf s"
  shows "(\<exists>s' c' cc' ev. (\<forall>n \<ge> NextChan (Log s) + 2. Log_call a ovr env n st cc s = Some (s', c', cc', ev)) \<and>
      log_wf s' \<and> guard_stack (Guard (Log s')) = guard_stack (Guard (Log s))) \<and>
    (\<exists>s' c' cc' ev. (\<forall>n \<ge> NextChan (Log s) + 2. Log_call_sid a sid ovr env n st cc s = Some (s', c', cc', ev)) \<and>
      log_wf s' \<and> guard_stack (Guard (Log s')) = guard_stack (Guard (Log s)))"
proof -
  let ?c = "site_ctx st (ApplyThreadSubsystem (Thread s) (SiteSubsystem st)) (call_override ovr (Thread s))"
  let ?c' = "site_ctx st sid (call_override ovr (Thread s))"
  have choose: "\<exists>s' c' cc' ev. (\<forall>n \<ge> NextChan (Log s) + 2. (if b then Some (s, c, cc, [])
        else DoLog env n (arg_ptr a) (arg_name a st (Thread s)) c cc s) = Some (s', c', cc', ev)) \<and>
      log_wf s' \<and> guard_stack (Guard (Log s')) = guard_stack (Guard (Log s))" for b c
  proof (cases b)
    case True
    with assms show ?thesis by (intro exI [of _ s] exI [of _ c] exI [of _ cc] exI [of _ "[]"]) simp
  next
    case False
    with DoLog_wf [OF assms, of env "arg_ptr a" "arg_name a st (Thread s)" c cc] show ?thesis by simp
  qed
  from choose [of "is_shutdown (Log s) \<or> early_reject a st s" ?c] choose [of "is_shutdown (Log s)" ?c']
  show ?thesis unfolding Log_call_def Log_call_sid_def Let_def by blast
qed

definition demo_log :: "string option \<Rightarrow> log_state" where
  "demo_log e = \<lparr>Log = demo_logger, ErrorChannel = e, NextBackendId = 20, Thread = thread_init,
     HasFatalHandler = False, FatalHandling = False\<rparr>"

definition demo_env :: log_env where
  "demo_env = \<lparr>AutodeleteTime = 1000, Ticks = 1000, CollapseTime = 1000, FormatArg = Some (TextArg ''boom''),
     WantOutput = False\<rparr>"

definition demo_site :: site where
  "demo_site = Context_new LEVEL_ERROR [] 0 (Some ''d'') 0"

lemma demo_log_wf: "log_wf (demo_log e)"
proof -
  have "channel_ok (Chan demo_logger ch)" for ch
    by (simp add: demo_defs channel_ok_def Let_def)
  then show ?thesis
    using demo_ok(1) subsys_init_wf by (simp add: log_wf_def demo_log_def channels_ok_def demo_logger_def)
qed

theorem log_call_wellformed_witness:
  "\<exists>s' c' cc' ev. Log_call (ById ''d'') None demo_env 4 demo_site None (demo_log None) = Some (s', c', cc', ev) \<and> log_wf s'"
proof -
  have "NextChan (Log (demo_log None)) + 2 \<le> 4" by (simp add: demo_log_def demo_logger_def)
  with log_call_wellformed [OF demo_log_wf, of None "ById ''d''" None demo_env demo_site None] show ?thesis by blast
qed

end
