(* ===== verification/Error_Routing.thy ===== *)
theory Error_Routing
  imports Log_Dispatch
begin

text \<open>
  Records of level \<open>LEVEL_ERROR\<close> and above reach the error channel: the composed log call of
  \<open>Log_Dispatch\<close> with what the error channel needs for it written out.
\<close>

section \<open>Display filters that change no record\<close>

text \<open>Only a display filter can change a record on its way; one that hides records or lets them pass does not.\<close>

definition pure_filters :: "logger \<Rightarrow> bool" where
  "pure_filters l \<longleftrightarrow> (\<forall>ch f c. DisplayFilter (Chan l ch) = Some f \<longrightarrow> fst (f c) = c)"

definition same_ctx :: "display_fun \<Rightarrow> bool" where
  "same_ctx d \<longleftrightarrow> (\<forall>ch c l l' c' ev. pure_filters l \<longrightarrow> d ch c l = Some (l', c', ev) \<longrightarrow> c' = c)"

lemma closed_pure_filters: "closed pure_filters"
  by (auto simp: closed_def pure_filters_def upd_chan_def count_access_def GetChannel_def CreateChannelInternal_def
      new_channel_def Let_def split: option.split)

lemma GetChannel_filters: "pure_filters l \<Longrightarrow> GetChannel name l = (l', t) \<Longrightarrow> pure_filters l'"
  using closed_pure_filters unfolding closed_def by (metis fst_conv)

lemma display_link_ctx:
  assumes "same_ctx d" and "pure_filters l" and "display_link d ch flags c l = Some (l', c', ev)"
  shows "c' = c"
proof -
  have same: "d to c l1 = Some (l2, c2, ev2) \<Longrightarrow> pure_filters l1 \<Longrightarrow> c2 = c" for to l1 l2 c2 ev2
    using assms(1) unfolding same_ctx_def by blast
  show ?thesis
    using assms(2,3) GetChannel_filters [OF assms(2)]
    by (auto simp: display_link_def dest: same split: if_splits option.splits prod.splits)
qed

lemma apply_filter_ctx: "pure_filters l \<Longrightarrow> fst (apply_filter l ch c) = c"
  by (simp add: apply_filter_def pure_filters_def split: option.split)

lemma Display_ctx: "same_ctx (Display n)"
proof (induction n)
  case 0
  show ?case by (simp add: same_ctx_def)
next
  case (Suc n)
  have body: "pure_filters l \<Longrightarrow> display_body (Display n) ch c l = Some (l', c', ev) \<Longrightarrow> c' = c" for ch c l l' c' ev
    using display_link_ctx [OF Suc.IH] apply_filter_ctx [of l ch c]
    by (auto simp: display_body_def case_prod_beta split: if_splits option.splits)
  have upd: "pure_filters l \<Longrightarrow> pure_filters (upd_chan ch count_access l\<lparr>Guard := g\<rparr>)" for l ch g
    using closed_pure_filters by (simp add: closed_def)
  show ?case
    unfolding same_ctx_def
  proof (intro allI impI)
    fix ch c l l' c' ev
    assume "pure_filters l" and "Display (Suc n) ch c l = Some (l', c', ev)"
    then show "c' = c"
      using body [OF upd]
      by (auto simp: display_step_def Let_def case_prod_beta split: if_splits option.splits)
  qed
qed

section \<open>The error channel\<close>

text \<open>
  The error channel \<open>che\<close>, named \<open>e\<close>, is set up for a record of level \<open>lev\<close> and subsystem \<open>k\<close>: registered,
  enabled, without a display filter, its level or the one of the subsystem low enough, with the backend
  \<open>b\<close>; and no filter of any channel changes records. Display preserves this.
\<close>

definition level_in_force :: "subsys_state \<Rightarrow> u64 \<Rightarrow> channel \<Rightarrow> level" where
  "level_in_force sub k c = (case GetSubsystemLevel k sub of Some l \<Rightarrow> l | None \<Rightarrow> LevelFilter c)"

lemma level_in_force_count [simp]: "level_in_force sub k (c\<lparr>AccessCount := n\<rparr>) = level_in_force sub k c"
  by (cases c) (simp add: level_in_force_def split: option.split)

lemma effective_level_in_force:
  "effective_level l ch c = level_in_force (Subsys l) (CtxSubsystem c) (Chan l ch)"
  by (simp add: effective_level_def level_in_force_def)

definition error_ready :: "string \<Rightarrow> nat \<Rightarrow> backend \<Rightarrow> subsys_state \<Rightarrow> u64 \<Rightarrow> level \<Rightarrow> logger \<Rightarrow> bool" where
  "error_ready e che b sub k lev l \<longleftrightarrow>
     GetExistingChannel e l = Some che \<and> che < NextChan l \<and> Enabled (Chan l che) \<and> DisplayFilter (Chan l che) = None \<and>
     level_in_force sub k (Chan l che) \<le> lev \<and> b \<in> set (Backends (Chan l che)) \<and> Subsys l = sub \<and> pure_filters l"

lemma closed_error_ready: "closed (error_ready e che b sub k lev)"
proof -
  have "error_ready e che b sub k lev l \<Longrightarrow> error_ready e che b sub k lev (fst (GetChannel name l))" for name l
    using GetChannel_filters [of l name "fst (GetChannel name l)" "snd (GetChannel name l)"]
    by (auto simp: error_ready_def GetChannel_def [of name] CreateChannelInternal_def
        GetExistingChannel_def new_channel_def Let_def split: option.split if_splits)
  moreover have "pure_filters l \<Longrightarrow> pure_filters (upd_chan ch count_access l) \<and> pure_filters (l\<lparr>Guard := g\<rparr>)" for l ch g
    using closed_pure_filters by (simp add: closed_def)
  ultimately show ?thesis
    by (auto simp: closed_def error_ready_def upd_chan_def count_access_def GetExistingChannel_def)
qed

lemma shown_on_backend:
  assumes "show_backends d ch ps c l = Some (l', ev)" and "b \<in> set ps" and "\<not> Freezed b"
  shows "Shown ch (BackendId b) c \<in> set ev"
  using assms
proof (induction ps arbitrary: l ev)
  case (Cons p ps)
  show ?case
  proof (cases "Freezed p")
    case True
    with Cons show ?thesis by auto
  next
    case False
    with Cons.prems(1) obtain l1 ev1 ev2 where
      r: "show_backends d ch ps c l1 = Some (l', ev2)" "ev = Shown ch (BackendId p) c # ev1 @ ev2"
      by (auto split: option.splits)
    with Cons.IH [OF r(1)] Cons.prems(2,3) show ?thesis by auto
  qed
qed simp

lemma Display_shows:
  assumes "Display n che c l = Some (l', c', ev)" and "error_ready e che b sub k lev l" and "\<not> Freezed b"
    and "ErrorLevel c = lev" and "\<not> is_shutdown l" and "guard_ok (Guard l)" and "che \<notin> set (guard_stack (Guard l))"
    and "CtxSubsystem c = k"
  shows "Shown che (BackendId b) c \<in> set ev"
proof -
  obtain m where n: "n = Suc m" using assms(1) by (cases n) auto
  let ?l = "upd_chan che count_access l"
  let ?g = "guard_enter che (Guard ?l)"
  let ?l2 = "?l\<lparr>Guard := fst ?g\<rparr>"
  have act: "snd ?g" using display_guard.enter_active [OF assms(6), of che] assms(7) by (simp add: upd_chan_def)
  have ready: "error_ready e che b sub k lev ?l2"
    using assms(2) closed_error_ready by (auto simp: closed_def)
  then have en: "Enabled (Chan ?l che)" by (simp add: error_ready_def)
  have body: "\<exists>l3 c3 ev3. display_body (Display m) che c ?l2 = Some (l3, c3, ev3) \<and> ev = ev3"
    using assms(1,5) en act by (auto simp: n display_step_def Let_def case_prod_beta split: option.splits)
  have filt: "apply_filter ?l2 che c = (c, True)" and lvl: "\<not> ErrorLevel c < effective_level ?l2 che c"
    using ready assms(4,8) by (auto simp: apply_filter_def error_ready_def effective_level_in_force)
  obtain l4 c4 ev4 where link: "display_link (Display m) che (effective_flags ?l2 che c) c ?l2 = Some (l4, c4, ev4)"
    using body filt lvl by (auto simp: display_body_def split: option.splits)
  have "c4 = c" by (rule display_link_ctx [OF Display_ctx _ link]) (use ready in \<open>simp add: error_ready_def\<close>)
  moreover have "error_ready e che b sub k lev l4"
    by (rule display_link_keeps [OF Display_keeps [OF closed_error_ready] closed_error_ready link ready])
  moreover obtain l5 ev5 where shw: "show_backends (Display m) che (Backends (Chan l4 che)) c4 l4 = Some (l5, ev5)"
    and "set ev5 \<subseteq> set ev"
    using body filt lvl link by (auto simp: display_body_def split: option.splits)
  ultimately show ?thesis
    using shown_on_backend [OF shw, of b] assms(3) by (auto simp: error_ready_def)
qed


lemma show_record_error:
  assumes "total_at (Display n) K st" and "display_ok K st (Log s)" and "error_ready e che b sub k lev (Log s)"
    and "che \<notin> set st" and "\<not> ShutdownCalled sub" and "\<not> Freezed b" and "LEVEL_ERROR \<le> lev" and "ErrorLevel c = lev"
    and "CtxSubsystem c = k" and "ErrorChannel s = Some e"
    and "ch < NextChan (Log s)" and "ChanName (Chan (Log s) ch) \<noteq> e"
  shows "\<exists>s' c' ev. show_record env n ch f c None s = Some (s', c', None, ev) \<and>
    Out (Shown che (BackendId b) (c\<lparr>CtxText := format_text f, Ovr := Some (error_override (Ovr c))\<rparr>)) \<in> set ev"
proof -
  let ?c = "c\<lparr>CtxText := format_text f\<rparr>" and ?o = "Some (error_override (Ovr c))"
  let ?P = "\<lambda>l. ch < NextChan l \<and> ChanName (Chan l ch) = ChanName (Chan (Log s) ch)"
  obtain l c1 ev where d: "Display n ch ?c (Log s) = Some (l, c1, ev)" and ok: "display_ok K st l"
    using assms(1,2) unfolding total_at_def by blast
  have c1: "c1 = ?c"
    using Display_ctx [of n] assms(3) d unfolding same_ctx_def error_ready_def by blast
  have ready: "error_ready e che b sub k lev l"
    by (rule keepsD [OF Display_keeps [OF closed_error_ready] d assms(3)])
  have "closed ?P"
    by (auto simp: closed_def upd_chan_def count_access_def GetChannel_def CreateChannelInternal_def Let_def split: option.split)
  from keepsD [OF Display_keeps [OF this] d] assms(11) have name: "ChanName (Chan l ch) = ChanName (Chan (Log s) ch)"
    by simp
  obtain l2 c2 ev2 where d2: "Display n che (?c\<lparr>Ovr := ?o\<rparr>) l = Some (l2, c2, ev2)"
    using assms(1) ok unfolding total_at_def by blast
  have "Shown che (BackendId b) (?c\<lparr>Ovr := ?o\<rparr>) \<in> set ev2"
    using Display_shows [OF d2 ready assms(6)] assms(4,5,8,9) ok ready
    by (simp add: display_ok_def error_ready_def is_shutdown_def)
  moreover have "GetExistingChannel e l = Some che" using ready by (simp add: error_ready_def)
  ultimately show ?thesis
    using d d2 c1 name assms(7,8,10,12)
    by (auto simp: show_record_def collapse_text_def display_error_def Let_def)
qed

lemma target_error_ready:
  "error_ready e che b sub k lev l \<Longrightarrow> error_ready e che b sub k lev (fst (target_channel ptr name l))"
  using closed_error_ready by (simp add: target_channel_def closed_def split: option.split)



end
