(* ===== verification/Streams.thy ===== *)
theory Streams
  imports Log_Dispatch
begin

text \<open>
  The stream form of a log call: the overloads of \<open>Logger::Log\<close> that return a \<open>Stream\<close>
  (\<open>Logger.cpp\<close>) and the stream's destructor, which logs the collected text (\<open>Stream.cpp\<close>). The
  lemmas compare it with the format form of \<open>Log_Dispatch\<close>.
\<close>

text \<open>What \<open>InitStreamContext\<close> copies of the context, with the stream's own override.\<close>

record stream =
  StreamLevel :: level
  StreamChannel :: string
  StreamCh :: "nat option"
  StreamSubsystem :: u64
  StreamOvr :: override

definition Stream_call :: "channel_arg \<Rightarrow> override option \<Rightarrow> site \<Rightarrow> thread_state \<Rightarrow> stream" where
  "Stream_call a ovr st t =
     \<lparr>StreamLevel = SiteLevel st, StreamChannel = arg_name a st t, StreamCh = arg_ptr a,
      StreamSubsystem = ApplyThreadSubsystem t (SiteSubsystem st), StreamOvr = call_override ovr t\<rparr>"

definition Stream_call_sid :: "channel_arg \<Rightarrow> u64 \<Rightarrow> override option \<Rightarrow> site \<Rightarrow> thread_state \<Rightarrow> stream" where
  "Stream_call_sid a sid ovr st t =
     \<lparr>StreamLevel = SiteLevel st, StreamChannel = arg_name a st t, StreamCh = arg_ptr a,
      StreamSubsystem = sid, StreamOvr = call_override ovr t\<rparr>"

definition Stream_plain where "Stream_plain = Stream_call NoChannel None"
definition Stream_ovr where "Stream_ovr ovr = Stream_call NoChannel (Some ovr)"
definition Stream_sid_ovr where "Stream_sid_ovr sid ovr = Stream_call_sid NoChannel sid (Some ovr)"
definition Stream_id where "Stream_id i = Stream_call (ById i) None"
definition Stream_ch where "Stream_ch ch = Stream_call (ByPtr ch) None"
definition Stream_id_sid where "Stream_id_sid i sid = Stream_call_sid (ById i) sid None"
definition Stream_ch_sid where "Stream_ch_sid ch sid = Stream_call_sid (ByPtr ch) sid None"
definition Stream_id_ovr where "Stream_id_ovr i ovr = Stream_call (ById i) (Some ovr)"
definition Stream_ch_ovr where "Stream_ch_ovr ch ovr = Stream_call (ByPtr ch) (Some ovr)"
definition Stream_id_sid_ovr where "Stream_id_sid_ovr i sid ovr = Stream_call_sid (ById i) sid (Some ovr)"
definition Stream_ch_sid_ovr where "Stream_ch_sid_ovr ch sid ovr = Stream_call_sid (ByPtr ch) sid (Some ovr)"

text \<open>
  The destructor: the text, unless empty, is logged through the overload that takes the channel's
  name and the override; the channel pointer is still in the context.
\<close>

definition Stream_destroy :: "log_env \<Rightarrow> nat \<Rightarrow> stream \<Rightarrow> string \<Rightarrow> log_state \<Rightarrow> log_result" where
  "Stream_destroy env n x data s =
     (let c = \<lparr>ErrorLevel = StreamLevel x,
               CtxSubsystem = ApplyThreadSubsystem (Thread s) (StreamSubsystem x),
               Ovr = Some (StreamOvr x), CtxText = []\<rparr>
      in if data = [] \<or> is_shutdown (Log s) then Some (s, c, None, [])
         else DoLog (env\<lparr>FormatArg := Some (TextArg data)\<rparr>) n (StreamCh x) (StreamChannel x) c None s)"

lemma ApplyThreadSubsystem_twice:
  "ApplyThreadSubsystem t (ApplyThreadSubsystem t sid) = ApplyThreadSubsystem t sid"
  by (simp add: ApplyThreadSubsystem_def)

text \<open>A stream logs what the format form with \<open>"%s"\<close> does, as long as that does not stop at its early test.\<close>

lemma stream_is_format:
  assumes "data \<noteq> []" and "\<not> early_reject a st s"
  shows "Stream_destroy env n (Stream_call a ovr st (Thread s)) data s =
    Log_call a ovr (env\<lparr>FormatArg := Some (TextArg data)\<rparr>) n st None s"
  using assms
  by (simp add: Stream_destroy_def Stream_call_def Log_call_def site_ctx_def ApplyThreadSubsystem_twice Let_def)

text \<open>
  With an explicit subsystem the forms differ: the destructor applies the thread's subsystem over it,
  so the format form keeps the subsystem of the call and the stream logs under that of the thread.
\<close>

lemma stream_sid_is_format:
  assumes "data \<noteq> []"
  shows "Stream_destroy env n (Stream_call_sid a sid ovr st (Thread s)) data s =
    Log_call_sid a (ApplyThreadSubsystem (Thread s) sid) ovr (env\<lparr>FormatArg := Some (TextArg data)\<rparr>) n st None s"
  using assms by (simp add: Stream_destroy_def Stream_call_sid_def Log_call_sid_def site_ctx_def Let_def)

text \<open>A record passed with any subsystem on a thread whose own subsystem is blocked is lost.\<close>

lemma stream_sid_blocked:
  assumes "DoAutodelete False (AutodeleteTime env) (Log s) = Log s" and "data \<noteq> []"
    and "ApplyThreadSubsystem (Thread s) sid = two" and "\<not> subsystem_admitted (Subsys (Log s)) two"
  shows "\<exists>c cc. Stream_destroy env n (Stream_call_sid a sid ovr st (Thread s)) data s = Some (s, c, cc, [])"
proof -
  obtain c ok where "limit_override (Ticks env) (site_ctx st two (call_override ovr (Thread s))) = (c, ok)"
    by (cases "limit_override (Ticks env) (site_ctx st two (call_override ovr (Thread s)))")
  moreover from this have "CtxSubsystem c = two"
    by (auto simp: limit_override_def site_ctx_def split: prod.splits)
  ultimately show ?thesis
    using assms by (auto simp: stream_sid_is_format Log_call_sid_def DoLog_def Let_def)
qed

end
