(* ===== verification/Fast_Format.thy ===== *)
theory Fast_Format
  imports Prelude_Logme
begin

text \<open>
  The fast path of formatting (\<open>FastFormat.cpp\<close>): a format with at most two of \<open>%s %d %i %u %p\<close> is
  analysed once, the analysis is kept per call site and per thread, and the text is put together from
  it. A \<open>const char*\<close> is an address; \<open>mem\<close> gives the C string there. Reading past a string or taking an
  argument of another type is undefined in C: the outer \<open>None\<close>. The counters behind a build option are
  left out. Lemmas: the analysis splits the format into its parts, the fast path prints what \<open>printf\<close>
  prints, through the caches too as long as the strings do not change, and the size it proposes
  is enough.
\<close>

section \<open>Entries and caches\<close>

datatype FastFormatKind =
  KIND_NONE | LITERAL | FORMAT_S | FORMAT_D | FORMAT_I | FORMAT_U | FORMAT_P

record fast_format_entry =
  Format :: nat
  Kind1 :: FastFormatKind
  Kind2 :: FastFormatKind
  Part0Len :: nat
  Part1Pos :: nat
  Part1Len :: nat
  Part2Pos :: nat
  Part2Len :: nat
  BufferSizeHint :: nat
  SpecCount :: nat

definition empty_entry :: fast_format_entry where
  "empty_entry = \<lparr>Format = 0, Kind1 = KIND_NONE, Kind2 = KIND_NONE, Part0Len = 0, Part1Pos = 0,
     Part1Len = 0, Part2Pos = 0, Part2Len = 0, BufferSizeHint = 0, SpecCount = 0\<rparr>"

datatype ContextCacheState = EMPTY | READY | DISABLED

record context_cache =
  State :: ContextCacheState
  Ffe :: fast_format_entry

definition ContextCache_new :: context_cache where
  "ContextCache_new = \<lparr>State = EMPTY, Ffe = empty_entry\<rparr>"

definition FAST_FORMAT_CACHE_SIZE :: nat where
  "FAST_FORMAT_CACHE_SIZE = 2"

definition FAST_FORMAT_SCAN_LIMIT :: nat where
  "FAST_FORMAT_SCAN_LIMIT = 48"

record thread_cache =
  FastFormatCache :: "fast_format_entry list"
  FastFormatCachePos :: nat

definition thread_cache_init :: thread_cache where
  "thread_cache_init =
     \<lparr>FastFormatCache = replicate FAST_FORMAT_CACHE_SIZE empty_entry, FastFormatCachePos = 0\<rparr>"

definition StoreFastFormat :: "fast_format_entry \<Rightarrow> thread_cache \<Rightarrow> thread_cache" where
  "StoreFastFormat e t =
     \<lparr>FastFormatCache = (FastFormatCache t)[FastFormatCachePos t := e],
      FastFormatCachePos = (FastFormatCachePos t + 1) mod FAST_FORMAT_CACHE_SIZE\<rparr>"

text \<open>An entry is published to the call site only while its state is \<open>EMPTY\<close>.\<close>

definition publish_entry :: "fast_format_entry \<Rightarrow> context_cache \<Rightarrow> context_cache" where
  "publish_entry e c = (if State c = EMPTY then \<lparr>State = READY, Ffe = e\<rparr> else c)"

definition FindFastFormat ::
  "nat \<Rightarrow> context_cache \<Rightarrow> thread_cache \<Rightarrow> context_cache \<times> fast_format_entry option" where
  "FindFastFormat format c t =
     (if State c = READY \<and> Format (Ffe c) = format then (c, Some (Ffe c))
      else
        let c = (if State c = READY then c\<lparr>State := DISABLED\<rparr> else c) in
        case find (\<lambda>e. Format e = format) (FastFormatCache t) of
          None \<Rightarrow> (c, None)
        | Some e \<Rightarrow> (publish_entry e c, Some e))"

section \<open>Analysis of a format\<close>

text \<open>\<open>(n + 31) & ~31\<close> is the next multiple of 32; lengths are below 48, so that no \<open>uint16_t\<close> is cut.\<close>

definition AlignBufferSizeHint :: "nat \<Rightarrow> nat" where
  "AlignBufferSizeHint n = (let m = (n + (32 - 1)) div 32 * 32 in if m > 0xFFFF then 0xFFFF else m)"

definition GetMaxArgTextSize :: "FastFormatKind \<Rightarrow> nat" where
  "GetMaxArgTextSize kind =
     (case kind of FORMAT_D \<Rightarrow> 11 | FORMAT_I \<Rightarrow> 11 | FORMAT_U \<Rightarrow> 10 | FORMAT_P \<Rightarrow> 2 + 8 * 2 | _ \<Rightarrow> 0)"

definition spec_kind :: "char \<Rightarrow> FastFormatKind option" where
  "spec_kind spec =
     (if spec = CHR ''s'' then Some FORMAT_S else if spec = CHR ''d'' then Some FORMAT_D
      else if spec = CHR ''i'' then Some FORMAT_I else if spec = CHR ''u'' then Some FORMAT_U
      else if spec = CHR ''p'' then Some FORMAT_P else None)"

definition reject_entry :: "fast_format_entry \<Rightarrow> fast_format_entry" where
  "reject_entry e = e\<lparr>SpecCount := 0, Kind1 := KIND_NONE, Kind2 := KIND_NONE\<rparr>"

text \<open>The scan from position \<open>i\<close> on; \<open>False\<close> when it returns from the loop.\<close>

fun scan_format :: "nat \<Rightarrow> string \<Rightarrow> fast_format_entry \<Rightarrow> fast_format_entry \<times> bool" where
  "scan_format i [] e = (e, True)"
| "scan_format i [ch] e = (if ch \<noteq> CHR ''%'' then (e, True) else (reject_entry e, False))"
| "scan_format i (ch # spec # rest) e =
     (if ch \<noteq> CHR ''%'' then scan_format (i + 1) (spec # rest) e
      else case spec_kind spec of
             None \<Rightarrow> (reject_entry e, False)
           | Some kind \<Rightarrow>
               if SpecCount e = 0
               then scan_format (i + 2) rest
                      (e\<lparr>Kind1 := kind, Part0Len := i, Part1Pos := i + 2, SpecCount := 1\<rparr>)
               else if SpecCount e = 1
               then scan_format (i + 2) rest
                      (e\<lparr>Kind2 := kind, Part1Len := i - Part1Pos e, Part2Pos := i + 2, SpecCount := 2\<rparr>)
               else (reject_entry e, False))"

definition size_hint :: "fast_format_entry \<Rightarrow> nat" where
  "size_hint e =
     (let maxArg1 = GetMaxArgTextSize (Kind1 e);
          maxArg2 = (if SpecCount e = 2 then GetMaxArgTextSize (Kind2 e) else 0)
      in if maxArg1 > 0 \<and> (SpecCount e < 2 \<or> maxArg2 > 0)
         then AlignBufferSizeHint (Part0Len e + Part1Len e + Part2Len e + maxArg1 + maxArg2 + 2)
         else BufferSizeHint e)"

definition BuildFastFormat :: "(nat \<Rightarrow> string) \<Rightarrow> nat \<Rightarrow> fast_format_entry" where
  "BuildFastFormat mem format =
     (let e = empty_entry\<lparr>Format := format\<rparr>; formatLen = length (mem format) in
      if format = 0 then e
      else if formatLen \<ge> FAST_FORMAT_SCAN_LIMIT then e
      else case scan_format 0 (mem format) e of
             (e, False) \<Rightarrow> e
           | (e, True) \<Rightarrow>
               if SpecCount e = 0
               then e\<lparr>Kind1 := LITERAL, Part0Len := formatLen,
                      BufferSizeHint := AlignBufferSizeHint (formatLen + 2)\<rparr>
               else
                 let e = (if SpecCount e = 1 then e\<lparr>Part1Len := formatLen - Part1Pos e\<rparr>
                          else e\<lparr>Part2Len := formatLen - Part2Pos e\<rparr>)
                 in e\<lparr>BufferSizeHint := size_hint e\<rparr>)"

section \<open>Putting the text together\<close>

text \<open>The text so far and the room left, which counts the terminator.\<close>

definition CopyBounded :: "string \<Rightarrow> nat \<Rightarrow> string \<times> nat \<Rightarrow> (string \<times> nat) option" where
  "CopyBounded src len d =
     (case d of (dst, left) \<Rightarrow>
        if left \<le> 1 \<or> len = 0 then Some d
        else let n = (if len \<ge> left then left - 1 else len)
             in if n > length src then None else Some (dst @ take n src, left - n))"

definition BoundedStringLen :: "string \<Rightarrow> nat \<Rightarrow> nat" where
  "BoundedStringLen txt limit = min (length txt) limit"

datatype va_arg = ArgText "string option" | ArgWord u32 | ArgPointer u64

definition hex_lower :: "nat \<Rightarrow> char" where
  "hex_lower n = (if n < 10 then digit_char n else char_of (87 + n))"

fun show_hex_lower :: "nat \<Rightarrow> string" where
  "show_hex_lower n =
     (if n < 16 then [hex_lower n] else show_hex_lower (n div 16) @ [hex_lower (n mod 16)])"

declare show_hex_lower.simps [simp del]

text \<open>\<open>va_arg\<close> of the type the kind asks for, and its text; a text argument is a C string.\<close>

definition arg_text :: "FastFormatKind \<Rightarrow> va_arg \<Rightarrow> string option" where
  "arg_text kind a =
     (case (kind, a) of
        (FORMAT_S, ArgText txt) \<Rightarrow> Some (case txt of None \<Rightarrow> ''(null)'' | Some t \<Rightarrow> c_str t)
      | (FORMAT_D, ArgWord w) \<Rightarrow> Some (show_int (sint w))
      | (FORMAT_I, ArgWord w) \<Rightarrow> Some (show_int (sint w))
      | (FORMAT_U, ArgWord w) \<Rightarrow> Some (show_nat (unat w))
      | (FORMAT_P, ArgPointer p) \<Rightarrow> Some (''0x'' @ show_hex_lower (unat p))
      | _ \<Rightarrow> None)"

definition AppendArg ::
  "FastFormatKind \<Rightarrow> va_arg list \<Rightarrow> string \<times> nat \<Rightarrow> ((string \<times> nat) \<times> va_arg list) option" where
  "AppendArg kind args d =
     (case args of
        [] \<Rightarrow> None
      | a # args \<Rightarrow>
          (case arg_text kind a of
             None \<Rightarrow> None
           | Some txt \<Rightarrow>
               (case CopyBounded txt
                       (if kind = FORMAT_S then BoundedStringLen txt (if snd d > 0 then snd d - 1 else 0)
                        else length txt) d of
                  None \<Rightarrow> None
                | Some d \<Rightarrow> Some (d, args))))"

text \<open>\<open>Some None\<close>: the function returned false, nothing was printed.\<close>

definition ExecuteFastFormat ::
  "(nat \<Rightarrow> string) \<Rightarrow> fast_format_entry \<Rightarrow> nat \<Rightarrow> va_arg list \<Rightarrow> string option option" where
  "ExecuteFastFormat mem e bufferSize args =
     (let src = mem (Format e) in
      if bufferSize = 0 then Some None
      else if Kind1 e = KIND_NONE then Some None
      else if Kind1 e = LITERAL
      then map_option (\<lambda>d. Some (fst d)) (CopyBounded src (Part0Len e) ([], bufferSize))
      else
        case CopyBounded src (Part0Len e) ([], bufferSize) of None \<Rightarrow> None | Some d \<Rightarrow>
        (case AppendArg (Kind1 e) args d of None \<Rightarrow> None | Some (d, args) \<Rightarrow>
          if SpecCount e = 1
          then map_option (\<lambda>d. Some (fst d)) (CopyBounded (drop (Part1Pos e) src) (Part1Len e) d)
          else if SpecCount e \<noteq> 2 then Some None
          else
            (case CopyBounded (drop (Part1Pos e) src) (Part1Len e) d of None \<Rightarrow> None | Some d \<Rightarrow>
              (case AppendArg (Kind2 e) args d of None \<Rightarrow> None | Some (d, args) \<Rightarrow>
                map_option (\<lambda>d. Some (fst d)) (CopyBounded (drop (Part2Pos e) src) (Part2Len e) d)))))"

definition TryFastFormat ::
  "(nat \<Rightarrow> string) \<Rightarrow> nat \<Rightarrow> nat \<Rightarrow> va_arg list \<Rightarrow> context_cache \<Rightarrow> thread_cache
     \<Rightarrow> context_cache \<times> thread_cache \<times> string option option" where
  "TryFastFormat mem format bufferSize args c t =
     (if format = 0 \<or> bufferSize = 0 then (c, t, Some None)
      else
        case FindFastFormat format c t of
          (c, Some e) \<Rightarrow> (c, t, ExecuteFastFormat mem e bufferSize args)
        | (c, None) \<Rightarrow>
            let e = BuildFastFormat mem format; t = StoreFastFormat e t; c = publish_entry e c
            in (c, t, ExecuteFastFormat mem e bufferSize args))"

section \<open>What printf prints\<close>

text \<open>
  The reference, independent of the code above: the conversions of the C standard by their letters, a
  number as the digits of its value, a \<open>%d\<close> or \<open>%i\<close> argument read in two's complement, a \<open>%u\<close> one without
  sign. The C library decides about the two null pointers: glibc prints \<open>(null)\<close> and \<open>(nil)\<close>, and
  a pointer in lower case hexadecimal digits. Anything else is not specified here.
\<close>

fun low_digits :: "nat \<Rightarrow> nat \<Rightarrow> string" where
  "low_digits b n = ''0123456789abcdef'' ! (n mod b) # (if b < 2 \<or> n < b then [] else low_digits b (n div b))"

declare low_digits.simps [simp del]

definition numeral_text :: "nat \<Rightarrow> nat \<Rightarrow> string" where
  "numeral_text b n = rev (low_digits b n)"

definition conversion :: "char \<Rightarrow> va_arg \<Rightarrow> string option" where
  "conversion spec a =
     (case a of
        ArgText t \<Rightarrow> if spec = CHR ''s'' then Some (case t of None \<Rightarrow> ''(null)'' | Some t \<Rightarrow> c_str t) else None
      | ArgWord w \<Rightarrow>
          if spec = CHR ''u'' then Some (numeral_text 10 (unat w))
          else if spec = CHR ''d'' \<or> spec = CHR ''i''
          then Some (if unat w < 2147483648 then numeral_text 10 (unat w) else CHR ''-'' # numeral_text 10 (4294967296 - unat w))
          else None
      | ArgPointer p \<Rightarrow>
          if spec = CHR ''p'' then Some (if p = 0 then ''(nil)'' else ''0x'' @ numeral_text 16 (unat p)) else None)"

fun printf_ref :: "string \<Rightarrow> va_arg list \<Rightarrow> string option" where
  "printf_ref [] args = Some []"
| "printf_ref [ch] args = (if ch \<noteq> CHR ''%'' then Some [ch] else None)"
| "printf_ref (ch # spec # rest) args =
     (if ch \<noteq> CHR ''%'' then map_option (\<lambda>t. ch # t) (printf_ref (spec # rest) args)
      else (case args of
              [] \<Rightarrow> None
            | a # args \<Rightarrow>
                (case (conversion spec a, printf_ref rest args) of
                   (Some x, Some t) \<Rightarrow> Some (x @ t)
                 | _ \<Rightarrow> None)))"

text \<open>The number of conversions of a format; \<open>None\<close> if a percent sign starts anything but one of the five.\<close>

fun conversions :: "string \<Rightarrow> nat option" where
  "conversions [] = Some 0"
| "conversions [ch] = (if ch \<noteq> CHR ''%'' then Some 0 else None)"
| "conversions (ch # spec # rest) =
     (if ch \<noteq> CHR ''%'' then conversions (spec # rest)
      else if spec \<in> set ''sdiup'' then map_option Suc (conversions rest) else None)"

definition simple_format :: "string \<Rightarrow> bool" where
  "simple_format f \<longleftrightarrow> length f < 48 \<and> (case conversions f of None \<Rightarrow> False | Some k \<Rightarrow> k \<le> 2)"

section \<open>What the analysis finds\<close>

text \<open>The parts of a format: its conversions, each with the text in front, and the text at the end.\<close>

fun format_parts :: "string \<Rightarrow> ((string \<times> FastFormatKind) list \<times> string) option" where
  "format_parts [] = Some ([], [])"
| "format_parts [ch] = (if ch \<noteq> CHR ''%'' then Some ([], [ch]) else None)"
| "format_parts (ch # spec # rest) =
     (if ch \<noteq> CHR ''%'' then
        (case format_parts (spec # rest) of
           None \<Rightarrow> None
         | Some ([], t) \<Rightarrow> Some ([], ch # t)
         | Some ((x, k) # ps, t) \<Rightarrow> Some ((ch # x, k) # ps, t))
      else (case (spec_kind spec, format_parts rest) of
              (Some k, Some (ps, t)) \<Rightarrow> Some (([], k) # ps, t)
            | _ \<Rightarrow> None))"

lemma spec_kind_letters: "spec_kind c = None \<longleftrightarrow> c \<notin> set ''sdiup''"
  by (auto simp: spec_kind_def)

lemma conversions_parts: "conversions f = map_option (length \<circ> fst) (format_parts f)"
proof (induction f rule: conversions.induct)
  case (3 ch spec rest)
  show ?case
  proof (cases "ch = CHR ''%''")
    case True
    with 3(2) spec_kind_letters [of spec] show ?thesis
      by (cases "spec_kind spec") (auto split: option.split)
  next
    case False
    with 3(1) show ?thesis by (auto split: option.split list.split)
  qed
qed simp_all

lemma simple_format_parts:
  "simple_format f \<longleftrightarrow> length f < FAST_FORMAT_SCAN_LIMIT \<and>
     (case format_parts f of None \<Rightarrow> False | Some (ps, t) \<Rightarrow> length ps \<le> 2)"
  by (auto simp: simple_format_def conversions_parts FAST_FORMAT_SCAN_LIMIT_def split: option.split)

text \<open>The numbers of the code and of the reference.\<close>

lemma digit_at: "n < 10 \<Longrightarrow> ''0123456789abcdef'' ! n = digit_char n"
proof -
  have "list_all (\<lambda>n. ''0123456789abcdef'' ! n = digit_char n) [0..<10]" by code_simp
  then show "n < 10 \<Longrightarrow> ?thesis" by (simp add: list_all_iff del: upt_Suc upt.simps)
qed

lemma hex_digit_at: "n < 16 \<Longrightarrow> ''0123456789abcdef'' ! n = hex_lower n"
proof -
  have "list_all (\<lambda>n. ''0123456789abcdef'' ! n = hex_lower n) [0..<16]" by code_simp
  then show "n < 16 \<Longrightarrow> ?thesis" by (simp add: list_all_iff del: upt_Suc upt.simps)
qed

lemma show_nat_numeral: "show_nat n = numeral_text 10 n"
  unfolding numeral_text_def
  by (induction n rule: show_nat.induct) (subst show_nat.simps, subst low_digits.simps, simp add: digit_at)

lemma show_hex_numeral: "show_hex_lower n = numeral_text 16 n"
  unfolding numeral_text_def
  by (induction n rule: show_hex_lower.induct) (subst show_hex_lower.simps, subst low_digits.simps, simp add: hex_digit_at)

lemma sint_u32: "sint (w :: u32) = (if unat w < 2 ^ 31 then int (unat w) else int (unat w) - 2 ^ 32)"
proof -
  have lt: "unat w < 2 ^ 32" using unsigned_less [of w, where 'a = nat] by simp
  have s: "sint w = (int (unat w) + 2 ^ 31) mod 2 ^ 32 - 2 ^ 31"
    by (simp add: sint_uint signed_take_bit_eq_take_bit_shift take_bit_eq_mod)
  have low: "(int n + 2 ^ 31) mod 2 ^ 32 = int n + 2 ^ 31" if "n < 2 ^ 31" for n
    using that by (intro mod_pos_pos_trivial) simp_all
  have high: "(int n + 2 ^ 31) mod 2 ^ 32 = int n - 2 ^ 31" if "\<not> n < 2 ^ 31" "n < 2 ^ 32" for n
  proof -
    have "(int n + 2 ^ 31) mod 2 ^ 32 = (int n - 2 ^ 31 + 2 ^ 32) mod 2 ^ 32" by (rule arg_cong [of _ _ "\<lambda>y. y mod 2 ^ 32"]) simp
    also have "\<dots> = (int n - 2 ^ 31) mod 2 ^ 32" by (rule mod_add_self2)
    also have "\<dots> = int n - 2 ^ 31" by (rule mod_pos_pos_trivial) (use that in simp_all)
    finally show ?thesis .
  qed
  show ?thesis
    unfolding s using low [of "unat w"] high [OF _ lt] by (cases "unat w < 2 ^ 31") (simp_all only: if_True if_False, simp_all)
qed

lemma show_int_word:
  "show_int (sint (w :: u32)) = (if unat w < 2147483648 then numeral_text 10 (unat w) else CHR ''-'' # numeral_text 10 (4294967296 - unat w))"
proof -
  have lt: "unat w < 4294967296" using unsigned_less [of w, where 'a = nat] by simp
  show ?thesis
  proof (cases "unat w < 2147483648")
    case False
    then have "nat (- (int (unat w) - 4294967296)) = 4294967296 - unat w" "int (unat w) - 4294967296 < 0" using lt by linarith+
    with False show ?thesis unfolding sint_u32 by (simp add: show_int_def show_nat_numeral del: of_nat_unat unsigned_of_nat)
  qed (simp add: sint_u32 show_int_def show_nat_numeral del: of_nat_unat unsigned_of_nat)
qed

text \<open>The text of an argument is what the conversion of its letter prints.\<close>

lemma conversion_arg_text:
  assumes "spec_kind c = Some k" and "conversion c a = Some x" and "a \<noteq> ArgPointer 0"
  shows "arg_text k a = Some x"
  using assms
  by (cases a) (auto simp: spec_kind_def conversion_def arg_text_def show_nat_numeral show_hex_numeral show_int_word split: if_splits)

text \<open>What the scan makes of the parts that follow position \<open>i\<close>.\<close>

fun scan_result ::
  "nat \<Rightarrow> (string \<times> FastFormatKind) list \<Rightarrow> fast_format_entry \<Rightarrow> fast_format_entry option" where
  "scan_result i [] e = Some e"
| "scan_result i ((x, k) # ps) e =
     (let j = i + length x in
      if SpecCount e = 0
      then scan_result (j + 2) ps (e\<lparr>Kind1 := k, Part0Len := j, Part1Pos := j + 2, SpecCount := 1\<rparr>)
      else if SpecCount e = 1
      then scan_result (j + 2) ps (e\<lparr>Kind2 := k, Part1Len := j - Part1Pos e, Part2Pos := j + 2, SpecCount := 2\<rparr>)
      else None)"

lemma scan_result_shift: "scan_result i ((ch # x, k) # ps) e = scan_result (i + 1) ((x, k) # ps) e"
  by (simp add: Let_def)

lemma scan_format_result:
  "case format_parts f of
     None \<Rightarrow> \<not> snd (scan_format i f e)
   | Some (ps, t) \<Rightarrow>
       (case scan_result i ps e of None \<Rightarrow> \<not> snd (scan_format i f e) | Some e' \<Rightarrow> scan_format i f e = (e', True))"
proof (induction i f e rule: scan_format.induct)
  case (3 i ch spec rest e)
  show ?case
  proof (cases "ch = CHR ''%''")
    case False
    show ?thesis
    proof (cases "format_parts (spec # rest)")
      case None
      with 3(1) False show ?thesis by simp
    next
      case (Some r)
      obtain ps t where r: "r = (ps, t)" by (cases r)
      show ?thesis
      proof (cases ps)
        case Nil
        with 3(1) [OF False] Some False show ?thesis by (simp add: r)
      next
        case (Cons q qs)
        obtain x k where q: "q = (x, k)" by (cases q)
        have parts: "format_parts (ch # spec # rest) = Some ((ch # x, k) # qs, t)"
          using Some False Cons r q by simp
        have step: "scan_format i (ch # spec # rest) e = scan_format (i + 1) (spec # rest) e"
          using False by simp
        show ?thesis
          using 3(1) [OF False] unfolding Some r Cons q parts step scan_result_shift by simp
      qed
    qed
  next
    case True
    show ?thesis
    proof (cases "spec_kind spec")
      case None
      with True show ?thesis by simp
    next
      case (Some k)
      consider (a) "SpecCount e = 0" | (b) "SpecCount e = 1" | (c) "SpecCount e \<noteq> 0" "SpecCount e \<noteq> 1" by blast
      then show ?thesis
      proof cases
        case a
        with 3(2) [OF _ Some] True Some show ?thesis by (cases "format_parts rest") (simp_all add: case_prod_beta split: option.splits)
      next
        case b
        with 3(3) [OF _ Some] True Some show ?thesis by (cases "format_parts rest") (simp_all add: case_prod_beta split: option.splits)
      next
        case c
        with True Some show ?thesis by (cases "format_parts rest") (simp_all add: case_prod_beta split: option.splits)
      qed
    qed
  qed
qed simp_all

lemma rejected_entry:
  "snd (scan_format i f e) = False \<Longrightarrow>
     Kind1 (fst (scan_format i f e)) = KIND_NONE \<and> BufferSizeHint (fst (scan_format i f e)) = BufferSizeHint e"
  by (induction i f e rule: scan_format.induct)
    (auto simp: reject_entry_def split: if_splits option.splits)

lemma spec_kind_not_none: "spec_kind c = Some k \<Longrightarrow> k \<noteq> KIND_NONE \<and> k \<noteq> LITERAL"
  by (auto simp: spec_kind_def split: if_splits)

text \<open>A format is its parts put together again.\<close>

fun join_parts :: "(string \<times> char) list \<Rightarrow> string \<Rightarrow> string" where
  "join_parts [] t = t"
| "join_parts ((x, s) # ps) t = x @ CHR ''%'' # s # join_parts ps t"

lemma join_parts_ex:
  "format_parts f = Some (ps, t) \<Longrightarrow>
     \<exists>ss. length ss = length ps \<and> f = join_parts (zip (map fst ps) ss) t \<and>
       map (\<lambda>s. spec_kind s) ss = map (\<lambda>p. Some (snd p)) ps"
proof (induction f arbitrary: ps t rule: format_parts.induct)
  case (3 ch spec rest)
  show ?case
  proof (cases "ch = CHR ''%''")
    case False
    with 3(3) obtain ps' t' where p: "format_parts (spec # rest) = Some (ps', t')"
      by (auto split: option.splits)
    with 3(1) [OF False p] obtain ss where ss: "length ss = length ps'"
      "spec # rest = join_parts (zip (map fst ps') ss) t'" "map (\<lambda>s. spec_kind s) ss = map (\<lambda>p. Some (snd p)) ps'"
      by blast
    show ?thesis
    proof (cases ps')
      case Nil
      with 3(3) p False ss show ?thesis by (intro exI [of _ "[]"]) auto
    next
      case (Cons q qs)
      obtain x k where q: "q = (x, k)" by (cases q)
      have eq: "ps = (ch # x, k) # qs" "t = t'" using 3(3) p False Cons q by simp_all
      obtain s ss' where s: "ss = s # ss'" using ss(1) Cons by (cases ss) auto
      have "ch # spec # rest = join_parts (zip (map fst ps) ss) t"
        using ss(2) unfolding eq s Cons q by simp
      with ss(1,3) show ?thesis unfolding eq s Cons q by (intro exI [of _ "s # ss'"]) simp
    qed
  next
    case True
    with 3(3) obtain k ps' where p: "spec_kind spec = Some k" "format_parts rest = Some (ps', t)" "ps = ([], k) # ps'"
      by (auto split: option.splits)
    with 3(2) True obtain ss where "length ss = length ps'" "rest = join_parts (zip (map fst ps') ss) t"
      "map (\<lambda>s. spec_kind s) ss = map (\<lambda>p. Some (snd p)) ps'"
      by fastforce
    with p True show ?thesis by (intro exI [of _ "spec # ss"]) simp
  qed
qed (auto split: if_splits)

text \<open>\<open>printf\<close> of the parts.\<close>

fun render :: "(string \<times> FastFormatKind) list \<Rightarrow> string \<Rightarrow> va_arg list \<Rightarrow> string option" where
  "render [] t args = Some t"
| "render ((x, k) # ps) t [] = None"
| "render ((x, k) # ps) t (a # args) =
     (case (arg_text k a, render ps t args) of (Some y, Some z) \<Rightarrow> Some (x @ y @ z) | _ \<Rightarrow> None)"

lemma printf_render:
  "format_parts f = Some (ps, t) \<Longrightarrow> printf_ref f args = Some whole \<Longrightarrow> ArgPointer 0 \<notin> set args \<Longrightarrow>
     render ps t args = Some whole"
proof (induction f args arbitrary: ps t whole rule: printf_ref.induct)
  case (3 ch spec rest args)
  show ?case
  proof (cases "ch = CHR ''%''")
    case False
    with 3(3) obtain ps' t' where p: "format_parts (spec # rest) = Some (ps', t')"
      by (auto split: option.splits)
    obtain whole' where x: "printf_ref (spec # rest) args = Some whole'" "whole = ch # whole'" using 3(4) False by auto
    have IH: "render ps' t' args = Some whole'" by (rule 3(1) [OF _ p x(1) 3(5)]) (use False in simp)
    show ?thesis
    proof (cases ps')
      case Nil
      with 3(3) p False IH x show ?thesis by auto
    next
      case (Cons q qs)
      obtain y k where q: "q = (y, k)" by (cases q)
      have "ps = (ch # y, k) # qs" "t = t'" using 3(3) p False Cons q by simp_all
      with IH False Cons q x show ?thesis by (cases args) (auto split: option.splits)
    qed
  next
    case True
    with 3(3) obtain k ps' where p: "spec_kind spec = Some k" "format_parts rest = Some (ps', t)" "ps = ([], k) # ps'"
      by (auto split: option.splits)
    from 3(4) True obtain a as y z where a: "args = a # as" "conversion spec a = Some y" "printf_ref rest as = Some z" "whole = y @ z"
      by (auto split: list.splits option.splits)
    have "render ps' t as = Some z" by (rule 3(2) [OF _ a(1) p(2) a(3)]) (use True 3(5) a(1) in simp_all)
    moreover have "arg_text k a = Some y" by (rule conversion_arg_text [OF p(1) a(2)]) (use 3(5) a(1) in auto)
    ultimately show ?thesis using p(3) a(1,4) by simp
  qed
qed (auto split: if_splits)

lemma format_parts_texts:
  "format_parts f = Some ([], t) \<Longrightarrow> f = t"
  "format_parts f = Some ([(x, k)], t) \<Longrightarrow>
     \<exists>s. spec_kind s = Some k \<and> f = x @ CHR ''%'' # s # t"
  "format_parts f = Some ([(x, k), (y, k')], t) \<Longrightarrow>
     \<exists>s s'. spec_kind s = Some k \<and> spec_kind s' = Some k' \<and> f = x @ CHR ''%'' # s # y @ CHR ''%'' # s' # t"
  using join_parts_ex [of f "[]" t] join_parts_ex [of f "[(x, k)]" t] join_parts_ex [of f "[(x, k), (y, k')]" t]
  by (auto simp: length_Suc_conv)

lemma not_simple_rejected:
  assumes "\<not> simple_format (mem a)"
  shows "Kind1 (BuildFastFormat mem a) = KIND_NONE \<and> BufferSizeHint (BuildFastFormat mem a) = 0"
proof -
  let ?e = "empty_entry\<lparr>Format := a\<rparr>"
  have "\<not> snd (scan_format 0 (mem a) ?e)" if "length (mem a) < FAST_FORMAT_SCAN_LIMIT"
  proof (cases "format_parts (mem a)")
    case None
    with scan_format_result [of 0 "mem a" ?e] show ?thesis by simp
  next
    case (Some r)
    obtain ps t where r: "r = (ps, t)" by (cases r)
    from assms that Some r have "\<not> length ps \<le> 2" by (simp add: simple_format_parts)
    then obtain p1 p2 p3 ps' where "ps = p1 # p2 # p3 # ps'"
      by (cases ps; cases "tl ps"; cases "tl (tl ps)") auto
    then have "scan_result 0 ps ?e = None"
      by (cases p1; cases p2; cases p3) (simp add: Let_def empty_entry_def)
    with scan_format_result [of 0 "mem a" ?e] Some r show ?thesis by simp
  qed
  with rejected_entry [of 0 "mem a" ?e] show ?thesis
    by (auto simp: BuildFastFormat_def Let_def empty_entry_def split: prod.split bool.split)
qed

lemma build_simple:
  assumes "simple_format (mem a)" and "a \<noteq> 0" and "format_parts (mem a) = Some (ps, t)"
    and "scan_result 0 ps (empty_entry\<lparr>Format := a\<rparr>) = Some e"
  shows "BuildFastFormat mem a =
    (if SpecCount e = 0
     then e\<lparr>Kind1 := LITERAL, Part0Len := length (mem a), BufferSizeHint := AlignBufferSizeHint (length (mem a) + 2)\<rparr>
     else let e = (if SpecCount e = 1 then e\<lparr>Part1Len := length (mem a) - Part1Pos e\<rparr>
                   else e\<lparr>Part2Len := length (mem a) - Part2Pos e\<rparr>)
          in e\<lparr>BufferSizeHint := size_hint e\<rparr>)"
  using scan_format_result [of 0 "mem a" "empty_entry\<lparr>Format := a\<rparr>"] assms
  by (simp add: BuildFastFormat_def simple_format_parts Let_def)

lemma Format_Build: "Format (BuildFastFormat mem a) = a"
proof -
  have scan: "Format (fst (scan_format i f e)) = Format e" for i f e
    by (induction i f e rule: scan_format.induct) (auto simp: reject_entry_def split: option.split)
  show ?thesis
    using scan [of 0 "mem a" "empty_entry\<lparr>Format := a\<rparr>"]
    by (auto simp: BuildFastFormat_def Let_def empty_entry_def split: prod.split bool.split)
qed

section \<open>What is printed\<close>

text \<open>The room is what the text leaves of \<open>n\<close>, the text as much of the whole one as fits.\<close>

definition printed :: "nat \<Rightarrow> string \<Rightarrow> string \<times> nat \<Rightarrow> bool" where
  "printed n whole d \<longleftrightarrow> fst d = take (n - 1) whole \<and> snd d = n - length (fst d)"

lemma copy_printed:
  assumes "printed n whole d" and "len \<le> length src" and "0 < n"
  shows "\<exists>d'. CopyBounded src len d = Some d' \<and> printed n (whole @ take len src) d'"
  using assms by (cases d) (auto simp: CopyBounded_def printed_def Let_def min_def)

lemma append_printed:
  assumes "printed n whole d" and "arg_text k a = Some x" and "0 < n"
  shows "\<exists>d'. AppendArg k (a # args) d = Some (d', args) \<and> printed n (whole @ x) d'"
proof (cases "k = FORMAT_S")
  case False
  with copy_printed [OF assms(1) _ assms(3), of "length x" x] assms(2) show ?thesis
    by (auto simp: AppendArg_def)
next
  case True
  let ?len = "BoundedStringLen x (if snd d > 0 then snd d - 1 else 0)"
  have "?len \<le> length x" by (simp add: BoundedStringLen_def)
  from copy_printed [OF assms(1) this assms(3)] obtain d' where
    d': "CopyBounded x ?len d = Some d'" "printed n (whole @ take ?len x) d'" by blast
  have "take (n - 1) (whole @ take ?len x) = take (n - 1) (whole @ x)"
    using assms(1) by (simp add: printed_def BoundedStringLen_def min_def)
  with d'(2) have "printed n (whole @ x) d'" by (simp add: printed_def)
  with d'(1) True assms(2) show ?thesis by (auto simp: AppendArg_def)
qed

lemma execute_prints:
  assumes "simple_format (mem a)" and "a \<noteq> 0" and "printf_ref (mem a) args = Some t" and "0 < n"
    and "ArgPointer 0 \<notin> set args"
  shows "ExecuteFastFormat mem (BuildFastFormat mem a) n args = Some (Some (take (n - 1) t))"
proof -
  let ?e = "BuildFastFormat mem a" and ?f = "mem a"
  from assms(1) obtain ps r where parts: "format_parts ?f = Some (ps, r)" and len: "length ps \<le> 2"
    by (auto simp: simple_format_parts split: option.splits)
  have run: "render ps r args = Some t" by (rule printf_render [OF parts assms(3,5)])
  have start: "printed n [] ([], n)" by (simp add: printed_def)
  from len consider (lit) "ps = []" | (one) x k where "ps = [(x, k)]" | (two) x k y k' where "ps = [(x, k), (y, k')]"
    by (cases ps; cases "tl ps") auto
  then show ?thesis
  proof cases
    case lit
    have f: "?f = r" by (rule format_parts_texts(1)) (use parts lit in simp)
    have e: "Kind1 ?e = LITERAL" "Part0Len ?e = length ?f"
      using build_simple [where mem = mem and a = a, OF assms(1,2) parts] lit by (simp_all add: empty_entry_def)
    from copy_printed [OF start _ assms(4), of "length ?f" ?f] obtain d where
      "CopyBounded ?f (length ?f) ([], n) = Some d" "printed n ?f d" by auto
    with e f run lit assms(4) show ?thesis by (simp add: ExecuteFastFormat_def Format_Build printed_def)
  next
    case (one x k)
    from format_parts_texts(2) [OF parts [unfolded one]] obtain s where
      f: "spec_kind s = Some k" "?f = x @ CHR ''%'' # s # r" by blast
    have e: "Kind1 ?e = k" "Part0Len ?e = length x" "Part1Pos ?e = length x + 2" "Part1Len ?e = length r" "SpecCount ?e = 1"
      using build_simple [where mem = mem and a = a, OF assms(1,2) parts] one f(2) by (simp_all add: empty_entry_def Let_def)
    from run one obtain b bs z where args: "args = b # bs" "arg_text k b = Some z" "t = x @ z @ r"
      by (cases args) (auto split: option.splits)
    from copy_printed [OF start _ assms(4), of "length x" ?f] f(2) obtain d1 where
      d1: "CopyBounded ?f (length x) ([], n) = Some d1" "printed n x d1" by auto
    from append_printed [OF d1(2) args(2) assms(4)] obtain d2 where
      d2: "AppendArg k args d1 = Some (d2, bs)" "printed n (x @ z) d2" unfolding args(1) by blast
    from copy_printed [OF d2(2) _ assms(4), of "length r" r] obtain d3 where
      d3: "CopyBounded r (length r) d2 = Some d3" "printed n t d3" using args(3) by auto
    show ?thesis
      using d1(1) d2(1) d3 e f spec_kind_not_none [OF f(1)] assms(4)
      by (simp add: ExecuteFastFormat_def Format_Build printed_def)
  next
    case (two x k y k')
    from format_parts_texts(3) [OF parts [unfolded two]] obtain s s' where
      f: "spec_kind s = Some k" "spec_kind s' = Some k'" "?f = x @ CHR ''%'' # s # y @ CHR ''%'' # s' # r" by blast
    have e: "Kind1 ?e = k" "Kind2 ?e = k'" "Part0Len ?e = length x" "Part1Pos ?e = length x + 2" "Part1Len ?e = length y"
      "Part2Pos ?e = length x + length y + 4" "Part2Len ?e = length r" "SpecCount ?e = 2"
      using build_simple [where mem = mem and a = a, OF assms(1,2) parts] two f(3) by (simp_all add: empty_entry_def Let_def)
    from run two obtain b b' bs z z' where args: "args = b # b' # bs" "arg_text k b = Some z" "arg_text k' b' = Some z'"
      "t = x @ z @ y @ z' @ r"
      by (cases args; cases "tl args") (auto split: option.splits)
    from copy_printed [OF start _ assms(4), of "length x" ?f] f(3) obtain d1 where
      d1: "CopyBounded ?f (length x) ([], n) = Some d1" "printed n x d1" by auto
    from append_printed [OF d1(2) args(2) assms(4)] obtain d2 where
      d2: "AppendArg k args d1 = Some (d2, b' # bs)" "printed n (x @ z) d2" unfolding args(1) by blast
    have drop: "drop (length x + 2) ?f = y @ CHR ''%'' # s' # r" "drop (length x + length y + 4) ?f = r"
      using f(3) by (simp_all add: eval_nat_numeral)
    from copy_printed [OF d2(2) _ assms(4), of "length y" "y @ CHR ''%'' # s' # r"] obtain d3 where
      d3: "CopyBounded (y @ CHR ''%'' # s' # r) (length y) d2 = Some d3" "printed n (x @ z @ y) d3" by auto
    from append_printed [OF d3(2) args(3) assms(4)] obtain d4 where
      d4: "AppendArg k' (b' # bs) d3 = Some (d4, bs)" "printed n ((x @ z @ y) @ z') d4" by blast
    from copy_printed [OF d4(2) _ assms(4), of "length r" r] obtain d5 where
      d5: "CopyBounded r (length r) d4 = Some d5" "printed n t d5" using args(4) by auto
    show ?thesis
      using d1(1) d2(1) d3(1) d4(1) d5 e drop spec_kind_not_none [OF f(1)] assms(4)
      by (simp add: ExecuteFastFormat_def Format_Build printed_def)
  qed
qed


section \<open>The caches\<close>

text \<open>
  Every entry kept is the analysis of the string its address holds. This is what a change of the
  string breaks: the caches compare addresses only.
\<close>

definition entry_ok :: "(nat \<Rightarrow> string) \<Rightarrow> fast_format_entry \<Rightarrow> bool" where
  "entry_ok mem e \<longleftrightarrow> Format e \<noteq> 0 \<longrightarrow> e = BuildFastFormat mem (Format e)"

definition caches_ok :: "(nat \<Rightarrow> string) \<Rightarrow> context_cache \<Rightarrow> thread_cache \<Rightarrow> bool" where
  "caches_ok mem c t \<longleftrightarrow> (State c = READY \<longrightarrow> entry_ok mem (Ffe c)) \<and>
     (\<forall>e \<in> set (FastFormatCache t). entry_ok mem e) \<and> length (FastFormatCache t) = FAST_FORMAT_CACHE_SIZE"

lemma entry_ok_build [simp]: "entry_ok mem (BuildFastFormat mem a)"
  by (simp add: entry_ok_def Format_Build)

lemma entry_ok_format: "entry_ok mem e \<Longrightarrow> Format e = a \<Longrightarrow> a \<noteq> 0 \<Longrightarrow> e = BuildFastFormat mem a"
  by (simp add: entry_ok_def)

lemma caches_ok_init: "caches_ok mem ContextCache_new thread_cache_init"
  by (simp add: caches_ok_def ContextCache_new_def thread_cache_init_def entry_ok_def empty_entry_def)

lemma publish_ok: "caches_ok mem c t \<Longrightarrow> entry_ok mem e \<Longrightarrow> caches_ok mem (publish_entry e c) t"
  by (simp add: caches_ok_def publish_entry_def)

lemma store_ok: "caches_ok mem c t \<Longrightarrow> entry_ok mem e \<Longrightarrow> caches_ok mem c (StoreFastFormat e t)"
  using set_update_subset_insert [of "FastFormatCache t" "FastFormatCachePos t" e]
  by (auto simp: caches_ok_def StoreFastFormat_def)

lemma find_ok:
  assumes "caches_ok mem c t" and "FindFastFormat a c t = (c', r)" and "a \<noteq> 0"
  shows "caches_ok mem c' t \<and> (\<forall>e. r = Some e \<longrightarrow> e = BuildFastFormat mem a)"
proof (cases "State c = READY \<and> Format (Ffe c) = a")
  case True
  with assms show ?thesis by (auto simp: FindFastFormat_def caches_ok_def entry_ok_def)
next
  case False
  let ?c = "if State c = READY then c\<lparr>State := DISABLED\<rparr> else c"
  have ok: "caches_ok mem ?c t" using assms(1) by (simp add: caches_ok_def)
  have step: "FindFastFormat a c t = (case find (\<lambda>e. Format e = a) (FastFormatCache t) of
      None \<Rightarrow> (?c, None) | Some e \<Rightarrow> (publish_entry e ?c, Some e))"
    by (simp only: FindFastFormat_def Let_def if_not_P [OF False])
  show ?thesis
  proof (cases "find (\<lambda>e. Format e = a) (FastFormatCache t)")
    case None
    then have "c' = ?c" "r = None" using assms(2) unfolding step by simp_all
    with ok show ?thesis by blast
  next
    case (Some e)
    then have "e \<in> set (FastFormatCache t)" "Format e = a" by (auto simp: find_Some_iff)
    with assms(1) have e: "entry_ok mem e" by (simp add: caches_ok_def)
    have "c' = publish_entry e ?c" "r = Some e" using Some assms(2) unfolding step by simp_all
    with publish_ok [OF ok e] entry_ok_format [OF e \<open>Format e = a\<close> assms(3)] show ?thesis by simp
  qed
qed

lemma try_is_execute:
  assumes "caches_ok mem c t" and "a \<noteq> 0" and "0 < n"
  shows "\<exists>c' t'. TryFastFormat mem a n args c t = (c', t', ExecuteFastFormat mem (BuildFastFormat mem a) n args) \<and>
    caches_ok mem c' t'"
proof -
  obtain c1 r where find: "FindFastFormat a c t = (c1, r)" by (cases "FindFastFormat a c t")
  from find_ok [OF assms(1) find assms(2)] have ok: "caches_ok mem c1 t" and e: "r = Some e \<Longrightarrow> e = BuildFastFormat mem a" for e
    by blast+
  show ?thesis
  proof (cases r)
    case None
    with find assms(2,3) publish_ok [OF store_ok [OF ok]] show ?thesis by (simp add: TryFastFormat_def Let_def)
  next
    case (Some x)
    with find assms(2,3) e [OF Some] ok show ?thesis by (simp add: TryFastFormat_def)
  qed
qed

fun format_calls ::
  "(nat \<Rightarrow> string) \<Rightarrow> (nat \<times> nat \<times> va_arg list) list \<Rightarrow> context_cache \<Rightarrow> thread_cache
     \<Rightarrow> context_cache \<times> thread_cache" where
  "format_calls mem [] c t = (c, t)"
| "format_calls mem ((a, n, args) # cs) c t =
     (case TryFastFormat mem a n args c t of (c, t, r) \<Rightarrow> format_calls mem cs c t)"

lemma calls_ok: "caches_ok mem c t \<Longrightarrow> format_calls mem cs c t = (c', t') \<Longrightarrow> caches_ok mem c' t'"
proof (induction cs arbitrary: c t)
  case (Cons x cs)
  obtain a n args where x: "x = (a, n, args)" by (cases x)
  show ?case
  proof (cases "a = 0 \<or> n = 0")
    case True
    with Cons x show ?thesis by (auto simp: TryFastFormat_def)
  next
    case False
    with try_is_execute [OF Cons.prems(1), of a n args] obtain c1 t1 where
      "TryFastFormat mem a n args c t = (c1, t1, ExecuteFastFormat mem (BuildFastFormat mem a) n args)" "caches_ok mem c1 t1"
      by auto
    with Cons.IH Cons.prems(2) x show ?thesis by simp
  qed
qed simp



text \<open>The null pointer: what the fast path prints is not what the C library prints.\<close>

lemma fast_format_null_pointer:
  "snd (snd (TryFastFormat ((\<lambda>_. [])(7 := ''%p'')) 7 64 [ArgPointer 0] ContextCache_new thread_cache_init)) = Some (Some ''0x0'') \<and>
   printf_ref ''%p'' [ArgPointer 0] = Some ''(nil)''"
  by code_simp

text \<open>
  A format built in place: the same address with another text is served from the old analysis, here
  with the conversion of the wrong type (undefined behaviour).
\<close>

lemma fast_format_stale:
  assumes "mem 7 = ''id %d''" and "mem' 7 = ''to %s''"
  shows "case TryFastFormat mem 7 64 args ContextCache_new thread_cache_init of
    (c, t, r) \<Rightarrow> snd (snd (TryFastFormat mem' 7 64 [ArgText (Some ''x'')] c t)) = None"
proof -
  let ?e = "BuildFastFormat mem 7"
  have e: "Kind1 ?e = FORMAT_D" "Part0Len ?e = 3"
    using assms(1) by (simp_all add: BuildFastFormat_def empty_entry_def spec_kind_def FAST_FORMAT_SCAN_LIMIT_def Let_def)
  have "find (\<lambda>e. Format e = 7) (FastFormatCache thread_cache_init) = None"
    by (simp add: thread_cache_init_def FAST_FORMAT_CACHE_SIZE_def empty_entry_def numeral_2_eq_2)
  then have first: "TryFastFormat mem 7 64 args ContextCache_new thread_cache_init =
      (\<lparr>State = READY, Ffe = ?e\<rparr>, StoreFastFormat ?e thread_cache_init, ExecuteFastFormat mem ?e 64 args)"
    by (simp add: TryFastFormat_def FindFastFormat_def ContextCache_new_def publish_entry_def Let_def)
  have "ExecuteFastFormat mem' ?e 64 [ArgText (Some ''x'')] = None"
    using assms(2) by (simp add: ExecuteFastFormat_def e Format_Build CopyBounded_def AppendArg_def arg_text_def Let_def)
  then have "snd (snd (TryFastFormat mem' 7 64 [ArgText (Some ''x'')] \<lparr>State = READY, Ffe = ?e\<rparr> t)) = None" for t
    by (simp add: TryFastFormat_def FindFastFormat_def Format_Build)
  then show ?thesis unfolding first prod.case .
qed

section \<open>The size of the buffer\<close>

lemma align_hint: "n \<le> 0xFFE0 \<Longrightarrow> n \<le> AlignBufferSizeHint n"
proof -
  have "(n + 31) mod 32 < 32" by simp
  with minus_mod_eq_div_mult [of "n + 31" 32] have "n \<le> (n + 31) div 32 * 32" by linarith
  then show "n \<le> 0xFFE0 \<Longrightarrow> n \<le> AlignBufferSizeHint n" by (simp add: AlignBufferSizeHint_def Let_def)
qed


lemma show_nat_length: "n < 10 ^ k \<Longrightarrow> 0 < k \<Longrightarrow> length (show_nat n) \<le> k"
proof (induction n arbitrary: k rule: show_nat.induct)
  case (1 n)
  show ?case
  proof (cases "n < 10")
    case True
    with "1.prems" show ?thesis by (subst show_nat.simps) simp
  next
    case False
    with "1.prems" obtain m where k: "k = Suc m" "0 < m" by (cases k; cases "k - 1") auto
    have "n div 10 < 10 ^ m" using "1.prems"(1) k(1) by (simp add: div_less_iff_less_mult)
    with "1.IH" [OF False _ k(2)] False k(1) show ?thesis by (subst show_nat.simps) simp
  qed
qed

lemma show_hex_length: "n < 16 ^ k \<Longrightarrow> 0 < k \<Longrightarrow> length (show_hex_lower n) \<le> k"
proof (induction n arbitrary: k rule: show_hex_lower.induct)
  case (1 n)
  show ?case
  proof (cases "n < 16")
    case True
    with "1.prems" show ?thesis by (subst show_hex_lower.simps) simp
  next
    case False
    with "1.prems" obtain m where k: "k = Suc m" "0 < m" by (cases k; cases "k - 1") auto
    have "n div 16 < 16 ^ m" using "1.prems"(1) k(1) by (simp add: div_less_iff_less_mult)
    with "1.IH" [OF False _ k(2)] False k(1) show ?thesis by (subst show_hex_lower.simps) simp
  qed
qed

text \<open>Every conversion but \<open>%s\<close> prints at most what the table says.\<close>

lemma arg_text_size:
  assumes "arg_text k a = Some x" and "0 < GetMaxArgTextSize k"
  shows "length x \<le> GetMaxArgTextSize k"
proof -
  have u: "length (show_nat (unat w)) \<le> 10" for w :: u32
    using unsigned_less [of w, where 'a = nat] by (intro show_nat_length) simp_all
  have p: "length (show_hex_lower (unat w)) \<le> 16" for w :: u64
    using unsigned_less [of w, where 'a = nat] by (intro show_hex_length) simp_all
  have i: "length (show_int (sint w)) \<le> 11" for w :: u32
  proof -
    have "- (2 ^ 31) \<le> sint w" "sint w < 2 ^ 31" using sint_range_size [of w] by (simp_all add: word_size)
    then have "nat (- sint w) < 10 ^ 10" "nat (sint w) < 10 ^ 10" by auto
    from show_nat_length [OF this(1)] show_nat_length [OF this(2)] show ?thesis by (simp add: show_int_def)
  qed
  show ?thesis
    using assms u p i by (auto simp: arg_text_def GetMaxArgTextSize_def split: FastFormatKind.splits va_arg.splits)
qed

text \<open>
  The proposed size: \<open>DoLog\<close> passes one byte less to the fast path, whose terminator takes another.
\<close>

lemma hint_suffices:
  assumes "simple_format (mem a)" and "a \<noteq> 0" and "printf_ref (mem a) args = Some t"
    and "BufferSizeHint (BuildFastFormat mem a) \<noteq> 0" and "ArgPointer 0 \<notin> set args"
  shows "length t + 2 \<le> BufferSizeHint (BuildFastFormat mem a)"
proof -
  let ?e = "BuildFastFormat mem a" and ?f = "mem a"
  from assms(1) obtain ps r where parts: "format_parts ?f = Some (ps, r)" and len: "length ps \<le> 2"
    and short: "length ?f < 48"
    by (auto simp: simple_format_parts FAST_FORMAT_SCAN_LIMIT_def split: option.splits)
  have run: "render ps r args = Some t" by (rule printf_render [OF parts assms(3,5)])
  have max: "GetMaxArgTextSize k \<le> 18" for k by (simp add: GetMaxArgTextSize_def split: FastFormatKind.split)
  from len consider (lit) "ps = []" | (one) x k where "ps = [(x, k)]" | (two) x k y k' where "ps = [(x, k), (y, k')]"
    by (cases ps; cases "tl ps") auto
  then show ?thesis
  proof cases
    case lit
    have f: "?f = r" by (rule format_parts_texts(1)) (use parts lit in simp)
    have "BufferSizeHint ?e = AlignBufferSizeHint (length ?f + 2)"
      using build_simple [where mem = mem and a = a, OF assms(1,2) parts] lit by (simp add: empty_entry_def)
    with f lit run align_hint [of "length ?f + 2"] short show ?thesis by simp
  next
    case (one x k)
    from format_parts_texts(2) [OF parts [unfolded one]] obtain s where f: "?f = x @ CHR ''%'' # s # r" by blast
    have b: "BufferSizeHint ?e =
        (if 0 < GetMaxArgTextSize k then AlignBufferSizeHint (length x + length r + GetMaxArgTextSize k + 2) else 0)"
      using build_simple [where mem = mem and a = a, OF assms(1,2) parts] one f
      by (simp add: empty_entry_def Let_def size_hint_def)
    with assms(4) have pos: "0 < GetMaxArgTextSize k" by presburger
    from run one obtain c cs z where "arg_text k c = Some z" "t = x @ z @ r"
      by (cases args) (auto split: option.splits)
    with arg_text_size [OF _ pos] b pos max [of k] short f
      align_hint [of "length x + length r + GetMaxArgTextSize k + 2"] show ?thesis by fastforce
  next
    case (two x k y k')
    from format_parts_texts(3) [OF parts [unfolded two]] obtain s s' where
      f: "?f = x @ CHR ''%'' # s # y @ CHR ''%'' # s' # r" by blast
    let ?n = "length x + length y + length r + GetMaxArgTextSize k + GetMaxArgTextSize k' + 2"
    have b: "BufferSizeHint ?e =
        (if 0 < GetMaxArgTextSize k \<and> 0 < GetMaxArgTextSize k' then AlignBufferSizeHint ?n else 0)"
      using build_simple [where mem = mem and a = a, OF assms(1,2) parts] two f
      by (simp add: empty_entry_def Let_def size_hint_def)
    with assms(4) have pos: "0 < GetMaxArgTextSize k" "0 < GetMaxArgTextSize k'" by presburger+
    from run two obtain c c' cs z z' where z: "arg_text k c = Some z" "arg_text k' c' = Some z'" "t = x @ z @ y @ z' @ r"
      by (cases args; cases "tl args") (auto split: option.splits)
    have "?n \<le> 0xFFE0" using max [of k] max [of k'] short f by simp
    from align_hint [OF this] arg_text_size [OF z(1) pos(1)] arg_text_size [OF z(2) pos(2)] z(3) b pos
    show ?thesis by simp
  qed
qed

text \<open>The size the fast path proposes is enough: a site whose analysis is cached gets a buffer of
  \<open>BufferSizeHint\<close> bytes of which \<open>DoLog\<close> offers all but one, and the whole text with its terminator fits.\<close>

theorem fast_format_hint_fits:
  assumes "a \<noteq> 0" and "caches_ok mem c t" and "State c = READY" and "Format (Ffe c) = a"
    and "BufferSizeHint (Ffe c) \<noteq> 0" and "printf_ref (mem a) args = Some txt" and "ArgPointer 0 \<notin> set args"
  shows "snd (snd (TryFastFormat mem a (BufferSizeHint (Ffe c) - 1) args c t)) = Some (Some txt)"
proof -
  let ?n = "BufferSizeHint (Ffe c) - 1"
  have e: "Ffe c = BuildFastFormat mem a" using assms(1-4) by (simp add: caches_ok_def entry_ok_def)
  have simple: "simple_format (mem a)" using not_simple_rejected [of mem a] assms(5) e by auto
  from hint_suffices [where mem = mem and a = a, OF simple assms(1,6)] assms(5,7) e have fits: "length txt + 2 \<le> BufferSizeHint (Ffe c)" by simp
  then have "0 < ?n" by simp
  from try_is_execute [OF assms(2,1) this, of args] execute_prints [where mem = mem and a = a, OF simple assms(1,6) this assms(7)] e fits
  show ?thesis by auto
qed

theorem fast_format_hint_fits_witness:
  "snd (snd (TryFastFormat (\<lambda>_. ''n=%d'') 7 31 [ArgWord (-5)]
     \<lparr>State = READY, Ffe = BuildFastFormat (\<lambda>_. ''n=%d'') 7\<rparr> thread_cache_init)) = Some (Some ''n=-5'')"
proof -
  let ?m = "(\<lambda>_. ''n=%d'') :: nat \<Rightarrow> string" and ?c = "\<lparr>State = READY, Ffe = BuildFastFormat (\<lambda>_. ''n=%d'') 7\<rparr>"
  have ok: "caches_ok ?m ?c thread_cache_init"
    using caches_ok_init [of ?m] by (simp add: caches_ok_def)
  have hint: "BufferSizeHint (Ffe ?c) = 32"
    by (simp add: BuildFastFormat_def empty_entry_def spec_kind_def FAST_FORMAT_SCAN_LIMIT_def size_hint_def
        GetMaxArgTextSize_def AlignBufferSizeHint_def Let_def)
  have "printf_ref (?m 7) [ArgWord (-5)] = Some ''n=-5''"
    by (simp add: conversion_def numeral_text_def low_digits.simps [of 10])
  from fast_format_hint_fits [OF _ ok _ _ _ this] hint show ?thesis by (simp add: Format_Build)
qed

end
