(* ===== verification/Retention.thy ===== *)
theory Retention
  imports Prelude_Logme "HOL-Library.List_Lexorder" "HOL-Library.Char_ord" "HOL-Library.Product_Lexorder"
    "HOL-Library.Multiset"
begin

text \<open>
  Deleting old log files (\<open>File/RetentionCleaner.cpp\<close>): among the files of the directory that match
  a pattern, the limits on number, age and total size are applied one after the other. What the
  directory holds, what the pattern matches, which removals succeed and the clock are arguments; times
  are integers of the file clock, with durations below its range. Lemmas: what is deleted, in which
  order, and that the limits hold afterwards.
\<close>

record RetentionOptions =
  MaxFiles :: nat
  MaxAgeMs :: u64
  MaxTotalSize :: u64

definition RetentionOptions_IsEmpty :: "RetentionOptions \<Rightarrow> bool" where
  "RetentionOptions_IsEmpty p \<longleftrightarrow> MaxFiles p = 0 \<and> MaxAgeMs p = 0 \<and> MaxTotalSize p = 0"

record file_info =
  PathName :: string
  LastWrite :: int
  FileSize :: u64
  Deleted :: bool

text \<open>An entry as the directory iterator shows it; \<open>None\<close> is an error of the call.\<close>

record dir_entry =
  EntryPath :: string
  EntryRegular :: bool
  EntryLastWrite :: "int option"
  EntrySize :: "u64 option"

fun FindMatchingFiles :: "(string \<Rightarrow> bool) \<Rightarrow> dir_entry list \<Rightarrow> file_info list" where
  "FindMatchingFiles matches [] = []"
| "FindMatchingFiles matches (x # xs) =
     (if \<not> EntryRegular x then FindMatchingFiles matches xs
      else if \<not> matches (EntryPath x) then FindMatchingFiles matches xs
      else case EntryLastWrite x of
             None \<Rightarrow> FindMatchingFiles matches xs
           | Some lastWrite \<Rightarrow>
               \<lparr>PathName = EntryPath x, LastWrite = lastWrite,
                FileSize = (case EntrySize x of None \<Rightarrow> 0 | Some n \<Rightarrow> n), Deleted = False\<rparr> #
               FindMatchingFiles matches xs)"

text \<open>Paths of one directory differ, so the orders of \<open>std::sort\<close> are strict and its result is unique.\<close>

definition SortNewestFirst :: "file_info list \<Rightarrow> file_info list" where
  "SortNewestFirst fs = sort_key (\<lambda>f. (- LastWrite f, PathName f)) fs"

definition oldest_key :: "file_info \<Rightarrow> int \<times> string" where
  "oldest_key f = (LastWrite f, PathName f)"

definition DeleteFile :: "(string \<Rightarrow> bool) \<Rightarrow> string \<Rightarrow> file_info \<Rightarrow> file_info \<times> bool" where
  "DeleteFile removable keep f =
     (if Deleted f then (f, True)
      else if PathName f = keep then (f, False)
      else if \<not> removable (PathName f) then (f, False)
      else (f\<lparr>Deleted := True\<rparr>, True))"

definition CountExisting :: "file_info list \<Rightarrow> nat" where
  "CountExisting fs = length (filter (\<lambda>f. \<not> Deleted f) fs)"

definition CalculateTotalSize :: "file_info list \<Rightarrow> u64" where
  "CalculateTotalSize fs = sum_list (map FileSize (filter (\<lambda>f. \<not> Deleted f) fs))"

text \<open>Pointers into the vector are indices.\<close>

definition GetOldestExistingFiles :: "file_info list \<Rightarrow> nat list" where
  "GetOldestExistingFiles fs = sort_key (\<lambda>i. oldest_key (fs ! i)) (filter (\<lambda>i. \<not> Deleted (fs ! i)) [0..<length fs])"

fun max_files_loop ::
  "(string \<Rightarrow> bool) \<Rightarrow> string \<Rightarrow> nat \<Rightarrow> nat list \<Rightarrow> nat \<Rightarrow> file_info list \<Rightarrow> file_info list" where
  "max_files_loop removable keep limit [] remaining fs = fs"
| "max_files_loop removable keep limit (i # is) remaining fs =
     (if remaining \<le> limit then fs
      else case DeleteFile removable keep (fs ! i) of
             (f, ok) \<Rightarrow> max_files_loop removable keep limit is (if ok then remaining - 1 else remaining) (fs[i := f]))"

definition ApplyMaxFiles :: "(string \<Rightarrow> bool) \<Rightarrow> string \<Rightarrow> nat \<Rightarrow> file_info list \<Rightarrow> file_info list" where
  "ApplyMaxFiles removable keep limit fs =
     (if limit = 0 then fs
      else
        let remaining = CountExisting fs in
        if remaining \<le> limit then fs
        else max_files_loop removable keep limit (GetOldestExistingFiles fs) remaining fs)"

text \<open>The age of a file in the clock's units, \<open>perMs\<close> of them in a millisecond.\<close>

definition ApplyMaxAge ::
  "(string \<Rightarrow> bool) \<Rightarrow> string \<Rightarrow> int \<Rightarrow> int \<Rightarrow> u64 \<Rightarrow> file_info list \<Rightarrow> file_info list" where
  "ApplyMaxAge removable keep now perMs maxAgeMs fs =
     (if maxAgeMs = 0 then fs
      else map (\<lambda>f. if Deleted f then f
                    else if PathName f = keep then f
                    else if now - LastWrite f \<le> int (unat maxAgeMs) * perMs then f
                    else fst (DeleteFile removable keep f)) fs)"

fun total_size_loop ::
  "(string \<Rightarrow> bool) \<Rightarrow> string \<Rightarrow> u64 \<Rightarrow> nat list \<Rightarrow> u64 \<Rightarrow> file_info list \<Rightarrow> file_info list" where
  "total_size_loop removable keep limit [] bytes fs = fs"
| "total_size_loop removable keep limit (i # is) bytes fs =
     (if bytes \<le> limit then fs
      else
        let n = FileSize (fs ! i) in
        case DeleteFile removable keep (fs ! i) of
          (f, ok) \<Rightarrow> total_size_loop removable keep limit is
                      (if \<not> ok then bytes else if n > bytes then 0 else bytes - n) (fs[i := f]))"

definition ApplyMaxTotalSize :: "(string \<Rightarrow> bool) \<Rightarrow> string \<Rightarrow> u64 \<Rightarrow> file_info list \<Rightarrow> file_info list" where
  "ApplyMaxTotalSize removable keep limit fs =
     (if limit = 0 then fs
      else
        let bytes = CalculateTotalSize fs in
        if bytes \<le> limit then fs
        else total_size_loop removable keep limit (GetOldestExistingFiles fs) bytes fs)"

text \<open>The matched files with the deleted ones marked.\<close>

definition CleanFiles ::
  "(string \<Rightarrow> bool) \<Rightarrow> (string \<Rightarrow> bool) \<Rightarrow> int \<Rightarrow> int \<Rightarrow> dir_entry list \<Rightarrow> string \<Rightarrow> RetentionOptions \<Rightarrow> file_info list" where
  "CleanFiles matches removable now perMs dir keep options =
     (if keep = [] \<or> RetentionOptions_IsEmpty options then []
      else
        let fs = SortNewestFirst (FindMatchingFiles matches dir);
            fs = ApplyMaxFiles removable keep (MaxFiles options) fs;
            fs = ApplyMaxAge removable keep now perMs (MaxAgeMs options) fs
        in ApplyMaxTotalSize removable keep (MaxTotalSize options) fs)"

section \<open>What a step deletes\<close>

text \<open>Only the mark of a file changes, from kept to deleted, and only where the file may be deleted.\<close>

definition may_delete :: "(string \<Rightarrow> bool) \<Rightarrow> string \<Rightarrow> file_info \<Rightarrow> bool" where
  "may_delete removable keep f \<longleftrightarrow> PathName f \<noteq> keep \<and> removable (PathName f)"

definition marks :: "(string \<Rightarrow> bool) \<Rightarrow> string \<Rightarrow> file_info list \<Rightarrow> file_info list \<Rightarrow> bool" where
  "marks removable keep fs fs' \<longleftrightarrow> length fs' = length fs \<and>
     (\<forall>i < length fs. fs' ! i = fs ! i \<or>
        \<not> Deleted (fs ! i) \<and> may_delete removable keep (fs ! i) \<and> fs' ! i = (fs ! i)\<lparr>Deleted := True\<rparr>)"

text \<open>No file that survives although it may be deleted is older than a deleted one.\<close>

definition oldest_deleted :: "(string \<Rightarrow> bool) \<Rightarrow> string \<Rightarrow> file_info list \<Rightarrow> bool" where
  "oldest_deleted removable keep fs \<longleftrightarrow>
     (\<forall>f \<in> set fs. \<forall>g \<in> set fs. Deleted f \<longrightarrow> \<not> Deleted g \<longrightarrow> may_delete removable keep g \<longrightarrow>
        oldest_key f < oldest_key g)"


lemma marks_refl [simp]: "marks r keep fs fs"
  by (simp add: marks_def)

lemma marks_trans: "marks r keep fs gs \<Longrightarrow> marks r keep gs hs \<Longrightarrow> marks r keep fs hs"
  by (fastforce simp: marks_def)

lemma may_delete_mark [simp]: "may_delete r keep (f\<lparr>Deleted := b\<rparr>) = may_delete r keep f"
  by (simp add: may_delete_def)

lemma oldest_key_mark [simp]: "oldest_key (f\<lparr>Deleted := b\<rparr>) = oldest_key f"
  by (simp add: oldest_key_def)

lemma DeleteFile_mark:
  "fst (DeleteFile r keep f) = (if \<not> Deleted f \<and> may_delete r keep f then f\<lparr>Deleted := True\<rparr> else f)"
  "snd (DeleteFile r keep f) \<longleftrightarrow> Deleted f \<or> may_delete r keep f"
  by (auto simp: DeleteFile_def may_delete_def)

lemma marks_update: "i < length fs \<Longrightarrow> marks r keep fs (fs[i := fst (DeleteFile r keep (fs ! i))])"
  by (auto simp: marks_def DeleteFile_mark nth_list_update)

lemma marks_paths: "marks r keep fs fs' \<Longrightarrow> map PathName fs' = map PathName fs"
  by (rule nth_equalityI) (auto simp: marks_def)

lemma marks_key: "marks r keep fs fs' \<Longrightarrow> i < length fs \<Longrightarrow>
    oldest_key (fs' ! i) = oldest_key (fs ! i) \<and> may_delete r keep (fs' ! i) = may_delete r keep (fs ! i)"
  by (auto simp: marks_def)

text \<open>Deleting the files at some indices, one after the other.\<close>

fun delete_at :: "(string \<Rightarrow> bool) \<Rightarrow> string \<Rightarrow> nat list \<Rightarrow> file_info list \<Rightarrow> file_info list" where
  "delete_at r keep [] fs = fs"
| "delete_at r keep (i # is) fs = delete_at r keep is (fs[i := fst (DeleteFile r keep (fs ! i))])"

lemma max_files_prefix: "\<exists>k. max_files_loop r keep limit is n fs = delete_at r keep (take k is) fs"
proof (induction "is" arbitrary: n fs)
  case (Cons i "is")
  show ?case
  proof (cases "n \<le> limit")
    case True
    then show ?thesis by (intro exI [of _ 0]) simp
  next
    case False
    obtain f ok where d: "DeleteFile r keep (fs ! i) = (f, ok)" by (cases "DeleteFile r keep (fs ! i)")
    from Cons.IH obtain k where
      "max_files_loop r keep limit is (if ok then n - 1 else n) (fs[i := f]) = delete_at r keep (take k is) (fs[i := f])"
      by blast
    with False d show ?thesis by (intro exI [of _ "Suc k"]) simp
  qed
qed simp

lemma total_size_prefix: "\<exists>k. total_size_loop r keep limit is n fs = delete_at r keep (take k is) fs"
proof (induction "is" arbitrary: n fs)
  case (Cons i "is")
  show ?case
  proof (cases "n \<le> limit")
    case True
    then show ?thesis by (intro exI [of _ 0]) simp
  next
    case False
    obtain f ok where d: "DeleteFile r keep (fs ! i) = (f, ok)" by (cases "DeleteFile r keep (fs ! i)")
    from Cons.IH obtain k where
      "total_size_loop r keep limit is (if \<not> ok then n else if FileSize (fs ! i) > n then 0 else n - FileSize (fs ! i)) (fs[i := f]) =
        delete_at r keep (take k is) (fs[i := f])"
      by blast
    with False d show ?thesis by (intro exI [of _ "Suc k"]) (simp add: Let_def)
  qed
qed simp

lemma delete_at_marks: "set is \<subseteq> {..<length fs} \<Longrightarrow> marks r keep fs (delete_at r keep is fs)"
proof (induction "is" arbitrary: fs)
  case (Cons i "is")
  let ?fs = "fs[i := fst (DeleteFile r keep (fs ! i))]"
  have "marks r keep fs ?fs" using Cons.prems by (intro marks_update) simp
  moreover have "marks r keep ?fs (delete_at r keep is ?fs)" using Cons.prems by (intro Cons.IH) simp
  ultimately show ?case by (auto intro: marks_trans)
qed simp

text \<open>
  The order is kept if the indices go up from the oldest file and include every file that could
  still be deleted.
\<close>

definition worklist :: "(string \<Rightarrow> bool) \<Rightarrow> string \<Rightarrow> nat list \<Rightarrow> file_info list \<Rightarrow> bool" where
  "worklist r keep is fs \<longleftrightarrow> sorted (map (\<lambda>i. oldest_key (fs ! i)) is) \<and> distinct is \<and>
     set is \<subseteq> {..<length fs} \<and> distinct (map PathName fs) \<and>
     (\<forall>j < length fs. \<not> Deleted (fs ! j) \<longrightarrow> may_delete r keep (fs ! j) \<longrightarrow> j \<in> set is)"

lemma worklist_start:
  assumes "distinct (map PathName fs)"
  shows "worklist r keep (GetOldestExistingFiles fs) fs"
  using assms by (auto simp: worklist_def GetOldestExistingFiles_def)

lemma worklist_step:
  assumes "worklist r keep (i # is) fs"
  shows "worklist r keep is (fs[i := fst (DeleteFile r keep (fs ! i))])"
proof -
  let ?fs = "fs[i := fst (DeleteFile r keep (fs ! i))]"
  have i: "i < length fs" using assms by (simp add: worklist_def)
  have m: "marks r keep fs ?fs" by (rule marks_update [OF i])
  have keys: "map (\<lambda>i. oldest_key (?fs ! i)) is = map (\<lambda>i. oldest_key (fs ! i)) is"
    using marks_key [OF m] assms by (intro map_cong) (auto simp: worklist_def)
  have "sorted (map (\<lambda>i. oldest_key (?fs ! i)) is)"
    unfolding keys using assms by (simp add: worklist_def)
  moreover have "j \<in> set is" if "j < length fs" "\<not> Deleted (?fs ! j)" "may_delete r keep (?fs ! j)" for j
    using that assms by (cases "j = i") (auto simp: worklist_def DeleteFile_mark split: if_splits)
  ultimately show ?thesis
    using assms marks_paths [OF m] by (auto simp: worklist_def)
qed

lemma oldest_deleted_step:
  assumes "worklist r keep (i # is) fs" and "oldest_deleted r keep fs"
  shows "oldest_deleted r keep (fs[i := fst (DeleteFile r keep (fs ! i))])"
proof (cases "\<not> Deleted (fs ! i) \<and> may_delete r keep (fs ! i)")
  case False
  then have "fst (DeleteFile r keep (fs ! i)) = fs ! i" by (auto simp: DeleteFile_mark)
  with assms(2) show ?thesis by simp
next
  case True
  let ?f = "(fs ! i)\<lparr>Deleted := True\<rparr>"
  have i: "i < length fs" and d: "distinct (map PathName fs)" using assms(1) by (simp_all add: worklist_def)
  have less: "oldest_key (fs ! i) < oldest_key (fs ! j)"
    if "j < length fs" "j \<noteq> i" "\<not> Deleted (fs ! j)" "may_delete r keep (fs ! j)" for j
  proof -
    have "j \<in> set is" using that assms(1) by (auto simp: worklist_def)
    then have "oldest_key (fs ! i) \<le> oldest_key (fs ! j)" using assms(1) by (simp add: worklist_def)
    moreover have "PathName (fs ! i) \<noteq> PathName (fs ! j)"
      using d i that(1,2) by (auto simp: distinct_conv_nth)
    ultimately show ?thesis by (auto simp: oldest_key_def)
  qed
  have "oldest_deleted r keep (fs[i := ?f])"
    unfolding oldest_deleted_def
  proof (intro ballI impI)
    fix f g
    assume fg: "f \<in> set (fs[i := ?f])" "g \<in> set (fs[i := ?f])" and fd: "Deleted f" and gd: "\<not> Deleted g"
      and gm: "may_delete r keep g"
    from fg(2) obtain j where j: "j < length fs" "g = fs[i := ?f] ! j" by (auto simp: in_set_conv_nth)
    with gd i have ji: "j \<noteq> i" "g = fs ! j" by (auto simp: nth_list_update split: if_splits)
    from fg(1) obtain k where k: "k < length fs" "f = fs[i := ?f] ! k" by (auto simp: in_set_conv_nth)
    show "oldest_key f < oldest_key g"
    proof (cases "k = i")
      case True
      with k i ji j(1) gd gm less [of j] show ?thesis by simp
    next
      case False
      with k have "f = fs ! k" by simp
      with assms(2) k(1) j(1) ji fd gd gm show ?thesis by (simp add: oldest_deleted_def)
    qed
  qed
  with True show ?thesis by (simp add: DeleteFile_mark)
qed

lemma delete_at_oldest:
  "worklist r keep (xs @ ys) fs \<Longrightarrow> oldest_deleted r keep fs \<Longrightarrow> oldest_deleted r keep (delete_at r keep xs fs)"
  by (induction xs arbitrary: fs) (simp_all add: worklist_step oldest_deleted_step)


section \<open>The limits afterwards\<close>

definition none_left :: "(string \<Rightarrow> bool) \<Rightarrow> string \<Rightarrow> file_info list \<Rightarrow> bool" where
  "none_left r keep fs \<longleftrightarrow> (\<forall>f \<in> set fs. \<not> Deleted f \<longrightarrow> \<not> may_delete r keep f)"

definition nat_total :: "file_info list \<Rightarrow> nat" where
  "nat_total fs = (\<Sum>f\<leftarrow>fs. if Deleted f then 0 else unat (FileSize f))"

lemma worklist_empty: "worklist r keep [] fs \<Longrightarrow> none_left r keep fs"
  by (auto simp: worklist_def none_left_def in_set_conv_nth)

lemma split_at: "i < length fs \<Longrightarrow> fs = take i fs @ fs ! i # drop (Suc i) fs"
  by (rule id_take_nth_drop)

lemma count_mark:
  assumes "i < length fs" and "\<not> Deleted (fs ! i)"
  shows "CountExisting fs = Suc (CountExisting (fs[i := (fs ! i)\<lparr>Deleted := True\<rparr>]))"
  using assms by (subst (1) split_at [OF assms(1)]) (simp add: CountExisting_def upd_conv_take_nth_drop)

lemma sizes_mark:
  assumes "i < length fs" and "\<not> Deleted (fs ! i)"
  shows "CalculateTotalSize fs = CalculateTotalSize (fs[i := (fs ! i)\<lparr>Deleted := True\<rparr>]) + FileSize (fs ! i)"
    "nat_total fs = nat_total (fs[i := (fs ! i)\<lparr>Deleted := True\<rparr>]) + unat (FileSize (fs ! i))"
  using assms
  by (subst (1) split_at [OF assms(1)], simp add: CalculateTotalSize_def nat_total_def upd_conv_take_nth_drop)+

lemma total_unat: "nat_total fs < 2 ^ 64 \<Longrightarrow> unat (CalculateTotalSize fs) = nat_total fs"
proof (induction fs)
  case (Cons f fs)
  show ?case
  proof (cases "Deleted f")
    case True
    with Cons show ?thesis by (simp add: CalculateTotalSize_def nat_total_def)
  next
    case False
    have sum: "unat (FileSize f) + nat_total fs < 2 ^ 64" using Cons.prems False by (simp add: nat_total_def)
    with Cons.IH have "unat (CalculateTotalSize fs) = nat_total fs" by simp
    with sum have "unat (FileSize f + CalculateTotalSize fs) = unat (FileSize f) + nat_total fs"
      by (subst unat_add_lem [THEN iffD1]) simp_all
    with False show ?thesis by (simp add: CalculateTotalSize_def nat_total_def)
  qed
qed (simp add: CalculateTotalSize_def nat_total_def)

definition undeleted_at :: "nat list \<Rightarrow> file_info list \<Rightarrow> bool" where
  "undeleted_at is fs \<longleftrightarrow> (\<forall>i \<in> set is. \<not> Deleted (fs ! i))"

lemma undeleted_step:
  "undeleted_at (i # is) fs \<Longrightarrow> worklist r keep (i # is) fs \<Longrightarrow> undeleted_at is (fs[i := f])"
  unfolding undeleted_at_def worklist_def by (metis distinct.simps(2) list.set_intros(2) nth_list_update_neq)

lemma max_files_limit:
  assumes "worklist r keep is fs" and "undeleted_at is fs" and "n = CountExisting fs"
  shows "CountExisting (max_files_loop r keep limit is n fs) \<le> limit \<or> none_left r keep (max_files_loop r keep limit is n fs)"
    and "min limit n \<le> CountExisting (max_files_loop r keep limit is n fs)"
  using assms
proof (atomize (full), induction "is" arbitrary: n fs)
  case Nil
  then show ?case by (auto simp: worklist_empty)
next
  case (Cons i "is")
  show ?case
  proof (cases "n \<le> limit")
    case True
    with Cons.prems show ?thesis by simp
  next
    case False
    let ?d = "DeleteFile r keep (fs ! i)"
    let ?fs = "fs[i := fst ?d]"
    have i: "i < length fs" "\<not> Deleted (fs ! i)" using Cons.prems by (auto simp: worklist_def undeleted_at_def)
    have c: "(if snd ?d then n - 1 else n) = CountExisting ?fs"
      using Cons.prems(3) i count_mark [OF i] by (auto simp: DeleteFile_mark)
    have eq: "max_files_loop r keep limit (i # is) n fs = max_files_loop r keep limit is (if snd ?d then n - 1 else n) ?fs"
      using False by (simp add: case_prod_beta)
    have "min limit n \<le> min limit (if snd ?d then n - 1 else n)" using False by auto
    with Cons.IH [OF worklist_step [OF Cons.prems(1)] undeleted_step [OF Cons.prems(2,1)] c] show ?thesis
      unfolding eq by linarith
  qed
qed

lemma total_size_limit:
  assumes "worklist r keep is fs" and "undeleted_at is fs" and "n = CalculateTotalSize fs" and "nat_total fs < 2 ^ 64"
  shows "nat_total (total_size_loop r keep limit is n fs) \<le> unat limit \<or> none_left r keep (total_size_loop r keep limit is n fs)"
  using assms
proof (induction "is" arbitrary: n fs)
  case Nil
  then show ?case by (auto simp: worklist_empty)
next
  case (Cons i "is")
  show ?case
  proof (cases "n \<le> limit")
    case True
    with Cons.prems total_unat [OF Cons.prems(4)] show ?thesis by (simp add: word_le_nat_alt)
  next
    case False
    let ?d = "DeleteFile r keep (fs ! i)"
    let ?fs = "fs[i := fst ?d]" and ?n = "if \<not> snd (DeleteFile r keep (fs ! i)) then n else if FileSize (fs ! i) > n then 0 else n - FileSize (fs ! i)"
    have i: "i < length fs" "\<not> Deleted (fs ! i)" using Cons.prems by (auto simp: worklist_def undeleted_at_def)
    have "\<not> FileSize (fs ! i) > n"
      using Cons.prems(3) total_unat [OF Cons.prems(4)] sizes_mark(2) [OF i] by (simp add: word_less_nat_alt)
    then have c: "?n = CalculateTotalSize ?fs"
      using Cons.prems(3) i sizes_mark(1) [OF i] by (auto simp: DeleteFile_mark)
    have small: "nat_total ?fs < 2 ^ 64"
      using Cons.prems(4) sizes_mark(2) [OF i] by (auto simp: DeleteFile_mark)
    have eq: "total_size_loop r keep limit (i # is) n fs = total_size_loop r keep limit is ?n ?fs"
      using False by (simp add: case_prod_beta Let_def)
    show ?thesis
      unfolding eq by (rule Cons.IH [OF worklist_step [OF Cons.prems(1)] undeleted_step [OF Cons.prems(2,1)] c small])
  qed
qed

lemma undeleted_start: "undeleted_at (GetOldestExistingFiles fs) fs"
  by (simp add: undeleted_at_def GetOldestExistingFiles_def)


section \<open>What \<open>CleanFiles\<close> achieves\<close>

lemma marks_none_left:
  assumes "marks r keep fs fs'" and "none_left r keep fs"
  shows "none_left r keep fs'"
  unfolding none_left_def
proof (intro ballI impI)
  fix f assume f: "f \<in> set fs'" "\<not> Deleted f"
  from f(1) obtain i where i: "i < length fs'" "f = fs' ! i" by (auto simp: in_set_conv_nth)
  with assms(1) f(2) have "i < length fs" "f = fs ! i" by (auto simp: marks_def)
  with assms(2) f(2) show "\<not> may_delete r keep f" by (simp add: none_left_def)
qed

lemma marks_survivor: "marks r keep fs fs' \<Longrightarrow> f \<in> set fs' \<Longrightarrow> \<not> Deleted f \<Longrightarrow> f \<in> set fs"
  by (fastforce simp: marks_def in_set_conv_nth)

lemma marks_count: "marks r keep fs fs' \<Longrightarrow> CountExisting fs' \<le> CountExisting fs"
proof (induction fs arbitrary: fs')
  case (Cons f fs)
  then obtain f' gs where fs': "fs' = f' # gs" by (cases fs') (auto simp: marks_def)
  have "marks r keep fs gs" and "f' = f \<or> Deleted f'"
    using Cons.prems fs' by (auto simp: marks_def All_less_Suc2)
  with Cons.IH [of gs] fs' show ?case by (auto simp: CountExisting_def)
qed (simp add: marks_def)

lemma marks_total: "marks r keep fs fs' \<Longrightarrow> nat_total fs' \<le> nat_total fs"
proof (induction fs arbitrary: fs')
  case (Cons f fs)
  then obtain f' gs where fs': "fs' = f' # gs" by (cases fs') (auto simp: marks_def)
  have "marks r keep fs gs" and "f' = f \<or> Deleted f'"
    using Cons.prems fs' by (auto simp: marks_def All_less_Suc2)
  with Cons.IH [of gs] fs' show ?case by (auto simp: nat_total_def)
qed (simp add: marks_def)

lemma worklist_marks: "marks r keep fs (delete_at r keep (take k (GetOldestExistingFiles fs)) fs)"
  by (rule delete_at_marks) (auto simp: GetOldestExistingFiles_def dest: in_set_takeD)

lemma worklist_oldest:
  assumes "distinct (map PathName fs)" and "oldest_deleted r keep fs"
  shows "oldest_deleted r keep (delete_at r keep (take k (GetOldestExistingFiles fs)) fs)"
  using delete_at_oldest [OF _ assms(2), of "take k (GetOldestExistingFiles fs)" "drop k (GetOldestExistingFiles fs)"]
    worklist_start [OF assms(1)] by simp

lemma ApplyMaxFiles_prefix: "\<exists>k. ApplyMaxFiles r keep limit fs = delete_at r keep (take k (GetOldestExistingFiles fs)) fs"
  using max_files_prefix [of r keep limit "GetOldestExistingFiles fs" "CountExisting fs" fs]
  by (auto simp: ApplyMaxFiles_def Let_def intro: exI [of _ 0])

lemma ApplyMaxTotalSize_prefix:
  "\<exists>k. ApplyMaxTotalSize r keep limit fs = delete_at r keep (take k (GetOldestExistingFiles fs)) fs"
  using total_size_prefix [of r keep limit "GetOldestExistingFiles fs" "CalculateTotalSize fs" fs]
  by (auto simp: ApplyMaxTotalSize_def Let_def intro: exI [of _ 0])

lemma ApplyMaxAge_marks: "marks r keep fs (ApplyMaxAge r keep now u m fs)"
  by (auto simp: marks_def ApplyMaxAge_def DeleteFile_mark may_delete_def)

lemma ApplyMaxAge_limit:
  assumes "m \<noteq> 0" and "f \<in> set (ApplyMaxAge r keep now u m fs)" and "\<not> Deleted f" and "may_delete r keep f"
  shows "now - LastWrite f \<le> int (unat m) * u"
  using assms by (auto simp: ApplyMaxAge_def DeleteFile_mark may_delete_def split: if_splits)

lemma ApplyMaxAge_oldest:
  assumes "oldest_deleted r keep fs"
  shows "oldest_deleted r keep (ApplyMaxAge r keep now u m fs)"
proof (cases "m = 0")
  case True
  with assms show ?thesis by (simp add: ApplyMaxAge_def)
next
  case False
  show ?thesis
    unfolding oldest_deleted_def
  proof (intro ballI impI)
    fix f g
    assume fs': "f \<in> set (ApplyMaxAge r keep now u m fs)" "g \<in> set (ApplyMaxAge r keep now u m fs)"
      and d: "Deleted f" "\<not> Deleted g" "may_delete r keep g"
    have g: "g \<in> set fs" by (rule marks_survivor [OF ApplyMaxAge_marks fs'(2) d(2)])
    have young: "now - LastWrite g \<le> int (unat m) * u" by (rule ApplyMaxAge_limit [OF False fs'(2) d(2,3)])
    from fs'(1) d(1) False consider "f \<in> set fs" | h where "h \<in> set fs" "f = h\<lparr>Deleted := True\<rparr>" "\<not> now - LastWrite h \<le> int (unat m) * u"
      by (auto simp: ApplyMaxAge_def DeleteFile_mark split: if_splits)
    then show "oldest_key f < oldest_key g"
    proof cases
      case 1
      with assms g d show ?thesis by (simp add: oldest_deleted_def)
    next
      case 2
      with young show ?thesis by (auto simp: oldest_key_def)
    qed
  qed
qed

lemma ApplyMaxFiles_limit:
  assumes "distinct (map PathName fs)" and "limit \<noteq> 0"
  shows "CountExisting (ApplyMaxFiles r keep limit fs) \<le> limit \<or> none_left r keep (ApplyMaxFiles r keep limit fs)"
    and "min limit (CountExisting fs) \<le> CountExisting (ApplyMaxFiles r keep limit fs)"
  using max_files_limit [OF worklist_start [OF assms(1)] undeleted_start refl, where limit = limit and r = r and keep = keep] assms(2)
  by (auto simp: ApplyMaxFiles_def Let_def)

lemma ApplyMaxTotalSize_limit:
  assumes "distinct (map PathName fs)" and "limit \<noteq> 0" and "nat_total fs < 2 ^ 64"
  shows "nat_total (ApplyMaxTotalSize r keep limit fs) \<le> unat limit \<or> none_left r keep (ApplyMaxTotalSize r keep limit fs)"
  using total_size_limit [OF worklist_start [OF assms(1)] undeleted_start refl assms(3), where limit = limit and r = r and keep = keep] assms(2)
    total_unat [OF assms(3)]
  by (auto simp: ApplyMaxTotalSize_def Let_def word_le_nat_alt)


text \<open>The size of everything the directory holds.\<close>

definition dir_size :: "dir_entry list \<Rightarrow> nat" where
  "dir_size dir = (\<Sum>x\<leftarrow>dir. case EntrySize x of None \<Rightarrow> 0 | Some n \<Rightarrow> unat n)"

lemma found_entry:
  "f \<in> set (FindMatchingFiles m dir) \<Longrightarrow>
     \<not> Deleted f \<and> m (PathName f) \<and> (\<exists>x \<in> set dir. EntryRegular x \<and> EntryPath x = PathName f)"
  by (induction dir) (auto split: if_splits option.splits)

lemma found_distinct: "distinct (map EntryPath dir) \<Longrightarrow> distinct (map PathName (FindMatchingFiles m dir))"
proof (induction dir)
  case (Cons x dir)
  have "EntryPath x \<notin> PathName ` set (FindMatchingFiles m dir)"
    using Cons.prems found_entry [of _ m dir] by force
  with Cons show ?case by (auto split: option.split)
qed simp

lemma found_size: "nat_total (FindMatchingFiles m dir) \<le> dir_size dir"
  by (induction dir) (auto simp: nat_total_def dir_size_def split: option.split)

lemma SortNewestFirst_keeps:
  "set (SortNewestFirst fs) = set fs"
  "distinct (map PathName (SortNewestFirst fs)) = distinct (map PathName fs)"
  "nat_total (SortNewestFirst fs) = nat_total fs"
proof -
  have m: "mset (SortNewestFirst fs) = mset fs" by (simp add: SortNewestFirst_def)
  then show "set (SortNewestFirst fs) = set fs" by (rule mset_eq_setD)
  have "mset (map PathName (SortNewestFirst fs)) = mset (map PathName fs)" using m by simp
  then show "distinct (map PathName (SortNewestFirst fs)) = distinct (map PathName fs)" by (rule mset_eq_imp_distinct_iff)
  show "nat_total (SortNewestFirst fs) = nat_total fs"
    unfolding nat_total_def sum_mset_sum_list [symmetric] mset_map m ..
qed

text \<open>C26. Cleaning keeps the newest files within the limits. Of the files in the directory only regular
  ones whose path the pattern matches are deleted, never the file to keep; no deleted file is newer
  than one that is spared although it could be removed. Afterwards each limit that is set holds,
  unless nothing that could be removed is left: number, total size (of a directory of less than 2^64
  bytes), and age of every spared file. A limit on the number alone spares as many files as it may.\<close>

theorem retention_keeps_newest:
  assumes "keep \<noteq> []" and "\<not> RetentionOptions_IsEmpty p" and "distinct (map EntryPath dir)" and "dir_size dir < 2 ^ 64"
  shows "let fs = CleanFiles m r now u dir keep p in
    (\<forall>f \<in> set fs. Deleted f \<longrightarrow> m (PathName f) \<and> PathName f \<noteq> keep \<and>
       (\<exists>x \<in> set dir. EntryRegular x \<and> EntryPath x = PathName f)) \<and>
    oldest_deleted r keep fs \<and>
    (MaxFiles p \<noteq> 0 \<longrightarrow> CountExisting fs \<le> MaxFiles p \<or> none_left r keep fs) \<and>
    (MaxAgeMs p \<noteq> 0 \<longrightarrow> (\<forall>f \<in> set fs. \<not> Deleted f \<longrightarrow> may_delete r keep f \<longrightarrow>
       now - LastWrite f \<le> int (unat (MaxAgeMs p)) * u)) \<and>
    (MaxTotalSize p \<noteq> 0 \<longrightarrow> nat_total fs \<le> unat (MaxTotalSize p) \<or> none_left r keep fs) \<and>
    (MaxAgeMs p = 0 \<longrightarrow> MaxTotalSize p = 0 \<longrightarrow>
       min (MaxFiles p) (length (FindMatchingFiles m dir)) \<le> CountExisting fs)"
proof -
  let ?f0 = "SortNewestFirst (FindMatchingFiles m dir)"
  let ?f1 = "ApplyMaxFiles r keep (MaxFiles p) ?f0"
  let ?f2 = "ApplyMaxAge r keep now u (MaxAgeMs p) ?f1"
  let ?f3 = "ApplyMaxTotalSize r keep (MaxTotalSize p) ?f2"
  have fs: "CleanFiles m r now u dir keep p = ?f3" using assms(1,2) by (simp add: CleanFiles_def Let_def)
  have d0: "distinct (map PathName ?f0)" using found_distinct [OF assms(3)] by (simp add: SortNewestFirst_keeps)
  have new: "\<not> Deleted f" if "f \<in> set ?f0" for f using that found_entry by (simp add: SortNewestFirst_keeps)
  obtain k where f1: "?f1 = delete_at r keep (take k (GetOldestExistingFiles ?f0)) ?f0" using ApplyMaxFiles_prefix by blast
  obtain k' where f3: "?f3 = delete_at r keep (take k' (GetOldestExistingFiles ?f2)) ?f2" using ApplyMaxTotalSize_prefix by blast
  have m1: "marks r keep ?f0 ?f1" unfolding f1 by (rule worklist_marks)
  have m2: "marks r keep ?f1 ?f2" by (rule ApplyMaxAge_marks)
  have m3: "marks r keep ?f2 ?f3" unfolding f3 by (rule worklist_marks)
  have m13: "marks r keep ?f1 ?f3" and m03: "marks r keep ?f0 ?f3" using m1 m2 m3 by (blast intro: marks_trans)+
  have d2: "distinct (map PathName ?f2)" using d0 marks_paths [OF m1] marks_paths [OF m2] by simp
  have "oldest_deleted r keep ?f0" using new by (simp add: oldest_deleted_def)
  then have "oldest_deleted r keep ?f1" unfolding f1 by (rule worklist_oldest [OF d0])
  then have "oldest_deleted r keep ?f2" by (rule ApplyMaxAge_oldest)
  then have oldest: "oldest_deleted r keep ?f3" unfolding f3 by (rule worklist_oldest [OF d2])
  have only: "m (PathName f) \<and> PathName f \<noteq> keep \<and> (\<exists>x \<in> set dir. EntryRegular x \<and> EntryPath x = PathName f)"
    if f: "f \<in> set ?f3" "Deleted f" for f
  proof -
    from f(1) obtain i where i: "i < length ?f3" "f = ?f3 ! i" by (auto simp: in_set_conv_nth)
    with m03 f(2) new [of "?f0 ! i"] have g: "i < length ?f0" "may_delete r keep (?f0 ! i)" "PathName f = PathName (?f0 ! i)"
      by (auto simp: marks_def)
    have "?f0 ! i \<in> set (FindMatchingFiles m dir)" using nth_mem [OF g(1)] unfolding SortNewestFirst_keeps(1) .
    from found_entry [OF this] g show ?thesis by (simp add: may_delete_def)
  qed
  have files: "CountExisting ?f3 \<le> MaxFiles p \<or> none_left r keep ?f3" if "MaxFiles p \<noteq> 0"
    using ApplyMaxFiles_limit(1) [OF d0 that, of r keep] marks_none_left [OF m13] marks_count [OF m13] by auto
  have age: "now - LastWrite f \<le> int (unat (MaxAgeMs p)) * u"
    if "MaxAgeMs p \<noteq> 0" "f \<in> set ?f3" "\<not> Deleted f" "may_delete r keep f" for f
    using ApplyMaxAge_limit [OF that(1) marks_survivor [OF m3 that(2,3)] that(3,4)] .
  have "nat_total ?f2 \<le> nat_total ?f0" using marks_total [OF m1] marks_total [OF m2] by simp
  also have "\<dots> \<le> dir_size dir" by (simp add: SortNewestFirst_keeps found_size)
  finally have "nat_total ?f2 < 2 ^ 64" using assms(4) by simp
  from ApplyMaxTotalSize_limit [OF d2 _ this, of "MaxTotalSize p" r keep]
  have sizes: "MaxTotalSize p \<noteq> 0 \<Longrightarrow> nat_total ?f3 \<le> unat (MaxTotalSize p) \<or> none_left r keep ?f3" by blast
  have "CountExisting ?f0 = length (FindMatchingFiles m dir)"
  proof -
    have "filter (\<lambda>f. \<not> Deleted f) ?f0 = ?f0" using new by (simp add: filter_id_conv)
    then show ?thesis by (simp add: CountExisting_def SortNewestFirst_def)
  qed
  then have spare: "min (MaxFiles p) (length (FindMatchingFiles m dir)) \<le> CountExisting ?f3"
    if "MaxAgeMs p = 0" "MaxTotalSize p = 0"
    using ApplyMaxFiles_limit(2) [OF d0, of "MaxFiles p" r keep] that
    by (cases "MaxFiles p = 0") (simp_all add: ApplyMaxAge_def ApplyMaxTotalSize_def)
  show ?thesis
    unfolding fs Let_def using only oldest files age sizes spare by blast
qed

definition demo_dir :: "dir_entry list" where
  "demo_dir =
     [\<lparr>EntryPath = ''l/a'', EntryRegular = True, EntryLastWrite = Some 10, EntrySize = Some 5\<rparr>,
      \<lparr>EntryPath = ''l/b'', EntryRegular = True, EntryLastWrite = Some 30, EntrySize = Some 5\<rparr>,
      \<lparr>EntryPath = ''l/c'', EntryRegular = True, EntryLastWrite = Some 20, EntrySize = Some 5\<rparr>,
      \<lparr>EntryPath = ''l/d'', EntryRegular = False, EntryLastWrite = Some 1, EntrySize = None\<rparr>]"

theorem retention_keeps_newest_witness:
  "CountExisting (CleanFiles (\<lambda>_. True) (\<lambda>_. True) 100 1 demo_dir ''l/a'' \<lparr>MaxFiles = 2, MaxAgeMs = 0, MaxTotalSize = 0\<rparr>) = 2"
proof -
  let ?p = "\<lparr>MaxFiles = 2, MaxAgeMs = 0, MaxTotalSize = 0\<rparr>"
  let ?fs = "CleanFiles (\<lambda>_. True) (\<lambda>_. True) 100 1 demo_dir ''l/a'' ?p"
  have "\<not> RetentionOptions_IsEmpty ?p" "distinct (map EntryPath demo_dir)" "dir_size demo_dir < 2 ^ 64"
    by (simp_all add: RetentionOptions_IsEmpty_def demo_dir_def dir_size_def)
  from retention_keeps_newest [OF _ this, of "''l/a''" "\<lambda>_. True" "\<lambda>_. True" 100 1]
  have l: "CountExisting ?fs \<le> 2 \<or> none_left (\<lambda>_. True) ''l/a'' ?fs" "2 \<le> CountExisting ?fs"
    by (simp_all add: Let_def demo_dir_def)
  have "\<not> none_left (\<lambda>_. True) ''l/a'' ?fs" by code_simp
  with l show ?thesis by simp
qed

end
