(* ===== verification/Templates.thy ===== *)
theory Templates
  imports Text_Utils
begin

text \<open>
  File name templates (\<open>Template.cpp\<close>) and the variables they may name (\<open>Environment.cpp\<close>). The process
  (its id, executable, path), the time as two texts and the environment are arguments. A variable's
  value is a template again, so the expansion is a \<open>partial_function (option)\<close>: \<open>None\<close> is a call that
  never returns (the C++ stack overflows). The log line about an expansion is not modelled.
  Lemmas: when an expansion returns, what it changes, and when it cannot return.
\<close>

unbundle bit_operations_syntax

section \<open>Variables\<close>

definition EnvSetVar :: "string option \<Rightarrow> string option \<Rightarrow> (string \<rightharpoonup> string) \<Rightarrow> (string \<rightharpoonup> string)" where
  "EnvSetVar name v env =
     (case name of
        None \<Rightarrow> env
      | Some n \<Rightarrow> (if v = None \<or> c_str (the v) = [] then env(c_str n := None) else env(c_str n \<mapsto> c_str (the v))))"

definition EnvGetVar :: "string option \<Rightarrow> (string \<rightharpoonup> string) \<Rightarrow> string" where
  "EnvGetVar name env =
     (case name of None \<Rightarrow> [] | Some n \<Rightarrow> (case env (c_str n) of None \<Rightarrow> [] | Some v \<Rightarrow> v))"

lemma env_set_get:
  "EnvGetVar (Some m) (EnvSetVar (Some n) v env) =
     (if c_str m = c_str n then (case v of None \<Rightarrow> [] | Some v \<Rightarrow> c_str v) else EnvGetVar (Some m) env)"
  by (auto simp: EnvGetVar_def EnvSetVar_def split: option.split)

section \<open>The text buffer\<close>

text \<open>Up to 512 bytes are kept in the object, more in a string.\<close>

record template_buffer =
  BufferBytes :: string
  BufferText :: "string option"

definition TEMPLATE_BUFFER_SIZE :: nat where
  "TEMPLATE_BUFFER_SIZE = 512"

definition TemplateBuffer_new :: template_buffer where
  "TemplateBuffer_new = \<lparr>BufferBytes = [], BufferText = None\<rparr>"

definition TemplateBuffer_Append :: "string \<Rightarrow> template_buffer \<Rightarrow> template_buffer" where
  "TemplateBuffer_Append str b =
     (if str = [] then b
      else case BufferText b of
             Some t \<Rightarrow> b\<lparr>BufferText := Some (t @ str)\<rparr>
           | None \<Rightarrow>
               if length (BufferBytes b) + length str \<le> TEMPLATE_BUFFER_SIZE
               then b\<lparr>BufferBytes := BufferBytes b @ str\<rparr>
               else b\<lparr>BufferText := Some (BufferBytes b @ str)\<rparr>)"

definition TemplateBuffer_ToString :: "template_buffer \<Rightarrow> string" where
  "TemplateBuffer_ToString b = (case BufferText b of Some t \<Rightarrow> t | None \<Rightarrow> BufferBytes b)"

lemma buffer_new [simp]: "TemplateBuffer_ToString TemplateBuffer_new = []"
  by (simp add: TemplateBuffer_ToString_def TemplateBuffer_new_def)

lemma buffer_append [simp]:
  "TemplateBuffer_ToString (TemplateBuffer_Append str b) = TemplateBuffer_ToString b @ str"
  by (simp add: TemplateBuffer_ToString_def TemplateBuffer_Append_def split: option.split)

section \<open>Placeholders\<close>

datatype template_flag = TEMPLATE_PID | TEMPLATE_PNAME | TEMPLATE_PDATE | TEMPLATE_TARGET | TEMPLATE_EXEPATH | TEMPLATE_PDATETIME

fun flag_bit :: "template_flag \<Rightarrow> u32" where
  "flag_bit TEMPLATE_PID = 0x01"
| "flag_bit TEMPLATE_PNAME = 0x02"
| "flag_bit TEMPLATE_PDATE = 0x04"
| "flag_bit TEMPLATE_TARGET = 0x08"
| "flag_bit TEMPLATE_EXEPATH = 0x10"
| "flag_bit TEMPLATE_PDATETIME = 0x20"

definition TEMPLATE_ALL :: u32 where
  "TEMPLATE_ALL = 0xFFFFFFFF"

definition TEMPLATE_DATE_AND_TIME :: u32 where
  "TEMPLATE_DATE_AND_TIME = 0x24"

definition TPID :: string where "TPID = ''{pid}''"
definition TPNAME :: string where "TPNAME = ''{pname}''"
definition TDATE :: string where "TDATE = ''{date}''"
definition TDATETIME :: string where "TDATETIME = ''{datetime}''"
definition TTARGET :: string where "TTARGET = ''{target}''"
definition TEXEPATH :: string where "TEXEPATH = ''{exepath}''"

record template_env =
  Env :: "string \<rightharpoonup> string"
  ProcessIdText :: string
  ExeName :: string
  ExecutablePath :: string
  DateText :: string
  DateTimeText :: string

record template_param =
  TemplateFlags :: u32
  TargetChannel :: "string option"

text \<open>\<open>exe.substr(0, exe.find_last_of('.'))\<close>\<close>

definition strip_extension :: "string \<Rightarrow> string" where
  "strip_extension exe =
     (if CHR ''.'' \<in> set exe then rev (tl (dropWhile (\<lambda>c. c \<noteq> CHR ''.'') (rev exe))) else exe)"

text \<open>The placeholder a text begins with, in the order of the tests, and what it stands for.\<close>

definition template_field :: "string \<Rightarrow> (string \<times> template_flag) option" where
  "template_field p =
     (if prefix TPID p then Some (TPID, TEMPLATE_PID)
      else if prefix TPNAME p then Some (TPNAME, TEMPLATE_PNAME)
      else if prefix TDATETIME p then Some (TDATETIME, TEMPLATE_PDATETIME)
      else if prefix TDATE p then Some (TDATE, TEMPLATE_PDATE)
      else if prefix TTARGET p then Some (TTARGET, TEMPLATE_TARGET)
      else if prefix TEXEPATH p then Some (TEXEPATH, TEMPLATE_EXEPATH)
      else None)"

definition field_text :: "template_env \<Rightarrow> template_param \<Rightarrow> template_flag \<Rightarrow> string" where
  "field_text env param f =
     (case f of
        TEMPLATE_PID \<Rightarrow> ProcessIdText env
      | TEMPLATE_PNAME \<Rightarrow> strip_extension (ExeName env)
      | TEMPLATE_PDATETIME \<Rightarrow> DateTimeText env
      | TEMPLATE_PDATE \<Rightarrow> DateText env
      | TEMPLATE_TARGET \<Rightarrow> (case TargetChannel param of None \<Rightarrow> ''0'' | Some t \<Rightarrow> c_str t)
      | TEMPLATE_EXEPATH \<Rightarrow> ExecutablePath env)"

section \<open>Expansion\<close>

text \<open>The variable of \<open>{%name}\<close> and the rest behind the brace; \<open>None\<close> without one.\<close>

definition env_reference :: "string \<Rightarrow> (string \<times> string) option" where
  "env_reference p =
     (if prefix ''{%'' p \<and> CHR ''}'' \<in> set p
      then Some (takeWhile (\<lambda>c. c \<noteq> CHR ''}'') (drop 2 p), tl (dropWhile (\<lambda>c. c \<noteq> CHR ''}'') p))
      else None)"

text \<open>The loop, with the buffer and the flags that were not processed.\<close>

partial_function (option) template_loop ::
  "template_env \<Rightarrow> template_param \<Rightarrow> string \<Rightarrow> template_buffer \<Rightarrow> u32 \<Rightarrow> (string \<times> u32) option" where
  "template_loop env param p name np =
     (case p of
        [] \<Rightarrow> Some (TemplateBuffer_ToString name, np)
      | ch # cs \<Rightarrow>
          if ch \<noteq> CHR ''{'' then template_loop env param cs (TemplateBuffer_Append [ch] name) np
          else
            (case env_reference p of
               Some (var, rest) \<Rightarrow>
                 if CHR ''%'' \<in> set var
                 then template_loop env param rest
                        (TemplateBuffer_Append ''}'' (TemplateBuffer_Append var (TemplateBuffer_Append ''{%'' name))) np
                 else
                   let v = c_str (EnvGetVar (Some var) (Env env)) in
                   Option.bind (if CHR ''{'' \<notin> set v then Some (v, 0)
                                else template_loop env param v TemplateBuffer_new 0)
                     (\<lambda>v. template_loop env param rest (TemplateBuffer_Append (fst v) name) np)
             | None \<Rightarrow>
                 (case template_field p of
                    None \<Rightarrow> template_loop env param cs (TemplateBuffer_Append [ch] name) np
                  | Some (field, f) \<Rightarrow>
                      if TemplateFlags param AND flag_bit f \<noteq> 0
                      then template_loop env param (drop (length field) p)
                             (TemplateBuffer_Append (field_text env param f) name) np
                      else template_loop env param cs (TemplateBuffer_Append [ch] name) (np OR flag_bit f))))"

definition ProcessTemplate :: "template_env \<Rightarrow> template_param \<Rightarrow> string option \<Rightarrow> (string \<times> u32) option" where
  "ProcessTemplate env param p =
     (case p of
        None \<Rightarrow> Some ([], 0)
      | Some p \<Rightarrow>
          let p = c_str p in
          if CHR ''{'' \<notin> set p then Some (p, 0) else template_loop env param p TemplateBuffer_new 0)"


section \<open>When an expansion returns\<close>

text \<open>The variables a text refers to, at any place.\<close>

definition references :: "string \<Rightarrow> string set" where
  "references p = {var. \<exists>q rest. suffix q p \<and> env_reference q = Some (var, rest) \<and> CHR ''%'' \<notin> set var}"

definition variable_text :: "template_env \<Rightarrow> string \<Rightarrow> string" where
  "variable_text env var = c_str (EnvGetVar (Some var) (Env env))"

lemma references_suffix: "suffix q p \<Longrightarrow> references q \<subseteq> references p"
  by (auto simp: references_def dest: suffix_order.trans)

lemma finite_references: "finite (references p)"
proof -
  have "references p \<subseteq> (\<lambda>q. fst (the (env_reference q))) ` set (suffixes p)"
    by (force simp: references_def image_iff set_suffixes_eq)
  then show ?thesis by (rule finite_subset) simp
qed

lemma no_references: "CHR ''{'' \<notin> set p \<Longrightarrow> references p = {}"
proof -
  assume p: "CHR ''{'' \<notin> set p"
  have "env_reference q = None" if "suffix q p" for q
  proof -
    have "CHR ''{'' \<notin> set q" using p set_mono_suffix [OF that] by blast
    then have "\<not> prefix ''{%'' q" by (auto simp: prefix_def)
    then show ?thesis by (simp add: env_reference_def)
  qed
  then show ?thesis by (auto simp: references_def)
qed

lemma env_reference_rest: "env_reference p = Some (var, rest) \<Longrightarrow> suffix rest p \<and> length rest < length p"
proof -
  assume r: "env_reference p = Some (var, rest)"
  then have rest: "rest = tl (dropWhile (\<lambda>c. c \<noteq> CHR ''}'') p)" and "CHR ''}'' \<in> set p"
    by (auto simp: env_reference_def split: if_splits)
  then have "dropWhile (\<lambda>c. c \<noteq> CHR ''}'') p \<noteq> []" by (auto simp: dropWhile_eq_Nil_conv)
  then have "length rest < length (dropWhile (\<lambda>c. c \<noteq> CHR ''}'') p)" by (simp add: rest)
  then have "length rest < length p"
    using length_dropWhile_le [of "\<lambda>c. c \<noteq> CHR ''}''" p] by simp
  moreover have "suffix rest p"
    unfolding rest by (meson suffix_order.trans suffix_dropWhile suffix_tl)
  ultimately show ?thesis by simp
qed

lemma template_field_length: "template_field p = Some (field, f) \<Longrightarrow> 0 < length field \<and> prefix field p"
  by (auto simp: template_field_def TPID_def TPNAME_def TDATETIME_def TDATE_def TTARGET_def TEXEPATH_def split: if_splits)

lemma suffix_drop': "suffix (drop n p) p"
  by (rule suffix_drop)

lemma template_loop_returns:
  assumes "\<And>x y. y \<in> references (variable_text env x) \<Longrightarrow> (rank y :: nat) < rank x"
    and "\<And>y. y \<in> references p \<Longrightarrow> rank y < n"
  shows "\<exists>r. template_loop env param p name np = Some r"
  using assms(2)
proof (induction n arbitrary: p name np rule: less_induct)
  case (less n)
  note outer = less.IH
  show ?case
    using less.prems
  proof (induction "length p" arbitrary: p name np rule: less_induct)
    case less
    have shorter: "\<exists>r. template_loop env param q name' np' = Some r"
      if "suffix q p" "length q < length p" for q name' np'
      using less.hyps [OF that(2), of name' np'] less.prems references_suffix [OF that(1)] by blast
    show ?case
    proof (cases p)
      case Nil
      then show ?thesis by (subst template_loop.simps) simp
    next
      case (Cons ch cs)
      have cs: "suffix cs p" "length cs < length p" using Cons by (simp_all add: suffix_Cons)
      show ?thesis
      proof (cases "ch = CHR ''{''")
        case False
        with shorter [OF cs] Cons show ?thesis by (subst template_loop.simps) simp
      next
        case True
        show ?thesis
        proof (cases "env_reference p")
          case None
          show ?thesis
          proof (cases "template_field p")
            case None': None
            with None True shorter [OF cs] Cons show ?thesis by (subst template_loop.simps) simp
          next
            case (Some r)
            obtain field f where r: "r = (field, f)" by (cases r)
            have "length (drop (length field) p) < length p"
              using template_field_length [OF Some [unfolded r]] Cons by simp
            from shorter [OF suffix_drop this] shorter [OF cs] None True Some r Cons
            show ?thesis by (subst template_loop.simps) simp
          qed
        next
          case (Some r)
          obtain var rest where r: "r = (var, rest)" by (cases r)
          note rest = env_reference_rest [OF Some [unfolded r]]
          show ?thesis
          proof (cases "CHR ''%'' \<in> set var")
            case True': True
            with True Some r rest shorter [of rest] Cons show ?thesis by (subst template_loop.simps) simp
          next
            case False
            have "var \<in> references p" using Some r False by (auto simp: references_def)
            then have "rank var < n" by (rule less.prems)
            from outer [OF this assms(1)] obtain v where
              "template_loop env param (variable_text env var) TemplateBuffer_new 0 = Some v" by blast
            with True Some r rest shorter [of rest] Cons False show ?thesis
              by (subst template_loop.simps) (auto simp: Let_def variable_text_def case_prod_beta)
          qed
        qed
      qed
    qed
  qed
qed

text \<open>A variable that refers to itself.\<close>

lemma env_reference_at:
  assumes "CHR ''}'' \<notin> set x"
  shows "env_reference (''{%'' @ x @ CHR ''}'' # post) = Some (x, post)"
proof -
  have "takeWhile (\<lambda>c. c \<noteq> CHR ''}'') (x @ CHR ''}'' # post) = x"
    "dropWhile (\<lambda>c. c \<noteq> CHR ''}'') (x @ CHR ''}'' # post) = CHR ''}'' # post"
    using assms by (induction x) auto
  then show ?thesis by (simp add: env_reference_def)
qed

lemma template_loop_diverges:
  assumes "variable_text env x = pre @ ''{%'' @ x @ CHR ''}'' # post" and "CHR ''{'' \<notin> set pre"
    and "CHR ''}'' \<notin> set x" and "CHR ''%'' \<notin> set x"
    and ret: "template_loop env param (pre' @ ''{%'' @ x @ CHR ''}'' # post') name np = Some r" and "CHR ''{'' \<notin> set pre'"
  shows False
proof -
  let ?bad = "\<lambda>p. \<exists>pre' post'. CHR ''{'' \<notin> set pre' \<and> p = pre' @ ''{%'' @ x @ CHR ''}'' # post'"
  let ?P = "\<lambda>env' (param :: template_param) p (name :: template_buffer) (np :: u32) (r :: string \<times> u32). env' = env \<longrightarrow> \<not> ?bad p"
  have "env = env \<longrightarrow> \<not> ?bad (pre' @ ''{%'' @ x @ CHR ''}'' # post')"
  proof (rule template_loop.raw_induct [where P = ?P, OF _ ret], intro impI notI)
    fix f and env' :: template_env and param' :: template_param and p :: string and name' :: template_buffer and np' r'
    assume IH: "\<And>env' param p name np r. f env' param p name np = Some r \<Longrightarrow> env' = env \<longrightarrow> \<not> ?bad p"
      and eq: "(case p of [] \<Rightarrow> Some (TemplateBuffer_ToString name', np')
        | ch # cs \<Rightarrow>
          if ch \<noteq> CHR ''{'' then f env' param' cs (TemplateBuffer_Append [ch] name') np'
          else (case env_reference p of
               Some (var, rest) \<Rightarrow>
                 if CHR ''%'' \<in> set var
                 then f env' param' rest (TemplateBuffer_Append ''}'' (TemplateBuffer_Append var (TemplateBuffer_Append ''{%'' name'))) np'
                 else let v = c_str (EnvGetVar (Some var) (Env env')) in
                   Option.bind (if CHR ''{'' \<notin> set v then Some (v, 0) else f env' param' v TemplateBuffer_new 0)
                     (\<lambda>v. f env' param' rest (TemplateBuffer_Append (fst v) name') np')
             | None \<Rightarrow>
                 (case template_field p of
                    None \<Rightarrow> f env' param' cs (TemplateBuffer_Append [ch] name') np'
                  | Some (field, fl) \<Rightarrow>
                      if TemplateFlags param' AND flag_bit fl \<noteq> 0
                      then f env' param' (drop (length field) p) (TemplateBuffer_Append (field_text env' param' fl) name') np'
                      else f env' param' cs (TemplateBuffer_Append [ch] name') (np' OR flag_bit fl)))) = Some r'"
      and env': "env' = env" and "?bad p"
    from \<open>?bad p\<close> obtain pre' post' where p: "CHR ''{'' \<notin> set pre'" "p = pre' @ ''{%'' @ x @ CHR ''}'' # post'" by blast
    show False
    proof (cases pre')
      case (Cons ch cs)
      then have "ch \<noteq> CHR ''{''" using p(1) by auto
      with Cons p(2) eq have "f env' param' (cs @ ''{%'' @ x @ CHR ''}'' # post') (TemplateBuffer_Append [ch] name') np' = Some r'" by simp
      from IH [OF this] env' p(1) Cons show False by auto
    next
      case Nil
      have v: "c_str (EnvGetVar (Some x) (Env env)) = pre @ ''{%'' @ x @ CHR ''}'' # post"
        using assms(1) by (simp add: variable_text_def)
      have "env_reference p = Some (x, post')" using env_reference_at [OF assms(3), of post'] p(2) Nil by simp
      with eq p(2) Nil assms(4) env' v obtain w where
        "f env param' (pre @ ''{%'' @ x @ CHR ''}'' # post) TemplateBuffer_new 0 = Some w"
        by (auto simp: Let_def bind_eq_Some_conv)
      from IH [OF this] assms(2) show False by blast
    qed
  qed
  with assms(6) show False by blast
qed


text \<open>A template is expanded if its variables do not refer to each other in a circle: with a rank
  that falls from each variable to those its value names, every template returns. A variable whose
  value names itself (behind any text without a brace) never returns, from any template whose first
  brace is that reference.\<close>

theorem template_returns:
  fixes rank :: "string \<Rightarrow> nat"
  shows "((\<forall>x. \<forall>y \<in> references (variable_text env x). rank y < rank x) \<longrightarrow>
      (\<exists>r. ProcessTemplate env param (Some p) = Some r)) \<and>
    (\<forall>x pre post pre' post'. variable_text env x = pre @ ''{%'' @ x @ CHR ''}'' # post \<longrightarrow>
      CHR ''{'' \<notin> set (pre @ pre') \<longrightarrow> CHR ''}'' \<notin> set x \<longrightarrow> CHR ''%'' \<notin> set x \<longrightarrow>
      c_str p = pre' @ ''{%'' @ x @ CHR ''}'' # post' \<longrightarrow> ProcessTemplate env param (Some p) = None)"
proof (intro conjI allI impI)
  assume rank: "\<forall>x. \<forall>y \<in> references (variable_text env x). rank y < rank x"
  have "rank y < Suc (Max (rank ` references (c_str p)))" if "y \<in> references (c_str p)" for y
    using that finite_references by (simp add: less_Suc_eq_le)
  then have "\<exists>r. template_loop env param (c_str p) TemplateBuffer_new 0 = Some r"
    using rank by (intro template_loop_returns [where rank = rank]) auto
  then show "\<exists>r. ProcessTemplate env param (Some p) = Some r" by (simp add: ProcessTemplate_def Let_def)
next
  fix x pre post pre' post'
  assume a: "variable_text env x = pre @ ''{%'' @ x @ CHR ''}'' # post" "CHR ''{'' \<notin> set (pre @ pre')"
    "CHR ''}'' \<notin> set x" "CHR ''%'' \<notin> set x" and p: "c_str p = pre' @ ''{%'' @ x @ CHR ''}'' # post'"
  have "CHR ''{'' \<in> set (c_str p)" using p by simp
  then have "ProcessTemplate env param (Some p) = template_loop env param (c_str p) TemplateBuffer_new 0"
    by (simp add: ProcessTemplate_def Let_def)
  note eq = this [unfolded p]
  have "\<And>r. template_loop env param (pre' @ ''{%'' @ x @ CHR ''}'' # post') TemplateBuffer_new 0 \<noteq> Some r"
    using template_loop_diverges [OF a(1) _ a(3,4)] a(2) by (metis Un_iff set_append)
  then show "ProcessTemplate env param (Some p) = None" unfolding eq by (metis option.exhaust)
qed

definition demo_template_env :: template_env where
  "demo_template_env = \<lparr>Env = [''dir'' \<mapsto> ''/var/log'', ''loop'' \<mapsto> ''x{%loop}''], ProcessIdText = ''42'',
     ExeName = ''app.bin'', ExecutablePath = ''/opt/'', DateText = ''2024-01-02'', DateTimeText = ''2024-01-02-03-04-05''\<rparr>"

definition demo_param :: template_param where
  "demo_param = \<lparr>TemplateFlags = TEMPLATE_ALL, TargetChannel = None\<rparr>"

theorem template_returns_witness:
  "(\<exists>r. ProcessTemplate (demo_template_env\<lparr>Env := [''dir'' \<mapsto> ''/var/log'']\<rparr>) demo_param (Some ''{%dir}/{pname}'') = Some r) \<and>
   ProcessTemplate demo_template_env demo_param (Some ''a{%loop}'') = None"
proof
  let ?e = "demo_template_env\<lparr>Env := [''dir'' \<mapsto> ''/var/log'']\<rparr>"
  have "CHR ''{'' \<notin> set (variable_text ?e x)" for x
    by (simp add: variable_text_def EnvGetVar_def c_str_def NUL_def)
  then have "references (variable_text ?e x) = {}" for x by (rule no_references)
  then show "\<exists>r. ProcessTemplate ?e demo_param (Some ''{%dir}/{pname}'') = Some r"
    using template_returns [where env = ?e and rank = "\<lambda>_. 0" and param = demo_param] by blast
  have "variable_text demo_template_env ''loop'' = ''x'' @ ''{%'' @ ''loop'' @ CHR ''}'' # []"
    "c_str ''a{%loop}'' = ''a'' @ ''{%'' @ ''loop'' @ CHR ''}'' # []"
    by (simp_all add: variable_text_def demo_template_env_def EnvGetVar_def c_str_def NUL_def)
  moreover have "CHR ''{'' \<notin> set (''x'' @ ''a'')" "CHR ''}'' \<notin> set ''loop''" "CHR ''%'' \<notin> set ''loop''" by simp_all
  ultimately show "ProcessTemplate demo_template_env demo_param (Some ''a{%loop}'') = None"
    using template_returns [where env = demo_template_env and param = demo_param] by blast
qed

end
