(* ===== verification/File_Archive.thy ===== *)
theory File_Archive
  imports Templates
begin

text \<open>
  Names of archived log files (\<open>File/FileArchivePolicy.cpp\<close>, \<open>ReplaceDatetimePlaceholders\<close> of
  \<open>Template.cpp\<close>): a template with an index and a time, the search for the last index used and for
  the next name not taken. The file system (\<open>None\<close> is an error code), the formatted times and what
  \<open>std::regex\<close> captures are arguments. Everything that expands a template may not return, hence the
  options. Lemmas: a name taken is free and the least such; when the search ends.
\<close>

record archive_env = template_env +
  FormatDateTime :: "int \<Rightarrow> string"
  FormatDate :: "int \<Rightarrow> string"
  FileExists :: "string \<Rightarrow> bool option"
  RegularFiles :: "string \<Rightarrow> string list option"
  RegexCapture :: "string \<Rightarrow> string \<Rightarrow> string option"
  CurrentTime :: int

record archive_policy =
  ArchiveTemplate :: string
  HomeDirectory :: string
  GzipCompression :: bool
  ArchiveIndex :: u64
  ArchiveTime :: int

definition FileArchivePolicy_new :: archive_policy where
  "FileArchivePolicy_new = \<lparr>ArchiveTemplate = [], HomeDirectory = [], GzipCompression = False,
     ArchiveIndex = 0, ArchiveTime = 0\<rparr>"

definition Archive_Configure :: "string \<Rightarrow> string \<Rightarrow> bool \<Rightarrow> archive_policy \<Rightarrow> archive_policy" where
  "Archive_Configure archiveTemplate homeDirectory gzip a =
     \<lparr>ArchiveTemplate = archiveTemplate, HomeDirectory = homeDirectory, GzipCompression = gzip,
      ArchiveIndex = 0, ArchiveTime = 0\<rparr>"

definition Archive_IsEnabled :: "archive_policy \<Rightarrow> bool" where
  "Archive_IsEnabled a \<longleftrightarrow> ArchiveTemplate a \<noteq> []"

section \<open>Building a name\<close>

definition IsAbsolutePath :: "string \<Rightarrow> bool" where
  "IsAbsolutePath path \<longleftrightarrow> path \<noteq> [] \<and> (hd path = CHR ''/'' \<or> hd path = CHR 0x5C)"

definition TINDEX :: string where
  "TINDEX = ''{index}''"

definition archive_param :: template_param where
  "archive_param = \<lparr>TemplateFlags = TEMPLATE_ALL AND NOT TEMPLATE_DATE_AND_TIME, TargetChannel = None\<rparr>"

definition expand_archive :: "archive_env \<Rightarrow> archive_policy \<Rightarrow> string option" where
  "expand_archive env a =
     map_option fst (ProcessTemplate (template_env.truncate env) archive_param (Some (ArchiveTemplate a)))"

definition ApplyArchiveTime :: "archive_env \<Rightarrow> string \<Rightarrow> int \<Rightarrow> string option" where
  "ApplyArchiveTime env txt archiveTime =
     Option.bind (ReplaceAll txt TDATETIME (FormatDateTime env archiveTime))
       (\<lambda>r. ReplaceAll r TDATE (FormatDate env archiveTime))"

definition absolute :: "archive_policy \<Rightarrow> string \<Rightarrow> string" where
  "absolute a path = (if IsAbsolutePath path then path else HomeDirectory a @ path)"

definition BuildName :: "archive_env \<Rightarrow> archive_policy \<Rightarrow> u64 \<Rightarrow> int \<Rightarrow> string option" where
  "BuildName env a index archiveTime =
     Option.bind (expand_archive env a) (\<lambda>t.
     Option.bind (ApplyArchiveTime env t archiveTime) (\<lambda>t.
     Option.bind (ReplaceAll t TINDEX (show_nat (unat index))) (\<lambda>t. Some (absolute a t))))"

text \<open>\<open>ReplaceDatetimePlaceholders\<close>: special characters of a regular expression are escaped.\<close>

definition regex_special :: "char \<Rightarrow> bool" where
  "regex_special c \<longleftrightarrow> c \<in> set ''.^$|()[]*+?'' \<or> c = CHR 0x5C"

definition escape_regex :: "string \<Rightarrow> string" where
  "escape_regex s = concat (map (\<lambda>c. if regex_special c then [CHR 0x5C, c] else [c]) s)"

definition ReplaceDatetimePlaceholders :: "string \<Rightarrow> string option" where
  "ReplaceDatetimePlaceholders whr =
     Option.bind (ReplaceAll (escape_regex whr) TDATE ''.+'') (\<lambda>re.
     Option.bind (ReplaceAll re TDATETIME ''.+'') (\<lambda>re. ReplaceAll re ''.+.+'' ''.+''))"

definition BuildCleanPattern :: "archive_env \<Rightarrow> archive_policy \<Rightarrow> string option" where
  "BuildCleanPattern env a =
     Option.bind (expand_archive env a) (\<lambda>re.
     Option.bind (ReplaceAll re TINDEX TDATETIME) (\<lambda>re. ReplaceDatetimePlaceholders (absolute a re)))"

definition index_marker :: string where
  "index_marker = [CHR 0x01] @ ''INDEX'' @ [CHR 0x02]"

definition BuildIndexPattern :: "archive_env \<Rightarrow> archive_policy \<Rightarrow> int \<Rightarrow> string option" where
  "BuildIndexPattern env a archiveTime =
     Option.bind (expand_archive env a) (\<lambda>re.
     Option.bind (ApplyArchiveTime env re archiveTime) (\<lambda>re.
     Option.bind (ReplaceAll re TINDEX index_marker) (\<lambda>re.
     Option.bind (ReplaceDatetimePlaceholders (absolute a re)) (\<lambda>re.
     Option.bind (ReplaceAll re index_marker ''([0-9]+)'') (\<lambda>re. Some (re @ ''('' @ [CHR 0x5C] @ ''.gz)?''))))))"

section \<open>Taking a name\<close>

definition NameExists :: "archive_env \<Rightarrow> string \<Rightarrow> bool" where
  "NameExists env archive =
     (case FileExists env archive of
        Some True \<Rightarrow> True
      | None \<Rightarrow> True
      | Some False \<Rightarrow> (case FileExists env (archive @ ''.gz'') of Some b \<Rightarrow> b | None \<Rightarrow> True))"

definition TryParseUInt64 :: "string \<Rightarrow> u64 option" where
  "TryParseUInt64 txt =
     (if txt = [] then None
      else if \<not> list_all is_digit txt then None
      else if dec_val txt < 2 ^ 64 then Some (of_nat (dec_val txt)) else None)"

text \<open>
  The directory of a path without doubled slashes: up to its last one, which is kept for the root.
  \<open>RegularFiles\<close> is \<open>None\<close> for a directory that does not exist or cannot be read.
\<close>

definition parent_path :: "string \<Rightarrow> string" where
  "parent_path p =
     (if CHR ''/'' \<notin> set p then []
      else let d = rev (tl (dropWhile (\<lambda>c. c \<noteq> CHR ''/'') (rev p))) in if d = [] then ''/'' else d)"

definition FindLastIndex :: "archive_env \<Rightarrow> archive_policy \<Rightarrow> int \<Rightarrow> u64 option" where
  "FindLastIndex env a archiveTime =
     (if ArchiveTemplate a = [] then Some 0
      else
        Option.bind (BuildName env a 0 archiveTime) (\<lambda>sample.
          let dir = parent_path sample in
          if dir = [] then Some 0
          else
            (case RegularFiles env dir of
               None \<Rightarrow> Some 0
             | Some files \<Rightarrow>
                 Option.bind (BuildIndexPattern env a archiveTime) (\<lambda>pattern.
                   Some (fold (\<lambda>path maxIndex.
                          case RegexCapture env pattern path of
                            None \<Rightarrow> maxIndex
                          | Some digits \<Rightarrow>
                              (case TryParseUInt64 digits of
                                 None \<Rightarrow> maxIndex
                               | Some index \<Rightarrow> if index > maxIndex then index else maxIndex))
                        files 0)))))"

definition RecoverIndex :: "archive_env \<Rightarrow> archive_policy \<Rightarrow> archive_policy option" where
  "RecoverIndex env a = map_option (\<lambda>i. a\<lparr>ArchiveIndex := i\<rparr>) (FindLastIndex env a (ArchiveTime a))"

definition SetTime :: "archive_env \<Rightarrow> int \<Rightarrow> archive_policy \<Rightarrow> archive_policy option" where
  "SetTime env archiveTime a =
     (let archiveTime = (if archiveTime = 0 then CurrentTime env else archiveTime) in
      if ArchiveTemplate a = [] then Some (a\<lparr>ArchiveTime := archiveTime, ArchiveIndex := 0\<rparr>)
      else
        Option.bind (if ArchiveTime a \<noteq> 0 then BuildName env a 0 (ArchiveTime a) else Some []) (\<lambda>oldProbe.
          let a = a\<lparr>ArchiveTime := archiveTime\<rparr> in
          Option.bind (BuildName env a 0 archiveTime) (\<lambda>newProbe.
            if oldProbe \<noteq> newProbe then RecoverIndex env a else Some a)))"

partial_function (option) take_loop ::
  "archive_env \<Rightarrow> archive_policy \<Rightarrow> u64 \<Rightarrow> (u64 \<times> string) option" where
  "take_loop env a i =
     (case BuildName env a i (ArchiveTime a) of
        None \<Rightarrow> None
      | Some archive \<Rightarrow> if \<not> NameExists env archive then Some (i, archive) else take_loop env a (i + 1))"

definition TakeName :: "archive_env \<Rightarrow> int \<Rightarrow> archive_policy \<Rightarrow> (archive_policy \<times> string) option" where
  "TakeName env archiveTime a =
     Option.bind (SetTime env archiveTime a) (\<lambda>a.
       map_option (\<lambda>(i, archive). (a\<lparr>ArchiveIndex := i\<rparr>, archive)) (take_loop env a (ArchiveIndex a + 1)))"

section \<open>The search\<close>

definition name_at :: "archive_env \<Rightarrow> archive_policy \<Rightarrow> u64 \<Rightarrow> string option" where
  "name_at env a i = BuildName env a i (ArchiveTime a)"

definition taken_at :: "archive_env \<Rightarrow> archive_policy \<Rightarrow> u64 \<Rightarrow> bool" where
  "taken_at env a i \<longleftrightarrow> (\<exists>n. name_at env a i = Some n \<and> NameExists env n)"

lemma take_loop_sound:
  assumes "take_loop env a i = Some (j, n)"
  shows "\<exists>k. j = i + of_nat k \<and> name_at env a j = Some n \<and> \<not> NameExists env n \<and>
    (\<forall>k' < k. taken_at env a (i + of_nat k'))"
proof -
  let ?P = "\<lambda>env a i (r :: u64 \<times> string). \<exists>k. fst r = i + of_nat k \<and> name_at env a (fst r) = Some (snd r) \<and>
    \<not> NameExists env (snd r) \<and> (\<forall>k' < k. taken_at env a (i + of_nat k'))"
  have "?P env a i (j, n)"
  proof (rule take_loop.raw_induct [where P = ?P, OF _ assms])
    fix f env a i r
    assume IH: "\<And>env a i r. f env a i = Some r \<Longrightarrow> ?P env a i r"
      and eq: "(case BuildName env a i (ArchiveTime a) of None \<Rightarrow> None
        | Some archive \<Rightarrow> if \<not> NameExists env archive then Some (i, archive) else f env a (i + 1)) = Some r"
    show "?P env a i r"
    proof (cases "BuildName env a i (ArchiveTime a)")
      case None
      with eq show ?thesis by simp
    next
      case (Some m)
      show ?thesis
      proof (cases "NameExists env m")
        case False
        with eq Some show ?thesis by (intro exI [of _ 0]) (auto simp: name_at_def)
      next
        case True
        with eq Some have "f env a (i + 1) = Some r" by simp
        from IH [OF this] obtain k where k: "fst r = i + 1 + of_nat k" "name_at env a (fst r) = Some (snd r)"
          "\<not> NameExists env (snd r)" "\<forall>k' < k. taken_at env a (i + 1 + of_nat k')" by blast
        have "taken_at env a (i + of_nat k')" if "k' < Suc k" for k'
        proof (cases k')
          case 0
          with Some True show ?thesis by (auto simp: taken_at_def name_at_def)
        next
          case (Suc l)
          with k(4) that show ?thesis by (simp add: add.assoc)
        qed
        with k show ?thesis by (intro exI [of _ "Suc k"]) (simp add: add.assoc)
      qed
    qed
  qed
  then show ?thesis by simp
qed

lemma take_loop_returns:
  assumes "name_at env a (i + of_nat k) = Some n" and "\<not> NameExists env n"
    and "\<forall>k' < k. name_at env a (i + of_nat k') \<noteq> None"
  shows "take_loop env a i \<noteq> None"
  using assms
proof (induction k arbitrary: i)
  case 0
  then show ?case by (simp add: take_loop.simps name_at_def)
next
  case (Suc k)
  from Suc.prems(3) obtain m where m: "name_at env a i = Some m" by fastforce
  have "take_loop env a (i + 1) \<noteq> None"
    using Suc.prems by (intro Suc.IH) (auto simp: add.assoc dest: spec [of _ "Suc _"])
  with m show ?case by (subst take_loop.simps) (simp add: name_at_def)
qed


lemma replace_digits:
  "\<exists>r. ReplaceAll u TINDEX (show_nat n) = Some r \<and> (\<not> sublist TINDEX u \<longrightarrow> r = u)"
proof -
  have "CHR ''{'' \<notin> set (show_nat n)" using show_nat_digits [of n] by (auto simp: list_all_iff is_digit_def char_code_def)
  moreover have "CHR ''{'' \<in> set TINDEX" by (simp add: TINDEX_def)
  ultimately obtain r where "replace_loop TINDEX (show_nat n) u = Some r" and "TINDEX \<noteq> show_nat n"
    using replace_loop_returns [of "CHR ''{''" TINDEX "show_nat n" u] by metis
  moreover have "\<not> sublist TINDEX u \<Longrightarrow> replace_loop TINDEX (show_nat n) u = Some u"
    by (subst replace_loop.simps) (simp add: find_sub_None_iff [THEN iffD2])
  ultimately show ?thesis by (auto simp: ReplaceAll_def)
qed

lemma name_at_some:
  assumes "expand_archive env a = Some x" and "ApplyArchiveTime env x (ArchiveTime a) = Some u"
  shows "\<exists>n. name_at env a i = Some n \<and> (\<not> sublist TINDEX u \<longrightarrow> n = absolute a u)"
  using replace_digits [of u "unat i"] assms by (auto simp: name_at_def BuildName_def)

lemma taken_iff: "name_at env a i = Some n \<Longrightarrow> taken_at env a i = NameExists env n"
  by (simp add: taken_at_def)

text \<open>C33. Taking an archive name never overwrites: the name returned is that of an index, neither it
  nor its compressed form exists, and all indices from the last one used up to it are taken. The
  search ends exactly if some index has a free name; so a template without an index whose name is
  taken makes it run forever.\<close>

theorem archive_name_fresh:
  assumes "SetTime env t a = Some b" and "expand_archive env b = Some x" and "ApplyArchiveTime env x (ArchiveTime b) = Some u"
  shows "(\<forall>c n. TakeName env t a = Some (c, n) \<longrightarrow>
       c = b\<lparr>ArchiveIndex := ArchiveIndex c\<rparr> \<and> BuildName env b (ArchiveIndex c) (ArchiveTime b) = Some n \<and>
       FileExists env n = Some False \<and> FileExists env (n @ ''.gz'') = Some False \<and>
       (\<exists>k. ArchiveIndex c = ArchiveIndex b + 1 + of_nat k \<and>
          (\<forall>k' < k. taken_at env b (ArchiveIndex b + 1 + of_nat k')))) \<and>
    (TakeName env t a \<noteq> None \<longleftrightarrow> (\<exists>i. \<not> taken_at env b i)) \<and>
    (\<not> sublist TINDEX u \<longrightarrow> NameExists env (absolute b u) \<longrightarrow> TakeName env t a = None)"
proof -
  let ?i = "ArchiveIndex b + 1"
  have take: "TakeName env t a = map_option (\<lambda>(i, n). (b\<lparr>ArchiveIndex := i\<rparr>, n)) (take_loop env b ?i)"
    using assms(1) by (simp add: TakeName_def)
  have free: "\<not> NameExists env n \<longleftrightarrow> FileExists env n = Some False \<and> FileExists env (n @ ''.gz'') = Some False" for n
    by (simp add: NameExists_def split: option.split bool.split)
  have names: "name_at env b i \<noteq> None" for i using name_at_some [OF assms(2,3), of i] by auto
  have ends: "take_loop env b ?i \<noteq> None \<longleftrightarrow> (\<exists>i. \<not> taken_at env b i)"
  proof
    assume "take_loop env b ?i \<noteq> None"
    then obtain j n where "take_loop env b ?i = Some (j, n)" by fastforce
    from take_loop_sound [OF this] have "name_at env b j = Some n" "\<not> NameExists env n" by blast+
    with taken_iff show "\<exists>i. \<not> taken_at env b i" by blast
  next
    assume "\<exists>i. \<not> taken_at env b i"
    then obtain i where i: "\<not> taken_at env b i" by blast
    obtain n where n: "name_at env b i = Some n" using names [of i] by auto
    have "i = ?i + of_nat (unat (i - ?i))" by simp
    with n i names take_loop_returns [of env b ?i "unat (i - ?i)" n] taken_iff [OF n]
    show "take_loop env b ?i \<noteq> None" by metis
  qed
  have "taken_at env b i" if "\<not> sublist TINDEX u" "NameExists env (absolute b u)" for i
    using name_at_some [OF assms(2,3), of i] that by (auto simp: taken_at_def)
  with take ends take_loop_sound [of env b ?i] free show ?thesis
    by (auto simp: name_at_def)
qed

definition demo_archive_env :: "string list \<Rightarrow> archive_env" where
  "demo_archive_env files = \<lparr>Env = Map.empty, ProcessIdText = ''42'', ExeName = ''app'', ExecutablePath = ''/opt/'',
     DateText = [], DateTimeText = [], FormatDateTime = (\<lambda>_. ''2024-01-02-03-04-05''), FormatDate = (\<lambda>_. ''2024-01-02''),
     FileExists = (\<lambda>n. Some (n \<in> set files)), RegularFiles = (\<lambda>_. Some []), RegexCapture = (\<lambda>_ _. None), CurrentTime = 7\<rparr>"

definition demo_policy :: "string \<Rightarrow> archive_policy" where
  "demo_policy tmpl = \<lparr>ArchiveTemplate = tmpl, HomeDirectory = ''/l/'', GzipCompression = True, ArchiveIndex = 0, ArchiveTime = 5\<rparr>"


lemma demo_expand:
  "expand_archive (demo_archive_env fs) (demo_policy ''a-{index}.log'') = Some ''a-{index}.log''"
  "expand_archive (demo_archive_env fs) (demo_policy ''a.log'') = Some ''a.log''"
  by (simp_all add: expand_archive_def demo_archive_env_def demo_policy_def ProcessTemplate_def Let_def c_str_def NUL_def
      template_env.defs archive_param_def
      template_loop.simps TemplateBuffer_Append_def TemplateBuffer_ToString_def TemplateBuffer_new_def TEMPLATE_BUFFER_SIZE_def
      env_reference_def template_field_def TPID_def TPNAME_def TDATETIME_def TDATE_def TTARGET_def TEXEPATH_def)

lemma no_time_fields:
  assumes "\<not> sublist TDATETIME t" and "\<not> sublist TDATE t"
  shows "ApplyArchiveTime env t n = Some t"
proof -
  have "ReplaceAll t p on = Some t" if "\<not> sublist p t" for p on
    using that by (auto simp: ReplaceAll_def replace_loop.simps [of p on t] find_sub_None_iff [THEN iffD2])
  with assms show ?thesis by (simp add: ApplyArchiveTime_def)
qed

lemma demo_time:
  "ApplyArchiveTime env ''a-{index}.log'' n = Some ''a-{index}.log''"
  "ApplyArchiveTime env ''a.log'' n = Some ''a.log''"
  by (rule no_time_fields; simp add: TDATETIME_def TDATE_def sublist_code)+

lemma demo_policy_sel [simp]:
  "ArchiveTemplate (demo_policy t) = t" "HomeDirectory (demo_policy t) = ''/l/''"
  "ArchiveTime (demo_policy t) = 5" "ArchiveIndex (demo_policy t) = 0"
  by (simp_all add: demo_policy_def)

lemma demo_digits: "digit_char 0 = CHR ''0''" "digit_char (Suc 0) = CHR ''1''" "digit_char 2 = CHR ''2''"
  by code_simp+

lemma replace_index:
  "ReplaceAll ''a-{index}.log'' TINDEX [digit_char 0] = Some ''a-0.log''"
  "ReplaceAll ''a-{index}.log'' TINDEX [digit_char 1] = Some ''a-1.log''"
  "ReplaceAll ''a-{index}.log'' TINDEX [digit_char 2] = Some ''a-2.log''"
  "ReplaceAll ''a.log'' TINDEX [digit_char n] = Some ''a.log''"
  by (simp_all add: ReplaceAll_def TINDEX_def replace_loop.simps demo_digits)

lemma demo_names:
  "BuildName (demo_archive_env fs) (demo_policy ''a-{index}.log'') 0 5 = Some ''/l/a-0.log''"
  "BuildName (demo_archive_env fs) (demo_policy ''a-{index}.log'') 1 5 = Some ''/l/a-1.log''"
  "BuildName (demo_archive_env fs) (demo_policy ''a-{index}.log'') 2 5 = Some ''/l/a-2.log''"
  "BuildName (demo_archive_env fs) (demo_policy ''a.log'') 0 5 = Some ''/l/a.log''"
  by (simp_all add: BuildName_def demo_expand demo_time show_nat.simps absolute_def IsAbsolutePath_def
      replace_index [simplified])

lemma demo_same_time: "demo_policy t\<lparr>ArchiveTime := 5\<rparr> = demo_policy t"
  by (simp add: demo_policy_def)

lemma demo_set_time:
  "SetTime (demo_archive_env fs) 5 (demo_policy ''a-{index}.log'') = Some (demo_policy ''a-{index}.log'')"
  "SetTime (demo_archive_env fs) 5 (demo_policy ''a.log'') = Some (demo_policy ''a.log'')"
  by (simp_all add: SetTime_def demo_names demo_same_time)

theorem archive_name_fresh_witness:
  "TakeName (demo_archive_env [''/l/a-1.log'']) 5 (demo_policy ''a-{index}.log'') =
     Some (demo_policy ''a-{index}.log''\<lparr>ArchiveIndex := 2\<rparr>, ''/l/a-2.log'') \<and>
   FileExists (demo_archive_env [''/l/a-1.log'']) ''/l/a-2.log.gz'' = Some False \<and>
   TakeName (demo_archive_env [''/l/a.log'']) 5 (demo_policy ''a.log'') = None"
proof -
  let ?e = "demo_archive_env [''/l/a-1.log'']" and ?p = "demo_policy ''a-{index}.log''"
  have ex: "NameExists ?e ''/l/a-1.log''" "\<not> NameExists ?e ''/l/a-2.log''"
    "NameExists (demo_archive_env [''/l/a.log'']) ''/l/a.log''"
    by (simp_all add: NameExists_def demo_archive_env_def)
  have "take_loop ?e ?p 1 = Some (2, ''/l/a-2.log'')"
    using ex by (simp add: take_loop.simps [of _ _ 1] take_loop.simps [of _ _ 2] demo_names)
  then have take: "TakeName ?e 5 ?p = Some (?p\<lparr>ArchiveIndex := 2\<rparr>, ''/l/a-2.log'')"
    by (simp add: TakeName_def demo_set_time)
  then have "FileExists ?e ''/l/a-2.log.gz'' = Some False"
    using archive_name_fresh [OF demo_set_time(1) demo_expand(1), where u = "''a-{index}.log''" and fs1 = "[''/l/a-1.log'']"]
    by (simp add: demo_time)
  moreover have "TakeName (demo_archive_env [''/l/a.log'']) 5 (demo_policy ''a.log'') = None"
    using archive_name_fresh [OF demo_set_time(2) demo_expand(2), where u = "''a.log''" and fs1 = "[''/l/a.log'']"] ex(3)
    by (simp add: demo_time TINDEX_def sublist_code absolute_def IsAbsolutePath_def)
  ultimately show ?thesis using take by blast
qed

end
