(* ===== verification/Time_Rotation.thy ===== *)
theory Time_Rotation
  imports Prelude_Logme
begin

text \<open>
  When a log file is rotated by time (\<open>File/FileTimeRotationPolicy.cpp\<close>). \<open>localtime\<close> and \<open>mktime\<close> are
  the two functions of a calendar, an argument (times are \<open>int\<close> seconds, -1 is the error of \<open>mktime\<close>).
  The locale \<open>period_calendar\<close> states what a calendar owes a rotation mode; it is interpreted on the
  library's functions over UTC. Lemmas: the period is never empty, whatever the calendar; a file is
  completed exactly when the period changes.
\<close>

record tm =
  tm_sec :: int
  tm_min :: int
  tm_hour :: int
  tm_mday :: int
  tm_mon :: int
  tm_year :: int
  tm_wday :: int
  tm_isdst :: int

record calendar =
  LocalTime :: "int \<Rightarrow> tm option"
  mktime :: "tm \<Rightarrow> int"

datatype TimeRotationMode = TIME_ROTATION_NONE | TIME_ROTATION_HOURLY | TIME_ROTATION_DAILY
  | TIME_ROTATION_WEEKLY | TIME_ROTATION_MONTHLY

record rotation_policy =
  Mode :: TimeRotationMode
  PeriodStart :: int
  NextPeriodStart :: int

section \<open>Periods\<close>

definition MakeTime :: "calendar \<Rightarrow> tm \<Rightarrow> int" where
  "MakeTime cal t = mktime cal (t\<lparr>tm_isdst := -1\<rparr>)"

definition SafeNextTime :: "int \<Rightarrow> int \<Rightarrow> int" where
  "SafeNextTime start fallbackPeriodSeconds = (if start = -1 then -1 else start + fallbackPeriodSeconds)"

definition BuildPeriodStart :: "calendar \<Rightarrow> TimeRotationMode \<Rightarrow> int \<Rightarrow> int" where
  "BuildPeriodStart cal mode now =
     (case LocalTime cal now of
        None \<Rightarrow> now
      | Some t \<Rightarrow>
          if mode = TIME_ROTATION_HOURLY then MakeTime cal (t\<lparr>tm_min := 0, tm_sec := 0\<rparr>)
          else
            let t = t\<lparr>tm_hour := 0, tm_min := 0, tm_sec := 0\<rparr> in
            if mode = TIME_ROTATION_WEEKLY then
              let daysFromMonday = (tm_wday t + 6) mod 7 in
              MakeTime cal (t\<lparr>tm_mday := tm_mday t - daysFromMonday\<rparr>)
            else if mode = TIME_ROTATION_MONTHLY then MakeTime cal (t\<lparr>tm_mday := 1\<rparr>)
            else MakeTime cal t)"

definition BuildNextPeriodStart :: "calendar \<Rightarrow> TimeRotationMode \<Rightarrow> int \<Rightarrow> int" where
  "BuildNextPeriodStart cal mode periodStart =
     (case LocalTime cal periodStart of
        None \<Rightarrow>
          if mode = TIME_ROTATION_HOURLY then SafeNextTime periodStart (60 * 60)
          else if mode = TIME_ROTATION_WEEKLY then SafeNextTime periodStart (7 * 24 * 60 * 60)
          else SafeNextTime periodStart (24 * 60 * 60)
      | Some t \<Rightarrow>
          MakeTime cal
            (if mode = TIME_ROTATION_HOURLY then t\<lparr>tm_hour := tm_hour t + 1\<rparr>
             else if mode = TIME_ROTATION_WEEKLY then t\<lparr>tm_mday := tm_mday t + 7\<rparr>
             else if mode = TIME_ROTATION_MONTHLY then t\<lparr>tm_mon := tm_mon t + 1\<rparr>
             else t\<lparr>tm_mday := tm_mday t + 1\<rparr>))"

section \<open>The policy\<close>

definition FileTimeRotationPolicy_new :: rotation_policy where
  "FileTimeRotationPolicy_new = \<lparr>Mode = TIME_ROTATION_NONE, PeriodStart = 0, NextPeriodStart = 0\<rparr>"

definition Rotation_IsEnabled :: "rotation_policy \<Rightarrow> bool" where
  "Rotation_IsEnabled p \<longleftrightarrow> Mode p \<noteq> TIME_ROTATION_NONE"

definition Rotation_Reset :: "calendar \<Rightarrow> int \<Rightarrow> rotation_policy \<Rightarrow> rotation_policy" where
  "Rotation_Reset cal now p =
     (if \<not> Rotation_IsEnabled p then p\<lparr>PeriodStart := 0, NextPeriodStart := 0\<rparr>
      else
        let start = BuildPeriodStart cal (Mode p) now;
            start = (if start = -1 then now else start);
            nxt = BuildNextPeriodStart cal (Mode p) start;
            nxt = (if nxt = -1 \<or> nxt \<le> start
                   then if Mode p = TIME_ROTATION_HOURLY then start + 60 * 60
                        else if Mode p = TIME_ROTATION_WEEKLY then start + 7 * 24 * 60 * 60
                        else start + 24 * 60 * 60
                   else nxt)
        in p\<lparr>PeriodStart := start, NextPeriodStart := nxt\<rparr>)"

definition Rotation_Configure :: "calendar \<Rightarrow> TimeRotationMode \<Rightarrow> int \<Rightarrow> rotation_policy \<Rightarrow> rotation_policy" where
  "Rotation_Configure cal mode now p = Rotation_Reset cal now (p\<lparr>Mode := mode\<rparr>)"

fun GetModeName :: "TimeRotationMode \<Rightarrow> string" where
  "GetModeName TIME_ROTATION_HOURLY = ''hourly''"
| "GetModeName TIME_ROTATION_DAILY = ''daily''"
| "GetModeName TIME_ROTATION_WEEKLY = ''weekly''"
| "GetModeName TIME_ROTATION_MONTHLY = ''monthly''"
| "GetModeName TIME_ROTATION_NONE = ''none''"

definition GetArchiveTime :: "int \<Rightarrow> rotation_policy \<Rightarrow> int" where
  "GetArchiveTime now p = (if Rotation_IsEnabled p \<and> PeriodStart p \<noteq> 0 then PeriodStart p else now)"

text \<open>The answer, with the time of the completed file when it is yes.\<close>

definition ShouldRotate :: "calendar \<Rightarrow> int \<Rightarrow> rotation_policy \<Rightarrow> rotation_policy \<times> int option" where
  "ShouldRotate cal now p =
     (if \<not> Rotation_IsEnabled p then (p, None)
      else if NextPeriodStart p = 0 then (Rotation_Reset cal now p, None)
      else if now < NextPeriodStart p then (p, None)
      else (Rotation_Reset cal now p, Some (if PeriodStart p \<noteq> 0 then PeriodStart p else now)))"

fun rotations :: "calendar \<Rightarrow> rotation_policy \<Rightarrow> int list \<Rightarrow> int option list" where
  "rotations cal p [] = []"
| "rotations cal p (now # ts) = (case ShouldRotate cal now p of (p, r) \<Rightarrow> r # rotations cal p ts)"

section \<open>What holds of every calendar\<close>

definition policy_ok :: "rotation_policy \<Rightarrow> bool" where
  "policy_ok p \<longleftrightarrow> (if Rotation_IsEnabled p then PeriodStart p < NextPeriodStart p
     else PeriodStart p = 0 \<and> NextPeriodStart p = 0)"

lemma reset_ok: "policy_ok (Rotation_Reset cal now p)"
  by (simp add: policy_ok_def Rotation_Reset_def Rotation_IsEnabled_def Let_def)

lemma rotation_policy_ok [simp]:
  "policy_ok FileTimeRotationPolicy_new"
  "policy_ok (Rotation_Configure cal mode now p)"
  "policy_ok p \<Longrightarrow> policy_ok (fst (ShouldRotate cal now p))"
  by (simp_all add: Rotation_Configure_def reset_ok ShouldRotate_def)
     (simp add: policy_ok_def FileTimeRotationPolicy_new_def Rotation_IsEnabled_def)

lemma reset_mode [simp]: "Mode (Rotation_Reset cal now p) = Mode p"
  by (simp add: Rotation_Reset_def Let_def)

section \<open>What a calendar owes\<close>

text \<open>
  From \<open>epoch\<close> on, the start of a time's period is not behind it and positive, the next period begins
  after it, and all times up to there have the same start.
\<close>

locale period_calendar =
  fixes start :: "int \<Rightarrow> int" and nxt :: "int \<Rightarrow> int" and epoch :: int
  assumes start_le: "epoch \<le> t \<Longrightarrow> 0 < start t \<and> start t \<le> t"
    and next_gt: "epoch \<le> t \<Longrightarrow> t < nxt (start t)"
    and same_start: "epoch \<le> t \<Longrightarrow> t \<le> u \<Longrightarrow> u < nxt (start t) \<Longrightarrow> start u = start t"
begin

lemma start_next: "epoch \<le> t \<Longrightarrow> start t < nxt (start t)"
  using start_le [of t] next_gt [of t] by linarith

lemma period_change: "epoch \<le> t \<Longrightarrow> t \<le> u \<Longrightarrow> u < nxt (start t) \<longleftrightarrow> start u = start t"
  using same_start [of t u] next_gt [of u] by force

end

section \<open>UTC\<close>

text \<open>
  The calendar of the C library in UTC from 1970 on: years and months counted off. \<open>mktime\<close> accepts a
  month of the following year and any day and hour.
\<close>

definition is_leap :: "int \<Rightarrow> bool" where
  "is_leap y \<longleftrightarrow> y mod 4 = 0 \<and> (y mod 100 \<noteq> 0 \<or> y mod 400 = 0)"

definition month_length :: "int \<Rightarrow> int \<Rightarrow> int" where
  "month_length y m =
     (if m = 1 then if is_leap y then 29 else 28
      else if m = 3 \<or> m = 5 \<or> m = 8 \<or> m = 10 then 30 else 31)"

text \<open>Months are numbered from January 1970.\<close>

definition nth_month_length :: "nat \<Rightarrow> nat" where
  "nth_month_length k = nat (month_length (1970 + int (k div 12)) (int (k mod 12)))"

fun days_before_month :: "nat \<Rightarrow> nat" where
  "days_before_month 0 = 0"
| "days_before_month (Suc k) = days_before_month k + nth_month_length k"

lemma nth_month_length_pos: "28 \<le> nth_month_length k" "nth_month_length k \<le> 31"
  by (auto simp: nth_month_length_def month_length_def)

text \<open>The month and the day in it of a day, counted from the first day of month \<open>k\<close>.\<close>

function month_of_day :: "nat \<Rightarrow> nat \<Rightarrow> nat \<times> nat" where
  "month_of_day k d = (if d < nth_month_length k then (k, d) else month_of_day (Suc k) (d - nth_month_length k))"
  by pat_completeness auto
termination
proof (relation "measure snd")
  show "((Suc k, d - nth_month_length k), k, d) \<in> measure snd" if "\<not> d < nth_month_length k" for k d
    using that nth_month_length_pos(1) [of k] by simp
qed simp

declare month_of_day.simps [simp del]

lemma month_of_day:
  "month_of_day k d = (m, r) \<Longrightarrow> days_before_month k + d = days_before_month m + r \<and> r < nth_month_length m"
proof (induction k d rule: month_of_day.induct)
  case (1 k d)
  then show ?case by (subst (asm) (2) month_of_day.simps) (auto split: if_splits)
qed

lemma days_before_month_mono: "k \<le> m \<Longrightarrow> days_before_month k \<le> days_before_month m"
  by (induction m) (auto simp: le_Suc_eq)

lemma days_before_month_less:
  assumes "k < m" and "r < nth_month_length k"
  shows "days_before_month k + r < days_before_month m"
  using days_before_month_mono [of "Suc k" m] assms by simp

lemma month_of_day_at: "r < nth_month_length m \<Longrightarrow> month_of_day 0 (days_before_month m + r) = (m, r)"
proof -
  assume r: "r < nth_month_length m"
  obtain k q where kq: "month_of_day 0 (days_before_month m + r) = (k, q)" by fastforce
  with month_of_day [OF this] have "days_before_month m + r = days_before_month k + q" "q < nth_month_length k" by simp_all
  moreover from this have "k = m"
    using days_before_month_less [of k m q] days_before_month_less [of m k r] r
    by (cases k m rule: linorder_cases) auto
  ultimately show ?thesis using kq by simp
qed

definition utc_local :: "int \<Rightarrow> tm option" where
  "utc_local t =
     (if t < 0 then None
      else
        let d = nat (t div 86400); s = t mod 86400; (k, r) = month_of_day 0 d in
        Some \<lparr>tm_sec = s mod 60, tm_min = s div 60 mod 60, tm_hour = s div 3600, tm_mday = int r + 1,
          tm_mon = int (k mod 12), tm_year = 70 + int (k div 12), tm_wday = (4 + int d) mod 7, tm_isdst = 0\<rparr>)"

definition utc_mktime :: "tm \<Rightarrow> int" where
  "utc_mktime t =
     (let k = (tm_year t - 70) * 12 + tm_mon t in
      if k < 0 then -1
      else (int (days_before_month (nat k)) + tm_mday t - 1) * 86400 + tm_hour t * 3600 + tm_min t * 60 + tm_sec t)"

definition utc :: calendar where
  "utc = \<lparr>LocalTime = utc_local, mktime = utc_mktime\<rparr>"

text \<open>Both on the day, its month and the second of a time.\<close>

lemma utc_fields:
  assumes "0 \<le> t" and "month_of_day 0 (nat (t div 86400)) = (k, r)"
  shows "utc_local t = Some \<lparr>tm_sec = t mod 86400 mod 60, tm_min = t mod 86400 div 60 mod 60,
      tm_hour = t mod 86400 div 3600, tm_mday = int r + 1, tm_mon = int (k mod 12), tm_year = 70 + int (k div 12),
      tm_wday = (4 + t div 86400) mod 7, tm_isdst = 0\<rparr>"
    and "t div 86400 = int (days_before_month k) + int r"
proof -
  have "int (nat (t div 86400)) = t div 86400" using assms(1) by (simp add: pos_imp_zdiv_nonneg_iff)
  with month_of_day [OF assms(2)] show "t div 86400 = int (days_before_month k) + int r"
    by (simp flip: of_nat_add)
  show "utc_local t = Some \<lparr>tm_sec = t mod 86400 mod 60, tm_min = t mod 86400 div 60 mod 60,
      tm_hour = t mod 86400 div 3600, tm_mday = int r + 1, tm_mon = int (k mod 12), tm_year = 70 + int (k div 12),
      tm_wday = (4 + t div 86400) mod 7, tm_isdst = 0\<rparr>"
    using assms by (simp add: utc_local_def Let_def pos_imp_zdiv_nonneg_iff)
qed

lemma months_int: "int (k div 12) * 12 + int (k mod 12) = int k"
  by presburger

lemma months_split: "nat (int (k div 12) * 12 + int (k mod 12)) = k"
  by (simp add: months_int)

lemma start_hourly: "0 \<le> t \<Longrightarrow> BuildPeriodStart utc TIME_ROTATION_HOURLY t = t - t mod 3600"
proof -
  assume t: "0 \<le> t"
  obtain k r where m: "month_of_day 0 (nat (t div 86400)) = (k, r)" by fastforce
  note f = utc_fields [OF t m]
  have "BuildPeriodStart utc TIME_ROTATION_HOURLY t = t div 86400 * 86400 + t mod 86400 div 3600 * 3600"
    by (simp add: BuildPeriodStart_def utc_def f(1) MakeTime_def utc_mktime_def months_split f(2))
  also have "\<dots> = t - t mod 3600"
    using mod_mod_cancel [of 3600 86400 t] by (simp flip: minus_mod_eq_div_mult)
  finally show ?thesis .
qed

lemma start_daily: "0 \<le> t \<Longrightarrow> BuildPeriodStart utc TIME_ROTATION_DAILY t = t - t mod 86400"
proof -
  assume t: "0 \<le> t"
  obtain k r where m: "month_of_day 0 (nat (t div 86400)) = (k, r)" by fastforce
  note f = utc_fields [OF t m]
  have "BuildPeriodStart utc TIME_ROTATION_DAILY t = t div 86400 * 86400"
    by (simp add: BuildPeriodStart_def utc_def f(1) MakeTime_def utc_mktime_def months_split f(2))
  then show ?thesis by (simp add: minus_mod_eq_div_mult)
qed

lemma start_weekly:
  "0 \<le> t \<Longrightarrow> BuildPeriodStart utc TIME_ROTATION_WEEKLY t = (t div 86400 - (t div 86400 + 3) mod 7) * 86400"
proof -
  assume t: "0 \<le> t"
  obtain k r where m: "month_of_day 0 (nat (t div 86400)) = (k, r)" by fastforce
  note f = utc_fields [OF t m]
  have wday: "((4 + d) mod 7 + 6) mod 7 = (d + 3) mod 7" for d :: int by presburger
  have "BuildPeriodStart utc TIME_ROTATION_WEEKLY t =
      (int (days_before_month k) + (int r + 1 - ((4 + t div 86400) mod 7 + 6) mod 7) - 1) * 86400"
    unfolding BuildPeriodStart_def utc_def calendar.simps f(1)
    by (simp only: option.case TimeRotationMode.distinct if_False if_True Let_def tm.simps MakeTime_def calendar.simps
        utc_mktime_def) (simp add: months_split)
  then show ?thesis unfolding wday f(2) by simp
qed

lemma start_monthly:
  assumes "0 \<le> t" and "month_of_day 0 (nat (t div 86400)) = (k, r)"
  shows "BuildPeriodStart utc TIME_ROTATION_MONTHLY t = int (days_before_month k) * 86400"
  by (simp add: BuildPeriodStart_def utc_def utc_fields(1) [OF assms] MakeTime_def utc_mktime_def months_split Let_def)

lemma seconds_split: "t div 86400 * 86400 + t mod 86400 div 3600 * 3600 + t mod 86400 div 60 mod 60 * 60 + t mod 86400 mod 60 = (t :: int)"
proof -
  have s: "s div 60 mod 60 * 60 + s mod 60 = s mod 3600" for s :: int
    using mod_mult2_eq' [of s 60 60] by (simp add: algebra_simps)
  have "t div 86400 * 86400 + (t mod 86400 div 3600 * 3600 + t mod 86400 mod 3600) = t" by simp
  then show ?thesis using s [of "t mod 86400"] by linarith
qed

lemma next_fixed:
  assumes "0 \<le> t"
  shows "BuildNextPeriodStart utc TIME_ROTATION_HOURLY t = t + 3600"
    and "BuildNextPeriodStart utc TIME_ROTATION_DAILY t = t + 86400"
    and "BuildNextPeriodStart utc TIME_ROTATION_WEEKLY t = t + 604800"
proof -
  obtain k r where m: "month_of_day 0 (nat (t div 86400)) = (k, r)" by fastforce
  obtain h mi se wd where f: "utc_local t = Some \<lparr>tm_sec = se, tm_min = mi, tm_hour = h, tm_mday = int r + 1,
      tm_mon = int (k mod 12), tm_year = 70 + int (k div 12), tm_wday = wd, tm_isdst = 0\<rparr>"
    and split: "(int (days_before_month k) + int r) * 86400 + h * 3600 + mi * 60 + se = t"
    using utc_fields [OF assms m] seconds_split [of t] by metis
  show "BuildNextPeriodStart utc TIME_ROTATION_HOURLY t = t + 3600"
    "BuildNextPeriodStart utc TIME_ROTATION_DAILY t = t + 86400"
    "BuildNextPeriodStart utc TIME_ROTATION_WEEKLY t = t + 604800"
    using split by (simp_all add: BuildNextPeriodStart_def utc_def f MakeTime_def utc_mktime_def months_split)
qed

lemma next_monthly:
  "BuildNextPeriodStart utc TIME_ROTATION_MONTHLY (int (days_before_month k) * 86400) = int (days_before_month (Suc k)) * 86400"
proof -
  let ?t = "int (days_before_month k) * 86400"
  have "month_of_day 0 (nat (?t div 86400)) = (k, 0)"
    using month_of_day_at [of 0 k] nth_month_length_pos(1) [of k] by simp
  note f = utc_fields(1) [OF _ this]
  have k: "nat (int (k div 12) * 12 + (int (k mod 12) + 1)) = Suc k"
    by (simp flip: add.assoc add: months_int)
  have "BuildNextPeriodStart utc TIME_ROTATION_MONTHLY ?t = int (days_before_month (nat (int (k div 12) * 12 + (int (k mod 12) + 1)))) * 86400"
    by (simp add: BuildNextPeriodStart_def utc_def f MakeTime_def utc_mktime_def)
  then show ?thesis unfolding k .
qed

section \<open>UTC satisfies the contract\<close>

text \<open>From 1 February 1970 on, so that no start is 0, which the policy takes for unset.\<close>

definition rotation_epoch :: int where
  "rotation_epoch = 31 * 86400"

text \<open>A calendar whose periods are of equal length.\<close>

lemma floor_same:
  fixes n :: int
  assumes "0 < n" and "t - (t + c) mod n \<le> u" and "u < t - (t + c) mod n + n"
  shows "u - (u + c) mod n = t - (t + c) mod n"
proof -
  let ?q = "(t + c) div n"
  have q: "t - (t + c) mod n = n * ?q - c" using minus_mod_eq_mult_div [of "t + c" n] by linarith
  have "(u + c) div n = ?q" using assms q by (intro int_div_pos_eq [where r = "u + c - n * ?q"]) linarith+
  then show ?thesis using q minus_mod_eq_mult_div [of "u + c" n] by simp
qed

lemma floor_calendar:
  assumes "0 < n" and "n \<le> rotation_epoch"
    and start: "\<And>t. 0 \<le> t \<Longrightarrow> start t = t - (t + c) mod n"
    and nxt: "\<And>t. 0 \<le> t \<Longrightarrow> nxt t = t + n"
  shows "period_calendar start nxt rotation_epoch"
proof
  fix t u :: int
  assume t: "rotation_epoch \<le> t"
  have m: "0 \<le> (t + c) mod n" "(t + c) mod n < n" using assms(1) by simp_all
  have s: "start t = t - (t + c) mod n" using t by (intro start) (simp add: rotation_epoch_def)
  then show pos: "0 < start t \<and> start t \<le> t" using m t assms(2) by linarith
  have n: "nxt (start t) = t - (t + c) mod n + n" using nxt [of "start t"] s pos by simp
  then show "t < nxt (start t)" using m by linarith
  assume u: "t \<le> u" "u < nxt (start t)"
  then have "u - (u + c) mod n = t - (t + c) mod n" using floor_same [OF assms(1), of t c u] n m by linarith
  then show "start u = start t" using start [of u] s u(1) t by (simp add: rotation_epoch_def)
qed

lemma weekly_floor: "(d - (d + 3) mod 7) * 86400 = t - (t + 259200) mod 604800" if "d = t div 86400" for d t :: int
proof -
  have "(t + 259200) mod 604800 = 86400 * ((t + 259200) div 86400 mod 7) + (t + 259200) mod 86400"
    using zmod_zmult2_eq [of 7 "t + 259200" 86400] by simp
  moreover have "(t + 259200) div 86400 = d + 3" "(t + 259200) mod 86400 = t mod 86400"
    using that div_mult_self1 [of 86400 t 3] mod_mult_self1 [of t 3 86400] by simp_all
  moreover have "d * 86400 = t - t mod 86400" using that by (simp add: minus_mod_eq_div_mult)
  ultimately show ?thesis by (simp add: algebra_simps)
qed

interpretation hourly: period_calendar
  "BuildPeriodStart utc TIME_ROTATION_HOURLY" "BuildNextPeriodStart utc TIME_ROTATION_HOURLY" rotation_epoch
  by (rule floor_calendar [where c = 0 and n = 3600]) (simp_all add: start_hourly next_fixed rotation_epoch_def)

interpretation daily: period_calendar
  "BuildPeriodStart utc TIME_ROTATION_DAILY" "BuildNextPeriodStart utc TIME_ROTATION_DAILY" rotation_epoch
  by (rule floor_calendar [where c = 0 and n = 86400]) (simp_all add: start_daily next_fixed rotation_epoch_def)

interpretation weekly: period_calendar
  "BuildPeriodStart utc TIME_ROTATION_WEEKLY" "BuildNextPeriodStart utc TIME_ROTATION_WEEKLY" rotation_epoch
  by (rule floor_calendar [where c = 259200 and n = 604800])
     (simp_all only: start_weekly weekly_floor [OF refl] next_fixed, simp_all add: rotation_epoch_def)

lemma monthly_start:
  assumes "0 \<le> t"
  obtains k where "BuildPeriodStart utc TIME_ROTATION_MONTHLY t = int (days_before_month k) * 86400"
    and "int (days_before_month k) * 86400 \<le> t" and "t < int (days_before_month (Suc k)) * 86400"
proof -
  obtain k r where m: "month_of_day 0 (nat (t div 86400)) = (k, r)" by fastforce
  have d: "t div 86400 = int (days_before_month k) + int r" by (rule utc_fields(2) [OF assms m])
  have "r < nth_month_length k" using month_of_day [OF m] by simp
  then have "t div 86400 < int (days_before_month (Suc k))" using d by simp
  then have "t < int (days_before_month (Suc k)) * 86400" by linarith
  moreover have "int (days_before_month k) * 86400 \<le> t" using d by linarith
  ultimately show thesis using start_monthly [OF assms m] that by blast
qed

interpretation monthly: period_calendar
  "BuildPeriodStart utc TIME_ROTATION_MONTHLY" "BuildNextPeriodStart utc TIME_ROTATION_MONTHLY" rotation_epoch
proof
  let ?start = "BuildPeriodStart utc TIME_ROTATION_MONTHLY" and ?nxt = "BuildNextPeriodStart utc TIME_ROTATION_MONTHLY"
  fix t u :: int
  assume t: "rotation_epoch \<le> t"
  then have "0 \<le> t" by (simp add: rotation_epoch_def)
  then obtain k where k: "?start t = int (days_before_month k) * 86400"
    "int (days_before_month k) * 86400 \<le> t" "t < int (days_before_month (Suc k)) * 86400" by (rule monthly_start)
  have "0 < k"
  proof (rule ccontr)
    assume "\<not> 0 < k"
    then show False using k(3) t by (simp add: rotation_epoch_def nth_month_length_def month_length_def)
  qed
  then have "0 < days_before_month k"
    using days_before_month_mono [of 1 k] nth_month_length_pos(1) [of 0] by simp
  then show "0 < ?start t \<and> ?start t \<le> t" using k by simp
  show "t < ?nxt (?start t)" unfolding k(1) next_monthly by (rule k(3))
  assume u: "t \<le> u" "u < ?nxt (?start t)"
  then have "0 \<le> u" using \<open>0 \<le> t\<close> by linarith
  then obtain m where m: "?start u = int (days_before_month m) * 86400"
    "int (days_before_month m) * 86400 \<le> u" "u < int (days_before_month (Suc m)) * 86400" by (rule monthly_start)
  have "u < int (days_before_month (Suc k)) * 86400" using u(2) unfolding k(1) next_monthly .
  then have "days_before_month m < days_before_month (Suc k)" "days_before_month k < days_before_month (Suc m)"
    using k(2) m u(1) by linarith+
  then have "m = k" using days_before_month_mono [of "Suc k" m] days_before_month_mono [of "Suc m" k]
    by (cases m k rule: linorder_cases) auto
  then show "?start u = ?start t" using k m by simp
qed

section \<open>Rotation follows the calendar\<close>

lemma reset_period:
  assumes "period_calendar (BuildPeriodStart cal mode) (BuildNextPeriodStart cal mode) epoch"
    and "mode \<noteq> TIME_ROTATION_NONE" and "Mode p = mode" and "epoch \<le> now"
  shows "PeriodStart (Rotation_Reset cal now p) = BuildPeriodStart cal mode now"
    and "NextPeriodStart (Rotation_Reset cal now p) = BuildNextPeriodStart cal mode (BuildPeriodStart cal mode now)"
  using period_calendar.start_le [OF assms(1,4)] period_calendar.start_next [OF assms(1,4)] assms(2,3)
  by (simp_all add: Rotation_Reset_def Rotation_IsEnabled_def Let_def)

lemma rotations_follow:
  assumes cal: "period_calendar (BuildPeriodStart cal mode) (BuildNextPeriodStart cal mode) epoch"
    and mode: "mode \<noteq> TIME_ROTATION_NONE"
  shows "sorted (t # ts) \<Longrightarrow> epoch \<le> t \<Longrightarrow> Mode p = mode \<Longrightarrow> PeriodStart p = BuildPeriodStart cal mode t \<Longrightarrow>
    NextPeriodStart p = BuildNextPeriodStart cal mode (BuildPeriodStart cal mode t) \<Longrightarrow>
    rotations cal p ts = map (\<lambda>(prev, now). if BuildPeriodStart cal mode now = BuildPeriodStart cal mode prev then None
      else Some (BuildPeriodStart cal mode prev)) (zip (t # ts) ts)"
proof (induction ts arbitrary: t p)
  case Nil
  then show ?case by simp
next
  case (Cons now ts)
  have le: "t \<le> now" "epoch \<le> now" using Cons.prems by auto
  have pos: "0 < PeriodStart p" "PeriodStart p < NextPeriodStart p"
    using period_calendar.start_le [OF cal] period_calendar.start_next [OF cal] Cons.prems by auto
  have change: "now < NextPeriodStart p \<longleftrightarrow> BuildPeriodStart cal mode now = BuildPeriodStart cal mode t"
    using period_calendar.period_change [OF cal Cons.prems(2) le(1)] Cons.prems(5) by simp
  have step: "ShouldRotate cal now p =
      (if BuildPeriodStart cal mode now = BuildPeriodStart cal mode t then (p, None)
       else (Rotation_Reset cal now p, Some (BuildPeriodStart cal mode t)))"
    using pos change Cons.prems(3,4) mode by (simp add: ShouldRotate_def Rotation_IsEnabled_def)
  show ?case
  proof (cases "BuildPeriodStart cal mode now = BuildPeriodStart cal mode t")
    case True
    have "sorted (now # ts)" using Cons.prems(1) by simp
    then have "rotations cal p ts = map (\<lambda>(prev, now). if BuildPeriodStart cal mode now = BuildPeriodStart cal mode prev then None
      else Some (BuildPeriodStart cal mode prev)) (zip (now # ts) ts)"
      using Cons.prems(3-5) le(2) True by (intro Cons.IH) simp_all
    with step True show ?thesis by simp
  next
    case False
    have "sorted (now # ts)" using Cons.prems(1) by simp
    then have "rotations cal (Rotation_Reset cal now p) ts = map (\<lambda>(prev, now). if BuildPeriodStart cal mode now = BuildPeriodStart cal mode prev then None
      else Some (BuildPeriodStart cal mode prev)) (zip (now # ts) ts)"
      using le(2) reset_period [OF cal mode Cons.prems(3) le(2)] Cons.prems(3) by (intro Cons.IH) simp_all
    with step False show ?thesis by simp
  qed
qed

text \<open>C34. Rotation by time follows the calendar: as long as the clock does not go back, a file is
  completed at exactly those checks at which the period is another one than at the check before (or
  at the configuration), and the completed file gets the start of the period before as its time.\<close>

theorem rotation_follows_calendar:
  assumes "period_calendar (BuildPeriodStart cal mode) (BuildNextPeriodStart cal mode) epoch"
    and "mode \<noteq> TIME_ROTATION_NONE" and "epoch \<le> t" and "sorted (t # ts)"
  shows "rotations cal (Rotation_Configure cal mode t p) ts =
    map (\<lambda>(prev, now). if BuildPeriodStart cal mode now = BuildPeriodStart cal mode prev then None
      else Some (BuildPeriodStart cal mode prev)) (zip (t # ts) ts)"
  using reset_period [OF assms(1,2) _ assms(3), of "p\<lparr>Mode := mode\<rparr>"] assms
  by (intro rotations_follow) (simp_all add: Rotation_Configure_def)

lemma first_months:
  "BuildPeriodStart utc TIME_ROTATION_MONTHLY 2678400 = 2678400"
  "BuildPeriodStart utc TIME_ROTATION_MONTHLY 5097599 = 2678400"
  "BuildPeriodStart utc TIME_ROTATION_MONTHLY 5097600 = 5097600"
proof -
  have "month_of_day 0 31 = (1, 0)" "month_of_day 0 58 = (1, 27)" "month_of_day 0 59 = (2, 0)"
    by (simp_all add: month_of_day.simps nth_month_length_def month_length_def is_leap_def)
  moreover have "days_before_month 1 = 31" "days_before_month 2 = 59"
    by (simp_all add: numeral_2_eq_2 nth_month_length_def month_length_def is_leap_def)
  ultimately show "BuildPeriodStart utc TIME_ROTATION_MONTHLY 2678400 = 2678400"
    "BuildPeriodStart utc TIME_ROTATION_MONTHLY 5097599 = 2678400"
    "BuildPeriodStart utc TIME_ROTATION_MONTHLY 5097600 = 5097600"
    using start_monthly [of 2678400 1 0] start_monthly [of 5097599 1 27] start_monthly [of 5097600 2 0] by simp_all
qed

theorem rotation_follows_calendar_witness:
  "rotations utc (Rotation_Configure utc TIME_ROTATION_MONTHLY 2678400 FileTimeRotationPolicy_new) [5097599, 5097600, 5097600] =
     [None, Some 2678400, None]"
  using rotation_follows_calendar [OF monthly.period_calendar_axioms, of 2678400 "[5097599, 5097600, 5097600]"]
  by (simp add: rotation_epoch_def first_months)

end
