(* ===== verification/Log_Statistics.thy ===== *)
theory Log_Statistics
  imports Level_Names
begin

text \<open>
  The collector of log statistics (\<open>LogStatisticsInternal.h\<close>, \<open>LogStatistics.cpp\<close>): one row per call
  site with four channel and eight backend slots, counters for what does not fit, and the counters of
  file backends. Pointers are indices into the vectors that own the objects (never shrunk); channels
  and call sites are their addresses. The caches in the call sites and in the file backends are part
  of the state. Recording is sequential here; \<open>Statistics_Protocol\<close> has the interleavings, and
  \<open>Statistics_Reports\<close> the reports. Lemmas: what the snapshots sum up to.
\<close>

section \<open>Counters\<close>

datatype counters = Counters (Records: u64) (Bytes: u64) (MaxBytes: u64)

definition counters_zero :: counters where
  "counters_zero = Counters 0 0 0"

definition UpdateMaximum :: "u64 \<Rightarrow> u64 \<Rightarrow> u64" where
  "UpdateMaximum target v = (if target < v then v else target)"

definition counters_record :: "u64 \<Rightarrow> counters \<Rightarrow> counters" where
  "counters_record bytes c = Counters (Records c + 1) (Bytes c + bytes) (UpdateMaximum (MaxBytes c) bytes)"

text \<open>How snapshots add up rows.\<close>

definition counters_merge :: "counters \<Rightarrow> counters \<Rightarrow> counters" where
  "counters_merge a b = Counters (Records a + Records b) (Bytes a + Bytes b) (max (MaxBytes a) (MaxBytes b))"

instantiation counters :: comm_monoid_add
begin

definition "0 = counters_zero"
definition "a + b = counters_merge a b"

instance
  by standard (auto simp: zero_counters_def plus_counters_def counters_zero_def counters_merge_def ac_simps max.assoc max.commute)

end

lemma counters_record_add: "counters_record bytes c = c + Counters 1 bytes bytes"
  by (auto simp: counters_record_def plus_counters_def counters_merge_def UpdateMaximum_def max_def)

lemma counters_sel [simp]:
  "Records 0 = 0" "Records (a + b) = Records a + Records b"
  "Bytes 0 = 0" "Bytes (a + b) = Bytes a + Bytes b" "MaxBytes 0 = 0" "MaxBytes (a + b) = max (MaxBytes a) (MaxBytes b)"
  unfolding zero_counters_def plus_counters_def by (simp_all add: counters_zero_def counters_merge_def)

lemma counters_zero_0 [simp]: "counters_zero = 0" and counters_merge_add [simp]: "counters_merge a b = a + b"
  by (simp_all add: zero_counters_def plus_counters_def)

record channel_statistics =
  ChannelKey :: "nat option"
  ChannelLabel :: string
  ChannelCount :: counters

record backend_statistics =
  StatBackendId :: u64
  BackendChannel :: string
  BackendLabel :: string
  BackendCount :: counters

text \<open>Slots are filled in order and never emptied: the list holds the filled ones.\<close>

definition CHANNEL_SLOT_COUNT :: nat where "CHANNEL_SLOT_COUNT = 4"
definition BACKEND_SLOT_COUNT :: nat where "BACKEND_SLOT_COUNT = 8"

record site_statistics =
  SiteFile :: string
  SiteMethod :: string
  SiteFormat :: string
  SiteLine :: int
  SiteLevel :: level
  ChannelSlots :: "channel_statistics list"
  OverflowCount :: counters
  BackendSlots :: "backend_statistics list"
  OverflowBackendCount :: counters

record runtime_statistics =
  RuntimeId :: u64
  RuntimeChannel :: string
  RuntimeType :: string
  RuntimeDetails :: string
  RuntimeAsync :: bool
  AcceptedRecords :: u64
  AcceptedBytes :: u64
  QueueDroppedRecords :: u64
  QueueDroppedBytes :: u64
  WriteBatches :: u64
  WriteOperations :: u64
  BatchBuffers :: u64
  BatchBytes :: u64
  MaxBatchBuffers :: u64
  MaxBatchBytes :: u64
  WrittenBuffers :: u64
  WrittenBytes :: u64
  FailedBatches :: u64
  FailedWriteOperations :: u64
  FailedBuffers :: u64
  FailedBytes :: u64

record stat_context =
  ContextKey :: nat
  ContextFullName :: "string option"
  ContextMethod :: "string option"
  ContextLine :: int
  ContextLevel :: level

record stat_backend =
  BackendStatId :: u64
  BackendType :: "string option"
  BackendAsync :: bool
  BackendDetails :: string

text \<open>A channel is its address and its name.\<close>

type_synonym stat_channel = "(nat \<times> string) option"

record stat_state =
  Generation :: u64
  SiteByKey :: "nat \<rightharpoonup> nat"
  Sites :: "site_statistics list"
  RuntimeBackendById :: "u64 \<rightharpoonup> nat"
  RuntimeBackends :: "runtime_statistics list"
  StartedAt :: int
  StoppedAt :: int
  HasSession :: bool
  SiteCache :: "nat \<Rightarrow> u64 \<times> nat option"
  RuntimeCache :: "u64 \<Rightarrow> u64 \<times> nat option"

definition LogStatisticsCollector_new ::
  "u64 \<Rightarrow> (nat \<Rightarrow> u64 \<times> nat option) \<Rightarrow> (u64 \<Rightarrow> u64 \<times> nat option) \<Rightarrow> stat_state" where
  "LogStatisticsCollector_new generation siteCache runtimeCache =
     \<lparr>Generation = generation, SiteByKey = Map.empty, Sites = [], RuntimeBackendById = Map.empty, RuntimeBackends = [],
      StartedAt = 0, StoppedAt = 0, HasSession = False, SiteCache = siteCache, RuntimeCache = runtimeCache\<rparr>"

section \<open>Rows\<close>

definition CopyMetadata :: "string option \<Rightarrow> nat \<Rightarrow> string" where
  "CopyMetadata str maximumLength =
     (case str of
        None \<Rightarrow> []
      | Some t \<Rightarrow> let result = c_str t in if length result > maximumLength then take maximumLength result @ ''...'' else result)"

definition LogSiteStatistics_new :: "stat_context \<Rightarrow> string option \<Rightarrow> site_statistics" where
  "LogSiteStatistics_new ctx fmt =
     \<lparr>SiteFile = CopyMetadata (ContextFullName ctx) 1024, SiteMethod = CopyMetadata (ContextMethod ctx) 512,
      SiteFormat = CopyMetadata fmt 1024, SiteLine = ContextLine ctx, SiteLevel = ContextLevel ctx,
      ChannelSlots = [], OverflowCount = counters_zero, BackendSlots = [], OverflowBackendCount = counters_zero\<rparr>"

definition LogSiteStatistics_Reset :: "site_statistics \<Rightarrow> site_statistics" where
  "LogSiteStatistics_Reset s =
     s\<lparr>OverflowCount := counters_zero, OverflowBackendCount := counters_zero,
       ChannelSlots := map (\<lambda>c. c\<lparr>ChannelCount := counters_zero\<rparr>) (ChannelSlots s),
       BackendSlots := map (\<lambda>b. b\<lparr>BackendCount := counters_zero\<rparr>) (BackendSlots s)\<rparr>"

definition channel_name :: "stat_channel \<Rightarrow> string" where
  "channel_name ch =
     (let name = (case ch of Some (_, n) \<Rightarrow> n | None \<Rightarrow> ''<none>'') in if name = [] then ''<default>'' else name)"

definition backend_label :: "stat_backend \<Rightarrow> string" where
  "backend_label b =
     (case BackendType b of
        None \<Rightarrow> ''<unknown>''
      | Some t \<Rightarrow> if c_str t = [] then ''<unknown>'' else c_str t)"

definition LoadCachedSite :: "stat_context \<Rightarrow> stat_state \<Rightarrow> nat option" where
  "LoadCachedSite ctx s =
     (case SiteCache s (ContextKey ctx) of (g, site) \<Rightarrow> if g \<noteq> Generation s then None else site)"

definition StoreCachedSite :: "stat_context \<Rightarrow> nat \<Rightarrow> stat_state \<Rightarrow> stat_state" where
  "StoreCachedSite ctx site s = s\<lparr>SiteCache := (SiteCache s)(ContextKey ctx := (Generation s, Some site))\<rparr>"

definition GetOrCreateSite :: "stat_context \<Rightarrow> string option \<Rightarrow> stat_state \<Rightarrow> stat_state \<times> nat" where
  "GetOrCreateSite ctx fmt s =
     (let create = (s\<lparr>Sites := Sites s @ [LogSiteStatistics_new ctx fmt],
                      SiteByKey := (SiteByKey s)(ContextKey ctx \<mapsto> length (Sites s))\<rparr>, length (Sites s)) in
      case SiteByKey s (ContextKey ctx) of
        None \<Rightarrow> create
      | Some i \<Rightarrow>
          let existing = Sites s ! i;
              file = (case ContextFullName ctx of Some f \<Rightarrow> c_str f | None \<Rightarrow> []);
              method = (case ContextMethod ctx of Some m \<Rightarrow> c_str m | None \<Rightarrow> []) in
          if SiteLine existing = ContextLine ctx \<and> SiteFile existing = file \<and> SiteMethod existing = method
          then (s, i) else create)"

text \<open>The position of the first slot that satisfies a test.\<close>

definition find_slot :: "('a \<Rightarrow> bool) \<Rightarrow> 'a list \<Rightarrow> nat option" where
  "find_slot P slots = (let i = length (takeWhile (\<lambda>c. \<not> P c) slots) in if i < length slots then Some i else None)"

definition GetOrCreateChannel :: "stat_channel \<Rightarrow> site_statistics \<Rightarrow> site_statistics \<times> nat option" where
  "GetOrCreateChannel ch site =
     (case find_slot (\<lambda>c. ChannelKey c = map_option fst ch) (ChannelSlots site) of
        Some i \<Rightarrow> (site, Some i)
      | None \<Rightarrow>
          if length (ChannelSlots site) < CHANNEL_SLOT_COUNT
          then (site\<lparr>ChannelSlots := ChannelSlots site @
                  [\<lparr>ChannelKey = map_option fst ch, ChannelLabel = channel_name ch, ChannelCount = counters_zero\<rparr>]\<rparr>,
                Some (length (ChannelSlots site)))
          else (site, None))"

definition record_slot :: "nat \<Rightarrow> u64 \<Rightarrow> site_statistics \<Rightarrow> site_statistics" where
  "record_slot i bytes site =
     site\<lparr>ChannelSlots := (ChannelSlots site)[i := (ChannelSlots site ! i)\<lparr>ChannelCount :=
       counters_record bytes (ChannelCount (ChannelSlots site ! i))\<rparr>]\<rparr>"

definition site_record :: "stat_channel \<Rightarrow> u64 \<Rightarrow> site_statistics \<Rightarrow> site_statistics" where
  "site_record ch bytes site =
     (case find_slot (\<lambda>c. ChannelKey c = map_option fst ch) (ChannelSlots site) of
        Some i \<Rightarrow> record_slot i bytes site
      | None \<Rightarrow>
          (case GetOrCreateChannel ch site of
             (site, Some i) \<Rightarrow> record_slot i bytes site
           | (site, None) \<Rightarrow> site\<lparr>OverflowCount := counters_record bytes (OverflowCount site)\<rparr>))"

definition update_site :: "nat \<Rightarrow> (site_statistics \<Rightarrow> site_statistics) \<Rightarrow> stat_state \<Rightarrow> stat_state" where
  "update_site i f s = s\<lparr>Sites := (Sites s)[i := f (Sites s ! i)]\<rparr>"

definition Collector_Record :: "stat_context \<Rightarrow> stat_channel \<Rightarrow> string option \<Rightarrow> u64 \<Rightarrow> stat_state \<Rightarrow> stat_state" where
  "Collector_Record ctx ch fmt messageBytes s =
     (case LoadCachedSite ctx s of
        Some site \<Rightarrow> update_site site (site_record ch messageBytes) s
      | None \<Rightarrow>
          (case GetOrCreateSite ctx fmt s of
             (s, site) \<Rightarrow> update_site site (site_record ch messageBytes) (StoreCachedSite ctx site s)))"

section \<open>Destinations\<close>

definition GetOrCreateBackend :: "stat_channel \<Rightarrow> stat_backend \<Rightarrow> site_statistics \<Rightarrow> site_statistics \<times> nat option" where
  "GetOrCreateBackend ch b site =
     (case find_slot (\<lambda>c. StatBackendId c = BackendStatId b) (BackendSlots site) of
        Some i \<Rightarrow> (site, Some i)
      | None \<Rightarrow>
          if length (BackendSlots site) < BACKEND_SLOT_COUNT
          then (site\<lparr>BackendSlots := BackendSlots site @
                  [\<lparr>StatBackendId = BackendStatId b, BackendChannel = channel_name ch, BackendLabel = backend_label b,
                    BackendCount = counters_zero\<rparr>]\<rparr>,
                Some (length (BackendSlots site)))
          else (site, None))"

definition record_backend_slot :: "nat \<Rightarrow> u64 \<Rightarrow> site_statistics \<Rightarrow> site_statistics" where
  "record_backend_slot i bytes site =
     site\<lparr>BackendSlots := (BackendSlots site)[i := (BackendSlots site ! i)\<lparr>BackendCount :=
       counters_record bytes (BackendCount (BackendSlots site ! i))\<rparr>]\<rparr>"

definition site_record_backend :: "stat_channel \<Rightarrow> stat_backend \<Rightarrow> u64 \<Rightarrow> site_statistics \<Rightarrow> site_statistics" where
  "site_record_backend ch b bytes site =
     (case find_slot (\<lambda>c. StatBackendId c = BackendStatId b) (BackendSlots site) of
        Some i \<Rightarrow> record_backend_slot i bytes site
      | None \<Rightarrow>
          (case GetOrCreateBackend ch b site of
             (site, Some i) \<Rightarrow> record_backend_slot i bytes site
           | (site, None) \<Rightarrow> site\<lparr>OverflowBackendCount := counters_record bytes (OverflowBackendCount site)\<rparr>))"

definition FILE_TYPE_ID :: string where
  "FILE_TYPE_ID = ''FileBackend''"

definition is_file_backend :: "stat_backend \<Rightarrow> bool" where
  "is_file_backend b \<longleftrightarrow> map_option c_str (BackendType b) = Some FILE_TYPE_ID"

definition BackendRuntimeStatistics_new :: "stat_backend \<Rightarrow> stat_channel \<Rightarrow> runtime_statistics" where
  "BackendRuntimeStatistics_new b ch =
     \<lparr>RuntimeId = BackendStatId b,
      RuntimeChannel = (let n = (case ch of Some (_, n) \<Rightarrow> n | None \<Rightarrow> ''<default>'') in if n = [] then ''<default>'' else n),
      RuntimeType = backend_label b, RuntimeDetails = BackendDetails b, RuntimeAsync = BackendAsync b,
      AcceptedRecords = 0, AcceptedBytes = 0, QueueDroppedRecords = 0, QueueDroppedBytes = 0,
      WriteBatches = 0, WriteOperations = 0, BatchBuffers = 0, BatchBytes = 0, MaxBatchBuffers = 0, MaxBatchBytes = 0,
      WrittenBuffers = 0, WrittenBytes = 0, FailedBatches = 0, FailedWriteOperations = 0, FailedBuffers = 0, FailedBytes = 0\<rparr>"

definition BackendRuntimeStatistics_Reset :: "runtime_statistics \<Rightarrow> runtime_statistics" where
  "BackendRuntimeStatistics_Reset r =
     r\<lparr>AcceptedRecords := 0, AcceptedBytes := 0, QueueDroppedRecords := 0, QueueDroppedBytes := 0,
       WriteBatches := 0, WriteOperations := 0, BatchBuffers := 0, BatchBytes := 0, MaxBatchBuffers := 0, MaxBatchBytes := 0,
       WrittenBuffers := 0, WrittenBytes := 0, FailedBatches := 0, FailedWriteOperations := 0, FailedBuffers := 0, FailedBytes := 0\<rparr>"

definition RecordAccepted :: "u64 \<Rightarrow> runtime_statistics \<Rightarrow> runtime_statistics" where
  "RecordAccepted outputBytes r =
     r\<lparr>AcceptedRecords := AcceptedRecords r + 1, AcceptedBytes := AcceptedBytes r + outputBytes\<rparr>"

definition RecordQueueDrop :: "u64 \<Rightarrow> runtime_statistics \<Rightarrow> runtime_statistics" where
  "RecordQueueDrop outputBytes r =
     r\<lparr>QueueDroppedRecords := QueueDroppedRecords r + 1, QueueDroppedBytes := QueueDroppedBytes r + outputBytes\<rparr>"

text \<open>The numbers a worker reports of one batch.\<close>

record write_report =
  RepBatchBuffers :: u64
  RepBatchBytes :: u64
  RepWriteOperations :: u64
  RepWrittenBuffers :: u64
  RepWrittenBytes :: u64
  RepFailedOperations :: u64
  RepFailedBuffers :: u64
  RepFailedBytes :: u64

definition RecordWrite :: "write_report \<Rightarrow> runtime_statistics \<Rightarrow> runtime_statistics" where
  "RecordWrite w r =
     r\<lparr>WriteBatches := WriteBatches r + 1,
       WriteOperations := WriteOperations r + RepWriteOperations w,
       BatchBuffers := BatchBuffers r + RepBatchBuffers w,
       BatchBytes := BatchBytes r + RepBatchBytes w,
       MaxBatchBuffers := UpdateMaximum (MaxBatchBuffers r) (RepBatchBuffers w),
       MaxBatchBytes := UpdateMaximum (MaxBatchBytes r) (RepBatchBytes w),
       WrittenBuffers := WrittenBuffers r + RepWrittenBuffers w,
       WrittenBytes := WrittenBytes r + RepWrittenBytes w,
       FailedBatches := (if RepFailedOperations w \<noteq> 0 \<or> RepFailedBuffers w \<noteq> 0 \<or> RepFailedBytes w \<noteq> 0
                         then FailedBatches r + 1 else FailedBatches r),
       FailedWriteOperations := FailedWriteOperations r + RepFailedOperations w,
       FailedBuffers := FailedBuffers r + RepFailedBuffers w,
       FailedBytes := FailedBytes r + RepFailedBytes w\<rparr>"

definition GetOrCreateRuntimeBackend :: "stat_channel \<Rightarrow> stat_backend \<Rightarrow> stat_state \<Rightarrow> stat_state \<times> nat option" where
  "GetOrCreateRuntimeBackend ch b s =
     (if \<not> is_file_backend b then (s, None)
      else
        (case RuntimeCache s (BackendStatId b) of (g, cached) \<Rightarrow>
          if g = Generation s \<and> cached \<noteq> None then (s, cached)
          else
            (case RuntimeBackendById s (BackendStatId b) of
               Some i \<Rightarrow> (s\<lparr>RuntimeCache := (RuntimeCache s)(BackendStatId b := (Generation s, Some i))\<rparr>, Some i)
             | None \<Rightarrow>
                 let i = length (RuntimeBackends s) in
                 (s\<lparr>RuntimeBackends := RuntimeBackends s @ [BackendRuntimeStatistics_new b ch],
                    RuntimeBackendById := (RuntimeBackendById s)(BackendStatId b \<mapsto> i),
                    RuntimeCache := (RuntimeCache s)(BackendStatId b := (Generation s, Some i))\<rparr>, Some i))))"

definition update_runtime ::
  "stat_channel \<Rightarrow> stat_backend \<Rightarrow> (runtime_statistics \<Rightarrow> runtime_statistics) \<Rightarrow> stat_state \<Rightarrow> stat_state" where
  "update_runtime ch b f s =
     (case GetOrCreateRuntimeBackend ch b s of
        (s, None) \<Rightarrow> s
      | (s, Some i) \<Rightarrow> s\<lparr>RuntimeBackends := (RuntimeBackends s)[i := f (RuntimeBackends s ! i)]\<rparr>)"

definition Collector_RecordBackend ::
  "nat option \<Rightarrow> stat_channel \<Rightarrow> stat_backend option \<Rightarrow> u64 \<Rightarrow> stat_state \<Rightarrow> stat_state" where
  "Collector_RecordBackend site ch backend outputBytes s =
     (case (site, backend) of
        (Some i, Some b) \<Rightarrow>
          let s = (if BackendAsync b \<and> is_file_backend b then update_runtime ch b (RecordAccepted outputBytes) s else s)
          in update_site i (site_record_backend ch b outputBytes) s
      | _ \<Rightarrow> s)"

definition RecordFileBackendQueueDrop :: "stat_channel \<Rightarrow> stat_backend option \<Rightarrow> u64 \<Rightarrow> stat_state \<Rightarrow> stat_state" where
  "RecordFileBackendQueueDrop ch backend outputBytes s =
     (case backend of None \<Rightarrow> s | Some b \<Rightarrow> update_runtime ch b (RecordQueueDrop outputBytes) s)"

definition RecordFileBackendWrite :: "stat_channel \<Rightarrow> stat_backend option \<Rightarrow> write_report \<Rightarrow> stat_state \<Rightarrow> stat_state" where
  "RecordFileBackendWrite ch backend w s =
     (case backend of None \<Rightarrow> s | Some b \<Rightarrow> update_runtime ch b (RecordWrite w) s)"

text \<open>\<open>Logger::RecordLogBackendOutput\<close> while statistics are active.\<close>

definition RecordLogBackendOutput ::
  "stat_context \<Rightarrow> stat_channel \<Rightarrow> stat_backend option \<Rightarrow> u64 \<Rightarrow> stat_state \<Rightarrow> stat_state" where
  "RecordLogBackendOutput ctx ch backend outputBytes s =
     Collector_RecordBackend (LoadCachedSite ctx s) ch backend outputBytes s"

section \<open>Sessions\<close>

definition Collector_Reset :: "int \<Rightarrow> stat_state \<Rightarrow> stat_state" where
  "Collector_Reset now s =
     (let s = s\<lparr>Sites := map LogSiteStatistics_Reset (Sites s),
                RuntimeBackends := map BackendRuntimeStatistics_Reset (RuntimeBackends s)\<rparr> in
      if HasSession s then s\<lparr>StartedAt := now, StoppedAt := now\<rparr> else s)"

definition Collector_Start :: "int \<Rightarrow> stat_state \<Rightarrow> stat_state" where
  "Collector_Start now s =
     (let s = Collector_Reset now s in s\<lparr>StartedAt := now, StoppedAt := now, HasSession := True\<rparr>)"

definition Collector_Stop :: "int \<Rightarrow> stat_state \<Rightarrow> stat_state" where
  "Collector_Stop now s = (if \<not> HasSession s then s else s\<lparr>StoppedAt := now\<rparr>)"

section \<open>Snapshots\<close>

record entry_snapshot =
  EntryFile :: string
  EntryMethod :: string
  EntryFormat :: string
  EntryChannel :: string
  EntryLine :: int
  EntryLevel :: level
  EntryCount :: counters

definition site_entry :: "site_statistics \<Rightarrow> string \<Rightarrow> counters \<Rightarrow> entry_snapshot" where
  "site_entry site channel c =
     \<lparr>EntryFile = SiteFile site, EntryMethod = SiteMethod site, EntryFormat = SiteFormat site, EntryChannel = channel,
      EntryLine = SiteLine site, EntryLevel = SiteLevel site, EntryCount = c\<rparr>"

definition SnapshotEntries :: "stat_state \<Rightarrow> entry_snapshot list" where
  "SnapshotEntries s =
     concat (map (\<lambda>site.
       map (\<lambda>c. site_entry site (ChannelLabel c) (ChannelCount c))
         (filter (\<lambda>c. Records (ChannelCount c) \<noteq> 0) (ChannelSlots site)) @
       (if Records (OverflowCount site) \<noteq> 0 then [site_entry site ''<other channels>'' (OverflowCount site)] else []))
     (Sites s))"

record backend_entry_snapshot = entry_snapshot +
  EntryBackend :: string

definition backend_entry :: "site_statistics \<Rightarrow> string \<Rightarrow> string \<Rightarrow> counters \<Rightarrow> backend_entry_snapshot" where
  "backend_entry site channel type c =
     \<lparr>EntryFile = SiteFile site, EntryMethod = SiteMethod site, EntryFormat = SiteFormat site, EntryChannel = channel,
      EntryLine = SiteLine site, EntryLevel = SiteLevel site, EntryCount = c, EntryBackend = type\<rparr>"

text \<open>An empty type asks for all backends; rows of other destinations have none.\<close>

definition SnapshotBackendEntries :: "string \<Rightarrow> stat_state \<Rightarrow> backend_entry_snapshot list" where
  "SnapshotBackendEntries backendType s =
     concat (map (\<lambda>site.
       map (\<lambda>b. backend_entry site (BackendChannel b) (BackendLabel b) (BackendCount b))
         (filter (\<lambda>b. (backendType = [] \<or> BackendLabel b = backendType) \<and> Records (BackendCount b) \<noteq> 0) (BackendSlots site)) @
       (if Records (OverflowBackendCount site) \<noteq> 0 \<and> backendType = []
        then [backend_entry site ''<other destinations>'' ''<other backends>'' (OverflowBackendCount site)] else []))
     (Sites s))"

text \<open>
  Rows with equal keys are added up. The order of the rows of an \<open>unordered_map\<close> is unspecified; the
  reports sort them.
\<close>

fun add_row :: "('a \<Rightarrow> 'k) \<Rightarrow> 'a \<Rightarrow> counters \<Rightarrow> ('a \<times> counters) list \<Rightarrow> ('a \<times> counters) list" where
  "add_row key a c [] = [(a, counters_merge counters_zero c)]"
| "add_row key a c ((a', c') # rows) =
     (if key a' = key a then (a, counters_merge c' c) # rows else (a', c') # add_row key a c rows)"

definition SnapshotChannels :: "stat_state \<Rightarrow> (string \<times> counters) list" where
  "SnapshotChannels s = fold (\<lambda>e. add_row (\<lambda>n. n) (EntryChannel e) (EntryCount e)) (SnapshotEntries s) []"

definition destination_key :: "string \<times> string \<Rightarrow> string" where
  "destination_key d = fst d @ NUL # snd d"

definition SnapshotBackends :: "string \<Rightarrow> stat_state \<Rightarrow> ((string \<times> string) \<times> counters) list" where
  "SnapshotBackends backendType s =
     fold (\<lambda>e. add_row destination_key (EntryChannel e, EntryBackend e) (EntryCount e)) (SnapshotBackendEntries backendType s) []"

definition SnapshotFileBackends :: "stat_state \<Rightarrow> runtime_statistics list" where
  "SnapshotFileBackends s =
     filter (\<lambda>r. \<not> (AcceptedRecords r = 0 \<and> QueueDroppedRecords r = 0 \<and> WriteBatches r = 0)) (RuntimeBackends s)"

section \<open>What rows add up to\<close>

lemma sum_list_update_add:
  assumes "i < length xs" and "f y = f (xs ! i) + d"
  shows "sum_list (map f (xs[i := y])) = sum_list (map f xs) + (d :: 'a :: comm_monoid_add)"
  using assms
proof (induction xs arbitrary: i)
  case (Cons x xs)
  then show ?case by (cases i) (simp_all add: ac_simps)
qed simp

lemma find_slot_Some: "find_slot P slots = Some i \<Longrightarrow> i < length slots \<and> P (slots ! i)"
  using nth_length_takeWhile [of "\<lambda>c. \<not> P c" slots]
  by (auto simp: find_slot_def Let_def split: if_splits)

lemma takeWhile_shorter: "length (takeWhile Q xs) < length xs \<longleftrightarrow> (\<exists>x \<in> set xs. \<not> Q x)"
  by (induction xs) auto

lemma find_slot_None: "find_slot P slots = None \<longleftrightarrow> (\<forall>c \<in> set slots. \<not> P c)"
  by (simp add: find_slot_def Let_def takeWhile_shorter)

definition channel_sum :: "(string \<Rightarrow> bool) \<Rightarrow> site_statistics \<Rightarrow> counters" where
  "channel_sum p site = sum_list (map (\<lambda>c. if p (ChannelLabel c) then ChannelCount c else 0) (ChannelSlots site))"

lemma record_slot_sum:
  "i < length (ChannelSlots site) \<Longrightarrow> channel_sum p (record_slot i bytes site) =
     channel_sum p site + (if p (ChannelLabel (ChannelSlots site ! i)) then Counters 1 bytes bytes else 0)"
  by (simp add: channel_sum_def record_slot_def sum_list_update_add [where d = "if p (ChannelLabel (ChannelSlots site ! i)) then Counters 1 bytes bytes else 0"]
      counters_record_add)

text \<open>What \<open>site_record\<close> does to the rows of a call site: the addresses of its slots, with the names they
  had when the slots were filled, and what the rows of a name add up to.\<close>

definition OTHER_CHANNELS :: string where
  "OTHER_CHANNELS = ''<other channels>''"

definition site_sum :: "(string \<Rightarrow> bool) \<Rightarrow> site_statistics \<Rightarrow> counters" where
  "site_sum p site = channel_sum p site + (if p OTHER_CHANNELS then OverflowCount site else 0)"

definition total_sum :: "(string \<Rightarrow> bool) \<Rightarrow> stat_state \<Rightarrow> counters" where
  "total_sum p s = sum_list (map (site_sum p) (Sites s))"

definition slot_names :: "site_statistics \<Rightarrow> (nat option \<times> string) list" where
  "slot_names site = map (\<lambda>c. (ChannelKey c, ChannelLabel c)) (ChannelSlots site)"

text \<open>
  The specification of a call site's rows: all addresses recorded there in the order of their first
  records, each with the name it had then. The first four have a row, the others share one.
\<close>

type_synonym row_names = "(nat option \<times> string) list"

definition meet_channel :: "stat_channel \<Rightarrow> row_names \<Rightarrow> row_names" where
  "meet_channel ch t =
     (if map_option fst ch \<in> fst ` set t then t else t @ [(map_option fst ch, channel_name ch)])"

definition row_name :: "row_names \<Rightarrow> stat_channel \<Rightarrow> string" where
  "row_name t ch =
     (case map_of (take CHANNEL_SLOT_COUNT t) (map_option fst ch) of Some n \<Rightarrow> n | None \<Rightarrow> OTHER_CHANNELS)"

lemma meet_channel_known:
  "map_option fst ch \<in> fst ` set t \<Longrightarrow> meet_channel ch t = t"
  by (simp add: meet_channel_def)

lemma meet_channel_distinct: "distinct (map fst t) \<Longrightarrow> distinct (map fst (meet_channel ch t))"
  by (auto simp: meet_channel_def)

lemma find_slot_names:
  assumes "slot_names site = take CHANNEL_SLOT_COUNT t" and "distinct (map fst t)"
  shows "find_slot (\<lambda>c. ChannelKey c = map_option fst ch) (ChannelSlots site) = Some i \<Longrightarrow>
      i < length (ChannelSlots site) \<and> map_option fst ch \<in> fst ` set t \<and> ChannelLabel (ChannelSlots site ! i) = row_name t ch"
    and "find_slot (\<lambda>c. ChannelKey c = map_option fst ch) (ChannelSlots site) = None \<Longrightarrow>
      map_option fst ch \<notin> fst ` set (take CHANNEL_SLOT_COUNT t)"
proof -
  let ?k = "map_option fst ch" and ?t = "take CHANNEL_SLOT_COUNT t"
  have d: "distinct (map fst ?t)" using assms(2) by (metis distinct_take take_map)
  have sub: "set ?t \<subseteq> set t" by (rule set_take_subset)
  {
    assume "find_slot (\<lambda>c. ChannelKey c = ?k) (ChannelSlots site) = Some i"
    then have i: "i < length (ChannelSlots site)" "ChannelKey (ChannelSlots site ! i) = ?k"
      using find_slot_Some by blast+
    have "(?k, ChannelLabel (ChannelSlots site ! i)) \<in> set (slot_names site)"
      using i by (auto simp: slot_names_def intro!: image_eqI [of _ _ "ChannelSlots site ! i"])
    then have m: "(?k, ChannelLabel (ChannelSlots site ! i)) \<in> set ?t" using assms(1) by simp
    then have "map_of ?t ?k = Some (ChannelLabel (ChannelSlots site ! i))" using d by simp
    moreover have "?k \<in> fst ` set t" using m sub by force
    ultimately show "i < length (ChannelSlots site) \<and> ?k \<in> fst ` set t \<and> ChannelLabel (ChannelSlots site ! i) = row_name t ch"
      using i(1) by (simp add: row_name_def)
  next
    assume "find_slot (\<lambda>c. ChannelKey c = ?k) (ChannelSlots site) = None"
    then have "?k \<notin> ChannelKey ` set (ChannelSlots site)" by (auto simp: find_slot_None)
    moreover have "fst ` set (slot_names site) = ChannelKey ` set (ChannelSlots site)"
      by (simp add: slot_names_def image_image)
    ultimately show "?k \<notin> fst ` set ?t" using assms(1) by simp
  }
qed

lemma record_slot_names [simp]: "slot_names (record_slot i b site) = slot_names site"
  by (cases "i < length (ChannelSlots site)")
    (auto simp: slot_names_def record_slot_def map_update intro!: nth_equalityI simp: nth_list_update)

lemma record_slot_site_sum:
  "i < length (ChannelSlots site) \<Longrightarrow> site_sum p (record_slot i b site) =
     site_sum p site + (if p (ChannelLabel (ChannelSlots site ! i)) then Counters 1 b b else 0)"
  using record_slot_sum [of i site p b] by (simp add: site_sum_def) (simp add: record_slot_def ac_simps)

text \<open>One record: the names met, and one more record under its name.\<close>

lemma site_record_sums:
  assumes t: "slot_names site = take CHANNEL_SLOT_COUNT t" and d: "distinct (map fst t)"
  shows "slot_names (site_record ch b site) = take CHANNEL_SLOT_COUNT (meet_channel ch t) \<and>
    site_sum p (site_record ch b site) =
      site_sum p site + (if p (row_name (meet_channel ch t) ch) then Counters 1 b b else 0)"
proof (cases "find_slot (\<lambda>c. ChannelKey c = map_option fst ch) (ChannelSlots site)")
  case (Some i)
  note i = find_slot_names(1) [OF t d Some]
  then have "meet_channel ch t = t" by (simp add: meet_channel_known)
  moreover have "site_record ch b site = record_slot i b site" by (simp add: site_record_def Some)
  ultimately show ?thesis using i t record_slot_site_sum [of i site p b] by simp
next
  case None
  note new = find_slot_names(2) [OF t d None]
  have len: "length (ChannelSlots site) = min (length t) CHANNEL_SLOT_COUNT"
    using arg_cong [OF t, of length] by (simp add: slot_names_def min.commute)
  show ?thesis
  proof (cases "length (ChannelSlots site) < CHANNEL_SLOT_COUNT")
    case True
    let ?site = "site\<lparr>ChannelSlots := ChannelSlots site @
        [\<lparr>ChannelKey = map_option fst ch, ChannelLabel = channel_name ch, ChannelCount = counters_zero\<rparr>]\<rparr>"
    let ?i = "length (ChannelSlots site)"
    have eq: "site_record ch b site = record_slot ?i b ?site"
      using None True by (simp add: site_record_def GetOrCreateChannel_def)
    have lt: "length t < CHANNEL_SLOT_COUNT" using True len by simp
    then have meet: "meet_channel ch t = t @ [(map_option fst ch, channel_name ch)]"
      using new by (simp add: meet_channel_def)
    have "map_of t (map_option fst ch) = None" using new lt by (simp add: map_of_eq_None_iff)
    then have "row_name (meet_channel ch t) ch = channel_name ch"
      using lt by (simp add: row_name_def meet map_add_def)
    moreover have "slot_names ?site = take CHANNEL_SLOT_COUNT (meet_channel ch t)"
      using t lt by (simp add: meet slot_names_def)
    moreover have "site_sum p ?site = site_sum p site" by (simp add: site_sum_def channel_sum_def)
    ultimately show ?thesis
      unfolding eq using record_slot_site_sum [of ?i ?site p b] by simp
  next
    case False
    then have full: "length t \<ge> CHANNEL_SLOT_COUNT" using len by simp
    have eq: "site_record ch b site = site\<lparr>OverflowCount := counters_record b (OverflowCount site)\<rparr>"
      using None False by (simp add: site_record_def GetOrCreateChannel_def)
    have take: "take CHANNEL_SLOT_COUNT (meet_channel ch t) = take CHANNEL_SLOT_COUNT t"
      using full by (simp add: meet_channel_def)
    then have "row_name (meet_channel ch t) ch = OTHER_CHANNELS"
      using new by (simp add: row_name_def map_of_eq_None_iff [symmetric])
    then show ?thesis
      using t by (simp add: eq take) (simp add: slot_names_def site_sum_def channel_sum_def counters_record_add ac_simps)
  qed
qed

text \<open>A row that reads zero is empty as long as no counter of records can have wrapped.\<close>

definition counter_ok :: "nat \<Rightarrow> counters \<Rightarrow> bool" where
  "counter_ok n c \<longleftrightarrow> unat (Records c) \<le> n \<and> (Records c = 0 \<longrightarrow> c = 0)"

definition site_ok :: "nat \<Rightarrow> site_statistics \<Rightarrow> bool" where
  "site_ok n site \<longleftrightarrow> counter_ok n (OverflowCount site) \<and> (\<forall>c \<in> set (ChannelSlots site). counter_ok n (ChannelCount c))"

lemma counter_ok_zero [simp]: "counter_ok n counters_zero" "counter_ok n 0"
  by (simp_all add: counter_ok_def)

lemma counter_ok_record: "counter_ok n c \<Longrightarrow> Suc n < 2 ^ 64 \<Longrightarrow> counter_ok (Suc n) (counters_record b c) \<and> Records (counters_record b c) \<noteq> 0"
  by (auto simp: counter_ok_def counters_record_def unat_word_ariths unat_eq_0 [symmetric] mod_less)

lemma counter_ok_Suc: "counter_ok n c \<Longrightarrow> counter_ok (Suc n) c"
  by (auto simp: counter_ok_def)

text \<open>Rows with records have names from a set.\<close>

definition labels_ok :: "string set \<Rightarrow> site_statistics \<Rightarrow> bool" where
  "labels_ok L site \<longleftrightarrow> (\<forall>c \<in> set (ChannelSlots site). Records (ChannelCount c) \<noteq> 0 \<longrightarrow> ChannelLabel c \<in> L) \<and>
     (Records (OverflowCount site) \<noteq> 0 \<longrightarrow> OTHER_CHANNELS \<in> L)"

lemma record_slot_labels:
  assumes "labels_ok L site" and "i < length (ChannelSlots site)" and "ChannelLabel (ChannelSlots site ! i) \<in> L"
  shows "labels_ok L (record_slot i b site)"
  using assms by (auto simp: labels_ok_def record_slot_def dest!: subsetD [OF set_update_subset_insert])

lemma site_record_labels:
  assumes t: "slot_names site = take CHANNEL_SLOT_COUNT t" and d: "distinct (map fst t)" and lab: "labels_ok L site"
    and ch: "row_name (meet_channel ch t) ch \<in> L"
  shows "labels_ok L (site_record ch b site)"
proof (cases "find_slot (\<lambda>c. ChannelKey c = map_option fst ch) (ChannelSlots site)")
  case (Some i)
  note i = find_slot_names(1) [OF t d Some]
  then have "meet_channel ch t = t" by (simp add: meet_channel_known)
  with record_slot_labels [OF lab] i ch Some show ?thesis by (simp add: site_record_def)
next
  case None
  note new = find_slot_names(2) [OF t d None]
  have len: "length (ChannelSlots site) = min (length t) CHANNEL_SLOT_COUNT"
    using arg_cong [OF t, of length] by (simp add: slot_names_def min.commute)
  show ?thesis
  proof (cases "length (ChannelSlots site) < CHANNEL_SLOT_COUNT")
    case True
    then have lt: "length t < CHANNEL_SLOT_COUNT" using len by simp
    have "map_of t (map_option fst ch) = None" using new lt by (simp add: map_of_eq_None_iff)
    then have "channel_name ch \<in> L"
      using ch lt new by (simp add: row_name_def meet_channel_def map_add_def)
    moreover have "labels_ok L (fst (GetOrCreateChannel ch site))" using None True lab by (auto simp: GetOrCreateChannel_def labels_ok_def)
    ultimately show ?thesis using None True
      by (auto simp: site_record_def GetOrCreateChannel_def intro!: record_slot_labels)
  next
    case False
    then have full: "length t \<ge> CHANNEL_SLOT_COUNT" using len by simp
    have "take CHANNEL_SLOT_COUNT (meet_channel ch t) = take CHANNEL_SLOT_COUNT t"
      using full by (simp add: meet_channel_def)
    then have "OTHER_CHANNELS \<in> L"
      using new ch by (simp add: row_name_def map_of_eq_None_iff [symmetric])
    with None False lab show ?thesis by (auto simp: site_record_def GetOrCreateChannel_def labels_ok_def)
  qed
qed

section \<open>Recording, as a sequence of operations\<close>

text \<open>
  \<open>StatOther\<close> is another logger's collector (of another generation) taking over a call site's cache.
\<close>

datatype stat_op =
    StatRecord stat_context stat_channel "string option" u64
  | StatOutput stat_context stat_channel "stat_backend option" u64
  | StatDrop stat_channel "stat_backend option" u64
  | StatWrite stat_channel "stat_backend option" write_report
  | StatStart int
  | StatStop int
  | StatReset int
  | StatOther nat u64 "nat option"

fun stat_step :: "stat_op \<Rightarrow> stat_state \<Rightarrow> stat_state" where
  "stat_step (StatRecord ctx ch fmt bytes) s = Collector_Record ctx ch fmt bytes s"
| "stat_step (StatOutput ctx ch b bytes) s = RecordLogBackendOutput ctx ch b bytes s"
| "stat_step (StatDrop ch b bytes) s = RecordFileBackendQueueDrop ch b bytes s"
| "stat_step (StatWrite ch b w) s = RecordFileBackendWrite ch b w s"
| "stat_step (StatStart now) s = Collector_Start now s"
| "stat_step (StatStop now) s = Collector_Stop now s"
| "stat_step (StatReset now) s = Collector_Reset now s"
| "stat_step (StatOther k g site) s = s\<lparr>SiteCache := (SiteCache s)(k := (g, site))\<rparr>"

text \<open>The row of a call site that a record goes to.\<close>

definition site_used :: "stat_context \<Rightarrow> string option \<Rightarrow> stat_state \<Rightarrow> nat" where
  "site_used ctx fmt s = (case LoadCachedSite ctx s of Some i \<Rightarrow> i | None \<Rightarrow> snd (GetOrCreateSite ctx fmt s))"

text \<open>
  What an observer notes beside the state: the names met at each call site since the collector was
  made, and the records since the last reset, each with the name of its row and its size.
\<close>

type_synonym stat_view = "stat_state \<times> row_names list \<times> (string \<times> u64) list"

definition meet_site :: "nat \<Rightarrow> row_names list \<Rightarrow> row_names list" where
  "meet_site i h = (if i < length h then h else h @ [[]])"

fun stat_names :: "stat_op \<Rightarrow> stat_state \<Rightarrow> row_names list \<Rightarrow> row_names list" where
  "stat_names (StatRecord ctx ch fmt bytes) s h =
     (let i = site_used ctx fmt s; h = meet_site i h in h[i := meet_channel ch (h ! i)])"
| "stat_names _ s h = h"

fun stat_log :: "stat_op \<Rightarrow> stat_state \<Rightarrow> row_names list \<Rightarrow> (string \<times> u64) list \<Rightarrow> (string \<times> u64) list" where
  "stat_log (StatRecord ctx ch fmt bytes) s h l =
     l @ [(row_name (stat_names (StatRecord ctx ch fmt bytes) s h ! site_used ctx fmt s) ch, bytes)]"
| "stat_log (StatReset now) s h l = []"
| "stat_log (StatStart now) s h l = []"
| "stat_log _ s h l = l"

fun stat_observe :: "stat_op \<Rightarrow> stat_view \<Rightarrow> stat_view" where
  "stat_observe x (s, h, l) = (stat_step x s, stat_names x s h, stat_log x s h l)"

text \<open>The caches of call sites are overwritten by collectors of other generations.\<close>

definition foreign_caches :: "u64 \<Rightarrow> stat_op \<Rightarrow> bool" where
  "foreign_caches gen x \<longleftrightarrow> (case x of StatOther _ g _ \<Rightarrow> g \<noteq> gen | _ \<Rightarrow> True)"

definition log_sum :: "(string \<Rightarrow> bool) \<Rightarrow> (string \<times> u64) list \<Rightarrow> counters" where
  "log_sum p l = sum_list (map (\<lambda>(c, b). if p c then Counters 1 b b else 0) l)"

definition site_inv :: "nat \<Rightarrow> string set \<Rightarrow> row_names \<Rightarrow> site_statistics \<Rightarrow> bool" where
  "site_inv n L t site \<longleftrightarrow> slot_names site = take CHANNEL_SLOT_COUNT t \<and> distinct (map fst t) \<and> site_ok n site \<and> labels_ok L site"

definition stat_inv :: "nat \<Rightarrow> row_names list \<Rightarrow> (string \<times> u64) list \<Rightarrow> stat_state \<Rightarrow> bool" where
  "stat_inv n h l s \<longleftrightarrow>
     (\<forall>k i. SiteByKey s k = Some i \<longrightarrow> i < length (Sites s)) \<and>
     (\<forall>k i. SiteCache s k = (Generation s, Some i) \<longrightarrow> i < length (Sites s)) \<and>
     (\<forall>i < length (Sites s). site_inv n (fst ` set l) (h ! i) (Sites s ! i)) \<and>
     length h = length (Sites s) \<and>
     (\<forall>p. total_sum p s = log_sum p l)"

text \<open>An operation that leaves the channel rows alone.\<close>

definition channel_rows :: "stat_state \<Rightarrow> (channel_statistics list \<times> counters) list" where
  "channel_rows s = map (\<lambda>x. (ChannelSlots x, OverflowCount x)) (Sites s)"

definition same_channels :: "stat_state \<Rightarrow> stat_state \<Rightarrow> bool" where
  "same_channels s s' \<longleftrightarrow> SiteByKey s' = SiteByKey s \<and> SiteCache s' = SiteCache s \<and> Generation s' = Generation s \<and>
     channel_rows s' = channel_rows s"

lemma channel_rows_length: "channel_rows s' = channel_rows s \<Longrightarrow> length (Sites s') = length (Sites s)"
  by (metis channel_rows_def length_map)

lemma channel_rows_nth:
  assumes "channel_rows s' = channel_rows s" and "i < length (Sites s)"
  shows "ChannelSlots (Sites s' ! i) = ChannelSlots (Sites s ! i)" "OverflowCount (Sites s' ! i) = OverflowCount (Sites s ! i)"
proof -
  have "channel_rows s' ! i = channel_rows s ! i" using assms(1) by simp
  then show "ChannelSlots (Sites s' ! i) = ChannelSlots (Sites s ! i)" "OverflowCount (Sites s' ! i) = OverflowCount (Sites s ! i)"
    using assms(2) channel_rows_length [OF assms(1)] by (simp_all add: channel_rows_def)
qed

lemma channel_rows_total:
  assumes "channel_rows s' = channel_rows s"
  shows "total_sum p s' = total_sum p s"
proof -
  have "map (site_sum p) (Sites s') = map (site_sum p) (Sites s)"
    using channel_rows_length [OF assms] channel_rows_nth [OF assms]
    by (intro nth_equalityI) (simp_all add: site_sum_def channel_sum_def)
  then show ?thesis by (simp add: total_sum_def)
qed

lemma stat_inv_same:
  assumes "stat_inv n h l s" and "same_channels s s'"
  shows "stat_inv n h l s'"
proof -
  note rows = assms(2) [unfolded same_channels_def, THEN conjunct2, THEN conjunct2, THEN conjunct2]
  have "site_inv n L t (Sites s' ! i) = site_inv n L t (Sites s ! i)" if "i < length (Sites s)" for i L t
    using channel_rows_nth [OF rows that] by (simp add: site_inv_def slot_names_def site_ok_def labels_ok_def)
  with assms channel_rows_length [OF rows] channel_rows_total [OF rows] show ?thesis
    by (simp add: stat_inv_def) (simp add: same_channels_def)
qed

lemma same_channels_refl [simp]: "same_channels s s"
  by (simp add: same_channels_def)

lemma same_channels_trans: "same_channels s t \<Longrightarrow> same_channels t u \<Longrightarrow> same_channels s u"
  by (simp add: same_channels_def)

lemma same_channels_runtime: "same_channels s (update_runtime ch b f s)"
  by (auto simp: same_channels_def channel_rows_def update_runtime_def GetOrCreateRuntimeBackend_def Let_def split: prod.splits option.splits)

lemma same_channels_site:
  assumes "\<And>x. ChannelSlots (f x) = ChannelSlots x \<and> OverflowCount (f x) = OverflowCount x"
  shows "same_channels s (update_site i f s)"
  using assms by (cases "i < length (Sites s)")
    (auto simp: same_channels_def channel_rows_def update_site_def map_update list_update_same_conv intro!: nth_equalityI simp: nth_list_update)

lemma same_channels_backend: "same_channels s (RecordLogBackendOutput ctx ch b bytes s)"
proof -
  have site: "same_channels t (update_site i (site_record_backend ch b' bytes) t)" for t i b'
    by (rule same_channels_site)
      (auto simp: site_record_backend_def record_backend_slot_def GetOrCreateBackend_def split: option.splits)
  then have "same_channels s (update_site i (site_record_backend ch b' bytes) (update_runtime ch b' f s))" for i b' f
    using same_channels_runtime same_channels_trans by blast
  with site show ?thesis
    by (simp add: RecordLogBackendOutput_def Collector_RecordBackend_def Let_def split: option.split)
qed

lemma same_channels_step:
  "same_channels s (stat_step (StatOutput ctx ch b bytes) s)" "same_channels s (stat_step (StatDrop ch b bytes) s)"
  "same_channels s (stat_step (StatWrite ch b w) s)" "same_channels s (stat_step (StatStop now) s)"
  using same_channels_backend same_channels_runtime
  by (auto simp: RecordFileBackendQueueDrop_def RecordFileBackendWrite_def Collector_Stop_def split: option.split)
     (simp add: same_channels_def channel_rows_def)

lemma stat_inv_reset:
  assumes "stat_inv n h l s"
  shows "stat_inv n h [] (Collector_Reset now s)"
proof -
  have zero: "site_sum p (LogSiteStatistics_Reset x) = 0" for p x
    by (simp add: site_sum_def channel_sum_def LogSiteStatistics_Reset_def comp_def cong: if_cong)
  have ok: "site_inv n {} t (LogSiteStatistics_Reset x)" if "site_inv n L t x" for x t L
    using that by (auto simp: site_inv_def slot_names_def site_ok_def labels_ok_def LogSiteStatistics_Reset_def comp_def)
  have sites: "Sites (Collector_Reset now s) = map LogSiteStatistics_Reset (Sites s)"
    "SiteByKey (Collector_Reset now s) = SiteByKey s" "SiteCache (Collector_Reset now s) = SiteCache s"
    "Generation (Collector_Reset now s) = Generation s"
    by (simp_all add: Collector_Reset_def Let_def)
  have "total_sum p (Collector_Reset now s) = 0" for p
    by (simp add: total_sum_def sites comp_def zero)
  moreover have "site_inv n {} (h ! i) (LogSiteStatistics_Reset (Sites s ! i))" if "i < length (Sites s)" for i
    using ok assms that unfolding stat_inv_def by blast
  ultimately show ?thesis using assms by (simp add: stat_inv_def sites log_sum_def)
qed

lemma record_slot_site_ok:
  assumes "site_ok n site" and "Suc n < 2 ^ 64" and "i < length (ChannelSlots site)"
  shows "site_ok (Suc n) (record_slot i b site)"
  using assms counter_ok_record [of n _ b] counter_ok_Suc
  by (auto simp: site_ok_def record_slot_def set_conv_nth nth_list_update)

lemma site_record_ok:
  assumes "site_ok n site" and "Suc n < 2 ^ 64"
  shows "site_ok (Suc n) (site_record ch b site)"
proof (cases "find_slot (\<lambda>c. ChannelKey c = map_option fst ch) (ChannelSlots site)")
  case (Some i)
  then show ?thesis using assms find_slot_Some [OF Some] by (simp add: site_record_def record_slot_site_ok)
next
  case None
  show ?thesis
  proof (cases "length (ChannelSlots site) < CHANNEL_SLOT_COUNT")
    case True
    have "site_ok n (fst (GetOrCreateChannel ch site))"
      using None True assms(1) by (auto simp: GetOrCreateChannel_def site_ok_def)
    with None True assms(2) show ?thesis
      by (auto simp: site_record_def GetOrCreateChannel_def intro!: record_slot_site_ok)
  next
    case False
    with None assms counter_ok_record [of n _ b] counter_ok_Suc show ?thesis
      by (auto simp: site_record_def GetOrCreateChannel_def site_ok_def)
  qed
qed

text \<open>Recording at a valid row.\<close>

lemma stat_inv_record:
  assumes inv: "stat_inv n h l s" and i: "i < length (Sites s)" and n: "Suc n < 2 ^ 64" and t: "t = meet_channel ch (h ! i)"
  shows "stat_inv (Suc n) (h[i := t]) (l @ [(row_name t ch, b)]) (update_site i (site_record ch b) s)"
proof -
  let ?s = "update_site i (site_record ch b) s" and ?x = "Sites s ! i" and ?L = "insert (row_name t ch) (fst ` set l)"
  have ok: "site_inv n (fst ` set l) (h ! j) (Sites s ! j)" if "j < length (Sites s)" for j
    using inv that by (simp add: stat_inv_def)
  have x: "slot_names ?x = take CHANNEL_SLOT_COUNT (h ! i)" "distinct (map fst (h ! i))" "site_ok n ?x" "labels_ok ?L ?x"
    using ok [OF i] by (auto simp: site_inv_def labels_ok_def)
  note rec = site_record_sums [OF x(1,2), of ch b, folded t]
  have "site_inv (Suc n) ?L t (site_record ch b ?x)"
    using rec site_record_ok [OF x(3) n] site_record_labels [OF x(1,2,4), of ch b, folded t] meet_channel_distinct [OF x(2), of ch]
    by (simp add: site_inv_def t)
  moreover have "site_inv (Suc n) ?L (h ! j) (Sites s ! j)" if "j < length (Sites s)" for j
    using ok [OF that] counter_ok_Suc by (auto simp: site_inv_def labels_ok_def site_ok_def)
  ultimately have "\<forall>j < length (Sites ?s). site_inv (Suc n) ?L (h[i := t] ! j) (Sites ?s ! j)"
    using inv i by (simp add: update_site_def nth_list_update stat_inv_def)
  moreover have "total_sum p ?s = total_sum p s + (if p (row_name t ch) then Counters 1 b b else 0)" for p
    using rec i by (simp add: total_sum_def update_site_def sum_list_update_add)
  ultimately show ?thesis
    using inv i by (simp add: stat_inv_def) (simp add: update_site_def log_sum_def)
qed

lemma stat_inv_Suc: "stat_inv n h l s \<Longrightarrow> stat_inv (Suc n) h l s"
  using counter_ok_Suc by (auto simp: stat_inv_def site_inv_def site_ok_def)

lemma stat_inv_site:
  assumes inv: "stat_inv n h l s" and "GetOrCreateSite ctx fmt s = (s', i)"
  shows "stat_inv n (meet_site i h) l (StoreCachedSite ctx i s') \<and> i < length (Sites s') \<and> Generation s' = Generation s"
proof -
  let ?new = "LogSiteStatistics_new ctx fmt"
  let ?c = "s\<lparr>Sites := Sites s @ [?new], SiteByKey := (SiteByKey s)(ContextKey ctx \<mapsto> length (Sites s))\<rparr>"
  have cases: "(s', i) = (?c, length (Sites s)) \<or> (s' = s \<and> SiteByKey s (ContextKey ctx) = Some i)"
    using assms(2) by (auto simp: GetOrCreateSite_def Let_def split: option.splits if_splits)
  have new: "site_sum p ?new = 0" "site_inv n L [] ?new" for p L
    by (simp_all add: LogSiteStatistics_new_def channel_sum_def site_sum_def site_inv_def slot_names_def site_ok_def labels_ok_def)
  have c: "stat_inv n (h @ [[]]) l ?c"
    using inv new by (auto simp: stat_inv_def total_sum_def less_Suc_eq nth_append)
  have "stat_inv n (meet_site i h) l s' \<and> i < length (Sites s') \<and> Generation s' = Generation s"
    using cases inv c by (auto simp: stat_inv_def meet_site_def)
  then show ?thesis
    by (auto simp: stat_inv_def StoreCachedSite_def total_sum_def)
qed

lemma Generation_step: "Generation (stat_step x s) = Generation s"
proof -
  have "Generation (update_runtime ch b f s) = Generation s" for ch b f s
    using same_channels_runtime [of s ch b f] by (simp add: same_channels_def)
  moreover have "Generation (RecordLogBackendOutput ctx ch b bytes s) = Generation s" for ctx ch b bytes
    using same_channels_backend [of s ctx ch b bytes] by (simp add: same_channels_def)
  ultimately show ?thesis
    by (cases x)
      (auto simp: Collector_Record_def update_site_def StoreCachedSite_def GetOrCreateSite_def Let_def Collector_Start_def
        Collector_Stop_def Collector_Reset_def RecordFileBackendQueueDrop_def RecordFileBackendWrite_def split: option.splits)
qed

lemma stat_inv_step:
  assumes inv: "stat_inv n h l s" and x: "foreign_caches (Generation s) x" and n: "Suc n < 2 ^ 64"
  shows "stat_inv (Suc n) (stat_names x s h) (stat_log x s h l) (stat_step x s)"
proof (cases x)
  case (StatRecord ctx ch fmt b)
  show ?thesis
  proof (cases "LoadCachedSite ctx s")
    case (Some i)
    have "SiteCache s (ContextKey ctx) = (Generation s, Some i)"
      using Some by (auto simp: LoadCachedSite_def split: prod.splits if_splits)
    then have "i < length (Sites s)" using inv by (simp add: stat_inv_def)
    moreover have "length h = length (Sites s)" using inv by (simp add: stat_inv_def)
    ultimately show ?thesis
      using stat_inv_record [OF inv _ n refl, of i ch b] Some StatRecord
      by (simp add: Collector_Record_def site_used_def meet_site_def Let_def)
  next
    case None
    obtain s' i where s': "GetOrCreateSite ctx fmt s = (s', i)" by fastforce
    note site = stat_inv_site [OF inv s']
    then have "i < length (Sites (StoreCachedSite ctx i s'))" by (simp add: StoreCachedSite_def)
    moreover have "length (meet_site i h) = length (Sites (StoreCachedSite ctx i s'))"
      using site by (simp add: stat_inv_def)
    ultimately show ?thesis
      using stat_inv_record [OF _ _ n refl, of "meet_site i h" l "StoreCachedSite ctx i s'" i ch b] site None s' StatRecord
      by (simp add: Collector_Record_def site_used_def Let_def)
  qed
next
  case (StatReset now)
  then show ?thesis using stat_inv_Suc [OF stat_inv_reset [OF inv]] by simp
next
  case (StatStart now)
  have "stat_inv n h [] (Collector_Start now s)"
    using stat_inv_reset [OF inv, of now]
    by (simp add: Collector_Start_def Let_def stat_inv_def total_sum_def)
  with StatStart show ?thesis using stat_inv_Suc by simp
next
  case (StatOther k g site)
  then have "g \<noteq> Generation s" using x by (simp add: foreign_caches_def)
  with StatOther inv show ?thesis
    by (simp, intro stat_inv_Suc) (auto simp: stat_inv_def total_sum_def)
qed (use stat_inv_Suc [OF stat_inv_same [OF inv same_channels_step(1)]] stat_inv_Suc [OF stat_inv_same [OF inv same_channels_step(2)]]
    stat_inv_Suc [OF stat_inv_same [OF inv same_channels_step(3)]] stat_inv_Suc [OF stat_inv_same [OF inv same_channels_step(4)]]
    in \<open>simp_all del: stat_step.simps\<close>)

lemma stat_inv_run:
  assumes "stat_inv n h l s" and "list_all (foreign_caches (Generation s)) ops" and "n + length ops < 2 ^ 64"
    and "fold stat_observe ops (s, h, l) = (s', h', l')"
  shows "stat_inv (n + length ops) h' l' s' \<and> s' = fold stat_step ops s \<and> length l' \<le> length ops + length l"
  using assms
proof (induction ops arbitrary: n h l s)
  case (Cons x ops)
  from Cons.prems have "stat_inv (Suc n) (stat_names x s h) (stat_log x s h l) (stat_step x s)"
    by (intro stat_inv_step) simp_all
  moreover have "length (stat_log x s h l) \<le> Suc (length l)" by (cases x) simp_all
  ultimately show ?case
    using Cons.IH [of "Suc n" "stat_names x s h" "stat_log x s h l" "stat_step x s"] Cons.prems by (auto simp: Generation_step)
qed auto

lemma stat_inv_new:
  assumes "\<forall>k. fst (siteCache k) \<noteq> g"
  shows "stat_inv 0 [] [] (LogStatisticsCollector_new g siteCache runtimeCache)"
proof -
  have "siteCache k \<noteq> (g, Some i)" for k i using assms by (metis fst_conv)
  then show ?thesis
    by (simp add: stat_inv_def LogStatisticsCollector_new_def total_sum_def log_sum_def)
qed

section \<open>What the snapshots show\<close>

definition entry_sum :: "(string \<Rightarrow> bool) \<Rightarrow> entry_snapshot list \<Rightarrow> counters" where
  "entry_sum p es = sum_list (map (\<lambda>e. if p (EntryChannel e) then EntryCount e else 0) es)"

lemma site_entry_sel [simp]: "EntryChannel (site_entry site ch c) = ch" "EntryCount (site_entry site ch c) = c"
  by (simp_all add: site_entry_def)

lemma entry_sum_append [simp]: "entry_sum p (a @ b) = entry_sum p a + entry_sum p b" "entry_sum p [] = 0"
  by (simp_all add: entry_sum_def)

lemma entry_sum_slots:
  "\<forall>c \<in> set cs. counter_ok n (ChannelCount c) \<Longrightarrow>
   entry_sum p (map (\<lambda>c. site_entry site (ChannelLabel c) (ChannelCount c)) (filter (\<lambda>c. Records (ChannelCount c) \<noteq> 0) cs)) =
     sum_list (map (\<lambda>c. if p (ChannelLabel c) then ChannelCount c else 0) cs)"
  by (induction cs) (auto simp: entry_sum_def counter_ok_def)

lemma snapshot_sum:
  assumes "\<forall>site \<in> set (Sites s). site_ok n site"
  shows "entry_sum p (SnapshotEntries s) = total_sum p s"
proof -
  let ?rows = "\<lambda>site. map (\<lambda>c. site_entry site (ChannelLabel c) (ChannelCount c))
         (filter (\<lambda>c. Records (ChannelCount c) \<noteq> 0) (ChannelSlots site)) @
       (if Records (OverflowCount site) \<noteq> 0 then [site_entry site ''<other channels>'' (OverflowCount site)] else [])"
  have row: "entry_sum p (?rows site) = site_sum p site" if "site_ok n site" for site
    using that entry_sum_slots [of "ChannelSlots site" n p site]
    by (auto simp: site_ok_def site_sum_def channel_sum_def entry_sum_def counter_ok_def OTHER_CHANNELS_def)
  have "entry_sum p (concat (map ?rows sites)) = sum_list (map (site_sum p) sites)"
    if "\<forall>site \<in> set sites. site_ok n site" for sites
    using that
  proof (induction sites)
    case (Cons x sites)
    then have "entry_sum p (?rows x) = site_sum p x" using row by simp
    with Cons show ?case by (simp add: ac_simps)
  qed simp
  from this [OF assms] show ?thesis by (simp add: SnapshotEntries_def total_sum_def)
qed

text \<open>Adding up by key.\<close>

definition row_sum :: "('a \<Rightarrow> bool) \<Rightarrow> ('a \<times> counters) list \<Rightarrow> counters" where
  "row_sum p rows = sum_list (map (\<lambda>(a, c). if p a then c else 0) rows)"

lemma add_row_keys:
  "map fst (add_row (\<lambda>n. n) a c rows) = (if a \<in> fst ` set rows then map fst rows else map fst rows @ [a])"
  by (induction "\<lambda>n :: 'a. n" a c rows rule: add_row.induct) auto

lemma add_row_sum: "row_sum p (add_row (\<lambda>n. n) a c rows) = row_sum p rows + (if p a then c else 0)"
  by (induction "\<lambda>n :: 'a. n" a c rows rule: add_row.induct) (auto simp: row_sum_def ac_simps)

lemma add_rows:
  fixes es :: "entry_snapshot list"
  shows "distinct (map fst rows) \<Longrightarrow>
    distinct (map fst (fold (\<lambda>e. add_row (\<lambda>n. n) (EntryChannel e) (EntryCount e)) es rows)) \<and>
    set (map fst (fold (\<lambda>e. add_row (\<lambda>n. n) (EntryChannel e) (EntryCount e)) es rows)) = fst ` set rows \<union> EntryChannel ` set es \<and>
    row_sum p (fold (\<lambda>e. add_row (\<lambda>n. n) (EntryChannel e) (EntryCount e)) es rows) = row_sum p rows + entry_sum p es"
proof (induction es arbitrary: rows)
  case Nil
  then show ?case by simp
next
  case (Cons e es)
  let ?r = "add_row (\<lambda>n. n) (EntryChannel e) (EntryCount e) rows"
  have d: "distinct (map fst ?r)" using Cons.prems by (auto simp: add_row_keys)
  have k: "fst ` set ?r = insert (EntryChannel e) (fst ` set rows)"
    using arg_cong [OF add_row_keys [of "EntryChannel e" "EntryCount e" rows], of set] by (auto split: if_splits)
  from Cons.IH [OF d] k show ?case by (auto simp: add_row_sum entry_sum_def ac_simps)
qed

lemma row_sum_all: "row_sum (\<lambda>_. True) rows = sum_list (map snd rows)"
  by (induction rows) (auto simp: row_sum_def)

lemma row_sum_absent: "n \<notin> fst ` set rows \<Longrightarrow> row_sum (\<lambda>m. m = n) rows = 0"
  by (induction rows) (auto simp: row_sum_def)

lemma row_sum_single:
  assumes "distinct (map fst rows)" and "(n, c) \<in> set rows"
  shows "row_sum (\<lambda>m. m = n) rows = c"
  using assms
proof (induction rows)
  case (Cons r rows)
  show ?case
  proof (cases "r = (n, c)")
    case True
    with Cons.prems row_sum_absent [of n rows] show ?thesis by (simp add: row_sum_def)
  next
    case False
    obtain m d where r: "r = (m, d)" by (cases r)
    have "(n, c) \<in> set rows" using Cons.prems(2) False by auto
    then have "n \<in> fst ` set rows" by force
    then have "m \<noteq> n" using Cons.prems(1) r by auto
    with Cons \<open>(n, c) \<in> set rows\<close> r show ?thesis by (simp add: row_sum_def)
  qed
qed simp

lemma log_sum_one: "log_sum (\<lambda>m. m = n) l = sum_list (map (\<lambda>(_, b). Counters 1 b b) (filter (\<lambda>(m, _). m = n) l))"
  by (induction l) (auto simp: log_sum_def)

lemma count_nonzero: "k < 2 ^ 64 \<Longrightarrow> k \<noteq> 0 \<Longrightarrow> (of_nat k :: u64) \<noteq> 0"
  using nat_dvd_not_less [of k "2 ^ 64"] by (simp add: word_of_nat_eq_0_iff)

lemma records_count: "Records (sum_list (map (\<lambda>(_, b). Counters 1 b b) l)) = of_nat (length l)"
  by (induction l) auto

text \<open>The rows of the channel snapshot, from the invariant.\<close>

lemma snapshot_channels:
  assumes inv: "stat_inv n h l s" and len: "length l < 2 ^ 64"
  shows "sum_list (map snd (SnapshotChannels s)) = sum_list (map (\<lambda>(_, b). Counters 1 b b) l) \<and>
    distinct (map fst (SnapshotChannels s)) \<and>
    ((m, c) \<in> set (SnapshotChannels s) \<longleftrightarrow>
       m \<in> fst ` set l \<and> c = sum_list (map (\<lambda>(_, b). Counters 1 b b) (filter (\<lambda>(k, _). k = m) l)))"
proof -
  have site: "site_inv n (fst ` set l) (h ! i) (Sites s ! i)" if "i < length (Sites s)" for i
    using inv that by (simp add: stat_inv_def)
  then have ok: "\<forall>site \<in> set (Sites s). site_ok n site \<and> labels_ok (fst ` set l) site"
    by (auto simp: in_set_conv_nth site_inv_def)
  let ?rows = "SnapshotChannels s"
  have rows: "distinct (map fst ?rows)" "fst ` set ?rows = EntryChannel ` set (SnapshotEntries s)"
    "row_sum p ?rows = entry_sum p (SnapshotEntries s)" for p
    using add_rows [of "[]" "SnapshotEntries s" p] by (simp_all add: SnapshotChannels_def id_def row_sum_def)
  have sum: "row_sum p ?rows = log_sum p l" for p
    using rows(3) snapshot_sum [of s n p] ok inv by (simp add: stat_inv_def)
  have total: "sum_list (map snd ?rows) = sum_list (map (\<lambda>(_, b). Counters 1 b b) l)"
    using sum [of "\<lambda>_. True"] by (simp only: row_sum_all) (simp add: log_sum_def case_prod_beta)
  have row: "(m, c) \<in> set ?rows \<Longrightarrow> c = log_sum (\<lambda>k. k = m) l" for c
    using row_sum_single [OF rows(1)] sum by metis
  have "m \<in> fst ` set ?rows \<longleftrightarrow> m \<in> fst ` set l"
  proof
    assume "m \<in> fst ` set ?rows"
    then have "m \<in> EntryChannel ` set (SnapshotEntries s)" using rows(2) by simp
    then show "m \<in> fst ` set l"
      using ok by (auto simp: SnapshotEntries_def labels_ok_def OTHER_CHANNELS_def split: if_splits)
  next
    assume "m \<in> fst ` set l"
    then have ne: "length (filter (\<lambda>(k, _). k = m) l) \<noteq> 0" by (force simp: filter_empty_conv)
    have "length (filter (\<lambda>(k, _). k = m) l) < 2 ^ 64" by (rule le_less_trans [OF length_filter_le len])
    then have "Records (log_sum (\<lambda>k. k = m) l) \<noteq> 0"
      unfolding log_sum_one records_count by (rule count_nonzero [OF _ ne])
    then have "row_sum (\<lambda>k. k = m) ?rows \<noteq> 0" using sum by auto
    then show "m \<in> fst ` set ?rows" by (rule contrapos_np) (rule row_sum_absent)
  qed
  then have "(\<exists>c. (m, c) \<in> set ?rows) \<longleftrightarrow> m \<in> fst ` set l" by force
  with total rows(1) row show ?thesis by (auto simp: log_sum_one)
qed

text \<open>The same after any operations.\<close>

lemma snapshot_channels_run:
  assumes "\<forall>k. fst (siteCache k) \<noteq> g" and "list_all (foreign_caches g) ops" and "length ops < 2 ^ 64"
    and "fold stat_observe ops (LogStatisticsCollector_new g siteCache runtimeCache, [], []) = (s, h, l)"
  shows "stat_inv (length ops) h l s \<and> length l < 2 ^ 64 \<and>
    s = fold stat_step ops (LogStatisticsCollector_new g siteCache runtimeCache)"
proof -
  have "Generation (LogStatisticsCollector_new g siteCache runtimeCache) = g" by (simp add: LogStatisticsCollector_new_def)
  with stat_inv_run [OF stat_inv_new [OF assms(1)], of runtimeCache ops s h l] assms show ?thesis by auto
qed


definition demo_stat_context :: stat_context where
  "demo_stat_context = \<lparr>ContextKey = 7, ContextFullName = Some ''a.cpp'', ContextMethod = Some ''f'', ContextLine = 3, ContextLevel = LEVEL_INFO\<rparr>"

text \<open>The address 1 is used for a second channel.\<close>

definition demo_stat_ops :: "stat_op list" where
  "demo_stat_ops = [StatRecord demo_stat_context (Some (1, ''net'')) None 5, StatReset 0,
     StatRecord demo_stat_context (Some (1, ''db'')) None 10, StatOther 7 99 None,
     StatRecord demo_stat_context (Some (2, [])) None 4, StatRecord demo_stat_context (Some (1, ''net'')) None 20]"

lemma demo_stat_run:
  "\<exists>h. fold stat_observe demo_stat_ops (LogStatisticsCollector_new 1 (\<lambda>_. (0, None)) (\<lambda>_. (0, None)), [], []) =
     (fold stat_step demo_stat_ops (LogStatisticsCollector_new 1 (\<lambda>_. (0, None)) (\<lambda>_. (0, None))), h,
      [(''net'', 10), (''<default>'', 4), (''net'', 20)])"
proof -
  let ?v = "fold stat_observe demo_stat_ops (LogStatisticsCollector_new 1 (\<lambda>_. (0, None)) (\<lambda>_. (0, None)), [], [])"
  have "snd (snd ?v) = [(''net'', 10), (''<default>'', 4), (''net'', 20)]"
    by code_simp
  moreover have "fst (fold stat_observe ops (s, h, l)) = fold stat_step ops s" for ops s h l
    by (induction ops arbitrary: s h l) simp_all
  ultimately show ?thesis by (metis prod.collapse)
qed


end
