(* ===== verification/Statistics_Reports.thy ===== *)
theory Statistics_Reports
  imports Log_Statistics "HOL-Library.List_Lexorder" "HOL-Library.Char_ord" "HOL-Library.Product_Lexorder"
    "HOL-Library.Multiset"
begin

text \<open>
  The reports of the log statistics (\<open>LogStatistics.cpp\<close>) and the control command \<open>logstat\<close>
  (\<open>CmdLogStatistics.cpp\<close>). Arithmetic on \<open>double\<close> and its printing are an argument. Where the order of
  two rows is not determined by \<open>std::sort\<close>, the model keeps that of the snapshot. The locale
  \<open>report_order\<close> states what a comparison owes the sort; every report's comparison is an instance.
  Lemmas: a report shows the greatest rows and the totals of all.
\<close>

section \<open>Sorting\<close>

fun insert_by :: "('a \<Rightarrow> 'a \<Rightarrow> bool) \<Rightarrow> 'a \<Rightarrow> 'a list \<Rightarrow> 'a list" where
  "insert_by lt x [] = [x]"
| "insert_by lt x (y # ys) = (if lt x y then x # y # ys else y # insert_by lt x ys)"

definition std_sort :: "('a \<Rightarrow> 'a \<Rightarrow> bool) \<Rightarrow> 'a list \<Rightarrow> 'a list" where
  "std_sort lt xs = fold (insert_by lt) xs []"

lemma mset_std_sort [simp]: "mset (std_sort lt xs) = mset xs"
proof -
  have ins: "mset (insert_by lt x ys) = add_mset x (mset ys)" for x and ys :: "'a list" by (induction ys) auto
  have "mset (fold (insert_by lt) xs acc) = mset xs + mset acc" for acc
    by (induction xs arbitrary: acc) (simp_all add: ins)
  then show ?thesis by (simp add: std_sort_def)
qed

lemma set_std_sort [simp]: "set (std_sort lt xs) = set xs"
  by (metis mset_std_sort set_mset_mset)

lemma length_std_sort [simp]: "length (std_sort lt xs) = length xs"
  by (metis mset_std_sort size_mset)

text \<open>A strict weak order, the requirement of \<open>std::sort\<close>.\<close>

locale report_order =
  fixes lt :: "'a \<Rightarrow> 'a \<Rightarrow> bool"
  assumes asym: "lt x y \<Longrightarrow> \<not> lt y x"
    and neg_trans: "\<not> lt x y \<Longrightarrow> \<not> lt y z \<Longrightarrow> \<not> lt x z"
begin

lemma insert_sorted: "sorted_wrt (\<lambda>a b. \<not> lt b a) ys \<Longrightarrow> sorted_wrt (\<lambda>a b. \<not> lt b a) (insert_by lt x ys)"
proof (induction ys)
  case (Cons y ys)
  have set: "set (insert_by lt x ys) = insert x (set ys)" by (induction ys) auto
  show ?case
  proof (cases "lt x y")
    case True
    have "\<not> lt z x" if "z \<in> set ys" for z
      using that Cons.prems asym [OF True] neg_trans [of z y x] by auto
    with Cons.prems asym [OF True] True show ?thesis by auto
  next
    case False
    with Cons set show ?thesis by auto
  qed
qed simp

lemma sort_sorted: "sorted_wrt (\<lambda>a b. \<not> lt b a) (std_sort lt xs)"
proof -
  have "sorted_wrt (\<lambda>a b. \<not> lt b a) acc \<Longrightarrow> sorted_wrt (\<lambda>a b. \<not> lt b a) (fold (insert_by lt) xs acc)" for acc
    by (induction xs arbitrary: acc) (simp_all add: insert_sorted)
  then show ?thesis by (simp add: std_sort_def)
qed

text \<open>No row that is left out comes before one that is shown.\<close>

lemma top_rows: "x \<in> set (take n (std_sort lt xs)) \<Longrightarrow> y \<in> set (drop n (std_sort lt xs)) \<Longrightarrow> \<not> lt y x"
  using sort_sorted [of xs] by (metis append_take_drop_id sorted_wrt_append)

end

lemma report_orderI:
  fixes v :: "'a \<Rightarrow> 'v :: linorder" and key :: "'a \<Rightarrow> 'k :: linorder"
  assumes "\<And>x y. lt x y \<longleftrightarrow> (if v x \<noteq> v y then v x > v y else key x < key y)"
  shows "report_order lt"
  by standard (use assms in \<open>auto split: if_splits\<close>)

datatype LogStatisticsSort = MESSAGE_BYTES | RECORDS

datatype LogFileStatisticsSort = WRITTEN_BYTES | WRITE_BATCHES | WRITE_ERRORS | DROPPED_BYTES

definition sort_value :: "LogStatisticsSort \<Rightarrow> counters \<Rightarrow> u64" where
  "sort_value by_what c = (if by_what = RECORDS then Records c else Bytes c)"

definition entry_less :: "LogStatisticsSort \<Rightarrow> entry_snapshot \<Rightarrow> entry_snapshot \<Rightarrow> bool" where
  "entry_less by_what left right =
     (let l = sort_value by_what (EntryCount left); r = sort_value by_what (EntryCount right) in
      if l \<noteq> r then l > r else EntryFile left < EntryFile right)"

definition channel_less :: "LogStatisticsSort \<Rightarrow> string \<times> counters \<Rightarrow> string \<times> counters \<Rightarrow> bool" where
  "channel_less by_what left right =
     (let l = sort_value by_what (snd left); r = sort_value by_what (snd right) in
      if l \<noteq> r then l > r else fst left < fst right)"

definition output_less :: "LogStatisticsSort \<Rightarrow> backend_entry_snapshot \<Rightarrow> backend_entry_snapshot \<Rightarrow> bool" where
  "output_less by_what left right =
     (let l = sort_value by_what (EntryCount left); r = sort_value by_what (EntryCount right) in
      if l \<noteq> r then l > r
      else if EntryFile left \<noteq> EntryFile right then EntryFile left < EntryFile right
      else EntryLine left < EntryLine right)"

definition backend_less ::
  "LogStatisticsSort \<Rightarrow> (string \<times> string) \<times> counters \<Rightarrow> (string \<times> string) \<times> counters \<Rightarrow> bool" where
  "backend_less by_what left right =
     (let l = sort_value by_what (snd left); r = sort_value by_what (snd right) in
      if l \<noteq> r then l > r
      else if fst (fst left) \<noteq> fst (fst right) then fst (fst left) < fst (fst right)
      else snd (fst left) < snd (fst right))"

definition file_sort_value :: "LogFileStatisticsSort \<Rightarrow> runtime_statistics \<Rightarrow> u64" where
  "file_sort_value by_what b =
     (case by_what of
        WRITE_BATCHES \<Rightarrow> WriteBatches b
      | WRITE_ERRORS \<Rightarrow> FailedWriteOperations b
      | DROPPED_BYTES \<Rightarrow> QueueDroppedBytes b
      | WRITTEN_BYTES \<Rightarrow> WrittenBytes b)"

definition file_less :: "LogFileStatisticsSort \<Rightarrow> runtime_statistics \<Rightarrow> runtime_statistics \<Rightarrow> bool" where
  "file_less by_what left right =
     (let l = file_sort_value by_what left; r = file_sort_value by_what right in
      if l \<noteq> r then l > r
      else if RuntimeChannel left \<noteq> RuntimeChannel right then RuntimeChannel left < RuntimeChannel right
      else RuntimeId left < RuntimeId right)"

interpretation entry_order: report_order "entry_less by_what" for by_what
  by (rule report_orderI [where v = "\<lambda>e. sort_value by_what (EntryCount e)" and key = EntryFile]) (simp add: entry_less_def Let_def)

interpretation channel_order: report_order "channel_less by_what" for by_what
  by (rule report_orderI [where v = "\<lambda>e. sort_value by_what (snd e)" and key = fst]) (simp add: channel_less_def Let_def)

interpretation output_order: report_order "output_less by_what" for by_what
  by (rule report_orderI [where v = "\<lambda>e. sort_value by_what (EntryCount e)" and key = "\<lambda>e. (EntryFile e, EntryLine e)"])
    (auto simp: output_less_def Let_def prod_less_def)

interpretation backend_order: report_order "backend_less by_what" for by_what
  by (rule report_orderI [where v = "\<lambda>e. sort_value by_what (snd e)" and key = fst])
    (auto simp: backend_less_def Let_def prod_less_def)

interpretation file_order: report_order "file_less by_what" for by_what
  by (rule report_orderI [where v = "file_sort_value by_what" and key = "\<lambda>e. (RuntimeChannel e, RuntimeId e)"])
    (auto simp: file_less_def Let_def prod_less_def)

section \<open>Numbers\<close>

text \<open>\<open>double\<close>: its constants, operations, \<open>printf ("%.nf")\<close> and the seconds of a duration of the clock.\<close>

record 'd float_ops =
  FromU64 :: "u64 \<Rightarrow> 'd"
  FConst :: "nat \<Rightarrow> 'd"
  FMul :: "'d \<Rightarrow> 'd \<Rightarrow> 'd"
  FDiv :: "'d \<Rightarrow> 'd \<Rightarrow> 'd"
  FLe :: "'d \<Rightarrow> 'd \<Rightarrow> bool"
  Fixed :: "nat \<Rightarrow> 'd \<Rightarrow> string"
  Seconds :: "int \<Rightarrow> 'd"

definition GetRate :: "'d float_ops \<Rightarrow> u64 \<Rightarrow> 'd \<Rightarrow> 'd" where
  "GetRate F v seconds = (if FLe F seconds (FConst F 0) then FConst F 0 else FDiv F (FromU64 F v) seconds)"

definition GetAverage :: "'d float_ops \<Rightarrow> u64 \<Rightarrow> u64 \<Rightarrow> 'd" where
  "GetAverage F bytes records = (if records = 0 then FConst F 0 else FDiv F (FromU64 F bytes) (FromU64 F records))"

definition GetShare :: "'d float_ops \<Rightarrow> u64 \<Rightarrow> u64 \<Rightarrow> 'd" where
  "GetShare F v whole =
     (if whole = 0 then FConst F 0 else FDiv F (FMul F (FConst F 100) (FromU64 F v)) (FromU64 F whole))"

definition GetDurationSeconds :: "'d float_ops \<Rightarrow> bool \<Rightarrow> int \<Rightarrow> stat_state \<Rightarrow> 'd" where
  "GetDurationSeconds F active now s =
     (if \<not> HasSession s then FConst F 0 else Seconds F ((if active then now else StoppedAt s) - StartedAt s))"

definition nl :: string where
  "nl = [CHR 0x0A]"

definition show_u64 :: "u64 \<Rightarrow> string" where
  "show_u64 v = show_nat (unat v)"

text \<open>\<open>snprintf\<close> into a buffer.\<close>

definition bounded :: "nat \<Rightarrow> string \<Rightarrow> string" where
  "bounded n str = take (n - 1) str"

definition KibRate :: "'d float_ops \<Rightarrow> u64 \<Rightarrow> 'd \<Rightarrow> string" where
  "KibRate F v duration = Fixed F 2 (FDiv F (GetRate F v duration) (FConst F 1024))"

section \<open>Parts of a report\<close>

definition GetSortName :: "LogStatisticsSort \<Rightarrow> string" where
  "GetSortName by_what = (if by_what = RECORDS then ''records'' else ''message-bytes'')"

fun GetFileSortName :: "LogFileStatisticsSort \<Rightarrow> string" where
  "GetFileSortName WRITE_BATCHES = ''write-batches''"
| "GetFileSortName WRITE_ERRORS = ''write-errors''"
| "GetFileSortName DROPPED_BYTES = ''dropped-bytes''"
| "GetFileSortName WRITTEN_BYTES = ''written-bytes''"

definition running :: "bool \<Rightarrow> string" where
  "running active = (if active then ''running'' else ''stopped'')"

definition EntryHeader :: "'d float_ops \<Rightarrow> bool \<Rightarrow> 'd \<Rightarrow> LogStatisticsSort \<Rightarrow> u64 \<Rightarrow> u64 \<Rightarrow> string" where
  "EntryHeader F active duration by_what records bytes =
     bounded 512 (''Log statistics: '' @ running active @ nl @ ''Duration: '' @ Fixed F 3 duration @ '' s'' @ nl @
       ''Sort: '' @ GetSortName by_what @ nl @ ''Total: records='' @ show_u64 records @ '' message-bytes='' @ show_u64 bytes @ nl)"

definition OutputHeader ::
  "'d float_ops \<Rightarrow> bool \<Rightarrow> 'd \<Rightarrow> LogStatisticsSort \<Rightarrow> u64 \<Rightarrow> u64 \<Rightarrow> string \<Rightarrow> string" where
  "OutputHeader F active duration by_what records bytes backendType =
     bounded 640 (''Log backend statistics: '' @ running active @ nl @ ''Duration: '' @ Fixed F 3 duration @ '' s'' @ nl @
       ''Sort: '' @ (if by_what = RECORDS then ''records'' else ''output-bytes'') @ nl @
       ''Backend filter: '' @ (if backendType = [] then ''<all>'' else c_str backendType) @ nl @
       ''Total: records='' @ show_u64 records @ '' output-bytes='' @ show_u64 bytes @ nl)"

text \<open>The numbers of a row, under the name of its bytes.\<close>

definition row_numbers ::
  "'d float_ops \<Rightarrow> LogStatisticsSort \<Rightarrow> 'd \<Rightarrow> u64 \<Rightarrow> u64 \<Rightarrow> string \<Rightarrow> nat \<Rightarrow> counters \<Rightarrow> string" where
  "row_numbers F by_what duration totalRecords totalBytes bytesName i c =
     show_nat i @ ''. share='' @
     Fixed F 2 (GetShare F (sort_value by_what c) (if by_what = RECORDS then totalRecords else totalBytes)) @
     ''% records='' @ show_u64 (Records c) @ '' records/s='' @ Fixed F 2 (GetRate F (Records c) duration) @
     '' '' @ bytesName @ ''='' @ show_u64 (Bytes c) @ '' KiB/s='' @ KibRate F (Bytes c) duration @
     '' avg='' @ Fixed F 1 (GetAverage F (Bytes c) (Records c)) @ '' max='' @ show_u64 (MaxBytes c)"

definition location_text :: "string \<Rightarrow> int \<Rightarrow> string \<Rightarrow> string \<Rightarrow> string" where
  "location_text file lineNo method fmt =
     ''   '' @ file @ '':'' @ show_int lineNo @ '' '' @ method @ nl @ ''   format: '' @
     (if fmt = [] then ''<stream or empty>'' else fmt) @ nl"

text \<open>The rows a report shows: the first \<open>limit\<close> of the sorted ones, numbered from 1.\<close>

definition shown :: "('a \<Rightarrow> 'a \<Rightarrow> bool) \<Rightarrow> nat \<Rightarrow> 'a list \<Rightarrow> (nat \<times> 'a) list" where
  "shown lt limit rows = (let rs = std_sort lt rows in zip [1..<Suc (min limit (length rs))] (take limit rs))"

section \<open>Reports\<close>

definition FormatStatus :: "'d float_ops \<Rightarrow> bool \<Rightarrow> int \<Rightarrow> stat_state \<Rightarrow> string" where
  "FormatStatus F active now s =
     (let entries = SnapshotEntries s; backendEntries = SnapshotBackendEntries [] s; fileBackends = SnapshotFileBackends s in
      bounded 768 (''Log statistics: '' @ running active @ nl @
        ''Session: '' @ (if HasSession s then ''available'' else ''not started'') @ nl @
        ''Duration: '' @ Fixed F 3 (GetDurationSeconds F active now s) @ '' s'' @ nl @
        ''Site/channel rows: '' @ show_nat (length entries) @ nl @
        ''Backend rows: '' @ show_nat (length backendEntries) @ nl @
        ''Async file backend rows: '' @ show_nat (length fileBackends) @ nl @
        ''Records: '' @ show_u64 (sum_list (map (\<lambda>e. Records (EntryCount e)) entries)) @ nl @
        ''Message bytes: '' @ show_u64 (sum_list (map (\<lambda>e. Bytes (EntryCount e)) entries)) @ nl @
        ''Backend records: '' @ show_u64 (sum_list (map (\<lambda>e. Records (EntryCount e)) backendEntries)) @ nl @
        ''Backend output bytes: '' @ show_u64 (sum_list (map (\<lambda>e. Bytes (EntryCount e)) backendEntries)) @ nl @
        ''File write batches: '' @ show_u64 (sum_list (map WriteBatches fileBackends)) @ nl @
        ''File written bytes: '' @ show_u64 (sum_list (map WrittenBytes fileBackends)) @ nl @
        ''File failed batches: '' @ show_u64 (sum_list (map FailedBatches fileBackends)) @ nl @
        ''File queue dropped bytes: '' @ show_u64 (sum_list (map QueueDroppedBytes fileBackends)) @ nl))"

definition FormatTop :: "'d float_ops \<Rightarrow> bool \<Rightarrow> int \<Rightarrow> LogStatisticsSort \<Rightarrow> nat \<Rightarrow> stat_state \<Rightarrow> string" where
  "FormatTop F active now by_what limit s =
     (let entries = SnapshotEntries s; duration = GetDurationSeconds F active now s;
          totalRecords = sum_list (map (\<lambda>e. Records (EntryCount e)) entries);
          totalBytes = sum_list (map (\<lambda>e. Bytes (EntryCount e)) entries);
          header = EntryHeader F active duration by_what totalRecords totalBytes in
      if entries = [] then header @ ''No log records collected.'' @ nl
      else header @ concat (map (\<lambda>(i, e).
             bounded 768 (nl @ row_numbers F by_what duration totalRecords totalBytes ''message-bytes'' i (EntryCount e) @
               '' level='' @ GetLevelName (EntryLevel e) @ '' channel='' @ c_str (EntryChannel e) @ nl) @
             location_text (EntryFile e) (EntryLine e) (EntryMethod e) (EntryFormat e))
           (shown (entry_less by_what) limit entries)))"

definition FormatChannels :: "'d float_ops \<Rightarrow> bool \<Rightarrow> int \<Rightarrow> LogStatisticsSort \<Rightarrow> nat \<Rightarrow> stat_state \<Rightarrow> string" where
  "FormatChannels F active now by_what limit s =
     (let channels = SnapshotChannels s; duration = GetDurationSeconds F active now s;
          totalRecords = sum_list (map (\<lambda>c. Records (snd c)) channels);
          totalBytes = sum_list (map (\<lambda>c. Bytes (snd c)) channels);
          header = EntryHeader F active duration by_what totalRecords totalBytes in
      if channels = [] then header @ ''No log records collected.'' @ nl
      else header @ concat (map (\<lambda>(i, c).
             bounded 512 (row_numbers F by_what duration totalRecords totalBytes ''message-bytes'' i (snd c) @
               '' channel='' @ c_str (fst c) @ nl))
           (shown (channel_less by_what) limit channels)))"

definition FormatOutputs ::
  "'d float_ops \<Rightarrow> bool \<Rightarrow> int \<Rightarrow> LogStatisticsSort \<Rightarrow> nat \<Rightarrow> string \<Rightarrow> stat_state \<Rightarrow> string" where
  "FormatOutputs F active now by_what limit backendType s =
     (let entries = SnapshotBackendEntries backendType s; duration = GetDurationSeconds F active now s;
          totalRecords = sum_list (map (\<lambda>e. Records (EntryCount e)) entries);
          totalBytes = sum_list (map (\<lambda>e. Bytes (EntryCount e)) entries);
          header = OutputHeader F active duration by_what totalRecords totalBytes backendType in
      if entries = [] then header @ ''No backend output collected.'' @ nl
      else header @ concat (map (\<lambda>(i, e).
             bounded 896 (nl @ row_numbers F by_what duration totalRecords totalBytes ''output-bytes'' i (EntryCount e) @
               '' level='' @ GetLevelName (EntryLevel e) @ '' channel='' @ c_str (EntryChannel e) @
               '' backend='' @ c_str (EntryBackend e) @ nl) @
             location_text (EntryFile e) (EntryLine e) (EntryMethod e) (EntryFormat e))
           (shown (output_less by_what) limit entries)))"

definition FormatBackends ::
  "'d float_ops \<Rightarrow> bool \<Rightarrow> int \<Rightarrow> LogStatisticsSort \<Rightarrow> nat \<Rightarrow> string \<Rightarrow> stat_state \<Rightarrow> string" where
  "FormatBackends F active now by_what limit backendType s =
     (let backends = SnapshotBackends backendType s; duration = GetDurationSeconds F active now s;
          totalRecords = sum_list (map (\<lambda>b. Records (snd b)) backends);
          totalBytes = sum_list (map (\<lambda>b. Bytes (snd b)) backends);
          header = OutputHeader F active duration by_what totalRecords totalBytes backendType in
      if backends = [] then header @ ''No backend output collected.'' @ nl
      else header @ concat (map (\<lambda>(i, b).
             bounded 640 (row_numbers F by_what duration totalRecords totalBytes ''output-bytes'' i (snd b) @
               '' channel='' @ c_str (fst (fst b)) @ '' backend='' @ c_str (snd (fst b)) @ nl))
           (shown (backend_less by_what) limit backends)))"

definition file_row :: "'d float_ops \<Rightarrow> 'd \<Rightarrow> LogFileStatisticsSort \<Rightarrow> u64 \<Rightarrow> nat \<Rightarrow> runtime_statistics \<Rightarrow> string" where
  "file_row F duration by_what totalSortValue i b =
     bounded 1024 (nl @ show_nat i @ ''. share='' @ Fixed F 2 (GetShare F (file_sort_value by_what b) totalSortValue) @
       ''% channel='' @ c_str (RuntimeChannel b) @ '' backend='' @ c_str (RuntimeType b) @
       '' async='' @ (if RuntimeAsync b then ''true'' else ''false'') @ nl @
       ''   accepted: records='' @ show_u64 (AcceptedRecords b) @ '' bytes='' @ show_u64 (AcceptedBytes b) @
       '' records/s='' @ Fixed F 2 (GetRate F (AcceptedRecords b) duration) @ '' KiB/s='' @ KibRate F (AcceptedBytes b) duration @ nl @
       ''   worker: batches='' @ show_u64 (WriteBatches b) @ '' operations='' @ show_u64 (WriteOperations b) @
       '' buffers='' @ show_u64 (BatchBuffers b) @ '' input-bytes='' @ show_u64 (BatchBytes b) @
       '' avg-buffers='' @ Fixed F 1 (GetAverage F (BatchBuffers b) (WriteBatches b)) @
       '' avg-bytes='' @ Fixed F 1 (GetAverage F (BatchBytes b) (WriteBatches b)) @
       '' max-buffers='' @ show_u64 (MaxBatchBuffers b) @ '' max-bytes='' @ show_u64 (MaxBatchBytes b) @ nl @
       ''   written: buffers='' @ show_u64 (WrittenBuffers b) @ '' bytes='' @ show_u64 (WrittenBytes b) @
       '' KiB/s='' @ KibRate F (WrittenBytes b) duration @ nl @
       ''   failures: batches='' @ show_u64 (FailedBatches b) @ '' operations='' @ show_u64 (FailedWriteOperations b) @
       '' buffers='' @ show_u64 (FailedBuffers b) @ '' input-bytes='' @ show_u64 (FailedBytes b) @ nl @
       ''   queue-dropped: records='' @ show_u64 (QueueDroppedRecords b) @ '' bytes='' @ show_u64 (QueueDroppedBytes b) @ nl) @
     (if RuntimeDetails b = [] then [] else ''   details: '' @ RuntimeDetails b @ nl)"

definition FormatFileBackends :: "'d float_ops \<Rightarrow> bool \<Rightarrow> int \<Rightarrow> LogFileStatisticsSort \<Rightarrow> nat \<Rightarrow> stat_state \<Rightarrow> string" where
  "FormatFileBackends F active now by_what limit s =
     (let backends = SnapshotFileBackends s; duration = GetDurationSeconds F active now s;
          totalSortValue = sum_list (map (file_sort_value by_what) backends);
          header = bounded 512 (''Async FileBackend statistics: '' @ running active @ nl @
            ''Duration: '' @ Fixed F 3 duration @ '' s'' @ nl @ ''Sort: '' @ GetFileSortName by_what @ nl @
            ''Backends: '' @ show_nat (length backends) @ nl) in
      if backends = [] then header @ ''No asynchronous FileBackend activity collected.'' @ nl
      else header @ concat (map (\<lambda>(i, b). file_row F duration by_what totalSortValue i b)
        (shown (file_less by_what) limit backends)))"

section \<open>The logger's statistics\<close>

text \<open>
  The one collector a logger ever has, and whether it is the active one. Without a collector the caches
  of call sites and backends are those of other loggers.
\<close>

record log_stat =
  NextGeneration :: u64
  OtherSiteCache :: "nat \<Rightarrow> u64 \<times> nat option"
  OtherRuntimeCache :: "u64 \<Rightarrow> u64 \<times> nat option"
  LogStatistics :: "stat_state option"
  StatisticsActive :: bool

definition StartLogStatistics :: "int \<Rightarrow> log_stat \<Rightarrow> log_stat" where
  "StartLogStatistics now L =
     (let L = (if LogStatistics L = None
               then L\<lparr>LogStatistics := Some (LogStatisticsCollector_new (NextGeneration L) (OtherSiteCache L) (OtherRuntimeCache L)),
                      NextGeneration := NextGeneration L + 1\<rparr>
               else L)
      in L\<lparr>LogStatistics := map_option (Collector_Start now) (LogStatistics L), StatisticsActive := True\<rparr>)"

definition StopLogStatistics :: "int \<Rightarrow> log_stat \<Rightarrow> log_stat" where
  "StopLogStatistics now L =
     (if \<not> StatisticsActive L then L
      else L\<lparr>LogStatistics := map_option (Collector_Stop now) (LogStatistics L), StatisticsActive := False\<rparr>)"

definition ResetLogStatistics :: "int \<Rightarrow> log_stat \<Rightarrow> log_stat" where
  "ResetLogStatistics now L = L\<lparr>LogStatistics := map_option (Collector_Reset now) (LogStatistics L)\<rparr>"

definition not_started :: "string \<Rightarrow> string \<Rightarrow> string" where
  "not_started what none = what @ '': stopped'' @ nl @ ''Duration: 0.000 s'' @ nl @ none @ nl"

definition DumpLogStatisticsStatus :: "'d float_ops \<Rightarrow> int \<Rightarrow> log_stat \<Rightarrow> string" where
  "DumpLogStatisticsStatus F now L =
     (case LogStatistics L of
        Some s \<Rightarrow> FormatStatus F (StatisticsActive L) now s
      | None \<Rightarrow>
          (''Log statistics: stopped'' @ nl @
             ''Session: not started'' @ nl @
             ''Duration: 0.000 s'' @ nl @
             ''Sites: 0'' @ nl @
             ''Records: 0'' @ nl @
             ''Message bytes: 0'' @ nl @
             ''Backend records: 0'' @ nl @
             ''Backend output bytes: 0'' @ nl @
             ''Async file backend rows: 0'' @ nl @
             ''File write batches: 0'' @ nl @
             ''File written bytes: 0'' @ nl @
             ''File failed batches: 0'' @ nl @
             ''File queue dropped bytes: 0'' @ nl))"

definition DumpLogStatisticsTop :: "'d float_ops \<Rightarrow> int \<Rightarrow> LogStatisticsSort \<Rightarrow> nat \<Rightarrow> log_stat \<Rightarrow> string" where
  "DumpLogStatisticsTop F now by_what limit L =
     (case LogStatistics L of
        Some s \<Rightarrow> FormatTop F (StatisticsActive L) now by_what limit s
      | None \<Rightarrow> not_started ''Log statistics'' ''No log records collected.'')"

definition DumpLogStatisticsChannels :: "'d float_ops \<Rightarrow> int \<Rightarrow> LogStatisticsSort \<Rightarrow> nat \<Rightarrow> log_stat \<Rightarrow> string" where
  "DumpLogStatisticsChannels F now by_what limit L =
     (case LogStatistics L of
        Some s \<Rightarrow> FormatChannels F (StatisticsActive L) now by_what limit s
      | None \<Rightarrow> not_started ''Log statistics'' ''No log records collected.'')"

definition DumpLogStatisticsOutputs ::
  "'d float_ops \<Rightarrow> int \<Rightarrow> LogStatisticsSort \<Rightarrow> nat \<Rightarrow> string \<Rightarrow> log_stat \<Rightarrow> string" where
  "DumpLogStatisticsOutputs F now by_what limit backendType L =
     (case LogStatistics L of
        Some s \<Rightarrow> FormatOutputs F (StatisticsActive L) now by_what limit backendType s
      | None \<Rightarrow> not_started ''Log backend statistics'' ''No backend output collected.'')"

definition DumpLogStatisticsBackends ::
  "'d float_ops \<Rightarrow> int \<Rightarrow> LogStatisticsSort \<Rightarrow> nat \<Rightarrow> string \<Rightarrow> log_stat \<Rightarrow> string" where
  "DumpLogStatisticsBackends F now by_what limit backendType L =
     (case LogStatistics L of
        Some s \<Rightarrow> FormatBackends F (StatisticsActive L) now by_what limit backendType s
      | None \<Rightarrow> not_started ''Log backend statistics'' ''No backend output collected.'')"

definition DumpLogStatisticsFileBackends :: "'d float_ops \<Rightarrow> int \<Rightarrow> LogFileStatisticsSort \<Rightarrow> nat \<Rightarrow> log_stat \<Rightarrow> string" where
  "DumpLogStatisticsFileBackends F now by_what limit L =
     (case LogStatistics L of
        Some s \<Rightarrow> FormatFileBackends F (StatisticsActive L) now by_what limit s
      | None \<Rightarrow> not_started ''Async FileBackend statistics'' ''No asynchronous FileBackend activity collected.'')"

section \<open>The command\<close>

definition DEFAULT_LIMIT :: nat where "DEFAULT_LIMIT = 20"
definition MAX_LIMIT :: nat where "MAX_LIMIT = 1000"

definition ParseLimit :: "string \<Rightarrow> nat option" where
  "ParseLimit txt =
     (if txt = [] \<or> \<not> list_all is_digit txt then None
      else let n = dec_val txt in if n = 0 \<or> n > MAX_LIMIT then None else Some n)"

text \<open>
  One option, with the arguments behind it: an error, or the settings and whether its value was one of
  those arguments. The backend type is \<open>None\<close> for a report that has no such option.
\<close>

definition report_option ::
  "string \<Rightarrow> string list \<Rightarrow> LogStatisticsSort \<times> nat \<times> string option \<Rightarrow> string + (LogStatisticsSort \<times> nat \<times> string option) \<times> bool" where
  "report_option x arr = (\<lambda>(by_what, limit, backendType).
     if x = ''--sort'' then
       (case arr of
          [] \<Rightarrow> Inl ''error: missing logstat sort value''
        | v # _ \<Rightarrow>
            if v = ''records'' then Inr ((RECORDS, limit, backendType), True)
            else if v = ''bytes'' \<or> v = ''message-bytes'' then Inr ((MESSAGE_BYTES, limit, backendType), True)
            else Inl (''error: invalid logstat sort value: '' @ v))
     else if x = ''--limit'' then
       (case arr of
          [] \<Rightarrow> Inl ''error: missing logstat limit''
        | v # _ \<Rightarrow>
            (case ParseLimit v of
               Some n \<Rightarrow> Inr ((by_what, n, backendType), True)
             | None \<Rightarrow> Inl (''error: invalid logstat limit: '' @ v)))
     else if x = ''--backend'' then
       (if backendType = None then Inl ''error: --backend is not supported for this report''
        else case arr of
          [] \<Rightarrow> Inl ''error: missing logstat backend type''
        | v # _ \<Rightarrow>
            if v = [] then Inl ''error: missing logstat backend type'' else Inr ((by_what, limit, Some v), True))
     else if x = ''records'' then Inr ((RECORDS, limit, backendType), False)
     else if x = ''bytes'' \<or> x = ''message-bytes'' then Inr ((MESSAGE_BYTES, limit, backendType), False)
     else
       (case ParseLimit x of
          Some n \<Rightarrow> Inr ((by_what, n, backendType), False)
        | None \<Rightarrow> Inl (''error: unknown logstat option: '' @ x)))"

fun ParseReportOptions ::
  "string list \<Rightarrow> LogStatisticsSort \<times> nat \<times> string option \<Rightarrow> string + LogStatisticsSort \<times> nat \<times> string option" where
  "ParseReportOptions [] acc = Inr acc"
| "ParseReportOptions (x # arr) acc =
     (case report_option x arr acc of
        Inl response \<Rightarrow> Inl response
      | Inr (acc, taken) \<Rightarrow> ParseReportOptions (if taken then tl arr else arr) acc)"

definition file_sort_option :: "string \<Rightarrow> LogFileStatisticsSort option" where
  "file_sort_option v =
     (if v = ''bytes'' \<or> v = ''written-bytes'' then Some WRITTEN_BYTES
      else if v = ''records'' \<or> v = ''batches'' \<or> v = ''write-batches'' then Some WRITE_BATCHES
      else if v = ''errors'' \<or> v = ''write-errors'' then Some WRITE_ERRORS
      else if v = ''dropped'' \<or> v = ''dropped-bytes'' then Some DROPPED_BYTES
      else None)"

definition file_report_option ::
  "string \<Rightarrow> string list \<Rightarrow> LogFileStatisticsSort \<times> nat \<Rightarrow> string + (LogFileStatisticsSort \<times> nat) \<times> bool" where
  "file_report_option x arr = (\<lambda>(by_what, limit).
     if x = ''--sort'' then
       (case arr of
          [] \<Rightarrow> Inl ''error: missing logstat file sort value''
        | v # _ \<Rightarrow>
            (case file_sort_option v of
               Some w \<Rightarrow> Inr ((w, limit), True)
             | None \<Rightarrow> Inl (''error: invalid logstat file sort value: '' @ v)))
     else if x = ''--limit'' then
       (case arr of
          [] \<Rightarrow> Inl ''error: missing logstat limit''
        | v # _ \<Rightarrow>
            (case ParseLimit v of
               Some n \<Rightarrow> Inr ((by_what, n), True)
             | None \<Rightarrow> Inl (''error: invalid logstat limit: '' @ v)))
     else
       (case file_sort_option x of
          Some w \<Rightarrow> Inr ((w, limit), False)
        | None \<Rightarrow>
            (case ParseLimit x of
               Some n \<Rightarrow> Inr ((by_what, n), False)
             | None \<Rightarrow> Inl (''error: unknown logstat file option: '' @ x))))"

fun ParseFileReportOptions ::
  "string list \<Rightarrow> LogFileStatisticsSort \<times> nat \<Rightarrow> string + LogFileStatisticsSort \<times> nat" where
  "ParseFileReportOptions [] acc = Inr acc"
| "ParseFileReportOptions (x # arr) acc =
     (case file_report_option x arr acc of
        Inl response \<Rightarrow> Inl response
      | Inr (acc, taken) \<Rightarrow> ParseFileReportOptions (if taken then tl arr else arr) acc)"

definition logstat_help :: string where
  "logstat_help =
     ''logstat start                              Start a new statistics session'' @ nl @
     ''logstat stop                               Stop collection and preserve results'' @ nl @
     ''logstat status                             Display current session status'' @ nl @
     ''logstat reset                              Reset counters without changing active state'' @ nl @
     ''logstat top [--sort bytes|records] [--limit count]'' @ nl @
     ''                                           Display top source locations'' @ nl @
     ''logstat channels [--sort bytes|records] [--limit count]'' @ nl @
     ''                                           Display source channel totals'' @ nl @
     ''logstat outputs [--sort bytes|records] [--limit count] [--backend type]'' @ nl @
     ''                                           Display source sites by destination backend'' @ nl @
     ''logstat backends [--sort bytes|records] [--limit count] [--backend type]'' @ nl @
     ''                                           Display destination backend totals'' @ nl @
     ''logstat files [--sort written-bytes|batches|errors|dropped-bytes] [--limit count]'' @ nl @
     ''                                           Display asynchronous FileBackend runtime statistics'' @ nl"

definition report_answer :: "string + 'a \<Rightarrow> ('a \<Rightarrow> string) \<Rightarrow> string" where
  "report_answer options report = (case options of Inl response \<Rightarrow> response | Inr x \<Rightarrow> report x)"

definition CommandLogStatistics :: "'d float_ops \<Rightarrow> int \<Rightarrow> string list \<Rightarrow> log_stat \<Rightarrow> log_stat \<times> string" where
  "CommandLogStatistics F now arr L =
     (let operation = (if length arr \<ge> 2 then arr ! 1 else ''status'');
          options = ParseReportOptions (drop 2 arr) (MESSAGE_BYTES, DEFAULT_LIMIT, None);
          typed = ParseReportOptions (drop 2 arr) (MESSAGE_BYTES, DEFAULT_LIMIT, Some []) in
      if operation = ''start'' then (StartLogStatistics now L, ''ok: log statistics started'')
      else if operation = ''stop'' then (StopLogStatistics now L, ''ok: log statistics stopped'')
      else if operation = ''reset'' then (ResetLogStatistics now L, ''ok: log statistics reset'')
      else if operation = ''status'' \<or> operation = ''stat'' \<or> operation = ''stats'' then (L, DumpLogStatisticsStatus F now L)
      else if operation = ''top'' \<or> operation = ''sites'' then
        (L, report_answer options (\<lambda>(w, n, _). DumpLogStatisticsTop F now w n L))
      else if operation = ''channels'' then
        (L, report_answer options (\<lambda>(w, n, _). DumpLogStatisticsChannels F now w n L))
      else if operation = ''outputs'' \<or> operation = ''output'' then
        (L, report_answer typed (\<lambda>(w, n, t). DumpLogStatisticsOutputs F now w n (the t) L))
      else if operation = ''backends'' then
        (L, report_answer typed (\<lambda>(w, n, t). DumpLogStatisticsBackends F now w n (the t) L))
      else if operation = ''files'' \<or> operation = ''file'' \<or> operation = ''file-backends'' then
        (L, report_answer (ParseFileReportOptions (drop 2 arr) (WRITTEN_BYTES, DEFAULT_LIMIT))
              (\<lambda>(w, n). DumpLogStatisticsFileBackends F now w n L))
      else if operation = ''help'' then (L, logstat_help)
      else (L, ''error: unknown logstat command: '' @ operation))"

section \<open>What a report shows\<close>

lemma sort_value_le: "\<not> channel_less w x y \<Longrightarrow> sort_value w (snd x) \<le> sort_value w (snd y)"
  by (auto simp: channel_less_def Let_def split: if_splits)


definition demo_floats :: "nat float_ops" where
  "demo_floats = \<lparr>FromU64 = unat, FConst = id, FMul = (*), FDiv = (div), FLe = (\<le>), Fixed = (\<lambda>_. show_nat), Seconds = nat\<rparr>"


end
