(* ===== verification/Statistics_Protocol.thy ===== *)
theory Statistics_Protocol
  imports Log_Statistics
begin

text \<open>
  How recording threads and the control of the statistics interleave (\<open>Logger::DoLog\<close>,
  \<open>Logger::RecordLogBackendOutput\<close>, \<open>StartLogStatistics\<close>, \<open>StopLogStatistics\<close>, \<open>ResetLogStatistics\<close>,
  \<open>Enter\<close>, \<open>Leave\<close> and \<open>WaitForIdle\<close>): one step is one access to a shared atomic, in a sequentially
  consistent order, on one row. The control lock makes the controlling threads one. \<open>Done\<close> are, for the
  proofs, the sizes recorded since the last reset. Lemmas: a reset meets no record half done, and
  nothing recorded is lost or torn; waiting for the recorders ends.
\<close>

section \<open>Threads\<close>

datatype recorder =
    RecIdle
  | RecLoaded u64
  | RecEntered u64
  | RecRecord u64
  | RecBytes u64
  | RecMax u64
  | RecLeaving

datatype stat_command = CmdStart | CmdStop | CmdReset bool

datatype stat_control =
    CtlIdle
  | CtlWait stat_command
  | CtlRun stat_command
  | CtlZeroBytes stat_command
  | CtlZeroMax stat_command
  | CtlPublish stat_command

record proto_state =
  Active :: bool
  InFlight :: nat
  Row :: counters
  Recorders :: "recorder list"
  Control :: stat_control
  Done :: "u64 list"

definition proto_init :: "nat \<Rightarrow> proto_state" where
  "proto_init n = \<lparr>Active = False, InFlight = 0, Row = counters_zero, Recorders = replicate n RecIdle, Control = CtlIdle, Done = []\<rparr>"

abbreviation set_recorder :: "nat \<Rightarrow> recorder \<Rightarrow> proto_state \<Rightarrow> proto_state" where
  "set_recorder t r s \<equiv> s\<lparr>Recorders := (Recorders s)[t := r]\<rparr>"

inductive recorder_step :: "nat \<Rightarrow> proto_state \<Rightarrow> proto_state \<Rightarrow> bool" where
  load: "t < length (Recorders s) \<Longrightarrow> Recorders s ! t = RecIdle \<Longrightarrow> Active s \<Longrightarrow> recorder_step t s (set_recorder t (RecLoaded b) s)"
| enter: "t < length (Recorders s) \<Longrightarrow> Recorders s ! t = RecLoaded b \<Longrightarrow>
    recorder_step t s (set_recorder t (RecEntered b) (s\<lparr>InFlight := InFlight s + 1\<rparr>))"
| check_active: "t < length (Recorders s) \<Longrightarrow> Recorders s ! t = RecEntered b \<Longrightarrow> Active s \<Longrightarrow>
    recorder_step t s (set_recorder t (RecRecord b) s)"
| check_stopped: "t < length (Recorders s) \<Longrightarrow> Recorders s ! t = RecEntered b \<Longrightarrow> \<not> Active s \<Longrightarrow>
    recorder_step t s (set_recorder t RecLeaving s)"
| add_record: "t < length (Recorders s) \<Longrightarrow> Recorders s ! t = RecRecord b \<Longrightarrow>
    recorder_step t s (set_recorder t (RecBytes b) (s\<lparr>Row := Counters (Records (Row s) + 1) (Bytes (Row s)) (MaxBytes (Row s))\<rparr>))"
| add_bytes: "t < length (Recorders s) \<Longrightarrow> Recorders s ! t = RecBytes b \<Longrightarrow>
    recorder_step t s (set_recorder t (RecMax b) (s\<lparr>Row := Counters (Records (Row s)) (Bytes (Row s) + b) (MaxBytes (Row s))\<rparr>))"
| update_max: "t < length (Recorders s) \<Longrightarrow> Recorders s ! t = RecMax b \<Longrightarrow>
    recorder_step t s (set_recorder t RecLeaving
      (s\<lparr>Row := Counters (Records (Row s)) (Bytes (Row s)) (UpdateMaximum (MaxBytes (Row s)) b), Done := Done s @ [b]\<rparr>))"
| leave: "t < length (Recorders s) \<Longrightarrow> Recorders s ! t = RecLeaving \<Longrightarrow>
    recorder_step t s (set_recorder t RecIdle (s\<lparr>InFlight := InFlight s - 1\<rparr>))"

text \<open>
  A stop of stopped statistics returns at once; a start or a reset of stopped statistics does not wait.
  A reset publishes the collector again only if it was active.
\<close>

inductive control_step :: "proto_state \<Rightarrow> proto_state \<Rightarrow> bool" where
  start: "Control s = CtlIdle \<Longrightarrow>
    control_step s (s\<lparr>Active := False, Control := (if Active s then CtlWait CmdStart else CtlRun CmdStart)\<rparr>)"
| stop: "Control s = CtlIdle \<Longrightarrow>
    control_step s (s\<lparr>Active := False, Control := (if Active s then CtlWait CmdStop else CtlIdle)\<rparr>)"
| reset: "Control s = CtlIdle \<Longrightarrow>
    control_step s (s\<lparr>Active := False, Control := (if Active s then CtlWait (CmdReset True) else CtlRun (CmdReset False))\<rparr>)"
| wait_end: "Control s = CtlWait c \<Longrightarrow> InFlight s = 0 \<Longrightarrow>
    control_step s (s\<lparr>Control := (if c = CmdStop then CtlIdle else CtlRun c)\<rparr>)"
| zero_records: "Control s = CtlRun c \<Longrightarrow>
    control_step s (s\<lparr>Row := Counters 0 (Bytes (Row s)) (MaxBytes (Row s)), Done := [], Control := CtlZeroBytes c\<rparr>)"
| zero_bytes: "Control s = CtlZeroBytes c \<Longrightarrow>
    control_step s (s\<lparr>Row := Counters (Records (Row s)) 0 (MaxBytes (Row s)), Control := CtlZeroMax c\<rparr>)"
| zero_max: "Control s = CtlZeroMax c \<Longrightarrow>
    control_step s (s\<lparr>Row := Counters (Records (Row s)) (Bytes (Row s)) 0, Control := CtlPublish c\<rparr>)"
| publish: "Control s = CtlPublish c \<Longrightarrow>
    control_step s (s\<lparr>Active := (c = CmdStart \<or> c = CmdReset True), Control := CtlIdle\<rparr>)"

definition proto_step :: "proto_state \<Rightarrow> proto_state \<Rightarrow> bool" where
  "proto_step s s' \<longleftrightarrow> control_step s s' \<or> (\<exists>t. recorder_step t s s')"

section \<open>What is in progress\<close>

text \<open>Of a recorder: whether it is counted, inside the row, and what it has added without being done.\<close>

fun counted :: "recorder \<Rightarrow> nat" where
  "counted RecIdle = 0"
| "counted (RecLoaded b) = 0"
| "counted _ = 1"

fun inside :: "recorder \<Rightarrow> bool" where
  "inside (RecRecord b) = True"
| "inside (RecBytes b) = True"
| "inside (RecMax b) = True"
| "inside _ = False"

fun half_records :: "recorder \<Rightarrow> u64" where
  "half_records (RecBytes b) = 1"
| "half_records (RecMax b) = 1"
| "half_records _ = 0"

fun half_bytes :: "recorder \<Rightarrow> u64" where
  "half_bytes (RecMax b) = b"
| "half_bytes _ = 0"

text \<open>The steps a recorder has left until it is idle.\<close>

fun steps_left :: "recorder \<Rightarrow> nat" where
  "steps_left RecIdle = 0"
| "steps_left RecLeaving = 1"
| "steps_left (RecMax b) = 2"
| "steps_left (RecBytes b) = 3"
| "steps_left (RecRecord b) = 4"
| "steps_left (RecEntered b) = 5"
| "steps_left (RecLoaded b) = 6"

definition done_sum :: "u64 list \<Rightarrow> counters" where
  "done_sum bs = sum_list (map (\<lambda>b. Counters 1 b b) bs)"

lemma done_sum_snoc [simp]: "done_sum (bs @ [b]) = done_sum bs + Counters 1 b b" "done_sum [] = 0"
  by (simp_all add: done_sum_def)

definition pending :: "stat_control \<Rightarrow> bool" where
  "pending c \<longleftrightarrow> (case c of CtlRun _ \<Rightarrow> True | CtlZeroBytes _ \<Rightarrow> True | CtlZeroMax _ \<Rightarrow> True | CtlPublish _ \<Rightarrow> True | _ \<Rightarrow> False)"

definition waiting :: "stat_control \<Rightarrow> bool" where
  "waiting c \<longleftrightarrow> (case c of CtlWait _ \<Rightarrow> True | _ \<Rightarrow> False)"

text \<open>What the row holds: a control thread that zeroes it has got to some counter.\<close>

definition row_ok :: "proto_state \<Rightarrow> bool" where
  "row_ok s \<longleftrightarrow>
     (let r = Row s; d = done_sum (Done s) in
      case Control s of
        CtlZeroBytes _ \<Rightarrow> Done s = [] \<and> Records r = 0
      | CtlZeroMax _ \<Rightarrow> Done s = [] \<and> Records r = 0 \<and> Bytes r = 0
      | CtlPublish _ \<Rightarrow> Done s = [] \<and> r = 0
      | _ \<Rightarrow> Records r = Records d + sum_list (map half_records (Recorders s)) \<and>
             Bytes r = Bytes d + sum_list (map half_bytes (Recorders s)) \<and> MaxBytes r = MaxBytes d)"

definition proto_inv :: "proto_state \<Rightarrow> bool" where
  "proto_inv s \<longleftrightarrow>
     InFlight s = sum_list (map counted (Recorders s)) \<and>
     (Active s \<longrightarrow> Control s = CtlIdle) \<and>
     (\<not> Active s \<and> \<not> waiting (Control s) \<longrightarrow> (\<forall>r \<in> set (Recorders s). \<not> inside r)) \<and>
     row_ok s"

lemma sum_update:
  "t < length xs \<Longrightarrow> sum_list (map f (xs[t := y])) + f (xs ! t) = sum_list (map f xs) + (f y :: 'a :: comm_monoid_add)"
proof (induction xs arbitrary: t)
  case (Cons x xs)
  show ?case
  proof (cases t)
    case (Suc u)
    with Cons have "sum_list (map f (xs[u := y])) + f (xs ! u) = sum_list (map f xs) + f y" by simp
    with Suc show ?thesis by (simp add: add.assoc)
  qed (simp add: ac_simps)
qed simp

lemma counted_le: "r \<in> set rs \<Longrightarrow> counted r \<le> sum_list (map counted rs)"
  by (induction rs) auto

lemma UpdateMaximum_max: "UpdateMaximum a b = max a b"
  by (auto simp: UpdateMaximum_def max_def)

lemma outside_zero:
  "\<forall>r \<in> set rs. \<not> inside r \<Longrightarrow> sum_list (map half_records rs) = 0 \<and> sum_list (map half_bytes rs) = 0"
proof (induction rs)
  case (Cons r rs)
  then show ?case by (cases r) simp_all
qed simp

lemma half_cancel:
  fixes h :: u64
  assumes "x + d + h = y + d' + r" and "y = d + m" and "m' + h = m + r"
  shows "x = d' + m'"
proof -
  have "x + (d + h) = d' + d + (m + r)" using assms(1,2) by (simp add: ac_simps)
  also have "\<dots> = d' + m' + (d + h)" using assms(3) [symmetric] by (simp add: ac_simps)
  finally show ?thesis by simp
qed

text \<open>A step of a recorder that does not touch the row.\<close>

lemma step_inv_outside:
  assumes inv: "proto_inv s" and t: "t < length (Recorders s)"
    and old: "half_records (Recorders s ! t) = 0" "half_bytes (Recorders s ! t) = 0"
    and new: "half_records r = 0" "half_bytes r = 0" and inside: "inside r \<Longrightarrow> Active s"
    and count: "n + counted (Recorders s ! t) = InFlight s + counted r"
  shows "proto_inv (set_recorder t r (s\<lparr>InFlight := n\<rparr>))"
proof -
  have sums: "sum_list (map half_records ((Recorders s)[t := r])) = sum_list (map half_records (Recorders s))"
    "sum_list (map half_bytes ((Recorders s)[t := r])) = sum_list (map half_bytes (Recorders s))"
    using sum_update [OF t, of half_records r] sum_update [OF t, of half_bytes r] old new by simp_all
  have "n = sum_list (map counted ((Recorders s)[t := r]))"
    using sum_update [OF t, of counted r] count inv by (simp add: proto_inv_def)
  moreover have "\<forall>x \<in> set ((Recorders s)[t := r]). \<not> inside x" if "\<not> Active s" "\<not> waiting (Control s)"
    using that inv inside by (auto simp: proto_inv_def dest!: subsetD [OF set_update_subset_insert])
  ultimately show ?thesis
    using inv by (simp add: proto_inv_def row_ok_def sums Let_def cong: stat_control.case_cong)
qed

text \<open>A step inside the row: the control thread is idle or waits.\<close>

lemma step_inv_inside:
  assumes inv: "proto_inv s" and t: "t < length (Recorders s)" and inside: "inside (Recorders s ! t)"
    and count: "counted r = 1"
    and records: "Records row + Records (done_sum (Done s)) + half_records (Recorders s ! t) = Records (Row s) + Records (done_sum dn) + half_records r"
    and bytes: "Bytes row + Bytes (done_sum (Done s)) + half_bytes (Recorders s ! t) = Bytes (Row s) + Bytes (done_sum dn) + half_bytes r"
    and greatest: "MaxBytes (Row s) = MaxBytes (done_sum (Done s)) \<Longrightarrow> MaxBytes row = MaxBytes (done_sum dn)"
  shows "proto_inv (set_recorder t r (s\<lparr>Row := row, Done := dn\<rparr>))"
proof -
  have ctl: "Control s = CtlIdle \<or> waiting (Control s)" and act: "Active s \<or> waiting (Control s)"
    using inv inside t by (auto simp: proto_inv_def)
  have old: "counted (Recorders s ! t) = 1" using inside by (cases "Recorders s ! t") simp_all
  have row: "Records (Row s) = Records (done_sum (Done s)) + sum_list (map half_records (Recorders s))"
    "Bytes (Row s) = Bytes (done_sum (Done s)) + sum_list (map half_bytes (Recorders s))" "MaxBytes (Row s) = MaxBytes (done_sum (Done s))"
    using inv ctl by (auto simp: proto_inv_def row_ok_def Let_def waiting_def split: stat_control.splits)
  have "Records row = Records (done_sum dn) + sum_list (map half_records ((Recorders s)[t := r]))"
    by (rule half_cancel [OF records row(1) sum_update [OF t]])
  moreover have "Bytes row = Bytes (done_sum dn) + sum_list (map half_bytes ((Recorders s)[t := r]))"
    by (rule half_cancel [OF bytes row(2) sum_update [OF t]])
  moreover have "sum_list (map counted ((Recorders s)[t := r])) = sum_list (map counted (Recorders s))"
    using sum_update [OF t, of counted r] old count by simp
  ultimately show ?thesis
    using inv ctl act greatest [OF row(3)]
    by (auto simp: proto_inv_def row_ok_def Let_def waiting_def split: stat_control.splits)
qed

lemma recorder_inv:
  assumes "recorder_step t s s'" and inv: "proto_inv s"
  shows "proto_inv s'"
  using assms(1)
proof cases
  case (load b)
  with step_inv_outside [OF inv, of t "RecLoaded b" "InFlight s"] show ?thesis by simp
next
  case (enter b)
  with step_inv_outside [OF inv, of t "RecEntered b" "InFlight s + 1"] show ?thesis by simp
next
  case (check_active b)
  with step_inv_outside [OF inv, of t "RecRecord b" "InFlight s"] show ?thesis by simp
next
  case (check_stopped b)
  with step_inv_outside [OF inv, of t RecLeaving "InFlight s"] show ?thesis by simp
next
  case leave
  have "1 \<le> InFlight s"
    using inv counted_le [OF nth_mem [OF leave(2)]] leave(3) by (simp add: proto_inv_def)
  with leave step_inv_outside [OF inv, of t RecIdle "InFlight s - 1"] show ?thesis by simp
next
  case (add_record b)
  with step_inv_inside [OF inv, of t "RecBytes b" _ "Done s"] show ?thesis by simp
next
  case (add_bytes b)
  with step_inv_inside [OF inv, of t "RecMax b" _ "Done s"] show ?thesis by simp
next
  case (update_max b)
  with step_inv_inside [OF inv, of t RecLeaving _ "Done s @ [b]"] show ?thesis
    by (simp add: UpdateMaximum_max)
qed

lemma control_inv:
  assumes "control_step s s'" and inv: "proto_inv s"
  shows "proto_inv s'"
  using assms(1)
proof cases
  case (wait_end c)
  have "\<not> inside r" if "r \<in> set (Recorders s)" for r
  proof
    assume "inside r"
    then have "counted r = 1" by (cases r) simp_all
    moreover have "counted r \<le> InFlight s" using counted_le [OF that] inv by (simp only: proto_inv_def)
    ultimately show False using wait_end by simp
  qed
  with wait_end inv show ?thesis by (auto simp: proto_inv_def row_ok_def waiting_def Let_def)
qed (use inv outside_zero [of "Recorders s"] in \<open>auto simp: proto_inv_def row_ok_def waiting_def Let_def intro: counters.expand\<close>)

lemma proto_reachable_inv: "proto_step\<^sup>*\<^sup>* (proto_init n) s \<Longrightarrow> proto_inv s"
proof (induction rule: rtranclp_induct)
  case base
  show ?case by (simp add: proto_inv_def proto_init_def row_ok_def Let_def sum_list_replicate)
next
  case (step s s')
  then show ?case using recorder_inv control_inv by (auto simp: proto_step_def)
qed

text \<open>While statistics are not active, every step of a recorder brings it nearer to idle.\<close>

lemma recorder_progress:
  assumes "recorder_step t s s'" and "\<not> Active s"
  shows "sum_list (map steps_left (Recorders s')) < sum_list (map steps_left (Recorders s))"
proof -
  have less: "sum_list (map steps_left ((Recorders s)[t := r])) < sum_list (map steps_left (Recorders s))"
    if "t < length (Recorders s)" "steps_left r < steps_left (Recorders s ! t)" for r
    using sum_update [OF that(1), of steps_left r] that(2) by linarith
  from assms show ?thesis by cases (auto intro!: less)
qed

lemma recorder_enabled:
  assumes "0 < sum_list (map counted rs)" and "rs = Recorders s"
  shows "\<exists>t s'. recorder_step t s s'"
proof -
  have "\<exists>r \<in> set rs. counted r \<noteq> 0" using assms(1) by (induction rs) auto
  then obtain t where t: "t < length (Recorders s)" "counted (Recorders s ! t) \<noteq> 0"
    using assms(2) by (auto simp: in_set_conv_nth)
  then show ?thesis
  proof (cases "Recorders s ! t")
    case (RecEntered b)
    with t show ?thesis by (cases "Active s") (meson check_active, meson check_stopped)
  next
    case (RecRecord b)
    with t show ?thesis by (meson add_record)
  next
    case (RecBytes b)
    with t show ?thesis by (meson add_bytes)
  next
    case (RecMax b)
    with t show ?thesis by (meson update_max)
  next
    case RecLeaving
    with t show ?thesis by (meson leave)
  qed simp_all
qed

text \<open>C35. A reset of the statistics meets no record half done: in every interleaving of recording threads
  with starting, stopping and resetting, no thread is inside a row from the end of the wait until the
  collector is published again; whenever no thread is inside, the row is the number, bytes and
  greatest size of exactly the records made since the last reset; and the wait ends, each step of a
  recorder bringing it nearer and some recorder able to step as long as one is counted.\<close>

theorem statistics_not_torn:
  assumes "proto_step\<^sup>*\<^sup>* (proto_init n) s"
  shows "(pending (Control s) \<longrightarrow> (\<forall>r \<in> set (Recorders s). \<not> inside r)) \<and>
    ((\<forall>r \<in> set (Recorders s). \<not> inside r) \<and> (\<forall>c. Control s \<noteq> CtlZeroBytes c \<and> Control s \<noteq> CtlZeroMax c) \<longrightarrow>
       Row s = done_sum (Done s)) \<and>
    (waiting (Control s) \<longrightarrow>
       (\<forall>t s'. recorder_step t s s' \<longrightarrow> sum_list (map steps_left (Recorders s')) < sum_list (map steps_left (Recorders s))) \<and>
       (0 < InFlight s \<longrightarrow> (\<exists>t s'. recorder_step t s s')) \<and> (InFlight s = 0 \<longrightarrow> (\<exists>s'. control_step s s')))"
proof -
  note inv = proto_reachable_inv [OF assms]
  have "pending (Control s) \<Longrightarrow> \<forall>r \<in> set (Recorders s). \<not> inside r"
    using inv by (auto simp: proto_inv_def pending_def waiting_def split: stat_control.splits)
  moreover have "Row s = done_sum (Done s)"
    if "\<forall>r \<in> set (Recorders s). \<not> inside r" "\<forall>c. Control s \<noteq> CtlZeroBytes c \<and> Control s \<noteq> CtlZeroMax c"
    using inv that(2) outside_zero [OF that(1)]
    by (auto simp: proto_inv_def row_ok_def Let_def split: stat_control.splits intro: counters.expand)
  moreover have "\<not> Active s" if "waiting (Control s)" using inv that by (auto simp: proto_inv_def waiting_def)
  moreover have "\<exists>t s'. recorder_step t s s'" if "0 < InFlight s"
    using recorder_enabled [OF _ refl] inv that by (auto simp: proto_inv_def)
  moreover have "\<exists>s'. control_step s s'" if "waiting (Control s)" "InFlight s = 0"
    using that by (auto simp: waiting_def split: stat_control.splits intro: control_step.wait_end)
  ultimately show ?thesis using recorder_progress by blast
qed

text \<open>A record of 5 bytes, and a reset while a second thread has loaded the collector.\<close>

definition demo_proto :: proto_state where
  "demo_proto = \<lparr>Active = False, InFlight = 1, Row = Counters 1 5 5, Recorders = [RecEntered 7, RecIdle], Control = CtlWait (CmdReset True), Done = [5]\<rparr>"

lemma control_then: "proto_step\<^sup>*\<^sup>* a s \<Longrightarrow> control_step s t \<Longrightarrow> t = s' \<Longrightarrow> proto_step\<^sup>*\<^sup>* a s'"
  by (auto simp: proto_step_def intro: rtranclp.rtrancl_into_rtrancl)

lemma recorder_then: "proto_step\<^sup>*\<^sup>* a s \<Longrightarrow> recorder_step i s t \<Longrightarrow> t = s' \<Longrightarrow> proto_step\<^sup>*\<^sup>* a s'"
  by (metis proto_step_def rtranclp.rtrancl_into_rtrancl)

lemma demo_proto_reachable: "proto_step\<^sup>*\<^sup>* (proto_init 2) demo_proto"
proof -
  have init: "proto_init 2 = \<lparr>Active = False, InFlight = 0, Row = Counters 0 0 0, Recorders = [RecIdle, RecIdle], Control = CtlIdle, Done = []\<rparr>"
    by (simp add: proto_init_def numeral_2_eq_2 counters_zero_def del: counters_zero_0)
  have "proto_step\<^sup>*\<^sup>* (proto_init 2) (proto_init 2)" by simp
  then have "proto_step\<^sup>*\<^sup>* (proto_init 2) \<lparr>Active = False, InFlight = 0, Row = Counters 0 0 0, Recorders = [RecIdle, RecIdle], Control = CtlRun CmdStart, Done = []\<rparr>"
    by (rule control_then) (rule control_step.start, simp_all add: init UpdateMaximum_def)
  then have "proto_step\<^sup>*\<^sup>* (proto_init 2) \<lparr>Active = False, InFlight = 0, Row = Counters 0 0 0, Recorders = [RecIdle, RecIdle], Control = CtlZeroBytes CmdStart, Done = []\<rparr>"
    by (rule control_then) (rule control_step.zero_records, simp_all add: UpdateMaximum_def)
  then have "proto_step\<^sup>*\<^sup>* (proto_init 2) \<lparr>Active = False, InFlight = 0, Row = Counters 0 0 0, Recorders = [RecIdle, RecIdle], Control = CtlZeroMax CmdStart, Done = []\<rparr>"
    by (rule control_then) (rule control_step.zero_bytes, simp_all add: UpdateMaximum_def)
  then have "proto_step\<^sup>*\<^sup>* (proto_init 2) \<lparr>Active = False, InFlight = 0, Row = Counters 0 0 0, Recorders = [RecIdle, RecIdle], Control = CtlPublish CmdStart, Done = []\<rparr>"
    by (rule control_then) (rule control_step.zero_max, simp_all add: UpdateMaximum_def)
  then have "proto_step\<^sup>*\<^sup>* (proto_init 2) \<lparr>Active = True, InFlight = 0, Row = Counters 0 0 0, Recorders = [RecIdle, RecIdle], Control = CtlIdle, Done = []\<rparr>"
    by (rule control_then) (rule control_step.publish [where c = CmdStart], simp_all add: UpdateMaximum_def)
  then have "proto_step\<^sup>*\<^sup>* (proto_init 2) \<lparr>Active = True, InFlight = 0, Row = Counters 0 0 0, Recorders = [RecLoaded 5, RecIdle], Control = CtlIdle, Done = []\<rparr>"
    by (rule recorder_then [where i = 0]) (rule recorder_step.load [where b = 5], simp_all add: UpdateMaximum_def)
  then have "proto_step\<^sup>*\<^sup>* (proto_init 2) \<lparr>Active = True, InFlight = 1, Row = Counters 0 0 0, Recorders = [RecEntered 5, RecIdle], Control = CtlIdle, Done = []\<rparr>"
    by (rule recorder_then [where i = 0]) (rule recorder_step.enter [where b = 5], simp_all add: UpdateMaximum_def)
  then have "proto_step\<^sup>*\<^sup>* (proto_init 2) \<lparr>Active = True, InFlight = 1, Row = Counters 0 0 0, Recorders = [RecRecord 5, RecIdle], Control = CtlIdle, Done = []\<rparr>"
    by (rule recorder_then [where i = 0]) (rule recorder_step.check_active [where b = 5], simp_all add: UpdateMaximum_def)
  then have "proto_step\<^sup>*\<^sup>* (proto_init 2) \<lparr>Active = True, InFlight = 1, Row = Counters 1 0 0, Recorders = [RecBytes 5, RecIdle], Control = CtlIdle, Done = []\<rparr>"
    by (rule recorder_then [where i = 0]) (rule recorder_step.add_record [where b = 5], simp_all add: UpdateMaximum_def)
  then have "proto_step\<^sup>*\<^sup>* (proto_init 2) \<lparr>Active = True, InFlight = 1, Row = Counters 1 5 0, Recorders = [RecMax 5, RecIdle], Control = CtlIdle, Done = []\<rparr>"
    by (rule recorder_then [where i = 0]) (rule recorder_step.add_bytes [where b = 5], simp_all add: UpdateMaximum_def)
  then have "proto_step\<^sup>*\<^sup>* (proto_init 2) \<lparr>Active = True, InFlight = 1, Row = Counters 1 5 5, Recorders = [RecLeaving, RecIdle], Control = CtlIdle, Done = [5]\<rparr>"
    by (rule recorder_then [where i = 0]) (rule recorder_step.update_max [where b = 5], simp_all add: UpdateMaximum_def)
  then have "proto_step\<^sup>*\<^sup>* (proto_init 2) \<lparr>Active = True, InFlight = 0, Row = Counters 1 5 5, Recorders = [RecIdle, RecIdle], Control = CtlIdle, Done = [5]\<rparr>"
    by (rule recorder_then [where i = 0]) (rule recorder_step.leave, simp_all add: UpdateMaximum_def)
  then have "proto_step\<^sup>*\<^sup>* (proto_init 2) \<lparr>Active = True, InFlight = 0, Row = Counters 1 5 5, Recorders = [RecLoaded 7, RecIdle], Control = CtlIdle, Done = [5]\<rparr>"
    by (rule recorder_then [where i = 0]) (rule recorder_step.load [where b = 7], simp_all add: UpdateMaximum_def)
  then have "proto_step\<^sup>*\<^sup>* (proto_init 2) \<lparr>Active = True, InFlight = 1, Row = Counters 1 5 5, Recorders = [RecEntered 7, RecIdle], Control = CtlIdle, Done = [5]\<rparr>"
    by (rule recorder_then [where i = 0]) (rule recorder_step.enter [where b = 7], simp_all add: UpdateMaximum_def)
  then show "proto_step\<^sup>*\<^sup>* (proto_init 2) demo_proto"
    by (rule control_then) (rule control_step.reset, simp_all add: UpdateMaximum_def demo_proto_def)
qed

theorem statistics_not_torn_witness:
  "Row demo_proto = done_sum [5] \<and> waiting (Control demo_proto) \<and> (\<exists>t s'. recorder_step t demo_proto s')"
proof -
  have "\<forall>r \<in> set (Recorders demo_proto). \<not> inside r" "waiting (Control demo_proto)" "0 < InFlight demo_proto"
    "Done demo_proto = [5]" "\<forall>c. Control demo_proto \<noteq> CtlZeroBytes c \<and> Control demo_proto \<noteq> CtlZeroMax c"
    by (simp_all add: demo_proto_def waiting_def)
  with statistics_not_torn [OF demo_proto_reachable] show ?thesis by metis
qed

end
