(* ===== verification/File_Truncate.thy ===== *)
theory File_Truncate
  imports Prelude_Logme
begin

text \<open>
  Cutting a log file down in place (\<open>FileIo::TruncateToMaxSize\<close>, \<open>File/file_io.cpp\<close>), on the contents of
  the file, all system calls succeeding. The buffer the tail is read into ends with the file's last
  byte; the scan for a line end does not look at that limit, so a file with neither a line end nor a
  zero byte in its tail has no defined result, \<open>None\<close>. Lemmas: the three outcomes, and how long the
  file is then.
\<close>

text \<open>Sizes are converted to 32 bits.\<close>

definition u32_of :: "nat \<Rightarrow> nat" where
  "u32_of n = n mod 2 ^ 32"

text \<open>Where the scan stops, if it does inside the buffer.\<close>

definition line_end :: "string \<Rightarrow> nat option" where
  "line_end data =
     (let i = length (takeWhile (\<lambda>c. c \<noteq> NUL \<and> c \<noteq> CHR 0x0A) data) in if i < length data then Some i else None)"

definition dropped_line :: "nat \<Rightarrow> string" where
  "dropped_line n = ''--- dropped '' @ show_nat n @ '' characters'' @ [CHR 0x0A]"

definition TruncateToMaxSize :: "nat \<Rightarrow> string \<Rightarrow> string option" where
  "TruncateToMaxSize maxSize content =
     (if maxSize = 0 \<or> length content < maxSize then Some content
      else
        let readPos = u32_of (maxSize div 2); readSize = u32_of (length content - readPos);
            data = take readSize (drop readPos content) in
        case line_end data of
          None \<Rightarrow> None
        | Some i \<Rightarrow>
            if data ! i = NUL then Some content
            else let n = i + 1 in Some (dropped_line (u32_of (readPos + n)) @ drop n data))"

section \<open>Outcomes\<close>

lemma takeWhile_split:
  assumes "length (takeWhile P xs) < length xs"
  shows "xs = takeWhile P xs @ xs ! length (takeWhile P xs) # drop (Suc (length (takeWhile P xs))) xs"
    and "\<not> P (xs ! length (takeWhile P xs))"
proof -
  show "xs = takeWhile P xs @ xs ! length (takeWhile P xs) # drop (Suc (length (takeWhile P xs))) xs"
    using id_take_nth_drop [OF assms] by (simp add: takeWhile_eq_take [symmetric])
  show "\<not> P (xs ! length (takeWhile P xs))" using nth_length_takeWhile [OF assms] .
qed

lemma line_end_Some:
  "line_end data = Some i \<longleftrightarrow> i < length data \<and> (data ! i = NUL \<or> data ! i = CHR 0x0A) \<and>
     (\<forall>c \<in> set (take i data). c \<noteq> NUL \<and> c \<noteq> CHR 0x0A)"
proof -
  let ?P = "\<lambda>c. c \<noteq> NUL \<and> c \<noteq> CHR 0x0A" and ?k = "length (takeWhile (\<lambda>c. c \<noteq> NUL \<and> c \<noteq> CHR 0x0A) data)"
  have "i = ?k" if "i < length data" "\<not> ?P (data ! i)" "\<forall>c \<in> set (take i data). ?P c"
  proof -
    have "takeWhile ?P data = takeWhile ?P (take i data @ data ! i # drop (Suc i) data)"
      using id_take_nth_drop [OF that(1)] by simp
    also have "\<dots> = take i data" using that(2,3) by (simp add: takeWhile_append2)
    finally show ?thesis using that(1) by simp
  qed
  moreover have "\<forall>c \<in> set (take ?k data). ?P c" by (auto dest: set_takeWhileD simp flip: takeWhile_eq_take)
  moreover have "\<not> ?P (data ! ?k)" if "?k < length data" by (rule takeWhile_split(2) [OF that])
  ultimately show ?thesis unfolding line_end_def Let_def by (smt (verit) option.distinct(1) option.inject)
qed

lemma line_end_None: "line_end data = None \<longleftrightarrow> (\<forall>c \<in> set data. c \<noteq> NUL \<and> c \<noteq> CHR 0x0A)"
proof -
  have "length (takeWhile P xs) < length xs \<longleftrightarrow> (\<exists>x \<in> set xs. \<not> P x)" for P and xs :: string
    by (induction xs) auto
  then show ?thesis by (auto simp: line_end_def Let_def)
qed

lemma truncate_data:
  assumes "0 < m" and "m \<le> length c" and "length c < 2 ^ 32"
  shows "u32_of (m div 2) = m div 2" and "take (u32_of (length c - m div 2)) (drop (m div 2) c) = drop (m div 2) c"
proof -
  have "m div 2 \<le> m" by simp
  then have m: "m div 2 < 2 ^ 32" using assms by linarith
  have l: "length c - m div 2 < 2 ^ 32" using assms by linarith
  show "u32_of (m div 2) = m div 2" using m by (simp add: u32_of_def)
  show "take (u32_of (length c - m div 2)) (drop (m div 2) c) = drop (m div 2) c" using l by (simp add: u32_of_def)
qed

definition clean :: "string \<Rightarrow> bool" where
  "clean a \<longleftrightarrow> (\<forall>c \<in> set a. c \<noteq> NUL \<and> c \<noteq> CHR 0x0A)"

lemma line_end_at: "clean a \<Longrightarrow> x = NUL \<or> x = CHR 0x0A \<Longrightarrow> line_end (a @ x # rest) = Some (length a)"
  by (auto simp: line_end_Some clean_def nth_append)

text \<open>C40. Cutting a file of at least the maximal size has three outcomes, by what comes first behind half
  of the maximal size: a line end, and the file is a line telling how much was dropped and the text
  from the next line on (so a file that has grown by more than was dropped is still too long); a zero
  byte, as in an obfuscated log, and the file is left as it is, however long; neither, and the scan
  leaves its buffer. A smaller file is left as it is.\<close>

theorem truncate_outcomes:
  assumes "length c < 2 ^ 32"
  shows "(length c < m \<longrightarrow> TruncateToMaxSize m c = Some c) \<and>
    (0 < m \<and> m \<le> length c \<longrightarrow>
      (\<forall>a rest. drop (m div 2) c = a @ CHR 0x0A # rest \<and> clean a \<longrightarrow>
        (let d = m div 2 + length a + 1 in
         TruncateToMaxSize m c = Some (dropped_line d @ rest) \<and>
         (length (dropped_line d @ rest) > m \<longleftrightarrow> length c + length (dropped_line d) > m + d))) \<and>
      (\<forall>a rest. drop (m div 2) c = a @ NUL # rest \<and> clean a \<longrightarrow> TruncateToMaxSize m c = Some c) \<and>
      (clean (drop (m div 2) c) \<longrightarrow> TruncateToMaxSize m c = None))"
proof -
  have small: "length c < m \<longrightarrow> TruncateToMaxSize m c = Some c" by (simp add: TruncateToMaxSize_def)
  have big: "TruncateToMaxSize m c = (case line_end (drop (m div 2) c) of
          None \<Rightarrow> None
        | Some i \<Rightarrow>
            if drop (m div 2) c ! i = NUL then Some c
            else Some (dropped_line (u32_of (m div 2 + (i + 1))) @ drop (i + 1) (drop (m div 2) c)))"
    if "0 < m" "m \<le> length c"
    using that truncate_data [OF that assms] by (simp add: TruncateToMaxSize_def Let_def split: option.split)
  have line: "TruncateToMaxSize m c = Some (dropped_line (m div 2 + length a + 1) @ rest)"
    "length c = m div 2 + length a + 1 + length rest"
    if "0 < m" "m \<le> length c" "drop (m div 2) c = a @ CHR 0x0A # rest" "clean a" for a rest
  proof -
    have "length (drop (m div 2) c) = length a + 1 + length rest" using that(3) by simp
    then show len: "length c = m div 2 + length a + 1 + length rest" using that(1,2) by simp
    then have "u32_of (m div 2 + (length a + 1)) = m div 2 + length a + 1" using assms by (simp add: u32_of_def)
    then show "TruncateToMaxSize m c = Some (dropped_line (m div 2 + length a + 1) @ rest)"
      using big [OF that(1,2)] that(3,4) line_end_at [of a "CHR 0x0A" rest] by (simp add: NUL_def)
  qed
  have zero: "TruncateToMaxSize m c = Some c"
    if "0 < m" "m \<le> length c" "drop (m div 2) c = a @ NUL # rest" "clean a" for a rest
    using big [OF that(1,2)] that(3,4) line_end_at [of a NUL rest] by simp
  have none: "TruncateToMaxSize m c = None" if "0 < m" "m \<le> length c" "clean (drop (m div 2) c)"
    using big [OF that(1,2)] that(3) line_end_None [of "drop (m div 2) c"] by (simp add: clean_def)
  have long: "length (dropped_line (m div 2 + length a + 1) @ rest) > m \<longleftrightarrow>
      length c + length (dropped_line (m div 2 + length a + 1)) > m + (m div 2 + length a + 1)"
    if "0 < m" "m \<le> length c" "drop (m div 2) c = a @ CHR 0x0A # rest" "clean a" for a rest
    using line(2) [OF that] by (simp add: ac_simps)
  show ?thesis unfolding Let_def using small line(1) long zero none by blast
qed

theorem truncate_outcomes_witness:
  "TruncateToMaxSize 4 (''abcd'' @ CHR 0x0A # ''tail'') = Some (dropped_line 5 @ ''tail'') \<and>
   TruncateToMaxSize 4 (''abcd'' @ NUL # ''tail'') = Some (''abcd'' @ NUL # ''tail'') \<and>
   TruncateToMaxSize 4 ''abcdef'' = None"
proof -
  have 1: "drop (4 div 2) (''abcd'' @ CHR 0x0A # ''tail'') = ''cd'' @ CHR 0x0A # ''tail''"
    "drop (4 div 2) (''abcd'' @ NUL # ''tail'') = ''cd'' @ NUL # ''tail''" by simp_all
  have 2: "clean ''cd''" "clean (drop (4 div 2) ''abcdef'')" by (simp_all add: clean_def NUL_def)
  have "TruncateToMaxSize 4 (''abcd'' @ CHR 0x0A # ''tail'') = Some (dropped_line (4 div 2 + length ''cd'' + 1) @ ''tail'')"
    using truncate_outcomes [of "''abcd'' @ CHR 0x0A # ''tail''" 4] 1(1) 2(1) unfolding Let_def by fastforce
  moreover have "TruncateToMaxSize 4 (''abcd'' @ NUL # ''tail'') = Some (''abcd'' @ NUL # ''tail'')"
    using truncate_outcomes [of "''abcd'' @ NUL # ''tail''" 4] 1(2) 2(1) by fastforce
  moreover have "TruncateToMaxSize 4 ''abcdef'' = None"
    using truncate_outcomes [of "''abcdef''" 4] 2(2) by simp
  ultimately show ?thesis by simp
qed

end
