(* ===== verification/File_Write.thy ===== *)
theory File_Write
  imports Prelude_Logme
begin

text \<open>
  Writing bytes to an open file (\<open>FileIo::WriteRaw\<close>, \<open>WriteAll\<close>, \<open>WriteRawVector\<close>, \<open>WriteAllVector\<close> of
  \<open>File/file_io.cpp\<close>). What the system answers to one call of \<open>write\<close> or \<open>writev\<close> is an argument: it takes
  some of the bytes (the number is cut to what was offered), is interrupted, or fails. A call that has
  used up the answers is still waiting. Lemmas: a completed write has put exactly the bytes of all
  buffers behind the file's end, whatever the partial writes; a failed one a proper beginning of them.
\<close>

datatype answer = Wrote nat | Interrupted | Failed nat

record io =
  Disk :: string
  Answers :: "answer list"
  IoError :: nat

datatype 'a call = Returned io 'a | Waiting io | Overrun

text \<open>Conversions of \<open>size_t\<close> to \<open>unsigned int\<close> and to \<open>int\<close>.\<close>

definition to_unsigned :: "nat \<Rightarrow> nat" where
  "to_unsigned n = n mod 2 ^ 32"

definition to_int :: "nat \<Rightarrow> int" where
  "to_int n = (let k = int (n mod 2 ^ 32) in if k < 2 ^ 31 then k else k - 2 ^ 32)"

definition EIO :: nat where
  "EIO = 5"

section \<open>One buffer\<close>

text \<open>The loop around one system call that is given these bytes.\<close>

fun raw_loop :: "string \<Rightarrow> string \<Rightarrow> nat \<Rightarrow> answer list \<Rightarrow> int call" where
  "raw_loop p d e [] = Waiting \<lparr>Disk = d, Answers = [], IoError = e\<rparr>"
| "raw_loop p d e (Interrupted # as) = raw_loop p d e as"
| "raw_loop p d e (Failed n # as) = Returned \<lparr>Disk = d, Answers = as, IoError = n\<rparr> (-1)"
| "raw_loop p d e (Wrote n # as) =
     (let k = min n (length p) in Returned \<lparr>Disk = d @ take k p, Answers = as, IoError = e\<rparr> (to_int k))"

definition WriteRaw :: "string \<Rightarrow> io \<Rightarrow> int call" where
  "WriteRaw p s = raw_loop (take (to_unsigned (length p)) p) (Disk s) (IoError s) (Answers s)"

lemma raw_loop_shrinks: "raw_loop p d e as = Returned t rc \<Longrightarrow> length (Answers t) < length as"
  by (induction p d e as rule: raw_loop.induct) (auto simp: Let_def)

lemma WriteRaw_shrinks: "WriteRaw p s = Returned t rc \<Longrightarrow> length (Answers t) < length (Answers s)"
  unfolding WriteRaw_def by (rule raw_loop_shrinks)

function write_loop :: "string \<Rightarrow> nat \<Rightarrow> io \<Rightarrow> int call" where
  "write_loop data written s =
     (if written < length data
      then
        (case WriteRaw (drop written data) s of
           Returned t rc \<Rightarrow>
             if rc < 0 then Returned t (-1)
             else if rc = 0 then Returned (t\<lparr>IoError := EIO\<rparr>) (-1)
             else write_loop data (written + nat rc) t
         | Waiting t \<Rightarrow> Waiting t
         | Overrun \<Rightarrow> Overrun)
      else Returned s (to_int written))"
  by pat_completeness auto
termination by (relation "measure (\<lambda>(data, written, s). length (Answers s))") (auto dest: WriteRaw_shrinks)

declare write_loop.simps [simp del]

definition WriteAll :: "string \<Rightarrow> io \<Rightarrow> int call" where
  "WriteAll p s = write_loop p 0 s"

section \<open>Several buffers\<close>

definition WriteRawVector :: "string list \<Rightarrow> io \<Rightarrow> int call" where
  "WriteRawVector iov s = raw_loop (concat iov) (Disk s) (IoError s) (Answers s)"

lemma WriteRawVector_shrinks: "WriteRawVector p s = Returned t rc \<Longrightarrow> length (Answers t) < length (Answers s)"
  unfolding WriteRawVector_def by (rule raw_loop_shrinks)

function skip_empty :: "string list \<Rightarrow> nat \<Rightarrow> nat" where
  "skip_empty iov i = (if i < length iov \<and> iov ! i = [] then skip_empty iov (i + 1) else i)"
  by pat_completeness auto
termination by (relation "measure (\<lambda>(iov, i). length iov - i)") auto

declare skip_empty.simps [simp del]

text \<open>Counting off the bytes a call has written; reading a buffer past the last one is \<open>None\<close>.\<close>

function advance :: "string list \<Rightarrow> nat \<Rightarrow> nat \<Rightarrow> nat \<Rightarrow> (nat \<times> nat) option" where
  "advance iov i offset remaining =
     (if remaining = 0 then Some (i, offset)
      else if length iov \<le> i then None
      else
        let size = length (iov ! i) - offset in
        if remaining < size then Some (i, offset + remaining)
        else advance iov (skip_empty iov (i + 1)) 0 (remaining - size))"
  by pat_completeness auto

lemma skip_empty_ge: "i \<le> skip_empty iov i"
  by (induction iov i rule: skip_empty.induct) (subst skip_empty.simps, auto)

termination advance
proof (relation "measure (\<lambda>(iov, i, offset, remaining). length iov - i)")
  fix iov :: "string list" and i offset remaining size
  assume "\<not> length iov \<le> i"
  then show "((iov, skip_empty iov (i + 1), 0, remaining - size), iov, i, offset, remaining)
      \<in> measure (\<lambda>(iov, i, offset, remaining). length iov - i)"
    using skip_empty_ge [of "i + 1" iov] by auto
qed simp

declare advance.simps [simp del]

function vector_loop :: "string list \<Rightarrow> nat \<Rightarrow> nat \<Rightarrow> nat \<Rightarrow> io \<Rightarrow> int call" where
  "vector_loop iov index offset written s =
     (if length iov \<le> index then Returned s (to_int written)
      else
        let i = skip_empty iov index in
        if i = length iov then Returned s (to_int written)
        else if offset \<noteq> 0
        then
          (case WriteAll (drop offset (iov ! i)) s of
             Returned t rc \<Rightarrow>
               if rc < 0 then Returned t (-1) else vector_loop iov (i + 1) 0 (written + nat rc) t
           | Waiting t \<Rightarrow> Waiting t
           | Overrun \<Rightarrow> Overrun)
        else
          (case WriteRawVector (drop i iov) s of
             Returned t rc \<Rightarrow>
               if rc < 0 then Returned t (-1)
               else if rc = 0 then Returned (t\<lparr>IoError := EIO\<rparr>) (-1)
               else
                 (case advance iov i 0 (nat rc) of
                    None \<Rightarrow> Overrun
                  | Some (j, off) \<Rightarrow> vector_loop iov j off (written + nat rc) t)
           | Waiting t \<Rightarrow> Waiting t
           | Overrun \<Rightarrow> Overrun))"
  by pat_completeness auto

lemma write_loop_shrinks: "write_loop data n s = Returned t rc \<Longrightarrow> length (Answers t) \<le> length (Answers s)"
proof (induction data n s rule: write_loop.induct)
  case (1 data n s)
  show ?case
  proof (cases "n < length data")
    case False
    then show ?thesis using 1(2) by (subst (asm) write_loop.simps) simp
  next
    case True
    note u = 1(2) [unfolded write_loop.simps [of data n s] if_P [OF True]]
    obtain w k where w: "WriteRaw (drop n data) s = Returned w k" using u by (cases "WriteRaw (drop n data) s") auto
    have "length (Answers t) \<le> length (Answers w)"
      using u 1(1) [OF True w] unfolding w by (auto split: if_splits)
    then show ?thesis using WriteRaw_shrinks [OF w] by simp
  qed
qed

termination vector_loop
proof (relation "measures [\<lambda>(iov, i, offset, written, s). length (Answers s), \<lambda>(iov, i, offset, written, s). length iov - i]")
  fix iov :: "string list" and index offset written i rc and s t :: io
  assume "\<not> length iov \<le> index" "i = skip_empty iov index" "i \<noteq> length iov"
    "WriteAll (drop offset (iov ! i)) s = Returned t rc"
  then show "((iov, i + 1, 0, written + nat rc, t), iov, index, offset, written, s)
      \<in> measures [\<lambda>(iov, i, offset, written, s). length (Answers s), \<lambda>(iov, i, offset, written, s). length iov - i]"
    using skip_empty_ge [of index iov] write_loop_shrinks [of "drop offset (iov ! i)" 0 s t rc] by (auto simp: WriteAll_def)
qed (auto dest: WriteRawVector_shrinks)

declare vector_loop.simps [simp del]

definition WriteAllVector :: "string list \<Rightarrow> io \<Rightarrow> int call" where
  "WriteAllVector iov s = vector_loop iov 0 0 0 s"

section \<open>What reaches the file\<close>

definition wrotes :: "answer list \<Rightarrow> nat" where
  "wrotes as = length (filter (\<lambda>a. case a of Wrote n \<Rightarrow> True | _ \<Rightarrow> False) as)"

definition refusing :: "answer list \<Rightarrow> bool" where
  "refusing as \<longleftrightarrow> (\<exists>a \<in> set as. case a of Wrote n \<Rightarrow> n = 0 | Interrupted \<Rightarrow> False | Failed n \<Rightarrow> True)"

lemma wrotes_simps [simp]:
  "wrotes [] = 0" "wrotes (Wrote n # as) = Suc (wrotes as)" "wrotes (Interrupted # as) = wrotes as"
  "wrotes (Failed n # as) = wrotes as"
  by (simp_all add: wrotes_def)

lemma refusing_simps [simp]:
  "\<not> refusing []" "refusing (Wrote n # as) \<longleftrightarrow> n = 0 \<or> refusing as" "refusing (Interrupted # as) \<longleftrightarrow> refusing as"
  "refusing (Failed n # as)"
  by (auto simp: refusing_def)

lemma refusing_mono: "refusing as \<Longrightarrow> set as \<subseteq> set bs \<Longrightarrow> refusing bs"
  by (auto simp: refusing_def)

lemma to_int_small [simp]: "n < 2 ^ 31 \<Longrightarrow> to_int n = int n"
  by (simp add: to_int_def)

lemma to_unsigned_small [simp]: "n < 2 ^ 31 \<Longrightarrow> to_unsigned n = n"
  by (simp add: to_unsigned_def)

text \<open>One system call, offered the bytes \<open>q\<close>.\<close>

lemma raw_loop_cases:
  assumes "length q < 2 ^ 31"
  obtains (refused) t where "raw_loop q d e as = Returned t (-1)" "Disk t = d" "refusing as"
  | (took) t k where "raw_loop q d e as = Returned t (int k)" "k \<le> length q" "Disk t = d @ take k q"
      "set (Answers t) \<subseteq> set as" "wrotes as \<le> Suc (wrotes (Answers t))" "k = 0 \<longrightarrow> q = [] \<or> refusing as"
  | (waits) t where "raw_loop q d e as = Waiting t" "Disk t = d" "wrotes as = 0"
proof -
  have "(\<exists>t. raw_loop q d e as = Returned t (-1) \<and> Disk t = d \<and> refusing as) \<or>
    (\<exists>t k. raw_loop q d e as = Returned t (int k) \<and> k \<le> length q \<and> Disk t = d @ take k q \<and>
       set (Answers t) \<subseteq> set as \<and> wrotes as \<le> Suc (wrotes (Answers t)) \<and> (k = 0 \<longrightarrow> q = [] \<or> refusing as)) \<or>
    (\<exists>t. raw_loop q d e as = Waiting t \<and> Disk t = d \<and> wrotes as = 0)"
    using assms
  proof (induction q d e as rule: raw_loop.induct)
    case (4 p d e n as)
    then have "min n (length p) < 2 ^ 31" by simp
    then show ?case by (auto simp: Let_def min_def split: if_splits)
  qed auto
  then show thesis using that by blast
qed

text \<open>The bytes \<open>p\<close> on their way to a file that ended with \<open>D\<close>, the first \<open>n\<close> of them written.\<close>

fun outcome :: "string \<Rightarrow> nat \<Rightarrow> string \<Rightarrow> answer list \<Rightarrow> int call \<Rightarrow> bool" where
  "outcome p n D as (Returned t rc) \<longleftrightarrow>
     rc = int (length p) \<and> Disk t = D @ p \<and> set (Answers t) \<subseteq> set as \<and> wrotes as \<le> wrotes (Answers t) + (length p - n) \<or>
     rc = -1 \<and> (\<exists>k < length p. Disk t = D @ take k p) \<and> refusing as"
| "outcome p n D as (Waiting t) \<longleftrightarrow> (\<exists>k < length p. Disk t = D @ take k p) \<and> wrotes as < length p - n"
| "outcome p n D as Overrun \<longleftrightarrow> False"

lemma outcome_later:
  assumes "set bs \<subseteq> set as" and "wrotes as \<le> wrotes bs + k" and "n + k \<le> length p" and "outcome p (n + k) D bs r"
  shows "outcome p n D as r"
  using assms refusing_mono [OF _ assms(1)] by (cases r) auto

lemma write_loop_outcome:
  assumes "length p < 2 ^ 31" and "Disk s = D @ take n p" and "n \<le> length p"
  shows "outcome p n D (Answers s) (write_loop p n s)"
  using assms
proof (induction p n s rule: write_loop.induct)
  case (1 p n s)
  note len = 1(2) and disk = 1(3) and n = 1(4)
  show ?case
  proof (cases "n < length p")
    case False
    then show ?thesis using len disk n by (subst write_loop.simps) simp
  next
    case True
    note u = write_loop.simps [of p n s, unfolded if_P [OF True]]
    have q: "length (drop n p) < 2 ^ 31" and raw: "WriteRaw (drop n p) s = raw_loop (drop n p) (Disk s) (IoError s) (Answers s)"
      using len by (simp_all add: WriteRaw_def)
    show ?thesis
    proof (cases rule: raw_loop_cases [OF q, of "Disk s" "IoError s" "Answers s", case_names refused took waits])
      case (refused t)
      then show ?thesis using True disk by (auto simp: u raw)
    next
      case (waits t)
      then show ?thesis using True disk by (auto simp: u raw)
    next
      case (took t k)
      show ?thesis
      proof (cases "k = 0")
        case True
        then show ?thesis using took disk \<open>n < length p\<close> by (auto simp: u raw)
      next
        case False
        have d: "Disk t = D @ take (n + k) p" using took(3) disk by (simp add: take_add)
        have k: "n + k \<le> length p" using took(2) True by simp
        have "outcome p (n + k) D (Answers t) (write_loop p (n + k) t)"
          using 1(1) [OF True, of t "int k"] took(1) raw False len d k by simp
        then have "outcome p n D (Answers s) (write_loop p (n + k) t)"
          using outcome_later [of "Answers t" "Answers s" k n p D] took(4,5) k False by simp
        then show ?thesis using took(1) False by (simp add: u raw)
      qed
    qed
  qed
qed

section \<open>Positions in a list of buffers\<close>

definition pos :: "string list \<Rightarrow> nat \<Rightarrow> nat \<Rightarrow> nat" where
  "pos iov i off = length (concat (take i iov)) + off"

definition valid_pos :: "string list \<Rightarrow> nat \<Rightarrow> nat \<Rightarrow> bool" where
  "valid_pos iov i off \<longleftrightarrow> i \<le> length iov \<and> (off \<noteq> 0 \<longrightarrow> i < length iov \<and> off < length (iov ! i))"

lemma concat_split: "i < length iov \<Longrightarrow> concat iov = concat (take i iov) @ iov ! i @ concat (drop (Suc i) iov)"
  by (metis append_take_drop_id concat.simps(2) concat_append id_take_nth_drop)

lemma concat_drop: "concat (drop i iov) = drop (pos iov i 0) (concat iov)"
  unfolding pos_def by (metis add.right_neutral append_eq_conv_conj append_take_drop_id concat_append)

lemma pos_Suc: "i < length iov \<Longrightarrow> pos iov (Suc i) 0 = pos iov i 0 + length (iov ! i)"
  by (simp add: pos_def take_Suc_conv_app_nth)

lemma pos_end [simp]: "pos iov (length iov) 0 = length (concat iov)"
  by (simp add: pos_def)

lemma skip_empty:
  assumes "i \<le> length iov"
  shows "skip_empty iov i \<le> length iov" and "pos iov (skip_empty iov i) 0 = pos iov i 0"
    and "skip_empty iov i < length iov \<Longrightarrow> iov ! skip_empty iov i \<noteq> []"
  using assms
proof (induction iov i rule: skip_empty.induct)
  case (1 iov i)
  { case 1 show ?case using "1.IH"(1) 1 by (subst skip_empty.simps) auto }
  { case 2 show ?case using "1.IH"(2) 2 by (subst skip_empty.simps) (auto simp: pos_Suc) }
  { case 3 show ?case using "1.IH"(3) 3 by (subst skip_empty.simps) (auto simp: skip_empty.simps [of iov i]) }
qed

lemma skip_empty_nonempty [simp]: "i < length iov \<Longrightarrow> iov ! i \<noteq> [] \<Longrightarrow> skip_empty iov i = i"
  by (subst skip_empty.simps) simp

lemma advance_pos:
  assumes "valid_pos iov i off" and "pos iov i off + remaining \<le> length (concat iov)"
  obtains j o' where "advance iov i off remaining = Some (j, o')" "valid_pos iov j o'"
    "pos iov j o' = pos iov i off + remaining"
proof -
  have "\<exists>j o'. advance iov i off remaining = Some (j, o') \<and> valid_pos iov j o' \<and> pos iov j o' = pos iov i off + remaining"
    using assms
  proof (induction iov i off remaining rule: advance.induct)
    case (1 iov i off r)
    show ?case
    proof (cases "r = 0")
      case True
      then show ?thesis using 1(2) by (subst advance.simps) auto
    next
      case False
      have i: "i < length iov" and off: "off \<le> length (iov ! i)"
        using 1(2,3) False by (auto simp: valid_pos_def le_less)
      note u = advance.simps [of iov i off r]
      show ?thesis
      proof (cases "r < length (iov ! i) - off")
        case True
        then show ?thesis using i False by (auto simp: u Let_def valid_pos_def pos_def)
      next
        case geq: False
        let ?j = "skip_empty iov (i + 1)"
        have p: "pos iov ?j 0 = pos iov i off + (length (iov ! i) - off)"
          using skip_empty(2) [of "i + 1" iov] pos_Suc [OF i] i off by (simp add: pos_def)
        have "\<exists>j o'. advance iov ?j 0 (r - (length (iov ! i) - off)) = Some (j, o') \<and> valid_pos iov j o' \<and>
            pos iov j o' = pos iov ?j 0 + (r - (length (iov ! i) - off))"
          using 1(1) [OF False _ refl geq] 1(3) i skip_empty(1) [of "i + 1" iov] p geq by (simp add: valid_pos_def)
        then show ?thesis using i False geq p by (auto simp: u Let_def)
      qed
    qed
  qed
  then show thesis using that by blast
qed

text \<open>A call that was offered the rest of the bytes, or a part of them, has put some of it into the file.\<close>

lemma outcome_part:
  assumes "outcome q 0 d as r" and "d = D @ take n p" and "\<exists>rest. drop n p = q @ rest" and "n \<le> length p" and "q \<noteq> []"
  shows "(\<exists>t. r = Returned t (int (length q)) \<and> Disk t = D @ take (n + length q) p \<and> set (Answers t) \<subseteq> set as \<and>
            wrotes as \<le> wrotes (Answers t) + length q) \<or>
    (\<exists>t. r = Returned t (-1) \<and> outcome p n D as (Returned t (-1))) \<or>
    (\<exists>t. r = Waiting t \<and> outcome p n D as (Waiting t))"
proof -
  obtain rest where rest: "drop n p = q @ rest" using assms(3) by blast
  have p: "p = take n p @ q @ rest" using rest append_take_drop_id [of n p] by simp
  have len: "length p = n + length q + length rest" using arg_cong [OF rest, of length] assms(4) by simp
  have t: "take (n + k) p = take n p @ take k q" if "k \<le> length q" for k
    using that rest by (simp add: take_add)
  show ?thesis
  proof (cases r)
    case (Returned s rc)
    then consider "rc = int (length q)" "Disk s = d @ q" "set (Answers s) \<subseteq> set as" "wrotes as \<le> wrotes (Answers s) + length q"
      | k where "rc = -1" "k < length q" "Disk s = d @ take k q" "refusing as"
      using assms(1) by auto
    then show ?thesis
    proof cases
      case 1 then show ?thesis using Returned assms(2) t [of "length q"] by simp
    next
      case 2 then show ?thesis using Returned assms(2) t [of k] len by (auto intro!: exI [of _ "n + k"])
    qed
  next
    case (Waiting s)
    then obtain k where "k < length q" "Disk s = d @ take k q" "wrotes as < length q" using assms(1) by auto
    then show ?thesis using Waiting assms(2) t [of k] len by (auto intro!: exI [of _ "n + k"])
  qed (use assms(1) in auto)
qed

section \<open>Completeness of a vectored write\<close>

lemma vector_loop_outcome:
  assumes "length (concat iov) < 2 ^ 31" and "valid_pos iov i off" and "Disk s = D @ take (pos iov i off) (concat iov)"
    and "written = pos iov i off"
  shows "outcome (concat iov) (pos iov i off) D (Answers s) (vector_loop iov i off written s)"
  using assms
proof (induction iov i off written s rule: vector_loop.induct)
  case (1 iov i off w s)
  note len = 1(3) and valid = 1(4) and disk = 1(5) and w = 1(6)
  let ?p = "concat iov" and ?n = "pos iov i off" and ?i = "skip_empty iov i"
  note u = vector_loop.simps [of iov i off w s]
  have le: "i \<le> length iov" using valid by (simp add: valid_pos_def)
  have finished: "outcome ?p ?n D (Answers s) (Returned s (to_int w))" if "?n = length ?p"
    using that len disk w by simp
  show ?case
  proof (cases "length iov \<le> i")
    case True
    then have "i = length iov" "off = 0" using valid by (auto simp: valid_pos_def)
    then have "?n = length ?p" by simp
    then show ?thesis unfolding u if_P [OF True] by (rule finished)
  next
    case i: False
    show ?thesis
    proof (cases "?i = length iov")
      case True
      have "iov ! i = []" using i True skip_empty_nonempty [of i iov] by force
      then have "off = 0" using valid by (auto simp: valid_pos_def)
      then have "?n = length ?p" using skip_empty(2) [OF le] True by (metis pos_end)
      then show ?thesis unfolding u if_not_P [OF i] Let_def if_P [OF True] by (rule finished)
    next
      case i': False
      then have ilt: "?i < length iov" using skip_empty(1) [OF le] by simp
      show ?thesis
      proof (cases "off = 0")
        case off: False
        then have o': "off < length (iov ! i)" using valid by (simp add: valid_pos_def)
        then have [simp]: "?i = i" using i by (intro skip_empty_nonempty) auto
        let ?q = "drop off (iov ! i)"
        have rest: "drop ?n ?p = ?q @ concat (drop (Suc i) iov)"
          using concat_split [of i iov] i o' by (simp add: pos_def)
        have npos: "?n + length ?q = pos iov (Suc i) 0" "?n \<le> length ?p" "pos iov (Suc i) 0 \<le> length ?p"
          using pos_Suc [of i iov] i o' arg_cong [OF concat_split [of i iov], of length] by (auto simp: pos_def)
        have "length ?q < 2 ^ 31" using arg_cong [OF rest, of length] len by simp
        then have wo: "outcome ?q 0 (Disk s) (Answers s) (WriteAll ?q s)"
          unfolding WriteAll_def by (intro write_loop_outcome) simp_all
        consider t where "WriteAll ?q s = Returned t (int (length ?q))" "Disk t = D @ take (?n + length ?q) ?p"
            "set (Answers t) \<subseteq> set (Answers s)" "wrotes (Answers s) \<le> wrotes (Answers t) + length ?q"
          | t where "WriteAll ?q s = Returned t (-1)" "outcome ?p ?n D (Answers s) (Returned t (-1))"
          | t where "WriteAll ?q s = Waiting t" "outcome ?p ?n D (Answers s) (Waiting t)"
          using outcome_part [OF wo disk _ npos(2)] rest o' by force
        then show ?thesis
        proof cases
          case 1
          have "outcome ?p (pos iov (Suc i) 0) D (Answers t) (vector_loop iov (Suc i) 0 (w + length ?q) t)"
            using "1.IH"(1) [of ?i t "int (length ?q)"] 1(1,2) i i' off len npos(1) w by (simp add: valid_pos_def)
          then have "outcome ?p ?n D (Answers s) (vector_loop iov (Suc i) 0 (w + length ?q) t)"
            using outcome_later [OF 1(3,4), of ?n ?p D] npos by simp
          then show ?thesis using i i' off 1(1) by (simp add: u)
        qed (use i i' off in \<open>simp_all add: u\<close>)
      next
        case [simp]: True
        have n: "?n = pos iov ?i 0" using skip_empty(2) [OF le] by simp
        let ?q = "concat (drop ?i iov)"
        have q: "?q = drop ?n ?p" using concat_drop [of ?i iov] n by simp
        have q_ne: "?q \<noteq> []" using skip_empty(3) [OF le ilt] ilt by (metis Cons_nth_drop_Suc append_is_Nil_conv concat.simps(2))
        have nlt: "?n < length ?p" using q q_ne by simp
        have lq: "length ?q < 2 ^ 31" using q len by simp
        have raw: "WriteRawVector (drop ?i iov) s = raw_loop ?q (Disk s) (IoError s) (Answers s)" by (simp add: WriteRawVector_def)
        note u' = u [unfolded True if_not_P [OF i] Let_def if_not_P [OF i'] raw]
        show ?thesis
        proof (cases rule: raw_loop_cases [OF lq, of "Disk s" "IoError s" "Answers s", case_names refused took waits])
          case (refused t)
          then show ?thesis using nlt disk by (auto simp: u')
        next
          case (waits t)
          then show ?thesis using nlt disk by (auto simp: u')
        next
          case (took t k)
          show ?thesis
          proof (cases "k = 0")
            case True
            then show ?thesis using took disk nlt q_ne by (auto simp: u')
          next
            case k: False
            have kn: "?n + k \<le> length ?p" using took(2) q nlt by simp
            obtain j o' where adv: "advance iov ?i 0 k = Some (j, o')" "valid_pos iov j o'" "pos iov j o' = ?n + k"
              using advance_pos [of iov ?i 0 k] kn n ilt by (auto simp: valid_pos_def)
            have "outcome ?p (pos iov j o') D (Answers t) (vector_loop iov j o' (w + k) t)"
              using "1.IH"(2) [of ?i t "int k" "(j, o')" j o'] took(1,3) i i' k adv len w disk q raw by (simp add: take_add)
            then have "outcome ?p ?n D (Answers s) (vector_loop iov j o' (w + k) t)"
              using outcome_later [OF took(4), of k ?n ?p D] took(5) k kn adv(3) by simp
            then show ?thesis using took(1) k adv(1) by (simp add: u')
          qed
        qed
      qed
    qed
  qed
qed

lemma WriteAll_outcome: "length p < 2 ^ 31 \<Longrightarrow> outcome p 0 (Disk s) (Answers s) (WriteAll p s)"
  unfolding WriteAll_def by (rule write_loop_outcome) simp_all

lemma WriteAllVector_outcome:
  "length (concat iov) < 2 ^ 31 \<Longrightarrow> outcome (concat iov) 0 (Disk s) (Answers s) (WriteAllVector iov s)"
  using vector_loop_outcome [of iov 0 0 s "Disk s" 0] by (simp add: WriteAllVector_def valid_pos_def pos_def)

text \<open>C25. Writing several buffers with one vectored call after another, as the worker thread does, never
  reads past the last buffer, and however the system splits, interrupts or refuses the calls: when it
  reports success all bytes of all buffers are in the file, once and in order; when it reports failure
  some call was refused (failed or took nothing) and a proper beginning of them is; a system that
  refuses nothing and answers often enough makes it succeed.\<close>

theorem vectored_write_exact:
  assumes "length (concat iov) < 2 ^ 31"
  shows "(\<forall>t rc. WriteAllVector iov s = Returned t rc \<longrightarrow>
      rc = int (length (concat iov)) \<and> Disk t = Disk s @ concat iov \<or>
      rc = -1 \<and> refusing (Answers s) \<and> (\<exists>k < length (concat iov). Disk t = Disk s @ take k (concat iov))) \<and>
    (\<forall>t. WriteAllVector iov s = Waiting t \<longrightarrow> (\<exists>k < length (concat iov). Disk t = Disk s @ take k (concat iov))) \<and>
    WriteAllVector iov s \<noteq> Overrun \<and>
    (\<not> refusing (Answers s) \<and> length (concat iov) \<le> wrotes (Answers s) \<longrightarrow>
      (\<exists>t. WriteAllVector iov s = Returned t (int (length (concat iov)))))"
proof -
  from WriteAllVector_outcome [OF assms, of s] show ?thesis by (cases "WriteAllVector iov s") auto
qed

theorem vectored_write_exact_witness:
  "\<exists>t. WriteAllVector [''ab'', [], ''cde''] \<lparr>Disk = ''x'', Answers = [Interrupted, Wrote 3, Wrote 1, Wrote 9, Wrote 1, Wrote 1], IoError = 0\<rparr>
     = Returned t 5 \<and> Disk t = ''xabcde''"
proof -
  let ?s = "\<lparr>Disk = ''x'', Answers = [Interrupted, Wrote 3, Wrote 1, Wrote 9, Wrote 1, Wrote 1], IoError = 0\<rparr>"
  have "length (concat [''ab'', [], ''cde'']) < 2 ^ 31" by simp
  from vectored_write_exact [OF this, of ?s] show ?thesis by auto
qed

end
