(* ===== verification/File_Backend.thy ===== *)
theory File_Backend
  imports File_Archive Time_Rotation Retention File_Truncate File_Write Log_Statistics Obfuscation
begin

text \<open>
  The file backend (\<open>Backend/FileBackend.cpp\<close>), its file side: opening the log, rotation by time and
  size into archive files, retention, truncation, the write of one text in synchronous mode and of one
  batch of buffers by the worker thread. The file system is a map from path names to contents in the
  backend's state; what the system allows during one call (which files open, which directories can be
  made, what can be renamed, the time) is its \<open>world\<close>, the answers to the writes are a list. A call that
  waits for the system, or that expands a template that never ends, is \<open>None\<close>. What a stream of the C
  library still buffers counts as written; \<open>lseek\<close> on an open log succeeds. Lemmas: no operation loses
  or overwrites a byte of any file, and every byte reported as written is there.
\<close>

section \<open>State\<close>

datatype SizeLimitPolicy = SIZE_LIMIT_TRUNCATE | SIZE_LIMIT_ROTATE

datatype FileCompletionReason = FILE_COMPLETION_TIME_LIMIT | FILE_COMPLETION_SIZE_LIMIT

text \<open>Error messages, files handed to the compression thread, runs of the retention.\<close>

datatype backend_event =
    ErrorShown string
  | Submitted string
  | Cleaned string string RetentionOptions

record world = archive_env +
  Cal :: calendar
  PathMissing :: "string \<Rightarrow> bool"
  Openable :: "string \<Rightarrow> bool"
  MakeDirs :: "string \<Rightarrow> bool"
  Renamable :: "string \<Rightarrow> string \<Rightarrow> bool"

record file_backend =
  AppendMode :: bool
  MaxSize :: nat
  OnSizeLimit :: SizeLimitPolicy
  CurrentSize :: nat
  Name :: string
  NameTemplate :: string
  ArchivePolicy :: archive_policy
  TimeRotationPolicy :: rotation_policy
  MaxParts :: int
  RetentionMaxAge :: u64
  RetentionMaxTotalSize :: u64
  RetentionCleanOnStart :: bool
  GzipEnabled :: bool
  Compression :: bool
  AsyncMode :: bool
  Registered :: bool
  ShutdownFlag :: bool
  ObfuscationKey :: "byte list option"
  Nonce :: nonce_gen
  Home :: string
  Files :: "string \<rightharpoonup> string"
  OpenFile :: "string option"
  SysAnswers :: "answer list"
  BackendEvents :: "backend_event list"

definition report :: "string \<Rightarrow> 'z file_backend_scheme \<Rightarrow> 'z file_backend_scheme" where
  "report msg b = b\<lparr>BackendEvents := BackendEvents b @ [ErrorShown msg]\<rparr>"

definition IsLogOpen :: "'z file_backend_scheme \<Rightarrow> bool" where
  "IsLogOpen b \<longleftrightarrow> OpenFile b \<noteq> None"

definition CloseLog :: "'z file_backend_scheme \<Rightarrow> 'z file_backend_scheme" where
  "CloseLog b = b\<lparr>OpenFile := None\<rparr>"

definition TestFileInUse :: "string \<Rightarrow> 'z file_backend_scheme \<Rightarrow> bool" where
  "TestFileInUse f b \<longleftrightarrow> IsLogOpen b \<and> Name b = f"

definition GetSize :: "'z file_backend_scheme \<Rightarrow> u64" where
  "GetSize b = (if IsLogOpen b then of_nat (CurrentSize b) else - 1)"

section \<open>Opening the log\<close>

definition default_param :: template_param where
  "default_param = \<lparr>TemplateFlags = TEMPLATE_ALL, TargetChannel = None\<rparr>"

definition expand :: "world \<Rightarrow> template_param \<Rightarrow> string \<Rightarrow> string option" where
  "expand w param t = map_option fst (ProcessTemplate (template_env.truncate w) param (Some t))"

definition from_home :: "string \<Rightarrow> 'z file_backend_scheme \<Rightarrow> string" where
  "from_home path b = (if IsAbsolutePath path then path else Home b @ path)"

definition GetPathName :: "world \<Rightarrow> int \<Rightarrow> 'z file_backend_scheme \<Rightarrow> string option" where
  "GetPathName w i b =
     (if i < 0 \<or> i > 1 then Some [] else map_option (\<lambda>name. from_home name b) (expand w default_param (Name b)))"

text \<open>\<open>FileIo::Open\<close> with no timeout: the file is made when it does not exist, and emptied unless appended to.\<close>

definition open_file :: "world \<Rightarrow> string \<Rightarrow> 'z file_backend_scheme \<Rightarrow> 'z file_backend_scheme option" where
  "open_file w path b =
     (if \<not> Openable w path then None
      else
        let old = (case Files b path of None \<Rightarrow> [] | Some c \<Rightarrow> c); c = (if AppendMode b then old else [])
        in Some (b\<lparr>Files := (Files b)(path \<mapsto> c), OpenFile := Some path\<rparr>))"

definition opened :: "'z file_backend_scheme \<Rightarrow> 'z file_backend_scheme" where
  "opened b =
     (if \<not> AppendMode b then b\<lparr>CurrentSize := 0\<rparr>
      else
        (case OpenFile b of
           None \<Rightarrow> b
         | Some p \<Rightarrow> b\<lparr>CurrentSize := (case Files b p of None \<Rightarrow> 0 | Some c \<Rightarrow> length c)\<rparr>))"

text \<open>The second attempt comes after the directory of \<open>Name\<close> has been made.\<close>

definition CreateLog ::
  "world \<Rightarrow> string \<Rightarrow> 'z file_backend_scheme \<Rightarrow> ('z file_backend_scheme \<times> bool) option" where
  "CreateLog w v b =
     Option.bind (expand w default_param (c_str v)) (\<lambda>name.
       let b = CloseLog (b\<lparr>NameTemplate := c_str v, Name := from_home name b\<rparr>) in
       Option.bind (GetPathName w 0 b) (\<lambda>path.
         if \<not> PathMissing w path
         then
           (case open_file w path b of
              None \<Rightarrow> Some (report ''open failed'' b, False)
            | Some b \<Rightarrow> Some (opened b, True))
         else
           let dir = parent_path (Name b) in
           if dir = [] then Some (report ''open failed'' b, False)
           else if \<not> MakeDirs w dir then Some (report ''create_directories() failed'' b, False)
           else if parent_path path \<noteq> dir then Some (report ''open failed'' b, False)
           else
             (case open_file w path b of
                None \<Rightarrow> Some (report ''open failed'' b, False)
              | Some b \<Rightarrow> Some (opened b, True))))"

section \<open>Retention\<close>

definition clean_part :: "world \<Rightarrow> string \<Rightarrow> 'z file_backend_scheme \<Rightarrow> string option" where
  "clean_part w source b =
     Option.bind (expand w archive_param source) (\<lambda>re.
     Option.bind (ReplaceAll re TINDEX TDATETIME) (\<lambda>re. ReplaceDatetimePlaceholders (from_home re b)))"

text \<open>The existence of a file is read off the state unless the query itself fails.\<close>

definition archive_world :: "world \<Rightarrow> 'z file_backend_scheme \<Rightarrow> archive_env" where
  "archive_world w b = archive_env.truncate w
     \<lparr>FileExists := \<lambda>p. if FileExists w p = None then None else Some (Files b p \<noteq> None)\<rparr>"

definition Backend_BuildCleanPattern :: "world \<Rightarrow> 'z file_backend_scheme \<Rightarrow> string option" where
  "Backend_BuildCleanPattern w b =
     Option.bind (clean_part w (c_str (NameTemplate b)) b) (\<lambda>re.
     Option.bind
       (if Archive_IsEnabled (ArchivePolicy b)
        then map_option (\<lambda>arch. ''('' @ re @ '')|('' @ arch @ '')'') (BuildCleanPattern (archive_world w b) (ArchivePolicy b))
        else Some re) (\<lambda>re.
     Some (if GzipEnabled b then ''('' @ re @ '')('' @ [CHR 0x5C] @ ''.gz)?'' else re)))"

definition retention_options :: "'z file_backend_scheme \<Rightarrow> RetentionOptions" where
  "retention_options b =
     \<lparr>MaxFiles = nat (MaxParts b mod 2 ^ 64), MaxAgeMs = RetentionMaxAge b, MaxTotalSize = RetentionMaxTotalSize b\<rparr>"

definition clean_files :: "string \<Rightarrow> string \<Rightarrow> RetentionOptions \<Rightarrow> 'z file_backend_scheme \<Rightarrow> 'z file_backend_scheme" where
  "clean_files pattern keep options b = b\<lparr>BackendEvents := BackendEvents b @ [Cleaned pattern keep options]\<rparr>"

definition ApplyRetention :: "world \<Rightarrow> 'z file_backend_scheme \<Rightarrow> 'z file_backend_scheme option" where
  "ApplyRetention w b =
     (let retention = retention_options b in
      if RetentionOptions_IsEmpty retention then Some b
      else
        Option.bind (Backend_BuildCleanPattern w b) (\<lambda>pattern.
          let b = clean_files pattern (Name b) retention b in
          if \<not> Archive_IsEnabled (ArchivePolicy b) then Some b
          else
            Option.bind (BuildName (archive_world w b) (ArchivePolicy b) 0 (ArchiveTime (ArchivePolicy b))) (\<lambda>probe.
              if parent_path probe = [] \<or> parent_path probe = parent_path (Name b) then Some b
              else Some (clean_files pattern probe retention b))))"

definition SubmitCompletedFile :: "string \<Rightarrow> 'z file_backend_scheme \<Rightarrow> 'z file_backend_scheme" where
  "SubmitCompletedFile f b =
     (if \<not> GzipEnabled b \<or> \<not> Compression b then b else b\<lparr>BackendEvents := BackendEvents b @ [Submitted f]\<rparr>)"

section \<open>Completing the current file\<close>

text \<open>The retry of \<open>CompleteCurrentFile\<close>: whatever \<open>Append\<close> says, the current log is gone on with.\<close>

definition reopenCurrentLog :: "world \<Rightarrow> 'z file_backend_scheme \<Rightarrow> 'z file_backend_scheme option" where
  "reopenCurrentLog w b =
     map_option (\<lambda>(b', ok). b'\<lparr>AppendMode := AppendMode b\<rparr>) (CreateLog w (NameTemplate b) (b\<lparr>AppendMode := True\<rparr>))"

definition rename_file ::
  "world \<Rightarrow> string \<Rightarrow> string \<Rightarrow> 'z file_backend_scheme \<Rightarrow> 'z file_backend_scheme option" where
  "rename_file w old new b =
     (case Files b old of
        None \<Rightarrow> None
      | Some c \<Rightarrow> if Renamable w old new then Some (b\<lparr>Files := (Files b)(old := None, new \<mapsto> c)\<rparr>) else None)"

text \<open>From the creation of the new log on.\<close>

definition finish_completion ::
  "world \<Rightarrow> FileCompletionReason \<Rightarrow> bool \<Rightarrow> string \<Rightarrow> string \<Rightarrow> 'z file_backend_scheme \<Rightarrow>
     ('z file_backend_scheme \<times> bool) option" where
  "finish_completion w reason applyRetention oldName completedName b =
     Option.bind (CreateLog w (NameTemplate b) b) (\<lambda>(b, ok).
       if \<not> ok then Some (report ''failed to create a new log'' b, False)
       else
         let completedName =
           (if \<not> Archive_IsEnabled (ArchivePolicy b) \<and> reason = FILE_COMPLETION_TIME_LIMIT \<and> oldName \<noteq> [] \<and>
               oldName \<noteq> Name b
            then oldName else completedName) in
         Option.bind
           (SetTime (archive_world w b) (GetArchiveTime (CurrentTime w) (TimeRotationPolicy b)) (ArchivePolicy b)) (\<lambda>policy.
             let b = b\<lparr>ArchivePolicy := policy\<rparr>;
                 b = (if completedName \<noteq> [] then SubmitCompletedFile completedName b else b) in
             if applyRetention then map_option (\<lambda>b. (b, True)) (ApplyRetention w b) else Some (b, True)))"

definition CompleteCurrentFile ::
  "world \<Rightarrow> FileCompletionReason \<Rightarrow> bool \<Rightarrow> int \<Rightarrow> 'z file_backend_scheme \<Rightarrow> ('z file_backend_scheme \<times> bool) option" where
  "CompleteCurrentFile w reason applyRetention completedArchiveTime b =
     (let oldName = Name b;
          completedArchiveTime =
            (if completedArchiveTime \<noteq> 0 then completedArchiveTime
             else if ArchiveTime (ArchivePolicy b) \<noteq> 0 then ArchiveTime (ArchivePolicy b)
             else GetArchiveTime (CurrentTime w) (TimeRotationPolicy b)) in
      if oldName \<noteq> [] \<and> Archive_IsEnabled (ArchivePolicy b)
      then
        Option.bind (TakeName (archive_world w b) completedArchiveTime (ArchivePolicy b)) (\<lambda>(policy, completedName).
          let b = CloseLog (b\<lparr>ArchivePolicy := policy\<rparr>); dir = parent_path completedName in
          if dir \<noteq> [] \<and> \<not> MakeDirs w dir
          then map_option (\<lambda>b. (b, False)) (reopenCurrentLog w (report ''failed to create archive directory'' b))
          else
            (case rename_file w oldName completedName b of
               None \<Rightarrow> map_option (\<lambda>b. (b, False)) (reopenCurrentLog w (report ''failed to rename log file to archive'' b))
             | Some b \<Rightarrow> finish_completion w reason applyRetention oldName completedName b))
      else if reason = FILE_COMPLETION_SIZE_LIMIT
      then Some (report ''file size limit rotate requested without archive template'' b, False)
      else finish_completion w reason applyRetention oldName [] b)"

definition ChangePart :: "world \<Rightarrow> bool \<Rightarrow> 'z file_backend_scheme \<Rightarrow> ('z file_backend_scheme \<times> bool) option" where
  "ChangePart w applyRetention b =
     CompleteCurrentFile w FILE_COMPLETION_TIME_LIMIT applyRetention
       (GetArchiveTime (CurrentTime w) (TimeRotationPolicy b)) b"

section \<open>Configuration\<close>

record file_config =
  CfgAsync :: bool
  CfgAppend :: bool
  CfgMaxSize :: nat
  CfgOnSizeLimit :: SizeLimitPolicy
  CfgFilename :: string
  CfgArchiveFilename :: string
  CfgDailyRotation :: bool
  CfgTimeRotation :: TimeRotationMode
  CfgMaxParts :: int
  CfgRetentionMaxAge :: u64
  CfgRetentionMaxTotalSize :: u64
  CfgRetentionCleanOnStart :: bool
  CfgGzipCompression :: bool

definition config_rotation :: "file_config \<Rightarrow> TimeRotationMode" where
  "config_rotation p =
     (if CfgTimeRotation p = TIME_ROTATION_NONE \<and> CfgDailyRotation p then TIME_ROTATION_DAILY else CfgTimeRotation p)"

definition configured :: "world \<Rightarrow> file_config \<Rightarrow> 'z file_backend_scheme \<Rightarrow> 'z file_backend_scheme" where
  "configured w p b =
     b\<lparr>AsyncMode := CfgAsync p,
       AppendMode := (if config_rotation p \<noteq> TIME_ROTATION_NONE then True else CfgAppend p),
       MaxSize := CfgMaxSize p, OnSizeLimit := CfgOnSizeLimit p,
       ArchivePolicy := Archive_Configure (CfgArchiveFilename p) (Home b) (CfgGzipCompression p) (ArchivePolicy b),
       TimeRotationPolicy := Rotation_Configure (Cal w) (config_rotation p) (CurrentTime w) (TimeRotationPolicy b),
       MaxParts := CfgMaxParts p, RetentionMaxAge := CfgRetentionMaxAge p,
       RetentionMaxTotalSize := CfgRetentionMaxTotalSize p, RetentionCleanOnStart := CfgRetentionCleanOnStart p,
       GzipEnabled := CfgGzipCompression p, Compression := CfgGzipCompression p, NameTemplate := CfgFilename p\<rparr>"

definition ApplyConfig ::
  "world \<Rightarrow> file_config \<Rightarrow> 'z file_backend_scheme \<Rightarrow> ('z file_backend_scheme \<times> bool) option" where
  "ApplyConfig w p b =
     (let b = configured w p b in
      Option.bind
        (SetTime (archive_world w b) (GetArchiveTime (CurrentTime w) (TimeRotationPolicy b)) (ArchivePolicy b))
        (\<lambda>policy. let b = b\<lparr>ArchivePolicy := policy\<rparr> in ChangePart w (RetentionCleanOnStart b) b))"

definition FormatDetails :: "nat \<Rightarrow> 'z file_backend_scheme \<Rightarrow> string" where
  "FormatDetails memoryUsage b =
     NameTemplate b @ (if AppendMode b then '' APPEND'' else '' OVERWRITE'') @
     '' MaxSize='' @ show_nat (MaxSize b) @
     '' OnSizeLimit='' @ (if OnSizeLimit b = SIZE_LIMIT_ROTATE then ''ROTATE'' else ''TRUNCATE'') @
     (if Archive_IsEnabled (ArchivePolicy b) then '' Archive='' @ ArchiveTemplate (ArchivePolicy b) else []) @
     '' Rotation='' @ GetModeName (Mode (TimeRotationPolicy b)) @
     '' MaxParts='' @ show_int (MaxParts b) @
     (if RetentionMaxAge b \<noteq> 0 then '' RetentionMaxAge='' @ show_nat (unat (RetentionMaxAge b)) else []) @
     (if RetentionMaxTotalSize b \<noteq> 0 then '' RetentionMaxTotalSize='' @ show_nat (unat (RetentionMaxTotalSize b)) else []) @
     '' GzipCompression='' @ (if GzipEnabled b then ''YES'' else ''NO'') @
     '' Async='' @ (if AsyncMode b then ''YES'' else ''NO'') @
     (if memoryUsage \<noteq> 0 then '' Memory='' @ show_nat memoryUsage else [])"

section \<open>The size limit\<close>

definition Truncate :: "'z file_backend_scheme \<Rightarrow> 'z file_backend_scheme option" where
  "Truncate b =
     (if MaxSize b = 0 \<or> CurrentSize b < MaxSize b then Some b
      else
        (case OpenFile b of
           None \<Rightarrow> Some b
         | Some p \<Rightarrow>
             map_option (\<lambda>c. b\<lparr>Files := (Files b)(p \<mapsto> c), CurrentSize := length c\<rparr>)
               (TruncateToMaxSize (MaxSize b) (case Files b p of None \<Rightarrow> [] | Some c \<Rightarrow> c))))"

definition ApplySizeLimit ::
  "world \<Rightarrow> nat \<Rightarrow> 'z file_backend_scheme \<Rightarrow> ('z file_backend_scheme \<times> bool) option" where
  "ApplySizeLimit w add b =
     (if MaxSize b = 0 then Some (b, True)
      else if OnSizeLimit b = SIZE_LIMIT_ROTATE
      then (if CurrentSize b + add \<le> MaxSize b then Some (b, True)
            else CompleteCurrentFile w FILE_COMPLETION_SIZE_LIMIT True 0 b)
      else map_option (\<lambda>b. (b, True)) (Truncate b))"

section \<open>Writing\<close>

text \<open>A write to the open file; without one the descriptor is bad and the call fails.\<close>

definition write_open ::
  "(io \<Rightarrow> int call) \<Rightarrow> 'z file_backend_scheme \<Rightarrow> ('z file_backend_scheme \<times> int) option" where
  "write_open writer b =
     (case OpenFile b of
        None \<Rightarrow> Some (b, -1)
      | Some p \<Rightarrow>
          (case writer \<lparr>Disk = (case Files b p of None \<Rightarrow> [] | Some c \<Rightarrow> c), Answers = SysAnswers b, IoError = 0\<rparr> of
             Returned t rc \<Rightarrow> Some (b\<lparr>Files := (Files b)(p \<mapsto> Disk t), SysAnswers := Answers t\<rparr>, rc)
           | Waiting t \<Rightarrow> None
           | Overrun \<Rightarrow> None))"

definition grow :: "int \<Rightarrow> 'z file_backend_scheme \<Rightarrow> 'z file_backend_scheme" where
  "grow rc b = b\<lparr>CurrentSize := CurrentSize b + nat rc\<rparr>"

text \<open>\<open>AppendOutputData\<close> in synchronous mode: the number of bytes written.\<close>

definition append_sync :: "world \<Rightarrow> string \<Rightarrow> 'z file_backend_scheme \<Rightarrow> ('z file_backend_scheme \<times> nat) option" where
  "append_sync w txt b =
     (if ShutdownFlag b \<or> txt = [] then Some (b, 0)
      else
        Option.bind (ApplySizeLimit w (length txt) b) (\<lambda>(b, ok).
          if \<not> ok then Some (b, 0)
          else
            Option.bind (write_open (WriteAll txt) b) (\<lambda>(b, rc).
              if rc < 0 then Some (b, 0) else Some (grow rc b, nat rc))))"

text \<open>The text or its obfuscated record, empty when that cannot be made.\<close>

definition outgoing :: "string \<Rightarrow> 'z file_backend_scheme \<Rightarrow> 'z file_backend_scheme \<times> string" where
  "outgoing txt b =
     (case AppendObfuscated (ObfuscationKey b) (map (\<lambda>c. of_nat (of_char c)) txt) (Nonce b) of
        (gen, bytes) \<Rightarrow> (b\<lparr>Nonce := gen\<rparr>, map (\<lambda>x. char_of (unat x)) bytes))"

text \<open>The check of \<open>Display\<close> for a completed period; the flag tells whether to go on.\<close>

definition rotate_by_time :: "world \<Rightarrow> 'z file_backend_scheme \<Rightarrow> ('z file_backend_scheme \<times> bool) option" where
  "rotate_by_time w b =
     (case ShouldRotate (Cal w) (CurrentTime w) (TimeRotationPolicy b) of
        (policy, None) \<Rightarrow> Some (b\<lparr>TimeRotationPolicy := policy\<rparr>, True)
      | (policy, Some completedArchiveTime) \<Rightarrow>
          CompleteCurrentFile w FILE_COMPLETION_TIME_LIMIT True completedArchiveTime (b\<lparr>TimeRotationPolicy := policy\<rparr>))"

text \<open>\<open>Display\<close> in synchronous mode with the text the context produced (\<open>None\<close> is a null pointer): the
  bytes of output to be recorded.\<close>

definition Display_sync ::
  "world \<Rightarrow> string option \<Rightarrow> 'z file_backend_scheme \<Rightarrow> ('z file_backend_scheme \<times> nat) option" where
  "Display_sync w buffer b =
     (if \<not> IsLogOpen b \<or> ShutdownFlag b then Some (b, 0)
      else
        Option.bind (rotate_by_time w b) (\<lambda>(b, ok).
          if \<not> ok then Some (b, 0)
          else
            (case buffer of
               None \<Rightarrow> Some (b, 0)
             | Some txt \<Rightarrow> (case outgoing txt b of (b, out) \<Rightarrow> append_sync w out b))))"

fun display_all ::
  "(world \<times> string option) list \<Rightarrow> 'z file_backend_scheme \<Rightarrow> ('z file_backend_scheme \<times> nat list) option" where
  "display_all [] b = Some (b, [])"
| "display_all ((w, t) # calls) b =
     Option.bind (Display_sync w t b) (\<lambda>(b, n). map_option (\<lambda>(b, ns). (b, n # ns)) (display_all calls b))"

section \<open>Writing a batch\<close>

record tally =
  TalOperations :: nat
  TalWrittenBuffers :: nat
  TalWrittenBytes :: nat
  TalFailedOperations :: nat
  TalFailedBuffers :: nat
  TalFailedBytes :: nat

definition no_tally :: tally where
  "no_tally = \<lparr>TalOperations = 0, TalWrittenBuffers = 0, TalWrittenBytes = 0, TalFailedOperations = 0,
     TalFailedBuffers = 0, TalFailedBytes = 0\<rparr>"

definition WRITEV_CHUNK :: nat where
  "WRITEV_CHUNK = 256"

text \<open>The local function \<open>writeVector\<close>; the flag of the batch and its tally, kept only for statistics.\<close>

definition writeVector ::
  "bool \<Rightarrow> string list \<Rightarrow> 'z file_backend_scheme \<times> bool \<times> tally \<Rightarrow> ('z file_backend_scheme \<times> bool \<times> tally) option" where
  "writeVector collect iov s =
     (case s of (b, ok, t) \<Rightarrow>
        if iov = [] then Some (b, ok, t)
        else
          let inputBytes = length (concat iov);
              t = (if collect then t\<lparr>TalOperations := TalOperations t + 1\<rparr> else t) in
          Option.bind (write_open (if length iov = 1 then WriteAll (hd iov) else WriteAllVector iov) b) (\<lambda>(b, rc).
            if rc < 0
            then Some (b, False,
                   if collect
                   then t\<lparr>TalFailedOperations := TalFailedOperations t + 1,
                          TalFailedBuffers := TalFailedBuffers t + length iov,
                          TalFailedBytes := TalFailedBytes t + inputBytes\<rparr>
                   else t)
            else Some (grow rc b, ok,
                   if collect
                   then t\<lparr>TalWrittenBuffers := TalWrittenBuffers t + length iov,
                          TalWrittenBytes := TalWrittenBytes t + nat rc\<rparr>
                   else t)))"

fun batch_loop ::
  "bool \<Rightarrow> string list \<Rightarrow> string list \<Rightarrow> 'z file_backend_scheme \<times> bool \<times> tally \<Rightarrow>
     ('z file_backend_scheme \<times> bool \<times> tally) option" where
  "batch_loop collect iov [] s = writeVector collect iov s"
| "batch_loop collect iov (d # data) s =
     (let iov = iov @ [d] in
      if length iov = WRITEV_CHUNK
      then Option.bind (writeVector collect iov s) (batch_loop collect [] data)
      else batch_loop collect iov data s)"

text \<open>The part of \<open>WriteReadyData\<close> under the I/O lock, on the contents of the buffers it has taken.\<close>

definition write_batch ::
  "world \<Rightarrow> bool \<Rightarrow> string list \<Rightarrow> 'z file_backend_scheme \<Rightarrow> ('z file_backend_scheme \<times> bool \<times> tally) option" where
  "write_batch w collect data b =
     (let bytes = length (concat data) in
      Option.bind (ApplySizeLimit w bytes b) (\<lambda>(b, fits).
        if \<not> fits
        then Some (b, False,
               if collect then no_tally\<lparr>TalFailedBuffers := length data, TalFailedBytes := bytes\<rparr> else no_tally)
        else batch_loop collect [] data (b, True, no_tally)))"

definition batch_report :: "string list \<Rightarrow> tally \<Rightarrow> write_report" where
  "batch_report data t =
     \<lparr>RepBatchBuffers = of_nat (length data), RepBatchBytes = of_nat (length (concat data)),
      RepWriteOperations = of_nat (TalOperations t), RepWrittenBuffers = of_nat (TalWrittenBuffers t),
      RepWrittenBytes = of_nat (TalWrittenBytes t), RepFailedOperations = of_nat (TalFailedOperations t),
      RepFailedBuffers = of_nat (TalFailedBuffers t), RepFailedBytes = of_nat (TalFailedBytes t)\<rparr>"

section \<open>Nothing is lost\<close>

text \<open>Every file lives on, perhaps under another name and with more behind it, and no two as one.\<close>

definition kept :: "(string \<rightharpoonup> string) \<Rightarrow> (string \<rightharpoonup> string) \<Rightarrow> bool" where
  "kept F F' \<longleftrightarrow> (\<exists>f. inj_on f (dom F) \<and> (\<forall>p d. F p = Some d \<longrightarrow> (\<exists>t. F' (f p) = Some (d @ t))))"

definition stored :: "(string \<rightharpoonup> string) \<Rightarrow> nat" where
  "stored F = (\<Sum>p\<in>dom F. length (the (F p)))"

definition grew :: "(string \<rightharpoonup> string) \<Rightarrow> nat \<Rightarrow> (string \<rightharpoonup> string) \<Rightarrow> bool" where
  "grew F n F' \<longleftrightarrow> kept F F' \<and> (finite (dom F) \<longrightarrow> finite (dom F') \<and> stored F' = stored F + n)"

lemma kept_trans:
  assumes "kept F G" and "kept G H"
  shows "kept F H"
proof -
  from assms(1) obtain f where f: "inj_on f (dom F)" "\<And>p d. F p = Some d \<Longrightarrow> \<exists>t. G (f p) = Some (d @ t)"
    unfolding kept_def by blast
  from assms(2) obtain g where g: "inj_on g (dom G)" "\<And>p d. G p = Some d \<Longrightarrow> \<exists>t. H (g p) = Some (d @ t)"
    unfolding kept_def by blast
  have "f ` dom F \<subseteq> dom G" using f(2) by fast
  then have "inj_on (g \<circ> f) (dom F)" by (intro comp_inj_on f(1) inj_on_subset [OF g(1)])
  moreover have "\<exists>t. H ((g \<circ> f) p) = Some (d @ t)" if "F p = Some d" for p d
    using f(2) [OF that] g(2) by (metis append_assoc comp_apply)
  ultimately show ?thesis unfolding kept_def by blast
qed

lemma stored_add: "finite (dom F) \<Longrightarrow> F p = None \<Longrightarrow> stored (F(p \<mapsto> t)) = stored F + length t"
proof -
  assume "finite (dom F)" "F p = None"
  moreover have "(\<Sum>q\<in>dom F. length (the ((F(p \<mapsto> t)) q))) = stored F"
    unfolding stored_def using \<open>F p = None\<close> by (intro sum.cong) auto
  ultimately show ?thesis by (simp add: stored_def domIff)
qed

lemma stored_delete: "finite (dom F) \<Longrightarrow> F p = Some c \<Longrightarrow> stored F = stored (F(p := None)) + length c"
  using stored_add [of "F(p := None)" p c] by (simp add: fun_upd_idem)

lemma grew_refl [simp]: "grew F 0 F"
  by (auto simp: grew_def kept_def intro: exI [of _ id])

lemma grew_trans: "grew F m G \<Longrightarrow> grew G n H \<Longrightarrow> grew F (m + n) H"
  by (auto simp: grew_def intro: kept_trans)

lemma grew_0_trans: "grew F 0 G \<Longrightarrow> grew G n H \<Longrightarrow> grew F n H" "grew F n G \<Longrightarrow> grew G 0 H \<Longrightarrow> grew F n H"
  using grew_trans [of F 0 G n H] grew_trans [of F n G 0 H] by simp_all

lemma grew_append:
  assumes "F p = Some c"
  shows "grew F (length t) (F(p \<mapsto> c @ t))"
proof -
  have "kept F (F(p \<mapsto> c @ t))" using assms unfolding kept_def by (intro exI [of _ id]) auto
  moreover have "stored (F(p \<mapsto> c @ t)) = stored F + length t" if "finite (dom F)"
    using stored_delete [OF that assms] stored_add [of "F(p := None)" p "c @ t"] that by simp
  ultimately show ?thesis by (simp add: grew_def)
qed

lemma grew_create: "F p = None \<Longrightarrow> grew F 0 (F(p \<mapsto> []))"
  using stored_add [of F p "[]"] by (auto simp: grew_def kept_def intro!: exI [of _ id])

lemma grew_rename:
  assumes "F old = Some c" and "F new = None"
  shows "grew F 0 (F(old := None, new \<mapsto> c))"
proof -
  have "inj_on (id(old := new)) (dom F)" using assms by (auto simp: inj_on_def)
  then have "kept F (F(old := None, new \<mapsto> c))"
    unfolding kept_def using assms by (intro exI [of _ "id(old := new)"]) auto
  moreover have "stored (F(old := None, new \<mapsto> c)) = stored F" if "finite (dom F)"
    using stored_delete [OF that assms(1)] stored_add [of "F(old := None)" new c] that assms by (auto simp: fun_upd_twist)
  ultimately show ?thesis by (simp add: grew_def)
qed

section \<open>Operations that only move files\<close>

definition file_settings :: "'z file_backend_scheme \<Rightarrow> bool \<times> nat \<times> SizeLimitPolicy \<times> answer list" where
  "file_settings b = (AppendMode b, MaxSize b, OnSizeLimit b, SysAnswers b)"

definition live :: "'z file_backend_scheme \<Rightarrow> bool" where
  "live b \<longleftrightarrow> (\<forall>p. OpenFile b = Some p \<longrightarrow> Files b p \<noteq> None)"

definition moved :: "'z file_backend_scheme \<Rightarrow> 'z file_backend_scheme \<Rightarrow> bool" where
  "moved b b' \<longleftrightarrow> grew (Files b) 0 (Files b') \<and> (live b \<longrightarrow> live b') \<and> file_settings b' = file_settings b"

lemma moved_refl [simp]: "moved b b"
  by (simp add: moved_def)

lemma moved_trans: "moved b b' \<Longrightarrow> moved b' b'' \<Longrightarrow> moved b b''"
  by (auto simp: moved_def intro: grew_0_trans)

lemma moved_frame:
  "Files b' = Files b \<Longrightarrow> OpenFile b' = OpenFile b \<or> OpenFile b' = None \<Longrightarrow> file_settings b' = file_settings b \<Longrightarrow> moved b b'"
  by (auto simp: moved_def live_def)

lemma moved_AppendMode: "moved b b' \<Longrightarrow> AppendMode b' = AppendMode b"
  by (simp add: moved_def file_settings_def)

lemma moved_report [simp]: "moved b (report m b)"
  by (rule moved_frame) (simp_all add: report_def file_settings_def)

lemma moved_CloseLog [simp]: "moved b (CloseLog b)"
  by (rule moved_frame) (simp_all add: CloseLog_def file_settings_def)

lemma moved_open_file:
  assumes "open_file w p b = Some b'" and "AppendMode b"
  shows "moved b (opened b') \<and> OpenFile (opened b') \<noteq> None"
proof -
  let ?c = "case Files b p of None \<Rightarrow> [] | Some c \<Rightarrow> c"
  have b': "b' = b\<lparr>Files := (Files b)(p \<mapsto> ?c), OpenFile := Some p\<rparr>"
    using assms by (auto simp: open_file_def Let_def split: if_splits)
  have "grew (Files b) 0 ((Files b)(p \<mapsto> ?c))"
  proof (cases "Files b p")
    case (Some c)
    then have "(Files b)(p \<mapsto> ?c) = Files b" by (simp add: fun_upd_idem)
    then show ?thesis by simp
  qed (simp add: grew_create)
  then show ?thesis using assms(2) by (simp add: b' opened_def moved_def live_def file_settings_def)
qed

lemma moved_CreateLog:
  assumes "CreateLog w v b = Some (b', ok)" and "AppendMode b"
  shows "moved b b' \<and> (ok \<longrightarrow> OpenFile b' \<noteq> None)"
proof -
  obtain name where "expand w default_param (c_str v) = Some name"
    using assms(1) by (cases "expand w default_param (c_str v)") (simp_all add: CreateLog_def)
  let ?b = "CloseLog (b\<lparr>NameTemplate := c_str v, Name := from_home name b\<rparr>)"
  have b: "moved b ?b" and a: "AppendMode ?b"
    using assms(2) by (auto simp: CloseLog_def file_settings_def intro!: moved_frame)
  from assms(1) consider m where "b' = report m ?b" "\<not> ok"
    | p b1 where "open_file w p ?b = Some b1" "b' = opened b1"
    by (auto simp: CreateLog_def Let_def bind_eq_Some_conv \<open>expand w default_param (c_str v) = Some name\<close>
        split: if_splits option.splits)
  then show ?thesis
    using b moved_open_file [OF _ a] by cases (auto intro: moved_trans)
qed

lemma moved_reopen:
  assumes "reopenCurrentLog w b = Some b'"
  shows "moved b b'"
proof -
  from assms obtain b1 ok where "CreateLog w (NameTemplate b) (b\<lparr>AppendMode := True\<rparr>) = Some (b1, ok)"
    and b': "b' = b1\<lparr>AppendMode := AppendMode b\<rparr>"
    by (auto simp: reopenCurrentLog_def)
  from moved_CreateLog [OF this(1)] have "moved (b\<lparr>AppendMode := True\<rparr>) b1" by simp
  then show ?thesis by (simp add: b' moved_def live_def file_settings_def)
qed

lemma moved_events [simp]:
  "moved b (clean_files pattern keep options b)" "moved b (SubmitCompletedFile f b)"
  "moved b (b\<lparr>ArchivePolicy := a\<rparr>)" "moved b (b\<lparr>TimeRotationPolicy := r\<rparr>)" "moved b (b\<lparr>Nonce := x\<rparr>)"
  by (auto simp: clean_files_def SubmitCompletedFile_def file_settings_def intro!: moved_frame)

lemma moved_twice [simp]:
  "moved b (clean_files p' k' o' (clean_files p k o1 b))" "moved b (SubmitCompletedFile f (b\<lparr>ArchivePolicy := a\<rparr>))"
  by (rule moved_trans [OF moved_events(1) moved_events(1)], rule moved_trans [OF moved_events(3) moved_events(2)])

lemma moved_ApplyRetention: "ApplyRetention w b = Some b' \<Longrightarrow> moved b b'"
  by (auto simp: ApplyRetention_def Let_def bind_eq_Some_conv split: if_splits)

lemma moved_rename_file:
  assumes "rename_file w old new b = Some b'" and "Files b new = None" and "OpenFile b = None"
  shows "moved b b'"
  using assms by (auto simp: rename_file_def moved_def live_def file_settings_def grew_rename split: option.splits if_splits)

lemma TakeName_new:
  assumes "TakeName (archive_world w b) t a = Some (c, n)"
  shows "Files b n = None"
proof -
  let ?env = "archive_world w b"
  from assms obtain x i where "take_loop ?env x (ArchiveIndex x + 1) = Some (i, n)"
    by (auto simp: TakeName_def bind_eq_Some_conv)
  from take_loop_sound [OF this] have "\<not> NameExists ?env n" by blast
  then show ?thesis by (auto simp: NameExists_def archive_world_def split: option.splits if_splits bool.splits)
qed

lemma moved_finish:
  assumes "finish_completion w r ret old new b = Some (b', ok)" and "AppendMode b"
  shows "moved b b'"
proof -
  from assms(1) obtain b1 ok1 where b1: "CreateLog w (NameTemplate b) b = Some (b1, ok1)"
    by (auto simp: finish_completion_def bind_eq_Some_conv)
  have m: "moved b b1" using moved_CreateLog [OF b1 assms(2)] by simp
  show ?thesis
  proof (cases ok1)
    case False
    then show ?thesis using assms(1) moved_trans [OF m moved_report] by (auto simp: finish_completion_def b1)
  next
    case True
    let ?c = "if \<not> Archive_IsEnabled (ArchivePolicy b1) \<and> r = FILE_COMPLETION_TIME_LIMIT \<and> old \<noteq> [] \<and> old \<noteq> Name b1 then old else new"
    obtain a where a: "SetTime (archive_world w b1) (GetArchiveTime (CurrentTime w) (TimeRotationPolicy b1)) (ArchivePolicy b1) = Some a"
      using assms(1) True
      by (cases "SetTime (archive_world w b1) (GetArchiveTime (CurrentTime w) (TimeRotationPolicy b1)) (ArchivePolicy b1)")
        (auto simp: finish_completion_def b1 Let_def)
    define b2 where "b2 = (if ?c \<noteq> [] then SubmitCompletedFile ?c (b1\<lparr>ArchivePolicy := a\<rparr>) else b1\<lparr>ArchivePolicy := a\<rparr>)"
    have "moved b1 b2" by (simp add: b2_def)
    moreover have "(if ret then map_option (\<lambda>b. (b, True)) (ApplyRetention w b2) else Some (b2, True)) = Some (b', ok)"
      using assms(1) True unfolding finish_completion_def b1 b2_def Let_def by (simp only: Option.bind.simps prod.case a simp_thms if_False)
    ultimately have "moved b1 b'" by (cases ret) (auto dest: moved_ApplyRetention intro: moved_trans)
    then show ?thesis by (rule moved_trans [OF m])
  qed
qed

lemma moved_CompleteCurrentFile:
  assumes "CompleteCurrentFile w r ret t b = Some (b', ok)" and "AppendMode b"
  shows "moved b b'"
proof (cases "Name b \<noteq> [] \<and> Archive_IsEnabled (ArchivePolicy b)")
  case False
  then show ?thesis using assms moved_finish [of w r ret] by (auto simp: CompleteCurrentFile_def Let_def split: if_splits)
next
  case True
  let ?t = "if t \<noteq> 0 then t else if ArchiveTime (ArchivePolicy b) \<noteq> 0 then ArchiveTime (ArchivePolicy b)
    else GetArchiveTime (CurrentTime w) (TimeRotationPolicy b)"
  obtain a n where take: "TakeName (archive_world w b) ?t (ArchivePolicy b) = Some (a, n)"
    using assms(1) True by (cases "TakeName (archive_world w b) ?t (ArchivePolicy b)") (auto simp: CompleteCurrentFile_def Let_def)
  let ?b = "CloseLog (b\<lparr>ArchivePolicy := a\<rparr>)"
  have closed: "moved b ?b" "AppendMode ?b" "Files ?b n = None" "OpenFile ?b = None"
    using assms(2) TakeName_new [OF take] moved_trans [OF moved_events(3) moved_CloseLog] by (auto simp: CloseLog_def)
  consider m where "reopenCurrentLog w (report m ?b) = Some b'"
    | b1 where "rename_file w (Name b) n ?b = Some b1" "finish_completion w r ret (Name b) n b1 = Some (b', ok)"
    using assms(1) True take
    by (auto simp: CompleteCurrentFile_def Let_def simp del: if_split split: if_split_asm option.split_asm)
  then show ?thesis
  proof cases
    case 1
    then show ?thesis using moved_reopen closed(1) moved_report moved_trans by metis
  next
    case 2
    note m = moved_rename_file [OF 2(1) closed(3,4)]
    show ?thesis using moved_finish [OF 2(2)] moved_AppendMode [OF m] closed(1,2) m moved_trans by metis
  qed
qed

lemma moved_rotate_by_time: "rotate_by_time w b = Some (b', ok) \<Longrightarrow> AppendMode b \<Longrightarrow> moved b b'"
  using moved_trans [OF moved_events(4)] moved_CompleteCurrentFile
  by (fastforce simp: rotate_by_time_def split: prod.splits option.splits)

definition rotating :: "'z file_backend_scheme \<Rightarrow> bool" where
  "rotating b \<longleftrightarrow> MaxSize b = 0 \<or> OnSizeLimit b = SIZE_LIMIT_ROTATE"

lemma moved_ApplySizeLimit:
  "ApplySizeLimit w add b = Some (b', ok) \<Longrightarrow> AppendMode b \<Longrightarrow> rotating b \<Longrightarrow> moved b b'"
  by (auto simp: ApplySizeLimit_def rotating_def split: if_splits dest: moved_CompleteCurrentFile)

section \<open>Operations that write\<close>

text \<open>At least \<open>n\<close> bytes more are stored, and no more than that unless the system refuses a write.\<close>

definition wrote :: "'z file_backend_scheme \<Rightarrow> nat \<Rightarrow> 'z file_backend_scheme \<Rightarrow> bool" where
  "wrote b n b' \<longleftrightarrow> (live b \<longrightarrow> live b') \<and> (AppendMode b', MaxSize b', OnSizeLimit b') = (AppendMode b, MaxSize b, OnSizeLimit b) \<and>
     (\<exists>m \<ge> n. grew (Files b) m (Files b') \<and>
        (\<not> refusing (SysAnswers b) \<longrightarrow> m = n \<and> \<not> refusing (SysAnswers b')))"

lemma wrote_moved: "moved b b' \<Longrightarrow> wrote b 0 b'"
  by (auto simp: wrote_def moved_def file_settings_def)

lemma wrote_trans:
  assumes "wrote b m b1" and "wrote b1 n b'"
  shows "wrote b (m + n) b'"
proof -
  from assms(1) obtain i where i: "i \<ge> m" "grew (Files b) i (Files b1)"
    "\<not> refusing (SysAnswers b) \<longrightarrow> i = m \<and> \<not> refusing (SysAnswers b1)" unfolding wrote_def by blast
  from assms(2) obtain j where j: "j \<ge> n" "grew (Files b1) j (Files b')"
    "\<not> refusing (SysAnswers b1) \<longrightarrow> j = n \<and> \<not> refusing (SysAnswers b')" unfolding wrote_def by blast
  have "grew (Files b) (i + j) (Files b')" using grew_trans i(2) j(2) by blast
  then show ?thesis using assms i j unfolding wrote_def by (auto intro!: exI [of _ "i + j"])
qed

lemma wrote_same: "Files b' = Files b \<Longrightarrow> OpenFile b' = OpenFile b \<Longrightarrow> SysAnswers b' = SysAnswers b \<Longrightarrow>
    (AppendMode b', MaxSize b', OnSizeLimit b') = (AppendMode b, MaxSize b, OnSizeLimit b) \<Longrightarrow> wrote b 0 b'"
  by (auto simp: wrote_def live_def intro!: exI [of _ 0])

lemma write_open_cases:
  assumes "write_open writer b = Some (b', rc)" and "live b"
    and "\<And>s. outcome p 0 (Disk s) (Answers s) (writer s)"
  obtains (closed) "OpenFile b = None" "b' = b" "rc = -1"
  | (complete) path c as where "OpenFile b = Some path" "Files b path = Some c" "rc = int (length p)"
      "b' = b\<lparr>Files := (Files b)(path \<mapsto> c @ p), SysAnswers := as\<rparr>" "set as \<subseteq> set (SysAnswers b)"
  | (failed) path c k as where "OpenFile b = Some path" "Files b path = Some c" "rc = -1" "k < length p" "refusing (SysAnswers b)"
      "b' = b\<lparr>Files := (Files b)(path \<mapsto> c @ take k p), SysAnswers := as\<rparr>"
proof (cases "OpenFile b")
  case None
  then have "Some (b, -1) = Some (b', rc)" using assms(1) by (simp add: write_open_def)
  then have "b' = b" "rc = -1" by simp_all
  with None show ?thesis by (rule closed)
next
  case (Some path)
  then obtain c where c: "Files b path = Some c" using assms(2) by (auto simp: live_def)
  let ?s = "\<lparr>Disk = c, Answers = SysAnswers b, IoError = 0\<rparr>"
  have w: "write_open writer b = (case writer ?s of
      Returned t rc \<Rightarrow> Some (b\<lparr>Files := (Files b)(path \<mapsto> Disk t), SysAnswers := Answers t\<rparr>, rc)
    | Waiting t \<Rightarrow> None | Overrun \<Rightarrow> None)"
    unfolding write_open_def Some option.case c ..
  obtain t where t: "writer ?s = Returned t rc"
    and b': "b' = b\<lparr>Files := (Files b)(path \<mapsto> Disk t), SysAnswers := Answers t\<rparr>"
    using assms(1) unfolding w by (cases "writer ?s") simp_all
  from assms(3) [of ?s] t consider "rc = int (length p)" "Disk t = c @ p" "set (Answers t) \<subseteq> set (SysAnswers b)"
    | k where "rc = -1" "k < length p" "Disk t = c @ take k p" "refusing (SysAnswers b)" by auto
  then show ?thesis
  proof cases
    case 1
    then show ?thesis using complete [OF Some c 1(1)] b' unfolding 1(2) by blast
  next
    case 2
    then show ?thesis using failed [OF Some c 2(1,2,4)] b' unfolding 2(3) by blast
  qed
qed

lemma wrote_write_open:
  assumes "write_open writer b = Some (b', rc)" and "live b"
    and "\<And>s. outcome p 0 (Disk s) (Answers s) (writer s)"
  shows "wrote b (nat rc) b' \<and> wrote b (nat rc) (grow rc b') \<and> (rc < 0 \<or> rc = int (length p))"
proof -
  have "wrote b (nat rc) b' \<and> (rc < 0 \<or> rc = int (length p))"
  proof (cases rule: write_open_cases [OF assms, case_names closed complete failed])
    case closed
    then show ?thesis using wrote_same [of b b] by simp
  next
    case (complete path c as)
    have "\<not> refusing as" if "\<not> refusing (SysAnswers b)"
      using that complete(5) refusing_mono by blast
    moreover have "grew (Files b) (length p) (Files b')" using grew_append [of "Files b" path c p] complete(2,4) by simp
    ultimately show ?thesis using complete(1,3,4) by (auto simp: wrote_def live_def)
  next
    case (failed path c k as)
    have "grew (Files b) (length (take k p)) (Files b')"
      using grew_append [of "Files b" path c "take k p"] failed(2,6) by simp
    then show ?thesis using failed(1,3,5,6) by (auto simp: wrote_def live_def)
  qed
  then show ?thesis by (auto simp: grow_def wrote_def live_def)
qed

lemma wrote_keeps:
  "wrote b n b' \<Longrightarrow> AppendMode b' = AppendMode b \<and> rotating b' = rotating b"
  by (simp add: wrote_def rotating_def)

lemma moved_settings: "moved b b' \<Longrightarrow> AppendMode b' = AppendMode b \<and> rotating b' = rotating b \<and> (live b \<longrightarrow> live b')"
  by (simp add: moved_def file_settings_def rotating_def)

lemma wrote_append_sync:
  assumes "append_sync w txt b = Some (b', n)" and "AppendMode b" and "rotating b" and "live b" and "length txt < 2 ^ 31"
  shows "wrote b n b' \<and> (n = 0 \<or> n = length txt)"
proof (cases "ShutdownFlag b \<or> txt = []")
  case True
  then show ?thesis using assms(1) wrote_moved [OF moved_refl] by (auto simp: append_sync_def)
next
  case False
  then obtain b1 ok where b1: "ApplySizeLimit w (length txt) b = Some (b1, ok)"
    using assms(1) by (auto simp: append_sync_def bind_eq_Some_conv)
  note m = moved_ApplySizeLimit [OF b1 assms(2,3)]
  show ?thesis
  proof (cases ok)
    case False
    then show ?thesis using assms(1) b1 wrote_moved [OF m] wrote_moved [OF moved_refl] by (auto simp: append_sync_def split: if_splits)
  next
    case True
    obtain b2 rc where w: "write_open (WriteAll txt) b1 = Some (b2, rc)"
      using True False assms(1) b1 by (auto simp: append_sync_def bind_eq_Some_conv)
    have b': "(if rc < 0 then (b2, 0) else (grow rc b2, nat rc)) = (b', n)"
      using True False assms(1) b1 w by (simp add: append_sync_def split: if_splits)
    from wrote_write_open [OF w] moved_settings [OF m] assms(4) WriteAll_outcome [OF assms(5)]
    have "wrote b1 (nat rc) b2 \<and> wrote b1 (nat rc) (grow rc b2) \<and> (rc < 0 \<or> rc = int (length txt))" by blast
    with b' have "wrote b1 n b' \<and> (n = 0 \<or> n = length txt)" by (auto split: if_splits)
    then show ?thesis using wrote_trans [OF wrote_moved [OF m]] by fastforce
  qed
qed

lemma outgoing_length: "length txt < 2 ^ 30 \<Longrightarrow> length (snd (outgoing txt b)) < 2 ^ 31"
  by (cases "ObfuscationKey b") (simp_all add: outgoing_def AppendObfuscated_eq, simp add: AppendObfuscated_def)

lemma wrote_outgoing: "wrote b 0 (fst (outgoing txt b))"
  by (rule wrote_moved, rule moved_frame) (auto simp: outgoing_def file_settings_def split: prod.split)

lemma wrote_Display:
  assumes "Display_sync w t b = Some (b', n)" and "AppendMode b" and "rotating b" and "live b"
    and "length (case t of None \<Rightarrow> [] | Some txt \<Rightarrow> txt) < 2 ^ 30"
  shows "wrote b n b'"
proof (cases "\<not> IsLogOpen b \<or> ShutdownFlag b")
  case True
  then show ?thesis using assms(1) wrote_moved [OF moved_refl] by (auto simp: Display_sync_def)
next
  case False
  then obtain b1 ok where b1: "rotate_by_time w b = Some (b1, ok)"
    using assms(1) by (auto simp: Display_sync_def bind_eq_Some_conv)
  note m = moved_rotate_by_time [OF b1 assms(2)]
  show ?thesis
  proof (cases "ok \<and> t \<noteq> None")
    case False
    then have "b' = b \<or> b' = b1" "n = 0"
      using assms(1) b1 by (auto simp: Display_sync_def split: if_splits option.splits)
    then show ?thesis using wrote_moved [OF m] wrote_moved [OF moved_refl] by auto
  next
    case True
    then obtain x where t: "t = Some x" by auto
    let ?b2 = "fst (outgoing x b1)"
    have og: "wrote b1 0 ?b2" by (rule wrote_outgoing)
    have a: "append_sync w (snd (outgoing x b1)) ?b2 = Some (b', n)"
      using assms(1) b1 True False t by (simp add: Display_sync_def case_prod_beta)
    have "live ?b2" "AppendMode ?b2" "rotating ?b2"
      using moved_settings [OF m] wrote_keeps [OF og] og assms(2-4) by (auto simp: wrote_def)
    from wrote_append_sync [OF a this(2,3,1) outgoing_length] assms(5) t
    have "wrote ?b2 n b'" by simp
    from wrote_trans [OF wrote_trans [OF wrote_moved [OF m] og] this] show ?thesis by simp
  qed
qed


section \<open>Rotation by size, exactly\<close>

text \<open>A log under an absolute path without placeholders, which the system lets the backend use.\<close>

definition plain :: "string \<Rightarrow> bool" where
  "plain p \<longleftrightarrow> IsAbsolutePath p \<and> CHR ''{'' \<notin> set p \<and> NUL \<notin> set p"

definition permits :: "world \<Rightarrow> string \<Rightarrow> bool" where
  "permits w p \<longleftrightarrow> \<not> PathMissing w p \<and> Openable w p \<and> (\<forall>d. MakeDirs w d) \<and> (\<forall>n. Renamable w p n)"

definition at_log :: "string \<Rightarrow> string \<Rightarrow> 'z file_backend_scheme \<Rightarrow> bool" where
  "at_log p c b \<longleftrightarrow> NameTemplate b = p \<and> Name b = p \<and> OpenFile b = Some p \<and> Files b p = Some c \<and> CurrentSize b = length c"

lemma expand_plain: "plain p \<Longrightarrow> expand w param p = Some p"
  by (simp add: plain_def expand_def ProcessTemplate_def c_str_id)

lemma CreateLog_plain:
  assumes "plain p" and "permits w p" and "Files b p = None"
  shows "CreateLog w p b =
    Some (b\<lparr>NameTemplate := p, Name := p, OpenFile := Some p, Files := (Files b)(p \<mapsto> []), CurrentSize := 0\<rparr>, True)"
  using assms expand_plain [OF assms(1)]
  by (simp add: CreateLog_def GetPathName_def from_home_def plain_def permits_def c_str_id CloseLog_def open_file_def
      opened_def Let_def)

text \<open>What of a backend says where and what its log is.\<close>

definition log_view :: "'z file_backend_scheme \<Rightarrow>
    string \<times> string \<times> string option \<times> (string \<rightharpoonup> string) \<times> nat \<times> answer list" where
  "log_view b = (NameTemplate b, Name b, OpenFile b, Files b, CurrentSize b, SysAnswers b)"

lemma log_view_events [simp]:
  "log_view (clean_files pattern keep options b) = log_view b" "log_view (SubmitCompletedFile f b) = log_view b"
  "log_view (b\<lparr>ArchivePolicy := a\<rparr>) = log_view b"
  by (simp_all add: log_view_def clean_files_def SubmitCompletedFile_def)

lemma log_view_ApplyRetention: "ApplyRetention w b = Some b' \<Longrightarrow> log_view b' = log_view b"
  by (auto simp: ApplyRetention_def Let_def bind_eq_Some_conv split: if_splits)

lemma finish_exact:
  assumes "finish_completion w r ret old new b = Some (b', ok)" and "NameTemplate b = p" and "plain p" and "permits w p"
    and "Files b p = None"
  shows "ok \<and> log_view b' = (p, p, Some p, (Files b)(p \<mapsto> []), 0, SysAnswers b)"
proof -
  define b1 where "b1 = b\<lparr>NameTemplate := p, Name := p, OpenFile := Some p, Files := (Files b)(p \<mapsto> []), CurrentSize := 0\<rparr>"
  have b1: "CreateLog w (NameTemplate b) b = Some (b1, True)"
    using CreateLog_plain [OF assms(3-5)] assms(2) by (simp add: b1_def)
  have v: "log_view b1 = (p, p, Some p, (Files b)(p \<mapsto> []), 0, SysAnswers b)" by (simp add: b1_def log_view_def)
  let ?c = "if \<not> Archive_IsEnabled (ArchivePolicy b1) \<and> r = FILE_COMPLETION_TIME_LIMIT \<and> old \<noteq> [] \<and> old \<noteq> Name b1 then old else new"
  obtain a where a: "SetTime (archive_world w b1) (GetArchiveTime (CurrentTime w) (TimeRotationPolicy b1)) (ArchivePolicy b1) = Some a"
    using assms(1)
    by (cases "SetTime (archive_world w b1) (GetArchiveTime (CurrentTime w) (TimeRotationPolicy b1)) (ArchivePolicy b1)")
      (auto simp: finish_completion_def b1 Let_def)
  define b2 where "b2 = (if ?c \<noteq> [] then SubmitCompletedFile ?c (b1\<lparr>ArchivePolicy := a\<rparr>) else b1\<lparr>ArchivePolicy := a\<rparr>)"
  have "log_view b2 = log_view b1" by (simp add: b2_def)
  moreover have "(if ret then map_option (\<lambda>b. (b, True)) (ApplyRetention w b2) else Some (b2, True)) = Some (b', ok)"
    using assms(1) unfolding finish_completion_def b1 b2_def Let_def by (simp only: Option.bind.simps prod.case a simp_thms if_False)
  ultimately show ?thesis using v by (cases ret) (auto dest: log_view_ApplyRetention)
qed

lemma complete_exact:
  assumes "CompleteCurrentFile w r ret t b = Some (b', ok)" and "at_log p c b" and "plain p" and "permits w p"
    and "Archive_IsEnabled (ArchivePolicy b)"
  shows "ok \<and> (\<exists>arch. Files b arch = None \<and> log_view b' = (p, p, Some p, (Files b)(arch \<mapsto> c, p \<mapsto> []), 0, SysAnswers b))"
proof -
  let ?t = "if t \<noteq> 0 then t else if ArchiveTime (ArchivePolicy b) \<noteq> 0 then ArchiveTime (ArchivePolicy b)
    else GetArchiveTime (CurrentTime w) (TimeRotationPolicy b)"
  have p: "Name b = p" "NameTemplate b = p" "Files b p = Some c" "p \<noteq> []"
    using assms(2,3) by (auto simp: at_log_def plain_def IsAbsolutePath_def)
  obtain a n where take: "TakeName (archive_world w b) ?t (ArchivePolicy b) = Some (a, n)"
    using assms(1,5) p by (cases "TakeName (archive_world w b) ?t (ArchivePolicy b)") (auto simp: CompleteCurrentFile_def Let_def)
  have n: "Files b n = None" "n \<noteq> p" using TakeName_new [OF take] p by auto
  let ?b = "CloseLog (b\<lparr>ArchivePolicy := a\<rparr>)"
  let ?r = "?b\<lparr>Files := (Files b)(p := None, n \<mapsto> c)\<rparr>"
  have "rename_file w p n ?b = Some ?r" using p assms(4) by (simp add: rename_file_def CloseLog_def permits_def)
  then have "finish_completion w r ret p n ?r = Some (b', ok)"
    using assms(1,4,5) p take by (simp add: CompleteCurrentFile_def Let_def permits_def)
  from finish_exact [OF this _ assms(3,4)] p n show ?thesis
    by (auto simp: CloseLog_def fun_upd_twist intro!: exI [of _ n])
qed


section \<open>A batch and its report\<close>

text \<open>All buffers have gone behind the log.\<close>

definition log_grown :: "string list \<Rightarrow> 'z file_backend_scheme \<Rightarrow> 'z file_backend_scheme \<Rightarrow> bool" where
  "log_grown data b b' \<longleftrightarrow>
     (if data = [] then OpenFile b' = OpenFile b else OpenFile b \<noteq> None) \<and>
     (\<forall>p c. OpenFile b = Some p \<and> Files b p = Some c \<longrightarrow>
        OpenFile b' = Some p \<and> Files b' = (Files b)(p \<mapsto> c @ concat data) \<and>
        CurrentSize b' = CurrentSize b + length (concat data))"

lemma log_grown_trans: "log_grown x b b1 \<Longrightarrow> log_grown y b1 b' \<Longrightarrow> live b \<Longrightarrow> log_grown (x @ y) b b'"
  by (cases "OpenFile b"; cases "x = []") (auto simp: log_grown_def live_def split: if_splits)

text \<open>What one step of the batch has done to the backend, the flag and the tally.\<close>

definition batch_step ::
  "string list \<Rightarrow> 'z file_backend_scheme \<times> bool \<times> tally \<Rightarrow> 'z file_backend_scheme \<times> bool \<times> tally \<Rightarrow> bool" where
  "batch_step data s s' \<longleftrightarrow>
     (case (s, s') of ((b, ok, t), (b', ok', t')) \<Rightarrow>
        (\<exists>wb wy fb fy. TalWrittenBuffers t' = TalWrittenBuffers t + wb \<and> TalFailedBuffers t' = TalFailedBuffers t + fb \<and>
           TalWrittenBytes t' = TalWrittenBytes t + wy \<and> TalFailedBytes t' = TalFailedBytes t + fy \<and>
           wb + fb = length data \<and> wy + fy = length (concat data) \<and> wrote b wy b' \<and>
           (fb = 0 \<longrightarrow> fy = 0) \<and> (ok' \<longleftrightarrow> ok \<and> fb = 0)) \<and>
        (ok' \<longrightarrow> log_grown data b b'))"

lemma batch_step_trans:
  assumes "batch_step x (b, ok, t) (b1, ok1, t1)" and "batch_step y (b1, ok1, t1) (b', ok', t')" and "live b"
  shows "batch_step (x @ y) (b, ok, t) (b', ok', t')"
proof -
  from assms(1) obtain wb wy fb fy where 1: "TalWrittenBuffers t1 = TalWrittenBuffers t + wb"
    "TalFailedBuffers t1 = TalFailedBuffers t + fb" "TalWrittenBytes t1 = TalWrittenBytes t + wy"
    "TalFailedBytes t1 = TalFailedBytes t + fy" "wb + fb = length x" "wy + fy = length (concat x)" "wrote b wy b1"
    "fb = 0 \<longrightarrow> fy = 0" "ok1 \<longleftrightarrow> ok \<and> fb = 0" "ok1 \<longrightarrow> log_grown x b b1"
    unfolding batch_step_def by auto
  from assms(2) obtain wb' wy' fb' fy' where 2: "TalWrittenBuffers t' = TalWrittenBuffers t1 + wb'"
    "TalFailedBuffers t' = TalFailedBuffers t1 + fb'" "TalWrittenBytes t' = TalWrittenBytes t1 + wy'"
    "TalFailedBytes t' = TalFailedBytes t1 + fy'" "wb' + fb' = length y" "wy' + fy' = length (concat y)" "wrote b1 wy' b'"
    "fb' = 0 \<longrightarrow> fy' = 0" "ok' \<longleftrightarrow> ok1 \<and> fb' = 0" "ok' \<longrightarrow> log_grown y b1 b'"
    unfolding batch_step_def by auto
  have "ok' \<longrightarrow> log_grown (x @ y) b b'" using 1(10) 2(9,10) log_grown_trans [OF _ _ assms(3)] by blast
  moreover have w: "wrote b (wy + wy') b'" by (rule wrote_trans [OF 1(7) 2(7)])
  have "\<exists>wb wy fb fy. TalWrittenBuffers t' = TalWrittenBuffers t + wb \<and> TalFailedBuffers t' = TalFailedBuffers t + fb \<and>
      TalWrittenBytes t' = TalWrittenBytes t + wy \<and> TalFailedBytes t' = TalFailedBytes t + fy \<and>
      wb + fb = length (x @ y) \<and> wy + fy = length (concat (x @ y)) \<and> wrote b wy b' \<and>
      (fb = 0 \<longrightarrow> fy = 0) \<and> (ok' \<longleftrightarrow> ok \<and> fb = 0)"
    by (rule exI [of _ "wb + wb'"], rule exI [of _ "wy + wy'"], rule exI [of _ "fb + fb'"], rule exI [of _ "fy + fy'"])
      (use 1(1-6,8,9) 2(1-6,8,9) w in simp)
  ultimately show ?thesis unfolding batch_step_def prod.case by blast
qed

lemma batch_step_writeVector:
  assumes "writeVector True iov (b, ok, t) = Some s'" and "live b" and "length (concat iov) < 2 ^ 31"
  shows "batch_step iov (b, ok, t) s'"
proof (cases "iov = []")
  case True
  then show ?thesis
    using assms(1) wrote_moved [OF moved_refl] by (auto simp: writeVector_def batch_step_def log_grown_def fun_upd_idem)
next
  case False
  let ?w = "if length iov = 1 then WriteAll (hd iov) else WriteAllVector iov"
  from assms(1) False obtain b2 rc where w: "write_open ?w b = Some (b2, rc)"
    by (auto simp: writeVector_def bind_eq_Some_conv Let_def)
  have "outcome (concat iov) 0 (Disk s) (Answers s) (?w s)" for s
  proof (cases iov)
    case (Cons x xs)
    then show ?thesis using assms(3) WriteAll_outcome [of x s] WriteAllVector_outcome [of iov s] by auto
  qed (use False in simp)
  note o' = this
  note wr = wrote_write_open [OF w assms(2) o']
  show ?thesis
  proof (cases rule: write_open_cases [OF w assms(2) o', case_names closed complete failed])
    case closed
    then show ?thesis using assms(1) False w wr by (auto simp: writeVector_def batch_step_def log_grown_def Let_def)
  next
    case (complete path c as)
    then show ?thesis using assms(1) False w wr by (auto simp: writeVector_def batch_step_def log_grown_def Let_def grow_def)
  next
    case (failed path c k as)
    then show ?thesis using assms(1) False w wr by (auto simp: writeVector_def batch_step_def log_grown_def Let_def)
  qed
qed

lemma batch_step_live: "batch_step x (b, ok, t) (b', ok', t') \<Longrightarrow> live b \<Longrightarrow> live b'"
  by (auto simp: batch_step_def wrote_def)

lemma batch_step_loop:
  assumes "batch_loop True iov data (b, ok, t) = Some s'" and "live b" and "length (concat (iov @ data)) < 2 ^ 31"
  shows "batch_step (iov @ data) (b, ok, t) s'"
  using assms
proof (induction data arbitrary: iov b ok t)
  case Nil
  then show ?case using batch_step_writeVector by simp
next
  case (Cons d data)
  show ?case
  proof (cases "length (iov @ [d]) = WRITEV_CHUNK")
    case False
    then show ?thesis using Cons.IH [of "iov @ [d]"] Cons.prems by simp
  next
    case True
    then obtain b1 ok1 t1 where w: "writeVector True (iov @ [d]) (b, ok, t) = Some (b1, ok1, t1)"
      and rest: "batch_loop True [] data (b1, ok1, t1) = Some s'"
      using Cons.prems(1) by (auto simp: bind_eq_Some_conv)
    have 1: "batch_step (iov @ [d]) (b, ok, t) (b1, ok1, t1)"
      using batch_step_writeVector [OF w] Cons.prems by simp
    have "batch_step data (b1, ok1, t1) s'"
      using Cons.IH [OF rest batch_step_live [OF 1]] Cons.prems by simp
    then show ?thesis using batch_step_trans [OF 1] Cons.prems(2) by (cases s') fastforce
  qed
qed


section \<open>A rotating log\<close>

definition demo_world :: world where
  "demo_world = archive_env.extend ((demo_archive_env [])\<lparr>CurrentTime := 5\<rparr>)
     (world.fields utc (\<lambda>_. False) (\<lambda>_. True) (\<lambda>_. True) (\<lambda>_ _. True))"

definition demo_backend :: file_backend where
  "demo_backend = \<lparr>AppendMode = True, MaxSize = 8, OnSizeLimit = SIZE_LIMIT_ROTATE, CurrentSize = 5, Name = ''/l/x.log'',
     NameTemplate = ''/l/x.log'', ArchivePolicy = demo_policy ''a-{index}.log'', TimeRotationPolicy = FileTimeRotationPolicy_new,
     MaxParts = 0, RetentionMaxAge = 0, RetentionMaxTotalSize = 0, RetentionCleanOnStart = False, GzipEnabled = False,
     Compression = False, AsyncMode = False, Registered = False, ShutdownFlag = False, ObfuscationKey = None,
     Nonce = NonceGenInit 0 0, Home = ''/l/'', Files = [''/l/x.log'' \<mapsto> ''hello''], OpenFile = Some ''/l/x.log'',
     SysAnswers = [Wrote 9, Wrote 2, Wrote 9], BackendEvents = []\<rparr>"

lemma demo_world_sel [simp]:
  "Cal demo_world = utc" "PathMissing demo_world p = False" "Openable demo_world p" "MakeDirs demo_world p"
  "Renamable demo_world p q" "CurrentTime demo_world = 5" "FileExists demo_world p = Some False"
  by (simp_all add: demo_world_def archive_env.extend_def world.fields_def demo_archive_env_def)

lemma demo_index_names:
  assumes "ArchiveTemplate a = ''a-{index}.log''" and "HomeDirectory a = ''/l/''"
  shows "BuildName env a 0 t = Some ''/l/a-0.log''" and "BuildName env a 1 t = Some ''/l/a-1.log''"
proof -
  have "expand_archive env a = Some ''a-{index}.log''"
    using assms(1) by (simp add: expand_archive_def ProcessTemplate_def Let_def c_str_def NUL_def archive_param_def
        template_loop.simps TemplateBuffer_Append_def TemplateBuffer_ToString_def TemplateBuffer_new_def TEMPLATE_BUFFER_SIZE_def
        env_reference_def template_field_def TPID_def TPNAME_def TDATETIME_def TDATE_def TTARGET_def TEXEPATH_def)
  then show "BuildName env a 0 t = Some ''/l/a-0.log''" "BuildName env a 1 t = Some ''/l/a-1.log''"
    using assms(2) by (simp_all add: BuildName_def demo_time show_nat.simps absolute_def IsAbsolutePath_def
        replace_index [simplified])
qed

lemma demo_take:
  assumes "ArchiveTemplate a = ''a-{index}.log''" and "HomeDirectory a = ''/l/''" and "ArchiveTime a = 5" and "ArchiveIndex a = 0"
    and "Files b ''/l/a-1.log'' = None" and "Files b ''/l/a-1.log.gz'' = None"
  shows "TakeName (archive_world demo_world b) 5 a = Some (a\<lparr>ArchiveIndex := 1\<rparr>, ''/l/a-1.log'')"
proof -
  have "\<not> NameExists (archive_world demo_world b) ''/l/a-1.log''"
    using assms(5,6) by (simp add: NameExists_def archive_world_def)
  moreover have "SetTime (archive_world demo_world b) 5 a = Some a"
    using assms(1-3) by (simp add: SetTime_def demo_index_names)
  ultimately show ?thesis
    using assms by (simp add: TakeName_def take_loop.simps demo_index_names)
qed

lemma demo_settime:
  assumes "ArchiveTemplate a = ''a-{index}.log''" and "HomeDirectory a = ''/l/''"  and "ArchiveTime a = 5"
  shows "SetTime env 5 a = Some a"
  using assms by (simp add: SetTime_def demo_index_names)

lemma outgoing_plain [simp]: "ObfuscationKey b = None \<Longrightarrow> outgoing t b = (b, t)"
proof -
  have "char_of (unat (of_nat (of_char c) :: byte)) = c" for c :: char
    by (simp add: unat_of_nat char_of_take_bit_eq)
  moreover assume "ObfuscationKey b = None"
  ultimately show ?thesis by (simp add: outgoing_def AppendObfuscated_def comp_def)
qed

definition demo_fits :: file_backend where
  "demo_fits = demo_backend\<lparr>Files := [''/l/x.log'' \<mapsto> ''helloabc''], CurrentSize := 8, SysAnswers := [Wrote 2, Wrote 9]\<rparr>"

definition demo_rotated :: file_backend where
  "demo_rotated = demo_backend\<lparr>Files := [''/l/a-1.log'' \<mapsto> ''helloabc'', ''/l/x.log'' \<mapsto> ''world''], CurrentSize := 5,
     SysAnswers := [], ArchivePolicy := (demo_policy ''a-{index}.log'')\<lparr>ArchiveIndex := 1\<rparr>\<rparr>"

lemma demo_fits: "append_sync demo_world ''abc'' demo_backend = Some (demo_fits, 3)"
  by (simp add: append_sync_def demo_backend_def demo_fits_def ApplySizeLimit_def write_open_def WriteAll_def write_loop.simps WriteRaw_def
      grow_def)

lemma demo_plain: "plain ''/l/x.log''" "permits demo_world ''/l/x.log''"
  by (simp_all add: plain_def permits_def IsAbsolutePath_def NUL_def)

lemma demo_rotates: "append_sync demo_world ''world'' demo_fits = Some (demo_rotated, 5)"
  by (simp add: append_sync_def demo_backend_def demo_fits_def demo_rotated_def ApplySizeLimit_def CompleteCurrentFile_def
     Archive_IsEnabled_def demo_take CloseLog_def rename_file_def parent_path_def finish_completion_def CreateLog_plain demo_plain
     demo_settime GetArchiveTime_def Rotation_IsEnabled_def FileTimeRotationPolicy_new_def ApplyRetention_def retention_options_def
     RetentionOptions_IsEmpty_def SubmitCompletedFile_def Let_def
     write_open_def WriteAll_def write_loop.simps WriteRaw_def
      grow_def)


lemma demo_display:
  "display_all [(demo_world, Some ''abc''), (demo_world, Some ''world'')] demo_backend = Some (demo_rotated, [3, 5])"
proof -
  have o': "ObfuscationKey demo_backend = None" "ObfuscationKey demo_fits = None"
    "IsLogOpen demo_backend" "\<not> ShutdownFlag demo_backend" "IsLogOpen demo_fits" "\<not> ShutdownFlag demo_fits"
    "rotate_by_time demo_world demo_backend = Some (demo_backend, True)" "rotate_by_time demo_world demo_fits = Some (demo_fits, True)"
    by (simp_all add: demo_backend_def demo_fits_def IsLogOpen_def rotate_by_time_def ShouldRotate_def Rotation_IsEnabled_def
        FileTimeRotationPolicy_new_def)
  then show ?thesis by (simp add: Display_sync_def demo_fits demo_rotates)
qed



end
