(* ===== verification/File_Worker.thy ===== *)
theory File_Worker
  imports File_Backend Queue_Threads
begin

text \<open>
  The asynchronous side of the file backend (\<open>Backend/FileBackend.cpp\<close>): putting output into the queue,
  asking for a flush, and the function the manager's thread runs, one operation after another (how the
  queue's operations interleave is \<open>Queue_Threads\<close>). The statistics are collected or not for the whole
  life of a state, the backend belongs to a channel, and the counters for debugging are left out. Lemmas:
  what is accepted reaches the log in order, queued data always has a flush time, and two runs that are due
  write everything.
\<close>

datatype worker_event =
    Notified u64
  | QueueDropped nat
  | BatchReported write_report
  | DoneSignalled
  | ShutdownSignalled

record 'c file_worker = file_backend +
  Queue :: "'c buffer_queue"
  QueuedBytes :: u64
  FlushTime :: u64
  QueueSizeLimit :: u64
  FlushAfter :: u64
  ShutdownCalled :: bool
  CollectStatistics :: bool
  WorkerEvents :: "worker_event list"

definition RIGHT_NOW :: u64 where
  "RIGHT_NOW = 1"

definition FLUSH_PRESSURE_BUFFERS :: int where
  "FLUSH_PRESSURE_BUFFERS = 96"

definition emit :: "worker_event \<Rightarrow> 'c file_worker \<Rightarrow> 'c file_worker" where
  "emit e b = b\<lparr>WorkerEvents := WorkerEvents b @ [e]\<rparr>"

section \<open>Asking for a flush\<close>

definition RequestFlush :: "u64 \<Rightarrow> 'c file_worker \<Rightarrow> 'c file_worker" where
  "RequestFlush whn b =
     (if FlushTime b \<noteq> 0 \<and> (FlushTime b = RIGHT_NOW \<or> FlushTime b \<le> whn) then b
      else emit (Notified whn) (b\<lparr>FlushTime := whn\<rparr>))"

definition HasEvents :: "'c file_worker \<Rightarrow> bool" where
  "HasEvents b \<longleftrightarrow> FlushTime b \<noteq> 0"

definition FileBackend_IsIdle :: "'c file_worker \<Rightarrow> bool" where
  "FileBackend_IsIdle b \<longleftrightarrow> QueuedBytes b = 0 \<and> (ShutdownFlag b \<or> \<not> Registered b)"

text \<open>The time a buffer begun at this flush time counts from.\<close>

definition first_write_time :: "u64 \<Rightarrow> u64 \<Rightarrow> u64 \<Rightarrow> u64" where
  "first_write_time now flushTime flushAfter =
     (if flushTime \<noteq> 0 \<and> flushTime \<noteq> RIGHT_NOW \<and> flushTime > flushAfter then flushTime - flushAfter else now)"

definition set_write_time :: "u64 \<Rightarrow> 'c file_worker \<Rightarrow> 'c file_worker" where
  "set_write_time t b = b\<lparr>Queue := SetCurrentFirstWriteTime t (Queue b)\<rparr>"

text \<open>\<open>AppendOutputData\<close> in asynchronous mode, the clock read once: what follows an append the queue has
  accepted, and the whole.\<close>

definition after_append :: "u64 \<Rightarrow> u64 \<Rightarrow> bool \<Rightarrow> 'c file_worker \<Rightarrow> 'c file_worker" where
  "after_append now flushTime firstData b =
     (let t = first_write_time now flushTime (FlushAfter b) in
      if GetUsedBuffers (Queue b) \<ge> FLUSH_PRESSURE_BUFFERS \<or> QueuedBytes b \<ge> QueueSizeLimit b
      then
        let b = (if firstData then set_write_time t b else b)
        in if flushTime \<noteq> RIGHT_NOW then RequestFlush RIGHT_NOW b else b
      else if firstData
      then
        if flushTime = 0 then RequestFlush (now + FlushAfter b) (set_write_time now b)
        else set_write_time t b
      else b)"

definition append_async :: "u64 \<Rightarrow> string \<Rightarrow> 'c file_worker \<Rightarrow> 'c file_worker \<times> nat" where
  "append_async now p b =
     (if ShutdownFlag b \<or> p = [] then (b, 0)
      else
        (case Append p (first_write_time now (FlushTime b) (FlushAfter b)) (Queue b) of
           (False, _, _, q) \<Rightarrow>
             (let b = b\<lparr>Queue := q\<rparr> in if CollectStatistics b then emit (QueueDropped (length p)) b else b, 0)
         | (True, _, firstData, q) \<Rightarrow>
             (after_append now (FlushTime b) firstData
                (b\<lparr>Queue := q, QueuedBytes := QueuedBytes b + of_nat (length p)\<rparr>), length p)))"

definition AppendOutputData ::
  "world \<Rightarrow> u64 \<Rightarrow> string \<Rightarrow> 'c file_worker \<Rightarrow> ('c file_worker \<times> nat) option" where
  "AppendOutputData w now p b = (if \<not> AsyncMode b then append_sync w p b else Some (append_async now p b))"

section \<open>The worker\<close>

definition PublishCurrentCounted :: "'c file_worker \<Rightarrow> 'c file_worker \<times> bool" where
  "PublishCurrentCounted b = (case PublishCurrent (Queue b) of (ok, _, q) \<Rightarrow> (b\<lparr>Queue := q\<rparr>, ok))"

definition signal_done :: "'c file_worker \<Rightarrow> 'c file_worker" where
  "signal_done b = (if QueuedBytes b = 0 then emit DoneSignalled b else b)"

text \<open>After the batch has been written: its report, and the buffers back to the queue.\<close>

definition finish_batch :: "data_buffer list \<Rightarrow> bool \<Rightarrow> tally \<Rightarrow> 'c file_worker \<Rightarrow> 'c file_worker" where
  "finish_batch data ok t b =
     (let contents = map Content data; bytes = length (concat contents);
          b = b\<lparr>Queue := ReportWrite (length data) bytes ok (Queue b)\<rparr>;
          b = (if CollectStatistics b then emit (BatchReported (batch_report contents t)) b else b);
          b = b\<lparr>QueuedBytes := QueuedBytes b - of_nat bytes, Queue := Recycle data (Queue b)\<rparr>;
          b = (if \<not> HasCurrentDataFlagged (Queue b) \<and> \<not> HasReady (Queue b)
               then b\<lparr>Queue := TrimFreeBuffersIfIdle (Queue b)\<rparr> else b)
      in signal_done b)"

definition WriteReadyData :: "world \<Rightarrow> 'c file_worker \<Rightarrow> ('c file_worker \<times> bool) option" where
  "WriteReadyData w b =
     (case TakeReady (Queue b) of
        (False, data, q) \<Rightarrow> Some (signal_done (b\<lparr>Queue := q\<rparr>), False)
      | (True, data, q) \<Rightarrow>
          Option.bind (write_batch w (CollectStatistics b) (map Content data) (b\<lparr>Queue := q\<rparr>)) (\<lambda>(b, ok, t).
            Some (finish_batch data ok t b, True)))"

text \<open>The loop of \<open>WorkerFunc\<close>, with the number of rounds left.\<close>

fun worker_loop :: "nat \<Rightarrow> world \<Rightarrow> bool \<Rightarrow> 'c file_worker \<Rightarrow> 'c file_worker option" where
  "worker_loop 0 w forceFlush b = Some b"
| "worker_loop (Suc n) w forceFlush b =
     Option.bind (WriteReadyData w b) (\<lambda>(b, wrote).
       if wrote then worker_loop n w False b
       else if forceFlush
       then (case PublishCurrentCounted b of (b, ok) \<Rightarrow> if ok then worker_loop n w False b else Some b)
       else Some b)"

definition oldest_time :: "'c buffer_queue \<Rightarrow> u64" where
  "oldest_time q =
     (let readyTime = GetOldestReadyDataTime q; currentTime = GetCurrentFirstWriteTimeSnapshot q
      in if readyTime = 0 \<or> (currentTime \<noteq> 0 \<and> currentTime < readyTime) then currentTime else readyTime)"

definition update_from_oldest :: "u64 \<Rightarrow> u64 \<Rightarrow> 'c file_worker \<Rightarrow> 'c file_worker" where
  "update_from_oldest now oldest b =
     (let deadline = oldest + FlushAfter b in b\<lparr>FlushTime := (if deadline \<le> now then RIGHT_NOW else deadline)\<rparr>)"

definition UpdateFlushTimeAfterWork :: "u64 \<Rightarrow> 'c file_worker \<Rightarrow> 'c file_worker" where
  "UpdateFlushTimeAfterWork now b =
     (if oldest_time (Queue b) \<noteq> 0 then update_from_oldest now (oldest_time (Queue b)) b
      else if HasCurrentDataFlagged (Queue b) then b
      else
        let b = b\<lparr>FlushTime := 0\<rparr> in
        if oldest_time (Queue b) \<noteq> 0 then update_from_oldest now (oldest_time (Queue b)) b
        else if HasReady (Queue b) then b\<lparr>FlushTime := RIGHT_NOW\<rparr>
        else if HasCurrentDataFlagged (Queue b) then b\<lparr>FlushTime := now + FlushAfter b\<rparr>
        else b)"

definition WorkerFunc :: "world \<Rightarrow> u64 \<Rightarrow> 'c file_worker \<Rightarrow> ('c file_worker \<times> bool) option" where
  "WorkerFunc w now b =
     Option.bind (worker_loop 5 w (ShutdownFlag b \<or> FlushTime b = RIGHT_NOW) b) (\<lambda>b.
       Some (UpdateFlushTimeAfterWork now b, \<not> ShutdownFlag b))"

partial_function (option) publish_all :: "'c file_worker \<Rightarrow> 'c file_worker option" where
  "publish_all b = (case PublishCurrentCounted b of (b, ok) \<Rightarrow> if ok then publish_all b else Some b)"

text \<open>\<open>Flush\<close> up to its wait for the signal that nothing is queued.\<close>

definition FileBackend_Flush :: "'c file_worker \<Rightarrow> 'c file_worker option" where
  "FileBackend_Flush b = (if \<not> AsyncMode b then Some b else map_option (RequestFlush RIGHT_NOW) (publish_all b))"

definition FileBackend_Freeze :: "'c file_worker \<Rightarrow> 'c file_worker" where
  "FileBackend_Freeze b = (let b = b\<lparr>ShutdownFlag := True\<rparr> in if AsyncMode b then RequestFlush RIGHT_NOW b else b)"

partial_function (option) drain :: "world \<Rightarrow> 'c file_worker \<Rightarrow> 'c file_worker option" where
  "drain w b =
     (if QueuedBytes b = 0 then Some b
      else
        Option.bind (WriteReadyData w b) (\<lambda>(b, wrote).
          if wrote then drain w b
          else (case PublishCurrentCounted b of (b, ok) \<Rightarrow> if ok then drain w b else Some b)))"

definition OnShutdown :: "world \<Rightarrow> 'c file_worker \<Rightarrow> 'c file_worker option" where
  "OnShutdown w b = map_option (\<lambda>b. emit ShutdownSignalled (b\<lparr>ShutdownCalled := True\<rparr>)) (drain w b)"

section \<open>A backend at work\<close>

text \<open>The fields the constructor adds for a backend of a channel, with the queue it makes.\<close>

definition FileBackend_new ::
  "'c buffer_queue \<Rightarrow> u64 \<Rightarrow> u64 \<Rightarrow> bool \<Rightarrow> file_backend \<Rightarrow> 'c file_worker" where
  "FileBackend_new q queueSizeLimit flushAfter collect b =
     file_backend.extend b (file_worker.fields q 0 0 queueSizeLimit flushAfter False collect [])"

text \<open>What log threads, a flush and the manager's thread do with it, one after another; the bytes accepted.\<close>

datatype worker_op =
    DoOutput world u64 string
  | DoFlush
  | DoFreeze
  | DoWork world u64

fun run_op :: "worker_op \<Rightarrow> 'c file_worker \<Rightarrow> ('c file_worker \<times> string) option" where
  "run_op (DoOutput w now s) b = map_option (\<lambda>(b, n). (b, take n s)) (AppendOutputData w now s b)"
| "run_op DoFlush b = map_option (\<lambda>b. (b, [])) (FileBackend_Flush b)"
| "run_op DoFreeze b = Some (FileBackend_Freeze b, [])"
| "run_op (DoWork w now) b = map_option (\<lambda>(b, r). (b, [])) (WorkerFunc w now b)"

fun run_worker :: "worker_op list \<Rightarrow> 'c file_worker \<Rightarrow> ('c file_worker \<times> string) option" where
  "run_worker [] b = Some (b, [])"
| "run_worker (o' # ops) b =
     Option.bind (run_op o' b) (\<lambda>(b, s). map_option (\<lambda>(b, r). (b, s @ r)) (run_worker ops b))"

fun offered :: "worker_op \<Rightarrow> nat" where
  "offered (DoOutput w now s) = length s"
| "offered _ = 0"

text \<open>The clock does not make a flush time wrap to zero, which stands for none.\<close>

fun timed :: "u64 \<Rightarrow> worker_op \<Rightarrow> bool" where
  "timed flushAfter (DoOutput w now s) \<longleftrightarrow> now + flushAfter \<noteq> 0"
| "timed flushAfter (DoWork w now) \<longleftrightarrow> now + flushAfter \<noteq> 0"
| "timed flushAfter _ \<longleftrightarrow> True"

section \<open>Batches that the system does not refuse\<close>

text \<open>The log \<open>p\<close> with contents \<open>c\<close> has grown by \<open>d\<close>; nothing else has changed but the counted size and
  the answers still to come, of which at most one for each byte has been used.\<close>

definition grown :: "string \<Rightarrow> string \<Rightarrow> string \<Rightarrow> 'z file_backend_scheme \<Rightarrow> 'z file_backend_scheme \<Rightarrow> bool" where
  "grown p c d b b' \<longleftrightarrow> (\<exists>n as. b' = b\<lparr>Files := (Files b)(p \<mapsto> c @ d), CurrentSize := n, SysAnswers := as\<rparr> \<and>
     \<not> refusing as \<and> wrotes (SysAnswers b) \<le> wrotes as + length d)"

lemma grownI:
  "b' = b\<lparr>Files := (Files b)(p \<mapsto> c @ d), CurrentSize := n, SysAnswers := as\<rparr> \<Longrightarrow> \<not> refusing as \<Longrightarrow>
     wrotes (SysAnswers b) \<le> wrotes as + length d \<Longrightarrow> grown p c d b b'"
  unfolding grown_def by blast

lemma grown_trans:
  assumes "grown p c d b b1" and "grown p (c @ d) e b1 b'"
  shows "grown p c (d @ e) b b'"
proof -
  from assms obtain n as m as' where "b1 = b\<lparr>Files := (Files b)(p \<mapsto> c @ d), CurrentSize := n, SysAnswers := as\<rparr>"
    "b' = b1\<lparr>Files := (Files b1)(p \<mapsto> (c @ d) @ e), CurrentSize := m, SysAnswers := as'\<rparr>" "\<not> refusing as'"
    "wrotes (SysAnswers b) \<le> wrotes as + length d" "wrotes (SysAnswers b1) \<le> wrotes as' + length e"
    unfolding grown_def by blast
  then show ?thesis by (intro grownI [where n = m and as = as']) simp_all
qed

lemma grown_log:
  "grown p c d b b' \<Longrightarrow> OpenFile b' = OpenFile b \<and> Files b' p = Some (c @ d) \<and> \<not> refusing (SysAnswers b') \<and>
     wrotes (SysAnswers b) \<le> wrotes (SysAnswers b') + length d"
  by (auto simp: grown_def)

text \<open>The log accepts \<open>n\<close> bytes: it is open, and the system refuses no write and answers often enough.\<close>

definition accepts :: "string \<Rightarrow> string \<Rightarrow> nat \<Rightarrow> 'z file_backend_scheme \<Rightarrow> bool" where
  "accepts p c n b \<longleftrightarrow> OpenFile b = Some p \<and> Files b p = Some c \<and> \<not> refusing (SysAnswers b) \<and>
     n \<le> wrotes (SysAnswers b) \<and> n < 2 ^ 31"

lemma accepts_grown: "accepts p c n b \<Longrightarrow> grown p c d b b' \<Longrightarrow> m + length d \<le> n \<Longrightarrow> accepts p (c @ d) m b'"
  using grown_log [of p c d b b'] by (simp add: accepts_def)

lemma writeVector_grown:
  assumes "accepts p c (length (concat iov)) b"
  shows "\<exists>b' t'. writeVector col iov (b, ok, t) = Some (b', ok, t') \<and> grown p c (concat iov) b b'"
proof (cases "iov = []")
  case True
  moreover have "grown p c [] b b"
    by (rule grownI [where n = "CurrentSize b" and as = "SysAnswers b"])
      (use assms in \<open>simp_all add: fun_upd_idem accepts_def\<close>)
  ultimately show ?thesis by (simp add: writeVector_def)
next
  case False
  let ?w = "if length iov = 1 then WriteAll (hd iov) else WriteAllVector iov"
  let ?s = "\<lparr>Disk = c, Answers = SysAnswers b, IoError = 0\<rparr>"
  have l: "length (concat iov) < 2 ^ 31" using assms by (simp add: accepts_def)
  have "outcome (concat iov) 0 (Disk ?s) (Answers ?s) (?w ?s)"
  proof (cases "length iov = 1")
    case True
    then obtain x where "iov = [x]" by (auto simp: length_Suc_conv)
    then show ?thesis using l WriteAll_outcome [of x ?s] by simp
  next
    case False
    then show ?thesis using l WriteAllVector_outcome [of iov ?s] by simp
  qed
  then obtain t1 where r: "?w ?s = Returned t1 (int (length (concat iov)))"
    and d: "Disk t1 = c @ concat iov" "set (Answers t1) \<subseteq> set (SysAnswers b)"
      "wrotes (SysAnswers b) \<le> wrotes (Answers t1) + length (concat iov)"
    using assms by (cases "?w ?s") (auto simp: accepts_def)
  let ?b = "b\<lparr>Files := (Files b)(p \<mapsto> c @ concat iov), SysAnswers := Answers t1\<rparr>"
  have w: "write_open ?w b = Some (?b, int (length (concat iov)))"
    using assms r d(1) by (simp add: write_open_def accepts_def)
  have "grown p c (concat iov) b (grow (int (length (concat iov))) ?b)"
    by (rule grownI [where n = "CurrentSize b + length (concat iov)" and as = "Answers t1"])
      (use assms d(2,3) refusing_mono in \<open>auto simp: grow_def accepts_def\<close>)
  then show ?thesis using False w by (simp add: writeVector_def Let_def)
qed

lemma batch_loop_grown:
  assumes "accepts p c (length (concat (iov @ data))) b"
  shows "\<exists>b' t'. batch_loop col iov data (b, ok, t) = Some (b', ok, t') \<and> grown p c (concat (iov @ data)) b b'"
  using assms
proof (induction data arbitrary: iov b t c)
  case Nil
  then show ?case using writeVector_grown by simp
next
  case (Cons d data)
  show ?case
  proof (cases "length (iov @ [d]) = WRITEV_CHUNK")
    case False
    then show ?thesis using Cons.IH [of c "iov @ [d]"] Cons.prems by simp
  next
    case True
    have "accepts p c (length (concat (iov @ [d]))) b" using Cons.prems by (simp add: accepts_def)
    then obtain b1 t1 where 1: "writeVector col (iov @ [d]) (b, ok, t) = Some (b1, ok, t1)"
      "grown p c (concat (iov @ [d])) b b1"
      using writeVector_grown by blast
    then have "accepts p (c @ concat (iov @ [d])) (length (concat ([] @ data))) b1"
      by (intro accepts_grown [OF Cons.prems]) simp_all
    from Cons.IH [OF this, of t1] obtain b' t' where 2: "batch_loop col [] data (b1, ok, t1) = Some (b', ok, t')"
      "grown p (c @ concat (iov @ [d])) (concat data) b1 b'" by auto
    from 1 2 True grown_trans [OF 1(2) 2(2)] show ?thesis by simp
  qed
qed

lemma write_batch_grown:
  assumes "accepts p c (length (concat data)) b" and "MaxSize b = 0"
  shows "\<exists>b' t. write_batch w col data b = Some (b', True, t) \<and> grown p c (concat data) b b'"
  using assms batch_loop_grown [of p c "[]" data b col True no_tally]
  by (simp add: write_batch_def ApplySizeLimit_def)

section \<open>The queue and the log\<close>

definition pending :: "'c file_worker \<Rightarrow> string" where
  "pending b = concat (chunks (Queue b)) @ current (Queue b)"

definition queue_inv ::
  "('c \<Rightarrow> bool) \<Rightarrow> (nat option \<Rightarrow> nat \<Rightarrow> u64 \<Rightarrow> 'c \<Rightarrow> heap \<Rightarrow> 'c \<times> heap \<times> data_buffer option) \<Rightarrow>
     (data_buffer \<Rightarrow> u64 \<Rightarrow> 'c \<Rightarrow> heap \<Rightarrow> 'c \<times> heap \<times> bool) \<Rightarrow> (nat \<Rightarrow> int) \<Rightarrow> 'c file_worker \<Rightarrow> bool" where
  "queue_inv good tk rt base b \<longleftrightarrow> accounts good base [] (Queue b) \<and> flags_ok (Queue b) \<and>
     with_callbacks tk rt (OptionsValue (Queue b)) \<and> QueuedBytes b = of_nat (length (pending b))"

text \<open>The worker's log holds \<open>c\<close> and accepts all that is queued and \<open>m\<close> bytes more.\<close>

definition writes_to ::
  "('c \<Rightarrow> bool) \<Rightarrow> (nat option \<Rightarrow> nat \<Rightarrow> u64 \<Rightarrow> 'c \<Rightarrow> heap \<Rightarrow> 'c \<times> heap \<times> data_buffer option) \<Rightarrow>
     (data_buffer \<Rightarrow> u64 \<Rightarrow> 'c \<Rightarrow> heap \<Rightarrow> 'c \<times> heap \<times> bool) \<Rightarrow> (nat \<Rightarrow> int) \<Rightarrow> string \<Rightarrow> nat \<Rightarrow> string \<Rightarrow>
     'c file_worker \<Rightarrow> bool" where
  "writes_to good tk rt base p m c b \<longleftrightarrow> queue_inv good tk rt base b \<and> MaxSize b = 0 \<and> AsyncMode b \<and>
     accepts p c (length (pending b) + m) b"

text \<open>What an operation of the worker leaves alone.\<close>

definition same_modes :: "'c file_worker \<Rightarrow> 'c file_worker \<Rightarrow> bool" where
  "same_modes b b' \<longleftrightarrow> ShutdownFlag b' = ShutdownFlag b \<and> FlushAfter b' = FlushAfter b \<and>
     Buffer_Queue.settings (Queue b') = Buffer_Queue.settings (Queue b)"

text \<open>Queued data has a flush time.\<close>

definition scheduled :: "'c file_worker \<Rightarrow> bool" where
  "scheduled b \<longleftrightarrow> (pending b \<noteq> [] \<longrightarrow> FlushTime b \<noteq> 0)"

definition file_state ::
  "'c file_worker \<Rightarrow> (string \<rightharpoonup> string) \<times> string option \<times> answer list \<times> nat \<times> bool \<times> bool \<times> u64" where
  "file_state b = (Files b, OpenFile b, SysAnswers b, MaxSize b, AsyncMode b, ShutdownFlag b, FlushAfter b)"

definition times :: "'c file_worker \<Rightarrow> u64 \<times> u64" where
  "times b = (FlushTime b, CurrentFirstWriteTime (Queue b))"

lemma same_modes_refl [simp]: "same_modes b b"
  by (simp add: same_modes_def)

lemma same_modes_trans: "same_modes b b1 \<Longrightarrow> same_modes b1 b' \<Longrightarrow> same_modes b b'"
  by (simp add: same_modes_def)

lemma queue_inv_cong:
  "Queue b' = Queue b \<Longrightarrow> QueuedBytes b' = QueuedBytes b \<Longrightarrow> queue_inv good tk rt base b' = queue_inv good tk rt base b"
  by (simp add: queue_inv_def pending_def)

lemma emit_fields [simp]:
  "Queue (emit e b) = Queue b" "QueuedBytes (emit e b) = QueuedBytes b" "FlushTime (emit e b) = FlushTime b"
  "pending (emit e b) = pending b" "file_state (emit e b) = file_state b" "FlushAfter (emit e b) = FlushAfter b"
  "queue_inv good tk rt base (emit e b) = queue_inv good tk rt base b" "same_modes b1 (emit e b) = same_modes b1 b"
  by (simp_all add: emit_def pending_def file_state_def queue_inv_def same_modes_def)

lemma signal_done_fields [simp]:
  "Queue (signal_done b) = Queue b" "QueuedBytes (signal_done b) = QueuedBytes b" "FlushTime (signal_done b) = FlushTime b"
  "pending (signal_done b) = pending b" "file_state (signal_done b) = file_state b"
  "queue_inv good tk rt base (signal_done b) = queue_inv good tk rt base b"
  "same_modes b1 (signal_done b) = same_modes b1 b"
  by (simp_all add: signal_done_def)

lemma RequestFlush_fields [simp]:
  "Queue (RequestFlush t b) = Queue b" "QueuedBytes (RequestFlush t b) = QueuedBytes b"
  "pending (RequestFlush t b) = pending b" "file_state (RequestFlush t b) = file_state b"
  "queue_inv good tk rt base (RequestFlush t b) = queue_inv good tk rt base b" "FlushAfter (RequestFlush t b) = FlushAfter b"
  "same_modes b1 (RequestFlush t b) = same_modes b1 b"
  by (simp_all add: RequestFlush_def pending_def file_state_def queue_inv_def emit_def same_modes_def)

lemma RequestFlush_time: "t \<noteq> 0 \<Longrightarrow> FlushTime (RequestFlush t b) \<noteq> 0"
  by (simp add: RequestFlush_def)

lemma RIGHT_NOW_nonzero [simp]: "RIGHT_NOW \<noteq> 0"
  by (simp add: RIGHT_NOW_def)

lemma set_write_time_fields [simp]:
  "QueuedBytes (set_write_time t b) = QueuedBytes b" "FlushTime (set_write_time t b) = FlushTime b"
  "file_state (set_write_time t b) = file_state b" "FlushAfter (set_write_time t b) = FlushAfter b"
  by (simp_all add: set_write_time_def file_state_def)

lemma set_write_time_inv:
  assumes "queue_inv good tk rt base b"
  shows "queue_inv good tk rt base (set_write_time t b) \<and> pending (set_write_time t b) = pending b \<and>
    same_modes b (set_write_time t b)"
  using assms set_time_spec [of good base "[]" "Queue b" t]
  by (simp add: queue_inv_def pending_def set_write_time_def Buffer_Queue.settings_def same_modes_def)

lemma after_append_spec:
  assumes "queue_inv good tk rt base b" and "b' = after_append now flushTime firstData b"
  shows "queue_inv good tk rt base b' \<and> pending b' = pending b \<and> same_modes b b' \<and> file_state b' = file_state b"
  unfolding assms(2) after_append_def Let_def using assms(1) by (simp add: set_write_time_inv [OF assms(1)])

lemma after_append_time:
  assumes "flushTime = FlushTime b" and "now + FlushAfter b \<noteq> 0" and "firstData \<or> FlushTime b \<noteq> 0"
  shows "FlushTime (after_append now flushTime firstData b) \<noteq> 0"
  using assms by (auto simp: after_append_def Let_def RequestFlush_time)

lemma appended_pending:
  "appended ok p (Queue b) q \<Longrightarrow> concat (chunks q) @ current q = pending b @ (if ok then p else [])"
  by (cases ok) (auto simp: appended_def pending_def)

text \<open>An append to an empty current buffer says that it is the first.\<close>

lemma take_replacement_current: "take_replacement q = (r, a, q') \<Longrightarrow> Current q' = Current q"
  by (auto simp: take_replacement_def TryTakeFreeBuffer_def TryCreateBuffer_def TryTakeCachedBuffer_def new_buffer_def
      Let_def CountAllocated_def split: list.splits option.splits if_splits prod.splits)

lemma append_current_first: "append_current p t q = (first, q') \<Longrightarrow> first \<longleftrightarrow> current q = []"
  by (auto simp: append_current_def Let_def current_def Size_def)

lemma Append_first:
  assumes "Append p t q = (True, ns, first, q')" and "current q = []" and "p \<noteq> []"
  shows "first"
proof -
  obtain r a q1 where t: "take_replacement q = (r, a, q1)" by (metis prod_cases3)
  then have "current q1 = []" using assms(2) take_replacement_current [OF t] by (simp add: current_def)
  then show ?thesis
    using assms t by (auto simp: Append_def Let_def split: if_splits option.splits prod.splits dest!: append_current_first)
qed

text \<open>Operations on the queue alone.\<close>

lemma writes_to_file_state:
  "writes_to good tk rt base p m c b \<Longrightarrow> file_state b' = file_state b \<Longrightarrow> queue_inv good tk rt base b' \<Longrightarrow>
     length (pending b') + m' \<le> length (pending b) + m \<Longrightarrow> writes_to good tk rt base p m' c b'"
  by (auto simp: writes_to_def file_state_def accepts_def)

text \<open>One run: what was ready is in the log; if nothing was ready and a flush was due at once, so is the
  current data.\<close>

definition kept_log :: "string \<Rightarrow> string \<Rightarrow> 'c file_worker \<Rightarrow> string \<Rightarrow> 'c file_worker \<Rightarrow> bool" where
  "kept_log p c b d b' \<longleftrightarrow> pending b = d @ pending b' \<and> Files b' = (Files b)(p \<mapsto> c @ d) \<and> same_modes b b'"

lemma kept_log_trans:
  "kept_log p c b d b1 \<Longrightarrow> kept_log p (c @ d) b1 e b' \<Longrightarrow> kept_log p c b (d @ e) b'"
  by (simp add: kept_log_def same_modes_def)

text \<open>The flush time after a run.\<close>

lemma update_fields [simp]:
  "Queue (UpdateFlushTimeAfterWork now b) = Queue b" "pending (UpdateFlushTimeAfterWork now b) = pending b"
  "file_state (UpdateFlushTimeAfterWork now b) = file_state b"
  "same_modes b1 (UpdateFlushTimeAfterWork now b) = same_modes b1 b"
  "Files (UpdateFlushTimeAfterWork now b) = Files b" "FlushAfter (UpdateFlushTimeAfterWork now b) = FlushAfter b"
  "queue_inv good tk rt base (UpdateFlushTimeAfterWork now b) = queue_inv good tk rt base b"
  by (simp_all add: UpdateFlushTimeAfterWork_def update_from_oldest_def Let_def pending_def file_state_def same_modes_def
      queue_inv_def)

lemma update_from_oldest_time: "FlushTime (update_from_oldest now oldest b) \<noteq> 0"
  by (auto simp: update_from_oldest_def Let_def)

lemma update_scheduled:
  assumes "flags_ok (Queue b)" and "scheduled b" and "now + FlushAfter b \<noteq> 0"
  shows "scheduled (UpdateFlushTimeAfterWork now b)"
proof (cases "HasCurrentDataFlagged (Queue b) \<or> HasReady (Queue b)")
  case True
  then have "pending b \<noteq> []"
    using assms(1) by (auto simp: flags_ok_def HasCurrentDataFlagged_def HasReady_def pending_def current_def chunks_def)
  then have "FlushTime b \<noteq> 0" using assms(2) by (simp add: scheduled_def)
  then have "FlushTime (UpdateFlushTimeAfterWork now b) \<noteq> 0"
    using True assms(3) by (auto simp: UpdateFlushTimeAfterWork_def update_from_oldest_time Let_def)
  then show ?thesis by (simp add: scheduled_def)
next
  case False
  then have "pending b = []"
    using assms(1) by (auto simp: flags_ok_def HasCurrentDataFlagged_def HasReady_def pending_def current_def chunks_def)
  then show ?thesis by (simp add: scheduled_def)
qed

lemma update_due:
  assumes "chunks (Queue b) = []" and "CurrentFirstWriteTime (Queue b) \<noteq> 0"
    and "CurrentFirstWriteTime (Queue b) + FlushAfter b \<le> now"
  shows "FlushTime (UpdateFlushTimeAfterWork now b) = RIGHT_NOW"
  using assms by (simp add: UpdateFlushTimeAfterWork_def update_from_oldest_def oldest_time_def chunks_def Let_def
      GetOldestReadyDataTime_def GetCurrentFirstWriteTimeSnapshot_def)

lemma settings_inv:
  "queue_inv good tk rt base b \<Longrightarrow> accounts good base [] q \<Longrightarrow> flags_ok q \<Longrightarrow>
     Buffer_Queue.settings q = Buffer_Queue.settings (Queue b) \<Longrightarrow> with_callbacks tk rt (OptionsValue q)"
  by (simp add: queue_inv_def Buffer_Queue.settings_def)

context buffer_cache
begin

lemma append_async_spec:
  assumes "queue_inv good take_cached return_cached base b" and "append_async now pl b = (b', n)"
  shows "queue_inv good take_cached return_cached base b' \<and> file_state b' = file_state b \<and> same_modes b b' \<and>
    n \<le> length pl \<and> pending b' = pending b @ take n pl \<and> (n = 0 \<or> n = length pl) \<and>
    (scheduled b \<and> now + FlushAfter b \<noteq> 0 \<longrightarrow> scheduled b')"
proof (cases "ShutdownFlag b \<or> pl = []")
  case True
  then show ?thesis using assms by (auto simp: append_async_def same_modes_def)
next
  case False
  define t where "t = first_write_time now (FlushTime b) (FlushAfter b)"
  obtain ok ns first q where a: "Append pl t (Queue b) = (ok, ns, first, q)" by (metis prod_cases4)
  have inv: "accounts good base [] (Queue b)" "flags_ok (Queue b)"
    "with_callbacks take_cached return_cached (OptionsValue (Queue b))" "QueuedBytes b = of_nat (length (pending b))"
    using assms(1) by (simp_all add: queue_inv_def)
  note sp = Append_spec [OF inv(1-3) a]
  have set: "Buffer_Queue.settings q = Buffer_Queue.settings (Queue b)" using sp by (simp add: appended_def)
  have cb: "with_callbacks take_cached return_cached (OptionsValue q)" using settings_inv [OF assms(1)] sp set by blast
  have pen: "concat (chunks q) @ current q = pending b @ (if ok then pl else [])" using sp appended_pending by blast
  show ?thesis
  proof (cases ok)
    case False
    let ?b = "b\<lparr>Queue := q\<rparr>"
    have "pending ?b = pending b" using pen False by (simp add: pending_def)
    then have "queue_inv good take_cached return_cached base ?b"
      using sp cb inv(4) by (simp add: queue_inv_def)
    moreover have "b' = (if CollectStatistics b then emit (QueueDropped (length pl)) ?b else ?b)" "n = 0"
      using assms(2) a False \<open>\<not> (ShutdownFlag b \<or> pl = [])\<close> by (simp_all add: append_async_def Let_def t_def)
    moreover have "file_state ?b = file_state b" "same_modes b ?b" using set by (simp_all add: file_state_def same_modes_def)
    ultimately show ?thesis using \<open>pending ?b = pending b\<close> by (simp add: scheduled_def)
  next
    case True
    let ?b = "b\<lparr>Queue := q, QueuedBytes := QueuedBytes b + of_nat (length pl)\<rparr>"
    have p1: "pending ?b = pending b @ pl" using pen True by (simp add: pending_def)
    then have q1: "queue_inv good take_cached return_cached base ?b"
      using sp cb inv(4) by (simp add: queue_inv_def)
    have b': "b' = after_append now (FlushTime b) first ?b" "n = length pl"
      using assms(2) a True \<open>\<not> (ShutdownFlag b \<or> pl = [])\<close> by (auto simp: append_async_def t_def)
    note st = after_append_spec [OF q1 b'(1)]
    have "FlushTime b' \<noteq> 0" if "scheduled b" "now + FlushAfter b \<noteq> 0"
    proof -
      have "first \<or> FlushTime b \<noteq> 0"
        using that(1) Append_first a True \<open>\<not> (ShutdownFlag b \<or> pl = [])\<close> by (auto simp: scheduled_def pending_def)
      then show ?thesis using that(2) after_append_time [of "FlushTime b" ?b now first] by (simp add: b'(1))
    qed
    moreover have "file_state ?b = file_state b" "same_modes b ?b" using set by (simp_all add: file_state_def same_modes_def)
    ultimately show ?thesis using st p1 same_modes_trans [of b ?b b'] by (simp add: b'(2) scheduled_def)
  qed
qed

lemma publish_counted_spec:
  assumes "queue_inv good take_cached return_cached base b" and "PublishCurrentCounted b = (b', ok)"
  shows "queue_inv good take_cached return_cached base b' \<and> file_state b' = file_state b \<and> same_modes b b' \<and>
    pending b' = pending b \<and> FlushTime b' = FlushTime b \<and> QueuedBytes b' = QueuedBytes b \<and>
    (if ok then chunks (Queue b') = chunks (Queue b) @ [current (Queue b)] \<and> current (Queue b') = []
     else chunks (Queue b') = chunks (Queue b) \<and> current (Queue b') = current (Queue b)) \<and>
    (ok \<longrightarrow> current (Queue b) \<noteq> [])"
proof -
  obtain ns q where pub: "publish None (Queue b) = (ok, ns, q)" and b': "b' = b\<lparr>Queue := q\<rparr>"
    using assms(2) by (auto simp: PublishCurrentCounted_def PublishCurrent_def split: prod.splits)
  have inv: "accounts good base [] (Queue b)" "flags_ok (Queue b)"
    "with_callbacks take_cached return_cached (OptionsValue (Queue b))"
    using assms(1) by (simp_all add: queue_inv_def)
  note sp = publish_spec [OF inv pub]
  have "with_callbacks take_cached return_cached (OptionsValue q)" using settings_inv [OF assms(1)] sp by blast
  moreover have "concat (chunks q) @ current q = pending b" using sp by (cases ok) (simp_all add: pending_def)
  moreover have "file_state b' = file_state b" by (simp add: b' file_state_def)
  ultimately show ?thesis using sp assms(1) by (auto simp: b' queue_inv_def pending_def same_modes_def)
qed

text \<open>With nothing ready and room for a second buffer, publishing current data succeeds.\<close>

lemma create_succeeds:
  assumes "accounts good base ext q" and "with_callbacks take_cached return_cached (OptionsValue q)"
    and "\<not> total_limit_reached q"
  shows "fst (TryCreateBuffer q) \<noteq> None"
proof -
  have g: "good (Cache q)" using assms(1) by (simp add: accounts_def)
  obtain r1 q1 where t: "TryTakeCachedBuffer q = (r1, q1)" by fastforce
  obtain b q2 where n: "(case r1 of Some b \<Rightarrow> (b, q1) | None \<Rightarrow> new_buffer q1) = (b, q2)" by fastforce
  have "\<not> total_limit_reached q2" using obtain_buffer [OF g assms(2) t n] assms(3) by (auto simp: charged_def)
  then show ?thesis using assms(3) t n by (simp add: TryCreateBuffer_def Let_def)
qed

lemma publish_succeeds:
  assumes "accounts good base [] q" and "with_callbacks take_cached return_cached (OptionsValue q)"
    and "chunks q = []" and "current q \<noteq> []" and "MaxTotalBuffers (OptionsValue q) \<noteq> 1"
  shows "fst (PublishCurrent q)"
proof -
  obtain r a q1 where t: "take_replacement q = (r, a, q1)" by (metis prod_cases3)
  have "r \<noteq> None"
  proof (cases "FreeList q")
    case Nil
    then have "TotalBuffers q = 1" using assms(1,3) by (simp add: accounts_def all_buffers_def chunks_def)
    then have "\<not> total_limit_reached q" using assms(5) by (auto simp: total_limit_reached_def)
    then show ?thesis using create_succeeds [OF assms(1,2)] t Nil
      by (auto simp: take_replacement_def TryTakeFreeBuffer_def split: prod.splits)
  next
    case (Cons x xs)
    then show ?thesis using t by (auto simp: take_replacement_def TryTakeFreeBuffer_def)
  qed
  moreover have "Size (Current q1) \<noteq> 0" using assms(4) take_replacement_current [OF t] by (simp add: current_def Size_def)
  ultimately show ?thesis using t
    by (auto simp: PublishCurrent_def publish_def swap_current_def split: prod.splits)
qed

lemma publish_counted_ok:
  assumes "queue_inv good take_cached return_cached base b" and "PublishCurrentCounted b = (b', ok)"
    and "chunks (Queue b) = []" and "current (Queue b) \<noteq> []" and "MaxTotalBuffers (OptionsValue (Queue b)) \<noteq> 1"
  shows "ok"
  using publish_succeeds [of base "Queue b"] assms
  by (auto simp: PublishCurrentCounted_def queue_inv_def split: prod.splits)

lemma finish_batch_spec:
  assumes "accounts good base data (Queue b)" and "flags_ok (Queue b)"
    and "with_callbacks take_cached return_cached (OptionsValue (Queue b))"
    and "QueuedBytes b = of_nat (length (concat (map Content data)) + length (pending b))"
  shows "queue_inv good take_cached return_cached base (finish_batch data ok t b) \<and>
    chunks (Queue (finish_batch data ok t b)) = chunks (Queue b) \<and>
    current (Queue (finish_batch data ok t b)) = current (Queue b) \<and>
    file_state (finish_batch data ok t b) = file_state b \<and> same_modes b (finish_batch data ok t b) \<and>
    times (finish_batch data ok t b) = times b"
proof -
  define q1 where "q1 = ReportWrite (length data) (length (concat (map Content data))) ok (Queue b)"
  define q2 where "q2 = Recycle data q1"
  define q3 where "q3 = (if \<not> HasCurrentDataFlagged q2 \<and> \<not> HasReady q2 then TrimFreeBuffersIfIdle q2 else q2)"
  have 1: "accounts good base (data @ []) q1" "frame (Queue b) q1"
    using assms(1) by (simp_all add: q1_def ReportWrite_def CountWritten_def frame_def)
  have 2: "accounts good base [] q2" "frame (Queue b) q2"
    using accounts_Recycle [OF 1(1)] frame_trans [OF 1(2)] by (auto simp: q2_def)
  then have w2: "with_callbacks take_cached return_cached (OptionsValue q2)" using assms(3) by (simp add: frame_def)
  have 3: "accounts good base [] q3" "frame (Queue b) q3"
    using accounts_DecayFreeLocked [OF 2(1) w2] 2 frame_trans [OF 2(2)] by (auto simp: q3_def TrimFreeBuffersIfIdle_def)
  have w3: "with_callbacks take_cached return_cached (OptionsValue q3)" using assms(3) 3(2) by (simp add: frame_def)
  let ?n = "length (concat (map Content data))"
  let ?b = "b\<lparr>Queue := q3, QueuedBytes := QueuedBytes b - of_nat ?n\<rparr>"
  have "pending ?b = pending b" using frame_carries [OF 3(2)] by (simp add: pending_def)
  then have q: "queue_inv good take_cached return_cached base ?b"
    using 3(1) w3 flags_frame [OF 3(2) assms(2)] assms(4) by (simp add: queue_inv_def)
  have fb: "\<exists>es. finish_batch data ok t b = signal_done (?b\<lparr>WorkerEvents := es\<rparr>)"
    by (rule exI [of _ "if CollectStatistics b then WorkerEvents b @ [BatchReported (batch_report (map Content data) t)] else WorkerEvents b"])
      (cases b, simp add: finish_batch_def Let_def q3_def q2_def q1_def emit_def)
  then obtain es where fb: "finish_batch data ok t b = signal_done (?b\<lparr>WorkerEvents := es\<rparr>)" ..
  have "queue_inv good take_cached return_cached base (?b\<lparr>WorkerEvents := es\<rparr>)" using q by (simp add: queue_inv_def pending_def)
  moreover have "file_state (?b\<lparr>WorkerEvents := es\<rparr>) = file_state b" "same_modes b (?b\<lparr>WorkerEvents := es\<rparr>)"
    using frame_carries [OF 3(2)] by (simp_all add: file_state_def same_modes_def)
  ultimately show ?thesis using frame_carries [OF 3(2)] 3(2) unfolding fb by (simp add: times_def frame_def)
qed

lemma WriteReadyData_spec:
  assumes "writes_to good take_cached return_cached base p m c b"
  shows "\<exists>b'. WriteReadyData w b = Some (b', chunks (Queue b) \<noteq> []) \<and>
    writes_to good take_cached return_cached base p m (c @ concat (chunks (Queue b))) b' \<and> same_modes b b' \<and>
    chunks (Queue b') = [] \<and> current (Queue b') = current (Queue b) \<and> times b' = times b \<and>
    Files b' = (Files b)(p \<mapsto> c @ concat (chunks (Queue b)))"
proof -
  have inv: "queue_inv good take_cached return_cached base b" and acc: "accepts p c (length (pending b) + m) b"
    and ms: "MaxSize b = 0" "AsyncMode b"
    using assms by (simp_all add: writes_to_def)
  have q: "accounts good base [] (Queue b)" "flags_ok (Queue b)"
    "with_callbacks take_cached return_cached (OptionsValue (Queue b))" "QueuedBytes b = of_nat (length (pending b))"
    using inv by (simp_all add: queue_inv_def)
  obtain ok data q1 where t: "TakeReady (Queue b) = (ok, data, q1)" by (metis prod_cases3)
  note sp = take_ready_spec [OF q(1,2) t]
  have w1: "with_callbacks take_cached return_cached (OptionsValue q1)"
    using q(3) settings_callbacks [of q1 "Queue b"] sp by blast
  let ?b1 = "b\<lparr>Queue := q1\<rparr>"
  have p1: "pending b = concat (chunks (Queue b)) @ pending ?b1" using sp by (simp add: pending_def)
  show ?thesis
  proof (cases "chunks (Queue b) = []")
    case True
    then have "ReadyList (Queue b) = []" by (simp add: chunks_def)
    then have w: "WriteReadyData w b = Some (signal_done ?b1, False)" using t by (simp add: WriteReadyData_def TakeReady_def)
    have q1: "queue_inv good take_cached return_cached base ?b1"
      using sp w1 q(4) p1 True by (auto simp: queue_inv_def)
    have "file_state ?b1 = file_state b" by (simp add: file_state_def)
    then have "writes_to good take_cached return_cached base p m c (signal_done ?b1)"
      by (intro writes_to_file_state [OF assms]) (use q1 p1 True in simp_all)
    moreover have "Files (signal_done ?b1) = (Files b)(p \<mapsto> c)"
      using acc by (simp add: signal_done_def emit_def accepts_def fun_upd_idem)
    ultimately show ?thesis using w sp True t by (auto simp: same_modes_def signal_done_def emit_def times_def TakeReady_def split: if_splits)
  next
    case False
    then have r: "ok" using t by (auto simp: TakeReady_def chunks_def split: if_splits)
    have "accepts p c (length (concat (map Content data))) ?b1"
      using acc sp p1 by (simp add: accepts_def)
    then obtain b2 ta where wb: "write_batch w (CollectStatistics b) (map Content data) ?b1 = Some (b2, True, ta)"
      and g: "grown p c (concat (map Content data)) ?b1 b2"
      using write_batch_grown ms by fastforce
    from g obtain n as where b2: "b2 = ?b1\<lparr>Files := (Files b)(p \<mapsto> c @ concat (map Content data)), CurrentSize := n, SysAnswers := as\<rparr>"
      "\<not> refusing as" "wrotes (SysAnswers b) \<le> wrotes as + length (concat (map Content data))"
      unfolding grown_def by auto
    let ?b3 = "finish_batch data True ta b2"
    have w: "WriteReadyData w b = Some (?b3, True)" using t r wb by (simp add: WriteReadyData_def)
    have "pending b2 = pending ?b1" by (simp add: b2 pending_def)
    then have "QueuedBytes b2 = of_nat (length (concat (map Content data)) + length (pending b2))"
      using q(4) p1 sp by (simp add: b2)
    then have f: "queue_inv good take_cached return_cached base ?b3 \<and> chunks (Queue ?b3) = chunks (Queue b2) \<and>
        current (Queue ?b3) = current (Queue b2) \<and> file_state ?b3 = file_state b2 \<and> same_modes b2 ?b3 \<and>
        times ?b3 = times b2"
      by (intro finish_batch_spec) (use sp w1 in \<open>simp_all add: b2\<close>)
    then have p3: "pending ?b3 = pending ?b1" by (simp add: pending_def b2)
    have "writes_to good take_cached return_cached base p m (c @ concat (chunks (Queue b))) ?b3"
      using f p3 sp ms acc p1 b2 by (auto simp: writes_to_def file_state_def accepts_def)
    then show ?thesis using w f sp t False same_modes_trans [of b b2 ?b3]
      by (auto simp: b2 file_state_def same_modes_def times_def TakeReady_def split: if_splits)
  qed
qed

lemma WriteReadyData_kept:
  assumes "writes_to good take_cached return_cached base p m c b"
  obtains b' where "WriteReadyData w b = Some (b', chunks (Queue b) \<noteq> [])"
    "writes_to good take_cached return_cached base p m (c @ concat (chunks (Queue b))) b'"
    "kept_log p c b (concat (chunks (Queue b))) b'" "chunks (Queue b') = []" "current (Queue b') = current (Queue b)"
    "times b' = times b"
proof -
  from WriteReadyData_spec [OF assms, of w] obtain b' where r: "WriteReadyData w b = Some (b', chunks (Queue b) \<noteq> [])"
    "writes_to good take_cached return_cached base p m (c @ concat (chunks (Queue b))) b'"
    "chunks (Queue b') = []" "current (Queue b') = current (Queue b)"
    "Files b' = (Files b)(p \<mapsto> c @ concat (chunks (Queue b)))" "same_modes b b'" "times b' = times b"
    by blast
  moreover from r have "kept_log p c b (concat (chunks (Queue b))) b'" by (simp add: kept_log_def pending_def)
  ultimately show thesis using that by blast
qed

lemma publish_kept:
  assumes "writes_to good take_cached return_cached base p m c b" and "PublishCurrentCounted b = (b', ok)"
  shows "writes_to good take_cached return_cached base p m c b' \<and> kept_log p c b [] b' \<and> FlushTime b' = FlushTime b"
proof -
  have "queue_inv good take_cached return_cached base b" "accepts p c (length (pending b) + m) b"
    using assms(1) by (simp_all add: writes_to_def)
  note sp = publish_counted_spec [OF this(1) assms(2)]
  then have "writes_to good take_cached return_cached base p m c b'"
    by (intro writes_to_file_state [OF assms(1)]) auto
  moreover have "Files b' = (Files b)(p \<mapsto> c)"
    using sp \<open>accepts p c (length (pending b) + m) b\<close> by (simp add: file_state_def accepts_def fun_upd_idem)
  ultimately show ?thesis using sp by (simp add: kept_log_def)
qed

lemma worker_loop_ready:
  assumes "writes_to good take_cached return_cached base p m c b" and "\<not> force"
  shows "\<exists>b'. worker_loop (Suc (Suc n)) w force b = Some b' \<and>
    writes_to good take_cached return_cached base p m (c @ concat (chunks (Queue b))) b' \<and>
    kept_log p c b (concat (chunks (Queue b))) b' \<and> chunks (Queue b') = [] \<and>
    times b' = times b"
proof -
  from WriteReadyData_kept [OF assms(1), of w] obtain b1 where
    1: "WriteReadyData w b = Some (b1, chunks (Queue b) \<noteq> [])"
    "writes_to good take_cached return_cached base p m (c @ concat (chunks (Queue b))) b1"
    "kept_log p c b (concat (chunks (Queue b))) b1" "chunks (Queue b1) = []" "times b1 = times b"
    by blast
  show ?thesis
  proof (cases "chunks (Queue b) = []")
    case True
    then show ?thesis using 1 assms(2) by auto
  next
    case False
    from WriteReadyData_kept [OF 1(2), of w] obtain b2 where
      2: "WriteReadyData w b1 = Some (b2, False)"
      "writes_to good take_cached return_cached base p m (c @ concat (chunks (Queue b))) b2"
      "kept_log p (c @ concat (chunks (Queue b))) b1 [] b2" "chunks (Queue b2) = []" "times b2 = times b1"
      using 1(4) by auto
    then show ?thesis using 1 False kept_log_trans [OF 1(3) 2(3)] by simp
  qed
qed

lemma worker_loop_spec:
  assumes "writes_to good take_cached return_cached base p m c b"
  shows "\<exists>b' d. worker_loop 5 w force b = Some b' \<and> writes_to good take_cached return_cached base p m (c @ d) b' \<and>
    kept_log p c b d b' \<and> chunks (Queue b') = [] \<and> FlushTime b' = FlushTime b \<and>
    (force \<and> chunks (Queue b) = [] \<or> times b' = times b) \<and>
    (force \<and> chunks (Queue b) = [] \<and> MaxTotalBuffers (OptionsValue (Queue b)) \<noteq> 1 \<longrightarrow> pending b' = [])"
proof (cases "force \<and> chunks (Queue b) = []")
  case False
  have five: "5 = Suc (Suc 3)" by simp
  show ?thesis
  proof (cases force)
    case True
    then have c0: "chunks (Queue b) \<noteq> []" using False by simp
    from WriteReadyData_kept [OF assms, of w] obtain b1 where
      1: "WriteReadyData w b = Some (b1, True)"
      "writes_to good take_cached return_cached base p m (c @ concat (chunks (Queue b))) b1"
      "kept_log p c b (concat (chunks (Queue b))) b1" "chunks (Queue b1) = []" "times b1 = times b"
      using c0 by auto
    from worker_loop_ready [OF 1(2), of False 2 w] obtain b' where
      2: "worker_loop (Suc (Suc 2)) w False b1 = Some b'"
      "writes_to good take_cached return_cached base p m (c @ concat (chunks (Queue b))) b'"
      "kept_log p (c @ concat (chunks (Queue b))) b1 [] b'" "chunks (Queue b') = []" "times b' = times b1"
      using 1(4) by auto
    have "worker_loop 5 w force b = Some b'" using 1(1) 2(1) by (simp add: eval_nat_numeral)
    moreover have "kept_log p c b (concat (chunks (Queue b))) b'" "times b' = times b" "FlushTime b' = FlushTime b"
      using kept_log_trans [OF 1(3) 2(3)] 2(5) 1(5) by (simp_all add: times_def)
    ultimately show ?thesis using 2(2,4) c0 by blast
  next
    case False
    from worker_loop_ready [OF assms False, of 3 w] False show ?thesis unfolding five by (fastforce simp: times_def simp del: worker_loop.simps)
  qed
next
  case True
  then have c0: "chunks (Queue b) = []" and f: "force" by simp_all
  from WriteReadyData_kept [OF assms, of w] c0 obtain b1 where
    1: "WriteReadyData w b = Some (b1, False)" "writes_to good take_cached return_cached base p m c b1"
    "kept_log p c b [] b1" "chunks (Queue b1) = []" "current (Queue b1) = current (Queue b)" "times b1 = times b"
    by auto
  have q1: "queue_inv good take_cached return_cached base b1" using 1(2) by (simp add: writes_to_def)
  obtain b2 ok where pub: "PublishCurrentCounted b1 = (b2, ok)" by fastforce
  note k2 = publish_kept [OF 1(2) pub]
  note sp = publish_counted_spec [OF q1 pub]
  have k: "kept_log p c b [] b2" using kept_log_trans [OF 1(3), of "[]" b2] k2 by simp
  show ?thesis
  proof (cases ok)
    case True
    from worker_loop_ready [of base p m c b2 False 2 w] k2 obtain b' where
      3: "worker_loop (Suc (Suc 2)) w False b2 = Some b'"
      "writes_to good take_cached return_cached base p m (c @ concat (chunks (Queue b2))) b'"
      "kept_log p c b2 (concat (chunks (Queue b2))) b'" "chunks (Queue b') = []" "times b' = times b2"
      by auto
    have w: "worker_loop 5 w force b = Some b'" using 1(1) pub 3(1) f True by (simp add: eval_nat_numeral)
    have "concat (chunks (Queue b2)) = pending b" using sp True 1(4,5) c0 by (simp add: pending_def)
    then have "kept_log p c b (pending b) b'"
      using kept_log_trans [OF k, of "concat (chunks (Queue b2))" b'] 3(3) by simp
    moreover from this have "pending b' = []" by (simp add: kept_log_def)
    moreover have "writes_to good take_cached return_cached base p m (c @ pending b) b'" "FlushTime b' = FlushTime b"
      using 3(2,5) k2 1(6) \<open>concat (chunks (Queue b2)) = pending b\<close> by (simp_all add: times_def)
    ultimately show ?thesis using w 3(4) f c0 by blast
  next
    case False
    have w: "worker_loop 5 w force b = Some b2" using 1(1) pub f False by (simp add: eval_nat_numeral)
    have "current (Queue b1) = []" if "MaxTotalBuffers (OptionsValue (Queue b)) \<noteq> 1"
      using publish_counted_ok [OF q1 pub 1(4)] that False 1(3)
      by (auto simp: kept_log_def same_modes_def Buffer_Queue.settings_def)
    moreover have "writes_to good take_cached return_cached base p m (c @ []) b2" "FlushTime b2 = FlushTime b"
      using k2 1(6) by (simp_all add: times_def)
    ultimately show ?thesis
      by (intro exI [of _ b2] exI [of _ "[]"]) (use w k k2 sp False 1(4,5) f c0 in \<open>auto simp: pending_def\<close>)
  qed
qed

lemma WorkerFunc_spec:
  assumes "writes_to good take_cached return_cached base p m c b"
  shows "\<exists>b' d. WorkerFunc w now b = Some (b', \<not> ShutdownFlag b) \<and>
    writes_to good take_cached return_cached base p m (c @ d) b' \<and> kept_log p c b d b' \<and> chunks (Queue b') = [] \<and>
    (scheduled b \<and> now + FlushAfter b \<noteq> 0 \<longrightarrow> scheduled b') \<and>
    (MaxTotalBuffers (OptionsValue (Queue b)) \<noteq> 1 \<longrightarrow>
       ((ShutdownFlag b \<or> FlushTime b = RIGHT_NOW) \<and> chunks (Queue b) = [] \<longrightarrow> pending b' = []) \<and>
       (CurrentFirstWriteTime (Queue b) \<noteq> 0 \<and> CurrentFirstWriteTime (Queue b) + FlushAfter b \<le> now \<longrightarrow>
          pending b' = [] \<or> FlushTime b' = RIGHT_NOW))"
proof -
  let ?f = "ShutdownFlag b \<or> FlushTime b = RIGHT_NOW"
  from worker_loop_spec [OF assms, of w ?f] obtain b1 d where
    l: "worker_loop 5 w ?f b = Some b1" "writes_to good take_cached return_cached base p m (c @ d) b1"
    "kept_log p c b d b1" "chunks (Queue b1) = []" "FlushTime b1 = FlushTime b"
    "?f \<and> chunks (Queue b) = [] \<or> times b1 = times b"
    "?f \<and> chunks (Queue b) = [] \<and> MaxTotalBuffers (OptionsValue (Queue b)) \<noteq> 1 \<longrightarrow> pending b1 = []"
    by blast
  let ?b' = "UpdateFlushTimeAfterWork now b1"
  have fl: "FlushAfter b1 = FlushAfter b" "ShutdownFlag b1 = ShutdownFlag b"
    using l(3) by (simp_all add: kept_log_def same_modes_def)
  then have w: "WorkerFunc w now b = Some (?b', \<not> ShutdownFlag b)" using l(1) by (simp add: WorkerFunc_def)
  have q1: "queue_inv good take_cached return_cached base b1" using l(2) by (simp add: writes_to_def)
  have "writes_to good take_cached return_cached base p m (c @ d) ?b'"
    by (rule writes_to_file_state [OF l(2)]) (use q1 in simp_all)
  moreover have "kept_log p c b d ?b'" using l(3) by (simp add: kept_log_def)
  moreover have "scheduled ?b'" if "scheduled b" "now + FlushAfter b \<noteq> 0"
    by (rule update_scheduled) (use that q1 l(3,5) fl in \<open>auto simp: queue_inv_def scheduled_def kept_log_def\<close>)
  moreover have "pending ?b' = [] \<or> FlushTime ?b' = RIGHT_NOW"
    if "MaxTotalBuffers (OptionsValue (Queue b)) \<noteq> 1" "CurrentFirstWriteTime (Queue b) \<noteq> 0"
      "CurrentFirstWriteTime (Queue b) + FlushAfter b \<le> now"
    using that l(4,6,7) fl update_due [of b1 now] by (auto simp: times_def)
  ultimately show ?thesis using w l(4,7) by (intro exI [of _ ?b'] exI [of _ d]) simp
qed

text \<open>Two runs that are due.\<close>

lemma WorkerFunc_twice:
  assumes "writes_to good take_cached return_cached base p m c b" and "MaxTotalBuffers (OptionsValue (Queue b)) \<noteq> 1"
    and "CurrentFirstWriteTime (Queue b) \<noteq> 0" and "CurrentFirstWriteTime (Queue b) + FlushAfter b \<le> now"
  shows "\<exists>b1 b2 r. WorkerFunc w now b = Some (b1, r) \<and> WorkerFunc w' now' b1 = Some (b2, r) \<and>
    pending b2 = [] \<and> Files b2 = (Files b)(p \<mapsto> c @ pending b) \<and>
    writes_to good take_cached return_cached base p m (c @ pending b) b2"
proof -
  from WorkerFunc_spec [OF assms(1), of w now] assms(2-4) obtain b1 d where
    1: "WorkerFunc w now b = Some (b1, \<not> ShutdownFlag b)" "writes_to good take_cached return_cached base p m (c @ d) b1"
    "kept_log p c b d b1" "chunks (Queue b1) = []" "pending b1 = [] \<or> FlushTime b1 = RIGHT_NOW"
    by blast
  have m1: "MaxTotalBuffers (OptionsValue (Queue b1)) \<noteq> 1" "ShutdownFlag b1 = ShutdownFlag b"
    using 1(3) assms(2) by (simp_all add: kept_log_def same_modes_def Buffer_Queue.settings_def)
  from WorkerFunc_spec [OF 1(2), of w' now'] m1(1) obtain b2 e where
    2: "WorkerFunc w' now' b1 = Some (b2, \<not> ShutdownFlag b1)"
    "writes_to good take_cached return_cached base p m ((c @ d) @ e) b2" "kept_log p (c @ d) b1 e b2"
    "FlushTime b1 = RIGHT_NOW \<longrightarrow> pending b2 = []" using 1(4) by blast
  then have "pending b2 = []" using 1(5) by (auto simp: kept_log_def)
  then have "d @ e = pending b" using 1(3) 2(3) by (simp add: kept_log_def)
  moreover have "Files b2 = (Files b)(p \<mapsto> c @ d @ e)" using 1(3) 2(3) by (simp add: kept_log_def)
  ultimately show ?thesis using 1(1) 2(1,2) m1(2) \<open>pending b2 = []\<close> by auto
qed

text \<open>Publishing until nothing is current, and emptying the queue.\<close>

lemma publish_all_spec:
  assumes "writes_to good take_cached return_cached base p m c b"
  shows "\<exists>b'. publish_all b = Some b' \<and> writes_to good take_cached return_cached base p m c b' \<and> kept_log p c b [] b' \<and>
    FlushTime b' = FlushTime b"
proof -
  obtain b1 ok where 1: "PublishCurrentCounted b = (b1, ok)" by fastforce
  note k1 = publish_kept [OF assms 1]
  show ?thesis
  proof (cases ok)
    case False
    then show ?thesis using 1 k1 by (subst publish_all.simps) simp
  next
    case True
    obtain b2 ok2 where 2: "PublishCurrentCounted b1 = (b2, ok2)" by fastforce
    have "writes_to good take_cached return_cached base p m c b1" using k1 by simp
    note k2 = publish_kept [OF this 2]
    have "queue_inv good take_cached return_cached base b" "queue_inv good take_cached return_cached base b1"
      using assms k1 by (simp_all add: writes_to_def)
    then have "\<not> ok2" using publish_counted_spec [OF _ 1] publish_counted_spec [OF _ 2] True by auto
    then have "publish_all b = Some b2"
      using 1 2 True by (subst publish_all.simps, simp) (subst publish_all.simps, simp)
    then show ?thesis using k1 k2 kept_log_trans [of p c b "[]" b1 "[]" b2] by simp
  qed
qed

lemma drain_spec:
  assumes "writes_to good take_cached return_cached base p m c b" and "MaxTotalBuffers (OptionsValue (Queue b)) \<noteq> 1"
  shows "\<exists>b'. drain w b = Some b' \<and> writes_to good take_cached return_cached base p m (c @ pending b) b' \<and>
    kept_log p c b (pending b) b' \<and> QueuedBytes b' = 0"
proof -
  have drained: "QueuedBytes b = 0 \<longleftrightarrow> pending b = []"
    if "writes_to good take_cached return_cached base p m c b" for b c
    using that by (auto simp: writes_to_def queue_inv_def accepts_def word_of_nat_eq_0_iff dest: dvd_imp_le)
  have ready: "\<exists>b'. drain w b = Some b' \<and> writes_to good take_cached return_cached base p m (c @ pending b) b' \<and>
      kept_log p c b (pending b) b'"
    if b: "writes_to good take_cached return_cached base p m c b" "current (Queue b) = []" for b c
  proof (cases "pending b = []")
    case True
    have "QueuedBytes b = 0" by (rule iffD2 [OF drained [OF b(1)] True])
    then have "drain w b = Some b" by (subst drain.simps) simp
    then show ?thesis using b True by (simp add: kept_log_def writes_to_def accepts_def fun_upd_idem)
  next
    case False
    then have "chunks (Queue b) \<noteq> []" using b(2) by (auto simp: pending_def)
    with WriteReadyData_kept [OF b(1), of w] obtain b1 where 1: "WriteReadyData w b = Some (b1, True)"
      "writes_to good take_cached return_cached base p m (c @ concat (chunks (Queue b))) b1"
      "kept_log p c b (concat (chunks (Queue b))) b1" by auto
    have p: "pending b = concat (chunks (Queue b))" using b(2) by (simp add: pending_def)
    then have "pending b1 = []" using 1(3) by (simp add: kept_log_def)
    then have "QueuedBytes b1 = 0" using drained [OF 1(2)] by simp
    then have "drain w b = Some b1"
      using 1(1) False drained [OF b(1)] by (subst drain.simps, simp) (subst drain.simps, simp)
    then show ?thesis using 1 p by simp
  qed
  have publish: "\<exists>b'. drain w b = Some b' \<and> writes_to good take_cached return_cached base p m (c @ pending b) b' \<and>
      kept_log p c b (pending b) b'"
    if b: "writes_to good take_cached return_cached base p m c b" "chunks (Queue b) = []" "current (Queue b) \<noteq> []"
      "MaxTotalBuffers (OptionsValue (Queue b)) \<noteq> 1" for b c
  proof -
    from WriteReadyData_kept [OF b(1), of w] b(2) obtain b1 where 1: "WriteReadyData w b = Some (b1, False)"
      "writes_to good take_cached return_cached base p m c b1" "kept_log p c b [] b1"
      "chunks (Queue b1) = []" "current (Queue b1) = current (Queue b)" by auto
    have q1: "queue_inv good take_cached return_cached base b1" using 1(2) by (simp add: writes_to_def)
    obtain b2 ok where pub: "PublishCurrentCounted b1 = (b2, ok)" by fastforce
    have ok: "ok" by (rule publish_counted_ok [OF q1 pub])
      (use 1(3-5) b(3,4) in \<open>simp_all add: kept_log_def same_modes_def Buffer_Queue.settings_def\<close>)
    note k2 = publish_kept [OF 1(2) pub]
    have "current (Queue b2) = []" using publish_counted_spec [OF q1 pub] ok by simp
    with ready [of c b2] k2 obtain b' where 3: "drain w b2 = Some b'"
      "writes_to good take_cached return_cached base p m (c @ pending b2) b'" "kept_log p c b2 (pending b2) b'" by blast
    have "pending b2 = pending b" using 1(3) k2 by (simp add: kept_log_def)
    moreover have "drain w b = drain w b2"
      using 1(1) pub ok b(3) drained [OF b(1)] by (subst drain.simps) (auto simp: pending_def)
    moreover have "kept_log p c b (pending b2) b'"
      using kept_log_trans [OF 1(3), of "[]" b2] k2 kept_log_trans [of p c b "[]" b2 "pending b2" b'] 3(3) by simp
    ultimately show ?thesis using 3 by simp
  qed
  have "\<exists>b'. drain w b = Some b' \<and> writes_to good take_cached return_cached base p m (c @ pending b) b' \<and>
      kept_log p c b (pending b) b'"
  proof (cases "current (Queue b) = [] \<or> chunks (Queue b) = []")
    case True
    then show ?thesis using ready [OF assms(1)] publish [OF assms(1) _ _ assms(2)] by blast
  next
    case False
    then have ne: "chunks (Queue b) \<noteq> []" "current (Queue b) \<noteq> []" by simp_all
    from WriteReadyData_kept [OF assms(1), of w] obtain b1 where
      w1: "WriteReadyData w b = Some (b1, chunks (Queue b) \<noteq> [])" and
      1: "writes_to good take_cached return_cached base p m (c @ concat (chunks (Queue b))) b1"
      "kept_log p c b (concat (chunks (Queue b))) b1" "chunks (Queue b1) = []" "current (Queue b1) = current (Queue b)" by blast
    have w1: "WriteReadyData w b = Some (b1, True)" and cur: "current (Queue b1) \<noteq> []" using w1 ne 1(4) by simp_all
    have "MaxTotalBuffers (OptionsValue (Queue b1)) \<noteq> 1"
      using 1(2) assms(2) by (simp add: kept_log_def same_modes_def Buffer_Queue.settings_def)
    from publish [OF 1(1,3) cur this] obtain b' where 2: "drain w b1 = Some b'"
      "writes_to good take_cached return_cached base p m ((c @ concat (chunks (Queue b))) @ pending b1) b'"
      "kept_log p (c @ concat (chunks (Queue b))) b1 (pending b1) b'" by blast
    have "pending b \<noteq> []" using ne by (simp add: pending_def)
    then have "drain w b = drain w b1"
      using w1 drained [OF assms(1)] by (subst drain.simps) simp
    moreover have "pending b = concat (chunks (Queue b)) @ pending b1" using 1(2) by (simp add: kept_log_def)
    ultimately have e: "pending b = concat (chunks (Queue b)) @ pending b1" "drain w b = drain w b1" by blast+
    have "kept_log p c b (pending b) b'" using kept_log_trans [OF 1(2) 2(3)] by (simp only: e(1))
    moreover have "writes_to good take_cached return_cached base p m (c @ pending b) b'"
      using 2(2) by (simp only: e(1) append.assoc)
    ultimately show ?thesis using 2(1) e(2) by auto
  qed
  then obtain b' where b': "drain w b = Some b'" "writes_to good take_cached return_cached base p m (c @ pending b) b'"
    "kept_log p c b (pending b) b'" by blast
  moreover have "pending b' = []" using b'(3) by (simp add: kept_log_def)
  ultimately show ?thesis using drained [OF b'(2)] by blast
qed

text \<open>A queue that may have one buffer only never publishes it.\<close>

lemma single_buffer:
  assumes "queue_inv good take_cached return_cached base b" and "MaxTotalBuffers (OptionsValue (Queue b)) = 1"
  shows "chunks (Queue b) = []" and "PublishCurrentCounted b = (b', ok) \<Longrightarrow> \<not> ok"
proof -
  have none: "chunks q = []" if "accounts good base [] q" "MaxTotalBuffers (OptionsValue q) = 1" for q
  proof -
    have "TotalBuffers q = 1 + int (length (FreeList q)) + int (length (ReadyList q))" "TotalBuffers q \<le> 1"
      using that by (simp_all add: accounts_def all_buffers_def within_limit_def)
    then have "int (length (ReadyList q)) = 0" by linarith
    then show ?thesis by (simp add: chunks_def)
  qed
  show "chunks (Queue b) = []" using none [of "Queue b"] assms by (simp add: queue_inv_def)
  show "\<not> ok" if p: "PublishCurrentCounted b = (b', ok)"
    using publish_counted_spec [OF assms(1) p] none [of "Queue b'"] assms(2)
    by (auto simp: queue_inv_def same_modes_def Buffer_Queue.settings_def)
qed

lemma WorkerFunc_single:
  assumes "writes_to good take_cached return_cached base p m c b" and "MaxTotalBuffers (OptionsValue (Queue b)) = 1"
    and "WorkerFunc w now b = Some (b', r)"
  shows "pending b' = pending b"
proof -
  have q: "queue_inv good take_cached return_cached base b" using assms(1) by (simp add: writes_to_def)
  from WriteReadyData_kept [OF assms(1), of w] single_buffer(1) [OF q assms(2)] obtain b1 where
    1: "WriteReadyData w b = Some (b1, False)" "writes_to good take_cached return_cached base p m c b1" "kept_log p c b [] b1"
    by auto
  have q1: "queue_inv good take_cached return_cached base b1" using 1(2) by (simp add: writes_to_def)
  obtain b2 ok where pub: "PublishCurrentCounted b1 = (b2, ok)" by fastforce
  have m1: "MaxTotalBuffers (OptionsValue (Queue b1)) = 1"
    using 1(3) assms(2) by (simp add: kept_log_def same_modes_def Buffer_Queue.settings_def)
  have "\<not> ok" by (rule single_buffer(2) [OF q1 m1 pub])
  moreover have "pending b2 = pending b1" using publish_kept [OF 1(2) pub] by (simp add: kept_log_def)
  ultimately show ?thesis
    using assms(3) 1(1,3) pub by (auto simp: WorkerFunc_def eval_nat_numeral kept_log_def split: if_splits)
qed

lemma run_op_spec:
  assumes "writes_to good take_cached return_cached base p (offered o' + m) c b"
  shows "\<exists>b' s d. run_op o' b = Some (b', s) \<and> writes_to good take_cached return_cached base p m (c @ d) b' \<and>
    Files b' = (Files b)(p \<mapsto> c @ d) \<and> pending b @ s = d @ pending b' \<and>
    FlushAfter b' = FlushAfter b \<and> OptionsValue (Queue b') = OptionsValue (Queue b) \<and>
    (scheduled b \<and> timed (FlushAfter b) o' \<longrightarrow> scheduled b') \<and>
    (MaxTotalBuffers (OptionsValue (Queue b)) = 1 \<longrightarrow> d = [])"
proof (cases o')
  case (DoOutput w now s)
  have inv: "queue_inv good take_cached return_cached base b" "AsyncMode b" "Files b p = Some c"
    using assms by (simp_all add: writes_to_def accepts_def)
  obtain b' n where a: "append_async now s b = (b', n)" by fastforce
  note sp = append_async_spec [OF inv(1) a]
  have "length (pending b') \<le> length (pending b) + length s" using sp by simp
  then have "writes_to good take_cached return_cached base p m c b'"
    using sp DoOutput by (intro writes_to_file_state [OF assms]) auto
  then show ?thesis using sp a inv DoOutput
    by (intro exI [of _ b'] exI [of _ "take n s"] exI [of _ "[]"])
      (simp add: AppendOutputData_def file_state_def fun_upd_idem same_modes_def Buffer_Queue.settings_def)
next
  case DoFreeze
  let ?b = "b\<lparr>ShutdownFlag := True\<rparr>"
  have ac: "AsyncMode b" "Files b p = Some c" and w: "writes_to good take_cached return_cached base p m c b"
    using assms DoFreeze by (simp_all add: writes_to_def accepts_def)
  have "pending ?b = pending b" by (simp add: pending_def)
  then have w1: "writes_to good take_cached return_cached base p m c ?b"
    using w by (simp add: writes_to_def queue_inv_def accepts_def)
  have "writes_to good take_cached return_cached base p m c (RequestFlush RIGHT_NOW ?b)"
    by (rule writes_to_file_state [OF w1]) (use w1 in \<open>simp_all add: writes_to_def\<close>)
  moreover have "scheduled (RequestFlush RIGHT_NOW ?b)" by (simp add: scheduled_def RequestFlush_time)
  moreover have "Files (RequestFlush RIGHT_NOW ?b) = Files b" by (simp add: RequestFlush_def emit_def)
  ultimately show ?thesis using ac DoFreeze \<open>pending ?b = pending b\<close>
    by (intro exI [of _ "RequestFlush RIGHT_NOW ?b"] exI [of _ "[]"]) (simp add: FileBackend_Freeze_def Let_def fun_upd_idem)
next
  case DoFlush
  have ac: "AsyncMode b" using assms by (simp add: writes_to_def)
  have "writes_to good take_cached return_cached base p m c b" using assms DoFlush by simp
  from publish_all_spec [OF this] obtain b1 where 1: "publish_all b = Some b1"
    "writes_to good take_cached return_cached base p m c b1" "kept_log p c b [] b1" by blast
  let ?b' = "RequestFlush RIGHT_NOW b1"
  have "writes_to good take_cached return_cached base p m c ?b'"
    by (rule writes_to_file_state [OF 1(2)]) (use 1(2) in \<open>simp_all add: writes_to_def\<close>)
  moreover have "scheduled ?b'" by (simp add: scheduled_def RequestFlush_time)
  moreover have "Files ?b' = Files b1" by (simp add: RequestFlush_def emit_def)
  ultimately show ?thesis using 1 ac DoFlush
    by (intro exI [of _ ?b'] exI [of _ "[]"]) (simp add: FileBackend_Flush_def kept_log_def same_modes_def Buffer_Queue.settings_def)
next
  case (DoWork w now)
  have w: "writes_to good take_cached return_cached base p m c b" using assms DoWork by simp
  from WorkerFunc_spec [OF w, of w now] obtain b' d where
    1: "WorkerFunc w now b = Some (b', \<not> ShutdownFlag b)" "writes_to good take_cached return_cached base p m (c @ d) b'"
    "kept_log p c b d b'" "scheduled b \<and> now + FlushAfter b \<noteq> 0 \<longrightarrow> scheduled b'" by blast
  moreover have "d = []" if "MaxTotalBuffers (OptionsValue (Queue b)) = 1"
    using WorkerFunc_single [OF w that 1(1)] 1(3) by (simp add: kept_log_def)
  ultimately show ?thesis using DoWork
    by (intro exI [of _ b'] exI [of _ "[]"] exI [of _ d]) (simp add: kept_log_def same_modes_def Buffer_Queue.settings_def)
qed

lemma run_worker_spec:
  assumes "writes_to good take_cached return_cached base p (sum_list (map offered ops) + m) c b"
  shows "\<exists>b' s d. run_worker ops b = Some (b', s) \<and> writes_to good take_cached return_cached base p m (c @ d) b' \<and>
    Files b' = (Files b)(p \<mapsto> c @ d) \<and> pending b @ s = d @ pending b' \<and>
    FlushAfter b' = FlushAfter b \<and> OptionsValue (Queue b') = OptionsValue (Queue b) \<and>
    (scheduled b \<and> list_all (timed (FlushAfter b)) ops \<longrightarrow> scheduled b') \<and>
    (MaxTotalBuffers (OptionsValue (Queue b)) = 1 \<longrightarrow> d = [])"
  using assms
proof (induction ops arbitrary: b c)
  case Nil
  then show ?case by (intro exI [of _ b] exI [of _ "[]"]) (simp add: writes_to_def accepts_def fun_upd_idem)
next
  case (Cons o' ops)
  have "writes_to good take_cached return_cached base p (offered o' + (sum_list (map offered ops) + m)) c b"
    using Cons.prems by (simp add: add.assoc)
  from run_op_spec [OF this] obtain b1 s d where
    1: "run_op o' b = Some (b1, s)" "writes_to good take_cached return_cached base p (sum_list (map offered ops) + m) (c @ d) b1"
    "Files b1 = (Files b)(p \<mapsto> c @ d)" "pending b @ s = d @ pending b1" "FlushAfter b1 = FlushAfter b" "OptionsValue (Queue b1) = OptionsValue (Queue b)"
    "scheduled b \<and> timed (FlushAfter b) o' \<longrightarrow> scheduled b1"
    "MaxTotalBuffers (OptionsValue (Queue b)) = 1 \<longrightarrow> d = []" by blast
  from Cons.IH [OF 1(2)] obtain b2 r e where
    2: "run_worker ops b1 = Some (b2, r)" "writes_to good take_cached return_cached base p m ((c @ d) @ e) b2"
    "Files b2 = (Files b1)(p \<mapsto> (c @ d) @ e)" "pending b1 @ r = e @ pending b2" "FlushAfter b2 = FlushAfter b1" "OptionsValue (Queue b2) = OptionsValue (Queue b1)"
    "scheduled b1 \<and> list_all (timed (FlushAfter b1)) ops \<longrightarrow> scheduled b2"
    "MaxTotalBuffers (OptionsValue (Queue b1)) = 1 \<longrightarrow> e = []" by blast
  have "pending b @ s @ r = (d @ e) @ pending b2"
    using 1(4) 2(4) by (metis append.assoc)
  then show ?case using 1(1,3,5-8) 2
    by (intro exI [of _ b2] exI [of _ "s @ r"] exI [of _ "d @ e"]) simp
qed

lemma started:
  assumes "good c0" and "with_callbacks take_cached return_cached opt"
    and "b = FileBackend_new (BufferQueue_new opt tracker no_counters False c0 h t0) limit after collect fb"
    and "accepts p c m fb" and "MaxSize fb = 0" and "AsyncMode fb"
  shows "writes_to good take_cached return_cached (MemoryUsage h) p m c b \<and> pending b = [] \<and> scheduled b \<and>
    Files b = Files fb \<and> OptionsValue (Queue b) = opt \<and> FlushAfter b = after"
proof -
  let ?q = "BufferQueue_new opt tracker no_counters False c0 h t0"
  note q = accounts_new [OF assms(1,2) refl, where globals = no_counters and tracker = tracker and fc = False and h = h and now = t0]
  have b: "Queue b = ?q" "QueuedBytes b = 0" "FlushTime b = 0" "FlushAfter b = after" "file_backend.truncate b = fb"
    "file_state b = (Files fb, OpenFile fb, SysAnswers fb, MaxSize fb, AsyncMode fb, ShutdownFlag fb, after)"
    using assms(3) by (simp_all add: FileBackend_new_def file_backend.defs file_worker.defs file_state_def)
  have o': "OptionsValue ?q = opt" using q by (simp add: Buffer_Queue.settings_def)
  have p: "pending b = []" using q by (simp add: pending_def b)
  then have "queue_inv good take_cached return_cached (MemoryUsage h) b"
    using q assms(2) o' by (simp add: queue_inv_def b)
  then show ?thesis using b p o' assms(4-6)
    by (simp add: writes_to_def accepts_def file_state_def scheduled_def)
qed

end

section \<open>What the worker promises\<close>

text \<open>A backend fresh from its constructor, with its log open.\<close>

definition fresh_worker ::
  "nat \<Rightarrow> nat \<Rightarrow> u64 \<Rightarrow> buffer_cache_state \<Rightarrow> heap \<Rightarrow> file_backend \<Rightarrow> buffer_cache_state file_worker" where
  "fresh_worker bufferSize bufferLimit flushAfter cache h b =
     FileBackend_new (BufferQueue_new (backend_options bufferSize bufferLimit True 16 0 0) (Some 0) no_counters False cache h 0)
       (of_nat bufferSize * 96) flushAfter True b"

lemma fresh_writes:
  assumes "cache_good cache" and "accepts p c m b" and "MaxSize b = 0" and "AsyncMode b"
  shows "writes_to cache_good (TakeCachedDataBuffer True 16 0 0) (ReturnCachedDataBuffer True 16 0 0) (MemoryUsage h) p m c
      (fresh_worker bs lim after cache h b) \<and> pending (fresh_worker bs lim after cache h b) = [] \<and>
    scheduled (fresh_worker bs lim after cache h b) \<and> Files (fresh_worker bs lim after cache h b) = Files b \<and>
    MaxTotalBuffers (OptionsValue (Queue (fresh_worker bs lim after cache h b))) = lim \<and>
    FlushAfter (fresh_worker bs lim after cache h b) = after"
  using backend_cache.started [OF assms(1) backend_callbacks fresh_worker_def assms(2-4)]
  by (simp add: backend_options_def)

lemma fresh_run:
  assumes "cache_good cache" and "accepts p c (sum_list (map offered ops)) b" and "MaxSize b = 0" and "AsyncMode b"
  shows "\<exists>b' s d. run_worker ops (fresh_worker bs lim after cache h b) = Some (b', s) \<and>
    writes_to cache_good (TakeCachedDataBuffer True 16 0 0) (ReturnCachedDataBuffer True 16 0 0) (MemoryUsage h) p 0 (c @ d) b' \<and>
    Files b' = (Files b)(p \<mapsto> c @ d) \<and> s = d @ pending b' \<and> MaxTotalBuffers (OptionsValue (Queue b')) = lim \<and>
    (list_all (timed after) ops \<longrightarrow> scheduled b') \<and> (lim = 1 \<longrightarrow> d = [])"
proof -
  note f = fresh_writes [OF assms, of h bs lim after]
  then have "writes_to cache_good (TakeCachedDataBuffer True 16 0 0) (ReturnCachedDataBuffer True 16 0 0) (MemoryUsage h) p
      (sum_list (map offered ops) + 0) c (fresh_worker bs lim after cache h b)" by simp
  from backend_cache.run_worker_spec [OF this] f show ?thesis by fastforce
qed



definition demo_async :: file_backend where
  "demo_async = demo_backend\<lparr>AsyncMode := True, MaxSize := 0\<rparr>"

definition demo_ops :: "worker_op list" where
  "demo_ops = [DoOutput demo_world 10 ''ab'', DoWork demo_world 20, DoOutput demo_world 30 ''c'']"

lemma demo_accepts:
  "accepts ''/l/x.log'' ''hello'' (sum_list (map offered demo_ops)) demo_async" "MaxSize demo_async = 0" "AsyncMode demo_async"
  by (simp_all add: accepts_def demo_async_def demo_backend_def demo_ops_def)

lemma demo_worker_run:
  "map_option (\<lambda>(b, s). (s, pending b, FlushTime b, FlushAfter b, CurrentFirstWriteTime (Queue b), Files b ''/l/x.log''))
     (run_worker demo_ops (fresh_worker 16 4 500 cache_init demo_heap demo_async)) =
   Some (''abc'', ''abc'', 510, 500, 10, Some ''hello'')"
  by code_simp



text \<open>With a limit of one buffer the current buffer can never be exchanged: nothing reaches the log.\<close>

theorem single_buffer_never_written:
  assumes "cache_good cache" and "accepts p c (sum_list (map offered ops)) b" and "MaxSize b = 0" and "AsyncMode b"
  shows "\<exists>b' s. run_worker ops (fresh_worker bs 1 after cache h b) = Some (b', s) \<and> Files b' p = Some c \<and> pending b' = s"
  using fresh_run [OF assms, of bs 1 after h] by fastforce

theorem single_buffer_never_written_witness:
  "\<exists>b'. run_worker demo_ops (fresh_worker 16 1 500 cache_init demo_heap demo_async) = Some (b', ''abc'') \<and>
     Files b' ''/l/x.log'' = Some ''hello'' \<and> pending b' = ''abc''"
proof -
  from single_buffer_never_written [OF cache_init_good demo_accepts, where bs = 16 and after = 500 and h = demo_heap]
  obtain b' s where 1: "run_worker demo_ops (fresh_worker 16 1 500 cache_init demo_heap demo_async) = Some (b', s)"
    "Files b' ''/l/x.log'' = Some ''hello''" "pending b' = s" by blast
  have "map_option snd (run_worker demo_ops (fresh_worker 16 1 500 cache_init demo_heap demo_async)) = Some ''abc''"
    by code_simp
  with 1 show ?thesis by simp
qed

end
