(* ===== verification/File_Schedule.thy ===== *)
theory File_Schedule
  imports File_Worker
begin

text \<open>
  The manager of the file backends (\<open>File/FileManager.cpp\<close>, \<open>File/FileManagerFactory.cpp\<close>): an intrusive,
  doubly linked list of the backends that have something to write, ordered by the time they want to be
  run at, and the one thread that runs them. The pointers of the list are modelled as they are, the links
  of each backend by its identity; the counters for debugging are left out. Lemmas: the list operations
  on pointers are those on a plain list, the list stays in the order of the times, and no backend with a
  flush time is forgotten, however requests and the thread interleave.
\<close>

record link_node =
  ActiveNext :: "nat option"
  ActivePrev :: "nat option"
  ActiveLinked :: bool
  NodeFlushTime :: u64
  NodeRegistered :: bool

record file_manager =
  Node :: "nat \<Rightarrow> link_node"
  ManagedBackends :: "nat list"
  ActiveBackendsNext :: "nat option"
  ActiveBackendsPrev :: "nat option"
  StopRequested :: bool
  Reschedule :: bool
  CurrentEarliestTime :: u64
  ManagerThread :: bool

definition SCHEDULED_RUN_GAP_MS :: u64 where
  "SCHEDULED_RUN_GAP_MS = 20"

definition UINT64_MAX :: u64 where
  "UINT64_MAX = - 1"

definition upd_node :: "nat \<Rightarrow> (link_node \<Rightarrow> link_node) \<Rightarrow> file_manager \<Rightarrow> file_manager" where
  "upd_node b f m = m\<lparr>Node := (Node m)(b := f (Node m b))\<rparr>"

section \<open>The list of active backends\<close>

definition LinkBackendFront :: "nat \<Rightarrow> file_manager \<Rightarrow> file_manager" where
  "LinkBackendFront b m =
     (let m = upd_node b (\<lambda>n. n\<lparr>ActivePrev := None, ActiveNext := ActiveBackendsNext m\<rparr>) m;
          m = (case ActiveBackendsNext m of
                 Some h \<Rightarrow> upd_node h (\<lambda>n. n\<lparr>ActivePrev := Some b\<rparr>) m
               | None \<Rightarrow> m\<lparr>ActiveBackendsPrev := Some b\<rparr>)
      in upd_node b (\<lambda>n. n\<lparr>ActiveLinked := True\<rparr>) (m\<lparr>ActiveBackendsNext := Some b\<rparr>))"

definition LinkBackendBack :: "nat \<Rightarrow> file_manager \<Rightarrow> file_manager" where
  "LinkBackendBack b m =
     (let m = upd_node b (\<lambda>n. n\<lparr>ActiveNext := None, ActivePrev := ActiveBackendsPrev m\<rparr>) m;
          m = (case ActiveBackendsPrev m of
                 Some t \<Rightarrow> upd_node t (\<lambda>n. n\<lparr>ActiveNext := Some b\<rparr>) m
               | None \<Rightarrow> m\<lparr>ActiveBackendsNext := Some b\<rparr>)
      in upd_node b (\<lambda>n. n\<lparr>ActiveLinked := True\<rparr>) (m\<lparr>ActiveBackendsPrev := Some b\<rparr>))"

definition LinkBackendBefore :: "nat \<Rightarrow> nat option \<Rightarrow> file_manager \<Rightarrow> file_manager" where
  "LinkBackendBefore b before m =
     (case before of
        None \<Rightarrow> LinkBackendBack b m
      | Some i \<Rightarrow>
          let p = ActivePrev (Node m i);
              m = upd_node b (\<lambda>n. n\<lparr>ActivePrev := p, ActiveNext := Some i\<rparr>) m;
              m = (case p of
                     Some j \<Rightarrow> upd_node j (\<lambda>n. n\<lparr>ActiveNext := Some b\<rparr>) m
                   | None \<Rightarrow> m\<lparr>ActiveBackendsNext := Some b\<rparr>)
          in upd_node b (\<lambda>n. n\<lparr>ActiveLinked := True\<rparr>) (upd_node i (\<lambda>n. n\<lparr>ActivePrev := Some b\<rparr>) m))"

definition DeactivateBackend :: "nat \<Rightarrow> file_manager \<Rightarrow> file_manager" where
  "DeactivateBackend b m =
     (if \<not> ActiveLinked (Node m b) then m
      else
        let n = ActiveNext (Node m b); p = ActivePrev (Node m b);
            m = (case p of
                   Some j \<Rightarrow> upd_node j (\<lambda>k. k\<lparr>ActiveNext := n\<rparr>) m
                 | None \<Rightarrow> m\<lparr>ActiveBackendsNext := n\<rparr>);
            m = (case n of
                   Some j \<Rightarrow> upd_node j (\<lambda>k. k\<lparr>ActivePrev := p\<rparr>) m
                 | None \<Rightarrow> m\<lparr>ActiveBackendsPrev := p\<rparr>)
        in upd_node b (\<lambda>k. k\<lparr>ActiveNext := None, ActivePrev := None, ActiveLinked := False\<rparr>) m)"

text \<open>The walk along the pointers for the first backend due later; it ends if the list does.\<close>

partial_function (option) find_later :: "file_manager \<Rightarrow> u64 \<Rightarrow> nat option \<Rightarrow> nat option option" where
  "find_later m whn item =
     (case item of
        None \<Rightarrow> Some None
      | Some i \<Rightarrow>
          let t = NodeFlushTime (Node m i) in
          if t \<noteq> RIGHT_NOW \<and> t > whn then Some (Some i) else find_later m whn (ActiveNext (Node m i)))"

definition ActivateBackend :: "nat \<Rightarrow> u64 \<Rightarrow> file_manager \<Rightarrow> file_manager option" where
  "ActivateBackend b whn m =
     (if whn = 0 then Some m
      else
        let m = DeactivateBackend b m in
        if whn = RIGHT_NOW then Some (LinkBackendFront b m)
        else
          (case ActiveBackendsPrev m of
             None \<Rightarrow> Some (LinkBackendBack b m)
           | Some l \<Rightarrow>
               let lastTime = NodeFlushTime (Node m l) in
               if lastTime \<noteq> RIGHT_NOW \<and> lastTime \<le> whn then Some (LinkBackendBack b m)
               else map_option (\<lambda>before. LinkBackendBefore b before m) (find_later m whn (ActiveBackendsNext m))))"

section \<open>Registration and requests\<close>

definition FileManager_new :: "(nat \<Rightarrow> link_node) \<Rightarrow> file_manager" where
  "FileManager_new nodes =
     \<lparr>Node = nodes, ManagedBackends = [], ActiveBackendsNext = None, ActiveBackendsPrev = None, StopRequested = False,
      Reschedule = False, CurrentEarliestTime = 0, ManagerThread = False\<rparr>"

definition Manager_AddBackend :: "nat \<Rightarrow> file_manager \<Rightarrow> file_manager" where
  "Manager_AddBackend b m =
     (let m = (if b \<in> set (ManagedBackends m) then m else m\<lparr>ManagedBackends := ManagedBackends m @ [b]\<rparr>)
      in m\<lparr>ManagerThread := True\<rparr>)"

definition Manager_Stopping :: "file_manager \<Rightarrow> bool" where
  "Manager_Stopping m = StopRequested m"

definition Manager_SetStopping :: "file_manager \<Rightarrow> file_manager" where
  "Manager_SetStopping m = m\<lparr>StopRequested := True, Reschedule := True\<rparr>"

definition RemoveBackendLocked :: "nat \<Rightarrow> file_manager \<Rightarrow> file_manager \<times> bool" where
  "RemoveBackendLocked b m =
     (let m = upd_node b (\<lambda>n. n\<lparr>NodeRegistered := False, NodeFlushTime := 0\<rparr>) (DeactivateBackend b m)
      in if b \<in> set (ManagedBackends m) then (m\<lparr>ManagedBackends := remove1 b (ManagedBackends m)\<rparr>, True) else (m, False))"

definition Notify :: "nat \<Rightarrow> u64 \<Rightarrow> file_manager \<Rightarrow> file_manager option" where
  "Notify b whn m =
     (if \<not> NodeRegistered (Node m b) then Some m
      else
        map_option
          (\<lambda>m. if ActiveBackendsNext m = Some b \<or> whn = RIGHT_NOW \<or> whn < CurrentEarliestTime m
               then m\<lparr>Reschedule := True\<rparr> else m)
          (ActivateBackend b whn m))"

section \<open>The thread\<close>

datatype decision = WaitIdle | WaitFor u64 | RunBackend nat | TryAgain

partial_function (option) drop_stale :: "file_manager \<Rightarrow> file_manager option" where
  "drop_stale m =
     (case ActiveBackendsNext m of
        Some h \<Rightarrow> if NodeFlushTime (Node m h) = 0 then drop_stale (DeactivateBackend h m) else Some m
      | None \<Rightarrow> Some m)"

definition select_backend :: "nat \<Rightarrow> file_manager \<Rightarrow> file_manager \<times> decision" where
  "select_backend h m =
     (DeactivateBackend h m, if h \<in> set (ManagedBackends m) then RunBackend h else TryAgain)"

text \<open>One round of \<open>ManagementThread\<close> under the lock, up to the wait or to the worker it runs.\<close>

definition management_round :: "u64 \<Rightarrow> file_manager \<Rightarrow> (file_manager \<times> decision) option" where
  "management_round now m =
     Option.bind (drop_stale m) (\<lambda>m.
       Some (case ActiveBackendsNext m of
          None \<Rightarrow> (m\<lparr>CurrentEarliestTime := UINT64_MAX\<rparr>, WaitIdle)
        | Some h \<Rightarrow>
            let earliest = NodeFlushTime (Node m h) in
            if earliest \<noteq> RIGHT_NOW \<and> now < earliest
            then
              let remaining = earliest - now in
              if remaining > SCHEDULED_RUN_GAP_MS
              then (m\<lparr>CurrentEarliestTime := earliest\<rparr>, WaitFor remaining)
              else select_backend h (upd_node h (\<lambda>n. n\<lparr>NodeFlushTime := RIGHT_NOW\<rparr>) m)
            else select_backend h m))"

definition after_idle_wait :: "file_manager \<Rightarrow> file_manager" where
  "after_idle_wait m = m\<lparr>Reschedule := False\<rparr>"

definition after_timed_wait :: "file_manager \<Rightarrow> file_manager" where
  "after_timed_wait m = m\<lparr>Reschedule := False, CurrentEarliestTime := UINT64_MAX\<rparr>"

text \<open>With the lock again after \<open>WorkerFunc\<close>, which has told whether the backend goes on.\<close>

definition after_work :: "nat \<Rightarrow> bool \<Rightarrow> file_manager \<Rightarrow> file_manager option" where
  "after_work b goes_on m =
     (if \<not> goes_on
      then
        let m = fst (RemoveBackendLocked b m)
        in Some (if ManagedBackends m = [] then m\<lparr>StopRequested := True\<rparr> else m)
      else
        let flushTime = NodeFlushTime (Node m b) in
        if flushTime = 0 then Some (DeactivateBackend b m) else ActivateBackend b flushTime m)"

text \<open>The destructor, with the backends it shuts down, once the thread has ended.\<close>

definition FileManager_destroy :: "file_manager \<Rightarrow> file_manager \<times> nat list" where
  "FileManager_destroy m =
     (let m = Manager_SetStopping m
      in ((fold (\<lambda>b m. upd_node b (\<lambda>n. n\<lparr>NodeRegistered := False, NodeFlushTime := 0\<rparr>) (DeactivateBackend b m))
             (ManagedBackends m) m)\<lparr>ManagedBackends := []\<rparr>,
          ManagedBackends m))"

text \<open>\<open>FileManagerFactory\<close>: \<open>Add\<close> first takes a stopping manager away, to wait for its end without the lock.\<close>

definition Factory_take_stopped :: "file_manager option \<Rightarrow> file_manager option \<times> file_manager option" where
  "Factory_take_stopped inst =
     (case inst of Some m \<Rightarrow> if Manager_Stopping m then (None, Some m) else (inst, None) | None \<Rightarrow> (inst, None))"

definition Factory_Add :: "nat \<Rightarrow> (nat \<Rightarrow> link_node) \<Rightarrow> file_manager option \<Rightarrow> file_manager option" where
  "Factory_Add b nodes inst = Some (Manager_AddBackend b (case inst of None \<Rightarrow> FileManager_new nodes | Some m \<Rightarrow> m))"

definition Factory_Notify :: "nat \<Rightarrow> u64 \<Rightarrow> file_manager option \<Rightarrow> file_manager option option" where
  "Factory_Notify b whn inst = (case inst of None \<Rightarrow> Some None | Some m \<Rightarrow> map_option Some (Notify b whn m))"

definition Manager_TestFileInUse :: "(nat \<Rightarrow> string \<Rightarrow> bool) \<Rightarrow> string \<Rightarrow> file_manager \<Rightarrow> bool" where
  "Manager_TestFileInUse in_use file m = list_ex (\<lambda>b. in_use b file) (ManagedBackends m)"

definition Factory_TestFileInUse :: "(nat \<Rightarrow> string \<Rightarrow> bool) \<Rightarrow> string \<Rightarrow> file_manager option \<Rightarrow> bool" where
  "Factory_TestFileInUse in_use file inst =
     (case inst of Some m \<Rightarrow> Manager_TestFileInUse in_use file m | None \<Rightarrow> False)"

definition Factory_SetStopping :: "file_manager option \<Rightarrow> file_manager option" where
  "Factory_SetStopping inst = map_option Manager_SetStopping inst"

text \<open>The destructor of the factory; letting the manager go then destroys it.\<close>

definition Factory_destroy :: "file_manager option \<Rightarrow> file_manager option \<times> (file_manager \<times> nat list) option" where
  "Factory_destroy inst = (None, map_option (\<lambda>m. FileManager_destroy (Manager_SetStopping m)) inst)"

section \<open>The pointers are a list\<close>

definition first :: "nat list \<Rightarrow> nat option \<Rightarrow> nat option" where
  "first xs q = (case xs of [] \<Rightarrow> q | x # _ \<Rightarrow> Some x)"

definition final :: "nat option \<Rightarrow> nat list \<Rightarrow> nat option" where
  "final p xs = (if xs = [] then p else Some (last xs))"

fun segment :: "(nat \<Rightarrow> link_node) \<Rightarrow> nat option \<Rightarrow> nat list \<Rightarrow> nat option \<Rightarrow> bool" where
  "segment N p [] q \<longleftrightarrow> True"
| "segment N p (x # xs) q \<longleftrightarrow> ActivePrev (N x) = p \<and> ActiveNext (N x) = first xs q \<and> segment N (Some x) xs q"

definition linked_list :: "file_manager \<Rightarrow> nat list \<Rightarrow> bool" where
  "linked_list m xs \<longleftrightarrow> distinct xs \<and> segment (Node m) None xs None \<and>
     ActiveBackendsNext m = first xs None \<and> ActiveBackendsPrev m = final None xs \<and>
     (\<forall>b. ActiveLinked (Node m b) \<longleftrightarrow> b \<in> set xs)"

text \<open>All but the links.\<close>

definition unlinked ::
  "file_manager \<Rightarrow> (nat \<Rightarrow> u64 \<times> bool) \<times> nat list \<times> bool \<times> bool \<times> u64 \<times> bool" where
  "unlinked m = (\<lambda>b. (NodeFlushTime (Node m b), NodeRegistered (Node m b)), ManagedBackends m, StopRequested m, Reschedule m,
     CurrentEarliestTime m, ManagerThread m)"

lemma first_simps [simp]: "first [] q = q" "first (x # xs) q = Some x" "first (xs @ ys) q = first xs (first ys q)"
  by (simp_all add: first_def split: list.split)

lemma final_simps [simp]: "final p [] = p" "final p (x # xs) = final (Some x) xs" "final p (xs @ ys) = final (final p xs) ys"
  by (simp_all add: final_def)

lemma segment_append:
  "segment N p (xs @ ys) q \<longleftrightarrow> segment N p xs (first ys q) \<and> segment N (final p xs) ys q"
  by (induction xs arbitrary: p) auto

lemma segment_cong: "(\<And>x. x \<in> set xs \<Longrightarrow> N' x = N x) \<Longrightarrow> segment N' p xs q = segment N p xs q"
  by (induction xs arbitrary: p) auto

text \<open>Changing the link behind the last backend of a segment, or before its first.\<close>

definition relink_next :: "nat option \<Rightarrow> nat option \<Rightarrow> (nat \<Rightarrow> link_node) \<Rightarrow> nat \<Rightarrow> link_node" where
  "relink_next x q N = (case x of None \<Rightarrow> N | Some i \<Rightarrow> N(i := N i\<lparr>ActiveNext := q\<rparr>))"

definition relink_prev :: "nat option \<Rightarrow> nat option \<Rightarrow> (nat \<Rightarrow> link_node) \<Rightarrow> nat \<Rightarrow> link_node" where
  "relink_prev x p N = (case x of None \<Rightarrow> N | Some i \<Rightarrow> N(i := N i\<lparr>ActivePrev := p\<rparr>))"

lemma final_set: "final None xs = Some i \<Longrightarrow> i \<in> set xs"
  by (auto simp: final_def split: if_splits)

lemma first_set: "first xs None = Some i \<Longrightarrow> i \<in> set xs"
  by (cases xs) auto

lemma relink_other:
  "final None xs \<noteq> Some i \<Longrightarrow> relink_next (final None xs) q N i = N i"
  "first xs None \<noteq> Some i \<Longrightarrow> relink_prev (first xs None) p N i = N i"
  by (auto simp: relink_next_def relink_prev_def split: option.splits)

lemma relink_fields [simp]:
  "ActiveLinked (relink_next x q N i) = ActiveLinked (N i)" "ActiveLinked (relink_prev x q N i) = ActiveLinked (N i)"
  "NodeFlushTime (relink_next x q N i) = NodeFlushTime (N i)" "NodeFlushTime (relink_prev x q N i) = NodeFlushTime (N i)"
  "NodeRegistered (relink_next x q N i) = NodeRegistered (N i)" "NodeRegistered (relink_prev x q N i) = NodeRegistered (N i)"
  by (simp_all add: relink_next_def relink_prev_def split: option.split)

lemma segment_relink_next:
  assumes "distinct xs" and "segment N None xs q"
  shows "segment (relink_next (final None xs) q' N) None xs q'"
proof (cases xs rule: rev_cases)
  case (snoc ys y)
  have "segment (N(y := N y\<lparr>ActiveNext := q'\<rparr>)) None ys (Some y) = segment N None ys (Some y)"
    by (rule segment_cong) (use assms(1) snoc in auto)
  then show ?thesis using assms(2) snoc by (simp add: segment_append relink_next_def)
qed simp

lemma segment_relink_prev:
  assumes "distinct xs" and "segment N p xs None"
  shows "segment (relink_prev (first xs None) p' N) p' xs None"
proof (cases xs)
  case (Cons y ys)
  have "segment (N(y := N y\<lparr>ActivePrev := p'\<rparr>)) (Some y) ys None = segment N (Some y) ys None"
    by (rule segment_cong) (use assms(1) Cons in auto)
  then show ?thesis using assms(2) Cons by (simp add: relink_prev_def)
qed simp

text \<open>Both links between two segments, and nothing else of them.\<close>

lemma segment_join:
  assumes "distinct (xs @ ys)" and "segment N None xs q" and "segment N p ys None"
    and "\<And>i. i \<in> set (xs @ ys) \<Longrightarrow> N' i = relink_prev (first ys None) p' (relink_next (final None xs) q' N) i"
  shows "segment N' None xs q' \<and> segment N' p' ys None"
proof -
  let ?N1 = "relink_next (final None xs) q' N"
  have "segment N' None xs q' = segment ?N1 None xs q'"
  proof (rule segment_cong)
    fix i assume "i \<in> set xs"
    then show "N' i = ?N1 i" using assms(1) assms(4) [of i] relink_other(2) [of ys i] first_set [of ys i] by auto
  qed
  moreover have "segment ?N1 p ys None = segment N p ys None"
  proof (rule segment_cong)
    fix i assume "i \<in> set ys"
    then show "?N1 i = N i" using assms(1) relink_other(1) [of xs i] final_set [of xs i] by auto
  qed
  moreover have "segment N' p' ys None = segment (relink_prev (first ys None) p' ?N1) p' ys None"
    by (rule segment_cong) (use assms(4) in simp)
  ultimately show ?thesis
    using segment_relink_next [of xs N q q'] segment_relink_prev [of ys ?N1 p p'] assms(1-3) by simp
qed

lemma Node_upd [simp]:
  "Node (upd_node b f m) = (Node m)(b := f (Node m b))" "ActiveBackendsNext (upd_node b f m) = ActiveBackendsNext m"
  "ActiveBackendsPrev (upd_node b f m) = ActiveBackendsPrev m" "ManagedBackends (upd_node b f m) = ManagedBackends m"
  "StopRequested (upd_node b f m) = StopRequested m" "Reschedule (upd_node b f m) = Reschedule m"
  "CurrentEarliestTime (upd_node b f m) = CurrentEarliestTime m" "ManagerThread (upd_node b f m) = ManagerThread m"
  by (simp_all add: upd_node_def)

lemma unlinkedI:
  "(\<And>b. NodeFlushTime (Node m' b) = NodeFlushTime (Node m b) \<and> NodeRegistered (Node m' b) = NodeRegistered (Node m b)) \<Longrightarrow>
     ManagedBackends m' = ManagedBackends m \<Longrightarrow> StopRequested m' = StopRequested m \<Longrightarrow> Reschedule m' = Reschedule m \<Longrightarrow>
     CurrentEarliestTime m' = CurrentEarliestTime m \<Longrightarrow> ManagerThread m' = ManagerThread m \<Longrightarrow> unlinked m' = unlinked m"
  by (simp add: unlinked_def)

lemma DeactivateBackend_list:
  assumes "linked_list m (xs @ b # ys)"
  shows "linked_list (DeactivateBackend b m) (xs @ ys) \<and> unlinked (DeactivateBackend b m) = unlinked m"
proof -
  let ?m = "DeactivateBackend b m"
  have d: "distinct (xs @ b # ys)" and l: "\<And>i. ActiveLinked (Node m i) \<longleftrightarrow> i \<in> set (xs @ b # ys)"
    and h: "ActiveBackendsNext m = first xs (Some b)" "ActiveBackendsPrev m = final (Some b) ys"
    and seg: "segment (Node m) None xs (Some b)" "segment (Node m) (Some b) ys None"
    and bn: "ActivePrev (Node m b) = final None xs" "ActiveNext (Node m b) = first ys None"
    using assms by (simp_all add: linked_list_def segment_append)
  have nb: "final None xs \<noteq> Some b" "first ys None \<noteq> Some b" using d final_set first_set by fastforce+
  have N: "Node ?m = (relink_prev (first ys None) (final None xs) (relink_next (final None xs) (first ys None) (Node m)))
      (b := Node m b\<lparr>ActiveNext := None, ActivePrev := None, ActiveLinked := False\<rparr>)"
    using l bn nb by (auto simp: DeactivateBackend_def Let_def relink_prev_def relink_next_def split: option.split)
  have "segment (Node ?m) None xs (first ys None) \<and> segment (Node ?m) (final None xs) ys None"
    by (rule segment_join [OF _ seg]) (use d N in auto)
  moreover have "ActiveBackendsNext ?m = first xs (first ys None)" "ActiveBackendsPrev ?m = final (final None xs) ys"
    using l bn h by (auto simp: DeactivateBackend_def Let_def first_def final_def split: option.split list.split)
  moreover have "ActiveLinked (Node ?m i) \<longleftrightarrow> i \<in> set (xs @ ys)" for i
    using l [of i] d by (auto simp: N)
  moreover have "unlinked ?m = unlinked m"
    by (rule unlinkedI) (auto simp: DeactivateBackend_def Let_def split: option.split)
  ultimately show ?thesis using d by (simp add: linked_list_def segment_append)
qed

text \<open>Linking a backend that is not in the list between two parts of it.\<close>

lemma linked_insert:
  assumes "linked_list m (xs @ ys)" and "b \<notin> set (xs @ ys)"
    and "Node m' = (relink_prev (first ys None) (Some b) (relink_next (final None xs) (Some b) (Node m)))
      (b := Node m b\<lparr>ActivePrev := final None xs, ActiveNext := first ys None, ActiveLinked := True\<rparr>)"
    and "ActiveBackendsNext m' = first xs (Some b)" and "ActiveBackendsPrev m' = final (Some b) ys"
  shows "linked_list m' (xs @ b # ys)"
proof -
  have d: "distinct (xs @ ys)" and l: "\<And>i. ActiveLinked (Node m i) \<longleftrightarrow> i \<in> set (xs @ ys)"
    and seg: "segment (Node m) None xs (first ys None)" "segment (Node m) (final None xs) ys None"
    using assms(1) by (simp_all add: linked_list_def segment_append)
  have "segment (Node m') None xs (Some b) \<and> segment (Node m') (Some b) ys None"
    by (rule segment_join [OF d seg]) (use assms(2,3) in auto)
  moreover have "ActiveLinked (Node m' i) \<longleftrightarrow> i \<in> set (xs @ b # ys)" for i
    using l [of i] by (auto simp: assms(3))
  ultimately show ?thesis using d assms(2-5) by (auto simp: linked_list_def segment_append)
qed

lemma LinkBackendFront_list:
  assumes "linked_list m xs" and "b \<notin> set xs"
  shows "linked_list (LinkBackendFront b m) (b # xs) \<and> unlinked (LinkBackendFront b m) = unlinked m"
proof -
  have h: "ActiveBackendsNext m = first xs None" "ActiveBackendsPrev m = final None xs"
    using assms(1) by (simp_all add: linked_list_def)
  have nb: "first xs None \<noteq> Some b" using assms(2) first_set by blast
  have "linked_list (LinkBackendFront b m) ([] @ b # xs)"
    by (rule linked_insert) (use assms h nb in \<open>auto simp: LinkBackendFront_def Let_def relink_prev_def relink_next_def
        final_def first_def split: option.split list.split\<close>)
  moreover have "unlinked (LinkBackendFront b m) = unlinked m"
    by (rule unlinkedI) (auto simp: LinkBackendFront_def Let_def split: option.split)
  ultimately show ?thesis by simp
qed

lemma LinkBackendBack_list:
  assumes "linked_list m xs" and "b \<notin> set xs"
  shows "linked_list (LinkBackendBack b m) (xs @ [b]) \<and> unlinked (LinkBackendBack b m) = unlinked m"
proof -
  have h: "ActiveBackendsNext m = first xs None" "ActiveBackendsPrev m = final None xs"
    using assms(1) by (simp_all add: linked_list_def)
  have nb: "final None xs \<noteq> Some b" using assms(2) final_set by blast
  have "linked_list (LinkBackendBack b m) (xs @ b # [])"
    by (rule linked_insert) (use assms h nb in \<open>auto simp: LinkBackendBack_def Let_def relink_prev_def relink_next_def
        final_def first_def split: option.split list.split\<close>)
  moreover have "unlinked (LinkBackendBack b m) = unlinked m"
    by (rule unlinkedI) (auto simp: LinkBackendBack_def Let_def split: option.split)
  ultimately show ?thesis by simp
qed

lemma LinkBackendBefore_list:
  assumes "linked_list m (xs @ i # ys)" and "b \<notin> set (xs @ i # ys)"
  shows "linked_list (LinkBackendBefore b (Some i) m) (xs @ b # i # ys) \<and>
    unlinked (LinkBackendBefore b (Some i) m) = unlinked m"
proof -
  have h: "ActiveBackendsNext m = first xs (Some i)" "ActiveBackendsPrev m = final (Some i) ys"
    and p: "ActivePrev (Node m i) = final None xs"
    using assms(1) by (simp_all add: linked_list_def segment_append)
  have nb: "final None xs \<noteq> Some b" "i \<noteq> b" "final None xs \<noteq> Some i"
    using assms final_set [of xs] by (auto simp: linked_list_def)
  have "linked_list (LinkBackendBefore b (Some i) m) (xs @ b # (i # ys))"
    by (rule linked_insert) (use assms h p nb in \<open>auto simp: LinkBackendBefore_def Let_def relink_prev_def relink_next_def
        final_def first_def fun_upd_twist split: option.split list.split if_splits\<close>)
  moreover have "unlinked (LinkBackendBefore b (Some i) m) = unlinked m"
    by (rule unlinkedI) (auto simp: LinkBackendBefore_def Let_def split: option.split)
  ultimately show ?thesis by simp
qed

section \<open>The operations on the list they stand for\<close>

definition time_of :: "file_manager \<Rightarrow> nat \<Rightarrow> u64" where
  "time_of m b = NodeFlushTime (Node m b)"

definition registered :: "file_manager \<Rightarrow> nat \<Rightarrow> bool" where
  "registered m b = NodeRegistered (Node m b)"

definition due_later :: "(nat \<Rightarrow> u64) \<Rightarrow> u64 \<Rightarrow> nat \<Rightarrow> bool" where
  "due_later t whn i \<longleftrightarrow> t i \<noteq> RIGHT_NOW \<and> t i > whn"

text \<open>Where \<open>ActivateBackend\<close> puts a backend.\<close>

definition place_at :: "(nat \<Rightarrow> u64) \<Rightarrow> nat \<Rightarrow> u64 \<Rightarrow> nat list \<Rightarrow> nat list" where
  "place_at t b whn xs =
     (if whn = 0 then xs
      else
        let xs = remove1 b xs in
        if whn = RIGHT_NOW then b # xs
        else if xs = [] \<or> t (last xs) \<noteq> RIGHT_NOW \<and> t (last xs) \<le> whn then xs @ [b]
        else takeWhile (\<lambda>i. \<not> due_later t whn i) xs @ b # dropWhile (\<lambda>i. \<not> due_later t whn i) xs)"

lemma unlinked_fields:
  "unlinked m' = unlinked m \<Longrightarrow> time_of m' = time_of m \<and> registered m' = registered m \<and> ManagedBackends m' = ManagedBackends m \<and>
     StopRequested m' = StopRequested m \<and> Reschedule m' = Reschedule m \<and> CurrentEarliestTime m' = CurrentEarliestTime m \<and>
     ManagerThread m' = ManagerThread m"
  by (auto simp: unlinked_def time_of_def registered_def fun_eq_iff)

lemma linked_distinct: "linked_list m xs \<Longrightarrow> distinct xs"
  by (simp add: linked_list_def)

lemma Deactivate_remove1:
  assumes "linked_list m xs"
  shows "linked_list (DeactivateBackend b m) (remove1 b xs) \<and> unlinked (DeactivateBackend b m) = unlinked m"
proof (cases "b \<in> set xs")
  case True
  then obtain ys zs where "xs = ys @ b # zs" by (meson split_list)
  then show ?thesis using assms DeactivateBackend_list [of m ys b zs] linked_distinct [OF assms]
    by (simp add: remove1_append)
next
  case False
  then show ?thesis using assms by (simp add: DeactivateBackend_def linked_list_def remove1_idem)
qed

lemma find_later_list:
  "segment (Node m) p xs None \<Longrightarrow>
     find_later m whn (first xs None) = Some (first (dropWhile (\<lambda>i. \<not> due_later (time_of m) whn i) xs) None)"
proof (induction xs arbitrary: p)
  case Nil
  then show ?case by (subst find_later.simps) simp
next
  case (Cons x xs)
  then show ?case by (subst find_later.simps) (auto simp: due_later_def time_of_def Let_def)
qed

lemma ActivateBackend_list:
  assumes "linked_list m xs"
  shows "\<exists>m'. ActivateBackend b whn m = Some m' \<and> linked_list m' (place_at (time_of m) b whn xs) \<and> unlinked m' = unlinked m"
proof (cases "whn = 0")
  case True
  then show ?thesis using assms by (simp add: ActivateBackend_def place_at_def)
next
  case False
  let ?m = "DeactivateBackend b m" and ?xs = "remove1 b xs"
  have l: "linked_list ?m ?xs" and u: "unlinked ?m = unlinked m" using Deactivate_remove1 [OF assms] by simp_all
  have nb: "b \<notin> set ?xs" using linked_distinct [OF assms] by simp
  have t: "time_of ?m = time_of m" using unlinked_fields [OF u] by simp
  have prev: "ActiveBackendsPrev ?m = final None ?xs" and nxt: "ActiveBackendsNext ?m = first ?xs None"
    and seg: "segment (Node ?m) None ?xs None" using l by (simp_all add: linked_list_def)
  show ?thesis
  proof (cases "whn = RIGHT_NOW \<or> ?xs = [] \<or> time_of m (last ?xs) \<noteq> RIGHT_NOW \<and> time_of m (last ?xs) \<le> whn")
    case True
    then show ?thesis using False LinkBackendFront_list [OF l nb] LinkBackendBack_list [OF l nb] u prev t [symmetric]
      by (auto simp: ActivateBackend_def place_at_def Let_def final_def time_of_def)
  next
    case scan: False
    let ?p = "\<lambda>i. \<not> due_later (time_of m) whn i"
    have a: "ActivateBackend b whn m =
        Some (LinkBackendBefore b (first (dropWhile ?p ?xs) None) ?m)"
      using False scan find_later_list [OF seg, of whn] prev nxt t
      by (auto simp: ActivateBackend_def Let_def final_def time_of_def fun_eq_iff)
    have "linked_list (LinkBackendBefore b (first (dropWhile ?p ?xs) None) ?m) (takeWhile ?p ?xs @ b # dropWhile ?p ?xs) \<and>
      unlinked (LinkBackendBefore b (first (dropWhile ?p ?xs) None) ?m) = unlinked ?m"
    proof (cases "dropWhile ?p ?xs")
      case Nil
      then have e: "takeWhile ?p ?xs = ?xs" using takeWhile_dropWhile_id [of ?p ?xs] by (simp only: append_Nil2)
      show ?thesis unfolding Nil e using LinkBackendBack_list [OF l nb] by (simp add: LinkBackendBefore_def)
    next
      case (Cons i ys)
      then have e: "takeWhile ?p ?xs @ i # ys = ?xs" using takeWhile_dropWhile_id [of ?p ?xs] by simp
      show ?thesis using LinkBackendBefore_list [of ?m "takeWhile ?p ?xs" i ys b] l nb unfolding e Cons by simp
    qed
    moreover have "place_at (time_of m) b whn xs = takeWhile ?p ?xs @ b # dropWhile ?p ?xs"
      using False scan by (auto simp: place_at_def Let_def)
    ultimately show ?thesis using a u by simp
  qed
qed

lemma drop_stale_list:
  "linked_list m xs \<Longrightarrow>
     \<exists>m'. drop_stale m = Some m' \<and> linked_list m' (dropWhile (\<lambda>b. time_of m b = 0) xs) \<and> unlinked m' = unlinked m"
proof (induction xs arbitrary: m)
  case Nil
  then show ?case by (subst drop_stale.simps) (simp add: linked_list_def)
next
  case (Cons x xs)
  have h: "ActiveBackendsNext m = Some x" using Cons.prems by (simp add: linked_list_def)
  have d: "linked_list (DeactivateBackend x m) xs \<and> unlinked (DeactivateBackend x m) = unlinked m"
    using Deactivate_remove1 [OF Cons.prems, of x] by simp
  then have t: "time_of (DeactivateBackend x m) = time_of m" using unlinked_fields by blast
  show ?case
  proof (cases "time_of m x = 0")
    case True
    then show ?thesis using Cons.IH [of "DeactivateBackend x m"] d t h
      by (subst drop_stale.simps) (simp add: time_of_def)
  next
    case False
    then show ?thesis using h Cons.prems by (subst drop_stale.simps) (simp add: time_of_def)
  qed
qed

lemma Notify_list:
  assumes "linked_list m xs"
  shows "\<exists>m'. Notify b whn m = Some m' \<and>
    linked_list m' (if registered m b then place_at (time_of m) b whn xs else xs) \<and>
    (\<exists>r. unlinked m' = unlinked (m\<lparr>Reschedule := r\<rparr>) \<and> (Reschedule m \<longrightarrow> r) \<and>
      (registered m b \<and> ActiveBackendsNext m' = Some b \<longrightarrow> r))"
proof (cases "registered m b")
  case False
  then show ?thesis using assms by (auto simp: Notify_def registered_def unlinked_def intro!: exI [of _ "Reschedule m"])
next
  case True
  obtain m1 where a: "ActivateBackend b whn m = Some m1" "linked_list m1 (place_at (time_of m) b whn xs)" "unlinked m1 = unlinked m"
    using ActivateBackend_list [OF assms] by blast
  let ?c = "ActiveBackendsNext m1 = Some b \<or> whn = RIGHT_NOW \<or> whn < CurrentEarliestTime m1"
  let ?m' = "if ?c then m1\<lparr>Reschedule := True\<rparr> else m1"
  have "Notify b whn m = Some ?m'" using True a(1) by (simp add: Notify_def registered_def)
  moreover have "linked_list ?m' (place_at (time_of m) b whn xs)" using a(2) by (simp add: linked_list_def)
  moreover have "unlinked ?m' = unlinked (m\<lparr>Reschedule := ?c \<or> Reschedule m\<rparr>)"
    using a(3) by (auto simp: unlinked_def)
  moreover have "ActiveBackendsNext ?m' = Some b \<longrightarrow> ?c" by auto
  ultimately show ?thesis using True
    by (intro exI [of _ ?m'] conjI exI [of _ "?c \<or> Reschedule m"]) (simp_all del: if_image_distrib)
qed

lemma management_round_list:
  assumes "linked_list m xs" and "ys = dropWhile (\<lambda>b. time_of m b = 0) xs"
  shows "\<exists>m' dec. management_round now m = Some (m', dec) \<and>
    (case ys of
       [] \<Rightarrow> dec = WaitIdle \<and> linked_list m' [] \<and> unlinked m' = unlinked (m\<lparr>CurrentEarliestTime := UINT64_MAX\<rparr>)
     | h # zs \<Rightarrow>
         let t = time_of m h in
         if t \<noteq> RIGHT_NOW \<and> now < t \<and> t - now > SCHEDULED_RUN_GAP_MS
         then dec = WaitFor (t - now) \<and> linked_list m' ys \<and> unlinked m' = unlinked (m\<lparr>CurrentEarliestTime := t\<rparr>)
         else dec = (if h \<in> set (ManagedBackends m) then RunBackend h else TryAgain) \<and> linked_list m' zs \<and>
           unlinked m' = unlinked (if t \<noteq> RIGHT_NOW \<and> now < t then upd_node h (\<lambda>n. n\<lparr>NodeFlushTime := RIGHT_NOW\<rparr>) m else m))"
proof -
  obtain m1 where 1: "drop_stale m = Some m1" "linked_list m1 ys" "unlinked m1 = unlinked m"
    using drop_stale_list [OF assms(1)] assms(2) by blast
  note f = unlinked_fields [OF 1(3)]
  show ?thesis
  proof (cases ys)
    case Nil
    have "unlinked (m1\<lparr>CurrentEarliestTime := UINT64_MAX\<rparr>) = unlinked (m\<lparr>CurrentEarliestTime := UINT64_MAX\<rparr>)"
      using 1(3) by (auto simp: unlinked_def)
    then show ?thesis using Nil 1 by (simp add: management_round_def linked_list_def)
  next
    case (Cons h zs)
    have h: "ActiveBackendsNext m1 = Some h" using 1(2) Cons by (simp add: linked_list_def)
    let ?t = "time_of m h"
    have t: "NodeFlushTime (Node m1 h) = ?t" using f by (simp add: time_of_def fun_eq_iff)
    let ?u = "\<lambda>m. upd_node h (\<lambda>n. n\<lparr>NodeFlushTime := RIGHT_NOW\<rparr>) m"
    have l2: "linked_list (?u m1) ys"
    proof -
      have "segment (Node (?u m1)) None ys None = segment (Node m1) None ys None" for ys
      proof -
        have "segment (Node (?u m1)) p ys q = segment (Node m1) p ys q" for p q
          by (induction ys arbitrary: p) simp_all
        then show ?thesis .
      qed
      then show ?thesis using 1(2) by (auto simp: linked_list_def)
    qed
    have u2: "unlinked (?u m1) = unlinked (?u m)" using 1(3) by (auto simp: unlinked_def fun_eq_iff)
    have e: "unlinked (m1\<lparr>CurrentEarliestTime := ?t\<rparr>) = unlinked (m\<lparr>CurrentEarliestTime := ?t\<rparr>)"
      using 1(3) by (auto simp: unlinked_def)
    have r: "management_round now m = Some
        (if ?t \<noteq> RIGHT_NOW \<and> now < ?t
         then if ?t - now > SCHEDULED_RUN_GAP_MS then (m1\<lparr>CurrentEarliestTime := ?t\<rparr>, WaitFor (?t - now))
              else select_backend h (?u m1)
         else select_backend h m1)"
      using 1(1) h t by (simp add: management_round_def Let_def)
    have d1: "linked_list (DeactivateBackend h m1) zs \<and> unlinked (DeactivateBackend h m1) = unlinked m"
      using Deactivate_remove1 [OF 1(2), of h] 1(3) Cons by simp
    have d2: "linked_list (DeactivateBackend h (?u m1)) zs \<and> unlinked (DeactivateBackend h (?u m1)) = unlinked (?u m)"
      using Deactivate_remove1 [OF l2, of h] u2 Cons by simp
    have l3: "linked_list (m1\<lparr>CurrentEarliestTime := ?t\<rparr>) ys" using 1(2) by (simp add: linked_list_def)
    show ?thesis using r d1 d2 l3 e f Cons by (simp add: select_backend_def Let_def)
  qed
qed

section \<open>The backend that is due first\<close>

text \<open>\<open>RequestFlush\<close> as the manager sees it: the time the backend accepts, and the worker's store.\<close>

definition set_time :: "nat \<Rightarrow> u64 \<Rightarrow> file_manager \<Rightarrow> file_manager" where
  "set_time b t m = upd_node b (\<lambda>n. n\<lparr>NodeFlushTime := t\<rparr>) m"

definition set_registered :: "nat \<Rightarrow> file_manager \<Rightarrow> file_manager" where
  "set_registered b m = upd_node b (\<lambda>n. n\<lparr>NodeRegistered := True\<rparr>) m"

definition takes_request :: "u64 \<Rightarrow> u64 \<Rightarrow> bool" where
  "takes_request old whn \<longleftrightarrow> \<not> (old \<noteq> 0 \<and> (old = RIGHT_NOW \<or> old \<le> whn))"

lemma RequestFlush_takes:
  "FlushTime (RequestFlush whn b) = (if takes_request (FlushTime b) whn then whn else FlushTime b)"
  by (simp add: RequestFlush_def takes_request_def emit_def)

text \<open>One operation after another: a backend is registered, a backend asks for a flush, the thread makes a
  round, in which a worker it runs goes on or not and leaves a flush time.\<close>

datatype sched_op =
    DoRegister nat
  | DoRequest nat u64
  | DoRound u64 bool u64

fun sched_op_step :: "sched_op \<Rightarrow> file_manager \<Rightarrow> file_manager option" where
  "sched_op_step (DoRegister b) m = Some (set_registered b (Manager_AddBackend b m))"
| "sched_op_step (DoRequest b whn) m =
     (if takes_request (time_of m b) whn then Notify b whn (set_time b whn m) else Some m)"
| "sched_op_step (DoRound now goes_on t) m =
     Option.bind (management_round now m) (\<lambda>(m, dec).
       case dec of
         WaitIdle \<Rightarrow> Some (after_idle_wait m)
       | WaitFor d \<Rightarrow> Some (after_timed_wait m)
       | TryAgain \<Rightarrow> Some m
       | RunBackend b \<Rightarrow> after_work b goes_on (set_time b t m))"

fun sched_run :: "sched_op list \<Rightarrow> file_manager \<Rightarrow> file_manager option" where
  "sched_run [] m = Some m"
| "sched_run (o' # ops) m = Option.bind (sched_op_step o' m) (sched_run ops)"

fun sched_op_ok :: "sched_op \<Rightarrow> bool" where
  "sched_op_ok (DoRequest b whn) \<longleftrightarrow> whn \<noteq> 0"
| "sched_op_ok _ \<longleftrightarrow> True"

definition in_order :: "file_manager \<Rightarrow> nat list \<Rightarrow> bool" where
  "in_order m xs \<longleftrightarrow> linked_list m xs \<and> sorted (map (time_of m) xs) \<and>
     (\<forall>b \<in> set xs. time_of m b \<noteq> 0 \<and> registered m b \<and> b \<in> set (ManagedBackends m)) \<and>
     (\<forall>b. registered m b \<longrightarrow> b \<in> set (ManagedBackends m))"

lemma set_time_list:
  "linked_list (set_time b t m) xs = linked_list m xs" "time_of (set_time b t m) = (time_of m)(b := t)"
  "registered (set_time b t m) = registered m" "ManagedBackends (set_time b t m) = ManagedBackends m"
  "StopRequested (set_time b t m) = StopRequested m" "Reschedule (set_time b t m) = Reschedule m"
proof -
  have "segment (Node (set_time b t m)) p xs q = segment (Node m) p xs q" for p q
    by (induction xs arbitrary: p) (simp_all add: set_time_def)
  then show "linked_list (set_time b t m) xs = linked_list m xs"
    by (auto simp: linked_list_def) (auto simp: set_time_def split: if_splits)
qed (auto simp: set_time_def time_of_def registered_def fun_eq_iff)

lemma plain_updates [simp]:
  "linked_list (m\<lparr>Reschedule := r\<rparr>) xs = linked_list m xs" "time_of (m\<lparr>Reschedule := r\<rparr>) = time_of m"
  "registered (m\<lparr>Reschedule := r\<rparr>) = registered m"
  "linked_list (m\<lparr>CurrentEarliestTime := t\<rparr>) xs = linked_list m xs" "time_of (m\<lparr>CurrentEarliestTime := t\<rparr>) = time_of m"
  "registered (m\<lparr>CurrentEarliestTime := t\<rparr>) = registered m"
  "linked_list (m\<lparr>StopRequested := r\<rparr>) xs = linked_list m xs" "time_of (m\<lparr>StopRequested := r\<rparr>) = time_of m"
  "registered (m\<lparr>StopRequested := r\<rparr>) = registered m"
  "linked_list (m\<lparr>ManagedBackends := bs\<rparr>) xs = linked_list m xs" "time_of (m\<lparr>ManagedBackends := bs\<rparr>) = time_of m"
  "registered (m\<lparr>ManagedBackends := bs\<rparr>) = registered m"
  by (simp_all add: linked_list_def time_of_def registered_def fun_eq_iff)

lemma RemoveBackend_list:
  assumes "linked_list m xs" and "m' = fst (RemoveBackendLocked b m)"
  shows "linked_list m' (remove1 b xs) \<and> time_of m' = (time_of m)(b := 0) \<and> registered m' = (registered m)(b := False) \<and>
    ManagedBackends m' = remove1 b (ManagedBackends m) \<and> Reschedule m' = Reschedule m"
proof -
  let ?d = "DeactivateBackend b m"
  let ?u = "upd_node b (\<lambda>n. n\<lparr>NodeRegistered := False, NodeFlushTime := 0\<rparr>) ?d"
  note d = Deactivate_remove1 [OF assms(1), of b]
  note f = unlinked_fields [OF conjunct2 [OF d]]
  have "segment (Node ?u) p ys q = segment (Node ?d) p ys q" for p ys q
    by (induction ys arbitrary: p) simp_all
  then have "linked_list ?u (remove1 b xs)" using d by (auto simp: linked_list_def)
  moreover have "time_of ?u = (time_of ?d)(b := 0)" "registered ?u = (registered ?d)(b := False)"
    by (auto simp: time_of_def registered_def fun_eq_iff)
  moreover have "m' = ?u\<lparr>ManagedBackends := remove1 b (ManagedBackends m)\<rparr>"
    using assms(2) f by (auto simp: RemoveBackendLocked_def Let_def remove1_idem)
  ultimately show ?thesis using f by simp
qed

lemma after_work_list:
  assumes "linked_list m xs"
  shows "\<exists>m'. after_work b goes_on m = Some m' \<and>
    linked_list m' (if goes_on \<and> time_of m b \<noteq> 0 then place_at (time_of m) b (time_of m b) xs else remove1 b xs) \<and>
    time_of m' = (if goes_on then time_of m else (time_of m)(b := 0)) \<and>
    registered m' = (if goes_on then registered m else (registered m)(b := False)) \<and>
    ManagedBackends m' = (if goes_on then ManagedBackends m else remove1 b (ManagedBackends m)) \<and> Reschedule m' = Reschedule m"
proof (cases goes_on)
  case False
  let ?m = "fst (RemoveBackendLocked b m)"
  note r = RemoveBackend_list [OF assms refl, of b]
  have "after_work b goes_on m = Some (if ManagedBackends ?m = [] then ?m\<lparr>StopRequested := True\<rparr> else ?m)"
    using False by (simp add: after_work_def Let_def)
  then show ?thesis using False r by simp
next
  case True
  show ?thesis
  proof (cases "time_of m b = 0")
    case True
    then show ?thesis using True \<open>goes_on\<close> Deactivate_remove1 [OF assms, of b] unlinked_fields [of "DeactivateBackend b m" m]
      by (simp add: after_work_def time_of_def)
  next
    case False
    from ActivateBackend_list [OF assms, of b "time_of m b"] obtain m' where
      "ActivateBackend b (time_of m b) m = Some m'" "linked_list m' (place_at (time_of m) b (time_of m b) xs)"
      "unlinked m' = unlinked m" by blast
    then show ?thesis using False \<open>goes_on\<close> unlinked_fields [of m' m] by (simp add: after_work_def time_of_def Let_def)
  qed
qed

lemma set_registered_list:
  "linked_list (set_registered b m) xs = linked_list m xs" "time_of (set_registered b m) = time_of m"
  "registered (set_registered b m) = (registered m)(b := True)" "ManagedBackends (set_registered b m) = ManagedBackends m"
  "Reschedule (set_registered b m) = Reschedule m"
proof -
  have "segment (Node (set_registered b m)) p xs q = segment (Node m) p xs q" for p q
    by (induction xs arbitrary: p) (simp_all add: set_registered_def)
  then show "linked_list (set_registered b m) xs = linked_list m xs"
    by (auto simp: linked_list_def) (auto simp: set_registered_def split: if_splits)
qed (auto simp: set_registered_def time_of_def registered_def fun_eq_iff)

lemma Manager_AddBackend_list:
  "linked_list (Manager_AddBackend b m) xs = linked_list m xs" "time_of (Manager_AddBackend b m) = time_of m"
  "registered (Manager_AddBackend b m) = registered m" "set (ManagedBackends (Manager_AddBackend b m)) = insert b (set (ManagedBackends m))"
  "Reschedule (Manager_AddBackend b m) = Reschedule m"
  by (auto simp: Manager_AddBackend_def linked_list_def time_of_def registered_def fun_eq_iff Let_def)

text \<open>Placing keeps the order, for times that are not zero.\<close>

lemma sorted_place:
  assumes "sorted (map t (remove1 b xs))" and "\<forall>i \<in> set (remove1 b xs). t i \<noteq> 0" and "t b = whn" and "whn \<noteq> 0"
    and "distinct xs"
  shows "sorted (map t (place_at t b whn xs)) \<and> set (place_at t b whn xs) = insert b (set xs)"
proof -
  let ?xs = "remove1 b xs"
  have set: "insert b (set ?xs) = insert b (set xs)" using assms(5) by auto
  have pos: "1 \<le> t i" if "i \<in> set ?xs" for i using assms(2) that by (simp add: word_le_nat_alt unat_gt_0 Suc_leI)
  have one: "1 \<le> whn" using assms(4) by (simp add: word_le_nat_alt unat_gt_0 Suc_leI)
  have due_later: "due_later t whn i \<longleftrightarrow> whn < t i" if "whn \<noteq> RIGHT_NOW" "i \<in> set ?xs" for i
    using one that by (auto simp: due_later_def RIGHT_NOW_def)
  consider (front) "whn = RIGHT_NOW" | (behind) "whn \<noteq> RIGHT_NOW" "?xs = [] \<or> t (last ?xs) \<noteq> RIGHT_NOW \<and> t (last ?xs) \<le> whn"
    | (scan) "whn \<noteq> RIGHT_NOW" "\<not> (?xs = [] \<or> t (last ?xs) \<noteq> RIGHT_NOW \<and> t (last ?xs) \<le> whn)" by blast
  then show ?thesis
  proof cases
    case front
    then show ?thesis using assms(1,3,4) pos set by (simp add: place_at_def RIGHT_NOW_def)
  next
    case behind
    have "\<forall>i \<in> set ?xs. t i \<le> whn"
    proof (cases ?xs rule: rev_cases)
      case (snoc ys y)
      then have "\<forall>i \<in> set ?xs. t i \<le> t y" using assms(1) unfolding snoc by (auto simp: sorted_append)
      then show ?thesis using behind(2) unfolding snoc by (auto intro: order_trans)
    qed simp
    then show ?thesis using behind assms(1,3,4) set by (auto simp: place_at_def Let_def sorted_append)
  next
    case scan
    let ?p = "\<lambda>i. \<not> due_later t whn i"
    have s: "sorted (map t (takeWhile ?p ?xs @ dropWhile ?p ?xs))" using assms(1) by (simp only: takeWhile_dropWhile_id)
    have lo: "\<forall>i \<in> set (takeWhile ?p ?xs). t i \<le> whn"
      using due_later [OF scan(1)] by (meson linorder_not_less set_takeWhileD)
    have hi: "\<forall>i \<in> set (dropWhile ?p ?xs). whn \<le> t i"
    proof (cases "dropWhile ?p ?xs")
      case (Cons y ys)
      then have "due_later t whn y" using hd_dropWhile [of ?p ?xs] by simp
      moreover have "y \<in> set ?xs" using Cons by (metis list.set_intros(1) set_dropWhileD)
      ultimately have "whn < t y" using due_later [OF scan(1)] by simp
      then show ?thesis using s unfolding Cons by (auto simp: sorted_append)
    next
      case Nil
      show ?thesis unfolding Nil by simp
    qed
    have pl: "place_at t b whn xs = takeWhile ?p ?xs @ b # dropWhile ?p ?xs" using scan assms(4) by (auto simp: place_at_def Let_def)
    have "sorted (map t (takeWhile ?p ?xs @ b # dropWhile ?p ?xs))"
      using s [unfolded map_append sorted_append] lo hi assms(3) by (auto simp: sorted_append intro: order_trans)
    moreover have "set (takeWhile ?p ?xs @ b # dropWhile ?p ?xs) = insert b (set ?xs)"
      by (metis (no_types) insert_is_Un list.simps(15) set_append sup_left_commute takeWhile_dropWhile_id)
    ultimately show ?thesis using set unfolding pl by simp
  qed
qed

lemma in_orderD: "in_order m xs \<Longrightarrow> linked_list m xs \<and> distinct xs"
  using linked_distinct [of m xs] by (simp add: in_order_def)

lemma remove1_unchanged:
  "distinct xs \<Longrightarrow> map (t(b := w)) (remove1 b xs) = map t (remove1 b xs)"
  by simp

text \<open>A backend takes its place by its new time.\<close>

lemma in_order_place:
  assumes "in_order m xs" and "whn \<noteq> 0" and "registered m b" and "linked_list m' (place_at ((time_of m)(b := whn)) b whn xs)"
    and "time_of m' = (time_of m)(b := whn)" and "registered m' = registered m"
    and "set (ManagedBackends m') = set (ManagedBackends m)"
  shows "in_order m' (place_at ((time_of m)(b := whn)) b whn xs)"
proof -
  have d: "distinct xs" and s: "sorted (map (time_of m) (remove1 b xs))"
    using in_orderD [OF assms(1)] assms(1) sorted_map_remove1 by (auto simp: in_order_def)
  have "sorted (map ((time_of m)(b := whn)) (place_at ((time_of m)(b := whn)) b whn xs)) \<and>
      set (place_at ((time_of m)(b := whn)) b whn xs) = insert b (set xs)"
    by (rule sorted_place) (use d s assms(1,2) in \<open>auto simp: in_order_def remove1_unchanged [OF d]\<close>)
  then show ?thesis using assms by (auto simp: in_order_def)
qed

lemma in_order_same:
  "in_order m xs \<Longrightarrow> linked_list m' xs \<Longrightarrow> time_of m' = time_of m \<Longrightarrow> registered m' = registered m \<Longrightarrow>
     set (ManagedBackends m') = set (ManagedBackends m) \<Longrightarrow> in_order m' xs"
  by (simp add: in_order_def)

text \<open>A round that finds the list in order: the first backend is the one to run.\<close>

lemma round_in_order:
  assumes "in_order m xs"
  shows "\<exists>m' dec. management_round now m = Some (m', dec) \<and> Reschedule m' = Reschedule m \<and>
    registered m' = registered m \<and> ManagedBackends m' = ManagedBackends m \<and>
    (case xs of
       [] \<Rightarrow> dec = WaitIdle \<and> linked_list m' [] \<and> time_of m' = time_of m
     | h # zs \<Rightarrow>
         let t = time_of m h in
         if t \<noteq> RIGHT_NOW \<and> now < t \<and> t - now > SCHEDULED_RUN_GAP_MS
         then dec = WaitFor (t - now) \<and> linked_list m' xs \<and> time_of m' = time_of m
         else dec = RunBackend h \<and> linked_list m' zs \<and> (\<exists>t'. time_of m' = (time_of m)(h := t')))"
proof -
  have nz: "dropWhile (\<lambda>b. time_of m b = 0) xs = xs" using assms by (cases xs) (auto simp: in_order_def)
  from management_round_list [OF conjunct1 [OF in_orderD [OF assms]] nz [symmetric], of now] obtain m' dec where
    r: "management_round now m = Some (m', dec)" and
    c: "case xs of
       [] \<Rightarrow> dec = WaitIdle \<and> linked_list m' [] \<and> unlinked m' = unlinked (m\<lparr>CurrentEarliestTime := UINT64_MAX\<rparr>)
     | h # zs \<Rightarrow>
         let t = time_of m h in
         if t \<noteq> RIGHT_NOW \<and> now < t \<and> t - now > SCHEDULED_RUN_GAP_MS
         then dec = WaitFor (t - now) \<and> linked_list m' xs \<and> unlinked m' = unlinked (m\<lparr>CurrentEarliestTime := t\<rparr>)
         else dec = (if h \<in> set (ManagedBackends m) then RunBackend h else TryAgain) \<and> linked_list m' zs \<and>
           unlinked m' = unlinked (if t \<noteq> RIGHT_NOW \<and> now < t then upd_node h (\<lambda>n. n\<lparr>NodeFlushTime := RIGHT_NOW\<rparr>) m else m)"
    by blast
  have same: "time_of m' = time_of m \<and> registered m' = registered m \<and> ManagedBackends m' = ManagedBackends m \<and> Reschedule m' = Reschedule m"
    if "unlinked m' = unlinked (m\<lparr>CurrentEarliestTime := t\<rparr>)" for t
    using unlinked_fields [OF that] by (auto simp: time_of_def registered_def fun_eq_iff)
  show ?thesis
  proof (cases xs)
    case Nil
    then show ?thesis using r c same by auto
  next
    case (Cons h zs)
    let ?t = "time_of m h"
    have h: "h \<in> set (ManagedBackends m)" using assms Cons by (simp add: in_order_def)
    show ?thesis
    proof (cases "?t \<noteq> RIGHT_NOW \<and> now < ?t \<and> ?t - now > SCHEDULED_RUN_GAP_MS")
      case True
      have w: "dec = WaitFor (?t - now)" "linked_list m' xs" "unlinked m' = unlinked (m\<lparr>CurrentEarliestTime := ?t\<rparr>)"
        using c True unfolding Cons by (simp_all add: Let_def)
      show ?thesis using r w(1,2) same [OF w(3)] True Cons by (simp add: Let_def)
    next
      case False
      let ?m = "if ?t \<noteq> RIGHT_NOW \<and> now < ?t then set_time h RIGHT_NOW m else m"
      have c': "dec = RunBackend h" "linked_list m' zs" "unlinked m' = unlinked ?m"
        using c False h Cons by (auto simp: Let_def set_time_def)
      have "time_of ?m = (time_of m)(h := time_of ?m h)" "registered ?m = registered m" "ManagedBackends ?m = ManagedBackends m"
        "Reschedule ?m = Reschedule m"
        by (auto simp: set_time_list)
      then have "time_of m' = (time_of m)(h := time_of ?m h)" "registered m' = registered m" "ManagedBackends m' = ManagedBackends m"
        "Reschedule m' = Reschedule m"
        using unlinked_fields [OF c'(3)] by auto
      moreover from this(1) have "\<exists>t'. time_of m' = (time_of m)(h := t')" by blast
      ultimately show ?thesis using r c'(1,2) False Cons by (simp add: Let_def)
    qed
  qed
qed

lemma sched_op_in_order:
  assumes "in_order m xs" and "sched_op_ok o'"
  shows "\<exists>m' ys. sched_op_step o' m = Some m' \<and> in_order m' ys"
proof (cases o')
  case (DoRegister b)
  have "in_order (set_registered b (Manager_AddBackend b m)) xs"
    using assms(1) by (auto simp: in_order_def set_registered_list Manager_AddBackend_list)
  then show ?thesis using DoRegister by auto
next
  case (DoRequest b whn)
  show ?thesis
  proof (cases "takes_request (time_of m b) whn")
    case True
    let ?m = "set_time b whn m"
    have whn: "whn \<noteq> 0" using assms(2) DoRequest by simp
    have l: "linked_list ?m xs" using assms(1) by (simp add: set_time_list in_order_def)
    from Notify_list [OF l, of b whn] obtain m' r where n: "Notify b whn ?m = Some m'"
      "linked_list m' (if registered ?m b then place_at (time_of ?m) b whn xs else xs)"
      "unlinked m' = unlinked (?m\<lparr>Reschedule := r\<rparr>)" by blast
    have f: "time_of m' = (time_of m)(b := whn)" "registered m' = registered m" "ManagedBackends m' = ManagedBackends m"
      using unlinked_fields [OF n(3)] set_time_list [of b whn m] by (simp_all add: time_of_def registered_def fun_eq_iff)
    show ?thesis
    proof (cases "registered m b")
      case True
      then have "linked_list m' (place_at ((time_of m)(b := whn)) b whn xs)" using n(2) by (simp add: set_time_list)
      then have "in_order m' (place_at ((time_of m)(b := whn)) b whn xs)"
        by (intro in_order_place [OF assms(1) whn True]) (simp_all add: f)
      then show ?thesis using n(1) DoRequest \<open>takes_request (time_of m b) whn\<close> by auto
    next
      case False
      then have "b \<notin> set xs" using assms(1) by (auto simp: in_order_def)
      then have "map ((time_of m)(b := whn)) xs = map (time_of m) xs" by simp
      then have "in_order m' xs" using n(2) False assms(1) \<open>b \<notin> set xs\<close> by (auto simp: in_order_def f set_time_list)
      then show ?thesis using n(1) DoRequest \<open>takes_request (time_of m b) whn\<close> by auto
    qed
  next
    case False
    then show ?thesis using assms(1) DoRequest by auto
  qed
next
  case (DoRound now goes_on t)
  obtain m1 dec where r: "management_round now m = Some (m1, dec)" "registered m1 = registered m"
      "ManagedBackends m1 = ManagedBackends m" and
    c: "case xs of
       [] \<Rightarrow> dec = WaitIdle \<and> linked_list m1 [] \<and> time_of m1 = time_of m
     | h # zs \<Rightarrow>
         let t = time_of m h in
         if t \<noteq> RIGHT_NOW \<and> now < t \<and> t - now > SCHEDULED_RUN_GAP_MS
         then dec = WaitFor (t - now) \<and> linked_list m1 xs \<and> time_of m1 = time_of m
         else dec = RunBackend h \<and> linked_list m1 zs \<and> (\<exists>t'. time_of m1 = (time_of m)(h := t'))"
    using round_in_order [OF assms(1), of now] by blast
  have waits: "in_order (after_idle_wait m1) ys" "in_order (after_timed_wait m1) ys" if "in_order m1 ys" for ys
    using that by (auto simp: in_order_def after_idle_wait_def after_timed_wait_def)
  consider "dec = WaitIdle" "in_order m1 xs" | d where "dec = WaitFor d" "in_order m1 xs"
    | h zs t' where "xs = h # zs" "dec = RunBackend h" "linked_list m1 zs" "time_of m1 = (time_of m)(h := t')"
  proof (cases xs)
    case Nil
    then show ?thesis using c r assms(1) that(1) in_order_same [OF assms(1), of m1] by auto
  next
    case (Cons h zs)
    show ?thesis
    proof (cases "time_of m h \<noteq> RIGHT_NOW \<and> now < time_of m h \<and> time_of m h - now > SCHEDULED_RUN_GAP_MS")
      case True
      then have "dec = WaitFor (time_of m h - now)" "linked_list m1 xs" "time_of m1 = time_of m"
        using c unfolding Cons by (simp_all add: Let_def)
      then show ?thesis using that(2) in_order_same [OF assms(1)] r by simp
    next
      case False
      then have "dec = RunBackend h \<and> linked_list m1 zs \<and> (\<exists>t'. time_of m1 = (time_of m)(h := t'))"
        using c unfolding Cons Let_def by (simp only: if_False list.case)
      then show ?thesis using that(3) Cons by blast
    qed
  qed
  then show ?thesis
  proof cases
    case 1
    then show ?thesis using DoRound r waits by auto
  next
    case 2
    then show ?thesis using DoRound r waits by auto
  next
    case (3 h zs t')
    let ?m = "set_time h t m1"
    have hz: "h \<notin> set zs" using in_orderD [OF assms(1)] 3(1) by simp
    have "map (time_of ?m) zs = map (time_of m) zs" using hz by (simp add: set_time_list 3(4))
    then have io: "in_order ?m zs"
      using assms(1) 3 r(2,3) hz by (auto simp: in_order_def set_time_list)
    have tm: "time_of ?m h = t" by (simp add: set_time_list)
    have l: "linked_list ?m zs" using io by (simp add: in_order_def)
    from after_work_list [OF l, of h goes_on] obtain m' where
      w: "after_work h goes_on ?m = Some m'" and
      p: "linked_list m' (if goes_on \<and> t \<noteq> 0 then place_at (time_of ?m) h t zs else zs)"
      "time_of m' = (if goes_on then time_of ?m else (time_of ?m)(h := 0))"
      "registered m' = (if goes_on then registered ?m else (registered ?m)(h := False))"
      "ManagedBackends m' = (if goes_on then ManagedBackends ?m else remove1 h (ManagedBackends ?m))"
      unfolding tm remove1_idem [OF hz] by blast
    have step: "sched_op_step o' m = Some m'" using DoRound r(1) 3(2) w by simp
    show ?thesis
    proof (cases "goes_on \<and> t \<noteq> 0")
      case True
      have reg: "registered ?m h" using assms(1) 3(1) r(2) by (simp add: in_order_def set_time_list)
      have e: "(time_of ?m)(h := t) = time_of ?m" by (simp add: set_time_list fun_eq_iff)
      have "in_order m' (place_at ((time_of ?m)(h := t)) h t zs)"
        by (rule in_order_place [OF io]) (use True reg p e in simp_all)
      then show ?thesis using step by blast
    next
      case False
      have "map (time_of m') zs = map (time_of ?m) zs" using p(2) hz by auto
      then have "sorted (map (time_of m') zs)" using io by (simp only: in_order_def)
      moreover have "time_of m' c \<noteq> 0 \<and> registered m' c \<and> c \<in> set (ManagedBackends m')" if "c \<in> set zs" for c
      proof -
        have ne: "c \<noteq> h" using that hz by auto
        then have "time_of m' c = time_of ?m c" "registered m' c = registered ?m c"
          "c \<in> set (ManagedBackends ?m) \<Longrightarrow> c \<in> set (ManagedBackends m')"
          unfolding p(2-4) by (simp_all add: set_time_list)
        then show ?thesis using io that by (simp add: in_order_def)
      qed
      moreover have "c \<in> set (ManagedBackends m')" if "registered m' c" for c
        using that io unfolding p(3,4) by (auto simp: in_order_def split: if_splits)
      moreover have "linked_list m' zs" using p(1) False by simp
      ultimately have "in_order m' zs" by (simp add: in_order_def)
      then show ?thesis using step by blast
    qed
  qed
qed

lemma sched_run_in_order:
  assumes "in_order m xs" and "list_all sched_op_ok ops"
  shows "\<exists>m' ys. sched_run ops m = Some m' \<and> in_order m' ys"
  using assms
proof (induction ops arbitrary: m xs)
  case (Cons o' ops)
  then obtain m1 zs where "sched_op_step o' m = Some m1" "in_order m1 zs" using sched_op_in_order [of m xs o'] by auto
  then show ?case using Cons.IH [of m1 zs] Cons.prems(2) by simp
qed auto

lemma new_in_order: "(\<And>b. \<not> ActiveLinked (nodes b) \<and> \<not> NodeRegistered (nodes b)) \<Longrightarrow>
    in_order (FileManager_new nodes) []"
  by (simp add: in_order_def linked_list_def FileManager_new_def registered_def)

text \<open>C18. Whatever registrations, requests and rounds follow each other, the pointers of the active backends
  form one list without repetition, in the order of their flush times; and a round runs its first
  backend, which is one with the least flush time of all and is due within the gap, or waits when
  nothing is.\<close>

theorem scheduler_runs_earliest:
  assumes "\<And>b. \<not> ActiveLinked (nodes b) \<and> \<not> NodeRegistered (nodes b)" and "list_all sched_op_ok ops"
  shows "\<exists>m xs m' dec. sched_run ops (FileManager_new nodes) = Some m \<and> linked_list m xs \<and> sorted (map (time_of m) xs) \<and>
    management_round now m = Some (m', dec) \<and>
    (case dec of
       WaitIdle \<Rightarrow> xs = []
     | WaitFor d \<Rightarrow> \<forall>b \<in> set xs. now < time_of m b \<and> SCHEDULED_RUN_GAP_MS < time_of m b - now
     | RunBackend b \<Rightarrow> xs \<noteq> [] \<and> b = hd xs \<and> (\<forall>c \<in> set xs. time_of m b \<le> time_of m c) \<and>
         (time_of m b \<le> now \<or> time_of m b = RIGHT_NOW \<or> time_of m b - now \<le> SCHEDULED_RUN_GAP_MS)
     | TryAgain \<Rightarrow> False)"
proof -
  have "in_order (FileManager_new nodes) []" by (rule new_in_order) (rule assms(1))
  from sched_run_in_order [OF this assms(2)] obtain m xs where
    r: "sched_run ops (FileManager_new nodes) = Some m" and o': "in_order m xs" by blast
  from round_in_order [OF o', of now] obtain m' dec where m: "management_round now m = Some (m', dec)" and
    c: "case xs of
       [] \<Rightarrow> dec = WaitIdle \<and> linked_list m' [] \<and> time_of m' = time_of m
     | h # zs \<Rightarrow>
         let t = time_of m h in
         if t \<noteq> RIGHT_NOW \<and> now < t \<and> t - now > SCHEDULED_RUN_GAP_MS
         then dec = WaitFor (t - now) \<and> linked_list m' xs \<and> time_of m' = time_of m
         else dec = RunBackend h \<and> linked_list m' zs \<and> (\<exists>t'. time_of m' = (time_of m)(h := t'))"
    by blast
  have s: "sorted (map (time_of m) xs)" "linked_list m xs" using o' by (simp_all add: in_order_def)
  have "case dec of
       WaitIdle \<Rightarrow> xs = []
     | WaitFor d \<Rightarrow> \<forall>b \<in> set xs. now < time_of m b \<and> SCHEDULED_RUN_GAP_MS < time_of m b - now
     | RunBackend b \<Rightarrow> xs \<noteq> [] \<and> b = hd xs \<and> (\<forall>c \<in> set xs. time_of m b \<le> time_of m c) \<and>
         (time_of m b \<le> now \<or> time_of m b = RIGHT_NOW \<or> time_of m b - now \<le> SCHEDULED_RUN_GAP_MS)
     | TryAgain \<Rightarrow> False"
  proof (cases xs)
    case Nil
    then show ?thesis using c by simp
  next
    case (Cons h zs)
    let ?t = "time_of m h"
    have le: "?t \<le> time_of m b" if "b \<in> set xs" for b using s(1) that Cons by auto
    show ?thesis
    proof (cases "?t \<noteq> RIGHT_NOW \<and> now < ?t \<and> ?t - now > SCHEDULED_RUN_GAP_MS")
      case True
      have "now < time_of m b \<and> SCHEDULED_RUN_GAP_MS < time_of m b - now" if "b \<in> set xs" for b
      proof -
        have "?t - now \<le> time_of m b - now"
          using le [OF that] True by (simp add: word_le_nat_alt unat_sub word_less_nat_alt)
        then show ?thesis using le [OF that] True by (meson order_less_le_trans)
      qed
      moreover have "dec = WaitFor (?t - now)" using c True unfolding Cons by (simp add: Let_def)
      ultimately show ?thesis by simp
    next
      case False
      then have "dec = RunBackend h" using c unfolding Cons Let_def by (simp only: if_False list.case)
      then show ?thesis using False le Cons by auto
    qed
  qed
  then show ?thesis using r s m by blast
qed


definition idle_nodes :: "nat \<Rightarrow> link_node" where
  "idle_nodes = (\<lambda>_. \<lparr>ActiveNext = None, ActivePrev = None, ActiveLinked = False, NodeFlushTime = 0, NodeRegistered = False\<rparr>)"

declare find_later.simps [code] drop_stale.simps [code]

text \<open>Three backends ask for runs at 5000, 1000 and 3000; at 990 the second is due within the gap.\<close>

definition three_requests :: "sched_op list" where
  "three_requests = [DoRegister 1, DoRequest 1 5000, DoRegister 2, DoRequest 2 1000, DoRegister 3, DoRequest 3 3000]"

lemma scheduler_runs_earliest_witness:
  "map_option snd (Option.bind (sched_run three_requests (FileManager_new idle_nodes)) (management_round 990)) =
     Some (RunBackend 2) \<and>
   (\<exists>m xs. sched_run three_requests (FileManager_new idle_nodes) = Some m \<and> linked_list m xs \<and>
      sorted (map (time_of m) xs) \<and> hd xs = 2)"
proof -
  have d: "map_option snd (Option.bind (sched_run three_requests (FileManager_new idle_nodes)) (management_round 990)) =
     Some (RunBackend 2)" by code_simp
  have n: "\<not> ActiveLinked (idle_nodes b) \<and> \<not> NodeRegistered (idle_nodes b)" for b by (simp add: idle_nodes_def)
  have o: "list_all sched_op_ok three_requests" by (simp add: three_requests_def)
  from scheduler_runs_earliest [of idle_nodes three_requests 990, OF n o] obtain m xs m' dec where
    r: "sched_run three_requests (FileManager_new idle_nodes) = Some m" "linked_list m xs" "sorted (map (time_of m) xs)"
      "management_round 990 m = Some (m', dec)"
    and c: "case dec of WaitIdle \<Rightarrow> xs = [] | WaitFor d \<Rightarrow> \<forall>b \<in> set xs. 990 < time_of m b \<and> SCHEDULED_RUN_GAP_MS < time_of m b - 990
       | RunBackend b \<Rightarrow> xs \<noteq> [] \<and> b = hd xs \<and> (\<forall>c \<in> set xs. time_of m b \<le> time_of m c) \<and>
           (time_of m b \<le> 990 \<or> time_of m b = RIGHT_NOW \<or> time_of m b - 990 \<le> SCHEDULED_RUN_GAP_MS)
       | TryAgain \<Rightarrow> False" by blast
  have "dec = RunBackend 2" using d r(1,4) by simp
  then have "hd xs = 2" using c by simp
  then show ?thesis using d r(1-3) by blast
qed

section \<open>Requests beside the thread\<close>

text \<open>
  Log threads, threads that flush, and the thread of the manager, interleaved. A request changes the flush
  time and calls \<open>Notify\<close> later (\<open>Asked\<close>, per thread); \<open>RegisterAsync\<close> adds a backend to the manager and
  marks it as registered later; the worker stores flush times while it runs, without the lock. \<open>Early\<close> is
  history: the backends that were registered with a flush time no thread was about to report.
\<close>

datatype manager_pc = Looping | IdleWaiting | TimedWaiting | Running nat | Leaving nat | Ended

record sched_system =
  Manager :: file_manager
  Asked :: "nat \<Rightarrow> (nat \<times> u64) option"
  Pc :: manager_pc
  Early :: "nat set"

fun pc_of :: "decision \<Rightarrow> manager_pc" where
  "pc_of WaitIdle = IdleWaiting"
| "pc_of (WaitFor d) = TimedWaiting"
| "pc_of (RunBackend b) = Running b"
| "pc_of TryAgain = Looping"

inductive sched_step :: "sched_system \<Rightarrow> sched_system \<Rightarrow> bool" where
  ask: "Asked s i = None \<Longrightarrow> whn \<noteq> 0 \<Longrightarrow> takes_request (time_of (Manager s) b) whn \<Longrightarrow>
    sched_step s (s\<lparr>Manager := set_time b whn (Manager s), Asked := (Asked s)(i := Some (b, whn))\<rparr>)"
| tell: "Asked s i = Some (b, whn) \<Longrightarrow> Notify b whn (Manager s) = Some m \<Longrightarrow>
    sched_step s (s\<lparr>Manager := m, Asked := (Asked s)(i := None)\<rparr>)"
| add: "sched_step s (s\<lparr>Manager := Manager_AddBackend b (Manager s)\<rparr>)"
| register: "b \<in> set (ManagedBackends (Manager s)) \<Longrightarrow>
    sched_step s (s\<lparr>Manager := set_registered b (Manager s),
      Early := Early s \<union> {c. c = b \<and> \<not> registered (Manager s) b \<and> time_of (Manager s) b \<noteq> 0 \<and> (\<forall>i w. Asked s i \<noteq> Some (b, w))}\<rparr>)"
| round: "Pc s = Looping \<Longrightarrow> \<not> StopRequested (Manager s) \<Longrightarrow> management_round now (Manager s) = Some (m, dec) \<Longrightarrow>
    sched_step s (s\<lparr>Manager := m, Pc := pc_of dec\<rparr>)"
| stopped: "Pc s = Looping \<Longrightarrow> StopRequested (Manager s) \<Longrightarrow> sched_step s (s\<lparr>Pc := Ended\<rparr>)"
| wake_idle: "Pc s = IdleWaiting \<Longrightarrow> StopRequested (Manager s) \<or> Reschedule (Manager s) \<Longrightarrow>
    sched_step s (s\<lparr>Manager := after_idle_wait (Manager s), Pc := Looping\<rparr>)"
| wake_timed: "Pc s = TimedWaiting \<Longrightarrow> sched_step s (s\<lparr>Manager := after_timed_wait (Manager s), Pc := Looping\<rparr>)"
| work: "Pc s = Running b \<Longrightarrow> sched_step s (s\<lparr>Manager := set_time b t (Manager s)\<rparr>)"
| finish: "Pc s = Running b \<Longrightarrow> after_work b goes_on (Manager s) = Some m \<Longrightarrow>
    sched_step s (s\<lparr>Manager := m, Pc := (if goes_on then Looping else Leaving b)\<rparr>)"
| left: "Pc s = Leaving b \<Longrightarrow> sched_step s (s\<lparr>Pc := Looping\<rparr>)"
| stopping: "sched_step s (s\<lparr>Manager := Manager_SetStopping (Manager s)\<rparr>)"

definition sched_start :: "(nat \<Rightarrow> link_node) \<Rightarrow> sched_system" where
  "sched_start nodes = \<lparr>Manager = FileManager_new nodes, Asked = (\<lambda>_. None), Pc = Looping, Early = {}\<rparr>"

inductive sched_reachable :: "(nat \<Rightarrow> link_node) \<Rightarrow> sched_system \<Rightarrow> bool" for nodes where
  start: "sched_reachable nodes (sched_start nodes)"
| move: "sched_reachable nodes s \<Longrightarrow> sched_step s s' \<Longrightarrow> sched_reachable nodes s'"

definition sched_inv ::
  "file_manager \<Rightarrow> (nat \<Rightarrow> (nat \<times> u64) option) \<Rightarrow> manager_pc \<Rightarrow> nat set \<Rightarrow> nat list \<Rightarrow> bool" where
  "sched_inv m asked pc early xs \<longleftrightarrow> linked_list m xs \<and>
     (\<forall>b. registered m b \<longrightarrow> b \<in> set (ManagedBackends m)) \<and>
     (\<forall>b. registered m b \<and> time_of m b \<noteq> 0 \<longrightarrow>
        b \<in> set xs \<or> (\<exists>i w. asked i = Some (b, w)) \<or> pc = Running b \<or> b \<in> early) \<and>
     (pc = IdleWaiting \<longrightarrow> xs = [] \<or> Reschedule m) \<and>
     (\<forall>i b w. asked i = Some (b, w) \<longrightarrow> w \<noteq> 0)"

lemma sched_invI:
  assumes "linked_list m xs" and "\<And>b. registered m b \<Longrightarrow> b \<in> set (ManagedBackends m)"
    and "\<And>b. registered m b \<Longrightarrow> time_of m b \<noteq> 0 \<Longrightarrow> b \<notin> set xs \<Longrightarrow> (\<forall>i w. asked i \<noteq> Some (b, w)) \<Longrightarrow>
        pc \<noteq> Running b \<Longrightarrow> b \<in> early"
    and "pc = IdleWaiting \<Longrightarrow> xs = [] \<or> Reschedule m" and "\<And>i b w. asked i = Some (b, w) \<Longrightarrow> w \<noteq> 0"
  shows "sched_inv m asked pc early xs"
  using assms unfolding sched_inv_def by blast

lemma sched_invD:
  assumes "sched_inv m asked pc early xs"
  shows "linked_list m xs" and "registered m b \<Longrightarrow> b \<in> set (ManagedBackends m)"
    and "registered m b \<Longrightarrow> time_of m b \<noteq> 0 \<Longrightarrow> b \<notin> set xs \<Longrightarrow> (\<forall>i w. asked i \<noteq> Some (b, w)) \<Longrightarrow>
        pc \<noteq> Running b \<Longrightarrow> b \<in> early"
    and "pc = IdleWaiting \<Longrightarrow> xs = [] \<or> Reschedule m" and "asked i = Some (b, w) \<Longrightarrow> w \<noteq> 0"
  using assms unfolding sched_inv_def by blast+

lemma place_set: "whn \<noteq> 0 \<Longrightarrow> distinct xs \<Longrightarrow> set (place_at t b whn xs) = insert b (set xs)"
proof -
  assume a: "whn \<noteq> 0" "distinct xs"
  let ?p = "\<lambda>i. \<not> due_later t whn i"
  have "set (takeWhile ?p (remove1 b xs) @ b # dropWhile ?p (remove1 b xs)) = insert b (set (remove1 b xs))"
    by (metis (no_types) insert_is_Un list.simps(15) set_append sup_left_commute takeWhile_dropWhile_id)
  then show ?thesis using a by (auto simp: place_at_def Let_def)
qed

lemma inv_tell:
  assumes "sched_inv m asked pc early xs" and "asked i = Some (b, whn)" and "Notify b whn m = Some m'"
  shows "\<exists>ys. sched_inv m' (asked(i := None)) pc early ys \<and> set ys \<subseteq> insert b (set xs) \<and>
    time_of m' = time_of m \<and> registered m' = registered m"
proof -
  note d = sched_invD [OF assms(1)]
  have w: "whn \<noteq> 0" by (rule d(5) [OF assms(2)])
  let ?ys = "if registered m b then place_at (time_of m) b whn xs else xs"
  from Notify_list [OF d(1), of b whn] assms(3) obtain r where
    n: "linked_list m' ?ys" "unlinked m' = unlinked (m\<lparr>Reschedule := r\<rparr>)" "Reschedule m \<longrightarrow> r"
    "registered m b \<and> ActiveBackendsNext m' = Some b \<longrightarrow> r" by auto
  have f: "time_of m' = time_of m" "registered m' = registered m" "ManagedBackends m' = ManagedBackends m"
    "Reschedule m' = r" using unlinked_fields [OF n(2)] by simp_all
  have set: "set ?ys = (if registered m b then insert b (set xs) else set xs)"
    using place_set [OF w linked_distinct [OF d(1)]] by simp
  have "sched_inv m' (asked(i := None)) pc early ?ys"
  proof (rule sched_invI [OF n(1)])
    fix c assume c: "registered m' c" "time_of m' c \<noteq> 0" "c \<notin> set ?ys" "\<forall>i' w. (asked(i := None)) i' \<noteq> Some (c, w)" "pc \<noteq> Running c"
    have "c \<noteq> b" using c(1,3) unfolding set f by (auto split: if_splits)
    then have "\<forall>i' w. asked i' \<noteq> Some (c, w)" using c(4) assms(2) by (metis fun_upd_apply option.inject prod.inject)
    moreover have "c \<notin> set xs" using c(3) unfolding set by (auto split: if_splits)
    ultimately show "c \<in> early" using d(3) [of c] c(1,2,5) unfolding f by blast
  next
    assume p: "pc = IdleWaiting"
    have "r" if "?ys \<noteq> []"
    proof (cases "xs = []")
      case False
      then show ?thesis using d(4) [OF p] n(3) by simp
    next
      case True
      with that have reg: "registered m b" by (auto split: if_splits)
      then have "set ?ys = {b}" using set True by simp
      then have "first ?ys None = Some b" using that by (cases ?ys) auto
      then show ?thesis using n(1,4) reg by (simp add: linked_list_def)
    qed
    then show "?ys = [] \<or> Reschedule m'" unfolding f by blast
  next
    fix j c v assume "(asked(i := None)) j = Some (c, v)"
    then show "v \<noteq> 0" using d(5) by (auto split: if_splits)
  next
    fix c assume "registered m' c"
    then show "c \<in> set (ManagedBackends m')" using d(2) by (simp add: f)
  qed
  moreover have "set ?ys \<subseteq> insert b (set xs)" unfolding set by auto
  ultimately show ?thesis using f by blast
qed

lemma inv_round:
  assumes "sched_inv m asked Looping early xs" and "management_round now m = Some (m', dec)"
  shows "\<exists>ys. sched_inv m' asked (pc_of dec) early ys \<and> set ys \<subseteq> set xs \<and> registered m' = registered m \<and>
    (\<forall>c. c \<notin> set xs \<longrightarrow> time_of m' c = time_of m c \<and> pc_of dec \<noteq> Running c)"
proof -
  note d = sched_invD [OF assms(1)]
  define ys where "ys = dropWhile (\<lambda>b. time_of m b = 0) xs"
  have sub: "set ys \<subseteq> set xs" unfolding ys_def by (meson set_dropWhileD subsetI)
  have gone: "b \<in> set ys" if "b \<in> set xs" "time_of m b \<noteq> 0" for b
    using that unfolding ys_def by (metis (mono_tags, lifting) Un_iff set_append set_takeWhileD takeWhile_dropWhile_id)
  from management_round_list [OF d(1) ys_def, of now] assms(2) have
    c: "case ys of
       [] \<Rightarrow> dec = WaitIdle \<and> linked_list m' [] \<and> unlinked m' = unlinked (m\<lparr>CurrentEarliestTime := UINT64_MAX\<rparr>)
     | h # zs \<Rightarrow>
         let t = time_of m h in
         if t \<noteq> RIGHT_NOW \<and> now < t \<and> t - now > SCHEDULED_RUN_GAP_MS
         then dec = WaitFor (t - now) \<and> linked_list m' ys \<and> unlinked m' = unlinked (m\<lparr>CurrentEarliestTime := t\<rparr>)
         else dec = (if h \<in> set (ManagedBackends m) then RunBackend h else TryAgain) \<and> linked_list m' zs \<and>
           unlinked m' = unlinked (if t \<noteq> RIGHT_NOW \<and> now < t then upd_node h (\<lambda>n. n\<lparr>NodeFlushTime := RIGHT_NOW\<rparr>) m else m)"
    by simp
  have waiting: "sched_inv m' asked pc early ys"
    if "linked_list m' ys" "unlinked m' = unlinked (m\<lparr>CurrentEarliestTime := t\<rparr>)" "pc = IdleWaiting \<longrightarrow> ys = []" for pc t
  proof (rule sched_invI [OF that(1)])
    have f: "time_of m' = time_of m" "registered m' = registered m" "ManagedBackends m' = ManagedBackends m"
      using unlinked_fields [OF that(2)] by simp_all
    show "b \<in> set (ManagedBackends m')" if "registered m' b" for b using that d(2) by (simp add: f)
    show "b \<in> early" if b: "registered m' b" "time_of m' b \<noteq> 0" "b \<notin> set ys" "\<forall>i w. asked i \<noteq> Some (b, w)" for b
      using d(3) [of b] b gone [of b] unfolding f by blast
  qed (use that(3) d(5) in auto)
  show ?thesis
  proof (cases ys)
    case Nil
    have "dec = WaitIdle" "linked_list m' ys" "unlinked m' = unlinked (m\<lparr>CurrentEarliestTime := UINT64_MAX\<rparr>)"
      using c unfolding Nil by simp_all
    then show ?thesis using waiting [of UINT64_MAX IdleWaiting] Nil sub
        unlinked_fields [of m' "m\<lparr>CurrentEarliestTime := UINT64_MAX\<rparr>"]
      by (intro exI [of _ ys]) auto
  next
    case (Cons h zs)
    let ?t = "time_of m h"
    show ?thesis
    proof (cases "?t \<noteq> RIGHT_NOW \<and> now < ?t \<and> ?t - now > SCHEDULED_RUN_GAP_MS")
      case True
      then have "dec = WaitFor (?t - now)" "linked_list m' ys" "unlinked m' = unlinked (m\<lparr>CurrentEarliestTime := ?t\<rparr>)"
        using c unfolding Cons by (simp_all add: Let_def)
      then show ?thesis using waiting [of ?t TimedWaiting] sub unlinked_fields [of m' "m\<lparr>CurrentEarliestTime := ?t\<rparr>"]
        by (intro exI [of _ ys]) auto
    next
      case False
      let ?m = "if ?t \<noteq> RIGHT_NOW \<and> now < ?t then set_time h RIGHT_NOW m else m"
      have c': "dec = (if h \<in> set (ManagedBackends m) then RunBackend h else TryAgain)" "linked_list m' zs"
        "unlinked m' = unlinked ?m"
        using c False unfolding Cons by (auto simp: Let_def set_time_def)
      have tm: "time_of m' b = time_of m b" if "b \<noteq> h" for b
        using unlinked_fields [OF c'(3)] that by (simp add: set_time_list)
      have f: "registered m' = registered m" "ManagedBackends m' = ManagedBackends m"
        using unlinked_fields [OF c'(3)] by (simp_all add: set_time_list)
      have "sched_inv m' asked (pc_of dec) early zs"
      proof (rule sched_invI [OF c'(2)])
        fix b assume b: "registered m' b" "time_of m' b \<noteq> 0" "b \<notin> set zs" "\<forall>i w. asked i \<noteq> Some (b, w)" "pc_of dec \<noteq> Running b"
        have "b \<noteq> h" using b(1,5) c'(1) d(2) f by auto
        then have "b \<notin> set xs" using gone [of b] b(2,3) tm unfolding Cons by auto
        then show "b \<in> early" using d(3) [of b] b(1,2,4) tm [OF \<open>b \<noteq> h\<close>] f by simp
      qed (use c'(1) d(2,5) f in \<open>auto split: if_splits\<close>)
      moreover have h: "h \<in> set xs" "set zs \<subseteq> set xs" using sub unfolding Cons by auto
      moreover have "time_of m' c = time_of m c \<and> pc_of dec \<noteq> Running c" if "c \<notin> set xs" for c
      proof -
        have "c \<noteq> h" using that h by blast
        then show ?thesis using tm [of c] c'(1) by simp
      qed
      ultimately show ?thesis using f by blast
    qed
  qed
qed

lemma inv_finish:
  assumes "sched_inv m asked (Running b) early xs" and "after_work b goes_on m = Some m'"
  shows "\<exists>ys. sched_inv m' asked (if goes_on then Looping else Leaving b) early ys \<and> set ys \<subseteq> insert b (set xs) \<and>
    (\<forall>c. c \<noteq> b \<longrightarrow> time_of m' c = time_of m c \<and> registered m' c = registered m c)"
proof -
  note d = sched_invD [OF assms(1)]
  let ?ys = "if goes_on \<and> time_of m b \<noteq> 0 then place_at (time_of m) b (time_of m b) xs else remove1 b xs"
  from after_work_list [OF d(1), of b goes_on] assms(2) have
    w: "linked_list m' ?ys" "time_of m' = (if goes_on then time_of m else (time_of m)(b := 0))"
    "registered m' = (if goes_on then registered m else (registered m)(b := False))"
    "ManagedBackends m' = (if goes_on then ManagedBackends m else remove1 b (ManagedBackends m))" by auto
  have set: "insert b (set ?ys) = insert b (set xs)" "goes_on \<and> time_of m b \<noteq> 0 \<Longrightarrow> b \<in> set ?ys"
    using place_set [of "time_of m b" xs "time_of m" b] linked_distinct [OF d(1)] by auto
  have "sched_inv m' asked (if goes_on then Looping else Leaving b) early ?ys"
  proof (rule sched_invI [OF w(1)])
    fix c assume c: "registered m' c" "time_of m' c \<noteq> 0" "c \<notin> set ?ys" "\<forall>i w. asked i \<noteq> Some (c, w)"
    have "c \<noteq> b"
    proof
      assume "c = b"
      then have "goes_on \<and> time_of m b \<noteq> 0" using c(1,2) w(2,3) by (auto split: if_splits)
      then show False using set(2) c(3) \<open>c = b\<close> by blast
    qed
    then have "registered m c" "time_of m c \<noteq> 0" "c \<notin> set xs"
      using c(1-3) w(2,3) set(1) by (auto split: if_splits)
    then show "c \<in> early" using d(3) [of c] c(4) \<open>c \<noteq> b\<close> by auto
  qed (use d(2,5) w(3,4) in \<open>auto split: if_splits\<close>)
  moreover have "set ?ys \<subseteq> insert b (set xs)" using set(1) by blast
  moreover have "\<forall>c. c \<noteq> b \<longrightarrow> time_of m' c = time_of m c \<and> registered m' c = registered m c" using w(2,3) by auto
  ultimately show ?thesis by blast
qed

lemma sched_step_inv:
  assumes "sched_step s s'" and "sched_inv (Manager s) (Asked s) (Pc s) (Early s) xs"
  shows "\<exists>ys. sched_inv (Manager s') (Asked s') (Pc s') (Early s') ys"
  using assms
proof (induction rule: sched_step.induct)
  case (ask s i whn b)
  note d = sched_invD [OF ask.prems]
  have "sched_inv (set_time b whn (Manager s)) ((Asked s)(i := Some (b, whn))) (Pc s) (Early s) xs"
  proof (rule sched_invI)
    fix c assume c: "registered (set_time b whn (Manager s)) c" "time_of (set_time b whn (Manager s)) c \<noteq> 0" "c \<notin> set xs"
      "\<forall>j w. ((Asked s)(i := Some (b, whn))) j \<noteq> Some (c, w)" "Pc s \<noteq> Running c"
    have "c \<noteq> b" using c(4) by (metis fun_upd_same)
    moreover have "\<forall>j w. Asked s j \<noteq> Some (c, w)" using c(4) ask.hyps(1) by (metis fun_upd_apply option.distinct(1))
    ultimately show "c \<in> Early s" using d(3) [of c] c(1-3,5) by (simp add: set_time_list)
  qed (use d ask.hyps in \<open>auto simp: set_time_list split: if_splits\<close>)
  then show ?case by (auto simp: fun_upd_def)
next
  case (tell s i b whn m)
  from inv_tell [OF tell.prems tell.hyps] show ?case by (auto simp: fun_upd_def)
next
  case (add s b)
  note d = sched_invD [OF add.prems]
  have "sched_inv (Manager_AddBackend b (Manager s)) (Asked s) (Pc s) (Early s) xs"
    by (rule sched_invI) (use d in \<open>auto simp: Manager_AddBackend_list\<close>)
  then show ?case by auto
next
  case (register b s)
  note d = sched_invD [OF register.prems]
  let ?e = "Early s \<union> {c. c = b \<and> \<not> registered (Manager s) b \<and> time_of (Manager s) b \<noteq> 0 \<and> (\<forall>i w. Asked s i \<noteq> Some (b, w))}"
  have "sched_inv (set_registered b (Manager s)) (Asked s) (Pc s) ?e xs"
  proof (rule sched_invI)
    fix c assume c: "registered (set_registered b (Manager s)) c" "time_of (set_registered b (Manager s)) c \<noteq> 0" "c \<notin> set xs"
      "\<forall>i w. Asked s i \<noteq> Some (c, w)" "Pc s \<noteq> Running c"
    then show "c \<in> ?e" using d(3) [of c] by (cases "registered (Manager s) c") (auto simp: set_registered_list split: if_splits)
  qed (use d register.hyps in \<open>auto simp: set_registered_list split: if_splits\<close>)
  then show ?case by auto
next
  case (round s now m dec)
  from inv_round [OF _ round.hyps(3)] round.prems round.hyps(1) show ?case by fastforce
next
  case (stopped s)
  note d = sched_invD [OF stopped.prems]
  have "sched_inv (Manager s) (Asked s) Ended (Early s) xs"
    by (rule sched_invI) (use d stopped.hyps in auto)
  then show ?case by auto
next
  case (wake_idle s)
  note d = sched_invD [OF wake_idle.prems]
  have "sched_inv (after_idle_wait (Manager s)) (Asked s) Looping (Early s) xs"
    by (rule sched_invI) (use d wake_idle.hyps in \<open>auto simp: after_idle_wait_def\<close>)
  then show ?case by auto
next
  case (wake_timed s)
  note d = sched_invD [OF wake_timed.prems]
  have "sched_inv (after_timed_wait (Manager s)) (Asked s) Looping (Early s) xs"
    by (rule sched_invI) (use d wake_timed.hyps in \<open>auto simp: after_timed_wait_def\<close>)
  then show ?case by auto
next
  case (work s b t)
  note d = sched_invD [OF work.prems]
  have "sched_inv (set_time b t (Manager s)) (Asked s) (Pc s) (Early s) xs"
    by (rule sched_invI) (use d work.hyps in \<open>auto simp: set_time_list split: if_splits\<close>)
  then show ?case by auto
next
  case (finish s b goes_on m)
  from inv_finish [OF _ finish.hyps(2)] finish.prems finish.hyps(1) show ?case by fastforce
next
  case (left s b)
  note d = sched_invD [OF left.prems]
  have "sched_inv (Manager s) (Asked s) Looping (Early s) xs"
    by (rule sched_invI) (use d left.hyps in auto)
  then show ?case by auto
next
  case (stopping s)
  note d = sched_invD [OF stopping.prems]
  have "sched_inv (Manager_SetStopping (Manager s)) (Asked s) (Pc s) (Early s) xs"
    by (rule sched_invI) (use d in \<open>auto simp: Manager_SetStopping_def\<close>)
  then show ?case by auto
qed

lemma sched_reachable_inv:
  assumes "sched_reachable nodes s" and "\<And>b. \<not> ActiveLinked (nodes b) \<and> \<not> NodeRegistered (nodes b)"
  shows "\<exists>xs. sched_inv (Manager s) (Asked s) (Pc s) (Early s) xs"
  using assms(1)
proof (induction rule: sched_reachable.induct)
  case start
  have "in_order (FileManager_new nodes) []" by (rule new_in_order) (rule assms(2))
  then have "sched_inv (FileManager_new nodes) (\<lambda>_. None) Looping {} []"
    by (intro sched_invI) (auto simp: in_order_def registered_def FileManager_new_def assms(2))
  then show ?case by (auto simp: sched_start_def)
next
  case (move s s')
  then show ?case using sched_step_inv by blast
qed

text \<open>C19. However requests, registrations and the manager's thread interleave, a registered backend with a
  flush time is never forgotten: it is in the list, or a thread is about to put it there, or it is being
  run, unless it was registered with a flush time already (the request made before registration); and
  the thread does not sleep without an end beside a backend in the list.\<close>

theorem flush_request_not_forgotten:
  assumes "sched_reachable nodes s" and "\<And>b. \<not> ActiveLinked (nodes b) \<and> \<not> NodeRegistered (nodes b)"
  shows "(registered (Manager s) b \<and> time_of (Manager s) b \<noteq> 0 \<longrightarrow>
      ActiveLinked (Node (Manager s) b) \<or> (\<exists>i w. Asked s i = Some (b, w)) \<or> Pc s = Running b \<or> b \<in> Early s) \<and>
    (Pc s = IdleWaiting \<and> ActiveLinked (Node (Manager s) b) \<longrightarrow> Reschedule (Manager s))"
proof -
  from sched_reachable_inv [OF assms] obtain xs where i: "sched_inv (Manager s) (Asked s) (Pc s) (Early s) xs" ..
  have l: "ActiveLinked (Node (Manager s) b) \<longleftrightarrow> b \<in> set xs" using sched_invD(1) [OF i] by (simp add: linked_list_def)
  show ?thesis using sched_invD(3,4) [OF i] l by auto
qed

lemma flush_request_not_forgotten_witness:
  "\<exists>s. sched_reachable idle_nodes s \<and> registered (Manager s) 0 \<and> time_of (Manager s) 0 = RIGHT_NOW \<and>
     Asked s = (\<lambda>_. None) \<and> Pc s = Looping \<and> Early s = {} \<and> ActiveLinked (Node (Manager s) 0)"
proof -
  have n: "\<not> ActiveLinked (idle_nodes b) \<and> \<not> NodeRegistered (idle_nodes b)" for b by (simp add: idle_nodes_def)
  let ?s0 = "sched_start idle_nodes"
  let ?s1 = "?s0\<lparr>Manager := Manager_AddBackend 0 (Manager ?s0)\<rparr>"
  let ?s2 = "?s1\<lparr>Manager := set_registered 0 (Manager ?s1), Early := Early ?s1 \<union> {c. c = 0 \<and> \<not> registered (Manager ?s1) 0 \<and>
    time_of (Manager ?s1) 0 \<noteq> 0 \<and> (\<forall>i w. Asked ?s1 i \<noteq> Some (0, w))}\<rparr>"
  let ?s3 = "?s2\<lparr>Manager := set_time 0 RIGHT_NOW (Manager ?s2), Asked := (Asked ?s2)(5 := Some (0, RIGHT_NOW))\<rparr>"
  have t: "time_of (Manager ?s2) 0 = 0" "registered (Manager ?s2) 0" "Early ?s2 = {}"
    by (simp_all add: set_registered_list Manager_AddBackend_list sched_start_def) (simp_all add: time_of_def FileManager_new_def idle_nodes_def)
  have r1: "sched_reachable idle_nodes ?s1"
    by (rule sched_reachable.move [OF sched_reachable.start sched_step.add])
  have "sched_step ?s1 ?s2" using sched_step.register [of 0 ?s1] Manager_AddBackend_list(4) [of 0 "Manager ?s0"] by simp
  then have r2: "sched_reachable idle_nodes ?s2" by (rule sched_reachable.move [OF r1])
  have "sched_step ?s2 ?s3"
    using sched_step.ask [of ?s2 5 RIGHT_NOW 0] t(1) by (simp add: sched_start_def takes_request_def)
  then have r3: "sched_reachable idle_nodes ?s3" by (rule sched_reachable.move [OF r2])
  have l: "linked_list (Manager ?s3) []"
    using new_in_order [of idle_nodes, OF n]
    by (simp add: in_order_def set_time_list set_registered_list Manager_AddBackend_list sched_start_def)
  from Notify_list [OF l, of 0 RIGHT_NOW] obtain m r where
    m: "Notify 0 RIGHT_NOW (Manager ?s3) = Some m" "unlinked m = unlinked ((Manager ?s3)\<lparr>Reschedule := r\<rparr>)" by blast
  define s where "s = ?s3\<lparr>Manager := m, Asked := (Asked ?s3)(5 := None)\<rparr>"
  have "sched_step ?s3 s" using sched_step.tell [of ?s3 5 0 RIGHT_NOW m] m(1) by (simp add: s_def)
  then have r4: "sched_reachable idle_nodes s" by (rule sched_reachable.move [OF r3])
  have f: "registered (Manager s) 0" "time_of (Manager s) 0 = RIGHT_NOW"
    using unlinked_fields [OF m(2)] t(2)
    by (simp_all add: s_def set_time_list time_of_def registered_def set_time_def upd_node_def)
  have a: "Asked s = (\<lambda>_. None)" "Pc s = Looping" "Early s = {}"
    using t(3) by (auto simp: s_def sched_start_def)
  have "ActiveLinked (Node (Manager s) 0)"
    using flush_request_not_forgotten [OF r4 n, of 0] f a by (simp add: RIGHT_NOW_def)
  then show ?thesis using r4 f a by blast
qed

section \<open>A flush requested before registration\<close>

definition deaf :: "nat \<Rightarrow> sched_system \<Rightarrow> bool" where
  "deaf b s \<longleftrightarrow> time_of (Manager s) b = RIGHT_NOW \<and> (\<forall>i w. Asked s i \<noteq> Some (b, w)) \<and>
     Pc s \<noteq> Running b \<and> (\<exists>xs. sched_inv (Manager s) (Asked s) (Pc s) (Early s) xs \<and> b \<notin> set xs)"

lemma no_more_requests: "\<not> takes_request RIGHT_NOW whn"
  by (simp add: takes_request_def)

lemma deaf_step:
  assumes "sched_step s s'" and "deaf b s"
  shows "deaf b s'"
proof -
  obtain xs where i: "sched_inv (Manager s) (Asked s) (Pc s) (Early s) xs" "b \<notin> set xs" using assms(2) by (auto simp: deaf_def)
  have b: "time_of (Manager s) b = RIGHT_NOW" "\<And>i w. Asked s i \<noteq> Some (b, w)" "Pc s \<noteq> Running b"
    using assms(2) by (auto simp: deaf_def)
  have keep: "\<exists>ys. sched_inv (Manager s') (Asked s') (Pc s') (Early s') ys \<and> b \<notin> set ys"
    if "linked_list (Manager s') xs"
  proof -
    from sched_step_inv [OF assms(1) i(1)] obtain ys where y: "sched_inv (Manager s') (Asked s') (Pc s') (Early s') ys" ..
    have "set ys = set xs" using sched_invD(1) [OF y] that by (auto simp: linked_list_def)
    then show ?thesis using y i(2) by auto
  qed
  note l = sched_invD(1) [OF i(1)]
  show ?thesis using assms(1)
  proof (cases rule: sched_step.cases)
    case (ask j whn c)
    have "c \<noteq> b" using ask b(1) no_more_requests by auto
    moreover have "linked_list (Manager s') xs" using ask l by (simp add: set_time_list)
    ultimately show ?thesis using keep ask b by (auto simp: deaf_def set_time_list)
  next
    case (tell j c whn m)
    have "c \<noteq> b" using tell b(2) by auto
    then show ?thesis using inv_tell [OF i(1) tell(2,3)] tell(1) b i(2) by (auto simp: deaf_def)
  next
    case (add c)
    have "linked_list (Manager s') xs" using add l by (simp add: Manager_AddBackend_list)
    then show ?thesis using keep add b by (auto simp: deaf_def Manager_AddBackend_list)
  next
    case (register c)
    have "linked_list (Manager s') xs" using register l by (simp add: set_registered_list)
    then show ?thesis using keep register b by (auto simp: deaf_def set_registered_list)
  next
    case (round now m dec)
    then show ?thesis using inv_round [OF _ round(4), of "Asked s" "Early s" xs] i b by (auto simp: deaf_def)
  next
    case stopped
    then show ?thesis using keep l b by (auto simp: deaf_def)
  next
    case wake_idle
    have "linked_list (Manager s') xs" using wake_idle l by (simp add: after_idle_wait_def)
    then show ?thesis using keep wake_idle b by (auto simp: deaf_def after_idle_wait_def)
  next
    case wake_timed
    have "linked_list (Manager s') xs" using wake_timed l by (simp add: after_timed_wait_def)
    then show ?thesis using keep wake_timed b by (auto simp: deaf_def after_timed_wait_def)
  next
    case (work c t)
    have "linked_list (Manager s') xs" using work l by (simp add: set_time_list)
    moreover have "c \<noteq> b" using work b(3) by auto
    ultimately show ?thesis using keep work b by (auto simp: deaf_def set_time_list)
  next
    case (finish c goes_on m)
    have "c \<noteq> b" using finish b(3) by auto
    then show ?thesis using inv_finish [OF _ finish(3), of "Asked s" "Early s" xs] finish i b by (auto simp: deaf_def)
  next
    case (left c)
    then show ?thesis using keep l b by (auto simp: deaf_def)
  next
    case stopping
    have "linked_list (Manager s') xs" using stopping l by (simp add: Manager_SetStopping_def)
    then show ?thesis using keep stopping b by (auto simp: deaf_def Manager_SetStopping_def)
  qed
qed

inductive sched_steps :: "sched_system \<Rightarrow> sched_system \<Rightarrow> bool" where
  none: "sched_steps s s"
| more: "sched_steps s s' \<Longrightarrow> sched_step s' s'' \<Longrightarrow> sched_steps s s''"

lemma deaf_steps: "sched_steps s s' \<Longrightarrow> deaf b s \<Longrightarrow> deaf b s'"
  by (induction rule: sched_steps.induct) (blast dest: deaf_step)+

text \<open>C20. A file backend whose request to flush came too early is never run. In any state in which a
  request has set its flush time to \<open>RIGHT_NOW\<close> and no thread is about to report one, while the backend is
  not in the manager's list and not being run (a request and its \<open>Notify\<close> before the first record
  registers the backend lead there, since \<open>Notify\<close> ignores it), whatever follows, registration included,
  the manager does not run it, its flush time stays, and every later request counts as one already made.\<close>

theorem early_flush_forgotten:
  assumes "\<And>b. \<not> ActiveLinked (nodes b) \<and> \<not> NodeRegistered (nodes b)" and "sched_reachable nodes s"
    and "time_of (Manager s) b = RIGHT_NOW" and "\<And>i w. Asked s i \<noteq> Some (b, w)"
    and "\<not> ActiveLinked (Node (Manager s) b)" and "Pc s \<noteq> Running b" and "sched_steps s s'"
  shows "Pc s' \<noteq> Running b \<and> time_of (Manager s') b = RIGHT_NOW \<and> \<not> takes_request (time_of (Manager s') b) whn"
proof -
  obtain xs where i: "sched_inv (Manager s) (Asked s) (Pc s) (Early s) xs" using sched_reachable_inv [OF assms(2,1)] ..
  then have "b \<notin> set xs" using assms(5) sched_invD(1) [OF i] by (simp add: linked_list_def)
  then have "deaf b s" using i assms(3,4,6) by (auto simp: deaf_def)
  then have "deaf b s'" by (rule deaf_steps [OF assms(7)])
  then show ?thesis using no_more_requests by (simp add: deaf_def)
qed

text \<open>The request, its \<open>Notify\<close>, and the registration.\<close>

lemma early_flush_run:
  assumes "\<And>b. \<not> ActiveLinked (nodes b) \<and> \<not> NodeRegistered (nodes b)" and "NodeFlushTime (nodes b) = 0"
  shows "\<exists>s s'. sched_reachable nodes s \<and> \<not> registered (Manager s) b \<and> time_of (Manager s) b = RIGHT_NOW \<and>
    (\<forall>i w. Asked s i \<noteq> Some (b, w)) \<and> \<not> ActiveLinked (Node (Manager s) b) \<and> Pc s \<noteq> Running b \<and>
    sched_steps s s' \<and> registered (Manager s') b"
proof -
  let ?s0 = "sched_start nodes"
  let ?m1 = "set_time b RIGHT_NOW (FileManager_new nodes)"
  let ?s1 = "?s0\<lparr>Manager := ?m1, Asked := (Asked ?s0)(0 := Some (b, RIGHT_NOW))\<rparr>"
  let ?s2 = "?s1\<lparr>Manager := ?m1, Asked := (Asked ?s1)(0 := None)\<rparr>"
  let ?s3 = "?s2\<lparr>Manager := Manager_AddBackend b ?m1\<rparr>"
  let ?s4 = "?s3\<lparr>Manager := set_registered b (Manager ?s3), Early := Early ?s3 \<union> {c. c = b \<and> \<not> registered (Manager ?s3) b \<and>
    time_of (Manager ?s3) b \<noteq> 0 \<and> (\<forall>i w. Asked ?s3 i \<noteq> Some (b, w))}\<rparr>"
  have t0: "time_of (FileManager_new nodes) b = 0" using assms(2) by (simp add: time_of_def FileManager_new_def)
  have r0: "sched_reachable nodes ?s0" by (rule sched_reachable.start)
  have "sched_step ?s0 ?s1"
    using sched_step.ask [of ?s0 0 RIGHT_NOW b] t0 by (simp add: sched_start_def takes_request_def)
  then have r1: "sched_reachable nodes ?s1" by (rule sched_reachable.move [OF r0])
  have "Notify b RIGHT_NOW ?m1 = Some ?m1"
    using assms(1) by (simp add: Notify_def set_time_def FileManager_new_def)
  then have "sched_step ?s1 ?s2"
    using sched_step.tell [of ?s1 0 b RIGHT_NOW ?m1] by simp
  then have r2: "sched_reachable nodes ?s2" by (rule sched_reachable.move [OF r1])
  have s3: "sched_step ?s2 ?s3" using sched_step.add [of ?s2 b] by simp
  have s4: "sched_step ?s3 ?s4"
    using sched_step.register [of b ?s3] Manager_AddBackend_list(4) [of b ?m1] by simp
  have "sched_steps ?s2 ?s4" by (rule sched_steps.more [OF sched_steps.more [OF sched_steps.none s3] s4])
  moreover have "registered (Manager ?s4) b" by (simp add: set_registered_list)
  moreover have "\<not> registered (Manager ?s2) b \<and> time_of (Manager ?s2) b = RIGHT_NOW \<and>
      (\<forall>i w. Asked ?s2 i \<noteq> Some (b, w)) \<and> \<not> ActiveLinked (Node (Manager ?s2) b) \<and> Pc ?s2 \<noteq> Running b"
    using assms(1) by (simp add: set_time_list sched_start_def) (simp add: registered_def set_time_def upd_node_def FileManager_new_def)
  ultimately show ?thesis using r2 by blast
qed

lemma early_flush_forgotten_witness:
  "\<exists>s s'. sched_reachable idle_nodes s \<and> \<not> registered (Manager s) 0 \<and> sched_steps s s' \<and> registered (Manager s') 0 \<and>
     Pc s' \<noteq> Running 0 \<and> time_of (Manager s') 0 = RIGHT_NOW \<and> \<not> takes_request (time_of (Manager s') 0) 7"
proof -
  have n: "\<not> ActiveLinked (idle_nodes b) \<and> \<not> NodeRegistered (idle_nodes b)" for b by (simp add: idle_nodes_def)
  have t: "NodeFlushTime (idle_nodes 0) = 0" by (simp add: idle_nodes_def)
  from early_flush_run [of idle_nodes 0, OF n t] obtain s s' where
    s: "sched_reachable idle_nodes s" "\<not> registered (Manager s) 0" "time_of (Manager s) 0 = RIGHT_NOW"
      "\<And>i w. Asked s i \<noteq> Some (0, w)" "\<not> ActiveLinked (Node (Manager s) 0)" "Pc s \<noteq> Running 0"
      "sched_steps s s'" "registered (Manager s') 0"
    by blast
  from early_flush_forgotten [OF n s(1,3,4,5,6,7)] s(1,2,7,8) show ?thesis by blast
qed

end
