(* ===== verification/Record_Text.thy ===== *)
theory Record_Text
  imports Channel_Text Subsystem_Ids
begin

text \<open>
  How a record becomes a line of text (\<open>Context.cpp\<close>, the text format of \<open>Context::Apply\<close>, and the time
  stamp, thread and level texts it starts with; \<open>Module.cpp\<close>). A \<open>Context\<close> lives for one log call and
  \<open>Apply\<close> is called on it once per backend. The buffers are modelled as memory: every write names its
  position, a write outside is \<open>None\<close>, and what a write does not reach keeps its old bytes. Lemmas: no
  call writes outside its buffer, and each delivers exactly the parts its flags ask for.
\<close>

section \<open>Numbers, dates and the system\<close>

record date_time =
  Year :: nat
  Month :: nat
  Day :: nat
  Hour :: nat
  Minute :: nat
  Second :: nat
  Millisecond :: nat

text \<open>What one call of \<open>Apply\<close> asks the system and the procedure printer.\<close>

record apply_env =
  MillisecNow :: u64
  LocalNow :: date_time
  UtcNow :: date_time
  UtcOffset :: int
  OsThread :: u64
  OsProcess :: u64
  AppendResult :: "string option"
  ThreadFieldsNow :: "(string \<times> string) list"
  FieldNames :: "OutputField \<Rightarrow> string"

text \<open>The static variables of \<open>InitTimestamp\<close>, and the flags \<open>ThreadName\<close> objects watch.\<close>

record line_world =
  LocalStampTicks :: u64
  LocalStamp :: string
  UtcStampTicks :: u64
  UtcStamp :: string
  TransitionPrinted :: "nat \<Rightarrow> bool"

text \<open>The parts of a channel that a line depends on; its link's thread names, when it has a link object.\<close>

record line_channel =
  ShortenerList :: "(string \<times> string) list option"
  ShortenerMap :: "(string \<times> string) list"
  OwnNames :: "u64 \<rightharpoonup> thread_name"
  LinkNames :: "(u64 \<rightharpoonup> thread_name) option"
  ChannelBytes :: u64

record line_ctx = ctx +
  CtxChannel :: "string option"
  CtxMethod :: "string option"
  MethodPlace :: place
  MethodShortener :: shortener_ctx
  FullName :: string
  CtxLine :: int
  HasAppendProc :: bool
  CollapseRepeatCount :: u64
  CtxTimestamp :: string
  ThreadProcessID :: string
  CtxSignature :: "char option"
  AppliedValue :: u32
  LoggedBytesCounted :: bool

definition pad0 :: "nat \<Rightarrow> nat \<Rightarrow> string" where
  "pad0 w n = replicate (w - length (show_nat n)) (CHR ''0'') @ show_nat n"

section \<open>Time stamps\<close>

definition TIMESTAMP_BUFFER_SIZE :: nat where
  "TIMESTAMP_BUFFER_SIZE = 32"

definition TZD_BUFFER_SIZE :: nat where
  "TZD_BUFFER_SIZE = 16"

definition TZD_T_POS :: nat where
  "TZD_T_POS = 10"

definition TZD_E_POS :: nat where
  "TZD_E_POS = 19"

definition stamp_text :: "date_time \<Rightarrow> string" where
  "stamp_text t =
     take (TIMESTAMP_BUFFER_SIZE - 2)
       (pad0 4 (Year t) @ ''-'' @ pad0 2 (Month t) @ ''-'' @ pad0 2 (Day t) @ '' '' @ pad0 2 (Hour t) @ '':'' @
        pad0 2 (Minute t) @ '':'' @ pad0 2 (Second t) @ '':'' @ pad0 3 (Millisecond t) @ '' '')"

text \<open>C division, which rounds towards zero.\<close>

definition c_div :: "int \<Rightarrow> int \<Rightarrow> int" where
  "c_div a b = sgn a * sgn b * (\<bar>a\<bar> div \<bar>b\<bar>)"

definition c_mod :: "int \<Rightarrow> int \<Rightarrow> int" where
  "c_mod a b = a - c_div a b * b"

text \<open>\<open>%+.02i:%02i \<close> of the offset \<open>d\<close> in seconds.\<close>

definition CreateTZD :: "int \<Rightarrow> string" where
  "CreateTZD d =
     (let m = nat (c_mod \<bar>d\<bar> 60); h = c_mod (c_div d (60 * 60)) 60
      in take (TZD_BUFFER_SIZE - 2) ((if h < 0 then ''-'' else ''+'') @ pad0 2 (nat \<bar>h\<bar>) @ '':'' @ pad0 2 m @ '' ''))"

definition tz_patch :: "string \<Rightarrow> string \<Rightarrow> string" where
  "tz_patch s tzd =
     (let b = (s @ replicate (TIMESTAMP_BUFFER_SIZE - length s) NUL)[TZD_T_POS := CHR ''T'']
      in c_str (take TZD_E_POS b @ take (TIMESTAMP_BUFFER_SIZE - TZD_E_POS - 1) tzd))"

text \<open>\<open>tf\<close>: 1 local, 2 with the time zone, 3 UTC.\<close>

definition InitTimestamp :: "nat \<Rightarrow> apply_env \<Rightarrow> line_world \<Rightarrow> line_world \<times> string" where
  "InitTimestamp tf env w =
     (let n = MillisecNow env;
          (w, s) =
            (if tf = 1 \<or> tf = 2
             then
               let w = (if n \<noteq> LocalStampTicks w
                        then w\<lparr>LocalStampTicks := n, LocalStamp := stamp_text (LocalNow env)\<rparr> else w)
               in (w, LocalStamp w)
             else
               let w = (if n \<noteq> UtcStampTicks w
                        then w\<lparr>UtcStampTicks := n, UtcStamp := stamp_text (UtcNow env)\<rparr> else w)
               in (w, UtcStamp w))
      in (w, if tf = 2 then tz_patch s (CreateTZD (UtcOffset env)) else s))"

section \<open>Thread and process\<close>

definition THREAD_PROCESS_SIZE :: nat where
  "THREAD_PROCESS_SIZE = 32 + 32 + 1"

text \<open>The name and transition to print: those of the channel, else of the channel it links to.\<close>

definition find_thread_name ::
  "u64 \<Rightarrow> bool \<Rightarrow> line_channel \<Rightarrow> line_channel \<times> thread_name_result" where
  "find_thread_name thread transitions ch =
     (let (names, r) = GetThreadName thread True True (OwnNames ch);
          ch = ch\<lparr>OwnNames := names\<rparr>
      in if transitions \<and> RName r = None \<and> RTransition r = None
         then
           (case LinkNames ch of
              None \<Rightarrow> (ch, r)
            | Some link \<Rightarrow> let (names, r) = GetThreadName thread True True link in (ch\<lparr>LinkNames := Some names\<rparr>, r))
         else (ch, r))"

text \<open>The text behind the colon, written into \<open>remaining\<close> bytes, and whether a name or number follows an arrow.\<close>

definition thread_text :: "u64 \<Rightarrow> bool \<Rightarrow> thread_name_result \<Rightarrow> nat \<Rightarrow> string \<times> bool" where
  "thread_text thread transitions r remaining =
     (let (before_arrow, remaining, arrow) =
            (case (if transitions then RTransition r else None) of
               None \<Rightarrow> ('''', remaining, False)
             | Some t \<Rightarrow>
                 let (t, remaining) = (if length t \<ge> remaining then (take remaining t, 0) else (t, remaining - length t))
                 in if remaining \<ge> 4 then (t @ '' -> '', remaining - 4, True) else (t, remaining, False));
          nm =
            (case RName r of
               Some name \<Rightarrow> if length name > remaining then take remaining name else name
             | None \<Rightarrow> if remaining > 0 then take (remaining - 1) (show_hex (unat thread)) else '''')
      in (before_arrow @ nm, arrow \<and> nm \<noteq> ''''))"

definition InitThreadProcessID ::
  "apply_env \<Rightarrow> u32 \<Rightarrow> line_world \<times> line_channel \<times> string \<Rightarrow> line_world \<times> line_channel \<times> string" where
  "InitThreadProcessID env flags st =
     (let (w, ch, current) = st in
      if (flag ProcessID flags \<noteq> 0 \<or> flag ThreadID flags \<noteq> 0) \<and> current = ''''
      then
        let remaining = THREAD_PROCESS_SIZE - 4;
            process = (if flag ProcessID flags \<noteq> 0 then show_hex (unat (OsProcess env)) else '''');
            remaining = remaining - length process
        in if flag ThreadID flags \<noteq> 0
           then
             let remaining = remaining - 1;
                 transitions = (flag ThreadTransition flags \<noteq> 0);
                 (ch, r) = find_thread_name (OsThread env) transitions ch;
                 (txt, printed) = thread_text (OsThread env) transitions r remaining;
                 w = (case (if printed then RForward r else None) of
                        Some f \<Rightarrow> w\<lparr>TransitionPrinted := (TransitionPrinted w)(f := True)\<rparr> | None \<Rightarrow> w)
             in (w, ch, ''['' @ process @ '':'' @ txt @ ''] '')
           else (w, ch, ''['' @ process @ ''] '')
      else if \<not> (flag ProcessID flags \<noteq> 0 \<or> flag ThreadID flags \<noteq> 0) then (w, ch, '''')
      else (w, ch, current))"

section \<open>Level, file and method\<close>

definition InitSignature :: "level \<Rightarrow> char" where
  "InitSignature l =
     (case l of LEVEL_DEBUG \<Rightarrow> CHR ''D'' | LEVEL_WARN \<Rightarrow> CHR ''W'' | LEVEL_ERROR \<Rightarrow> CHR ''E''
      | LEVEL_CRITICAL \<Rightarrow> CHR ''C'' | _ \<Rightarrow> CHR '' '')"

text \<open>What follows the last separator of a path.\<close>

definition GetShortModuleName :: "string \<Rightarrow> string" where
  "GetShortModuleName file = rev (takeWhile (\<lambda>c. c \<noteq> CHR ''/'' \<and> c \<noteq> CHR 0x5C) (rev file))"

definition shorten_method :: "line_channel \<Rightarrow> 'a line_ctx_scheme \<Rightarrow> 'a line_ctx_scheme" where
  "shorten_method ch c =
     (case CtxMethod c of
        None \<Rightarrow> c
      | Some m \<Rightarrow>
          let (sh, pl, m) = ShortenerRun (ShortenerList ch) (ShortenerMap ch) (MethodPlace c) m (MethodShortener c);
              (sh, pl, m) = (case Ovr c of None \<Rightarrow> (sh, pl, m) | Some ovr \<Rightarrow> ShortenerRunOverride pl m sh ovr)
          in c\<lparr>CtxMethod := Some m, MethodPlace := pl, MethodShortener := sh\<rparr>)"

section \<open>Memory\<close>

definition OUTPUT_BUFFER_SIZE :: nat where
  "OUTPUT_BUFFER_SIZE = 2 * 1024"

datatype data_place = NoData | InTemp | InBuffer | InExt

text \<open>The three areas a line can be in: the text itself, the buffer of the context and its heap buffer.\<close>

record line_mem =
  TempBuffer :: string
  TempBufferSize :: nat
  OutBuffer :: string
  ExtBuffer :: "string option"
  LastData :: data_place
  LastLen :: nat

definition poke :: "nat \<Rightarrow> string \<Rightarrow> string \<Rightarrow> string option" where
  "poke p s buf = (if p + length s \<le> length buf then Some (take p buf @ s @ drop (p + length s) buf) else None)"

definition strcpy :: "nat \<Rightarrow> string \<Rightarrow> string \<Rightarrow> string option" where
  "strcpy p s buf = poke p (s @ [NUL]) buf"

text \<open>\<open>strcpy_s\<close> of \<open>StringHelpers.h\<close>, which cuts the text; \<open>sprintf_s\<close> leaves the same bytes.\<close>

definition strcpy_s :: "nat \<Rightarrow> nat \<Rightarrow> string \<Rightarrow> string \<Rightarrow> string option" where
  "strcpy_s p n s buf = (if n = 0 then Some buf else if length s \<ge> n then strcpy p (take (n - 1) s) buf else strcpy p s buf)"

definition mem_at :: "data_place \<Rightarrow> line_mem \<Rightarrow> string" where
  "mem_at d m = (case d of NoData \<Rightarrow> '''' | InTemp \<Rightarrow> TempBuffer m | InBuffer \<Rightarrow> OutBuffer m
     | InExt \<Rightarrow> (case ExtBuffer m of None \<Rightarrow> '''' | Some b \<Rightarrow> b))"

definition ext_size :: "line_mem \<Rightarrow> nat" where
  "ext_size m = (case ExtBuffer m of None \<Rightarrow> 0 | Some b \<Rightarrow> length b)"

text \<open>The buffer for \<open>n\<close> bytes.\<close>

definition take_buffer :: "nat \<Rightarrow> line_mem \<Rightarrow> line_mem \<times> data_place" where
  "take_buffer n m =
     (if n > OUTPUT_BUFFER_SIZE
      then (if ext_size m < n then m\<lparr>ExtBuffer := Some (replicate n NUL)\<rparr> else m, InExt)
      else (m, InBuffer))"

definition set_mem :: "data_place \<Rightarrow> string \<Rightarrow> line_mem \<Rightarrow> line_mem" where
  "set_mem d b m = (case d of NoData \<Rightarrow> m | InTemp \<Rightarrow> m\<lparr>TempBuffer := b\<rparr> | InBuffer \<Rightarrow> m\<lparr>OutBuffer := b\<rparr>
     | InExt \<Rightarrow> m\<lparr>ExtBuffer := Some b\<rparr>)"

section \<open>The parts of a line and their sizes\<close>

record line_parts =
  PStamp :: string
  PSignature :: "char option"
  PThread :: string
  PChannel :: "string option"
  PSubsystem :: string
  PFile :: "(string \<times> string) option"
  PError :: string
  PMethod :: "string option"
  PRepeat :: string
  PAppend :: string
  PEol :: bool

text \<open>The flags of a call: the channel's, the override's, and the two control bits of the context.\<close>

definition call_flags :: "u32 \<Rightarrow> 'a line_ctx_scheme \<Rightarrow> u32" where
  "call_flags flags c =
     (let flags = (case Ovr c of None \<Rightarrow> flags | Some ovr \<Rightarrow> apply_override (Add ovr) (Remove ovr) flags)
      in set_flag ProcPrintIn (flag ProcPrintIn (AppliedValue c)) (set_flag ProcPrint (flag ProcPrint (AppliedValue c)) flags))"

text \<open>The first half of \<open>Apply\<close>: what is still missing of the texts is made, and the parts are chosen.\<close>

definition text_parts ::
  "apply_env \<Rightarrow> u32 \<Rightarrow> line_world \<times> line_channel \<times> 'a line_ctx_scheme \<Rightarrow>
   (line_world \<times> line_channel \<times> 'a line_ctx_scheme) \<times> line_parts" where
  "text_parts env flags st =
     (let (w, ch, c) = st;
          (w, c) = (if flag Timestamp flags \<noteq> 0 \<and> CtxTimestamp c = ''''
                    then let (w, s) = InitTimestamp (flag Timestamp flags) env w in (w, c\<lparr>CtxTimestamp := s\<rparr>)
                    else (w, c));
          c = (if flag Signature flags \<noteq> 0 \<and> CtxSignature c = None
               then c\<lparr>CtxSignature := Some (InitSignature (ErrorLevel c))\<rparr> else c);
          ids = (flag ProcessID flags \<noteq> 0 \<or> flag ThreadID flags \<noteq> 0);
          (w, ch, tp) = (if ids \<and> ThreadProcessID c = '''' then InitThreadProcessID env flags (w, ch, ThreadProcessID c)
                         else (w, ch, ThreadProcessID c));
          c = c\<lparr>ThreadProcessID := tp\<rparr>;
          method = (flag Method flags \<noteq> 0 \<and> CtxMethod c \<noteq> None \<and> flag ProcPrint flags = 0);
          c = (if method then shorten_method ch c else c)
      in ((w, ch, c),
          \<lparr>PStamp = (if flag Timestamp flags \<noteq> 0 then CtxTimestamp c else ''''),
           PSignature = (if flag Signature flags \<noteq> 0 then CtxSignature c else None),
           PThread = (if ids then ThreadProcessID c else ''''),
           PChannel = (if flag ChannelName flags \<noteq> 0 then Some (case CtxChannel c of None \<Rightarrow> '''' | Some n \<Rightarrow> n) else None),
           PSubsystem = (if flag SubsystemName flags \<noteq> 0 \<and> CtxSubsystem c \<noteq> 0
                         then ''#'' @ SidToString (CtxSubsystem c) @ '' '' else ''''),
           PFile = (if flag Location flags \<noteq> 0
                    then Some (if flag Location flags = 1 then GetShortModuleName (FullName c) else FullName c,
                               ''('' @ show_int (CtxLine c) @ ''): '') else None),
           PError = (if flag ErrorPrefix flags \<noteq> 0 \<and> LEVEL_ERROR \<le> ErrorLevel c
                     then (if ErrorLevel c = LEVEL_ERROR then ''Error: '' else ''Critical: '') else ''''),
           PMethod = (if method then CtxMethod c else None),
           PRepeat = (if CollapseRepeatCount c \<noteq> 0 then ''repeated '' @ show_nat (unat (CollapseRepeatCount c)) @ '' times: '' else ''''),
           PAppend = (if flag Duration flags \<noteq> 0 \<and> flag ProcPrintIn flags = 0 \<and> HasAppendProc c
                      then (case AppendResult env of None \<Rightarrow> '''' | Some t \<Rightarrow> t) else ''''),
           PEol = (flag Eol flags \<noteq> 0)\<rparr>))"

definition nSignature :: "line_parts \<Rightarrow> nat" where
  "nSignature p = (if PSignature p = None then 0 else 2)"

definition nChannel :: "line_parts \<Rightarrow> nat" where
  "nChannel p = (case PChannel p of None \<Rightarrow> 0 | Some c \<Rightarrow> length c + 3)"

definition nFile :: "line_parts \<Rightarrow> nat" where
  "nFile p = (case PFile p of None \<Rightarrow> 0 | Some (f, l) \<Rightarrow> length f + length l)"

definition nMethod :: "line_parts \<Rightarrow> nat" where
  "nMethod p = (case PMethod p of None \<Rightarrow> 0 | Some m \<Rightarrow> length m + 4)"

definition nEol :: "line_parts \<Rightarrow> nat" where
  "nEol p = (if PEol p then 1 else 0)"

text \<open>All that stands before the text.\<close>

definition nHead :: "line_parts \<Rightarrow> nat" where
  "nHead p = length (PStamp p) + nSignature p + length (PThread p) + nChannel p + length (PSubsystem p) + nFile p +
     length (PError p) + nMethod p + length (PRepeat p)"

section \<open>Writing the line\<close>

text \<open>One part: nothing when its size is 0, else the write, and the position moves by the size.\<close>

definition write_part ::
  "nat \<Rightarrow> (nat \<Rightarrow> string \<Rightarrow> string option) \<Rightarrow> nat \<times> string \<Rightarrow> (nat \<times> string) option" where
  "write_part n wr st = (let (p, b) = st in if n = 0 then Some (p, b) else map_option (\<lambda>b. (p + n, b)) (wr p b))"

fun write_parts :: "(nat \<times> (nat \<Rightarrow> string \<Rightarrow> string option)) list \<Rightarrow> nat \<times> string \<Rightarrow> (nat \<times> string) option" where
  "write_parts [] st = Some st"
| "write_parts ((n, wr) # parts) st = Option.bind (write_part n wr st) (write_parts parts)"

text \<open>The second half of \<open>Apply\<close>, on a buffer for \<open>n\<close> bytes: the parts before the text, then the rest.\<close>

definition head_parts :: "line_parts \<Rightarrow> nat \<Rightarrow> (nat \<times> (nat \<Rightarrow> string \<Rightarrow> string option)) list" where
  "head_parts q n =
     [(length (PStamp q), \<lambda>p. strcpy_s p (n - p) (PStamp q)),
      (nSignature q, \<lambda>p. strcpy p [case PSignature q of None \<Rightarrow> NUL | Some c \<Rightarrow> c, CHR '' '']),
      (length (PThread q), \<lambda>p. strcpy_s p (n - p) (PThread q)),
      (nChannel q, \<lambda>p. strcpy_s p (n - p) (''{'' @ (case PChannel q of None \<Rightarrow> '''' | Some c \<Rightarrow> c) @ ''} '')),
      (length (PSubsystem q), \<lambda>p. strcpy p (PSubsystem q)),
      (nFile q, \<lambda>p. strcpy_s p (n - p) (case PFile q of None \<Rightarrow> '''' | Some (f, l) \<Rightarrow> f @ l)),
      (length (PError q), \<lambda>p. strcpy_s p (n - p) (PError q)),
      (nMethod q, \<lambda>p b. Option.bind (strcpy p (case PMethod q of None \<Rightarrow> '''' | Some m \<Rightarrow> m) b)
                           (strcpy (p + nMethod q - 4) ''(): '')),
      (length (PRepeat q), \<lambda>p. strcpy_s p (n - p) (PRepeat q))]"

definition write_line :: "line_parts \<Rightarrow> string \<Rightarrow> nat \<Rightarrow> nat \<Rightarrow> string \<Rightarrow> string option" where
  "write_line q txt nLine n b =
     Option.bind (write_parts (head_parts q n) (0, b)) (\<lambda>(p, b).
     Option.bind (strcpy_s p (n - p) txt b) (\<lambda>b.
     map_option snd
       (write_parts
          [(length (PAppend q), \<lambda>p. strcpy_s p (n - p) (PAppend q)), (nEol q, \<lambda>p. strcpy p [CHR 0x0A])]
          (p + nLine, b))))"

text \<open>The text goes out where it is, with the end of the line written behind it.\<close>

definition write_in_place :: "line_parts \<Rightarrow> line_mem \<Rightarrow> string option" where
  "write_in_place q m =
     Option.bind (write_part (length (PAppend q)) (\<lambda>p. strcpy_s p (length (TempBuffer m) - p) (PAppend q)) (TempBufferSize m, TempBuffer m)) (\<lambda>st.
     Option.bind (write_part (nEol q) (\<lambda>p. poke p [CHR 0x0A]) st) (\<lambda>(p, b). poke p [NUL] b))"

text \<open>The sizes are ints: a line of 2 GiB is undefined.\<close>

definition place_text :: "line_parts \<Rightarrow> line_mem \<Rightarrow> line_mem option" where
  "place_text q m =
     (let m = m\<lparr>OutBuffer := (OutBuffer m)[0 := NUL]\<rparr>;
          nLine = TempBufferSize m;
          required = nLine + length (PAppend q) + nEol q + 1
      in if 2 ^ 31 \<le> nHead q + required then None
         else if nHead q = 0 \<and> required \<le> length (TempBuffer m)
         then map_option (\<lambda>b. m\<lparr>TempBuffer := b, LastData := InTemp, LastLen := nLine + length (PAppend q) + nEol q\<rparr>)
                (write_in_place q m)
         else
           let n = nHead q + required;
               (m, d) = take_buffer n m
           in map_option (\<lambda>b. (set_mem d b m)\<lparr>LastData := d, LastLen := n - 1\<rparr>)
                (write_line q (c_str (TempBuffer m)) nLine n (mem_at d m)))"

text \<open>The bytes of the first line a context delivers count for the channel it went to.\<close>

definition count_bytes :: "nat \<Rightarrow> line_channel \<times> 'a line_ctx_scheme \<Rightarrow> line_channel \<times> 'a line_ctx_scheme" where
  "count_bytes nc st =
     (let (ch, c) = st
      in if \<not> LoggedBytesCounted c then (ch\<lparr>ChannelBytes := ChannelBytes ch + of_nat nc\<rparr>, c\<lparr>LoggedBytesCounted := True\<rparr>)
         else (ch, c))"

definition ApplyText ::
  "apply_env \<Rightarrow> u32 \<Rightarrow> (line_world \<times> line_channel \<times> 'a line_ctx_scheme) \<times> line_mem \<Rightarrow>
   ((line_world \<times> line_channel \<times> 'a line_ctx_scheme) \<times> line_mem) option" where
  "ApplyText env flags st =
     (let ((w, ch, c), m) = st in
      if AppliedValue c = flags then Some st
      else
        let ((w, ch, c), q) = text_parts env flags (w, ch, c)
        in map_option (\<lambda>m. ((w, ch, c\<lparr>AppliedValue := flags\<rparr>), m)) (place_text q m))"

section \<open>The line as it is meant, and that it is written\<close>

definition head_of :: "line_parts \<Rightarrow> string" where
  "head_of q = PStamp q @ (case PSignature q of None \<Rightarrow> '''' | Some c \<Rightarrow> [c, CHR '' '']) @ PThread q @
     (case PChannel q of None \<Rightarrow> '''' | Some c \<Rightarrow> ''{'' @ c @ ''} '') @ PSubsystem q @
     (case PFile q of None \<Rightarrow> '''' | Some (f, l) \<Rightarrow> f @ l) @ PError q @
     (case PMethod q of None \<Rightarrow> '''' | Some m \<Rightarrow> m @ ''(): '') @ PRepeat q"

definition line_of :: "line_parts \<Rightarrow> string \<Rightarrow> string" where
  "line_of q txt = head_of q @ txt @ PAppend q @ (if PEol q then [CHR 0x0A] else [])"

lemma length_head [simp]: "length (head_of q) = nHead q"
  by (auto simp: head_of_def nHead_def nSignature_def nChannel_def nFile_def nMethod_def split: option.split)

lemma length_line: "length (line_of q txt) = nHead q + length txt + length (PAppend q) + nEol q"
  by (simp add: line_of_def nEol_def)

definition holds :: "string \<Rightarrow> string \<Rightarrow> bool" where
  "holds h b \<longleftrightarrow> length h \<le> length b \<and> take (length h) b = h"

text \<open>A writer that puts \<open>s\<close> behind what the buffer holds, with a terminator, below \<open>n\<close>.\<close>

definition puts :: "(nat \<Rightarrow> string \<Rightarrow> string option) \<Rightarrow> string \<Rightarrow> nat \<Rightarrow> bool" where
  "puts wr s n \<longleftrightarrow> (\<forall>h b. holds h b \<and> length h + length s < n \<and> n \<le> length b \<longrightarrow>
     (\<exists>b'. wr (length h) b = Some b' \<and> length b' = length b \<and> holds (h @ s) b' \<and> b' ! (length h + length s) = NUL))"

lemma poke_holds:
  assumes "holds h b" and "length h + length s \<le> length b"
  shows "\<exists>b'. poke (length h) s b = Some b' \<and> length b' = length b \<and> holds (h @ s) b'"
proof -
  have h: "take (length h) b = h" using assms(1) by (simp add: holds_def)
  have "poke (length h) s b = Some (h @ s @ drop (length h + length s) b)" using assms(2) by (simp add: poke_def h)
  moreover have "holds (h @ s) (h @ s @ drop (length h + length s) b)" by (simp add: holds_def)
  ultimately show ?thesis using assms(2) by (intro exI [of _ "h @ s @ drop (length h + length s) b"]) simp
qed

lemma holds_prefix: "holds (h @ s) b \<Longrightarrow> holds h b"
proof -
  assume a: "holds (h @ s) b"
  have "take (length h) b = take (length h) (take (length (h @ s)) b)" by (simp add: min_def)
  with a show ?thesis by (simp add: holds_def)
qed

lemma holds_last: "holds (h @ [c]) b \<Longrightarrow> b ! length h = c"
proof -
  assume a: "holds (h @ [c]) b"
  have "b ! length h = take (length (h @ [c])) b ! length h" by simp
  with a show ?thesis by (simp add: holds_def del: nth_take)
qed

lemma strcpy_puts: "puts (\<lambda>p. strcpy p s) s n"
  unfolding puts_def
proof (intro allI impI)
  fix h b assume a: "holds h b \<and> length h + length s < n \<and> n \<le> length b"
  then have "length h + length (s @ [NUL]) \<le> length b" by simp
  from poke_holds [OF _ this] a obtain b' where
    b: "poke (length h) (s @ [NUL]) b = Some b'" "length b' = length b" "holds (h @ s @ [NUL]) b'" by auto
  have "holds ((h @ s) @ [NUL]) b'" using b(3) by simp
  from holds_prefix [OF this] holds_last [OF this] b(1,2)
  show "\<exists>b'. strcpy (length h) s b = Some b' \<and> length b' = length b \<and> holds (h @ s) b' \<and> b' ! (length h + length s) = NUL"
    by (auto simp: strcpy_def)
qed

text \<open>The cutting copy puts the first bytes of a longer text.\<close>

lemma strcpy_s_takes:
  assumes "holds h b" and "k \<le> length s" and "length h + k < n" and "n \<le> length b"
  shows "\<exists>b'. strcpy_s (length h) (n - length h) s b = Some b' \<and> length b' = length b \<and> holds (h @ take k s) b' \<and>
    (k = length s \<or> n = length h + k + 1 \<longrightarrow> b' ! (length h + k) = NUL)"
proof -
  let ?s = "take (n - length h - 1) s"
  have l: "length h + length ?s < n" using assms(3) by auto
  from strcpy_puts [of ?s n] l assms(1,4) obtain b' where
    b: "strcpy (length h) ?s b = Some b'" "length b' = length b" "holds (h @ ?s) b'" "b' ! (length h + length ?s) = NUL"
    unfolding puts_def by blast
  have "strcpy_s (length h) (n - length h) s b = strcpy (length h) ?s b"
    using assms(3) by (auto simp: strcpy_s_def)
  moreover have "k \<le> n - length h - 1" using assms(3) by simp
  then have "take k ?s = take k s" by (simp add: min_def)
  then have "?s = take k s @ drop k ?s" using append_take_drop_id [of k ?s] by simp
  then have "holds (h @ take k s) b'" using b(3) holds_prefix [of "h @ take k s" "drop k ?s" b'] by simp
  moreover have "k = length s \<or> n = length h + k + 1 \<longrightarrow> length ?s = k" using assms(2,3) by auto
  ultimately show ?thesis using b by (intro exI [of _ b']) auto
qed

lemma strcpy_s_puts: "puts (\<lambda>p. strcpy_s p (n - p) s) s n"
  unfolding puts_def
proof (intro allI impI)
  fix h b assume "holds h b \<and> length h + length s < n \<and> n \<le> length b"
  then show "\<exists>b'. strcpy_s (length h) (n - length h) s b = Some b' \<and> length b' = length b \<and> holds (h @ s) b' \<and>
      b' ! (length h + length s) = NUL"
    using strcpy_s_takes [of h b "length s" s n] by auto
qed

lemma method_puts:
  "puts (\<lambda>p b. Option.bind (strcpy p m b) (strcpy (p + (length m + 4) - 4) ''(): '')) (m @ ''(): '') n"
  unfolding puts_def
proof (intro allI impI)
  fix h b assume a: "holds h b \<and> length h + length (m @ ''(): '') < n \<and> n \<le> length b"
  from strcpy_puts [of m n] a obtain b1 where
    b1: "strcpy (length h) m b = Some b1" "length b1 = length b" "holds (h @ m) b1" unfolding puts_def by fastforce
  from strcpy_puts [of "''(): ''" n] a b1 obtain b2 where
    b2: "strcpy (length (h @ m)) ''(): '' b1 = Some b2" "length b2 = length b1" "holds ((h @ m) @ ''(): '') b2"
      "b2 ! (length (h @ m) + length ''(): '') = NUL" unfolding puts_def by fastforce
  have e: "length h + (length m + 4) - 4 = length (h @ m)" by simp
  show "\<exists>b'. Option.bind (strcpy (length h) m b) (strcpy (length h + (length m + 4) - 4) ''(): '') = Some b' \<and>
      length b' = length b \<and> holds (h @ m @ ''(): '') b' \<and> b' ! (length h + length (m @ ''(): '')) = NUL"
    unfolding e b1(1) bind.bind_lunit
    by (intro exI [of _ b2] conjI) (use b1(2) b2 in \<open>auto simp: add.assoc\<close>)
qed

lemma write_part_puts:
  assumes "s \<noteq> [] \<Longrightarrow> puts wr s n" and "k = length s" and "holds h b" and "length h + length s < n" and "n \<le> length b"
  obtains b' where "write_part k wr (length h, b) = Some (length (h @ s), b')" "length b' = length b" "holds (h @ s) b'"
    "s \<noteq> [] \<longrightarrow> b' ! length (h @ s) = NUL" "s = [] \<longrightarrow> b' = b"
proof (cases "s = []")
  case True
  then show ?thesis using assms(2,3) by (intro that [of b]) (simp_all add: write_part_def)
next
  case False
  from assms(1) [OF False] assms(3-5) obtain b' where
    "wr (length h) b = Some b'" "length b' = length b" "holds (h @ s) b'" "b' ! (length h + length s) = NUL"
    unfolding puts_def by blast
  with False assms(2) show ?thesis by (intro that [of b']) (simp_all add: write_part_def)
qed

text \<open>A sequence of parts; the last one that is not empty leaves its terminator.\<close>

lemma write_parts_put:
  assumes "list_all2 (\<lambda>(k, wr) s. k = length s \<and> (s \<noteq> [] \<longrightarrow> puts wr s n)) parts ss"
    and "holds h b" and "length h + length (concat ss) < n" and "n \<le> length b"
  shows "\<exists>b'. write_parts parts (length h, b) = Some (length (h @ concat ss), b') \<and> length b' = length b \<and> holds (h @ concat ss) b' \<and>
    (concat ss \<noteq> [] \<longrightarrow> b' ! length (h @ concat ss) = NUL) \<and> (concat ss = [] \<longrightarrow> b' = b)"
  using assms
proof (induction parts ss arbitrary: h b rule: list_all2_induct)
  case (Cons part parts s ss)
  obtain k wr where part: "part = (k, wr)" by (cases part)
  have k: "k = length s" "s \<noteq> [] \<Longrightarrow> puts wr s n" using Cons.hyps(1) by (auto simp: part)
  have "length h + length s < n" using Cons.prems(2) by simp
  from write_part_puts [OF k(2) k(1) Cons.prems(1) this Cons.prems(3)] obtain b1 where
    b1: "write_part k wr (length h, b) = Some (length (h @ s), b1)" "length b1 = length b" "holds (h @ s) b1"
      "s \<noteq> [] \<longrightarrow> b1 ! length (h @ s) = NUL" "s = [] \<longrightarrow> b1 = b" by blast
  have "length (h @ s) + length (concat ss) < n" "n \<le> length b1" using Cons.prems(2,3) b1(2) by simp_all
  from Cons.IH [OF b1(3) this] obtain b2 where
    b2: "write_parts parts (length (h @ s), b1) = Some (length ((h @ s) @ concat ss), b2)" "length b2 = length b1"
      "holds ((h @ s) @ concat ss) b2" "concat ss \<noteq> [] \<longrightarrow> b2 ! length ((h @ s) @ concat ss) = NUL" "concat ss = [] \<longrightarrow> b2 = b1" by blast
  show ?case
    using b1 b2 by (cases "concat ss = []") (auto simp: part simp del: concat_eq_Nil_conv intro!: exI [of _ b2])
qed simp

lemma head_parts_put:
  assumes "holds [] b" and "nHead q < n" and "n \<le> length b"
  shows "\<exists>b'. write_parts (head_parts q n) (0, b) = Some (nHead q, b') \<and> length b' = length b \<and> holds (head_of q) b'"
proof -
  let ?opt = "\<lambda>s x. case x of None \<Rightarrow> '''' | Some c \<Rightarrow> s c"
  let ?ss = "[PStamp q, (case PSignature q of None \<Rightarrow> '''' | Some c \<Rightarrow> [c, CHR '' '']), PThread q,
     (case PChannel q of None \<Rightarrow> '''' | Some c \<Rightarrow> ''{'' @ c @ ''} ''), PSubsystem q,
     (case PFile q of None \<Rightarrow> '''' | Some (f, l) \<Rightarrow> f @ l), PError q, (case PMethod q of None \<Rightarrow> '''' | Some m \<Rightarrow> m @ ''(): ''),
     PRepeat q]"
  have ss: "concat ?ss = head_of q" by (simp add: head_of_def)
  have ps: "list_all2 (\<lambda>(k, wr) s. k = length s \<and> (s \<noteq> [] \<longrightarrow> puts wr s n)) (head_parts q n) ?ss"
    by (auto simp: head_parts_def nSignature_def nChannel_def nFile_def nMethod_def strcpy_puts strcpy_s_puts
        method_puts [simplified] split: option.split)
  from write_parts_put [OF ps assms(1) _ assms(3)] assms(2) show ?thesis unfolding ss by auto
qed

text \<open>The text may run on in memory behind its length: what does not belong to it is cut or overwritten.\<close>

lemma write_line_exact:
  assumes n: "n = length (line_of q txt) + 1" "n \<le> length b"
  shows "\<exists>r. write_line q (txt @ more_text) (length txt) n b = Some r \<and> length r = length b \<and> holds (line_of q txt) r \<and>
    r ! length (line_of q txt) = NUL"
proof -
  have len: "nHead q + length txt + length (PAppend q) + nEol q + 1 = n" using n(1) by (simp add: length_line)
  have "holds [] b" by (simp add: holds_def)
  from head_parts_put [OF this _ n(2), of q] len obtain b1 where
    b1: "write_parts (head_parts q n) (0, b) = Some (nHead q, b1)" "length b1 = length b" "holds (head_of q) b1" by auto
  let ?rest = "[PAppend q, (if PEol q then [CHR 0x0A] else [])]"
  have l: "length (head_of q) + length txt < n" "n \<le> length b1" using len n(2) b1(2) by auto
  from strcpy_s_takes [OF b1(3) _ l, of "txt @ more_text"] obtain b2 where
    b2: "strcpy_s (nHead q) (n - nHead q) (txt @ more_text) b1 = Some b2" "length b2 = length b1" "holds (head_of q @ txt) b2"
      "n = nHead q + length txt + 1 \<longrightarrow> b2 ! (nHead q + length txt) = NUL" by auto
  have ps: "list_all2 (\<lambda>(k, wr) s. k = length s \<and> (s \<noteq> [] \<longrightarrow> puts wr s n))
     [(length (PAppend q), \<lambda>p. strcpy_s p (n - p) (PAppend q)), (nEol q, \<lambda>p. strcpy p [CHR 0x0A])] ?rest"
    by (auto simp: nEol_def strcpy_puts strcpy_s_puts)
  have "length (head_of q @ txt) + length (concat ?rest) < n" "n \<le> length b2" using len l b2(2) by (auto simp: nEol_def)
  from write_parts_put [OF ps b2(3) this] obtain b3 where
    b3: "write_parts [(length (PAppend q), \<lambda>p. strcpy_s p (n - p) (PAppend q)), (nEol q, \<lambda>p. strcpy p [CHR 0x0A])]
           (length (head_of q @ txt), b2) = Some (length ((head_of q @ txt) @ concat ?rest), b3)"
      "length b3 = length b2" "holds ((head_of q @ txt) @ concat ?rest) b3"
      "concat ?rest \<noteq> [] \<longrightarrow> b3 ! length ((head_of q @ txt) @ concat ?rest) = NUL" "concat ?rest = [] \<longrightarrow> b3 = b2" by blast
  have e: "(head_of q @ txt) @ concat ?rest = line_of q txt" by (simp add: line_of_def)
  have "write_line q (txt @ more_text) (length txt) n b = Some b3"
    using b1(1) b2(1) b3(1) by (simp add: write_line_def)
  moreover have "b3 ! length (line_of q txt) = NUL"
  proof (cases "concat ?rest = []")
    case True
    then show ?thesis using b3(5) b2(4) len by (auto simp: line_of_def nEol_def split: if_splits)
  next
    case False
    then show ?thesis using b3(4) unfolding e by blast
  qed
  ultimately show ?thesis using b1(2) b2(2) b3(2,3) unfolding e by auto
qed

section \<open>What a call delivers\<close>

text \<open>The text lies in its memory, with a terminator behind it.\<close>

definition mem_ok :: "string \<Rightarrow> line_mem \<Rightarrow> bool" where
  "mem_ok txt m \<longleftrightarrow> TempBufferSize m = length txt \<and> holds txt (TempBuffer m) \<and> NUL \<notin> set txt \<and>
     NUL \<in> set (drop (length txt) (TempBuffer m)) \<and> length (OutBuffer m) = OUTPUT_BUFFER_SIZE"

definition delivered :: "line_mem \<Rightarrow> string \<Rightarrow> bool" where
  "delivered m l \<longleftrightarrow> LastLen m = length l \<and> holds l (mem_at (LastData m) m) \<and>
     (LastData m \<noteq> NoData \<longrightarrow> length l < length (mem_at (LastData m) m) \<and> mem_at (LastData m) m ! length l = NUL)"

lemma c_str_append: "NUL \<notin> set s \<Longrightarrow> c_str (s @ t) = s @ c_str t"
  unfolding c_str_def by (rule takeWhile_append2) auto

lemma mem_ok_c_str:
  assumes "mem_ok txt m"
  shows "\<exists>more_text. c_str (TempBuffer m) = txt @ more_text"
proof -
  have "TempBuffer m = txt @ drop (length txt) (TempBuffer m)"
    using assms append_take_drop_id [of "length txt" "TempBuffer m"] by (simp add: mem_ok_def holds_def)
  then have "c_str (TempBuffer m) = c_str (txt @ drop (length txt) (TempBuffer m))" by simp
  also have "\<dots> = txt @ c_str (drop (length txt) (TempBuffer m))" using assms by (simp add: c_str_append mem_ok_def)
  finally show ?thesis by blast
qed

lemma nul_behind: "k \<le> j \<Longrightarrow> j < length b \<Longrightarrow> b ! j = NUL \<Longrightarrow> NUL \<in> set (drop k b)"
  by (auto simp: in_set_conv_nth intro!: exI [of _ "j - k"])

lemma write_in_place_exact:
  assumes "mem_ok txt m" and "nHead q = 0" and "length (line_of q txt) < length (TempBuffer m)"
  shows "\<exists>b. write_in_place q m = Some b \<and> length b = length (TempBuffer m) \<and> holds (line_of q txt) b \<and>
    b ! length (line_of q txt) = NUL"
proof -
  let ?n = "length (TempBuffer m)" and ?h = "txt @ PAppend q"
  have h: "head_of q = []" using assms(2) length_head [of q] by (metis length_0_conv)
  then have line: "line_of q txt = ?h @ (if PEol q then [CHR 0x0A] else [])" by (simp add: line_of_def)
  have m: "holds txt (TempBuffer m)" "TempBufferSize m = length txt" using assms(1) by (simp_all add: mem_ok_def)
  have "length txt + length (PAppend q) < ?n" using assms(3) by (simp add: line split: if_splits)
  from write_part_puts [OF strcpy_s_puts refl m(1) this] obtain b1 where
    b1: "write_part (length (PAppend q)) (\<lambda>p. strcpy_s p (?n - p) (PAppend q)) (length txt, TempBuffer m) = Some (length ?h, b1)"
      "length b1 = ?n" "holds ?h b1" by auto
  have "length ?h + length (if PEol q then [CHR 0x0A] else []) \<le> length b1" using assms(3) b1(2) by (simp add: line)
  from poke_holds [OF b1(3) this] obtain b2 where
    b2: "poke (length ?h) (if PEol q then [CHR 0x0A] else []) b1 = Some b2" "length b2 = ?n" "holds (line_of q txt) b2"
    using b1(2) unfolding line by auto
  have e: "write_part (nEol q) (\<lambda>p. poke p [CHR 0x0A]) (length ?h, b1) = Some (length (line_of q txt), b2)"
    using b2(1) by (auto simp: write_part_def nEol_def line poke_def split: if_splits)
  have "length (line_of q txt) + length [NUL] \<le> length b2" using assms(3) b2(2) by simp
  from poke_holds [OF b2(3) this] obtain b3 where
    b3: "poke (length (line_of q txt)) [NUL] b2 = Some b3" "length b3 = ?n" "holds (line_of q txt @ [NUL]) b3"
    using b2(2) by auto
  have "write_in_place q m = Some b3"
    using b1(1) e b3(1) by (simp add: write_in_place_def m(2))
  then show ?thesis using b3 holds_prefix [OF b3(3)] holds_last [OF b3(3)] by auto
qed

lemma take_buffer_fits:
  assumes "length (OutBuffer m) = OUTPUT_BUFFER_SIZE" and "take_buffer n m = (m', d)"
  shows "n \<le> length (mem_at d m') \<and> d \<noteq> NoData \<and> d \<noteq> InTemp \<and> TempBuffer m' = TempBuffer m \<and>
    TempBufferSize m' = TempBufferSize m \<and> OutBuffer m' = OutBuffer m"
  using assms
  by (cases "ExtBuffer m") (auto simp: take_buffer_def mem_at_def ext_size_def split: if_splits)

lemma set_mem_simps:
  "d \<noteq> NoData \<Longrightarrow> mem_at d (set_mem d b m) = b"
  "d \<noteq> InTemp \<Longrightarrow> TempBuffer (set_mem d b m) = TempBuffer m"
  "TempBufferSize (set_mem d b m) = TempBufferSize m"
  "length b = length (mem_at d m) \<Longrightarrow> length (OutBuffer (set_mem d b m)) = length (OutBuffer m)"
  by (cases d; simp add: set_mem_def mem_at_def)+

lemma mem_at_last [simp]: "mem_at d (m\<lparr>LastData := e, LastLen := k\<rparr>) = mem_at d m"
  by (simp add: mem_at_def split: data_place.split)

lemma place_text_exact:
  assumes ok: "mem_ok txt m" and len: "length (line_of q txt) + 1 < 2 ^ 31"
  shows "\<exists>m'. place_text q m = Some m' \<and> mem_ok txt m' \<and> delivered m' (line_of q txt)"
proof -
  define m1 where "m1 = m\<lparr>OutBuffer := (OutBuffer m)[0 := NUL]\<rparr>"
  let ?l = "line_of q txt" and ?req = "TempBufferSize m1 + length (PAppend q) + nEol q + 1"
  have ok1: "mem_ok txt m1" using ok by (simp add: mem_ok_def m1_def)
  have req: "nHead q + ?req = length ?l + 1" using ok1 by (simp add: length_line mem_ok_def)
  then have g: "\<not> 2 ^ 31 \<le> nHead q + ?req" using len by simp
  show ?thesis
  proof (cases "nHead q = 0 \<and> ?req \<le> length (TempBuffer m1)")
    case True
    then have "length ?l < length (TempBuffer m1)" using req by simp
    from write_in_place_exact [OF ok1 _ this] True obtain b where
      b: "write_in_place q m1 = Some b" "length b = length (TempBuffer m1)" "holds ?l b" "b ! length ?l = NUL" by auto
    let ?m = "m1\<lparr>TempBuffer := b, LastData := InTemp, LastLen := length ?l\<rparr>"
    have "place_text q m = Some ?m"
      using True g b(1) req unfolding place_text_def m1_def [symmetric] Let_def by simp
    moreover have "holds txt b"
      using b(3) True holds_prefix [of "txt"] length_head [of q] by (auto simp: line_of_def simp del: length_head)
    then have "mem_ok txt ?m"
      using ok1 nul_behind [of "length txt" "length ?l" b] b(2,4) \<open>length ?l < length (TempBuffer m1)\<close>
      by (simp add: mem_ok_def length_line)
    moreover have "delivered ?m ?l"
      using b \<open>length ?l < length (TempBuffer m1)\<close> by (simp add: delivered_def mem_at_def)
    ultimately show ?thesis by blast
  next
    case False
    obtain m2 d where t: "take_buffer (nHead q + ?req) m1 = (m2, d)" by fastforce
    from take_buffer_fits [OF _ t] ok1 have
      f: "length ?l + 1 \<le> length (mem_at d m2)" "d \<noteq> NoData" "d \<noteq> InTemp" "TempBuffer m2 = TempBuffer m1"
        "TempBufferSize m2 = TempBufferSize m1" "OutBuffer m2 = OutBuffer m1" unfolding req by (auto simp: mem_ok_def)
    from mem_ok_c_str [OF ok1] obtain more_text where c: "c_str (TempBuffer m1) = txt @ more_text" ..
    from write_line_exact [OF refl f(1), of more_text] obtain r where
      r: "write_line q (txt @ more_text) (length txt) (length ?l + 1) (mem_at d m2) = Some r" "length r = length (mem_at d m2)"
        "holds ?l r" "r ! length ?l = NUL" by blast
    let ?m = "(set_mem d r m2)\<lparr>LastData := d, LastLen := length ?l\<rparr>"
    have n: "TempBufferSize m1 = length txt" using ok1 by (simp add: mem_ok_def)
    have "place_text q m = Some ?m"
      using False g r(1) t f(4) c n unfolding place_text_def m1_def [symmetric] Let_def req by auto
    moreover have "mem_ok txt ?m"
      using ok1 f(3-6) set_mem_simps(2-4) [where d = d] r(2) by (simp add: mem_ok_def)
    moreover have "delivered ?m ?l"
      using r f(1,2) set_mem_simps(1) [where d = d and b = r and m = m2] by (simp add: delivered_def)
    ultimately show ?thesis by blast
  qed
qed

section \<open>Memory as a call starts with it\<close>

text \<open>\<open>InitContext\<close> on the members a line depends on: all is to be made, and no flags count as applied. The
  buffers of the object keep what they hold.\<close>

definition InitContext :: "'a line_ctx_scheme \<times> line_mem \<Rightarrow> 'a line_ctx_scheme \<times> line_mem" where
  "InitContext st =
     (let (c, m) = st in
      (c\<lparr>CtxTimestamp := '''', ThreadProcessID := '''', LoggedBytesCounted := False, CollapseRepeatCount := 0,
         AppliedValue := set_flag NoFlag 1 (AppliedValue c)\<rparr>,
       m\<lparr>OutBuffer := (OutBuffer m)[0 := NUL], LastData := NoData, LastLen := 0, TempBuffer := '''', TempBufferSize := 0\<rparr>))"

text \<open>\<open>Storage\<close> gets room for 16 more bytes, and \<open>room\<close> of the library's own choice.\<close>

definition SetText :: "nat \<Rightarrow> string option \<Rightarrow> line_mem \<Rightarrow> line_mem" where
  "SetText room t m =
     (let s = (case t of None \<Rightarrow> '''' | Some t \<Rightarrow> c_str t)
      in m\<lparr>TempBuffer := s @ replicate (16 + room) NUL, TempBufferSize := length s\<rparr>)"

definition SetBuffer :: "string \<Rightarrow> nat \<Rightarrow> line_mem \<Rightarrow> line_mem" where
  "SetBuffer buffer n m = m\<lparr>TempBuffer := buffer, TempBufferSize := n\<rparr>"

lemma SetText_ok:
  assumes "length (OutBuffer m) = OUTPUT_BUFFER_SIZE"
  shows "mem_ok (case t of None \<Rightarrow> '''' | Some t \<Rightarrow> c_str t) (SetText room t (snd (InitContext (c, m))))"
  using assms by (auto simp: mem_ok_def SetText_def InitContext_def Let_def holds_def split: option.split)

lemma SetBuffer_ok:
  assumes "length (OutBuffer m) = OUTPUT_BUFFER_SIZE" and "NUL \<notin> set (take n buffer)" and "n < length buffer" and "buffer ! n = NUL"
  shows "mem_ok (take n buffer) (SetBuffer buffer n (snd (InitContext (c, m))))"
  using assms nul_behind [of n n buffer] by (simp add: mem_ok_def SetBuffer_def InitContext_def holds_def)

section \<open>The thread and process text\<close>

lemma upper_hex_length: "n < 16 ^ k \<Longrightarrow> 0 < k \<Longrightarrow> length (show_hex n) \<le> k"
proof (induction n arbitrary: k rule: show_hex.induct)
  case (1 n)
  show ?case
  proof (cases "n < 16")
    case True
    then show ?thesis using "1.prems"(2) by (subst show_hex.simps) simp
  next
    case False
    with "1.prems" obtain j where k: "k = Suc j" "0 < j" by (cases k; cases "k - 1") auto
    have "n div 16 < 16 ^ j" using "1.prems"(1) k(1) by (simp add: div_less_iff_less_mult mult.commute)
    from "1.IH" [OF False this k(2)] False k(1) show ?thesis by (subst show_hex.simps) simp
  qed
qed

lemma show_hex_u64: "length (show_hex (unat (x :: u64))) \<le> 16"
  using unsigned_less [of x, where 'a = nat] by (intro upper_hex_length) simp_all

lemma thread_text_fits: "length (fst (thread_text thread transitions r remaining)) \<le> remaining"
  by (auto simp: thread_text_def Let_def split: option.splits)

text \<open>C24. The thread and process part of a line fits its buffer of 65 bytes with its terminator, whatever names
  threads carry and however long the transition text is.\<close>

theorem thread_process_fits:
  assumes "InitThreadProcessID env flags (w, ch, '''') = (w', ch', t)"
  shows "length t < THREAD_PROCESS_SIZE"
proof -
  let ?p = "if flag ProcessID flags \<noteq> 0 then show_hex (unat (OsProcess env)) else ''''"
  have p: "length ?p \<le> 16" using show_hex_u64 by simp
  have t: "length (fst (thread_text (OsThread env) tr r (61 - length ?p - 1))) + length ?p \<le> 60" for tr r
    using thread_text_fits [of "OsThread env" tr r "61 - length ?p - 1"] p by linarith
  show ?thesis
  proof (cases "flag ThreadID flags \<noteq> 0")
    case True
    obtain ch1 r where f: "find_thread_name (OsThread env) (flag ThreadTransition flags \<noteq> 0) ch = (ch1, r)" by fastforce
    obtain s b where s: "thread_text (OsThread env) (flag ThreadTransition flags \<noteq> 0) r (61 - length ?p - 1) = (s, b)" by fastforce
    have "t = ''['' @ ?p @ '':'' @ s @ ''] ''"
      using assms True f s by (auto simp: InitThreadProcessID_def Let_def THREAD_PROCESS_SIZE_def)
    moreover have "length s + length ?p \<le> 60" using t [of "flag ThreadTransition flags \<noteq> 0" r] s by simp
    ultimately show ?thesis by (simp add: THREAD_PROCESS_SIZE_def)
  next
    case False
    then have "t = '''' \<or> t = ''['' @ ?p @ ''] ''"
      using assms by (auto simp: InitThreadProcessID_def Let_def split: if_splits)
    then show ?thesis using p by (auto simp: THREAD_PROCESS_SIZE_def)
  qed
qed

text \<open>A transition of 80 bytes and a name behind it: the transition is cut and the name dropped.\<close>

definition long_transition :: line_channel where
  "long_transition = \<lparr>ShortenerList = None, ShortenerMap = [],
     OwnNames = [7 \<mapsto> \<lparr>TName = Some ''worker'', TPrev = Some (replicate 80 (CHR ''x'')), TForward = Some 0\<rparr>],
     LinkNames = None, ChannelBytes = 0\<rparr>"

definition quiet_world :: line_world where
  "quiet_world = \<lparr>LocalStampTicks = 0, LocalStamp = '''', UtcStampTicks = 0, UtcStamp = '''', TransitionPrinted = (\<lambda>_. False)\<rparr>"

definition no_date :: date_time where
  "no_date = \<lparr>Year = 0, Month = 0, Day = 0, Hour = 0, Minute = 0, Second = 0, Millisecond = 0\<rparr>"

definition thread_seven :: apply_env where
  "thread_seven = \<lparr>MillisecNow = 1, LocalNow = no_date, UtcNow = no_date, UtcOffset = 0, OsThread = 7, OsProcess = 10,
     AppendResult = None, ThreadFieldsNow = [], FieldNames = OutputFieldNames_init\<rparr>"

lemma thread_process_fits_witness:
  "snd (snd (InitThreadProcessID thread_seven OutputFlags_init (quiet_world, long_transition, ''''))) = '''' \<and>
   snd (snd (InitThreadProcessID thread_seven (set_flag ThreadID 1 OutputFlags_init) (quiet_world, long_transition, ''''))) =
     ''[:'' @ replicate 60 (CHR ''x'') @ ''] '' \<and>
   length (snd (snd (InitThreadProcessID thread_seven (set_flag ThreadID 1 OutputFlags_init) (quiet_world, long_transition, ''''))))
     < THREAD_PROCESS_SIZE"
proof -
  have "snd (snd (InitThreadProcessID thread_seven OutputFlags_init (quiet_world, long_transition, ''''))) = ''''" by code_simp
  moreover have "snd (snd (InitThreadProcessID thread_seven (set_flag ThreadID 1 OutputFlags_init) (quiet_world, long_transition, ''''))) =
     ''[:'' @ replicate 60 (CHR ''x'') @ ''] ''" by code_simp
  moreover obtain w ch t where
    t: "InitThreadProcessID thread_seven (set_flag ThreadID 1 OutputFlags_init) (quiet_world, long_transition, '''') = (w, ch, t)"
    by (metis prod_cases3)
  ultimately show ?thesis using thread_process_fits [OF t] by (simp add: t)
qed

section \<open>What a context keeps\<close>

text \<open>The time stamp and the thread text are made by the first call that asks for one and shown by every later
  call, whatever kind of time or whichever of the two numbers its own flags name.\<close>

theorem texts_made_once:
  assumes "CtxTimestamp c \<noteq> ''''" and "ThreadProcessID c \<noteq> ''''"
  shows "PStamp (snd (text_parts env flags (w, ch, c))) = (if flag Timestamp flags \<noteq> 0 then CtxTimestamp c else '''') \<and>
    PThread (snd (text_parts env flags (w, ch, c))) =
      (if flag ProcessID flags \<noteq> 0 \<or> flag ThreadID flags \<noteq> 0 then ThreadProcessID c else '''')"
  using assms by (auto simp: text_parts_def shorten_method_def Let_def split: option.split prod.split)

text \<open>The minutes of the time zone are taken from the seconds of the offset: they are 00 for every zone.\<close>

theorem tzd_loses_minutes:
  assumes "60 dvd d"
  shows "CreateTZD d = take (TZD_BUFFER_SIZE - 2)
    ((if c_mod (c_div d 3600) 60 < 0 then ''-'' else ''+'') @ pad0 2 (nat \<bar>c_mod (c_div d 3600) 60\<bar>) @ '':00 '')"
proof -
  have "\<bar>d\<bar> = \<bar>d\<bar> div 60 * 60" using assms by (simp add: dvd_div_mult_self)
  then have "c_mod \<bar>d\<bar> 60 = 0" by (cases "d = 0") (simp_all add: c_mod_def c_div_def)
  moreover have "pad0 2 0 = ''00''" by code_simp
  ultimately show ?thesis by (simp add: CreateTZD_def Let_def)
qed

lemma half_hour_zone: "CreateTZD 19800 = ''+05:00 ''"
  by code_simp

end
