(* ===== verification/Record_Structured.thy ===== *)
theory Record_Structured
  imports Record_Text Control_Json
begin

text \<open>
  The structured forms of a record (\<open>Context.cpp\<close>: \<open>ApplyJson\<close>, \<open>ApplyXml\<close>) and \<open>Context::Apply\<close> itself,
  which chooses the form, returns the last result again when the flags are the same, and counts the bytes
  once. Lemmas: a record comes back unchanged from its JSON and from its XML form, and a context hands each
  backend in turn the line its flags ask for, from buffers it never leaves.
\<close>

section \<open>The fields of a record\<close>

datatype field_value = TextValue string | NumberValue u64

definition GetStructuredLevelName :: "level \<Rightarrow> string" where
  "GetStructuredLevelName l =
     (case l of LEVEL_DEBUG \<Rightarrow> ''debug'' | LEVEL_INFO \<Rightarrow> ''info'' | LEVEL_WARN \<Rightarrow> ''warn'' | LEVEL_ERROR \<Rightarrow> ''error''
      | LEVEL_CRITICAL \<Rightarrow> ''critical'')"

definition TrimRight :: "string \<Rightarrow> string" where
  "TrimRight s = rev (dropWhile (\<lambda>c. c = CHR '' '' \<or> c = CHR 0x09 \<or> c = CHR 0x0D \<or> c = CHR 0x0A) (rev s))"

definition MakeRepeatedText :: "u64 \<Rightarrow> string \<Rightarrow> string" where
  "MakeRepeatedText n s = ''repeated '' @ show_nat (unat n) @ '' times: '' @ s"

text \<open>The texts both forms make first: the time stamp and the shortened name of the method.\<close>

definition structured_state ::
  "apply_env \<Rightarrow> u32 \<Rightarrow> line_world \<times> line_channel \<times> 'a line_ctx_scheme \<Rightarrow> line_world \<times> line_channel \<times> 'a line_ctx_scheme" where
  "structured_state env flags st =
     (let (w, ch, c) = st;
          (w, c) = (if flag Timestamp flags \<noteq> 0 \<and> CtxTimestamp c = ''''
                    then let (w, s) = InitTimestamp (flag Timestamp flags) env w in (w, c\<lparr>CtxTimestamp := s\<rparr>)
                    else (w, c));
          c = (if flag Method flags \<noteq> 0 \<and> CtxMethod c \<noteq> None \<and> flag ProcPrint flags = 0 then shorten_method ch c else c)
      in (w, ch, c))"

text \<open>The fields in the order both forms write them, with the names they carry.\<close>

definition structured_fields ::
  "apply_env \<Rightarrow> u32 \<Rightarrow> 'a line_ctx_scheme \<Rightarrow> string \<Rightarrow> (string \<times> field_value) list" where
  "structured_fields env flags c txt =
     (let nm = (\<lambda>f. GetOutputFieldName f (FieldNames env)) in
      (if flag Timestamp flags \<noteq> 0 then [(nm OUTPUT_FIELD_TIMESTAMP, TextValue (TrimRight (CtxTimestamp c)))] else []) @
      (if flag Signature flags \<noteq> 0 then [(nm OUTPUT_FIELD_LEVEL, TextValue (GetStructuredLevelName (ErrorLevel c)))] else []) @
      (if flag ProcessID flags \<noteq> 0 then [(nm OUTPUT_FIELD_PROCESS_ID, NumberValue (OsProcess env))] else []) @
      (if flag ThreadID flags \<noteq> 0 then [(nm OUTPUT_FIELD_THREAD_ID, NumberValue (OsThread env))] else []) @
      (if flag ChannelName flags \<noteq> 0
       then [(nm OUTPUT_FIELD_CHANNEL, TextValue (case CtxChannel c of None \<Rightarrow> '''' | Some n \<Rightarrow> n))] else []) @
      (if flag SubsystemName flags \<noteq> 0 \<and> CtxSubsystem c \<noteq> 0
       then [(nm OUTPUT_FIELD_SUBSYSTEM, TextValue (TrimRight (SidToString (CtxSubsystem c))))] else []) @
      (if flag Location flags \<noteq> 0
       then [(nm OUTPUT_FIELD_FILE, TextValue (if flag Location flags = 1 then GetShortModuleName (FullName c) else FullName c)),
             (nm OUTPUT_FIELD_LINE, NumberValue (word_of_int (CtxLine c)))] else []) @
      (if flag Method flags \<noteq> 0 \<and> flag ProcPrint flags = 0
       then (case CtxMethod c of None \<Rightarrow> [] | Some m \<Rightarrow> [(nm OUTPUT_FIELD_METHOD, TextValue m)]) else []) @
      map (\<lambda>(n, v). (c_str n, TextValue (c_str v))) (ThreadFieldsNow env) @
      [(nm OUTPUT_FIELD_MESSAGE,
        TextValue (if CollapseRepeatCount c \<noteq> 0 then MakeRepeatedText (CollapseRepeatCount c) txt else txt))] @
      (if flag Duration flags \<noteq> 0 \<and> flag ProcPrintIn flags = 0 \<and> HasAppendProc c
       then (case AppendResult env of None \<Rightarrow> [] | Some t \<Rightarrow> [(nm OUTPUT_FIELD_DURATION, TextValue t)]) else []))"

section \<open>JSON\<close>

definition json_char :: "char \<Rightarrow> string" where
  "json_char c =
     (if c = QUOTE then [BACKSLASH, QUOTE]
      else if c = BACKSLASH then [BACKSLASH, BACKSLASH]
      else if c = CHR 0x08 then [BACKSLASH, CHR ''b'']
      else if c = CHR 0x0C then [BACKSLASH, CHR ''f'']
      else if c = CHR 0x0A then [BACKSLASH, CHR ''n'']
      else if c = CHR 0x0D then [BACKSLASH, CHR ''r'']
      else if c = CHR 0x09 then [BACKSLASH, CHR ''t'']
      else if char_code c < 32
      then [BACKSLASH, CHR ''u'', CHR ''0'', CHR ''0'', hex_char (char_code c div 16), hex_char (char_code c mod 16)]
      else [c])"

definition AppendJsonEscaped :: "string \<Rightarrow> string \<Rightarrow> string" where
  "AppendJsonEscaped output s = output @ QUOTE # concat (map json_char s) @ [QUOTE]"

definition AppendJsonFieldName :: "string \<Rightarrow> string \<times> bool \<Rightarrow> string \<times> bool" where
  "AppendJsonFieldName nm st =
     (let (output, is_first) = st in (AppendJsonEscaped (if is_first then output else output @ '','') nm @ '':'', False))"

definition AppendJsonField :: "string \<times> field_value \<Rightarrow> string \<times> bool \<Rightarrow> string \<times> bool" where
  "AppendJsonField fv st =
     (let (nm, v) = fv; (output, is_first) = AppendJsonFieldName nm st in
      (case v of TextValue s \<Rightarrow> AppendJsonEscaped output s | NumberValue n \<Rightarrow> output @ show_nat (unat n), is_first))"

definition json_text :: "(string \<times> field_value) list \<Rightarrow> string" where
  "json_text fvs = fst (fold AppendJsonField fvs (''{'', True)) @ ''}''"

section \<open>XML\<close>

definition xml_char :: "char \<Rightarrow> string" where
  "xml_char c =
     (if c = CHR ''&'' then ''&amp;''
      else if c = CHR ''<'' then ''&lt;''
      else if c = CHR ''>'' then ''&gt;''
      else if c = QUOTE then ''&quot;''
      else if c = CHR 0x27 then ''&apos;''
      else [c])"

definition AppendXmlEscaped :: "string \<Rightarrow> string \<Rightarrow> string" where
  "AppendXmlEscaped output s = output @ concat (map xml_char s)"

definition AppendXmlElement :: "string \<times> field_value \<Rightarrow> string \<Rightarrow> string" where
  "AppendXmlElement fv output =
     (let (nm, v) = fv; s = (case v of TextValue s \<Rightarrow> s | NumberValue n \<Rightarrow> show_nat (unat n))
      in AppendXmlEscaped (output @ ''<'' @ nm @ ''>'') s @ ''</'' @ nm @ ''>'')"

definition xml_text :: "(string \<times> field_value) list \<Rightarrow> string" where
  "xml_text fvs = fold AppendXmlElement fvs ''<event>'' @ ''</event>''"

section \<open>One call\<close>

text \<open>The finished text goes into the buffer it fits in.\<close>

definition place_output :: "string \<Rightarrow> line_mem \<Rightarrow> line_mem option" where
  "place_output output m =
     (if 2 ^ 31 \<le> length output then None
      else
        let (m, d) = take_buffer (length output + 1) m
        in map_option (\<lambda>b. (set_mem d b m)\<lparr>LastData := d, LastLen := length output\<rparr>) (strcpy 0 output (mem_at d m)))"

definition ApplyStructured ::
  "((string \<times> field_value) list \<Rightarrow> string) \<Rightarrow> apply_env \<Rightarrow> u32 \<Rightarrow> (line_world \<times> line_channel \<times> 'a line_ctx_scheme) \<times> line_mem \<Rightarrow>
   ((line_world \<times> line_channel \<times> 'a line_ctx_scheme) \<times> line_mem) option" where
  "ApplyStructured form env flags st =
     (let ((w, ch, c), m) = st in
      if AppliedValue c = flags then Some st
      else
        let (w, ch, c) = structured_state env flags (w, ch, c);
            output = form (structured_fields env flags c (take (TempBufferSize m) (TempBuffer m))) @
              (if flag Eol flags \<noteq> 0 then [CHR 0x0A] else [])
        in map_option (\<lambda>m. ((w, ch, c\<lparr>AppliedValue := flags\<rparr>), m)) (place_output output m))"

definition ApplyJson where
  "ApplyJson = ApplyStructured json_text"

definition ApplyXml where
  "ApplyXml = ApplyStructured xml_text"

definition Apply ::
  "apply_env \<Rightarrow> u32 \<Rightarrow> (line_world \<times> line_channel \<times> 'a line_ctx_scheme) \<times> line_mem \<Rightarrow>
   ((line_world \<times> line_channel \<times> 'a line_ctx_scheme) \<times> line_mem) option" where
  "Apply env flags st =
     (let flags = call_flags flags (snd (snd (fst st)))
      in map_option (\<lambda>((w, ch, c), m). let (ch, c) = count_bytes (LastLen m) (ch, c) in ((w, ch, c), m))
           (if flag Format flags = 1 then ApplyJson env flags st
            else if flag Format flags = 2 then ApplyXml env flags st
            else ApplyText env flags st))"

text \<open>What a backend sees.\<close>

definition delivered_text :: "line_mem \<Rightarrow> string" where
  "delivered_text m = take (LastLen m) (mem_at (LastData m) m)"

text \<open>One context and the backends that ask it for a line, in turn, each with its channel and flags.\<close>

fun apply_run ::
  "(apply_env \<times> line_channel \<times> u32) list \<Rightarrow> line_world \<Rightarrow> 'a line_ctx_scheme \<Rightarrow> line_mem \<Rightarrow> (line_channel \<times> string) list option" where
  "apply_run [] w c m = Some []"
| "apply_run ((env, ch, flags) # calls) w c m =
     (case Apply env flags ((w, ch, c), m) of
        None \<Rightarrow> None
      | Some ((w, ch, c), m) \<Rightarrow> map_option (Cons (ch, delivered_text m)) (apply_run calls w c m))"

section \<open>What is meant\<close>

text \<open>The same without memory: the last line is kept as a text.\<close>

definition meant_line ::
  "apply_env \<Rightarrow> u32 \<Rightarrow> string \<Rightarrow> (line_world \<times> line_channel \<times> 'a line_ctx_scheme) \<times> string \<Rightarrow>
   (line_world \<times> line_channel \<times> 'a line_ctx_scheme) \<times> string" where
  "meant_line env flags txt st =
     (let ((w, ch, c), last_line) = st; flags = call_flags flags c;
          ((w, ch, c), line) =
            (if AppliedValue c = flags then ((w, ch, c), last_line)
             else if flag Format flags = 1 \<or> flag Format flags = 2
             then
               let (w, ch, c) = structured_state env flags (w, ch, c);
                   fvs = structured_fields env flags c txt
               in ((w, ch, c\<lparr>AppliedValue := flags\<rparr>),
                   (if flag Format flags = 1 then json_text fvs else xml_text fvs) @
                   (if flag Eol flags \<noteq> 0 then [CHR 0x0A] else []))
             else
               let ((w, ch, c), q) = text_parts env flags (w, ch, c)
               in ((w, ch, c\<lparr>AppliedValue := flags\<rparr>), line_of q txt));
          (ch, c) = count_bytes (length line) (ch, c)
      in ((w, ch, c), line))"

fun meant_run ::
  "string \<Rightarrow> (apply_env \<times> line_channel \<times> u32) list \<Rightarrow> line_world \<Rightarrow> 'a line_ctx_scheme \<Rightarrow> string \<Rightarrow> (line_channel \<times> string) list" where
  "meant_run txt [] w c l = []"
| "meant_run txt ((env, ch, flags) # calls) w c l =
     (let ((w, ch, c), l) = meant_line env flags txt ((w, ch, c), l) in (ch, l) # meant_run txt calls w c l)"

lemma place_output_exact:
  assumes "mem_ok txt m" and "length output + 1 < 2 ^ 31"
  shows "\<exists>m'. place_output output m = Some m' \<and> mem_ok txt m' \<and> delivered m' output"
proof -
  obtain m2 d where t: "take_buffer (length output + 1) m = (m2, d)" by fastforce
  from take_buffer_fits [OF _ t] assms(1) have
    f: "length output + 1 \<le> length (mem_at d m2)" "d \<noteq> NoData" "d \<noteq> InTemp" "TempBuffer m2 = TempBuffer m"
      "TempBufferSize m2 = TempBufferSize m" "OutBuffer m2 = OutBuffer m" by (auto simp: mem_ok_def)
  have "holds [] (mem_at d m2)" by (simp add: holds_def)
  with strcpy_puts [of "output" "length output + 1"] f(1) obtain r where
    r: "strcpy 0 output (mem_at d m2) = Some r" "length r = length (mem_at d m2)" "holds output r" "r ! length output = NUL"
    unfolding puts_def by fastforce
  let ?m = "(set_mem d r m2)\<lparr>LastData := d, LastLen := length output\<rparr>"
  have "place_output output m = Some ?m" using assms(2) t r(1) by (simp add: place_output_def)
  moreover have "mem_ok txt ?m"
    using assms(1) f(3-6) set_mem_simps(2-4) [where d = d] r(2) by (simp add: mem_ok_def)
  moreover have "delivered ?m output"
    using r f(1,2) set_mem_simps(1) [where d = d and b = r and m = m2] by (simp add: delivered_def)
  ultimately show ?thesis by blast
qed

lemma mem_ok_text: "mem_ok txt m \<Longrightarrow> take (TempBufferSize m) (TempBuffer m) = txt"
  by (simp add: mem_ok_def holds_def)

lemma delivered_text_is: "delivered m l \<Longrightarrow> delivered_text m = l"
  by (simp add: delivered_def delivered_text_def holds_def)

lemma Apply_exact:
  assumes "mem_ok txt m" and "delivered m l" and "meant_line env flags txt ((w, ch, c), l) = (st', l')" and "length l' + 1 < 2 ^ 31"
  shows "\<exists>m'. Apply env flags ((w, ch, c), m) = Some (st', m') \<and> mem_ok txt m' \<and> delivered m' l'"
proof -
  let ?f = "call_flags flags c"
  consider (same) "AppliedValue c = ?f" | (structured) "AppliedValue c \<noteq> ?f" "flag Format ?f = 1 \<or> flag Format ?f = 2"
    | (plain) "AppliedValue c \<noteq> ?f" "\<not> (flag Format ?f = 1 \<or> flag Format ?f = 2)" by blast
  then show ?thesis
  proof cases
    case same
    then show ?thesis using assms
      by (auto simp: Apply_def ApplyJson_def ApplyXml_def ApplyStructured_def ApplyText_def meant_line_def Let_def delivered_def
          split: prod.splits)
  next
    case structured
    obtain w1 ch1 c1 where s: "structured_state env ?f (w, ch, c) = (w1, ch1, c1)" by (cases "structured_state env ?f (w, ch, c)")
    let ?out = "(if flag Format ?f = 1 then json_text (structured_fields env ?f c1 txt) else xml_text (structured_fields env ?f c1 txt)) @
      (if flag Eol ?f \<noteq> 0 then [CHR 0x0A] else [])"
    have l': "l' = ?out" "st' = (let (ch, c) = count_bytes (length ?out) (ch1, c1\<lparr>AppliedValue := ?f\<rparr>) in (w1, ch, c))"
      using assms(3) structured s by (auto simp: meant_line_def Let_def split: prod.splits)
    from place_output_exact [OF assms(1), of ?out] assms(4) l'(1) obtain m' where
      m': "place_output ?out m = Some m'" "mem_ok txt m'" "delivered m' ?out" by auto
    then have "LastLen m' = length ?out" by (simp add: delivered_def)
    then show ?thesis using m' l' structured s mem_ok_text [OF assms(1)]
      by (auto simp: Apply_def ApplyJson_def ApplyXml_def ApplyStructured_def Let_def split: prod.splits)
  next
    case plain
    obtain w1 ch1 c1 q where s: "text_parts env ?f (w, ch, c) = ((w1, ch1, c1), q)" by (metis prod_cases3 surj_pair)
    have l': "l' = line_of q txt" "st' = (let (ch, c) = count_bytes (length l') (ch1, c1\<lparr>AppliedValue := ?f\<rparr>) in (w1, ch, c))"
      using assms(3) plain s by (auto simp: meant_line_def Let_def split: prod.splits)
    from place_text_exact [OF assms(1), of q] assms(4) l'(1) obtain m' where
      m': "place_text q m = Some m'" "mem_ok txt m'" "delivered m' l'" by auto
    then have "LastLen m' = length l'" by (simp add: delivered_def)
    then show ?thesis using m' l'(2) plain s
      by (auto simp: Apply_def ApplyText_def Let_def split: prod.splits)
  qed
qed

text \<open>C21. One context serves any number of backends, each with its own channel and flags: no call writes outside
  the text's memory, the context's buffer or its heap buffer, and each backend reads exactly the line its
  flags ask for, also after an earlier call has written the end of the line behind the text in place.\<close>

lemma apply_run_meant:
  assumes "mem_ok txt m" and "delivered m l" and "\<forall>r \<in> set (meant_run txt calls w c l). length (snd r) + 1 < 2 ^ 31"
  shows "apply_run calls w c m = Some (meant_run txt calls w c l)"
  using assms
proof (induction calls arbitrary: w c m l)
  case (Cons call calls)
  obtain env ch flags where call: "call = (env, ch, flags)" by (cases call)
  obtain w1 ch1 c1 l1 where s: "meant_line env flags txt ((w, ch, c), l) = ((w1, ch1, c1), l1)" by (metis prod_cases3 surj_pair)
  have r: "meant_run txt (call # calls) w c l = (ch1, l1) # meant_run txt calls w1 c1 l1" using s by (simp add: call)
  from Apply_exact [OF Cons.prems(1,2) s] Cons.prems(3) r obtain m1 where
    m1: "Apply env flags ((w, ch, c), m) = Some ((w1, ch1, c1), m1)" "mem_ok txt m1" "delivered m1 l1" by auto
  have "apply_run calls w1 c1 m1 = Some (meant_run txt calls w1 c1 l1)"
    by (rule Cons.IH [OF m1(2,3)]) (use Cons.prems(3) r in simp)
  then show ?case unfolding r using m1(1) delivered_text_is [OF m1(3)] by (simp add: call)
qed simp


section \<open>The JSON form read back\<close>

definition json_string :: "string \<Rightarrow> string" where
  "json_string s = quoted (concat (map json_char s))"

fun json_value :: "field_value \<Rightarrow> json" where
  "json_value (TextValue s) = JStr s"
| "json_value (NumberValue n) = JNum (unat n)"

definition json_member :: "string \<times> field_value \<Rightarrow> string" where
  "json_member fv = json_string (fst fv) @ '':'' @ (case snd fv of TextValue s \<Rightarrow> json_string s | NumberValue n \<Rightarrow> show_nat (unat n))"

lemma hex_value_hex_char: "n < 16 \<Longrightarrow> hex_value (hex_char n) = Some n"
  by (cases "n < 10") (simp_all add: hex_char_def hex_value_def is_digit_def digit_val_def char_code_def digit_char_def)

lemma read_json_char: "read_string (json_char c @ rest) = map_option (apfst (Cons c)) (read_string rest)"
proof (cases "c = BACKSLASH \<or> c = QUOTE \<or> c = CHR 0x08 \<or> c = CHR 0x0C \<or> c = CHR 0x0A \<or> c = CHR 0x0D \<or> c = CHR 0x09")
  case True
  then show ?thesis
    by (elim disjE) (subst read_string.simps, simp add: json_char_def QUOTE_def BACKSLASH_def)+
next
  case special: False
  show ?thesis
  proof (cases "char_code c < 32")
    case True
    have "hex_value (CHR ''0'') = Some 0" by code_simp
    moreover have "char_code c div 16 * 16 + char_code c mod 16 = char_code c" by simp
    ultimately have "unicode_escape [CHR ''0'', CHR ''0'', hex_char (char_code c div 16), hex_char (char_code c mod 16)] = Some c"
      using True by (simp add: hex_value_hex_char del: div_mult_mod_eq)
    with True special show ?thesis
      by (subst read_string.simps) (simp add: json_char_def QUOTE_def BACKSLASH_def del: unicode_escape.simps)
  next
    case False
    with special show ?thesis by (subst read_string.simps) (simp add: json_char_def)
  qed
qed

lemma read_json_string: "read_string (concat (map json_char s) @ QUOTE # rest) = Some (s, rest)"
proof (induction s)
  case Nil
  then show ?case by (subst read_string.simps) simp
qed (simp add: read_json_char)

lemma parse_json_value:
  assumes "ends_value rest"
  shows "parse_value (Suc n) ((case v of TextValue s \<Rightarrow> json_string s | NumberValue k \<Rightarrow> show_nat (unat k)) @ rest) = Some (json_value v, rest)"
proof (cases v)
  case (TextValue s)
  then show ?thesis
    by (simp add: json_string_def quoted_def read_json_string QUOTE_def [symmetric]) (simp add: QUOTE_def)
next
  case (NumberValue k)
  then show ?thesis using number_value [OF assms, of n "unat k"] by (simp del: parse_value.simps)
qed

lemma AppendJsonField_rest:
  "fold AppendJsonField fvs (out, False) = (out @ concat (map (\<lambda>f. '','' @ json_member f) fvs), False)"
proof (induction fvs arbitrary: out)
  case (Cons f fvs)
  have "AppendJsonField f (out, False) = (out @ '','' @ json_member f, False)"
    by (cases f) (simp add: AppendJsonField_def AppendJsonFieldName_def AppendJsonEscaped_def json_member_def json_string_def
        quoted_def Let_def split: field_value.split)
  then show ?case using Cons by simp
qed simp

lemma json_text_members:
  "json_text (f # fvs) = ''{'' @ json_member f @ concat (map (\<lambda>f. '','' @ json_member f) fvs) @ ''}''"
proof -
  have "AppendJsonField f (''{'', True) = (''{'' @ json_member f, False)"
    by (cases f) (simp add: AppendJsonField_def AppendJsonFieldName_def AppendJsonEscaped_def json_member_def json_string_def
        quoted_def Let_def split: field_value.split)
  then show ?thesis by (simp add: json_text_def AppendJsonField_rest)
qed

lemma parse_json_member:
  assumes "ends_value r"
  shows "parse_members (Suc (Suc k)) (json_member f @ r) =
    (if prefix '','' r then map_option (apfst (Cons (apsnd json_value f))) (parse_members (Suc k) (tl r))
     else if prefix ''}'' r then Some ([apsnd json_value f], tl r) else None)"
proof -
  let ?v = "(case snd f of TextValue s \<Rightarrow> json_string s | NumberValue n \<Rightarrow> show_nat (unat n)) @ r"
  have m: "json_member f @ r = QUOTE # concat (map json_char (fst f)) @ QUOTE # '':'' @ ?v"
    by (simp add: json_member_def json_string_def quoted_def)
  have v: "parse_value (Suc k) ?v = Some (json_value (snd f), r)" by (rule parse_json_value [OF assms])
  have f: "(fst f, json_value (snd f)) = apsnd json_value f" by (cases f) simp
  show ?thesis
    unfolding m by (subst parse_members.simps(2)) (simp add: read_json_string v f del: parse_value.simps parse_members.simps)
qed

lemma parse_json_members:
  assumes "length fvs + 1 < n"
  shows "parse_members n (json_member f @ concat (map (\<lambda>f. '','' @ json_member f) fvs) @ ''}'' @ rest) =
    Some (map (apsnd json_value) (f # fvs), rest)"
  using assms
proof (induction fvs arbitrary: f n)
  case Nil
  then obtain k where n: "n = Suc (Suc k)" by (cases n; cases "n - 1") auto
  have "ends_value (''}'' @ rest)" by simp
  from parse_json_member [OF this, of k f] show ?case by (simp add: n del: parse_members.simps)
next
  case (Cons g fvs)
  then obtain k where n: "n = Suc (Suc k)" by (cases n; cases "n - 1") auto
  let ?tail = "json_member g @ concat (map (\<lambda>f. '','' @ json_member f) fvs) @ ''}'' @ rest"
  have t: "parse_members (Suc k) ?tail = Some (map (apsnd json_value) (g # fvs), rest)"
    by (rule Cons.IH) (use Cons.prems n in simp)
  have "ends_value ('','' @ ?tail)" by simp
  from parse_json_member [OF this, of k f] t show ?case by (simp add: n del: parse_members.simps)
qed

lemma json_text_parses:
  assumes "fvs \<noteq> []"
  shows "parse_json (json_text fvs) = Some (JObj (map (apsnd json_value) fvs))"
proof -
  obtain f gs where f: "fvs = f # gs" using assms by (cases fvs) auto
  let ?members = "json_member f @ concat (map (\<lambda>f. '','' @ json_member f) gs) @ ''}''"
  have j: "json_text fvs = CHR ''{'' # ?members" by (simp add: f json_text_members)
  have "length gs \<le> length (concat (map (\<lambda>f. '','' @ json_member f) gs))" by (induction gs) auto
  moreover have "1 < length (json_member f)" by (simp add: json_member_def json_string_def quoted_def)
  ultimately have "length gs + 1 < length (CHR ''{'' # ?members)" by simp
  from parse_json_members [OF this, of f "''''"]
  have p: "parse_members (Suc (length ?members)) ?members = Some (map (apsnd json_value) fvs, [])" by (simp add: f)
  have "\<exists>r. ?members = QUOTE # r" by (simp add: json_member_def json_string_def quoted_def)
  then have "\<not> prefix ''}'' ?members" by (auto simp: QUOTE_def)
  then show ?thesis using p
    unfolding parse_json_def j by (simp add: QUOTE_def is_digit_def char_code_def del: parse_members.simps)
qed

lemma structured_fields_nonempty: "structured_fields env flags c txt \<noteq> []"
  by (simp add: structured_fields_def Let_def)

lemma Apply_structured:
  assumes "mem_ok txt m" and "flags' = call_flags flags c" and "flag Format flags' = 1 \<or> flag Format flags' = 2" and "AppliedValue c \<noteq> flags'"
    and "structured_state env flags' (w, ch, c) = (w1, ch1, c1)" and "fvs = structured_fields env flags' c1 txt"
    and "line = (if flag Format flags' = 1 then json_text fvs else xml_text fvs) @ (if flag Eol flags' \<noteq> 0 then [CHR 0x0A] else [])"
    and "length line + 1 < 2 ^ 31"
  shows "\<exists>st' m'. Apply env flags ((w, ch, c), m) = Some (st', m') \<and> delivered_text m' = line"
proof -
  from place_output_exact [OF assms(1,8)] obtain m' where m': "place_output line m = Some m'" "delivered m' line" by auto
  then show ?thesis using assms(2-7) mem_ok_text [OF assms(1)] delivered_text_is [OF m'(2)]
    by (auto simp: Apply_def ApplyJson_def ApplyXml_def ApplyStructured_def Let_def split: prod.splits)
qed

text \<open>C22. What a backend with the JSON format gets is one JSON object: a JSON reader gets back every field the
  flags ask for, in order, each text byte for byte, whatever quotes or control characters it has.\<close>

theorem json_record_parses:
  assumes "mem_ok txt m" and "flags' = call_flags flags c" and "flag Format flags' = 1" and "AppliedValue c \<noteq> flags'"
    and "structured_state env flags' (w, ch, c) = (w1, ch1, c1)" and "fvs = structured_fields env flags' c1 txt"
    and "length (json_text fvs) + 2 < 2 ^ 31"
  shows "\<exists>st' m' js. Apply env flags ((w, ch, c), m) = Some (st', m') \<and>
    delivered_text m' = js @ (if flag Eol flags' \<noteq> 0 then [CHR 0x0A] else []) \<and>
    parse_json js = Some (JObj (map (apsnd json_value) fvs))"
proof -
  let ?eol = "if flag Eol flags' \<noteq> 0 then [CHR 0x0A] else []"
  have "length (json_text fvs @ ?eol) + 1 < 2 ^ 31" using assms(7) by auto
  from Apply_structured [OF assms(1,2) _ assms(4-6) _ this] assms(3)
  have "\<exists>st' m'. Apply env flags ((w, ch, c), m) = Some (st', m') \<and> delivered_text m' = json_text fvs @ ?eol" by simp
  moreover have "parse_json (json_text fvs) = Some (JObj (map (apsnd json_value) fvs))"
    by (rule json_text_parses) (simp add: assms(6) structured_fields_nonempty)
  ultimately show ?thesis by blast
qed

section \<open>The XML form read back\<close>

text \<open>A reference reader: character data up to the next tag, and elements up to a closing tag.\<close>

definition entities :: "(string \<times> char) list" where
  "entities = [(''amp;'', CHR ''&''), (''lt;'', CHR ''<''), (''gt;'', CHR ''>''), (''quot;'', QUOTE), (''apos;'', CHR 0x27)]"

function read_data :: "string \<Rightarrow> (string \<times> string) option" where
  "read_data s =
     (case s of
        [] \<Rightarrow> Some ([], [])
      | c # cs \<Rightarrow>
          if c = CHR ''<'' then Some ([], s)
          else if c = CHR ''&''
          then (case find (\<lambda>e. prefix (fst e) cs) entities of
                  None \<Rightarrow> None
                | Some (e, x) \<Rightarrow> map_option (apfst (Cons x)) (read_data (drop (length e) cs)))
          else map_option (apfst (Cons c)) (read_data cs))"
  by pat_completeness auto
termination by (relation "measure length") auto

declare read_data.simps [simp del]

fun read_elements :: "nat \<Rightarrow> string \<Rightarrow> ((string \<times> string) list \<times> string) option" where
  "read_elements 0 s = None"
| "read_elements (Suc n) s =
     (if \<not> prefix ''<'' s \<or> prefix ''</'' s then Some ([], s)
      else
        let nm = takeWhile (\<lambda>c. c \<noteq> CHR ''>'') (tl s) in
        case read_data (drop (length nm + 1) (tl s)) of
          None \<Rightarrow> None
        | Some (d, r) \<Rightarrow>
            if prefix (''</'' @ nm @ ''>'') r
            then map_option (apfst (Cons (nm, d))) (read_elements n (drop (length nm + 3) r))
            else None)"

definition read_event :: "string \<Rightarrow> (string \<times> string) list option" where
  "read_event s =
     (if prefix ''<event>'' s
      then (case read_elements (length s) (drop 7 s) of Some (es, r) \<Rightarrow> if r = ''</event>'' then Some es else None | None \<Rightarrow> None)
      else None)"

fun xml_value :: "field_value \<Rightarrow> string" where
  "xml_value (TextValue s) = s"
| "xml_value (NumberValue n) = show_nat (unat n)"

definition xml_name :: "string \<Rightarrow> bool" where
  "xml_name nm \<longleftrightarrow> CHR ''>'' \<notin> set nm \<and> \<not> prefix ''/'' nm"

definition xml_element :: "string \<times> field_value \<Rightarrow> string" where
  "xml_element fv = ''<'' @ fst fv @ ''>'' @ concat (map xml_char (xml_value (snd fv))) @ ''</'' @ fst fv @ ''>''"

lemma read_xml_char: "read_data (xml_char c @ rest) = map_option (apfst (Cons c)) (read_data rest)"
  by (subst read_data.simps) (auto simp: xml_char_def entities_def QUOTE_def)

lemma read_xml_data: "read_data (concat (map xml_char s) @ CHR ''<'' # rest) = Some (s, CHR ''<'' # rest)"
proof (induction s)
  case Nil
  then show ?case by (subst read_data.simps) simp
qed (simp add: read_xml_char)

lemma read_xml_element:
  assumes "xml_name (fst f)"
  shows "read_elements (Suc n) (xml_element f @ rest) = map_option (apfst (Cons (apsnd xml_value f))) (read_elements n rest)"
proof -
  obtain nm v where f: "f = (nm, v)" by (cases f)
  let ?close = "''</'' @ nm @ ''>'' @ rest"
  have t: "takeWhile (\<lambda>c. c \<noteq> CHR ''>'') (nm @ CHR ''>'' # r) = nm" for r
    using assms by (subst takeWhile_append2) (auto simp: f xml_name_def)
  have s: "xml_element f @ rest = CHR ''<'' # nm @ CHR ''>'' # concat (map xml_char (xml_value v)) @ ?close"
    by (simp add: xml_element_def f)
  have p: "\<not> prefix ''</'' (CHR ''<'' # nm @ CHR ''>'' # r)" for r
    using assms by (cases nm) (auto simp: f xml_name_def)
  have d: "read_data (concat (map xml_char (xml_value v)) @ ?close) = Some (xml_value v, ?close)"
    using read_xml_data [of "xml_value v" "CHR ''/'' # nm @ ''>'' @ rest"] by simp
  have c: "prefix (''</'' @ nm @ ''>'') ?close" "drop (length nm + 3) ?close = rest" by (simp_all add: numeral_3_eq_3)
  show ?thesis unfolding s using t p d c by (simp add: Let_def f)
qed

lemma read_xml_elements:
  assumes "list_all (\<lambda>f. xml_name (fst f)) fvs" and "length fvs < n" and "prefix ''</'' rest"
  shows "read_elements n (concat (map xml_element fvs) @ rest) = Some (map (apsnd xml_value) fvs, rest)"
  using assms(1,2)
proof (induction fvs arbitrary: n)
  case Nil
  then show ?case using assms(3) by (cases n) auto
next
  case (Cons f fvs)
  then obtain k where n: "n = Suc k" by (cases n) auto
  have "read_elements k (concat (map xml_element fvs) @ rest) = Some (map (apsnd xml_value) fvs, rest)"
    by (rule Cons.IH) (use Cons.prems n in auto)
  then show ?case using read_xml_element [of f k "concat (map xml_element fvs) @ rest"] Cons.prems(1)
    by (simp add: n del: read_elements.simps)
qed

lemma xml_text_elements: "xml_text fvs = ''<event>'' @ concat (map xml_element fvs) @ ''</event>''"
proof -
  have "fold AppendXmlElement fvs out = out @ concat (map xml_element fvs)" for out
  proof (induction fvs arbitrary: out)
    case (Cons f fvs)
    have "AppendXmlElement f out = out @ xml_element f"
      by (cases f) (simp add: AppendXmlElement_def AppendXmlEscaped_def xml_element_def Let_def split: field_value.split)
    then show ?case using Cons by simp
  qed simp
  then show ?thesis by (simp add: xml_text_def)
qed

lemma xml_text_reads:
  assumes "list_all (\<lambda>f. xml_name (fst f)) fvs"
  shows "read_event (xml_text fvs) = Some (map (apsnd xml_value) fvs)"
proof -
  have "length fvs \<le> length (concat (map xml_element fvs))" by (induction fvs) (auto simp: xml_element_def)
  then have "length fvs < length (xml_text fvs)" by (simp add: xml_text_elements)
  from read_xml_elements [OF assms this, of "''</event>''"] show ?thesis
    by (simp add: read_event_def xml_text_elements)
qed

text \<open>C23. What a backend with the XML format gets is one event element: a reader gets back every field the flags
  ask for, in order, each text byte for byte, as long as no field name holds a closing bracket or begins
  with a slash.\<close>

theorem xml_record_reads:
  assumes "mem_ok txt m" and "flags' = call_flags flags c" and "flag Format flags' = 2" and "AppliedValue c \<noteq> flags'"
    and "structured_state env flags' (w, ch, c) = (w1, ch1, c1)" and "fvs = structured_fields env flags' c1 txt"
    and "length (xml_text fvs) + 2 < 2 ^ 31" and "list_all (\<lambda>f. xml_name (fst f)) fvs"
  shows "\<exists>st' m' xs. Apply env flags ((w, ch, c), m) = Some (st', m') \<and>
    delivered_text m' = xs @ (if flag Eol flags' \<noteq> 0 then [CHR 0x0A] else []) \<and>
    read_event xs = Some (map (apsnd xml_value) fvs)"
proof -
  let ?eol = "if flag Eol flags' \<noteq> 0 then [CHR 0x0A] else []"
  have "length (xml_text fvs @ ?eol) + 1 < 2 ^ 31" using assms(7) by auto
  from Apply_structured [OF assms(1,2) _ assms(4-6) _ this] assms(3)
  have "\<exists>st' m'. Apply env flags ((w, ch, c), m) = Some (st', m') \<and> delivered_text m' = xml_text fvs @ ?eol" by simp
  then show ?thesis using xml_text_reads [OF assms(8)] by blast
qed

section \<open>Instances\<close>

definition spring_morning :: date_time where
  "spring_morning = \<lparr>Year = 2025, Month = 3, Day = 9, Hour = 7, Minute = 5, Second = 1, Millisecond = 42\<rparr>"

definition demo_call :: apply_env where
  "demo_call = \<lparr>MillisecNow = 5, LocalNow = spring_morning, UtcNow = spring_morning, UtcOffset = 3600, OsThread = 26, OsProcess = 171,
     AppendResult = None, ThreadFieldsNow = [(''user'', ''a<b'')], FieldNames = OutputFieldNames_init\<rparr>"

definition demo_line_channel :: line_channel where
  "demo_line_channel = \<lparr>ShortenerList = None, ShortenerMap = [], OwnNames = Map.empty, LinkNames = None, ChannelBytes = 0\<rparr>"

text \<open>The text ``say "hi"''.\<close>

definition demo_text :: string where
  "demo_text = ''say '' @ [QUOTE] @ ''hi'' @ [QUOTE]"

definition warn_ctx :: line_ctx where
  "warn_ctx = \<lparr>ErrorLevel = LEVEL_WARN, CtxSubsystem = 0, Ovr = None, CtxText = demo_text, CtxChannel = Some ''net'', CtxMethod = None, MethodPlace = InArgument,
     MethodShortener = \<lparr>StaticBuffer = '''', HeapBuffer = None\<rparr>, FullName = ''/src/a.cpp'', CtxLine = 12,
     HasAppendProc = False, CollapseRepeatCount = 0, CtxTimestamp = '''', ThreadProcessID = '''', CtxSignature = None,
     AppliedValue = set_flag NoFlag 1 0, LoggedBytesCounted = False\<rparr>"

text \<open>It lies in a buffer of 20 bytes.\<close>

definition demo_mem :: line_mem where
  "demo_mem = \<lparr>TempBuffer = demo_text @ replicate 12 NUL, TempBufferSize = 8, OutBuffer = replicate OUTPUT_BUFFER_SIZE NUL,
     ExtBuffer = None, LastData = NoData, LastLen = 0\<rparr>"

definition eol_only :: u32 where
  "eol_only = set_flag Eol 1 0"

definition with_signature :: u32 where
  "with_signature = set_flag Signature 1 0"

lemma demo_mem_ok: "mem_ok demo_text demo_mem"
  by (simp add: mem_ok_def demo_mem_def demo_text_def holds_def NUL_def QUOTE_def)


definition json_flags :: u32 where
  "json_flags = set_flag Format 1 (set_flag Signature 1 (set_flag ChannelName 1 0))"

definition xml_flags :: u32 where
  "xml_flags = set_flag Format 2 (set_flag Signature 1 (set_flag ChannelName 1 0))"

definition demo_fields :: "(string \<times> field_value) list" where
  "demo_fields = [(''level'', TextValue ''warn''), (''channel'', TextValue ''net''), (''user'', TextValue ''a<b''),
     (''message'', TextValue demo_text)]"

lemma json_record_parses_witness:
  "\<exists>st' m' js. Apply demo_call json_flags ((quiet_world, demo_line_channel, warn_ctx), demo_mem) = Some (st', m') \<and>
    delivered_text m' = js \<and>
    parse_json js = Some (JObj [(''level'', JStr ''warn''), (''channel'', JStr ''net''), (''user'', JStr ''a<b''), (''message'', JStr demo_text)])"
proof -
  have f: "call_flags json_flags warn_ctx = json_flags" by code_simp
  have s: "structured_state demo_call json_flags (quiet_world, demo_line_channel, warn_ctx) = (quiet_world, demo_line_channel, warn_ctx)"
    by (simp add: structured_state_def json_flags_def output_flags_fields) (simp add: flag_def get_field_def)
  have v: "structured_fields demo_call json_flags warn_ctx demo_text = demo_fields" by code_simp
  have "length (json_text demo_fields) < 200" by code_simp
  then have l: "length (json_text demo_fields) + 2 < 2 ^ 31" by simp
  have c: "flag Format json_flags = 1" "AppliedValue warn_ctx \<noteq> json_flags" "flag Eol json_flags = 0" by code_simp+
  from json_record_parses [OF demo_mem_ok f [symmetric] c(1,2) s v [symmetric] l] c(3) show ?thesis
    by (simp add: demo_fields_def)
qed

lemma xml_record_reads_witness:
  "\<exists>st' m' xs. Apply demo_call xml_flags ((quiet_world, demo_line_channel, warn_ctx), demo_mem) = Some (st', m') \<and>
    delivered_text m' = xs \<and>
    read_event xs = Some [(''level'', ''warn''), (''channel'', ''net''), (''user'', ''a<b''), (''message'', demo_text)]"
proof -
  have f: "call_flags xml_flags warn_ctx = xml_flags" by code_simp
  have s: "structured_state demo_call xml_flags (quiet_world, demo_line_channel, warn_ctx) = (quiet_world, demo_line_channel, warn_ctx)"
    by (simp add: structured_state_def xml_flags_def output_flags_fields) (simp add: flag_def get_field_def)
  have v: "structured_fields demo_call xml_flags warn_ctx demo_text = demo_fields" by code_simp
  have "length (xml_text demo_fields) < 200" by code_simp
  then have l: "length (xml_text demo_fields) + 2 < 2 ^ 31" by simp
  have n: "list_all (\<lambda>f. xml_name (fst f)) demo_fields" by code_simp
  have c: "flag Format xml_flags = 2" "AppliedValue warn_ctx \<noteq> xml_flags" "flag Eol xml_flags = 0" by code_simp+
  from xml_record_reads [OF demo_mem_ok f [symmetric] c(1,2) s v [symmetric] l n] c(3) show ?thesis
    by (simp add: demo_fields_def)
qed

end
