(* ===== verification/Spec2Isabelle.thy ===== *)
theory Spec2Isabelle
  imports Prelude_Logme Text_Utils Smart_Values Level_Names Subsystem_Ids Sorted_Vectors
    Subsystems Level_Snapshots Reentry_Guard Output_Flags Overrides Thread_Scope Channels
    Channel_Display Channel_Text Data_Buffers Buffer_Queue Queue_Threads
    Control_Policy Control_Commands Control_Json Control_Session Trace_Points Obfuscation
    Memory_Backends Collapse Log_Dispatch Error_Routing Streams Fast_Format Retention
    Templates File_Archive Time_Rotation Log_Statistics Statistics_Reports
    Statistics_Protocol File_Truncate File_Write File_Backend File_Worker File_Schedule
    Record_Text Record_Structured
begin

text \<open>
  Verification library of the C++ logging library \<open>logme\<close> (\<open>src/logme\<close>).

  \<^bold>\<open>The program.\<close> An application logs through macros. A macro builds a context (level, channel, subsystem,
  override) and calls one of the overloads of \<open>Logger::Log\<close>. The logger applies what the thread has
  set for itself, uses up the override's limits, tests the subsystem filter, finds or makes the
  channel, formats the text, collapses repetitions and hands the record to \<open>Channel::Display\<close>. The
  channel filters it, passes it on to the channel it is linked to and gives it to its backends, which
  may log in turn; errors are shown on an error channel as well. A file backend puts the bytes into a
  queue of buffers, which a worker thread takes and writes, possibly obfuscated. A control server
  changes the logger at run time through text commands, under a policy and a password.

  \<^bold>\<open>How it is modelled.\<close> A class is a record, an operation a function from the state to the new state;
  a fallible operation returns an option or a sum. Objects reached through pointers (channels,
  backends, trace points, the usage counters of buffers) are numbers with a map or list of their
  contents. Sizes that cannot overflow are natural numbers, everything that wraps is a word of its
  width. Strings are character lists; what reads a C string takes \<open>c_str\<close> of it. Clocks, random bytes and
  the text a formatter produces are arguments. Code that several threads run at once is modelled step
  by step: the levels in \<open>Level_Snapshots\<close>, the queue in \<open>Queue_Threads\<close>, the counters in
  \<open>Statistics_Protocol\<close>, the file manager in \<open>File_Schedule\<close>. Everything else is what one thread sees while
  it holds the locks the code takes.

  \<^bold>\<open>Foundations.\<close>
    \<^item> \<open>Prelude_Logme\<close>: log levels and their order, C strings, decimal numbers, list lemmas.
    \<^item> \<open>Text_Utils\<close> (\<open>Utils.cpp\<close>), \<open>Smart_Values\<close> (\<open>Config/ByteSizeValue.cpp\<close>, \<open>Config/TimeIntervalValue.cpp\<close>),
      \<open>Level_Names\<close> (\<open>Config/Helper.cpp\<close>, \<open>Config/ParseChannel.cpp\<close> and the name tables of the commands),
      \<open>Subsystem_Ids\<close> (\<open>SID.cpp\<close>), \<open>Output_Flags\<close> (\<open>OutputFlags.cpp\<close>): parsers, printers and tables, with round
      trips that say exactly which values are read back.
    \<^item> \<open>Sorted_Vectors\<close>: sorted vectors searched by \<open>std::lower_bound\<close>; its locale \<open>kv_store\<close> (what a lookup
      returns after an insertion and a removal) is interpreted by the filter lists and the level vector.

  \<^bold>\<open>The log call.\<close>
    \<^item> \<open>Subsystems\<close>: blocked, allowed and reported subsystems and per-subsystem levels of \<open>Logger.cpp\<close>, with
      the control command of \<open>Control/Command/CmdSubsystem.cpp\<close>; refined to sets and maps.
    \<^item> \<open>Level_Snapshots\<close>: lock-free readers against the writer that reclaims, as step relations; a
      reader never holds freed memory, and the writer's wait ends.
    \<^item> \<open>Reentry_Guard\<close> (\<open>ReentryGuard.cpp\<close>): the locale \<open>reentry_guard\<close> is what \<open>Display\<close> needs of it.
    \<^item> \<open>Overrides\<close> (\<open>Override.cpp\<close> and the limits of \<open>DoLog\<close>), \<open>Thread_Scope\<close> (\<open>ThreadField.cpp\<close>,
      \<open>ThreadChannel.cpp\<close>, \<open>ThreadOverride.cpp\<close>, \<open>ThreadSubsystem.cpp\<close>; locale \<open>scoped_setting\<close>), \<open>Collapse\<close>
      (\<open>Context.cpp\<close>).
    \<^item> \<open>Channels\<close>: the channel object and the registry with deferred deletion (\<open>Channel.cpp\<close>, \<open>Logger.cpp\<close>).
      \<open>Channel_Display\<close>: \<open>Channel::Display\<close>. \<open>Channel_Text\<close>: name shorteners and thread names.
    \<^item> \<open>Log_Dispatch\<close>: every format overload of \<open>Logger::Log\<close> and \<open>DoLog\<close>, composed of the above; a call
      returns and keeps the logger well-formed. \<open>Error_Routing\<close>: errors reach the error channel. \<open>Streams\<close>:
      the stream overloads and \<open>Stream.cpp\<close>.
    \<^item> \<open>Trace_Points\<close> (\<open>TracePoint.cpp\<close>, the macro \<open>LOGME_TP_BODY\<close>): the registry, hits, and the matcher against
      the rules of glob patterns.

  \<^bold>\<open>Backends.\<close>
    \<^item> \<open>Data_Buffers\<close> (\<open>Buffer/DataBuffer.cpp\<close>, \<open>MemoryUsageTracker.cpp\<close>, the cache of \<open>File/FileManager.cpp\<close>):
      the locale \<open>buffer_cache\<close> is what a queue needs of a cache; it is interpreted by the cache of the file
      manager, directly and through the callbacks of a file backend.
    \<^item> \<open>Buffer_Queue\<close> and \<open>Queue_Threads\<close> (\<open>Buffer/BufferQueue.cpp\<close>): the queue, and its threads interleaved.
    \<^item> \<open>Obfuscation\<close> (\<open>Obfuscate.cpp\<close>): cipher, record format, file decoder.
    \<^item> \<open>Memory_Backends\<close> (\<open>Backend/RingBufferBackend.cpp\<close>, \<open>Backend/BufferBackend.cpp\<close>).
    \<^item> \<open>Templates\<close> (\<open>Template.cpp\<close>, \<open>TemplateBuffer.cpp\<close>), \<open>File_Archive\<close> (\<open>File/FileArchivePolicy.cpp\<close>), \<open>Time_Rotation\<close>
      (\<open>File/FileTimeRotationPolicy.cpp\<close>; locale \<open>period_calendar\<close>, interpreted by the four modes on UTC) and
      \<open>Retention\<close> (\<open>File/RetentionCleaner.cpp\<close>): when expansions return, that archive names are free, when a
      period is over, which files are deleted.
    \<^item> \<open>File_Write\<close> and \<open>File_Truncate\<close> (\<open>File/file_io.cpp\<close>): partial writes over the answers of the system, and
      cutting a log down. \<open>File_Backend\<close> (\<open>Backend/FileBackend.cpp\<close>): one backend, its log and the files around
      it, composed of the above; nothing is lost or overwritten by any rotation, and the reports on
      batches are exact. \<open>File_Worker\<close> is its asynchronous side: what is accepted reaches the log in order and
      queued data always has a time to be written. \<open>File_Schedule\<close> (\<open>File/FileManager.cpp\<close>,
      \<open>File/FileManagerFactory.cpp\<close>) is the manager that runs the backends: its intrusive list as pointers, shown
      to be an ordered list, and requests against its thread as a step relation: no request of a registered
      backend is forgotten, one made before registration is.
    \<^item> \<open>Log_Statistics\<close>, \<open>Statistics_Reports\<close> and \<open>Statistics_Protocol\<close> (\<open>LogStatistics.cpp\<close>,
      \<open>Control/Command/CmdLogStatistics.cpp\<close>): what is counted, the tables a session prints (locale
      \<open>report_order\<close>, interpreted by each sort key), and recorders against control as a step relation.
    \<^item> \<open>Record_Text\<close> and \<open>Record_Structured\<close> (\<open>Context.cpp\<close>): a record's line as text, JSON or XML, with the buffers
      as memory that writes may not leave; each backend reads exactly the line its flags ask for, and the
      structured forms are read back. Lines are shorter than 2 GiB, the bound of the code's int sizes; a text
      holds no zero byte.

  \<^bold>\<open>Control.\<close>
    \<^item> \<open>Control_Policy\<close> (\<open>Control/ControlPolicy.cpp\<close>), \<open>Control_Commands\<close> (\<open>CmdChannel.cpp\<close>, \<open>CmdBackend.cpp\<close>,
      \<open>CmdLevel.cpp\<close>), \<open>Control_Json\<close> and \<open>Control_Session\<close> (\<open>Control/Control.cpp\<close>): what a client may do before and
      after it is authorized and under each policy, what a failed command leaves alone, and that an
      answer in JSON is read back by a reference parser.

  \<^bold>\<open>Bounds and fuel.\<close> Channels may be linked in cycles and backends may log, so \<open>Display\<close> takes fuel: \<open>None\<close> is
  running out. A channel is entered once per thread at most, so the number of channels plus two is
  enough, and more fuel changes nothing (\<open>display_terminates\<close>, \<open>log_call_wellformed\<close>). Other loops are
  recursive functions with a termination proof. \<open>ReplaceAll\<close> of the code may loop forever; its model
  is a partial function into an option, and \<open>replace_all_returns\<close> says when it returns.

  \<^bold>\<open>Not modelled.\<close> System calls and what only wraps them (consoles, sockets, TLS, the event log, crash
  output), the timed waits of threads, compression; the JSON reader of the configuration, a third-party
  type; number and colour formatting; what \<open>printf\<close> makes of its arguments, which is an argument of the log
  call; macros, template code that prints arguments, and the C interface; tools, tests and examples.
\<close>

end
